(* ===== verification/Prelude.thy ===== *)
theory Prelude
  imports
    Main
    "HOL-Library.Word"
    "HOL-Library.Monad_Syntax"
    "HOL-Library.Multiset"
begin

text \<open>
  What every component shares: the C integer types at their width, the build constants of
  \<^verbatim>\<open>include/cfiber/core/macros.h\<close>, the helpers of \<^verbatim>\<open>src/cfiber/core/internal.h\<close>, the
  \<open>option\<close> discipline of the model, and the generic lemmas on words, lists and maps.

  A C function that can stop the program (a failed \<open>ASSERT\<close> of a debug build, a
  \<open>__builtin_trap\<close>) or that could read memory outside the objects the model tracks is a function
  into \<open>option\<close>: \<open>None\<close> is such a run, \<open>Some r\<close> a run that returns \<open>r\<close>. A theorem that ends in
  \<open>= Some _\<close> therefore also says that no assertion fires and no access is out of bounds.
  The target is the hosted x86_64 (LP64) build: \<open>size_t\<close>, \<open>uintptr_t\<close> and pointers are 64-bit
  words, and the null pointer is the word 0.
\<close>

unbundle bit_operations_syntax

section \<open>Machine types and build constants\<close>

type_synonym u8 = "8 word"
type_synonym u16 = "16 word"
type_synonym u32 = "32 word"
type_synonym u64 = "64 word"
type_synonym i64 = "64 word"

named_theorems const_defs \<open>the build constants, unfolded\<close>
named_theorems run_defs \<open>definitions unfolded to evaluate a run on a concrete input\<close>
named_theorems word_nat \<open>unsigned words read as natural numbers\<close>

definition CFIBER_CACHE_LINE_SIZE :: "u64" where
  "CFIBER_CACHE_LINE_SIZE = 64"

definition CFIBER_BITMAP_WORD_BITS :: "u32" where
  "CFIBER_BITMAP_WORD_BITS = 64"

definition CFIBER_BITMAP_SIZE :: "nat" where
  "CFIBER_BITMAP_SIZE = 8"

definition CFIBER_SLAB_MAX_BLOCKS :: "u32" where
  "CFIBER_SLAB_MAX_BLOCKS = CFIBER_BITMAP_WORD_BITS * of_nat CFIBER_BITMAP_SIZE"

definition ALIGNOF_MAX_ALIGN_T :: "u64" where
  "ALIGNOF_MAX_ALIGN_T = 16"

lemmas [const_defs] =
  CFIBER_CACHE_LINE_SIZE_def CFIBER_BITMAP_WORD_BITS_def CFIBER_BITMAP_SIZE_def
  CFIBER_SLAB_MAX_BLOCKS_def ALIGNOF_MAX_ALIGN_T_def

section \<open>ASSERT and align_up\<close>

text \<open>
  \<open>nd\<close> is the build: true when \<open>NDEBUG\<close> is defined, where \<open>ASSERT\<close> is \<open>((void)0)\<close>; in a debug
  build a false assertion traps.
\<close>

definition ASSERT :: "bool \<Rightarrow> bool \<Rightarrow> unit option" where
  "ASSERT nd e = (if nd then Some () else if e then Some () else None)"

lemma ASSERT_True [simp]: "ASSERT nd True = Some ()"
  by (simp add: ASSERT_def)

lemma ASSERT_ndebug [simp]: "ASSERT True e = Some ()"
  by (simp add: ASSERT_def)

lemma ASSERT_False_debug [simp]: "ASSERT False False = None"
  by (simp add: ASSERT_def)

lemma ASSERT_False_bind [simp]: "(ASSERT nd False \<bind> (\<lambda>_. r)) = (if nd then r else None)"
  by (cases nd) simp_all

definition align_up :: "u64 \<Rightarrow> u64 \<Rightarrow> u64" where
  "align_up v align = (v + align - 1) AND NOT (align - 1)"

lemmas [run_defs] = const_defs align_up_def Let_def

text \<open>Evaluating a bind: the first computation before what follows it.\<close>

lemma bind_weak_cong: "m = m' \<Longrightarrow> Option.bind m f = Option.bind m' f"
  by simp

section \<open>Words as natural numbers\<close>

lemmas [word_nat] = word_less_nat_alt word_le_nat_alt unat_div unat_mod

lemma unat_sub_le [word_nat]: "b \<le> a \<Longrightarrow> unat (a - b) = unat a - unat (b :: 'a::len word)"
  by (rule unat_sub)

lemma unat_add_no_wrap:
  "unat a + unat b < 2 ^ LENGTH('a) \<Longrightarrow> unat (a + b) = unat a + unat (b :: 'a::len word)"
  by (simp add: unat_word_ariths)

lemma unat_mult_no_wrap:
  "unat a * unat b < 2 ^ LENGTH('a) \<Longrightarrow> unat (a * b) = unat a * unat (b :: 'a::len word)"
  by (simp add: unat_word_ariths)

lemma unat_of_nat_small: "n < 2 ^ LENGTH('a) \<Longrightarrow> unat (of_nat n :: 'a::len word) = n"
  by (simp add: unat_of_nat take_bit_eq_mod)

lemma unat_lt64: "unat (x :: u64) < 2 ^ 64"
  using unsigned_less [of x] by simp

lemma unat_lt32: "unat (x :: u32) < 2 ^ 32"
  using unsigned_less [of x] by simp

lemma unat_minus_1 [simp]: "unat (- 1 :: u64) = 2 ^ 64 - 1"
proof -
  have "(- 1 :: u64) = 18446744073709551615" by simp
  then show ?thesis by (simp only: unat_numeral) simp
qed

text \<open>A list of distinct non-null pointers is shorter than the address space.\<close>

lemma distinct_words_bound:
  assumes "distinct xs" "0 \<notin> set (xs :: u64 list)"
  shows "length xs < 2 ^ 64"
proof -
  have "inj_on unat (set xs)" by (auto simp: inj_on_def word_unat_eq_iff)
  then have "length xs = card (unat ` set xs)"
    using assms(1) by (simp add: card_image distinct_card)
  also have "\<dots> \<le> card {1..<2 ^ 64 :: nat}"
  proof (rule card_mono)
    show "unat ` set xs \<subseteq> {1..<2 ^ 64}"
      using assms(2) unat_lt64 by (auto simp: Suc_le_eq unat_gt_0 intro!: Nat.gr0I)
  qed simp
  finally show ?thesis by simp
qed

lemma unat_ucast_u32 [simp]: "unat (ucast (x :: u32) :: u64) = unat x"
proof -
  have "unat x < 2 ^ LENGTH(32)" by (rule unsigned_less)
  then have "unat x < 2 ^ 64" by simp
  then show ?thesis by (simp add: unsigned_ucast_eq unsigned_take_bit_eq take_bit_eq_mod)
qed

lemma sint_small:
  assumes "unat (x :: u32) < 2 ^ 31"
  shows "sint x = int (unat x)"
proof -
  have "int (unat x) < int (2 ^ 31)" using assms by (simp only: of_nat_less_iff)
  then have "uint x < 2 ^ 31" by simp
  moreover have "- (2 ^ 31) \<le> uint x" by (rule order_trans [of _ 0]) simp_all
  ultimately have "signed_take_bit 31 (uint x) = uint x" by (intro signed_take_bit_int_eq_self)
  then have "sint x = uint x" by (simp add: sint_uint)
  then show ?thesis by simp
qed

section \<open>Maps\<close>

lemma ran_del:
  assumes "m z = Some v" "\<And>p. p \<noteq> z \<Longrightarrow> m p \<noteq> Some v"
  shows "ran (m(z := None)) = ran m - {v}"
proof (rule set_eqI)
  fix x
  have "(\<exists>p. (m(z := None)) p = Some x) \<longleftrightarrow> (\<exists>p. p \<noteq> z \<and> m p = Some x)"
    by (auto split: if_splits)
  also have "\<dots> \<longleftrightarrow> (\<exists>p. m p = Some x) \<and> x \<noteq> v"
    using assms by (metis option.inject)
  finally show "x \<in> ran (m(z := None)) \<longleftrightarrow> x \<in> ran m - {v}" by (simp add: ran_def)
qed

lemma ran_add: "m z = None \<Longrightarrow> ran (m(z \<mapsto> v)) = insert v (ran m)"
  by (rule ran_map_upd)

section \<open>align_up\<close>

lemma and_not_mask_eq: "(x :: 'a::len word) AND NOT (mask n) = x - take_bit n x"
proof -
  have "x AND NOT (mask n) = push_bit n (drop_bit n x)"
    by (rule bit_word_eqI) (auto simp: bit_and_iff bit_not_iff_eq bit_mask_iff bit_push_bit_iff bit_drop_bit_eq)
  also have "\<dots> = x - take_bit n x"
    using bits_ident [of n x] by (simp add: algebra_simps)
  finally show ?thesis .
qed

text \<open>\<open>align_up\<close> with a power of two: the least multiple at or above the value.\<close>

lemma align_up_pow2:
  assumes "unat v + (2 ^ k - 1) < 2 ^ 64" "k < 64"
  shows "unat (align_up v (2 ^ k)) = (unat v + (2 ^ k - 1)) div 2 ^ k * 2 ^ k"
proof -
  let ?x = "v + (2 ^ k - 1)"
  have "unat (of_nat (2 ^ k) :: u64) = 2 ^ k"
    by (rule unat_of_nat_small) (use power_strict_increasing [OF assms(2), of "2 :: nat"] in simp)
  then have p: "unat (2 ^ k :: u64) = 2 ^ k" by simp
  then have p1: "unat (2 ^ k - 1 :: u64) = 2 ^ k - 1"
    by (subst unat_sub) (simp_all add: word_le_nat_alt)
  have x: "unat ?x = unat v + (2 ^ k - 1)"
    using assms(1) p1 by (subst unat_add_no_wrap) auto
  have "v + 2 ^ k - 1 = ?x" by simp
  then have "align_up v (2 ^ k) = ?x - take_bit k ?x"
    by (simp only: align_up_def mask_eq_exp_minus_1 [symmetric] and_not_mask_eq)
  moreover have t: "unat (take_bit k ?x) = unat ?x mod 2 ^ k"
    by (simp add: take_bit_eq_mod unat_mod p)
  moreover have "take_bit k ?x \<le> ?x" by (simp add: word_le_nat_alt t)
  ultimately have "unat (align_up v (2 ^ k)) = unat ?x - unat ?x mod 2 ^ k"
    by (simp add: unat_sub)
  then show ?thesis using x by (simp add: minus_mod_eq_div_mult)
qed

lemma align_up_64:
  assumes "unat v + 63 < 2 ^ 64"
  shows "unat v \<le> unat (align_up v 64)" "unat (align_up v 64) < unat v + 64"
    "unat (align_up v 64) mod 64 = 0"
proof -
  have e: "unat (align_up v 64) = (unat v + 63) div 64 * 64"
    using align_up_pow2 [of v 6] assms by simp
  show "unat (align_up v 64) mod 64 = 0" using e by simp
  have "unat (align_up v 64) = unat v + 63 - (unat v + 63) mod 64"
    using e by (simp add: minus_mod_eq_div_mult)
  moreover have "(unat v + 63) mod 64 < 64" by simp
  ultimately show "unat v \<le> unat (align_up v 64)" "unat (align_up v 64) < unat v + 64"
    by linarith+
qed

end
