(* ===== verification/Memory.thy ===== *)
theory Memory
  imports Prelude
begin

text \<open>
  Byte-addressed memory, for the parts of the library that write into stacks: the start frame of a
  new fiber and the canary and watermark of the stack sanitizer. Multi-byte accesses are
  little-endian \<open>memcpy\<close>s, as on x86_64. \<open>shadow\<close> is the set of addresses AddressSanitizer holds
  as poisoned; without ASan the redzone size is 0 and it stays as it is.
\<close>

record memory =
  bytes :: "u64 \<Rightarrow> u8"
  shadow :: "u64 set"

definition byte_of :: "u64 \<Rightarrow> nat \<Rightarrow> u8" where
  "byte_of v i = ucast (drop_bit (8 * i) v)"

primrec store_bytes :: "(u64 \<Rightarrow> u8) \<Rightarrow> u64 \<Rightarrow> u8 list \<Rightarrow> u64 \<Rightarrow> u8" where
  "store_bytes m a [] = m"
| "store_bytes m a (b # bs) = store_bytes (m(a := b)) (a + 1) bs"

primrec load_bytes :: "(u64 \<Rightarrow> u8) \<Rightarrow> u64 \<Rightarrow> nat \<Rightarrow> u8 list" where
  "load_bytes m a 0 = []"
| "load_bytes m a (Suc n) = m a # load_bytes m (a + 1) n"

primrec word_of_bytes :: "u8 list \<Rightarrow> u64" where
  "word_of_bytes [] = 0"
| "word_of_bytes (b # bs) = ucast b OR push_bit 8 (word_of_bytes bs)"

definition write_u64 :: "(u64 \<Rightarrow> u8) \<Rightarrow> u64 \<Rightarrow> u64 \<Rightarrow> u64 \<Rightarrow> u8" where
  "write_u64 m a v = store_bytes m a (List.map (byte_of v) [0..<8])"

definition read_u64 :: "(u64 \<Rightarrow> u8) \<Rightarrow> u64 \<Rightarrow> u64" where
  "read_u64 m a = word_of_bytes (load_bytes m a 8)"

lemma store_bytes_other:
  "(\<And>i. i < length bs \<Longrightarrow> x \<noteq> a + of_nat i) \<Longrightarrow> store_bytes m a bs x = m x"
proof (induction bs arbitrary: m a)
  case (Cons b bs)
  have "x \<noteq> a" using Cons.prems [of 0] by simp
  have "x \<noteq> a + 1 + of_nat i" if "i < length bs" for i
    using Cons.prems [of "Suc i"] that by (simp add: algebra_simps)
  then have "store_bytes (m(a := b)) (a + 1) bs x = (m(a := b)) x" by (rule Cons.IH)
  then show ?case using \<open>x \<noteq> a\<close> by simp
qed simp

lemma load_store_bytes:
  assumes "length bs < 2 ^ 64"
  shows "load_bytes (store_bytes m a bs) a (length bs) = bs"
  using assms
proof (induction bs arbitrary: m a)
  case (Cons b bs)
  have "a \<noteq> a + 1 + of_nat i" if "i < length bs" for i
  proof
    assume "a = a + 1 + of_nat i"
    then have "(of_nat (Suc i) :: u64) = 0" by (simp add: algebra_simps)
    then have "unat (of_nat (Suc i) :: u64) = 0" by simp
    moreover have "unat (of_nat (Suc i) :: u64) = Suc i"
      using that Cons.prems by (intro unat_of_nat_small) simp
    ultimately show False by simp
  qed
  then have "store_bytes (m(a := b)) (a + 1) bs a = b" by (subst store_bytes_other) auto
  then show ?case using Cons by simp
qed simp

lemma word_of_bytes_range:
  "word_of_bytes (List.map (byte_of v) [k..<k + n]) = take_bit (8 * n) (drop_bit (8 * k) v)"
proof (induction n arbitrary: k)
  case (Suc n)
  have "[k..<k + Suc n] = k # [Suc k..<Suc k + n]" by (simp add: upt_rec [of k])
  then have "word_of_bytes (List.map (byte_of v) [k..<k + Suc n]) =
      ucast (byte_of v k) OR push_bit 8 (take_bit (8 * n) (drop_bit (8 * Suc k) v))"
    using Suc.IH [of "Suc k"] by simp
  also have "\<dots> = take_bit (8 * Suc n) (drop_bit (8 * k) v)"
  proof (rule bit_word_eqI)
    fix m assume "m < LENGTH(64)"
    then show "bit (ucast (byte_of v k) OR push_bit 8 (take_bit (8 * n) (drop_bit (8 * Suc k) v)) :: u64) m
        \<longleftrightarrow> bit (take_bit (8 * Suc n) (drop_bit (8 * k) v)) m"
      by (cases "m < 8")
        (auto simp: byte_of_def bit_or_iff bit_push_bit_iff bit_ucast_iff bit_drop_bit_eq bit_take_bit_iff
          algebra_simps dest: bit_imp_le_length)
  qed
  finally show ?case .
qed simp

lemma word_of_bytes_byte_of: "word_of_bytes (List.map (byte_of v) [0..<8]) = v"
  using word_of_bytes_range [of v 0 8] by (simp add: take_bit_word_eq_self)

lemma read_write_u64 [simp]: "read_u64 (write_u64 m a v) a = v"
proof -
  have "load_bytes (write_u64 m a v) a 8 = List.map (byte_of v) [0..<8]"
    using load_store_bytes [of "List.map (byte_of v) [0..<8]" m a] by (simp add: write_u64_def)
  then show ?thesis by (simp add: read_u64_def word_of_bytes_byte_of)
qed

lemma write_u64_other: "(\<And>i. i < 8 \<Longrightarrow> x \<noteq> a + of_nat i) \<Longrightarrow> write_u64 m a v x = m x"
  unfolding write_u64_def by (rule store_bytes_other) simp

lemma load_bytes_cong: "(\<And>i. i < n \<Longrightarrow> m (a + of_nat i) = m' (a + of_nat i)) \<Longrightarrow>
    load_bytes m a n = load_bytes m' a n"
proof (induction n arbitrary: a)
  case (Suc n)
  have "m (a + 1 + of_nat i) = m' (a + 1 + of_nat i)" if "i < n" for i
    using Suc.prems [of "Suc i"] that by (simp add: algebra_simps)
  then show ?case using Suc.IH [of "a + 1"] Suc.prems [of 0] by simp
qed simp

lemma read_u64_cong:
  "(\<And>i. i < 8 \<Longrightarrow> m (a + of_nat i) = m' (a + of_nat i)) \<Longrightarrow> read_u64 m a = read_u64 m' a"
  unfolding read_u64_def by (rule arg_cong [OF load_bytes_cong]) 

text \<open>Addresses of a range below the end of the address space, by offset.\<close>

lemma addr_offset:
  "unat a + i < 2 ^ 64 \<Longrightarrow> unat (a + of_nat i) = unat (a :: u64) + i"
proof -
  assume *: "unat a + i < 2 ^ 64"
  then have "unat (of_nat i :: u64) = i" by (intro unat_of_nat_small) simp
  then show ?thesis using * by (subst unat_add_no_wrap) simp_all
qed

end
