(* ===== verification/Fiber.thy ===== *)
theory Fiber
  imports Memory
begin

text \<open>
  Fibers: the saved context, \<open>cfiber_init\<close> of \<^verbatim>\<open>src/cfiber/fiber/fiber.c\<close> for its three
  architectures, the fiber-return hook, and the x86_64 context switch and prologue
  (\<^verbatim>\<open>context_x86_64.S\<close>, \<^verbatim>\<open>fiber_prologue_x86_64_fiber.S\<close>) over a CPU state. The lemmas say
  that a fresh fiber starts in its entry function with its argument, on an aligned stack inside its
  block, and that a switch saves exactly what a later switch back restores.
\<close>

section \<open>Context and fiber\<close>

record cfiber_context =
  cx_rsp :: u64
  cx_r15 :: u64
  cx_r14 :: u64
  cx_r13 :: u64
  cx_r12 :: u64
  cx_rbx :: u64
  cx_rbp :: u64
  cx_mxcsr :: u32
  cx_x87_cw :: u16

definition cfiber_context_zero :: cfiber_context where
  "cfiber_context_zero = \<lparr>cx_rsp = 0, cx_r15 = 0, cx_r14 = 0, cx_r13 = 0, cx_r12 = 0, cx_rbx = 0,
     cx_rbp = 0, cx_mxcsr = 0, cx_x87_cw = 0\<rparr>"

record cfiber =
  fb_ctx :: cfiber_context
  fb_stack :: u64
  fb_stack_size :: u64

record cfiber_return_hook =
  hook_fn :: u64
  hook_ctx :: u64

text \<open>The CPU state the switch and the prologue touch.\<close>

record cpu =
  rip :: u64
  rsp :: u64
  r15 :: u64
  r14 :: u64
  r13 :: u64
  r12 :: u64
  rbx :: u64
  rbp :: u64
  rdi :: u64
  mxcsr :: u32
  x87_cw :: u16

definition cpu_zero :: cpu where
  "cpu_zero = \<lparr>rip = 0, rsp = 0, r15 = 0, r14 = 0, r13 = 0, r12 = 0, rbx = 0, rbp = 0, rdi = 0,
     mxcsr = 0, x87_cw = 0\<rparr>"

section \<open>The return hook\<close>

definition cfiber_set_return_hook ::
  "u64 \<Rightarrow> u64 \<Rightarrow> cfiber_return_hook \<Rightarrow> cfiber_return_hook \<times> cfiber_return_hook" where
  "cfiber_set_return_hook fn ctx s_return_hook =
     (let prev = s_return_hook in (prev, s_return_hook\<lparr>hook_fn := fn, hook_ctx := ctx\<rparr>))"

definition cfiber_get_return_hook :: "cfiber_return_hook \<Rightarrow> cfiber_return_hook" where
  "cfiber_get_return_hook s_return_hook = s_return_hook"

text \<open>
  A hook is code of its own: \<open>call fn ctx s\<close> is what running it on state \<open>s\<close> does, \<open>Inl s'\<close> when it
  switches away for good and \<open>Inr s'\<close> when it returns. With no hook, or after one that returned,
  the epilogue traps.
\<close>

definition cfiber_epilogue ::
  "(u64 \<Rightarrow> u64 \<Rightarrow> 's \<Rightarrow> 's + 's) \<Rightarrow> cfiber_return_hook \<Rightarrow> 's \<Rightarrow> 's option" where
  "cfiber_epilogue call s_return_hook s =
     (if hook_fn s_return_hook \<noteq> 0
      then case call (hook_fn s_return_hook) (hook_ctx s_return_hook) s of
             Inl s' \<Rightarrow> Some s'
           | Inr _ \<Rightarrow> None
      else None)"

section \<open>Preparing a fiber\<close>

definition UINTPTR_MAX :: u64 where
  "UINTPTR_MAX = - 1"

text \<open>The checks every architecture makes, and the stack top.\<close>

definition fiber_stack_top :: "bool \<Rightarrow> cfiber \<Rightarrow> u64 option" where
  "fiber_stack_top nd fiber = do {
     ASSERT nd (fb_stack fiber \<noteq> 0);
     ASSERT nd (fb_stack_size fiber \<ge> 256);
     let stack_base = fb_stack fiber;
     ASSERT nd (stack_base \<le> UINTPTR_MAX - fb_stack_size fiber);
     Some (stack_base + fb_stack_size fiber)
   }"

text \<open>
  x86_64. \<open>prologue\<close> is the address of \<open>cfiber_prologue\<close>, \<open>c\<close> the creator's CPU state, from which
  the floating-point control state is inherited, and \<open>m\<close> memory.
\<close>

definition cfiber_init ::
  "bool \<Rightarrow> u64 \<Rightarrow> cpu \<Rightarrow> cfiber \<Rightarrow> u64 \<Rightarrow> u64 \<Rightarrow> (u64 \<Rightarrow> u8) \<Rightarrow> (cfiber \<times> (u64 \<Rightarrow> u8)) option" where
  "cfiber_init nd prologue c fiber func user_data m = do {
     stack_top \<leftarrow> fiber_stack_top nd fiber;
     let ctx = cfiber_context_zero;
     let stack_ptr = stack_top AND NOT 15;
     let ctx = ctx\<lparr>cx_rbx := func, cx_r12 := user_data\<rparr>;
     let ctx = ctx\<lparr>cx_mxcsr := mxcsr c, cx_x87_cw := x87_cw c\<rparr>;
     let stack_ptr = stack_ptr - 8;
     let m = write_u64 m stack_ptr prologue;
     let ctx = ctx\<lparr>cx_rsp := stack_ptr\<rparr>;
     Some (fiber\<lparr>fb_ctx := ctx\<rparr>, m)
   }"

lemmas [run_defs] = cfiber_init_def fiber_stack_top_def UINTPTR_MAX_def cfiber_set_return_hook_def

text \<open>AArch64: the registers \<open>cfiber_init\<close> sets; the stack is not written.\<close>

record aarch64_context =
  a64_sp :: u64
  a64_x19 :: u64
  a64_x20 :: u64
  a64_x29 :: u64
  a64_x30 :: u64
  a64_fpcr :: u64

definition cfiber_init_aarch64 ::
  "bool \<Rightarrow> u64 \<Rightarrow> u64 \<Rightarrow> cfiber \<Rightarrow> u64 \<Rightarrow> u64 \<Rightarrow> aarch64_context option" where
  "cfiber_init_aarch64 nd prologue fpcr fiber func user_data = do {
     stack_top \<leftarrow> fiber_stack_top nd fiber;
     let stack_ptr = stack_top AND NOT 15;
     Some \<lparr>a64_sp = stack_ptr, a64_x19 = func, a64_x20 = user_data, a64_x29 = 0, a64_x30 = prologue,
           a64_fpcr = fpcr\<rparr>
   }"

section \<open>The context switch\<close>

definition save_context :: "cpu \<Rightarrow> cfiber_context" where
  "save_context c =
     \<lparr>cx_rsp = rsp c, cx_r15 = r15 c, cx_r14 = r14 c, cx_r13 = r13 c, cx_r12 = r12 c, cx_rbx = rbx c,
      cx_rbp = rbp c, cx_mxcsr = mxcsr c, cx_x87_cw = x87_cw c\<rparr>"

text \<open>The loads, then \<open>ret\<close>, which pops the resume address.\<close>

definition load_context :: "cfiber_context \<Rightarrow> (u64 \<Rightarrow> u8) \<Rightarrow> cpu \<Rightarrow> cpu" where
  "load_context x m c =
     c\<lparr>rip := read_u64 m (cx_rsp x), rsp := cx_rsp x + 8, r15 := cx_r15 x, r14 := cx_r14 x,
       r13 := cx_r13 x, r12 := cx_r12 x, rbx := cx_rbx x, rbp := cx_rbp x,
       mxcsr := cx_mxcsr x, x87_cw := cx_x87_cw x\<rparr>"

text \<open>
  \<open>C\<close> holds the contexts by address. The old one is written before the new one is read, so a switch
  of a context to itself is a plain return.
\<close>

definition cfiber_switch_context ::
  "u64 \<Rightarrow> u64 \<Rightarrow> (u64 \<Rightarrow> cfiber_context option) \<Rightarrow> (u64 \<Rightarrow> u8) \<Rightarrow> cpu \<Rightarrow>
   ((u64 \<Rightarrow> cfiber_context option) \<times> cpu) option" where
  "cfiber_switch_context old_ctx new_ctx C m c =
     (let C' = C(old_ctx \<mapsto> save_context c) in
      case C' new_ctx of None \<Rightarrow> None | Some x \<Rightarrow> Some (C', load_context x m c))"

text \<open>\<open>call t\<close> with the return address \<open>r\<close>.\<close>

definition cpu_call :: "u64 \<Rightarrow> u64 \<Rightarrow> cpu \<Rightarrow> (u64 \<Rightarrow> u8) \<Rightarrow> cpu \<times> (u64 \<Rightarrow> u8)" where
  "cpu_call t r c m = (c\<lparr>rsp := rsp c - 8, rip := t\<rparr>, write_u64 m (rsp c - 8) r)"

text \<open>The prologue up to the entry function: \<open>mov rdi, r12; call rbx\<close>.\<close>

definition cfiber_prologue :: "u64 \<Rightarrow> cpu \<Rightarrow> (u64 \<Rightarrow> u8) \<Rightarrow> cpu \<times> (u64 \<Rightarrow> u8)" where
  "cfiber_prologue ret_addr c m = cpu_call (rbx c) ret_addr (c\<lparr>rdi := r12 c\<rparr>) m"

section \<open>The start of a fiber\<close>

lemma align_down_16:
  "unat ((x :: u64) AND NOT 15) = unat x - unat x mod 16"
proof -
  have "x AND NOT 15 = x - take_bit 4 x"
    using and_not_mask_eq [of x 4] by (simp add: mask_eq_exp_minus_1)
  moreover have "unat (take_bit 4 x) = unat x mod 16"
    by (simp add: take_bit_eq_mod unat_mod)
  moreover have "take_bit 4 x \<le> x" by (simp add: word_le_nat_alt calculation(2))
  ultimately show ?thesis by (simp add: unat_sub)
qed

definition fiber_stack_ok :: "cfiber \<Rightarrow> bool" where
  "fiber_stack_ok f \<longleftrightarrow> fb_stack f \<noteq> 0 \<and> 256 \<le> unat (fb_stack_size f) \<and>
     unat (fb_stack f) + unat (fb_stack_size f) < 2 ^ 64"

lemma fiber_stack_top_ok:
  assumes "fiber_stack_ok f"
  shows "fiber_stack_top nd f = Some (fb_stack f + fb_stack_size f)"
    "unat (fb_stack f + fb_stack_size f) = unat (fb_stack f) + unat (fb_stack_size f)"
proof -
  have a: "fb_stack f \<noteq> 0" "256 \<le> unat (fb_stack_size f)"
    "unat (fb_stack f) + unat (fb_stack_size f) < 2 ^ 64"
    using assms by (simp_all add: fiber_stack_ok_def)
  show "unat (fb_stack f + fb_stack_size f) = unat (fb_stack f) + unat (fb_stack_size f)"
    using a by (subst unat_add_no_wrap) auto
  have m: "(- 1 :: u64) = 18446744073709551615" by simp
  have "fb_stack_size f \<le> - 1" by (rule word_order.extremum)
  then have "unat (UINTPTR_MAX - fb_stack_size f) = 2 ^ 64 - 1 - unat (fb_stack_size f)"
    unfolding UINTPTR_MAX_def by (subst unat_sub) (simp_all only: m unat_numeral, simp)
  then have "fb_stack f \<le> UINTPTR_MAX - fb_stack_size f"
    unfolding word_le_nat_alt using a(3) by linarith
  moreover have "256 \<le> fb_stack_size f" using a by (simp add: word_le_nat_alt)
  ultimately show "fiber_stack_top nd f = Some (fb_stack f + fb_stack_size f)"
    using a by (simp add: fiber_stack_top_def)
qed

text \<open>What \<open>cfiber_init\<close> leaves: the first resume address on the stack and the registers.\<close>

lemma cfiber_init_spec:
  assumes ok: "fiber_stack_ok f"
  obtains f' m' where "cfiber_init nd prologue c f func ud m = Some (f', m')"
    "fb_stack f' = fb_stack f" "fb_stack_size f' = fb_stack_size f"
    "cx_rbx (fb_ctx f') = func" "cx_r12 (fb_ctx f') = ud" "cx_rbp (fb_ctx f') = 0"
    "cx_mxcsr (fb_ctx f') = mxcsr c" "cx_x87_cw (fb_ctx f') = x87_cw c"
    "read_u64 m' (cx_rsp (fb_ctx f')) = prologue"
    "(unat (cx_rsp (fb_ctx f')) + 8) mod 16 = 0"
    "unat (fb_stack f) \<le> unat (cx_rsp (fb_ctx f'))"
    "unat (cx_rsp (fb_ctx f')) + 8 \<le> unat (fb_stack f) + unat (fb_stack_size f)"
    "\<forall>x. unat x < unat (fb_stack f) \<or> unat (fb_stack f) + unat (fb_stack_size f) \<le> unat x \<longrightarrow>
       m' x = m x"
proof -
  have a: "fb_stack f \<noteq> 0" "256 \<le> unat (fb_stack_size f)"
    "unat (fb_stack f) + unat (fb_stack_size f) < 2 ^ 64"
    using ok by (simp_all add: fiber_stack_ok_def)
  let ?top = "fb_stack f + fb_stack_size f"
  let ?al = "?top AND NOT 15"
  let ?sp = "?al - 8"
  let ?m = "write_u64 m ?sp prologue"
  have top: "unat ?top = unat (fb_stack f) + unat (fb_stack_size f)" by (rule fiber_stack_top_ok(2) [OF ok])
  have al: "unat ?al = unat ?top - unat ?top mod 16" by (rule align_down_16)
  have al_mod: "unat ?al mod 16 = 0" unfolding al by (simp add: minus_mod_eq_mult_div)
  have r: "unat ?top mod 16 < 16" by simp
  have "8 \<le> unat ?al" using al top a r by linarith
  then have sp: "unat ?sp = unat ?al - 8" by (subst unat_sub) (simp_all add: word_le_nat_alt)
  have bounds: "unat (fb_stack f) \<le> unat ?sp" "unat ?sp + 8 = unat ?al" "unat ?al \<le> unat ?top"
    using sp al top a r by linarith+
  show thesis
  proof (rule that)
    show "cfiber_init nd prologue c f func ud m = Some (f\<lparr>fb_ctx := cfiber_context_zero
        \<lparr>cx_rbx := func, cx_r12 := ud, cx_mxcsr := mxcsr c, cx_x87_cw := x87_cw c, cx_rsp := ?sp\<rparr>\<rparr>, ?m)"
      using fiber_stack_top_ok(1) [OF ok] by (simp add: cfiber_init_def Let_def)
    show "\<forall>x. unat x < unat (fb_stack f) \<or> unat (fb_stack f) + unat (fb_stack_size f) \<le> unat x \<longrightarrow>
        ?m x = m x"
    proof (intro allI impI)
      fix x :: u64 assume x: "unat x < unat (fb_stack f) \<or> unat (fb_stack f) + unat (fb_stack_size f) \<le> unat x"
      show "?m x = m x"
      proof (rule write_u64_other)
        fix i :: nat assume i: "i < 8"
        have "unat ?sp + i < 2 ^ 64" using bounds i top a by linarith
        then have "unat (?sp + of_nat i) = unat ?sp + i" by (rule addr_offset)
        then show "x \<noteq> ?sp + of_nat i" using x i bounds top by auto
      qed
    qed
  qed (use bounds al_mod top in \<open>simp_all add: cfiber_context_zero_def\<close>)
qed

text \<open>A saved context, loaded again, is the state at the return of the saving call.\<close>

lemma load_save_context:
  "load_context (save_context c) m c' =
     c'\<lparr>rip := read_u64 m (rsp c), rsp := rsp c + 8, r15 := r15 c, r14 := r14 c, r13 := r13 c,
        r12 := r12 c, rbx := rbx c, rbp := rbp c, mxcsr := mxcsr c, x87_cw := x87_cw c\<rparr>"
  by (simp add: load_context_def save_context_def)

text \<open>Switching to a fiber that \<open>cfiber_init\<close> prepared.\<close>

lemma init_switch:
  assumes i: "cfiber_init nd prologue c f func ud m = Some (f', m')" and ok: "fiber_stack_ok f" and room: "a \<noteq> b"
    and C: "C b = Some (fb_ctx f')"
  shows "\<exists>C' c1 c2 m2. cfiber_switch_context a b C m' c0 = Some (C', c1) \<and> C' a = Some (save_context c0) \<and>
     rip c1 = prologue \<and> cfiber_prologue ret c1 m' = (c2, m2) \<and>
     rip c2 = func \<and> rdi c2 = ud \<and> mxcsr c2 = mxcsr c \<and> x87_cw c2 = x87_cw c \<and>
     (unat (rsp c2) + 8) mod 16 = 0 \<and> unat (fb_stack f) \<le> unat (rsp c2) \<and>
     unat (rsp c2) + 8 \<le> unat (fb_stack f) + unat (fb_stack_size f)"
proof (rule cfiber_init_spec [OF ok, of nd prologue c func ud m])
  fix g m1
  assume I: "cfiber_init nd prologue c f func ud m = Some (g, m1)"
    "cx_rbx (fb_ctx g) = func" "cx_r12 (fb_ctx g) = ud"
    "cx_mxcsr (fb_ctx g) = mxcsr c" "cx_x87_cw (fb_ctx g) = x87_cw c" "read_u64 m1 (cx_rsp (fb_ctx g)) = prologue"
    "(unat (cx_rsp (fb_ctx g)) + 8) mod 16 = 0" "unat (fb_stack f) \<le> unat (cx_rsp (fb_ctx g))"
    "unat (cx_rsp (fb_ctx g)) + 8 \<le> unat (fb_stack f) + unat (fb_stack_size f)"
  have e: "g = f'" "m1 = m'" using i I(1) by simp_all
  have sw: "cfiber_switch_context a b C m' c0 = Some (C(a \<mapsto> save_context c0), load_context (fb_ctx f') m' c0)"
    using room C by (simp add: cfiber_switch_context_def Let_def)
  have "rsp (load_context (fb_ctx f') m' c0) - 8 = cx_rsp (fb_ctx f')" by (simp add: load_context_def)
  then show ?thesis
    using I(2-) sw unfolding e by (auto simp: cfiber_prologue_def cpu_call_def load_context_def)
qed

section \<open>Properties\<close>

text \<open>Property C32. A fiber prepared by \<open>cfiber_init\<close> on any stack that passes its assertions, once
  switched to, runs the prologue and enters its function with the user data as the argument, on a
  stack pointer that has the ABI's alignment at a function entry and lies inside the fiber's stack,
  with the creator's floating-point control state; the switched-out context keeps the caller.\<close>

theorem fresh_fiber_starts:
  assumes ok: "fiber_stack_ok f" and room: "a \<noteq> b"
  shows "\<exists>f' m' C' c1 c2 m2. cfiber_init nd prologue c f func ud m = Some (f', m') \<and>
     cfiber_switch_context a b (C(b \<mapsto> fb_ctx f')) m' c0 = Some (C', c1) \<and>
     C' a = Some (save_context c0) \<and> rip c1 = prologue \<and>
     cfiber_prologue ret c1 m' = (c2, m2) \<and>
     rip c2 = func \<and> rdi c2 = ud \<and> mxcsr c2 = mxcsr c \<and> x87_cw c2 = x87_cw c \<and>
     (unat (rsp c2) + 8) mod 16 = 0 \<and> unat (fb_stack f) \<le> unat (rsp c2) \<and>
     unat (rsp c2) + 8 \<le> unat (fb_stack f) + unat (fb_stack_size f)"
proof -
  obtain f' m' where "cfiber_init nd prologue c f func ud m = Some (f', m')"
    by (rule cfiber_init_spec [OF ok, of nd prologue c func ud m])
  then show ?thesis using init_switch [OF _ ok room, of nd prologue c func ud m f' m' "C(b \<mapsto> fb_ctx f')"] by fastforce
qed

lemma fresh_fiber_starts_witness:
  "\<exists>f' m' C' c1 c2 m2.
     cfiber_init False 64 (cpu_zero\<lparr>mxcsr := 8064\<rparr>)
       \<lparr>fb_ctx = cfiber_context_zero, fb_stack = 4096, fb_stack_size = 520\<rparr> 77 88 (\<lambda>_. 0) = Some (f', m') \<and>
     cfiber_switch_context 1 2 (Map.empty(2 \<mapsto> fb_ctx f')) m' cpu_zero = Some (C', c1) \<and> rip c1 = 64 \<and>
     cfiber_prologue 5 c1 m' = (c2, m2) \<and> rip c2 = 77 \<and> rdi c2 = 88 \<and> mxcsr c2 = 8064"
proof -
  let ?f = "\<lparr>fb_ctx = cfiber_context_zero, fb_stack = 4096, fb_stack_size = 520\<rparr>"
  have "fiber_stack_ok ?f" by (simp add: fiber_stack_ok_def)
  from fresh_fiber_starts [OF this, of 1 2 False 64 "cpu_zero\<lparr>mxcsr := 8064\<rparr>" 77 88 "\<lambda>_. 0"
      Map.empty cpu_zero 5] show ?thesis by auto
qed

text \<open>Property C33. A switch saves exactly what a switch back restores: if the context saved by a
  switch and the resume address on its stack are intact when something switches to it again, the
  caller continues after its call with its stack pointer, every callee-saved register and the
  floating-point control state as they were.\<close>

theorem switch_round_trip:
  assumes out: "cfiber_switch_context a b C m c = Some (C1, c1)" and ab: "a \<noteq> b"
    and kept: "C2 a = C1 a" "read_u64 m2 (rsp c) = read_u64 m (rsp c)"
    and again: "cfiber_switch_context x a C2 m2 c2 = Some (C3, c3)" and xa: "x \<noteq> a"
  shows "rip c3 = read_u64 m (rsp c) \<and> rsp c3 = rsp c + 8 \<and> rbx c3 = rbx c \<and> rbp c3 = rbp c \<and>
    r12 c3 = r12 c \<and> r13 c3 = r13 c \<and> r14 c3 = r14 c \<and> r15 c3 = r15 c \<and>
    mxcsr c3 = mxcsr c \<and> x87_cw c3 = x87_cw c \<and> C3 x = Some (save_context c2)"
proof -
  have "C1 a = Some (save_context c)"
    using out ab by (auto simp: cfiber_switch_context_def Let_def split: option.splits)
  then have "c3 = load_context (save_context c) m2 c2" "C3 = C2(x \<mapsto> save_context c2)"
    using again xa kept by (auto simp: cfiber_switch_context_def Let_def)
  then show ?thesis using kept(2) by (auto simp: load_save_context)
qed

lemma switch_round_trip_witness:
  "\<exists>C1 c1 C3 c3.
     cfiber_switch_context 1 2 (Map.empty(2 \<mapsto> cfiber_context_zero)) (\<lambda>_. 7) (cpu_zero\<lparr>rsp := 8000, rbx := 5\<rparr>)
       = Some (C1, c1) \<and>
     cfiber_switch_context 2 1 C1 (\<lambda>_. 7) c1 = Some (C3, c3) \<and> rbx c3 = 5 \<and> rsp c3 = 8008"
proof -
  let ?c = "cpu_zero\<lparr>rsp := 8000, rbx := 5\<rparr>"
  let ?C = "Map.empty(2 \<mapsto> cfiber_context_zero)"
  obtain C1 c1 where 1: "cfiber_switch_context 1 2 ?C (\<lambda>_. 7) ?c = Some (C1, c1)"
    by (simp add: cfiber_switch_context_def)
  then have "C1 1 \<noteq> None" by (auto simp: cfiber_switch_context_def)
  then obtain C3 c3 where 2: "cfiber_switch_context 2 1 C1 (\<lambda>_. 7) c1 = Some (C3, c3)"
    by (auto simp: cfiber_switch_context_def)
  have "(1 :: u64) \<noteq> 2" "(2 :: u64) \<noteq> 1" by simp_all
  from switch_round_trip [OF 1 this(1) refl refl 2 this(2)] 1 2 show ?thesis by auto
qed

text \<open>The epilogue: it stops the program unless a hook is set and switches away.\<close>

lemma epilogue_traps:
  "cfiber_epilogue call h s = None \<longleftrightarrow> hook_fn h = 0 \<or> (\<exists>s'. call (hook_fn h) (hook_ctx h) s = Inr s')"
  by (auto simp: cfiber_epilogue_def split: sum.splits)

lemma hook_restored:
  "cfiber_set_return_hook f x h = (prev, h1) \<Longrightarrow>
     snd (cfiber_set_return_hook (hook_fn prev) (hook_ctx prev) h1) = h \<and> cfiber_get_return_hook h1 = \<lparr>hook_fn = f, hook_ctx = x\<rparr>"
  by (cases h) (auto simp: cfiber_set_return_hook_def cfiber_get_return_hook_def Let_def)

end
