(* ===== verification/Pool.thy ===== *)
theory Pool
  imports Prelude
begin

text \<open>
  The interface through which the stack allocator, the scheduler and the reactor use an allocator
  of fixed-size blocks: what \<open>alloc\<close> and \<open>release\<close> promise about the set of live blocks. The slab
  and the multislab provide it (theories \<open>Slab\<close> and \<open>Multislab\<close> interpret it); the lemmas of the
  locale are the facts clients rest on: blocks handed out are pairwise distinct and disjoint, and
  returning what was taken restores the set of live blocks.
\<close>

text \<open>Take \<open>n\<close> blocks, stopping at the first null.\<close>

fun alloc_many :: "('s \<Rightarrow> (u64 \<times> 's) option) \<Rightarrow> nat \<Rightarrow> 's \<Rightarrow> (u64 list \<times> 's) option" where
  "alloc_many alloc 0 s = Some ([], s)"
| "alloc_many alloc (Suc n) s = do {
     (p, s) \<leftarrow> alloc s;
     if p = 0 then Some ([], s)
     else do { (ps, s) \<leftarrow> alloc_many alloc n s; Some (p # ps, s) }
   }"

fun release_many :: "('s \<Rightarrow> u64 \<Rightarrow> 's option) \<Rightarrow> u64 list \<Rightarrow> 's \<Rightarrow> 's option" where
  "release_many release [] s = Some s"
| "release_many release (p # ps) s = do { s \<leftarrow> release s p; release_many release ps s }"

definition block_range :: "nat \<Rightarrow> u64 \<Rightarrow> nat set" where
  "block_range sz p = {unat p ..< unat p + sz}"

locale block_pool =
  fixes inv :: "'s \<Rightarrow> bool"
    and live :: "'s \<Rightarrow> u64 set"
    and bsz :: "'s \<Rightarrow> nat"
    and alloc :: "'s \<Rightarrow> (u64 \<times> 's) option"
    and release :: "'s \<Rightarrow> u64 \<Rightarrow> 's option"
  assumes alloc_returns: "inv s \<Longrightarrow> \<exists>p s'. alloc s = Some (p, s') \<and> inv s' \<and> bsz s' = bsz s"
    and alloc_null: "inv s \<Longrightarrow> alloc s = Some (0, s') \<Longrightarrow> live s' = live s"
    and alloc_block: "inv s \<Longrightarrow> alloc s = Some (p, s') \<Longrightarrow> p \<noteq> 0 \<Longrightarrow>
      p \<notin> live s \<and> live s' = insert p (live s)"
    and release_live: "inv s \<Longrightarrow> p \<in> live s \<Longrightarrow>
      \<exists>s'. release s p = Some s' \<and> inv s' \<and> live s' = live s - {p} \<and> bsz s' = bsz s"
    and live_nonnull: "inv s \<Longrightarrow> 0 \<notin> live s"
    and live_disjoint: "inv s \<Longrightarrow> p \<in> live s \<Longrightarrow> q \<in> live s \<Longrightarrow> p \<noteq> q \<Longrightarrow>
      block_range (bsz s) p \<inter> block_range (bsz s) q = {}"
begin

lemma alloc_many_fresh:
  "inv s \<Longrightarrow> \<exists>ps s'. alloc_many alloc n s = Some (ps, s') \<and> inv s' \<and> bsz s' = bsz s \<and>
     distinct ps \<and> set ps \<inter> live s = {} \<and> live s' = live s \<union> set ps \<and> length ps \<le> n"
proof (induction n arbitrary: s)
  case (Suc n)
  from alloc_returns [OF Suc.prems] obtain p s1
    where s1: "alloc s = Some (p, s1)" "inv s1" "bsz s1 = bsz s" by blast
  show ?case
  proof (cases "p = 0")
    case True
    then show ?thesis using s1 alloc_null [OF Suc.prems] by simp
  next
    case False
    from Suc.IH [OF s1(2)] obtain ps s2 where "alloc_many alloc n s1 = Some (ps, s2)" "inv s2"
      "bsz s2 = bsz s1" "distinct ps" "set ps \<inter> live s1 = {}" "live s2 = live s1 \<union> set ps"
      "length ps \<le> n" by blast
    then show ?thesis
      using False s1 alloc_block [OF Suc.prems s1(1) False] by auto
  qed
qed simp

lemma release_many_live:
  "inv s \<Longrightarrow> distinct ps \<Longrightarrow> set ps \<subseteq> live s \<Longrightarrow>
     \<exists>s'. release_many release ps s = Some s' \<and> inv s' \<and> live s' = live s - set ps"
proof (induction ps arbitrary: s)
  case (Cons p ps)
  have "p \<in> live s" using Cons.prems by simp
  from release_live [OF Cons.prems(1) this] obtain s1
    where s1: "release s p = Some s1" "inv s1" "live s1 = live s - {p}" by blast
  have "distinct ps" "set ps \<subseteq> live s1" using Cons.prems s1(3) by auto
  from Cons.IH [OF s1(2) this] obtain s2
    where "release_many release ps s1 = Some s2" "inv s2" "live s2 = live s1 - set ps" by blast
  then show ?case using s1 by auto
qed simp

text \<open>Blocks taken together are pairwise disjoint, and giving them all back undoes the taking.\<close>

lemma alloc_many_disjoint:
  assumes "inv s" "alloc_many alloc n s = Some (ps, s')" "p \<in> set ps" "q \<in> live s'" "p \<noteq> q"
  shows "block_range (bsz s) p \<inter> block_range (bsz s) q = {}"
  using alloc_many_fresh [OF assms(1), of n] live_disjoint [of s' p q] assms(2-5) by auto

lemma alloc_release_many:
  assumes "inv s" "alloc_many alloc n s = Some (ps, s')"
  shows "\<exists>s''. release_many release ps s' = Some s'' \<and> inv s'' \<and> live s'' = live s"
proof -
  from alloc_many_fresh [OF assms(1), of n] assms(2)
  have f: "inv s'" "distinct ps" "set ps \<inter> live s = {}" "live s' = live s \<union> set ps" by auto
  with release_many_live [of s' ps] show ?thesis by auto
qed

end

end
