(* ===== verification/Slab.thy ===== *)
theory Slab
  imports Pool
begin

text \<open>
  The slab allocator of \<^verbatim>\<open>src/cfiber/memory/slab_alloc.c\<close>: a region the caller owns, cut into
  blocks of one size, with a bitmap of \<open>CFIBER_BITMAP_SIZE\<close> words saying which are handed out.
  The definitions follow the file top to bottom; then come the abstraction to the set of used
  block indices, the invariant \<open>slab_inv\<close> that every operation keeps, and the behaviour of each
  operation on every branch.
\<close>

section \<open>The code\<close>

record cfiber_slab =
  sl_memory :: u64
  sl_block_size :: u64
  sl_block_count :: u32
  sl_bitmap :: "u64 list"
  sl_bitmap_count :: u32

definition INDEX_BITMAP :: "u32 \<Rightarrow> u32" where
  "INDEX_BITMAP x = x div CFIBER_BITMAP_WORD_BITS"

definition INDEX_TO_BIT :: "u32 \<Rightarrow> u64" where
  "INDEX_TO_BIT x = push_bit (unat (x AND (CFIBER_BITMAP_WORD_BITS - 1))) 1"

definition ptr_to_index :: "cfiber_slab \<Rightarrow> u64 \<Rightarrow> u32" where
  "ptr_to_index slab ptr = ucast ((ptr - sl_memory slab) div sl_block_size slab)"

definition index_to_ptr :: "cfiber_slab \<Rightarrow> u32 \<Rightarrow> u64" where
  "index_to_ptr slab index = sl_memory slab + ucast index * sl_block_size slab"

text \<open>A word of the bitmap outside the array is an access the model refuses with \<open>None\<close>.\<close>

definition bitmap_test :: "u64 list \<Rightarrow> u32 \<Rightarrow> bool option" where
  "bitmap_test bitmap index =
     (let w = unat (INDEX_BITMAP index) in
      if w < length bitmap then Some (bitmap ! w AND INDEX_TO_BIT index \<noteq> 0) else None)"

definition bitmap_set :: "u64 list \<Rightarrow> u32 \<Rightarrow> u64 list option" where
  "bitmap_set bitmap index =
     (let w = unat (INDEX_BITMAP index) in
      if w < length bitmap then Some (bitmap[w := bitmap ! w OR INDEX_TO_BIT index]) else None)"

definition bitmap_clear :: "u64 list \<Rightarrow> u32 \<Rightarrow> u64 list option" where
  "bitmap_clear bitmap index =
     (let w = unat (INDEX_BITMAP index) in
      if w < length bitmap then Some (bitmap[w := bitmap ! w AND NOT (INDEX_TO_BIT index)])
      else None)"

text \<open>\<open>__builtin_ctzll\<close>: the number of zero bits below the lowest set bit (undefined for 0).\<close>

definition ctz :: "u64 \<Rightarrow> nat" where
  "ctz x = length (takeWhile (\<lambda>n. \<not> bit x n) [0..<64])"

function bitmap_find_free_from :: "u64 list \<Rightarrow> nat \<Rightarrow> u32 \<Rightarrow> u32 \<Rightarrow> int option" where
  "bitmap_find_free_from bitmap i words capacity =
     (if i < unat words then
        if i < length bitmap then
          let inv = NOT (bitmap ! i) in
          if inv \<noteq> 0 then
            let index = of_nat i * CFIBER_BITMAP_WORD_BITS + of_nat (ctz inv) in
            if index < capacity then Some (sint index)
            else bitmap_find_free_from bitmap (Suc i) words capacity
          else bitmap_find_free_from bitmap (Suc i) words capacity
        else None
      else Some (- 1))"
  by pat_completeness auto
termination
  by (relation "measure (\<lambda>(bitmap, i, words, capacity). unat words - i)") auto

declare bitmap_find_free_from.simps [simp del]

definition bitmap_find_free :: "u64 list \<Rightarrow> u32 \<Rightarrow> u32 \<Rightarrow> int option" where
  "bitmap_find_free bitmap words capacity = bitmap_find_free_from bitmap 0 words capacity"

definition cfiber_slab_init ::
  "bool \<Rightarrow> cfiber_slab \<Rightarrow> u64 \<Rightarrow> u64 \<Rightarrow> u64 \<Rightarrow> (int \<times> cfiber_slab) option" where
  "cfiber_slab_init nd alloc block_size memory memory_size =
     (if block_size = 0 \<or> block_size mod CFIBER_CACHE_LINE_SIZE \<noteq> 0 \<or> memory_size < block_size
      then do { ASSERT nd False; Some (- 1, alloc) }
      else if memory mod ALIGNOF_MAX_ALIGN_T \<noteq> 0
      then do { ASSERT nd False; Some (- 1, alloc) }
      else
        let count = memory_size div block_size in
        if count > ucast CFIBER_SLAB_MAX_BLOCKS
        then do { ASSERT nd False; Some (- 1, alloc) }
        else
          let block_count = ucast count in
          Some (0, alloc
            \<lparr>sl_memory := memory,
             sl_block_size := block_size,
             sl_block_count := block_count,
             sl_bitmap_count :=
               (block_count + CFIBER_BITMAP_WORD_BITS - 1) div CFIBER_BITMAP_WORD_BITS,
             sl_bitmap := replicate CFIBER_BITMAP_SIZE 0\<rparr>))"

definition cfiber_slab_alloc :: "cfiber_slab \<Rightarrow> (u64 \<times> cfiber_slab) option" where
  "cfiber_slab_alloc slab = do {
     index \<leftarrow> bitmap_find_free (sl_bitmap slab) (sl_bitmap_count slab) (sl_block_count slab);
     if index < 0 then Some (0, slab)
     else do {
       bitmap \<leftarrow> bitmap_set (sl_bitmap slab) (word_of_int index);
       Some (index_to_ptr slab (word_of_int index), slab\<lparr>sl_bitmap := bitmap\<rparr>)
     }
   }"

definition cfiber_slab_release :: "bool \<Rightarrow> cfiber_slab \<Rightarrow> u64 \<Rightarrow> (bool \<times> cfiber_slab) option" where
  "cfiber_slab_release nd slab block =
     (let total_memory_size = sl_block_size slab * ucast (sl_block_count slab);
          base = sl_memory slab in
      if block < base \<or> block \<ge> base + total_memory_size
      then do { ASSERT nd False; Some (False, slab) }
      else if (block - base) mod sl_block_size slab \<noteq> 0
      then do { ASSERT nd False; Some (False, slab) }
      else
        let index = ptr_to_index slab block in
        do {
          allocated \<leftarrow> bitmap_test (sl_bitmap slab) index;
          if \<not> allocated then do { ASSERT nd False; Some (False, slab) }
          else do {
            bitmap \<leftarrow> bitmap_clear (sl_bitmap slab) index;
            Some (True, slab\<lparr>sl_bitmap := bitmap\<rparr>)
          }
        })"

definition cfiber_slab_reset :: "cfiber_slab \<Rightarrow> cfiber_slab" where
  "cfiber_slab_reset alloc = alloc\<lparr>sl_bitmap := replicate CFIBER_BITMAP_SIZE 0\<rparr>"

lemmas [run_defs] = cfiber_slab_init_def cfiber_slab_alloc_def bitmap_find_free_def
  bitmap_find_free_from.simps ctz_def upt_rec bitmap_set_def INDEX_BITMAP_def INDEX_TO_BIT_def
  index_to_ptr_def ptr_to_index_def bitmap_test_def bitmap_clear_def cfiber_slab_release_def


section \<open>Bits and indices\<close>

definition bm_bit :: "u64 list \<Rightarrow> nat \<Rightarrow> bool" where
  "bm_bit bitmap i = bit (bitmap ! (i div 64)) (i mod 64)"

text \<open>The bit array a bitmap is: reading and writing one index.\<close>

lemma unat_INDEX_BITMAP: "unat (INDEX_BITMAP x) = unat x div 64"
  by (simp add: INDEX_BITMAP_def const_defs word_nat)

lemma INDEX_TO_BIT_eq: "INDEX_TO_BIT x = 2 ^ (unat x mod 64)"
proof -
  have "x AND 63 = take_bit 6 x"
    by (simp add: take_bit_eq_mask mask_eq_exp_minus_1)
  then have "unat (x AND 63) = unat x mod 64"
    by (simp add: take_bit_eq_mod unat_mod)
  then show ?thesis
    by (simp add: INDEX_TO_BIT_def const_defs)
qed

lemma bit_INDEX_TO_BIT: "bit (INDEX_TO_BIT x) n \<longleftrightarrow> n = unat x mod 64"
  by (auto simp: INDEX_TO_BIT_eq bit_exp_iff)

lemma bitmap_test_eq:
  "unat index div 64 < length bitmap \<Longrightarrow> bitmap_test bitmap index = Some (bm_bit bitmap (unat index))"
  by (simp add: bitmap_test_def unat_INDEX_BITMAP bm_bit_def INDEX_TO_BIT_eq and_exp_eq_0_iff_not_bit
      Let_def)

lemma divmod64_eq: "(i::nat) div 64 = j div 64 \<Longrightarrow> i mod 64 = j mod 64 \<Longrightarrow> i = j"
  by (metis div_mult_mod_eq)

lemma bitmap_set_eq:
  assumes "unat index div 64 < length bitmap"
  obtains bitmap' where "bitmap_set bitmap index = Some bitmap'" "length bitmap' = length bitmap"
    "\<And>i. bm_bit bitmap' i \<longleftrightarrow> bm_bit bitmap i \<or> i = unat index"
proof
  let ?w = "unat index div 64"
  let ?b = "bitmap[?w := bitmap ! ?w OR INDEX_TO_BIT index]"
  show "bitmap_set bitmap index = Some ?b"
    using assms by (simp add: bitmap_set_def unat_INDEX_BITMAP Let_def)
  show "bm_bit ?b i \<longleftrightarrow> bm_bit bitmap i \<or> i = unat index" for i
    using assms by (auto simp: bm_bit_def nth_list_update bit_or_iff bit_INDEX_TO_BIT dest: divmod64_eq)
qed simp

lemma bitmap_clear_eq:
  assumes "unat index div 64 < length bitmap"
  obtains bitmap' where "bitmap_clear bitmap index = Some bitmap'" "length bitmap' = length bitmap"
    "\<And>i. bm_bit bitmap' i \<longleftrightarrow> bm_bit bitmap i \<and> i \<noteq> unat index"
proof
  let ?w = "unat index div 64"
  let ?b = "bitmap[?w := bitmap ! ?w AND NOT (INDEX_TO_BIT index)]"
  show "bitmap_clear bitmap index = Some ?b"
    using assms by (simp add: bitmap_clear_def unat_INDEX_BITMAP Let_def)
  show "bm_bit ?b i \<longleftrightarrow> bm_bit bitmap i \<and> i \<noteq> unat index" for i
    using assms
    by (auto simp: bm_bit_def nth_list_update bit_and_iff bit_not_iff_eq bit_INDEX_TO_BIT
        dest: divmod64_eq)
qed simp

lemma ctz_props:
  assumes "x \<noteq> 0"
  shows "ctz x < 64" "bit x (ctz x)" "\<And>j. j < ctz x \<Longrightarrow> \<not> bit x j"
proof -
  from assms obtain n where n: "bit x n" by (auto simp: bit_eq_iff)
  then have n64: "n < 64" by (auto dest: bit_imp_le_length)
  let ?t = "takeWhile (\<lambda>n. \<not> bit x n) [0..<64]"
  have lt: "length ?t < length [0..<64::nat]"
  proof (rule ccontr)
    assume "\<not> length ?t < length [0..<64::nat]"
    then have "?t = [0..<64]"
      by (metis length_takeWhile_le linorder_not_le order_antisym takeWhile_eq_take take_all_iff)
    then have "n \<in> set ?t" using n64 by (simp only: set_upt) auto
    then show False using n by (auto dest: set_takeWhileD)
  qed
  then show c: "ctz x < 64" by (simp add: ctz_def)
  show "bit x (ctz x)" using nth_length_takeWhile [OF lt] c by (simp add: ctz_def)
  show "\<not> bit x j" if "j < ctz x" for j
  proof -
    have "?t ! j \<in> set ?t" using that by (simp add: ctz_def)
    moreover have "?t ! j = j" using that c by (simp add: ctz_def takeWhile_nth)
    ultimately show ?thesis by (auto dest: set_takeWhileD)
  qed
qed

section \<open>Invariant and abstraction\<close>

definition slab_inv :: "cfiber_slab \<Rightarrow> bool" where
  "slab_inv s \<longleftrightarrow>
     sl_memory s \<noteq> 0 \<and> unat (sl_memory s) mod 16 = 0 \<and>
     0 < unat (sl_block_size s) \<and> unat (sl_block_size s) mod 64 = 0 \<and>
     0 < unat (sl_block_count s) \<and> unat (sl_block_count s) \<le> 512 \<and>
     unat (sl_memory s) + unat (sl_block_size s) * unat (sl_block_count s) < 2 ^ 64 \<and>
     length (sl_bitmap s) = 8 \<and>
     unat (sl_bitmap_count s) = (unat (sl_block_count s) + 63) div 64 \<and>
     (\<forall>i < 512. bm_bit (sl_bitmap s) i \<longrightarrow> i < unat (sl_block_count s))"

definition slab_used :: "cfiber_slab \<Rightarrow> nat set" where
  "slab_used s = {i. i < unat (sl_block_count s) \<and> bm_bit (sl_bitmap s) i}"

definition slab_addr :: "cfiber_slab \<Rightarrow> nat \<Rightarrow> u64" where
  "slab_addr s i = sl_memory s + of_nat i * sl_block_size s"

definition slab_live :: "cfiber_slab \<Rightarrow> u64 set" where
  "slab_live s = slab_addr s ` slab_used s"

definition same_slab :: "cfiber_slab \<Rightarrow> cfiber_slab \<Rightarrow> bool" where
  "same_slab s s' \<longleftrightarrow> (\<exists>bm. s' = s\<lparr>sl_bitmap := bm\<rparr>)"

lemma same_slab_fields:
  assumes "same_slab s s'"
  shows "sl_memory s' = sl_memory s" "sl_block_size s' = sl_block_size s"
    "sl_block_count s' = sl_block_count s" "sl_bitmap_count s' = sl_bitmap_count s"
    "slab_addr s' = slab_addr s"
  using assms by (auto simp: same_slab_def slab_addr_def fun_eq_iff)

lemma finite_slab_used [simp]: "finite (slab_used s)"
  by (simp add: slab_used_def)

lemma slab_used_bound: "slab_used s \<subseteq> {..<unat (sl_block_count s)}"
  by (auto simp: slab_used_def)

lemma slab_invD:
  assumes "slab_inv s"
  shows "sl_memory s \<noteq> 0" "0 < unat (sl_block_size s)" "0 < unat (sl_block_count s)"
    "unat (sl_block_count s) \<le> 512"
    "unat (sl_memory s) + unat (sl_block_size s) * unat (sl_block_count s) < 2 ^ 64"
    "length (sl_bitmap s) = 8" "unat (sl_bitmap_count s) = (unat (sl_block_count s) + 63) div 64"
    "\<And>i. i < 512 \<Longrightarrow> bm_bit (sl_bitmap s) i \<Longrightarrow> i < unat (sl_block_count s)"
    "unat (sl_block_size s) mod 64 = 0" "unat (sl_memory s) mod 16 = 0"
  using assms by (auto simp: slab_inv_def)

text \<open>The address of block \<open>i\<close>, without wrap-around; distinct blocks have distinct addresses.\<close>

lemma slab_addr_unat:
  assumes "slab_inv s" "i \<le> unat (sl_block_count s)"
  shows "unat (slab_addr s i) = unat (sl_memory s) + i * unat (sl_block_size s)"
proof -
  have i: "unat (of_nat i :: u64) = i"
    using assms slab_invD(4) [OF assms(1)] by (intro unat_of_nat_small) simp
  have "i * unat (sl_block_size s) \<le> unat (sl_block_count s) * unat (sl_block_size s)"
    using assms(2) by (rule mult_le_mono1)
  then have le: "unat (sl_memory s) + i * unat (sl_block_size s) < 2 ^ 64"
    using slab_invD(5) [OF assms(1)] by (simp only: mult.commute)
  have m: "unat (of_nat i * sl_block_size s) = i * unat (sl_block_size s)"
    using le i by (subst unat_mult_no_wrap) auto
  show ?thesis
    using le unfolding slab_addr_def by (subst unat_add_no_wrap) (simp_all only: m, simp)
qed

lemma slab_addr_inj:
  assumes "slab_inv s" "i < unat (sl_block_count s)" "j < unat (sl_block_count s)"
    "slab_addr s i = slab_addr s j"
  shows "i = j"
proof -
  have "unat (slab_addr s i) = unat (slab_addr s j)" using assms(4) by simp
  then have "i * unat (sl_block_size s) = j * unat (sl_block_size s)"
    using slab_addr_unat [OF assms(1), of i] slab_addr_unat [OF assms(1), of j] assms(2,3) by simp
  then show ?thesis using slab_invD(2) [OF assms(1)] by simp
qed

lemma slab_addr_nonnull:
  assumes "slab_inv s" "i < unat (sl_block_count s)"
  shows "slab_addr s i \<noteq> 0"
proof
  assume "slab_addr s i = 0"
  then have "unat (sl_memory s) = 0"
    using slab_addr_unat [OF assms(1) less_imp_le, OF assms(2)] by simp
  then show False using slab_invD(1) [OF assms(1)] by (simp add: unat_eq_0)
qed

lemma index_to_ptr_eq:
  "slab_inv s \<Longrightarrow> i < unat (sl_block_count s) \<Longrightarrow> index_to_ptr s (of_nat i) = slab_addr s i"
proof -
  assume "slab_inv s" "i < unat (sl_block_count s)"
  then have "i < 2 ^ 32" using slab_invD(4) [of s] by simp
  then have "(ucast (of_nat i :: u32) :: u64) = of_nat i"
    by (intro word_unat_eq_iff [THEN iffD2]) (simp add: unat_of_nat take_bit_eq_mod unsigned_ucast_eq)
  then show ?thesis by (simp add: index_to_ptr_def slab_addr_def)
qed

lemma slab_live_iff:
  "slab_inv s \<Longrightarrow> i < unat (sl_block_count s) \<Longrightarrow> slab_addr s i \<in> slab_live s \<longleftrightarrow> i \<in> slab_used s"
  using slab_addr_inj [of s i] slab_used_bound [of s] by (auto simp: slab_live_def)

lemma card_slab_live: "slab_inv s \<Longrightarrow> card (slab_live s) = card (slab_used s)"
  unfolding slab_live_def
  by (rule card_image) (use slab_addr_inj [of s] slab_used_bound [of s] in \<open>auto simp: inj_on_def\<close>)

section \<open>The search\<close>

text \<open>\<open>bitmap_find_free\<close> returns the least clear index below the capacity, or -1.\<close>

lemma bitmap_find_free_from_spec:
  assumes "length bm = 8" "unat words \<le> 8" "unat cap \<le> 64 * unat words"
    "\<And>j. j < 64 * i \<Longrightarrow> j < unat cap \<Longrightarrow> bm_bit bm j"
  shows "bitmap_find_free_from bm i words cap =
    Some (if \<forall>j < unat cap. bm_bit bm j then - 1 else int (LEAST j. j < unat cap \<and> \<not> bm_bit bm j))"
  using assms
proof (induction bm i words cap rule: bitmap_find_free_from.induct)
  case (1 bm i words cap)
  note prems = "1.prems"
  show ?case
  proof (cases "i < unat words")
    case False
    then have "\<forall>j < unat cap. bm_bit bm j" using prems(3,4) by auto
    then show ?thesis using False by (simp add: bitmap_find_free_from.simps [of bm i])
  next
    case True
    then have i8: "i < 8" using prems(2) by simp
    let ?inv = "NOT (bm ! i)"
    show ?thesis
    proof (cases "?inv = 0")
      case True': True
      have all: "bm_bit bm j" if "j < 64 * Suc i" "j < unat cap" for j
      proof (cases "j < 64 * i")
        case False
        then have "j div 64 = i" using that(1) by simp
        moreover have "bit (bm ! i) (j mod 64)"
        proof -
          have "bm ! i = NOT (NOT (bm ! i))" by simp
          also have "\<dots> = - 1" by (simp only: True') simp
          finally show ?thesis by (simp add: bit_minus_1_iff)
        qed
        ultimately show ?thesis by (simp add: bm_bit_def)
      qed (use prems(4) that in auto)
      show ?thesis
        using "1.IH"(2) [OF True _ refl] True' True i8 prems(1-3) all
        by (simp add: bitmap_find_free_from.simps [of bm i] Let_def)
    next
      case inv: False
      note c = ctz_props [OF inv]
      let ?k = "64 * i + ctz ?inv"
      have k: "unat (of_nat i * CFIBER_BITMAP_WORD_BITS + of_nat (ctz ?inv) :: u32) = ?k"
      proof -
        have "(of_nat i * CFIBER_BITMAP_WORD_BITS + of_nat (ctz ?inv) :: u32) = of_nat ?k"
          by (simp add: const_defs)
        moreover have "unat (of_nat ?k :: u32) = ?k"
          using i8 c(1) by (intro unat_of_nat_small) simp
        ultimately show ?thesis by (simp only:)
      qed
      have below: "bm_bit bm j" if "j < ?k" "j < unat cap" for j
      proof (cases "j < 64 * i")
        case False
        define m where "m = j - 64 * i"
        have m: "j = 64 * i + m" "m < ctz ?inv" using False that(1) by (auto simp: m_def)
        then have "j div 64 = i" "j mod 64 = m" using c(1) by auto
        moreover have "bit (bm ! i) m"
          using c(3) [OF m(2)] m(2) c(1) by (simp add: bit_not_iff_eq)
        ultimately show ?thesis by (simp add: bm_bit_def)
      qed (use prems(4) that in auto)
      have free: "\<not> bm_bit bm ?k"
        using c(1,2) by (simp add: bm_bit_def bit_not_iff_eq)
      show ?thesis
      proof (cases "?k < unat cap")
        case lt: True
        have "(LEAST j. j < unat cap \<and> \<not> bm_bit bm j) = ?k"
          by (rule Least_equality) (use lt free below in \<open>auto simp: not_less [symmetric]\<close>)
        moreover have "sint (of_nat i * CFIBER_BITMAP_WORD_BITS + of_nat (ctz ?inv) :: u32) = int ?k"
          using k i8 c(1) by (subst sint_small) simp_all
        ultimately show ?thesis
          using True i8 inv lt free prems(1) k
          by (auto simp: bitmap_find_free_from.simps [of bm i] Let_def word_less_nat_alt)
      next
        case False
        then show ?thesis
          using "1.IH"(1) [OF True _ refl inv refl] True i8 inv prems(1-3) k below
          by (simp add: bitmap_find_free_from.simps [of bm i] Let_def word_less_nat_alt)
      qed
    qed
  qed
qed

section \<open>The operations\<close>

lemma slab_region_end:
  assumes "slab_inv s"
  shows "unat (sl_memory s + sl_block_size s * ucast (sl_block_count s)) =
    unat (sl_memory s) + unat (sl_block_size s) * unat (sl_block_count s)"
proof -
  have n: "unat (ucast (sl_block_count s) :: u64) = unat (sl_block_count s)"
    by (simp add: unat_ucast_u32)
  have m: "unat (sl_block_size s * ucast (sl_block_count s)) =
      unat (sl_block_size s) * unat (sl_block_count s)"
    using slab_invD(5) [OF assms] by (subst unat_mult_no_wrap) (simp_all only: n, simp)
  show ?thesis
    using slab_invD(5) [OF assms] by (subst unat_add_no_wrap) (simp_all only: m, simp)
qed

lemma slab_index_in_bitmap:
  "slab_inv s \<Longrightarrow> i < unat (sl_block_count s) \<Longrightarrow> i div 64 < length (sl_bitmap s)"
  using slab_invD(4,6) [of s] by simp

text \<open>\<open>cfiber_slab_alloc\<close>: full, or the least free block.\<close>

lemma slab_alloc_cases:
  assumes inv: "slab_inv s"
  obtains
    (full) "slab_used s = {..<unat (sl_block_count s)}" "cfiber_slab_alloc s = Some (0, s)"
  | (block) i s' where "i < unat (sl_block_count s)" "i \<notin> slab_used s" "\<And>j. j < i \<Longrightarrow> j \<in> slab_used s"
      "cfiber_slab_alloc s = Some (slab_addr s i, s')" "slab_inv s'" "same_slab s s'"
      "slab_used s' = insert i (slab_used s)"
proof -
  let ?n = "unat (sl_block_count s)" and ?bm = "sl_bitmap s"
  define k where "k = (LEAST j. j < ?n \<and> \<not> bm_bit ?bm j)"
  note I = slab_invD [OF inv]
  have find: "bitmap_find_free ?bm (sl_bitmap_count s) (sl_block_count s) =
      Some (if \<forall>j < ?n. bm_bit ?bm j then - 1 else int k)"
    unfolding bitmap_find_free_def k_def
    by (rule bitmap_find_free_from_spec) (use I(4,6,7) in auto)
  show thesis
  proof (cases "\<forall>j < ?n. bm_bit ?bm j")
    case True
    then show thesis
      using find by (intro full) (auto simp: slab_used_def cfiber_slab_alloc_def)
  next
    case False
    then have "\<exists>j. j < ?n \<and> \<not> bm_bit ?bm j" by blast
    from LeastI_ex [OF this] have i: "k < ?n" "\<not> bm_bit ?bm k" by (auto simp: k_def)
    have below: "bm_bit ?bm j" if "j < k" for j
      using not_less_Least [OF that [unfolded k_def]] i(1) that by auto
    have u: "unat (of_nat k :: u32) = k"
      using i(1) I(4) by (intro unat_of_nat_small) simp
    have "unat (of_nat k :: u32) div 64 < length ?bm"
      using slab_index_in_bitmap [OF inv i(1)] u by simp
    then obtain bm where bm: "bitmap_set ?bm (of_nat k) = Some bm" "length bm = length ?bm"
      "\<And>j. bm_bit bm j \<longleftrightarrow> bm_bit ?bm j \<or> j = k"
      using u by (elim bitmap_set_eq) auto
    have "bitmap_find_free ?bm (sl_bitmap_count s) (sl_block_count s) = Some (int k)"
      using find False by (simp only: if_False)
    then have alloc: "cfiber_slab_alloc s = Some (slab_addr s k, s\<lparr>sl_bitmap := bm\<rparr>)"
      using bm(1) index_to_ptr_eq [OF inv i(1)] by (simp add: cfiber_slab_alloc_def)
    show thesis
      by (rule block [OF i(1) _ _ alloc])
        (use i below bm inv in \<open>auto simp: slab_used_def slab_inv_def same_slab_def\<close>)
  qed
qed

text \<open>\<open>cfiber_slab_release\<close> accepts exactly the addresses of the blocks in use.\<close>

lemma slab_release_live:
  assumes inv: "slab_inv s" and i: "i \<in> slab_used s"
  obtains s' where "cfiber_slab_release nd s (slab_addr s i) = Some (True, s')" "slab_inv s'"
    "same_slab s s'" "slab_used s' = slab_used s - {i}"
proof -
  let ?n = "unat (sl_block_count s)" and ?b = "slab_addr s i"
  note I = slab_invD [OF inv]
  have n: "i < ?n" "bm_bit (sl_bitmap s) i" using i by (auto simp: slab_used_def)
  have b: "unat ?b = unat (sl_memory s) + i * unat (sl_block_size s)"
    using slab_addr_unat [OF inv] n by simp
  have ge: "\<not> ?b < sl_memory s" using b by (simp add: word_less_nat_alt)
  have off: "unat (?b - sl_memory s) = i * unat (sl_block_size s)"
    using b ge by (subst unat_sub_le) (auto simp: word_le_nat_alt)
  have lt: "?b < sl_memory s + sl_block_size s * ucast (sl_block_count s)"
    using b n(1) I(2) slab_region_end [OF inv] by (simp add: word_less_nat_alt mult.commute)
  have mod0: "(?b - sl_memory s) mod sl_block_size s = 0"
    using off by (simp add: unat_eq_0 [symmetric] unat_mod)
  have "unat ((?b - sl_memory s) div sl_block_size s) = i"
    using off I(2) by (simp add: unat_div)
  then have idx: "unat (ptr_to_index s ?b) = i"
    using n(1) I(4) by (simp add: ptr_to_index_def unsigned_ucast_eq take_bit_eq_mod)
  have "unat (ptr_to_index s ?b) div 64 < length (sl_bitmap s)"
    using slab_index_in_bitmap [OF inv n(1)] idx by simp
  then obtain bm where bm: "bitmap_clear (sl_bitmap s) (ptr_to_index s ?b) = Some bm"
    "length bm = length (sl_bitmap s)"
    "\<And>j. bm_bit bm j \<longleftrightarrow> bm_bit (sl_bitmap s) j \<and> j \<noteq> unat (ptr_to_index s ?b)"
    by (elim bitmap_clear_eq) blast
  have "bitmap_test (sl_bitmap s) (ptr_to_index s ?b) = Some True"
    using bitmap_test_eq slab_index_in_bitmap [OF inv n(1)] idx n(2) by simp
  then have "cfiber_slab_release nd s ?b = Some (True, s\<lparr>sl_bitmap := bm\<rparr>)"
    using ge lt [unfolded not_le [symmetric]] mod0 bm(1)
    by (simp add: cfiber_slab_release_def Let_def)
  then show thesis
    by (rule that) (use bm idx inv in \<open>auto simp: slab_used_def slab_inv_def same_slab_def\<close>)
qed

lemma slab_release_reject:
  assumes inv: "slab_inv s" and p: "p \<notin> slab_live s"
  shows "cfiber_slab_release nd s p = (if nd then Some (False, s) else None)"
proof -
  let ?n = "unat (sl_block_count s)" and ?bs = "unat (sl_block_size s)"
  note I = slab_invD [OF inv]
  have *: "cfiber_slab_release nd s p = (if nd then Some (False, s) else None)"
    if in_region: "\<not> p < sl_memory s" "p < sl_memory s + sl_block_size s * ucast (sl_block_count s)"
      and aligned: "(p - sl_memory s) mod sl_block_size s = 0"
  proof -
    let ?i = "unat ((p - sl_memory s) div sl_block_size s)"
    have off: "unat (p - sl_memory s) = unat p - unat (sl_memory s)"
      using in_region(1) by (subst unat_sub_le) auto
    have pi: "unat p - unat (sl_memory s) = ?i * ?bs"
      using aligned off div_mult_mod_eq [of "unat p - unat (sl_memory s)" ?bs]
      by (simp add: unat_eq_0 [symmetric] unat_mod unat_div)
    have "unat p < unat (sl_memory s) + ?n * ?bs" "unat (sl_memory s) \<le> unat p"
      using in_region slab_region_end [OF inv] by (simp_all add: word_less_nat_alt mult.commute)
    then have "unat p - unat (sl_memory s) < ?n * ?bs" by linarith
    then have "?i * ?bs < ?n * ?bs" by (simp only: pi)
    then have i: "?i < ?n" by simp
    have "unat (slab_addr s ?i) = unat p"
      using slab_addr_unat [OF inv, of ?i] i pi in_region(1) by (simp add: word_less_nat_alt)
    then have pa: "p = slab_addr s ?i" by (simp add: word_unat_eq_iff)
    have idx: "unat (ptr_to_index s p) = ?i"
      using i I(4) by (simp add: ptr_to_index_def unsigned_ucast_eq take_bit_eq_mod)
    have "?i \<notin> slab_used s" using p slab_live_iff [OF inv i] pa by simp
    then have "\<not> bm_bit (sl_bitmap s) ?i" using i by (simp add: slab_used_def)
    then have "bitmap_test (sl_bitmap s) (ptr_to_index s p) = Some False"
      using bitmap_test_eq slab_index_in_bitmap [OF inv i] idx by simp
    then show ?thesis
      using in_region aligned by (simp add: cfiber_slab_release_def Let_def)
  qed
  show ?thesis
  proof (cases "\<not> p < sl_memory s \<and> p < sl_memory s + sl_block_size s * ucast (sl_block_count s) \<and>
      (p - sl_memory s) mod sl_block_size s = 0")
    case True
    then show ?thesis by (intro *) auto
  next
    case False
    then consider "p < sl_memory s \<or> sl_memory s + sl_block_size s * ucast (sl_block_count s) \<le> p"
      | "\<not> p < sl_memory s" "\<not> sl_memory s + sl_block_size s * ucast (sl_block_count s) \<le> p"
        "(p - sl_memory s) mod sl_block_size s \<noteq> 0"
      by (meson not_le)
    then show ?thesis by cases (simp_all add: cfiber_slab_release_def)
  qed
qed

text \<open>\<open>cfiber_slab_init\<close>: what it accepts, and the slab it makes.\<close>

definition slab_init_accepts :: "u64 \<Rightarrow> u64 \<Rightarrow> u64 \<Rightarrow> bool" where
  "slab_init_accepts block_size memory memory_size \<longleftrightarrow>
     0 < unat block_size \<and> unat block_size mod 64 = 0 \<and> unat block_size \<le> unat memory_size \<and>
     unat memory mod 16 = 0 \<and> unat memory_size div unat block_size \<le> 512"

lemma slab_init_reject:
  "\<not> slab_init_accepts bs mem sz \<Longrightarrow>
     cfiber_slab_init nd s bs mem sz = (if nd then Some (- 1, s) else None)"
  by (auto simp: cfiber_slab_init_def slab_init_accepts_def const_defs word_nat Let_def
      unat_eq_0 [symmetric] simp del: unat_eq_0)

lemma slab_init_accept:
  assumes ok: "slab_init_accepts bs mem sz" and mem: "mem \<noteq> 0" "unat mem + unat sz < 2 ^ 64"
  obtains s' where "cfiber_slab_init nd s bs mem sz = Some (0, s')" "slab_inv s'"
    "sl_memory s' = mem" "sl_block_size s' = bs" "unat (sl_block_count s') = unat sz div unat bs"
    "slab_used s' = {}"
proof
  let ?n = "ucast (sz div bs) :: u32"
  let ?s = "s\<lparr>sl_memory := mem, sl_block_size := bs, sl_block_count := ?n,
    sl_bitmap_count := (?n + 64 - 1) div 64, sl_bitmap := replicate 8 0\<rparr>"
  note ok' = ok [unfolded slab_init_accepts_def]
  show init: "cfiber_slab_init nd s bs mem sz = Some (0, ?s)"
    using ok' by (auto simp: cfiber_slab_init_def const_defs word_nat Let_def
      unat_eq_0 [symmetric] simp del: unat_eq_0)
  have n: "unat ?n = unat sz div unat bs"
    using ok' by (simp add: unsigned_ucast_eq unsigned_take_bit_eq take_bit_eq_mod unat_div)
  have c: "unat ((?n + 64 - 1) div 64) = (unat ?n + 63) div 64"
  proof -
    have "unat (63 + ?n) = unat ?n + 63"
      using ok' n by (subst unat_add_no_wrap) auto
    then show ?thesis by (simp add: unat_div)
  qed
  have bit: "\<not> bm_bit (replicate 8 0) i" if "i < 512" for i
    using that by (simp add: bm_bit_def)
  have pos: "0 < unat sz div unat bs" using ok' by (simp add: div_greater_zero_iff)
  have "unat bs * (unat sz div unat bs) \<le> unat sz" by simp
  then have reg: "unat mem + unat bs * (unat sz div unat bs) < 2 ^ 64" using mem(2) by linarith
  show "slab_inv ?s"
    unfolding slab_inv_def using ok' mem n c bit pos reg by simp
  show "slab_used ?s = {}"
    unfolding slab_used_def using ok' n bit by auto
  show "sl_memory ?s = mem" "sl_block_size ?s = bs" "unat (sl_block_count ?s) = unat sz div unat bs"
    using n by simp_all
qed

lemma slab_reset_inv: "slab_inv s \<Longrightarrow> slab_inv (cfiber_slab_reset s) \<and> slab_used (cfiber_slab_reset s) = {}"
  by (auto simp: slab_inv_def slab_used_def cfiber_slab_reset_def const_defs bm_bit_def)

section \<open>The slab is a block pool\<close>

definition slab_pool_release :: "bool \<Rightarrow> cfiber_slab \<Rightarrow> u64 \<Rightarrow> cfiber_slab option" where
  "slab_pool_release nd s p = map_option snd (cfiber_slab_release nd s p)"

lemma slab_blocks_disjoint:
  assumes "slab_inv s" "p \<in> slab_live s" "q \<in> slab_live s" "p \<noteq> q"
  shows "block_range (unat (sl_block_size s)) p \<inter> block_range (unat (sl_block_size s)) q = {}"
proof -
  let ?b = "unat (sl_block_size s)"
  from assms(2,3) obtain i j where ij: "p = slab_addr s i" "q = slab_addr s j"
    "i < unat (sl_block_count s)" "j < unat (sl_block_count s)"
    by (auto simp: slab_live_def slab_used_def)
  then have u: "unat p = unat (sl_memory s) + i * ?b" "unat q = unat (sl_memory s) + j * ?b"
    using slab_addr_unat [OF assms(1)] by auto
  have "i \<noteq> j" using assms(4) ij by auto
  then consider "Suc i \<le> j" | "Suc j \<le> i" by linarith
  then show ?thesis
  proof cases
    case 1
    then have "Suc i * ?b \<le> j * ?b" by (rule mult_le_mono1)
    then show ?thesis using u by (auto simp: block_range_def)
  next
    case 2
    then have "Suc j * ?b \<le> i * ?b" by (rule mult_le_mono1)
    then show ?thesis using u by (auto simp: block_range_def)
  qed
qed

interpretation slab_pool: block_pool slab_inv slab_live "\<lambda>s. unat (sl_block_size s)"
  cfiber_slab_alloc "slab_pool_release nd" for nd
proof unfold_locales
  fix s assume inv: "slab_inv s"
  show "\<exists>p s'. cfiber_slab_alloc s = Some (p, s') \<and> slab_inv s' \<and>
      unat (sl_block_size s') = unat (sl_block_size s)"
    using inv
  proof (cases rule: slab_alloc_cases)
    case full
    then show ?thesis using inv by blast
  next
    case (block i s')
    then show ?thesis using same_slab_fields(2) [OF block(6)] by simp
  qed
  show "0 \<notin> slab_live s"
    using slab_addr_nonnull [OF inv] by (force simp: slab_live_def slab_used_def)
next
  fix s s' assume inv: "slab_inv s" and a: "cfiber_slab_alloc s = Some (0, s')"
  from inv show "slab_live s' = slab_live s"
    by (cases rule: slab_alloc_cases) (use a slab_addr_nonnull [OF inv] in auto)
next
  fix s p s' assume inv: "slab_inv s" and a: "cfiber_slab_alloc s = Some (p, s')" "p \<noteq> 0"
  from inv show "p \<notin> slab_live s \<and> slab_live s' = insert p (slab_live s)"
  proof (cases rule: slab_alloc_cases)
    case (block i s1)
    then show ?thesis
      using a slab_live_iff [OF inv block(1)] same_slab_fields(5) [OF block(6)]
      by (simp add: slab_live_def)
  qed (use a in simp)
next
  fix s p assume inv: "slab_inv s" and p: "p \<in> slab_live s"
  then obtain i where i: "p = slab_addr s i" "i \<in> slab_used s" by (auto simp: slab_live_def)
  from slab_release_live [OF inv i(2), of nd] obtain s' where s':
    "cfiber_slab_release nd s (slab_addr s i) = Some (True, s')" "slab_inv s'"
    "same_slab s s'" "slab_used s' = slab_used s - {i}" by blast
  have "slab_live s' = slab_live s - {p}"
    using i s'(3,4) slab_addr_inj [OF inv, of _ i] slab_used_bound [of s]
    by (auto simp: slab_live_def same_slab_fields(5) [OF s'(3)])
  then show "\<exists>s'. slab_pool_release nd s p = Some s' \<and> slab_inv s' \<and>
      slab_live s' = slab_live s - {p} \<and> unat (sl_block_size s') = unat (sl_block_size s)"
    using s' i(1) same_slab_fields(2) [OF s'(3)] by (simp add: slab_pool_release_def)
qed (rule slab_blocks_disjoint)

end
