(* ===== verification/DList.thy ===== *)
theory DList
  imports Prelude
begin

text \<open>
  Intrusive doubly linked lists with a head pointer: the slab chains of the multislab and the live
  list of the reactor are two instances of the same code shape. A store of nodes is seen through its
  links (\<open>next\<close>, \<open>prev\<close> of each node); \<open>dll L h xs\<close> says that the chain from head \<open>h\<close> is exactly the
  nodes \<open>xs\<close>, with matching back pointers. The locale \<open>dlist_ops\<close> is what a pair of push and unlink
  routines promises about the links; its lemmas give the effect on the represented list.
\<close>

type_synonym links = "u64 \<Rightarrow> (u64 \<times> u64) option"

section \<open>Segments and lists\<close>

primrec dseg :: "links \<Rightarrow> u64 \<Rightarrow> u64 \<Rightarrow> u64 list \<Rightarrow> u64 \<Rightarrow> u64 \<Rightarrow> bool" where
  "dseg L pv h [] e pe \<longleftrightarrow> h = e \<and> pv = pe"
| "dseg L pv h (x # xs) e pe \<longleftrightarrow>
     h = x \<and> x \<noteq> 0 \<and> (\<exists>nx. L x = Some (nx, pv) \<and> dseg L x nx xs e pe)"

definition dll :: "links \<Rightarrow> u64 \<Rightarrow> u64 list \<Rightarrow> bool" where
  "dll L h xs \<longleftrightarrow> distinct xs \<and> (\<exists>pe. dseg L 0 h xs 0 pe)"

lemma dseg_append:
  "dseg L pv h (xs @ ys) e pe \<longleftrightarrow> (\<exists>m pm. dseg L pv h xs m pm \<and> dseg L pm m ys e pe)"
  by (induction xs arbitrary: pv h) auto

lemma dseg_frame:
  "(\<And>x. x \<in> set xs \<Longrightarrow> L' x = L x) \<Longrightarrow> dseg L' pv h xs e pe = dseg L pv h xs e pe"
  by (induction xs arbitrary: pv h) auto

lemma dseg_in_dom: "dseg L pv h xs e pe \<Longrightarrow> x \<in> set xs \<Longrightarrow> L x \<noteq> None \<and> x \<noteq> 0"
proof (induction xs arbitrary: pv h)
  case (Cons a xs)
  from Cons.prems(1) obtain nx where "L a = Some (nx, pv)" "a \<noteq> 0" "dseg L a nx xs e pe" by auto
  then show ?case using Cons.IH [of a nx] Cons.prems(2) by auto
qed simp

lemma dll_frame: "(\<And>x. x \<in> set xs \<Longrightarrow> L' x = L x) \<Longrightarrow> dll L' h xs = dll L h xs"
  using dseg_frame [of xs L' L] by (simp add: dll_def)

lemma dll_distinct: "dll L h xs \<Longrightarrow> distinct xs"
  by (simp add: dll_def)

lemma dll_in_dom: "dll L h xs \<Longrightarrow> x \<in> set xs \<Longrightarrow> L x \<noteq> None \<and> x \<noteq> 0"
  unfolding dll_def using dseg_in_dom by blast

lemma dll_Nil [simp]: "dll L h [] \<longleftrightarrow> h = 0"
  by (auto simp: dll_def)

lemma dll_null [simp]: "dll L 0 xs \<longleftrightarrow> xs = []"
  by (cases xs) (auto simp: dll_def)

lemma dll_head: "dll L h (x # xs) \<Longrightarrow> h = x \<and> x \<noteq> 0 \<and> L x \<noteq> None"
  by (auto simp: dll_def)

lemma dll_nonnull: "dll L h xs \<Longrightarrow> h \<noteq> 0 \<Longrightarrow> \<exists>xs'. xs = h # xs' \<and> h \<notin> set xs'"
  by (cases xs) (auto simp: dll_def)

text \<open>Walking the \<open>next\<close> pointers visits the nodes in order.\<close>

definition walk_from :: "links \<Rightarrow> u64 \<Rightarrow> u64 list \<Rightarrow> bool" where
  "walk_from L h xs \<longleftrightarrow> (\<exists>pv pe. dseg L pv h xs 0 pe)"

lemma dll_walk: "dll L h xs \<Longrightarrow> walk_from L h xs"
  by (auto simp: dll_def walk_from_def)

lemma walk_Cons: "walk_from L h (x # xs) \<Longrightarrow>
    h = x \<and> x \<noteq> 0 \<and> (\<exists>nx pv. L x = Some (nx, pv) \<and> walk_from L nx xs)"
  by (auto simp: walk_from_def)

lemma walk_Nil [simp]: "walk_from L h [] \<longleftrightarrow> h = 0"
  by (auto simp: walk_from_def)

section \<open>Pushing and unlinking\<close>

definition link_push :: "links \<Rightarrow> u64 \<Rightarrow> u64 \<Rightarrow> links" where
  "link_push L h p =
     (if h = 0 then L(p \<mapsto> (h, 0)) else L(p \<mapsto> (h, 0), h \<mapsto> (fst (the (L h)), p)))"

definition link_next :: "links \<Rightarrow> u64 \<Rightarrow> u64" where
  "link_next L p = fst (the (L p))"

definition link_prev :: "links \<Rightarrow> u64 \<Rightarrow> u64" where
  "link_prev L p = snd (the (L p))"

definition link_unlink :: "links \<Rightarrow> u64 \<Rightarrow> links" where
  "link_unlink L p =
     (let nx = link_next L p; pv = link_prev L p;
          L1 = (if pv = 0 then L else L(pv \<mapsto> (nx, link_prev L pv)))
      in if nx = 0 then L1 else L1(nx \<mapsto> (link_next L1 nx, pv)))"

definition unlink_head :: "links \<Rightarrow> u64 \<Rightarrow> u64 \<Rightarrow> u64" where
  "unlink_head L h p = (if link_prev L p = 0 then link_next L p else h)"

lemma dll_push:
  assumes "dll L h xs" "p \<notin> set xs" "p \<noteq> 0"
  shows "dll (link_push L h p) p (p # xs)"
proof (cases xs)
  case Nil
  then show ?thesis using assms by (auto simp: dll_def link_push_def)
next
  case (Cons x ys)
  from assms(1) obtain nx pe where h: "h = x" "x \<noteq> 0" "L x = Some (nx, 0)" "distinct xs"
    and rest: "dseg L x nx ys 0 pe" by (auto simp: dll_def Cons)
  have "dseg (link_push L h p) x nx ys 0 pe = dseg L x nx ys 0 pe"
    by (rule dseg_frame) (use h assms(2) Cons in \<open>auto simp: link_push_def\<close>)
  then show ?thesis using h rest assms(2,3) Cons by (auto simp: dll_def link_push_def)
qed

lemma link_push_other: "q \<noteq> p \<Longrightarrow> q \<noteq> h \<Longrightarrow> link_push L h p q = L q"
  by (simp add: link_push_def)

lemma dll_unlink:
  assumes "dll L h (as @ p # bs)"
  shows "dll (link_unlink L p) (unlink_head L h p) (as @ bs)"
    and "\<And>q. q \<notin> set (as @ bs) \<Longrightarrow> link_unlink L p q = L q"
proof -
  from assms obtain pm nx pe where d: "distinct (as @ p # bs)"
    and sa: "dseg L 0 h as p pm" and lp: "L p = Some (nx, pm)" "p \<noteq> 0"
    and sb: "dseg L p nx bs 0 pe"
    by (auto simp: dll_def dseg_append)
  have pmp: "link_prev L p = pm" "link_next L p = nx" using lp by (simp_all add: link_prev_def link_next_def)
  let ?L = "link_unlink L p"
  have as0: "as = [] \<longleftrightarrow> pm = 0"
    using sa by (cases as rule: rev_cases) (auto simp: dseg_append)
  have bs0: "bs = [] \<longleftrightarrow> nx = 0" using sb by (cases bs) auto
  have hd: "dseg ?L 0 (unlink_head L h p) as nx pm"
  proof (cases as rule: rev_cases)
    case Nil
    then show ?thesis using sa pmp as0 by (simp add: unlink_head_def)
  next
    case (snoc as' a)
    then obtain pa where a: "dseg L 0 h as' a pa" "a \<noteq> 0" "L a = Some (p, pa)" "pm = a"
      using sa by (auto simp: dseg_append)
    have nxa: "nx \<noteq> a" "nx \<notin> set as'" if "nx \<noteq> 0"
      using sb d snoc that bs0 by (cases bs; auto)+
    have La: "?L a = Some (nx, pa)"
      using a pmp nxa by (auto simp: link_unlink_def Let_def link_prev_def)
    have "dseg ?L 0 h as' a pa = dseg L 0 h as' a pa"
      by (rule dseg_frame) (use d snoc a nxa pmp in \<open>auto simp: link_unlink_def Let_def\<close>)
    then show ?thesis using a La snoc pmp by (simp add: dseg_append unlink_head_def)
  qed
  have "\<exists>pe. dseg ?L pm nx bs 0 pe"
  proof (cases bs)
    case Nil
    then show ?thesis using sb by simp
  next
    case (Cons b bs')
    then obtain nb where b: "nx = b" "b \<noteq> 0" "L b = Some (nb, p)" "dseg L b nb bs' 0 pe"
      using sb by auto
    have pmb: "pm \<noteq> b" "pm \<notin> set bs'" if "pm \<noteq> 0"
      using sa d Cons that as0 by (cases as rule: rev_cases; auto simp: dseg_append)+
    have Lb: "?L b = Some (nb, pm)"
      using b pmp pmb by (auto simp: link_unlink_def Let_def link_next_def)
    have "dseg ?L b nb bs' 0 pe = dseg L b nb bs' 0 pe"
      by (rule dseg_frame) (use d Cons b pmb pmp in \<open>auto simp: link_unlink_def Let_def\<close>)
    then show ?thesis using b Lb Cons by auto
  qed
  with hd d show "dll ?L (unlink_head L h p) (as @ bs)"
    by (auto simp: dll_def dseg_append)
  show "?L q = L q" if "q \<notin> set (as @ bs)" for q
  proof -
    have "pm \<noteq> 0 \<Longrightarrow> pm \<in> set as"
      using sa as0 by (cases as rule: rev_cases) (auto simp: dseg_append)
    moreover have "nx \<noteq> 0 \<Longrightarrow> nx \<in> set bs" using sb bs0 by (cases bs) auto
    ultimately show ?thesis using that pmp by (auto simp: link_unlink_def Let_def)
  qed
qed

section \<open>The interface\<close>

text \<open>
  \<open>payload\<close> is the part of a node that the list routines must not touch.
\<close>

locale dlist_ops =
  fixes links :: "'s \<Rightarrow> links"
    and payload :: "'s \<Rightarrow> u64 \<Rightarrow> 'p option"
    and push :: "'s \<Rightarrow> u64 \<Rightarrow> u64 \<Rightarrow> ('s \<times> u64) option"
    and unlink :: "'s \<Rightarrow> u64 \<Rightarrow> u64 \<Rightarrow> ('s \<times> u64) option"
  assumes push_links: "links s p \<noteq> None \<Longrightarrow> h \<noteq> p \<Longrightarrow> (h = 0 \<or> links s h \<noteq> None) \<Longrightarrow>
      \<exists>s'. push s h p = Some (s', p) \<and> links s' = link_push (links s) h p \<and> payload s' = payload s"
    and unlink_links: "links s p = Some (nx, pv) \<Longrightarrow> (pv = 0 \<or> links s pv \<noteq> None) \<Longrightarrow>
      (nx = 0 \<or> links s nx \<noteq> None) \<Longrightarrow>
      \<exists>s'. unlink s h p = Some (s', unlink_head (links s) h p) \<and>
        links s' = link_unlink (links s) p \<and> payload s' = payload s"
begin

text \<open>Pushing a node that is on no list puts it in front and leaves every other list alone.\<close>

lemma push_front:
  assumes "dll (links s) h xs" "p \<notin> set xs" "p \<noteq> 0" "links s p \<noteq> None"
  obtains s' where "push s h p = Some (s', p)" "dll (links s') p (p # xs)" "payload s' = payload s"
    "\<And>ys h'. dll (links s) h' ys \<Longrightarrow> set ys \<inter> set (p # xs) = {} \<Longrightarrow> dll (links s') h' ys"
    "dom (links s') = dom (links s)"
proof -
  have h: "h = 0 \<or> (h \<in> set xs \<and> links s h \<noteq> None)"
    using assms(1) by (cases xs) (auto dest: dll_head)
  then have "h \<noteq> p" "h = 0 \<or> links s h \<noteq> None" using assms(2,3) by auto
  from push_links [OF assms(4) this] obtain s' where s': "push s h p = Some (s', p)"
    "links s' = link_push (links s) h p" "payload s' = payload s" by blast
  show thesis
  proof (rule that [OF s'(1) _ s'(3)])
    show "dll (links s') p (p # xs)" using dll_push [OF assms(1-3)] s'(2) by simp
    show "dom (links s') = dom (links s)"
      using h assms(4) s'(2) by (auto simp: link_push_def split: if_splits)
    fix ys h' assume y: "dll (links s) h' ys" "set ys \<inter> set (p # xs) = {}"
    have "dll (links s') h' ys = dll (links s) h' ys"
    proof (rule dll_frame)
      fix y assume "y \<in> set ys"
      then have "y \<noteq> p" "y \<noteq> h" using y dll_in_dom [OF y(1)] h by auto
      then show "links s' y = links s y" using s'(2) by (simp add: link_push_other)
    qed
    then show "dll (links s') h' ys" using y by simp
  qed
qed

text \<open>Unlinking removes exactly that node, and leaves every other list alone.\<close>

lemma unlink_remove:
  assumes "dll (links s) h xs" "p \<in> set xs"
  obtains s' h' where "unlink s h p = Some (s', h')" "dll (links s') h' (remove1 p xs)"
    "payload s' = payload s" "links s' p \<noteq> None"
    "\<And>ys h'. dll (links s) h' ys \<Longrightarrow> set ys \<inter> set xs = {} \<Longrightarrow> dll (links s') h' ys"
    "dom (links s') = dom (links s)"
proof -
  from assms(2) obtain as bs where xs: "xs = as @ p # bs" by (auto dest: split_list)
  have d: "distinct xs" using assms(1) by (rule dll_distinct)
  then have rem: "remove1 p xs = as @ bs" by (simp add: xs remove1_append)
  from assms(1) obtain pm nx pe where sa: "dseg (links s) 0 h as p pm"
    and lp: "links s p = Some (nx, pm)" and sb: "dseg (links s) p nx bs 0 pe"
    by (auto simp: dll_def dseg_append xs)
  have pm: "pm = 0 \<or> links s pm \<noteq> None"
    using sa by (cases as rule: rev_cases) (auto simp: dseg_append)
  have nx: "nx = 0 \<or> links s nx \<noteq> None" using sb by (cases bs) auto
  from unlink_links [OF lp pm nx] obtain s' where
    s': "unlink s h p = Some (s', unlink_head (links s) h p)"
    "links s' = link_unlink (links s) p" "payload s' = payload s" by blast
  note U = dll_unlink [OF assms(1) [unfolded xs]]
  show thesis
  proof (rule that [OF s'(1) _ s'(3)])
    show "dll (links s') (unlink_head (links s) h p) (remove1 p xs)"
      using U(1) s'(2) rem by simp
    have "p \<notin> set (as @ bs)" using d xs by simp
    then show "links s' p \<noteq> None" using U(2) [of p] lp s'(2) by simp
    show "dom (links s') = dom (links s)"
      using lp pm nx s'(2) by (auto simp: link_unlink_def link_next_def link_prev_def Let_def split: if_splits)
    fix ys h' assume y: "dll (links s) h' ys" "set ys \<inter> set xs = {}"
    have "dll (links s') h' ys = dll (links s) h' ys"
      by (rule dll_frame) (use U(2) y(2) s'(2) xs in auto)
    then show "dll (links s') h' ys" using y by simp
  qed
qed

end

end
