(* ===== verification/Backing.thy ===== *)
theory Backing
  imports Prelude
begin

text \<open>
  Backing allocators: where the multislab gets its slabs from. A backing allocator is a pair of
  callbacks \<open>mem_alloc size ctx\<close> and \<open>mem_free ptr size ctx\<close>; what they may change is the state \<open>'w\<close>
  that every call threads. The locale \<open>backing_allocator\<close> is the contract the headers state for
  them; the two pairs the sources ship, \<open>default_alloc\<close>/\<open>default_free\<close> of
  \<^verbatim>\<open>multislab_alloc.c\<close> and \<open>zeroing_alloc\<close>/\<open>zeroing_free\<close> of \<^verbatim>\<open>reactor.c\<close>, are shown to meet it
  over a model of the C library's heap.
\<close>

section \<open>The C library heap\<close>

text \<open>
  The heap is the list of live blocks. Where \<open>aligned_alloc\<close> puts a block is the library's
  choice, so the placement is a parameter: any function of the request and of the heap's state
  (with a call counter, so that the same request may be answered differently later). A placement
  that is null, misaligned, out of the address space or overlaps a live block counts as the library
  returning \<open>NULL\<close>. \<open>free\<close> of anything but \<open>NULL\<close> or a live block is undefined: \<open>None\<close>.
\<close>

record libc_heap =
  lh_live :: "(u64 \<times> nat) list"
  lh_calls :: nat

type_synonym placement = "u64 \<Rightarrow> u64 \<Rightarrow> libc_heap \<Rightarrow> u64"

definition ranges_disjoint :: "nat \<Rightarrow> nat \<Rightarrow> nat \<Rightarrow> nat \<Rightarrow> bool" where
  "ranges_disjoint p n q m \<longleftrightarrow> p + n \<le> q \<or> q + m \<le> p"

definition libc_aligned_alloc :: "placement \<Rightarrow> u64 \<Rightarrow> u64 \<Rightarrow> libc_heap \<Rightarrow> u64 \<times> libc_heap" where
  "libc_aligned_alloc place align sz h =
     (let p = place align sz h; h' = h\<lparr>lh_calls := Suc (lh_calls h)\<rparr> in
      if p \<noteq> 0 \<and> unat p mod unat align = 0 \<and> sz \<noteq> 0 \<and> unat p + unat sz < 2 ^ 64 \<and>
         list_all (\<lambda>(q, m). ranges_disjoint (unat p) (unat sz) (unat q) m) (lh_live h)
      then (p, h'\<lparr>lh_live := (p, unat sz) # lh_live h\<rparr>)
      else (0, h'))"

definition libc_free :: "u64 \<Rightarrow> libc_heap \<Rightarrow> libc_heap option" where
  "libc_free p h =
     (if p = 0 then Some h
      else if p \<in> fst ` set (lh_live h)
      then Some (h\<lparr>lh_live := filter (\<lambda>(q, m). q \<noteq> p) (lh_live h)\<rparr>)
      else None)"

section \<open>The shipped backing allocators\<close>

text \<open>\<^verbatim>\<open>multislab_alloc.c\<close>: cache-line aligned, the size rounded up to the line.\<close>

definition default_alloc :: "placement \<Rightarrow> u64 \<Rightarrow> u64 \<Rightarrow> libc_heap \<Rightarrow> u64 \<times> libc_heap" where
  "default_alloc place sz ctx h =
     libc_aligned_alloc place CFIBER_CACHE_LINE_SIZE (align_up sz CFIBER_CACHE_LINE_SIZE) h"

definition default_free :: "u64 \<Rightarrow> u64 \<Rightarrow> u64 \<Rightarrow> libc_heap \<Rightarrow> libc_heap option" where
  "default_free ptr sz ctx h = libc_free ptr h"

lemmas [run_defs] = default_alloc_def default_free_def libc_aligned_alloc_def libc_free_def ranges_disjoint_def

text \<open>\<^verbatim>\<open>reactor.c\<close>: \<open>calloc\<close> aligns to \<open>max_align_t\<close> (and zeroes: a block never used reads as zero).\<close>

definition zeroing_alloc :: "placement \<Rightarrow> u64 \<Rightarrow> u64 \<Rightarrow> libc_heap \<Rightarrow> u64 \<times> libc_heap" where
  "zeroing_alloc place sz ctx h = libc_aligned_alloc place ALIGNOF_MAX_ALIGN_T sz h"

definition zeroing_free :: "u64 \<Rightarrow> u64 \<Rightarrow> u64 \<Rightarrow> libc_heap \<Rightarrow> libc_heap option" where
  "zeroing_free ptr sz ctx h = libc_free ptr h"

section \<open>The contract\<close>

text \<open>
  \<open>R w\<close> maps the base of every block the allocator has out to its length. The documented promise
  of \<open>mem_alloc\<close>: \<open>NULL\<close>, or a block of at least the requested size, aligned to
  \<open>max_align_t\<close>, inside the address space and disjoint from every other block out.
\<close>

locale backing_allocator =
  fixes al :: "u64 \<Rightarrow> u64 \<Rightarrow> 'w \<Rightarrow> u64 \<times> 'w"
    and fr :: "u64 \<Rightarrow> u64 \<Rightarrow> u64 \<Rightarrow> 'w \<Rightarrow> 'w option"
    and R :: "'w \<Rightarrow> u64 \<Rightarrow> nat option"
    and ok :: "'w \<Rightarrow> bool"
  assumes alloc_null: "ok w \<Longrightarrow> al sz ctx w = (0, w') \<Longrightarrow> ok w' \<and> R w' = R w"
    and alloc_block: "ok w \<Longrightarrow> 0 < sz \<Longrightarrow> unat sz + 63 < 2 ^ 64 \<Longrightarrow> al sz ctx w = (p, w') \<Longrightarrow> p \<noteq> 0 \<Longrightarrow>
      ok w' \<and> R w p = None \<and> unat p mod 16 = 0 \<and> (\<exists>n \<ge> unat sz. R w' = (R w)(p \<mapsto> n))"
    and free_block: "ok w \<Longrightarrow> R w p = Some n \<Longrightarrow>
      \<exists>w'. fr p sz ctx w = Some w' \<and> ok w' \<and> R w' = (R w)(p := None)"
    and block_in_space: "ok w \<Longrightarrow> R w p = Some n \<Longrightarrow> p \<noteq> 0 \<and> 0 < n \<and> unat p + n < 2 ^ 64"
    and blocks_disjoint: "ok w \<Longrightarrow> R w p = Some n \<Longrightarrow> R w q = Some m \<Longrightarrow> p \<noteq> q \<Longrightarrow>
      ranges_disjoint (unat p) n (unat q) m"
begin

text \<open>An address lies in at most one block.\<close>

lemma block_unique:
  assumes "ok w" "R w p = Some n" "R w q = Some m"
    "unat p \<le> x" "x < unat p + n" "unat q \<le> x" "x < unat q + m"
  shows "p = q"
  using blocks_disjoint [OF assms(1-3)] assms(4-7) by (auto simp: ranges_disjoint_def)

end

section \<open>The C library meets the contract\<close>

definition libc_ok :: "libc_heap \<Rightarrow> bool" where
  "libc_ok h \<longleftrightarrow> distinct (map fst (lh_live h)) \<and>
     (\<forall>(p, n) \<in> set (lh_live h). p \<noteq> 0 \<and> 0 < n \<and> unat p + n < 2 ^ 64 \<and>
        (\<forall>(q, m) \<in> set (lh_live h). p \<noteq> q \<longrightarrow> ranges_disjoint (unat p) n (unat q) m))"

definition libc_regions :: "libc_heap \<Rightarrow> u64 \<Rightarrow> nat option" where
  "libc_regions h = map_of (lh_live h)"

lemma ranges_disjoint_sym: "ranges_disjoint p n q m = ranges_disjoint q m p n"
  by (auto simp: ranges_disjoint_def)

lemma libc_live_cong:
  "lh_live h' = lh_live h \<Longrightarrow> libc_ok h' = libc_ok h \<and> libc_regions h' = libc_regions h"
  by (simp add: libc_ok_def libc_regions_def)

lemma libc_alloc_null:
  assumes "libc_ok h" "libc_aligned_alloc place a sz h = (0, h')"
  shows "libc_ok h' \<and> libc_regions h' = libc_regions h"
proof -
  have "lh_live h' = lh_live h"
    using assms(2) by (auto simp: libc_aligned_alloc_def Let_def split: if_splits)
  then show ?thesis using assms(1) libc_live_cong by blast
qed

lemma libc_alloc_block:
  assumes ok: "libc_ok h" and al: "libc_aligned_alloc place a sz h = (p, h')" and p: "p \<noteq> 0"
  shows "libc_ok h'" "libc_regions h p = None" "unat p mod unat a = 0"
    "libc_regions h' = (libc_regions h)(p \<mapsto> unat sz)"
proof -
  from al p have c: "unat p mod unat a = 0" "sz \<noteq> 0" "unat p + unat sz < 2 ^ 64"
    "\<forall>(q, m) \<in> set (lh_live h). ranges_disjoint (unat p) (unat sz) (unat q) m"
    "h' = h\<lparr>lh_calls := Suc (lh_calls h), lh_live := (p, unat sz) # lh_live h\<rparr>"
    by (auto simp: libc_aligned_alloc_def Let_def list_all_iff split: if_splits)
  have szp: "0 < unat sz" using c(2) by (simp add: unat_gt_0)
  have new: "p \<notin> fst ` set (lh_live h)"
  proof
    assume "p \<in> fst ` set (lh_live h)"
    then obtain m where m: "(p, m) \<in> set (lh_live h)" by auto
    then have "ranges_disjoint (unat p) (unat sz) (unat p) m" "0 < m"
      using c(4) ok by (auto simp: libc_ok_def)
    then show False using szp by (auto simp: ranges_disjoint_def)
  qed
  then show "libc_regions h p = None" by (auto simp: libc_regions_def map_of_eq_None_iff)
  show "unat p mod unat a = 0" by (rule c(1))
  show "libc_regions h' = (libc_regions h)(p \<mapsto> unat sz)" using c(5) by (simp add: libc_regions_def)
  show "libc_ok h'"
    using ok new szp c(3,4,5) p unfolding libc_ok_def
    by (fastforce simp: ranges_disjoint_sym [of _ _ "unat p"])
qed

lemma libc_free_block:
  assumes ok: "libc_ok h" and r: "libc_regions h p = Some n"
  shows "\<exists>h'. libc_free p h = Some h' \<and> libc_ok h' \<and> libc_regions h' = (libc_regions h)(p := None)"
proof -
  have mem: "(p, n) \<in> set (lh_live h)" using r by (auto simp: libc_regions_def dest: map_of_SomeD)
  then have "p \<in> fst ` set (lh_live h)" "p \<noteq> 0" using ok by (force simp: libc_ok_def)+
  moreover have "map_of (filter (\<lambda>(q, m). q \<noteq> p) xs) = (map_of xs)(p := None)" for xs :: "(u64 \<times> nat) list"
    by (induction xs) (auto simp: fun_eq_iff)
  moreover have "distinct (map fst (filter (\<lambda>(q, m). q \<noteq> p) (lh_live h)))"
    using ok by (auto simp: libc_ok_def distinct_map inj_on_def)
  ultimately show ?thesis
    using ok by (auto simp: libc_free_def libc_regions_def libc_ok_def)
qed

lemma libc_region_facts:
  assumes "libc_ok h" "libc_regions h p = Some n"
  shows "p \<noteq> 0 \<and> 0 < n \<and> unat p + n < 2 ^ 64"
    and "libc_regions h q = Some m \<Longrightarrow> p \<noteq> q \<Longrightarrow> ranges_disjoint (unat p) n (unat q) m"
  using assms by (fastforce simp: libc_ok_def libc_regions_def dest: map_of_SomeD)+

section \<open>The shipped pairs are backing allocators\<close>

interpretation libc_default: backing_allocator "default_alloc place" default_free libc_regions libc_ok
  for place
proof unfold_locales
  fix h h' :: libc_heap and sz ctx p :: u64
  assume ok: "libc_ok h" and sz: "0 < sz" "unat sz + 63 < 2 ^ 64"
    and al: "default_alloc place sz ctx h = (p, h')" and p: "p \<noteq> 0"
  from al have al': "libc_aligned_alloc place 64 (align_up sz 64) h = (p, h')"
    by (simp add: default_alloc_def const_defs)
  note F = libc_alloc_block [OF ok al' p]
  have "unat p mod 16 = 0" using F(3) mod_mod_cancel [of 16 64 "unat p"] by simp
  then show "libc_ok h' \<and> libc_regions h p = None \<and> unat p mod 16 = 0 \<and>
      (\<exists>n \<ge> unat sz. libc_regions h' = (libc_regions h)(p \<mapsto> n))"
    using F align_up_64 [OF sz(2)] by auto
next
  fix h :: libc_heap and p ctx sz :: u64 and n
  assume "libc_ok h" "libc_regions h p = Some n"
  then show "\<exists>h'. default_free p sz ctx h = Some h' \<and> libc_ok h' \<and>
      libc_regions h' = (libc_regions h)(p := None)"
    unfolding default_free_def by (rule libc_free_block)
qed (auto simp: default_alloc_def dest: libc_alloc_null libc_region_facts)

interpretation libc_zeroing: backing_allocator "zeroing_alloc place" zeroing_free libc_regions libc_ok
  for place
proof unfold_locales
  fix h h' :: libc_heap and sz ctx p :: u64
  assume ok: "libc_ok h" and al: "zeroing_alloc place sz ctx h = (p, h')" and p: "p \<noteq> 0"
  from al have al': "libc_aligned_alloc place 16 sz h = (p, h')"
    by (simp add: zeroing_alloc_def const_defs)
  show "libc_ok h' \<and> libc_regions h p = None \<and> unat p mod 16 = 0 \<and>
      (\<exists>n \<ge> unat sz. libc_regions h' = (libc_regions h)(p \<mapsto> n))"
    using libc_alloc_block [OF ok al' p] by auto
next
  fix h :: libc_heap and p ctx sz :: u64 and n
  assume "libc_ok h" "libc_regions h p = Some n"
  then show "\<exists>h'. zeroing_free p sz ctx h = Some h' \<and> libc_ok h' \<and>
      libc_regions h' = (libc_regions h)(p := None)"
    unfolding zeroing_free_def by (rule libc_free_block)
qed (auto simp: zeroing_alloc_def dest: libc_alloc_null libc_region_facts)

end
