(* ===== verification/Multislab.thy ===== *)
theory Multislab
  imports Slab DList Backing
begin

text \<open>
  The multislab allocator of \<^verbatim>\<open>src/cfiber/memory/multislab_alloc.c\<close>: slab nodes on two
  intrusive doubly linked lists, grown through a backing allocator, with a hysteresis policy that
  gives empty slabs back. This theory holds the code; \<open>Multislab_Correct\<close> holds its invariant and
  the behaviour of each operation.

  The nodes live in memory the backing allocator gave; \<open>ms_nodes\<close> is that memory, the map from
  the address of each allocated node to its contents. Reading or writing through a pointer that is
  not the address of an allocated node is \<open>None\<close>. The backing allocator's own state is threaded as
  the last argument \<open>w\<close>.
\<close>

section \<open>The data\<close>

record cfiber_slab_node =
  sn_slab :: cfiber_slab
  sn_next :: u64
  sn_prev :: u64
  used_count :: u32
  is_full :: bool
  raw_memory :: u64

type_synonym nodes = "u64 \<Rightarrow> cfiber_slab_node option"

record 'w cfiber_multislab =
  ms_active :: u64
  ms_full :: u64
  ms_block_size :: u64
  ms_blocks_per_slab :: u32
  ms_slab_memory_size :: u64
  ms_slab_count :: u32
  ms_max_slabs :: u32
  ms_empty_count :: u32
  ms_max_empty_reserve :: u32
  ms_mem_alloc :: "(u64 \<Rightarrow> u64 \<Rightarrow> 'w \<Rightarrow> u64 \<times> 'w) option"
  ms_mem_free :: "(u64 \<Rightarrow> u64 \<Rightarrow> u64 \<Rightarrow> 'w \<Rightarrow> 'w option) option"
  ms_mem_ctx :: u64
  ms_nodes :: nodes

text \<open>\<open>sizeof(cfiber_slab_node_t)\<close> on LP64: 96 bytes of slab, two links, the counters, the pointer.\<close>

definition SIZEOF_SLAB_NODE :: u64 where
  "SIZEOF_SLAB_NODE = 128"

definition SIZE_MAX :: u64 where
  "SIZE_MAX = - 1"

lemmas [const_defs] = SIZEOF_SLAB_NODE_def SIZE_MAX_def

text \<open>Calls through the callback fields; a null function pointer has no call.\<close>

definition call_mem_alloc :: "'w cfiber_multislab \<Rightarrow> u64 \<Rightarrow> 'w \<Rightarrow> (u64 \<times> 'w) option" where
  "call_mem_alloc ms sz w = do { f \<leftarrow> ms_mem_alloc ms; Some (f sz (ms_mem_ctx ms) w) }"

definition call_mem_free :: "'w cfiber_multislab \<Rightarrow> u64 \<Rightarrow> u64 \<Rightarrow> 'w \<Rightarrow> 'w option" where
  "call_mem_free ms ptr sz w = do { f \<leftarrow> ms_mem_free ms; f ptr sz (ms_mem_ctx ms) w }"

section \<open>The intrusive list\<close>

text \<open>The head pointer, passed by address in C, is passed and returned.\<close>

definition list_push :: "nodes \<Rightarrow> u64 \<Rightarrow> u64 \<Rightarrow> (nodes \<times> u64) option" where
  "list_push H head node = do {
     n \<leftarrow> H node;
     let H = H(node \<mapsto> n\<lparr>sn_next := head, sn_prev := 0\<rparr>);
     H \<leftarrow> (if head \<noteq> 0 then do { h \<leftarrow> H head; Some (H(head \<mapsto> h\<lparr>sn_prev := node\<rparr>)) } else Some H);
     Some (H, node)
   }"

definition list_unlink :: "nodes \<Rightarrow> u64 \<Rightarrow> u64 \<Rightarrow> (nodes \<times> u64) option" where
  "list_unlink H head node = do {
     n \<leftarrow> H node;
     (H, head) \<leftarrow>
       (if sn_prev n \<noteq> 0
        then do { p \<leftarrow> H (sn_prev n); Some (H(sn_prev n \<mapsto> p\<lparr>sn_next := sn_next n\<rparr>), head) }
        else Some (H, sn_next n));
     n \<leftarrow> H node;
     H \<leftarrow>
       (if sn_next n \<noteq> 0
        then do { x \<leftarrow> H (sn_next n); Some (H(sn_next n \<mapsto> x\<lparr>sn_prev := sn_prev n\<rparr>)) }
        else Some H);
     Some (H, head)
   }"

section \<open>Growing and shrinking\<close>

definition uninit_slab :: cfiber_slab where
  "uninit_slab = \<lparr>sl_memory = 0, sl_block_size = 0, sl_block_count = 0, sl_bitmap = [], sl_bitmap_count = 0\<rparr>"

definition multislab_grow ::
  "bool \<Rightarrow> 'w cfiber_multislab \<Rightarrow> 'w \<Rightarrow> (u64 \<times> 'w cfiber_multislab \<times> 'w) option" where
  "multislab_grow nd ms w =
     (if ms_max_slabs ms \<noteq> 0 \<and> ms_slab_count ms \<ge> ms_max_slabs ms then Some (0, ms, w)
      else do {
        (node, w) \<leftarrow> call_mem_alloc ms SIZEOF_SLAB_NODE w;
        if node = 0 then Some (0, ms, w)
        else do {
          (mem, w) \<leftarrow> call_mem_alloc ms (ms_slab_memory_size ms) w;
          if mem = 0 then do {
            w \<leftarrow> call_mem_free ms node SIZEOF_SLAB_NODE w;
            Some (0, ms, w)
          } else do {
            (res, slab) \<leftarrow>
              cfiber_slab_init nd uninit_slab (ms_block_size ms) mem (ms_slab_memory_size ms);
            if res \<noteq> 0 then do {
              w \<leftarrow> call_mem_free ms mem (ms_slab_memory_size ms) w;
              w \<leftarrow> call_mem_free ms node SIZEOF_SLAB_NODE w;
              Some (0, ms, w)
            } else do {
              let n = \<lparr>sn_slab = slab, sn_next = 0, sn_prev = 0, used_count = 0, is_full = False,
                       raw_memory = mem\<rparr>;
              (nodes, active) \<leftarrow> list_push ((ms_nodes ms)(node \<mapsto> n)) (ms_active ms) node;
              Some (node,
                ms\<lparr>ms_nodes := nodes, ms_active := active,
                   ms_slab_count := ms_slab_count ms + 1,
                   ms_empty_count := ms_empty_count ms + 1\<rparr>, w)
            }
          }
        }
      })"

text \<open>The node's memory is gone once freed, so it leaves \<open>ms_nodes\<close>.\<close>

definition multislab_free_node ::
  "'w cfiber_multislab \<Rightarrow> u64 \<Rightarrow> 'w \<Rightarrow> ('w cfiber_multislab \<times> 'w) option" where
  "multislab_free_node ms node w = do {
     n \<leftarrow> ms_nodes ms node;
     w \<leftarrow> call_mem_free ms (raw_memory n) (ms_slab_memory_size ms) w;
     w \<leftarrow> call_mem_free ms node SIZEOF_SLAB_NODE w;
     Some (ms\<lparr>ms_nodes := (ms_nodes ms)(node := None)\<rparr>, w)
   }"

text \<open>One list of \<open>find_owning_slab\<close>: the loop ends at the null pointer, result 0.\<close>

partial_function (option) find_in_list :: "nodes \<Rightarrow> u64 \<Rightarrow> u64 \<Rightarrow> u64 \<Rightarrow> u64 option" where
  "find_in_list H slab_memory_size n p =
     (if n = 0 then Some 0
      else Option.bind (H n) (\<lambda>node.
        if p \<ge> raw_memory node \<and> p < raw_memory node + slab_memory_size then Some n
        else find_in_list H slab_memory_size (sn_next node) p))"

definition find_owning_slab :: "'w cfiber_multislab \<Rightarrow> u64 \<Rightarrow> u64 option" where
  "find_owning_slab ms ptr = do {
     n \<leftarrow> find_in_list (ms_nodes ms) (ms_slab_memory_size ms) (ms_active ms) ptr;
     if n \<noteq> 0 then Some n
     else find_in_list (ms_nodes ms) (ms_slab_memory_size ms) (ms_full ms) ptr
   }"

section \<open>The public operations\<close>

text \<open>
  \<open>memset(ms, 0, sizeof *ms)\<close> and the assignments after it; the nodes of a previous use are
  not reachable from the zeroed struct.
\<close>

definition ms_zero :: "'w cfiber_multislab" where
  "ms_zero = \<lparr>ms_active = 0, ms_full = 0, ms_block_size = 0, ms_blocks_per_slab = 0,
     ms_slab_memory_size = 0, ms_slab_count = 0, ms_max_slabs = 0, ms_empty_count = 0,
     ms_max_empty_reserve = 0, ms_mem_alloc = None, ms_mem_free = None, ms_mem_ctx = 0,
     ms_nodes = Map.empty\<rparr>"

definition cfiber_multislab_init_ext ::
  "'w cfiber_multislab \<Rightarrow> u64 \<Rightarrow> u32 \<Rightarrow> u32 \<Rightarrow> u32 \<Rightarrow>
   (u64 \<Rightarrow> u64 \<Rightarrow> 'w \<Rightarrow> u64 \<times> 'w) option \<Rightarrow> (u64 \<Rightarrow> u64 \<Rightarrow> u64 \<Rightarrow> 'w \<Rightarrow> 'w option) option \<Rightarrow> u64 \<Rightarrow>
   int \<times> 'w cfiber_multislab" where
  "cfiber_multislab_init_ext ms block_size blocks_per_slab max_slabs hysteresis_threshold
     mem_alloc mem_free mem_ctx =
     (if block_size < CFIBER_CACHE_LINE_SIZE \<or> block_size mod CFIBER_CACHE_LINE_SIZE \<noteq> 0 \<or>
         blocks_per_slab = 0 \<or> blocks_per_slab > CFIBER_SLAB_MAX_BLOCKS \<or>
         ucast blocks_per_slab > SIZE_MAX div block_size \<or> mem_alloc = None \<or> mem_free = None
      then (- 1, ms)
      else (0, ms_zero
        \<lparr>ms_block_size := block_size,
         ms_blocks_per_slab := blocks_per_slab,
         ms_slab_memory_size := block_size * ucast blocks_per_slab,
         ms_max_slabs := max_slabs,
         ms_max_empty_reserve := hysteresis_threshold,
         ms_mem_alloc := mem_alloc,
         ms_mem_free := mem_free,
         ms_mem_ctx := mem_ctx\<rparr>))"

definition cfiber_multislab_init ::
  "placement \<Rightarrow> libc_heap cfiber_multislab \<Rightarrow> u64 \<Rightarrow> u32 \<Rightarrow> u32 \<Rightarrow> u32 \<Rightarrow>
   int \<times> libc_heap cfiber_multislab" where
  "cfiber_multislab_init place ms block_size blocks_per_slab max_slabs hysteresis_threshold =
     cfiber_multislab_init_ext ms block_size blocks_per_slab max_slabs hysteresis_threshold
       (Some (default_alloc place)) (Some default_free) 0"

text \<open>The loop of \<open>cfiber_multislab_alloc\<close>: full slabs at the head go to the full list.\<close>

partial_function (option) multislab_walk ::
  "'w cfiber_multislab \<Rightarrow> (u64 \<times> 'w cfiber_multislab) option" where
  "multislab_walk ms =
     (if ms_active ms = 0 then Some (0, ms)
      else Option.bind (ms_nodes ms (ms_active ms)) (\<lambda>n.
        Option.bind (cfiber_slab_alloc (sn_slab n)) (\<lambda>r.
          if fst r \<noteq> 0
          then Some (fst r, ms\<lparr>ms_nodes := (ms_nodes ms)(ms_active ms \<mapsto> n\<lparr>sn_slab := snd r\<rparr>)\<rparr>)
          else
            Option.bind (list_unlink ((ms_nodes ms)(ms_active ms \<mapsto> n\<lparr>sn_slab := snd r\<rparr>))
              (ms_active ms) (ms_active ms)) (\<lambda>u.
            Option.bind (list_push (fst u) (ms_full ms) (ms_active ms)) (\<lambda>q.
            Option.bind (fst q (ms_active ms)) (\<lambda>m.
              multislab_walk
                (ms\<lparr>ms_nodes := (fst q)(ms_active ms \<mapsto> m\<lparr>is_full := True\<rparr>),
                    ms_active := snd u, ms_full := snd q\<rparr>)))))))"

text \<open>The bookkeeping of a successful allocation, on the node at the head of the active list.\<close>

definition multislab_account ::
  "u64 \<Rightarrow> 'w cfiber_multislab \<Rightarrow> 'w \<Rightarrow> (u64 \<times> 'w cfiber_multislab \<times> 'w) option" where
  "multislab_account ptr ms w = do {
     n \<leftarrow> ms_nodes ms (ms_active ms);
     let empty = (if used_count n = 0 then ms_empty_count ms - 1 else ms_empty_count ms);
     Some (ptr,
       ms\<lparr>ms_nodes := (ms_nodes ms)(ms_active ms \<mapsto> n\<lparr>used_count := used_count n + 1\<rparr>),
          ms_empty_count := empty\<rparr>, w)
   }"

definition cfiber_multislab_alloc ::
  "bool \<Rightarrow> 'w cfiber_multislab \<Rightarrow> 'w \<Rightarrow> (u64 \<times> 'w cfiber_multislab \<times> 'w) option" where
  "cfiber_multislab_alloc nd ms w = do {
     (ptr, ms) \<leftarrow> multislab_walk ms;
     if ptr = 0 then do {
       (grown, ms, w) \<leftarrow> multislab_grow nd ms w;
       if grown = 0 then Some (0, ms, w)
       else do {
         n \<leftarrow> ms_nodes ms (ms_active ms);
         (ptr, slab) \<leftarrow> cfiber_slab_alloc (sn_slab n);
         multislab_account ptr
           (ms\<lparr>ms_nodes := (ms_nodes ms)(ms_active ms \<mapsto> n\<lparr>sn_slab := slab\<rparr>)\<rparr>) w
       }
     }
     else multislab_account ptr ms w
   }"

text \<open>The two tails of \<open>cfiber_multislab_release\<close>: a slab that was full goes back to the active list,
  and a slab that became empty is kept in reserve or given back.\<close>

definition multislab_refile ::
  "'w cfiber_multislab \<Rightarrow> u64 \<Rightarrow> cfiber_slab_node \<Rightarrow> 'w cfiber_multislab option" where
  "multislab_refile ms node n =
     (if is_full n then do {
        (nodes, full) \<leftarrow> list_unlink (ms_nodes ms) (ms_full ms) node;
        (nodes, active) \<leftarrow> list_push nodes (ms_active ms) node;
        n \<leftarrow> nodes node;
        Some (ms\<lparr>ms_nodes := nodes(node \<mapsto> n\<lparr>is_full := False\<rparr>),
                 ms_full := full, ms_active := active\<rparr>)
      } else Some ms)"

definition multislab_shrink ::
  "'w cfiber_multislab \<Rightarrow> u64 \<Rightarrow> 'w \<Rightarrow> ('w cfiber_multislab \<times> 'w) option" where
  "multislab_shrink ms node w = do {
     n \<leftarrow> ms_nodes ms node;
     if used_count n = 0 then do {
       let ms = ms\<lparr>ms_empty_count := ms_empty_count ms + 1\<rparr>;
       if ms_empty_count ms > ms_max_empty_reserve ms \<and> ms_slab_count ms > 1 then do {
         (nodes, active) \<leftarrow> list_unlink (ms_nodes ms) (ms_active ms) node;
         (ms, w) \<leftarrow> multislab_free_node (ms\<lparr>ms_nodes := nodes, ms_active := active\<rparr>) node w;
         Some (ms\<lparr>ms_slab_count := ms_slab_count ms - 1,
                  ms_empty_count := ms_empty_count ms - 1\<rparr>, w)
       } else Some (ms, w)
     } else Some (ms, w)
   }"

definition cfiber_multislab_release ::
  "bool \<Rightarrow> 'w cfiber_multislab \<Rightarrow> u64 \<Rightarrow> 'w \<Rightarrow> ('w cfiber_multislab \<times> 'w) option" where
  "cfiber_multislab_release nd ms ptr w = do {
     node \<leftarrow> find_owning_slab ms ptr;
     if node = 0 then do { ASSERT nd False; Some (ms, w) }
     else do {
       n \<leftarrow> ms_nodes ms node;
       (released, slab) \<leftarrow> cfiber_slab_release nd (sn_slab n) ptr;
       if \<not> released then Some (ms, w)
       else do {
         let n = n\<lparr>sn_slab := slab, used_count := used_count n - 1\<rparr>;
         ms \<leftarrow> multislab_refile (ms\<lparr>ms_nodes := (ms_nodes ms)(node \<mapsto> n)\<rparr>) node n;
         multislab_shrink ms node w
       }
     }
   }"

text \<open>\<open>free_node_list\<close> reads \<open>next\<close> before the node is freed.\<close>

partial_function (option) free_node_list ::
  "'w cfiber_multislab \<Rightarrow> u64 \<Rightarrow> 'w \<Rightarrow> ('w cfiber_multislab \<times> 'w) option" where
  "free_node_list ms head w =
     (if head = 0 then Some (ms, w)
      else Option.bind (ms_nodes ms head) (\<lambda>n.
        Option.bind (multislab_free_node ms head w) (\<lambda>r.
          free_node_list (fst r) (sn_next n) (snd r))))"

definition cfiber_multislab_destroy ::
  "'w cfiber_multislab \<Rightarrow> 'w \<Rightarrow> ('w cfiber_multislab \<times> 'w) option" where
  "cfiber_multislab_destroy ms w = do {
     (ms, w) \<leftarrow> free_node_list ms (ms_active ms) w;
     (ms, w) \<leftarrow> free_node_list ms (ms_full ms) w;
     Some (ms_zero, w)
   }"

text \<open>A run on a concrete input.\<close>

lemmas [run_defs] = cfiber_multislab_init_def cfiber_multislab_init_ext_def ms_zero_def
  cfiber_multislab_alloc_def multislab_walk.simps multislab_grow_def call_mem_alloc_def
  call_mem_free_def list_push_def SIZEOF_SLAB_NODE_def multislab_account_def SIZE_MAX_def uninit_slab_def
  find_owning_slab_def find_in_list.simps cfiber_multislab_release_def multislab_refile_def
  multislab_shrink_def list_unlink_def multislab_free_node_def

end
