(* ===== verification/Multislab_Correct.thy ===== *)
theory Multislab_Correct
  imports Multislab
begin

text \<open>
  The multislab allocator's invariant and the behaviour of its operations, for any backing
  allocator that meets its contract: the two lists partition the nodes, every node's slab is in
  order and its counter exact, the counters of the struct agree with the lists, and all memory is
  live in the backing allocator. From it: allocation never hands out a block twice, release undoes
  exactly one allocation and rejects everything else, shrinking gives memory back, destroy gives
  back all of it, and no operation dereferences a node that is not allocated.
\<close>

section \<open>The chains\<close>

definition node_links :: "nodes \<Rightarrow> links" where
  "node_links H p = map_option (\<lambda>n. (sn_next n, sn_prev n)) (H p)"

type_synonym node_view = "cfiber_slab \<times> u32 \<times> bool \<times> u64"

definition node_view :: "cfiber_slab_node \<Rightarrow> node_view" where
  "node_view n = (sn_slab n, used_count n, is_full n, raw_memory n)"

definition node_payload :: "nodes \<Rightarrow> u64 \<Rightarrow> node_view option" where
  "node_payload H p = map_option node_view (H p)"

lemma node_links_None [simp]: "node_links H p = None \<longleftrightarrow> H p = None"
  by (simp add: node_links_def)

lemma dom_node_links [simp]: "dom (node_links H) = dom H"
  by (auto simp: node_links_def)

lemma node_links_upd [simp]:
  "node_links (H(p \<mapsto> n)) = (node_links H)(p \<mapsto> (sn_next n, sn_prev n))"
  by (simp add: node_links_def fun_eq_iff)

lemma node_payload_upd: "node_payload (H(p \<mapsto> n)) = (node_payload H)(p \<mapsto> node_view n)"
  by (simp add: node_payload_def fun_eq_iff)

lemma node_payload_same:
  "H p = Some n \<Longrightarrow> node_view n' = node_view n \<Longrightarrow> node_payload (H(p \<mapsto> n')) = node_payload H"
  by (auto simp: node_payload_def fun_eq_iff)

text \<open>\<open>list_push\<close> and \<open>list_unlink\<close> implement the abstract list operations.\<close>

interpretation node_list: dlist_ops node_links node_payload list_push list_unlink
proof unfold_locales
  fix H :: nodes and p h
  assume p: "node_links H p \<noteq> None" and hp: "h \<noteq> p" and h: "h = 0 \<or> node_links H h \<noteq> None"
  from p obtain n where n: "H p = Some n" by auto
  show "\<exists>H'. list_push H h p = Some (H', p) \<and> node_links H' = link_push (node_links H) h p \<and>
      node_payload H' = node_payload H"
  proof (cases "h = 0")
    case True
    then have "list_push H h p = Some (H(p \<mapsto> n\<lparr>sn_next := 0, sn_prev := 0\<rparr>), p)"
      using n by (simp add: list_push_def)
    then show ?thesis
      using True n node_payload_same [of H p n "n\<lparr>sn_next := 0, sn_prev := 0\<rparr>"]
      by (auto simp: link_push_def node_view_def)
  next
    case False
    then obtain m where m: "H h = Some m" using h by auto
    let ?H = "H(p \<mapsto> n\<lparr>sn_next := h, sn_prev := 0\<rparr>)"
    have "list_push H h p = Some (?H(h \<mapsto> m\<lparr>sn_prev := p\<rparr>), p)"
      using n m False hp by (simp add: list_push_def)
    moreover have "node_payload (?H(h \<mapsto> m\<lparr>sn_prev := p\<rparr>)) = node_payload H"
      using n m hp by (auto simp: node_payload_def node_view_def fun_eq_iff)
    ultimately show ?thesis
      using False m by (auto simp: link_push_def node_links_def)
  qed
next
  fix H :: nodes and p nx pv h
  assume l: "node_links H p = Some (nx, pv)" and pv: "pv = 0 \<or> node_links H pv \<noteq> None"
    and nx: "nx = 0 \<or> node_links H nx \<noteq> None"
  from l obtain n where n: "H p = Some n" "sn_next n = nx" "sn_prev n = pv"
    by (auto simp: node_links_def)
  have lp: "link_next (node_links H) p = nx" "link_prev (node_links H) p = pv"
    using l by (simp_all add: link_next_def link_prev_def)
  define H1 where "H1 = (if pv = 0 then H else H(pv \<mapsto> (the (H pv))\<lparr>sn_next := nx\<rparr>))"
  define L1 where "L1 = (if pv = 0 then node_links H
     else (node_links H)(pv \<mapsto> (nx, link_prev (node_links H) pv)))"
  have H1: "node_links H1 = L1" "node_payload H1 = node_payload H"
    using pv by (auto simp: H1_def L1_def node_links_def node_payload_def node_view_def link_prev_def fun_eq_iff)
  have n1: "\<exists>n1. H1 p = Some n1 \<and> sn_next n1 = nx \<and> sn_prev n1 = pv"
    using n pv by (auto simp: H1_def)
  have step1: "(if sn_prev n \<noteq> 0
        then do { q \<leftarrow> H (sn_prev n); Some (H(sn_prev n \<mapsto> q\<lparr>sn_next := sn_next n\<rparr>), h) }
        else Some (H, sn_next n)) = Some (H1, unlink_head (node_links H) h p)"
    using n pv lp by (auto simp: H1_def unlink_head_def)
  have nx1: "nx = 0 \<or> H1 nx \<noteq> None" using nx by (auto simp: H1_def)
  define H2 where "H2 = (if nx = 0 then H1 else H1(nx \<mapsto> (the (H1 nx))\<lparr>sn_prev := pv\<rparr>))"
  have LU: "link_unlink (node_links H) p = (if nx = 0 then L1 else L1(nx \<mapsto> (link_next L1 nx, pv)))"
    using lp by (simp add: link_unlink_def Let_def L1_def)
  have H2: "node_links H2 = link_unlink (node_links H) p" "node_payload H2 = node_payload H1"
  proof -
    have "node_links H2 = link_unlink (node_links H) p \<and> node_payload H2 = node_payload H1"
    proof (cases "nx = 0")
      case True
      then show ?thesis using H1(1) by (simp add: H2_def LU)
    next
      case False
      then obtain y where y: "H1 nx = Some y" using nx1 by auto
      then have "L1 nx = Some (sn_next y, sn_prev y)" by (simp add: H1(1) [symmetric] node_links_def)
      then show ?thesis
        using False y H1(1) node_payload_same [of H1 nx y "y\<lparr>sn_prev := pv\<rparr>"]
        by (simp add: H2_def LU link_next_def node_view_def)
    qed
    then show "node_links H2 = link_unlink (node_links H) p" "node_payload H2 = node_payload H1"
      by auto
  qed
  have "list_unlink H h p = Some (H2, unlink_head (node_links H) h p)"
    using n(1) n1 nx1 step1 by (auto simp: list_unlink_def H2_def)
  then show "\<exists>H'. list_unlink H h p = Some (H', unlink_head (node_links H) h p) \<and>
      node_links H' = link_unlink (node_links H) p \<and> node_payload H' = node_payload H"
    using H1 H2 by auto
qed

section \<open>The invariant\<close>

text \<open>
  Everything but the links is stated on the view of the nodes, which the list routines preserve.
  \<open>nodes_ok\<close>: every node's slab is in order, carved from the node's own memory with the multislab's
  geometry, and \<open>used_count\<close> is exact. \<open>lists_ok\<close>: the two lists hold exactly the nodes, the full
  list only full slabs. \<open>mem_ok\<close>: node and slab memory are live in the backing allocator, no two
  nodes share memory. \<open>counts_ok\<close>: \<open>slab_count\<close> and \<open>empty_count\<close> count what they say, modulo
  their width; a growth cap bounds the chain.
\<close>

type_synonym nodes_view = "u64 \<Rightarrow> node_view option"

definition nodes_ok :: "u64 \<Rightarrow> u32 \<Rightarrow> nodes_view \<Rightarrow> bool" where
  "nodes_ok bs bps V \<longleftrightarrow>
     (\<forall>p s u f r. V p = Some (s, u, f, r) \<longrightarrow>
        slab_inv s \<and> sl_memory s = r \<and> sl_block_size s = bs \<and> sl_block_count s = bps \<and>
        unat u = card (slab_used s))"

definition lists_ok :: "nodes_view \<Rightarrow> u64 list \<Rightarrow> u64 list \<Rightarrow> bool" where
  "lists_ok V as fs \<longleftrightarrow>
     dom V = set as \<union> set fs \<and> set as \<inter> set fs = {} \<and>
     (\<forall>p s u f r. V p = Some (s, u, f, r) \<longrightarrow>
        (f \<longleftrightarrow> p \<in> set fs) \<and> (f \<longrightarrow> slab_used s = {..<unat (sl_block_count s)}))"

definition mem_ok :: "(u64 \<Rightarrow> nat option) \<Rightarrow> u64 \<Rightarrow> nodes_view \<Rightarrow> bool" where
  "mem_ok M sz V \<longleftrightarrow>
     (\<forall>p s u f r. V p = Some (s, u, f, r) \<longrightarrow>
        M p \<noteq> None \<and> (\<exists>m \<ge> unat sz. M r = Some m) \<and> r \<notin> dom V) \<and>
     (\<forall>p q s u f s' u' f' r. V p = Some (s, u, f, r) \<longrightarrow> V q = Some (s', u', f', r) \<longrightarrow> p = q)"

definition view_blocks :: "nodes_view \<Rightarrow> u64 set" where
  "view_blocks V = {b. \<exists>p s u f r. V p = Some (s, u, f, r) \<and> b \<in> slab_live s}"

definition view_empty :: "nodes_view \<Rightarrow> u64 set" where
  "view_empty V = {p. \<exists>s f r. V p = Some (s, 0, f, r)}"

definition counts_ok :: "'w cfiber_multislab \<Rightarrow> nodes_view \<Rightarrow> bool" where
  "counts_ok ms V \<longleftrightarrow>
     ms_slab_count ms = of_nat (card (dom V)) \<and>
     ms_empty_count ms = of_nat (card (view_empty V)) \<and>
     (ms_max_slabs ms \<noteq> 0 \<longrightarrow> card (dom V) \<le> unat (ms_max_slabs ms))"

definition geometry_ok :: "'w cfiber_multislab \<Rightarrow> bool" where
  "geometry_ok ms \<longleftrightarrow>
     0 < unat (ms_block_size ms) \<and> unat (ms_block_size ms) mod 64 = 0 \<and>
     0 < unat (ms_blocks_per_slab ms) \<and> unat (ms_blocks_per_slab ms) \<le> 512 \<and>
     unat (ms_slab_memory_size ms) = unat (ms_block_size ms) * unat (ms_blocks_per_slab ms)"

definition chains_ok :: "'w cfiber_multislab \<Rightarrow> u64 list \<Rightarrow> u64 list \<Rightarrow> bool" where
  "chains_ok ms as fs \<longleftrightarrow>
     dll (node_links (ms_nodes ms)) (ms_active ms) as \<and> dll (node_links (ms_nodes ms)) (ms_full ms) fs"

text \<open>\<open>ms_core\<close> leaves the two counters out: they are adjusted last in every operation.\<close>

definition ms_core ::
  "(u64 \<Rightarrow> u64 \<Rightarrow> 'w \<Rightarrow> u64 \<times> 'w) \<Rightarrow> (u64 \<Rightarrow> u64 \<Rightarrow> u64 \<Rightarrow> 'w \<Rightarrow> 'w option) \<Rightarrow> (u64 \<Rightarrow> nat option) \<Rightarrow>
   'w cfiber_multislab \<Rightarrow> u64 list \<Rightarrow> u64 list \<Rightarrow> bool" where
  "ms_core al fr M ms as fs \<longleftrightarrow>
     ms_mem_alloc ms = Some al \<and> ms_mem_free ms = Some fr \<and> geometry_ok ms \<and> chains_ok ms as fs \<and>
     nodes_ok (ms_block_size ms) (ms_blocks_per_slab ms) (node_payload (ms_nodes ms)) \<and>
     lists_ok (node_payload (ms_nodes ms)) as fs \<and>
     mem_ok M (ms_slab_memory_size ms) (node_payload (ms_nodes ms))"

definition ms_inv ::
  "(u64 \<Rightarrow> u64 \<Rightarrow> 'w \<Rightarrow> u64 \<times> 'w) \<Rightarrow> (u64 \<Rightarrow> u64 \<Rightarrow> u64 \<Rightarrow> 'w \<Rightarrow> 'w option) \<Rightarrow> (u64 \<Rightarrow> nat option) \<Rightarrow>
   'w cfiber_multislab \<Rightarrow> bool" where
  "ms_inv al fr M ms \<longleftrightarrow>
     (\<exists>as fs. ms_core al fr M ms as fs) \<and> counts_ok ms (node_payload (ms_nodes ms))"

text \<open>The blocks handed out, and what an operation never changes.\<close>

definition ms_live :: "'w cfiber_multislab \<Rightarrow> u64 set" where
  "ms_live ms = view_blocks (node_payload (ms_nodes ms))"

definition same_conf :: "'w cfiber_multislab \<Rightarrow> 'w cfiber_multislab \<Rightarrow> bool" where
  "same_conf ms ms' \<longleftrightarrow>
     ms_block_size ms' = ms_block_size ms \<and> ms_blocks_per_slab ms' = ms_blocks_per_slab ms \<and>
     ms_slab_memory_size ms' = ms_slab_memory_size ms \<and> ms_max_slabs ms' = ms_max_slabs ms \<and>
     ms_max_empty_reserve ms' = ms_max_empty_reserve ms \<and> ms_mem_alloc ms' = ms_mem_alloc ms \<and>
     ms_mem_free ms' = ms_mem_free ms \<and> ms_mem_ctx ms' = ms_mem_ctx ms"

lemma same_conf_refl [simp]: "same_conf ms ms"
  by (simp add: same_conf_def)

lemma same_conf_trans: "same_conf a b \<Longrightarrow> same_conf b c \<Longrightarrow> same_conf a c"
  by (simp add: same_conf_def)

lemma payload_Some: "node_payload H p = Some v \<longleftrightarrow> (\<exists>n. H p = Some n \<and> node_view n = v)"
  by (auto simp: node_payload_def)

lemma payload_None [simp]: "node_payload H p = None \<longleftrightarrow> H p = None"
  by (simp add: node_payload_def)

lemma dom_node_payload [simp]: "dom (node_payload H) = dom H"
  by (auto simp: node_payload_def)

lemma ms_coreD:
  assumes "ms_core al fr M ms as fs"
  shows "ms_mem_alloc ms = Some al" "ms_mem_free ms = Some fr" "geometry_ok ms"
    "dll (node_links (ms_nodes ms)) (ms_active ms) as" "dll (node_links (ms_nodes ms)) (ms_full ms) fs"
    "nodes_ok (ms_block_size ms) (ms_blocks_per_slab ms) (node_payload (ms_nodes ms))"
    "lists_ok (node_payload (ms_nodes ms)) as fs"
    "mem_ok M (ms_slab_memory_size ms) (node_payload (ms_nodes ms))"
    "dom (ms_nodes ms) = set as \<union> set fs" "set as \<inter> set fs = {}"
  using assms by (auto simp: ms_core_def chains_ok_def lists_ok_def)

lemma ms_core_node:
  assumes "ms_core al fr M ms as fs" "ms_nodes ms p = Some n"
  shows "slab_inv (sn_slab n)" "sl_memory (sn_slab n) = raw_memory n"
    "sl_block_size (sn_slab n) = ms_block_size ms" "sl_block_count (sn_slab n) = ms_blocks_per_slab ms"
    "unat (used_count n) = card (slab_used (sn_slab n))" "is_full n \<longleftrightarrow> p \<in> set fs"
    "is_full n \<Longrightarrow> slab_used (sn_slab n) = {..<unat (sl_block_count (sn_slab n))}"
    "M p \<noteq> None" "\<exists>m \<ge> unat (ms_slab_memory_size ms). M (raw_memory n) = Some m"
    "raw_memory n \<notin> dom (ms_nodes ms)"
proof -
  have v: "node_payload (ms_nodes ms) p =
      Some (sn_slab n, used_count n, is_full n, raw_memory n)"
    using assms(2) by (simp add: node_payload_def node_view_def)
  show "slab_inv (sn_slab n)" "sl_memory (sn_slab n) = raw_memory n"
    "sl_block_size (sn_slab n) = ms_block_size ms" "sl_block_count (sn_slab n) = ms_blocks_per_slab ms"
    "unat (used_count n) = card (slab_used (sn_slab n))"
    using ms_coreD(6) [OF assms(1)] v by (auto simp: nodes_ok_def)
  show "is_full n \<longleftrightarrow> p \<in> set fs"
    "is_full n \<Longrightarrow> slab_used (sn_slab n) = {..<unat (sl_block_count (sn_slab n))}"
    using ms_coreD(7) [OF assms(1)] v unfolding lists_ok_def by blast+
  show "M p \<noteq> None" "\<exists>m \<ge> unat (ms_slab_memory_size ms). M (raw_memory n) = Some m"
    "raw_memory n \<notin> dom (ms_nodes ms)"
    using ms_coreD(8) [OF assms(1)] v by (auto simp: mem_ok_def)
qed

lemma ms_live_iff:
  "b \<in> ms_live ms \<longleftrightarrow> (\<exists>p n. ms_nodes ms p = Some n \<and> b \<in> slab_live (sn_slab n))"
  by (auto simp: ms_live_def view_blocks_def node_payload_def node_view_def)

text \<open>The memory of the multislab, as addresses of regions of the backing allocator.\<close>

definition ms_footprint :: "nodes \<Rightarrow> u64 set" where
  "ms_footprint H = dom H \<union> raw_memory ` ran H"

definition ms_rest :: "(u64 \<Rightarrow> nat option) \<Rightarrow> 'w cfiber_multislab \<Rightarrow> u64 \<Rightarrow> nat option" where
  "ms_rest M ms = M |` (- ms_footprint (ms_nodes ms))"

lemma footprint_payload:
  "ms_footprint H = dom (node_payload H) \<union> {r. \<exists>p s u f. node_payload H p = Some (s, u, f, r)}"
  by (force simp: ms_footprint_def ran_def node_payload_def node_view_def)

lemma footprint_ran:
  "ms_footprint H = dom (node_payload H) \<union> (\<lambda>(s, u, f, r). r) ` ran (node_payload H)"
  unfolding footprint_payload by (force simp: ran_def)

lemma footprint_upd:
  assumes "node_payload H p = Some (s, u, f, r)"
    "node_payload H' = (node_payload H)(p \<mapsto> (s', u', f', r))"
  shows "ms_footprint H' = ms_footprint H \<and> dom H' = dom H"
proof
  have "dom (node_payload H') = dom (node_payload H)"
    unfolding assms(2) using assms(1) by (subst dom_fun_upd) (simp add: insert_absorb domIff del: dom_node_payload)
  then show d: "dom H' = dom H" by simp
  have "(\<exists>q s u f. node_payload H' q = Some (s, u, f, x)) \<longleftrightarrow>
      (\<exists>q s u f. node_payload H q = Some (s, u, f, x))" (is "?L = ?R") for x
  proof
    assume ?R
    then obtain q s1 u1 f1 where "node_payload H q = Some (s1, u1, f1, x)" by blast
    then have "node_payload H' q = Some (if q = p then (s', u', f', x) else (s1, u1, f1, x))"
      using assms by (cases "q = p") simp_all
    then show ?L by (cases "q = p") (simp_all, blast+)
  next
    assume ?L
    then obtain q s1 u1 f1 where q: "node_payload H' q = Some (s1, u1, f1, x)" by blast
    show ?R
    proof (cases "q = p")
      case True
      then show ?thesis using q assms by (auto intro!: exI [of _ p])
    next
      case False
      then show ?thesis using q assms(2) by simp blast
    qed
  qed
  then show "ms_footprint H' = ms_footprint H" by (simp add: footprint_payload d)
qed

lemma same_slab_refl [simp]: "same_slab s s"
  unfolding same_slab_def by (rule exI [of _ "sl_bitmap s"]) simp

lemma node_links_same:
  "H p = Some n \<Longrightarrow> sn_next n' = sn_next n \<Longrightarrow> sn_prev n' = sn_prev n \<Longrightarrow>
     node_links (H(p \<mapsto> n')) = node_links H"
  by (auto simp: node_links_def fun_eq_iff)

lemma geometryD:
  assumes "geometry_ok ms"
  shows "0 < unat (ms_slab_memory_size ms)" "unat (ms_slab_memory_size ms) + 63 < 2 ^ 64"
    "unat (ms_slab_memory_size ms) = unat (ms_block_size ms) * unat (ms_blocks_per_slab ms)"
proof -
  let ?z = "unat (ms_slab_memory_size ms)"
  note g = assms [unfolded geometry_ok_def]
  then show "0 < ?z" "?z = unat (ms_block_size ms) * unat (ms_blocks_per_slab ms)" by simp_all
  have "?z mod 64 = 0" using g by (auto simp: mod_eq_0_iff_dvd)
  moreover have "?z < 2 ^ 64" using unsigned_less [of "ms_slab_memory_size ms"] by simp
  ultimately show "?z + 63 < 2 ^ 64" by (auto simp: mod_eq_0_iff_dvd elim!: dvdE)
qed

lemma geometry_conf: "same_conf ms ms' \<Longrightarrow> geometry_ok ms' = geometry_ok ms"
  by (simp add: same_conf_def geometry_ok_def)

text \<open>Replacing one node's payload, as the invariant sees it.\<close>

lemma view_upd:
  assumes "nodes_ok bs bps V" "lists_ok V as fs" "mem_ok M sz V" "V p = Some (s, u, f, r)"
    "slab_inv s'" "same_slab s s'" "unat u' = card (slab_used s')"
    "dom V = set as' \<union> set fs'" "set as' \<inter> set fs' = {}" "set fs' - {p} = set fs - {p}"
    "f' \<longleftrightarrow> p \<in> set fs'" "f' \<Longrightarrow> slab_used s' = {..<unat (sl_block_count s')}"
  shows "nodes_ok bs bps (V(p \<mapsto> (s', u', f', r)))" "lists_ok (V(p \<mapsto> (s', u', f', r))) as' fs'"
    "mem_ok M sz (V(p \<mapsto> (s', u', f', r)))"
proof -
  have "sl_memory s = r \<and> sl_block_size s = bs \<and> sl_block_count s = bps"
    using assms(1,4) by (auto simp: nodes_ok_def)
  then show "nodes_ok bs bps (V(p \<mapsto> (s', u', f', r)))"
    using assms(1,5-7) same_slab_fields [OF assms(6)] by (auto simp: nodes_ok_def)
  have d: "dom (V(p \<mapsto> (s', u', f', r))) = dom V" using assms(4) by auto
  have "(f1 \<longleftrightarrow> q \<in> set fs') \<and> (f1 \<longrightarrow> slab_used s1 = {..<unat (sl_block_count s1)})"
    if "(V(p \<mapsto> (s', u', f', r))) q = Some (s1, u1, f1, r1)" for q s1 u1 f1 r1
  proof (cases "q = p")
    case True
    then show ?thesis using that assms(11,12) by simp
  next
    case False
    then have "V q = Some (s1, u1, f1, r1)" using that by simp
    then have "(f1 \<longleftrightarrow> q \<in> set fs) \<and> (f1 \<longrightarrow> slab_used s1 = {..<unat (sl_block_count s1)})"
      using assms(2) unfolding lists_ok_def by blast
    then show ?thesis using False assms(10) by blast
  qed
  then show "lists_ok (V(p \<mapsto> (s', u', f', r))) as' fs'"
    unfolding lists_ok_def d using assms(8,9) by blast
  have "\<exists>s1 u1 f1. V q = Some (s1, u1, f1, r1)"
    if "(V(p \<mapsto> (s', u', f', r))) q = Some (s0, u0, f0, r1)" for q s0 u0 f0 r1
    using that assms(4) by (auto split: if_splits)
  then show "mem_ok M sz (V(p \<mapsto> (s', u', f', r)))"
    using assms(3) unfolding mem_ok_def d by meson
qed

lemma core_upd:
  assumes core: "ms_core al fr M ms as fs" and n: "ms_nodes ms p = Some n"
    and s: "slab_inv s'" "same_slab (sn_slab n) s'" "unat u' = card (slab_used s')"
    and l: "set as' \<union> set fs' = set as \<union> set fs" "set as' \<inter> set fs' = {}"
      "set fs' - {p} = set fs - {p}" "f' \<longleftrightarrow> p \<in> set fs'"
      "f' \<Longrightarrow> slab_used s' = {..<unat (sl_block_count s')}"
    and ms': "same_conf ms ms'"
      "node_payload (ms_nodes ms') = (node_payload (ms_nodes ms))(p \<mapsto> (s', u', f', raw_memory n))"
      "dll (node_links (ms_nodes ms')) (ms_active ms') as'"
      "dll (node_links (ms_nodes ms')) (ms_full ms') fs'"
  shows "ms_core al fr M ms' as' fs'"
proof -
  have V: "node_payload (ms_nodes ms) p = Some (sn_slab n, used_count n, is_full n, raw_memory n)"
    using n by (simp add: node_payload_def node_view_def)
  note C = ms_coreD [OF core]
  have d: "dom (node_payload (ms_nodes ms)) = set as' \<union> set fs'" using C(9) l(1) by simp
  note U = view_upd [OF C(6-8) V s d l(2-5)]
  show ?thesis
    unfolding ms_core_def chains_ok_def
    using C(1-3) U ms' geometry_conf [OF ms'(1)] by (simp add: same_conf_def)
qed

lemma view_blocks_upd:
  assumes "V p = Some (s, u, f, r)"
  shows "view_blocks (V(p \<mapsto> (s', u', f', r'))) =
    slab_live s' \<union> {b. \<exists>q s u f r. q \<noteq> p \<and> V q = Some (s, u, f, r) \<and> b \<in> slab_live s}"
    and "view_blocks V = slab_live s \<union> {b. \<exists>q s u f r. q \<noteq> p \<and> V q = Some (s, u, f, r) \<and> b \<in> slab_live s}"
  using assms by (force simp: view_blocks_def)+

lemma view_empty_upd:
  "view_empty (V(p \<mapsto> (s', u', f', r'))) =
     (if u' = 0 then insert p (view_empty V) else view_empty V - {p})"
  by (auto simp: view_empty_def)

section \<open>Lookups and list moves\<close>

text \<open>The search of one list: the first node whose memory holds the address.\<close>

definition in_slab :: "nodes \<Rightarrow> u64 \<Rightarrow> u64 \<Rightarrow> u64 \<Rightarrow> bool" where
  "in_slab H sz p x \<longleftrightarrow>
     (case H x of None \<Rightarrow> False | Some n \<Rightarrow> raw_memory n \<le> p \<and> p < raw_memory n + sz)"

lemma find_in_list_spec:
  "walk_from (node_links H) h xs \<Longrightarrow>
     find_in_list H sz h p = Some (case find (in_slab H sz p) xs of None \<Rightarrow> 0 | Some x \<Rightarrow> x)"
proof (induction xs arbitrary: h)
  case Nil
  then show ?case by (simp add: walk_from_def find_in_list.simps)
next
  case (Cons x xs)
  then obtain n where n: "h = x" "x \<noteq> 0" "H x = Some n" "walk_from (node_links H) (sn_next n) xs"
    using walk_Cons [OF Cons.prems] unfolding node_links_def [of H x] by auto
  show ?case
    using Cons.IH [OF n(4)] n(1-3) by (simp add: find_in_list.simps [of H sz x] in_slab_def)
qed

text \<open>A full slab at the head of the active list goes to the full list; nothing else changes.\<close>

lemma move_full:
  assumes core: "ms_core al fr M ms (a # as) fs" and n: "ms_nodes ms a = Some n"
    and full: "slab_used (sn_slab n) = {..<unat (sl_block_count (sn_slab n))}"
  obtains H1 act H2 m where
    "list_unlink (ms_nodes ms) a a = Some (H1, act)" "list_push H1 (ms_full ms) a = Some (H2, a)"
    "H2 a = Some m"
    "ms_core al fr M (ms\<lparr>ms_nodes := H2(a \<mapsto> m\<lparr>is_full := True\<rparr>), ms_active := act, ms_full := a\<rparr>)
       as (a # fs)"
    "node_payload (H2(a \<mapsto> m\<lparr>is_full := True\<rparr>)) =
       (node_payload (ms_nodes ms))(a \<mapsto> (sn_slab n, used_count n, True, raw_memory n))"
proof -
  note C = ms_coreD [OF core]
  have dist: "distinct (a # as)" "distinct fs" using C(4,5) by (auto dest: dll_distinct)
  have a: "ms_active ms = a" using C(4) by (auto dest: dll_head)
  obtain H1 act where 1: "list_unlink (ms_nodes ms) a a = Some (H1, act)"
    "dll (node_links H1) act (remove1 a (a # as))" "node_payload H1 = node_payload (ms_nodes ms)"
    "node_links H1 a \<noteq> None"
    "\<And>ys h'. dll (node_links (ms_nodes ms)) h' ys \<Longrightarrow> set ys \<inter> set (a # as) = {} \<Longrightarrow>
       dll (node_links H1) h' ys"
    by (rule node_list.unlink_remove [OF C(4) [unfolded a], of a]) auto
  have fs1: "dll (node_links H1) (ms_full ms) fs" using 1(5) [OF C(5)] C(10) by blast
  have afs: "a \<notin> set fs" "a \<noteq> 0" using C(10) dll_in_dom [OF C(4), of a] by auto
  obtain H2 where 2: "list_push H1 (ms_full ms) a = Some (H2, a)" "dll (node_links H2) a (a # fs)"
    "node_payload H2 = node_payload H1"
    "\<And>ys h'. dll (node_links H1) h' ys \<Longrightarrow> set ys \<inter> set (a # fs) = {} \<Longrightarrow> dll (node_links H2) h' ys"
    by (rule node_list.push_front [OF fs1 afs 1(4)]) auto
  have as2: "dll (node_links H2) act as" using 2(4) [of act as] 1(2) dist C(10) by auto
  have pay: "node_payload H2 = node_payload (ms_nodes ms)" using 1(3) 2(3) by simp
  then have "node_payload H2 a = Some (node_view n)" using n by (simp add: node_payload_def)
  then obtain m where m: "H2 a = Some m" "node_view m = node_view n" by (auto simp: payload_Some)
  let ?H = "H2(a \<mapsto> m\<lparr>is_full := True\<rparr>)"
  have P: "node_payload ?H =
      (node_payload (ms_nodes ms))(a \<mapsto> (sn_slab n, used_count n, True, raw_memory n))"
    using m(2) pay by (simp add: node_payload_upd node_view_def)
  have L: "node_links ?H = node_links H2" using m(1) by (rule node_links_same) simp_all
  have V: "node_payload (ms_nodes ms) a = Some (sn_slab n, used_count n, is_full n, raw_memory n)"
    using n by (simp add: node_payload_def node_view_def)
  note N = ms_core_node [OF core n]
  have "ms_core al fr M (ms\<lparr>ms_nodes := ?H, ms_active := act, ms_full := a\<rparr>) as (a # fs)"
  proof (rule core_upd [where f' = True, OF core n N(1) same_slab_refl N(5)])
    show "set as \<union> set (a # fs) = set (a # as) \<union> set fs" "set (a # fs) - {a} = set fs - {a}" by auto
    show "set as \<inter> set (a # fs) = {}" using dist C(10) by auto
  qed (simp_all add: P L same_conf_def as2 2(2) full del: node_links_upd)
  then show thesis using that [OF 1(1) 2(1) m(1) _ P] by blast
qed

text \<open>What the loop of the allocator leaves as it was.\<close>

definition same_content :: "'w cfiber_multislab \<Rightarrow> 'w cfiber_multislab \<Rightarrow> bool" where
  "same_content ms ms' \<longleftrightarrow>
     same_conf ms ms' \<and> ms_slab_count ms' = ms_slab_count ms \<and> ms_empty_count ms' = ms_empty_count ms \<and>
     ms_live ms' = ms_live ms \<and> ms_footprint (ms_nodes ms') = ms_footprint (ms_nodes ms) \<and>
     dom (ms_nodes ms') = dom (ms_nodes ms) \<and>
     view_empty (node_payload (ms_nodes ms')) = view_empty (node_payload (ms_nodes ms))"

lemma same_content_refl: "same_content ms ms"
  by (simp add: same_content_def)

lemma same_content_trans: "same_content a b \<Longrightarrow> same_content b c \<Longrightarrow> same_content a c"
  by (auto simp: same_content_def intro: same_conf_trans)

text \<open>How the loop ends: no active slab left, or a block taken from the slab at the head.\<close>

definition walk_done ::
  "'w cfiber_multislab \<Rightarrow> u64 list \<Rightarrow> u64 \<times> 'w cfiber_multislab \<Rightarrow> bool" where
  "walk_done ms as r \<longleftrightarrow>
     as = [] \<and> r = (0, ms) \<or>
     (\<exists>n p s. ms_nodes ms (ms_active ms) = Some n \<and> ms_active ms \<in> set as \<and>
        cfiber_slab_alloc (sn_slab n) = Some (p, s) \<and> p \<noteq> 0 \<and>
        r = (p, ms\<lparr>ms_nodes := (ms_nodes ms)(ms_active ms \<mapsto> n\<lparr>sn_slab := s\<rparr>)\<rparr>))"

text \<open>The loop of the allocator: it ends at a slab with a free block, or every slab is full.\<close>

lemma walk_spec:
  "ms_core al fr M ms as fs \<Longrightarrow>
   \<exists>r ms' as' fs'. ms_core al fr M ms' as' fs' \<and> same_content ms ms' \<and>
     walk_done ms' as' r \<and>
     multislab_walk ms = Some r"
proof (induction as arbitrary: ms fs)
  case Nil
  have "ms_active ms = 0" using ms_coreD(4) [OF Nil] by simp
  then show ?case using Nil
    by (intro exI [of _ "(0, ms)"] exI [of _ ms] exI [of _ "[]"] exI [of _ fs])
      (simp add: multislab_walk.simps [of ms] same_content_refl walk_done_def)
next
  case (Cons a as)
  note C = ms_coreD [OF Cons.prems]
  have a: "ms_active ms = a" "a \<noteq> 0" using dll_head [OF C(4)] by auto
  obtain n where n: "ms_nodes ms a = Some n" using C(9) by auto
  note N = ms_core_node [OF Cons.prems n]
  from N(1) show ?case
  proof (cases rule: slab_alloc_cases)
    case full
    obtain H1 act H2 m where M: "list_unlink (ms_nodes ms) a a = Some (H1, act)"
      "list_push H1 (ms_full ms) a = Some (H2, a)" "H2 a = Some m"
      and core: "ms_core al fr M
         (ms\<lparr>ms_nodes := H2(a \<mapsto> m\<lparr>is_full := True\<rparr>), ms_active := act, ms_full := a\<rparr>) as (a # fs)"
      and P: "node_payload (H2(a \<mapsto> m\<lparr>is_full := True\<rparr>)) =
         (node_payload (ms_nodes ms))(a \<mapsto> (sn_slab n, used_count n, True, raw_memory n))"
      by (rule move_full [OF Cons.prems n full(1)])
    let ?ms = "ms\<lparr>ms_nodes := H2(a \<mapsto> m\<lparr>is_full := True\<rparr>), ms_active := act, ms_full := a\<rparr>"
    have V: "node_payload (ms_nodes ms) a = Some (sn_slab n, used_count n, is_full n, raw_memory n)"
      using n by (simp add: node_payload_def node_view_def)
    have "ms_live ?ms = ms_live ms"
      using view_blocks_upd [of "node_payload (ms_nodes ms)", OF V] P by (simp add: ms_live_def)
    moreover have "ms_footprint (ms_nodes ?ms) = ms_footprint (ms_nodes ms)"
      using footprint_upd [OF V P] by simp
    moreover have "dom (ms_nodes ?ms) = dom (ms_nodes ms)"
      using footprint_upd [OF V P] by simp
    moreover have "view_empty (node_payload (ms_nodes ?ms)) = view_empty (node_payload (ms_nodes ms))"
      using V P by (auto simp: view_empty_upd) (auto simp: view_empty_def)
    moreover have "multislab_walk ms = multislab_walk ?ms"
      using a n full(2) M map_upd_triv [of "ms_nodes ms" a n]
      by (simp add: multislab_walk.simps [of ms])
    moreover have "same_conf ms ?ms" by (simp add: same_conf_def)
    moreover have "ms_slab_count ?ms = ms_slab_count ms" "ms_empty_count ?ms = ms_empty_count ms"
      by simp_all
    ultimately have "same_content ms ?ms" "multislab_walk ms = multislab_walk ?ms"
      unfolding same_content_def by blast+
    then show ?thesis
      using Cons.IH [OF core] same_content_trans [of ms ?ms] by (simp only:) blast
  next
    case (block i s')
    have "multislab_walk ms =
        Some (slab_addr (sn_slab n) i, ms\<lparr>ms_nodes := (ms_nodes ms)(a \<mapsto> n\<lparr>sn_slab := s'\<rparr>)\<rparr>)"
      using a n block(4) slab_addr_nonnull [OF N(1) block(1)] by (simp add: multislab_walk.simps [of ms])
    moreover have "walk_done ms (a # as)
        (slab_addr (sn_slab n) i, ms\<lparr>ms_nodes := (ms_nodes ms)(a \<mapsto> n\<lparr>sn_slab := s'\<rparr>)\<rparr>)"
      unfolding walk_done_def a(1)
      using n block(4) slab_addr_nonnull [OF N(1) block(1)] list.set_intros(1) [of a as] by blast
    ultimately show ?thesis using Cons.prems same_content_refl [of ms] by blast
  qed
qed

section \<open>Allocation\<close>

lemma payload_view:
  "ms_nodes ms p = Some n \<Longrightarrow>
     node_payload (ms_nodes ms) p = Some (sn_slab n, used_count n, is_full n, raw_memory n)"
  by (simp add: node_payload_def node_view_def)

lemma slab_live_region:
  assumes "slab_inv s" "b \<in> slab_live s"
  shows "unat (sl_memory s) \<le> unat b"
    "unat b + unat (sl_block_size s) \<le> unat (sl_memory s) + unat (sl_block_size s) * unat (sl_block_count s)"
proof -
  from assms(2) obtain i where i: "b = slab_addr s i" "i < unat (sl_block_count s)"
    by (auto simp: slab_live_def slab_used_def)
  have b: "unat b = unat (sl_memory s) + i * unat (sl_block_size s)"
    using slab_addr_unat [OF assms(1)] i by simp
  then show "unat (sl_memory s) \<le> unat b" by simp
  have "Suc i * unat (sl_block_size s) \<le> unat (sl_block_count s) * unat (sl_block_size s)"
    using i(2) by (intro mult_le_mono1) simp
  then show "unat b + unat (sl_block_size s) \<le>
      unat (sl_memory s) + unat (sl_block_size s) * unat (sl_block_count s)"
    using b by (simp add: mult.commute)
qed

lemma slab_addr_region:
  assumes "slab_inv s" "i < unat (sl_block_count s)"
  shows "unat (sl_memory s) \<le> unat (slab_addr s i)"
    "unat (slab_addr s i) < unat (sl_memory s) + unat (sl_block_size s) * unat (sl_block_count s)"
proof -
  have "i * unat (sl_block_size s) < unat (sl_block_count s) * unat (sl_block_size s)"
    using assms slab_invD(2) [OF assms(1)] by simp
  then show "unat (sl_memory s) \<le> unat (slab_addr s i)"
    "unat (slab_addr s i) < unat (sl_memory s) + unat (sl_block_size s) * unat (sl_block_count s)"
    using slab_addr_unat [OF assms(1), of i] assms(2) by (simp_all add: mult.commute)
qed

text \<open>The bookkeeping keeps \<open>empty_count\<close> exact.\<close>

lemma finite_view_empty: "finite (dom V) \<Longrightarrow> finite (view_empty V)"
  by (rule finite_subset [of _ "dom V"]) (auto simp: view_empty_def)

lemma ms_core_finite: "ms_core al fr M ms as fs \<Longrightarrow> finite (dom (ms_nodes ms))"
  by (simp add: ms_coreD(9))

context backing_allocator
begin

lemma region_owner:
  assumes ok: "ok w" and core: "ms_core al fr (R w) ms as fs"
    and n: "ms_nodes ms p = Some n" and m: "ms_nodes ms q = Some m"
    and x: "unat (raw_memory n) \<le> x" "x < unat (raw_memory n) + unat (ms_slab_memory_size ms)"
      "unat (raw_memory m) \<le> x" "x < unat (raw_memory m) + unat (ms_slab_memory_size ms)"
  shows "p = q"
proof -
  obtain k where k: "unat (ms_slab_memory_size ms) \<le> k" "R w (raw_memory n) = Some k"
    using ms_core_node(9) [OF core n] by blast
  obtain l where l: "unat (ms_slab_memory_size ms) \<le> l" "R w (raw_memory m) = Some l"
    using ms_core_node(9) [OF core m] by blast
  have "raw_memory n = raw_memory m"
    using block_unique [OF ok k(2) l(2), of x] x k(1) l(1) by simp
  then show ?thesis
    using ms_coreD(8) [OF core] payload_view [OF n] payload_view [OF m] unfolding mem_ok_def by metis
qed

lemma node_block_region:
  assumes core: "ms_core al fr (R w) ms as fs" and n: "ms_nodes ms p = Some n"
    and i: "i < unat (ms_blocks_per_slab ms)"
  shows "unat (raw_memory n) \<le> unat (slab_addr (sn_slab n) i)"
    "unat (slab_addr (sn_slab n) i) < unat (raw_memory n) + unat (ms_slab_memory_size ms)"
  using slab_addr_region [of "sn_slab n" i] ms_core_node [OF core n] i
    geometryD(3) [OF ms_coreD(3) [OF core]] by simp_all

lemma live_owner:
  assumes ok: "ok w" and core: "ms_core al fr (R w) ms as fs" and n: "ms_nodes ms p = Some n"
    and i: "i < unat (ms_blocks_per_slab ms)" and m: "ms_nodes ms q = Some m"
    and b: "slab_addr (sn_slab n) i \<in> slab_live (sn_slab m)"
  shows "p = q"
proof -
  from b obtain j where j: "slab_addr (sn_slab n) i = slab_addr (sn_slab m) j"
    "j < unat (sl_block_count (sn_slab m))" by (auto simp: slab_live_def slab_used_def)
  then have "j < unat (ms_blocks_per_slab ms)" using ms_core_node(4) [OF core m] by simp
  then show ?thesis
    using region_owner [OF ok core n m node_block_region [OF core n i]] node_block_region [OF core m, of j] j(1)
    by simp
qed

lemma take_block:
  assumes ok: "ok w" and core: "ms_core al fr (R w) ms as fs"
    and n: "ms_nodes ms (ms_active ms) = Some n" and act: "ms_active ms \<in> set as"
    and a: "cfiber_slab_alloc (sn_slab n) = Some (p, s)" "p \<noteq> 0"
  obtains ms' where
    "multislab_account p (ms\<lparr>ms_nodes := (ms_nodes ms)(ms_active ms \<mapsto> n\<lparr>sn_slab := s\<rparr>)\<rparr>) w0 =
       Some (p, ms', w0)"
    "ms_core al fr (R w) ms' as fs" "same_conf ms ms'" "p \<notin> ms_live ms"
    "ms_live ms' = insert p (ms_live ms)" "ms_footprint (ms_nodes ms') = ms_footprint (ms_nodes ms)"
    "counts_ok ms (node_payload (ms_nodes ms)) \<Longrightarrow> counts_ok ms' (node_payload (ms_nodes ms'))"
proof -
  let ?q = "ms_active ms"
  note N = ms_core_node [OF core n]
  from N(1) obtain i where i: "i < unat (sl_block_count (sn_slab n))" "i \<notin> slab_used (sn_slab n)"
    "p = slab_addr (sn_slab n) i" "slab_inv s" "same_slab (sn_slab n) s"
    "slab_used s = insert i (slab_used (sn_slab n))"
    by (cases rule: slab_alloc_cases) (use a in auto)
  have c: "card (slab_used s) = Suc (unat (used_count n))" using i(2,6) N(5) by simp
  have "card (slab_used s) \<le> 512"
    using card_mono [OF _ slab_used_bound, of s] slab_invD(4) [OF i(4)] by simp
  then have u: "unat (used_count n + 1) = card (slab_used s)"
    using c by (subst unat_add_no_wrap) auto
  then have u0: "used_count n + 1 \<noteq> 0" using c by auto
  let ?n = "n\<lparr>sn_slab := s, used_count := used_count n + 1\<rparr>"
  let ?e = "if used_count n = 0 then ms_empty_count ms - 1 else ms_empty_count ms"
  let ?ms = "ms\<lparr>ms_nodes := (ms_nodes ms)(?q \<mapsto> ?n), ms_empty_count := ?e\<rparr>"
  have acc: "multislab_account p (ms\<lparr>ms_nodes := (ms_nodes ms)(?q \<mapsto> n\<lparr>sn_slab := s\<rparr>)\<rparr>) w0 =
      Some (p, ?ms, w0)"
    by (simp add: multislab_account_def Let_def)
  have L: "node_links (ms_nodes ?ms) = node_links (ms_nodes ms)"
    using node_links_same [of "ms_nodes ms", OF n, of ?n] by simp
  have P: "node_payload (ms_nodes ?ms) =
      (node_payload (ms_nodes ms))(?q \<mapsto> (s, used_count n + 1, is_full n, raw_memory n))"
    by (simp add: node_payload_upd node_view_def)
  have conf: "same_conf ms ?ms" by (simp add: same_conf_def)
  have nf: "\<not> is_full n" "?q \<notin> set fs" using N(6) ms_coreD(10) [OF core] act by auto
  have core': "ms_core al fr (R w) ?ms as fs"
    by (rule core_upd [OF core n i(4,5) u refl ms_coreD(10) [OF core] refl _ _ conf P])
      (use nf ms_coreD(4,5) [OF core] L in auto)
  note V = payload_view [OF n]
  have fresh: "p \<notin> ms_live ms"
  proof
    assume "p \<in> ms_live ms"
    then obtain q m where m: "ms_nodes ms q = Some m" "p \<in> slab_live (sn_slab m)"
      by (auto simp: ms_live_iff)
    have "?q = q"
      using live_owner [OF ok core n _ m(1)] i(1,3) N(4) m(2) by simp
    then show False using m n i(1-3) slab_live_iff [OF N(1) i(1)] by simp
  qed
  have "slab_live s = insert p (slab_live (sn_slab n))"
    using i(3,6) same_slab_fields(5) [OF i(5)] by (simp add: slab_live_def)
  then have live: "ms_live ?ms = insert p (ms_live ms)"
    unfolding ms_live_def P view_blocks_upd(1) [of "node_payload (ms_nodes ms)", OF V]
      view_blocks_upd(2) [of "node_payload (ms_nodes ms)", OF V] by simp
  have foot: "ms_footprint (ms_nodes ?ms) = ms_footprint (ms_nodes ms)"
    and dom: "dom (ms_nodes ?ms) = dom (ms_nodes ms)"
    using footprint_upd [OF V P] by simp_all
  have counts: "counts_ok ?ms (node_payload (ms_nodes ?ms))" if "counts_ok ms (node_payload (ms_nodes ms))"
  proof -
    let ?E = "view_empty (node_payload (ms_nodes ms))"
    have fin: "finite ?E" using ms_core_finite [OF core] by (intro finite_view_empty) simp
    have "?q \<in> ?E \<longleftrightarrow> used_count n = 0" using V by (auto simp: view_empty_def)
    moreover have "view_empty (node_payload (ms_nodes ?ms)) = ?E - {?q}"
      unfolding P using u0 by (simp add: view_empty_upd)
    moreover have "(of_nat (card ?E) :: u32) - 1 = of_nat (card (?E - {?q}))" if "?q \<in> ?E"
      using card.remove [OF fin that] by simp
    ultimately show ?thesis
      using that dom by (auto simp: counts_ok_def)
  qed
  show thesis by (rule that [OF acc core' conf fresh live foot counts])
qed

end

text \<open>Adding an empty node whose memory is new.\<close>

lemma view_add:
  assumes "nodes_ok bs bps V" "lists_ok V as fs" "mem_ok M sz V"
    "M q = None" "M r = None" "q \<noteq> r" "unat sz \<le> l"
    "slab_inv s" "sl_memory s = r" "sl_block_size s = bs" "sl_block_count s = bps" "slab_used s = {}"
  shows "nodes_ok bs bps (V(q \<mapsto> (s, 0, False, r)))" "lists_ok (V(q \<mapsto> (s, 0, False, r))) (q # as) fs"
    "mem_ok (M(q \<mapsto> k, r \<mapsto> l)) sz (V(q \<mapsto> (s, 0, False, r)))" "q \<notin> dom V"
proof -
  show q: "q \<notin> dom V" using assms(3,4) by (fastforce simp: mem_ok_def)
  have r: "r \<notin> dom V" using assms(3,5) by (fastforce simp: mem_ok_def)
  have rr: "r' \<noteq> q \<and> r' \<noteq> r" if "V p = Some (s1, u1, f1, r')" for p s1 u1 f1 r'
    using that assms(3,4,5) unfolding mem_ok_def by (metis option.distinct(1))
  show "nodes_ok bs bps (V(q \<mapsto> (s, 0, False, r)))" using assms by (auto simp: nodes_ok_def)
  show "lists_ok (V(q \<mapsto> (s, 0, False, r))) (q # as) fs"
  proof -
    have "q \<notin> set fs" "set as \<inter> set fs = {}" "dom V = set as \<union> set fs"
      using q assms(2) by (auto simp: lists_ok_def)
    moreover have "(f1 \<longleftrightarrow> p \<in> set fs) \<and> (f1 \<longrightarrow> slab_used s1 = {..<unat (sl_block_count s1)})"
      if "(V(q \<mapsto> (s, 0, False, r))) p = Some (s1, u1, f1, r1)" for p s1 u1 f1 r1
    proof (cases "p = q")
      case True
      then show ?thesis using that \<open>q \<notin> set fs\<close> by simp
    next
      case False
      then have "V p = Some (s1, u1, f1, r1)" using that by simp
      then show ?thesis using assms(2) unfolding lists_ok_def by blast
    qed
    ultimately show ?thesis unfolding lists_ok_def by auto
  qed
  show "mem_ok (M(q \<mapsto> k, r \<mapsto> l)) sz (V(q \<mapsto> (s, 0, False, r)))"
    unfolding mem_ok_def
  proof (intro conjI allI impI)
    fix p s1 u1 f1 r1 assume v: "(V(q \<mapsto> (s, 0, False, r))) p = Some (s1, u1, f1, r1)"
    have old: "M p \<noteq> None \<and> (\<exists>m \<ge> unat sz. M r1 = Some m) \<and> r1 \<notin> dom V" if "p \<noteq> q"
      using that v assms(3) unfolding mem_ok_def by (metis fun_upd_other)
    show "(M(q \<mapsto> k, r \<mapsto> l)) p \<noteq> None" using old by auto
    show "\<exists>m \<ge> unat sz. (M(q \<mapsto> k, r \<mapsto> l)) r1 = Some m"
      using v old rr assms(7) by (cases "p = q") auto
    show "r1 \<notin> dom (V(q \<mapsto> (s, 0, False, r)))"
      using v old rr r assms(6) by (cases "p = q") auto
  next
    fix p p' s1 u1 f1 s2 u2 f2 r1
    assume "(V(q \<mapsto> (s, 0, False, r))) p = Some (s1, u1, f1, r1)"
      "(V(q \<mapsto> (s, 0, False, r))) p' = Some (s2, u2, f2, r1)"
    then show "p = p'" using rr assms(3) unfolding mem_ok_def
      by (cases "p = q"; cases "p' = q") (auto, metis+)
  qed
qed

lemma view_blocks_add:
  assumes "V q = None" "slab_live s = {}"
  shows "view_blocks (V(q \<mapsto> (s, u, f, r))) = view_blocks V"
proof -
  have "(\<exists>p s1 u1 f1 r1. (V(q \<mapsto> (s, u, f, r))) p = Some (s1, u1, f1, r1) \<and> b \<in> slab_live s1) \<longleftrightarrow>
      (\<exists>p s1 u1 f1 r1. V p = Some (s1, u1, f1, r1) \<and> b \<in> slab_live s1)" (is "?L = ?R") for b
  proof
    assume ?R
    then obtain p s1 u1 f1 r1 where p: "V p = Some (s1, u1, f1, r1)" "b \<in> slab_live s1" by blast
    then have "p \<noteq> q" using assms(1) by auto
    then have "(V(q \<mapsto> (s, u, f, r))) p = Some (s1, u1, f1, r1)" using p(1) by simp
    then show ?L using p(2) by blast
  next
    assume ?L
    then obtain p s1 u1 f1 r1 where p: "(V(q \<mapsto> (s, u, f, r))) p = Some (s1, u1, f1, r1)" "b \<in> slab_live s1"
      by blast
    then have "p \<noteq> q" using assms(2) by auto
    then have "V p = Some (s1, u1, f1, r1)" using p(1) by simp
    then show ?R using p(2) by blast
  qed
  then show ?thesis by (simp add: view_blocks_def)
qed

lemma grow_slab_init:
  assumes "geometry_ok ms" "mem \<noteq> 0" "unat mem + unat (ms_slab_memory_size ms) < 2 ^ 64"
    "unat mem mod 16 = 0"
  obtains s where
    "cfiber_slab_init nd s0 (ms_block_size ms) mem (ms_slab_memory_size ms) = Some (0, s)"
    "slab_inv s" "sl_memory s = mem" "sl_block_size s = ms_block_size ms"
    "sl_block_count s = ms_blocks_per_slab ms" "slab_used s = {}"
proof -
  note g = assms(1) [unfolded geometry_ok_def]
  have d: "unat (ms_slab_memory_size ms) div unat (ms_block_size ms) = unat (ms_blocks_per_slab ms)"
    using g by simp
  have "slab_init_accepts (ms_block_size ms) mem (ms_slab_memory_size ms)"
    using g assms(4) d by (simp add: slab_init_accepts_def)
  from slab_init_accept [OF this assms(2,3)] show thesis
    using that d by (metis word_unat_eq_iff)
qed

lemma rest_grown:
  assumes "M q = None" "M r = None" "ms_footprint H' = insert q (insert r F)"
  shows "(M(q \<mapsto> k, r \<mapsto> l)) |` (- ms_footprint H') = M |` (- F)"
  using assms by (auto simp: restrict_map_def fun_eq_iff)

context backing_allocator
begin

lemma grow_spec:
  assumes ok: "ok w" and core: "ms_core al fr (R w) ms as fs"
    and cnt: "counts_ok ms (node_payload (ms_nodes ms))"
  obtains
    (none) w' where "multislab_grow nd ms w = Some (0, ms, w')" "ok w'" "R w' = R w"
  | (grown) q n ms' w' where "multislab_grow nd ms w = Some (q, ms', w')" "q \<noteq> 0" "ok w'"
      "ms_core al fr (R w') ms' (q # as) fs" "ms_active ms' = q" "ms_nodes ms' q = Some n"
      "slab_used (sn_slab n) = {}" "same_conf ms ms'" "ms_live ms' = ms_live ms"
      "counts_ok ms' (node_payload (ms_nodes ms'))" "ms_rest (R w') ms' = ms_rest (R w) ms"
proof -
  note C = ms_coreD [OF core]
  note G = geometryD [OF C(3)]
  let ?sz = "ms_slab_memory_size ms"
  show thesis
  proof (cases "ms_max_slabs ms \<noteq> 0 \<and> ms_slab_count ms \<ge> ms_max_slabs ms")
    case True
    then show thesis using none [of w] ok by (simp add: multislab_grow_def)
  next
    case room: False
    obtain q w1 where a1: "al SIZEOF_SLAB_NODE (ms_mem_ctx ms) w = (q, w1)" by fastforce
    show thesis
    proof (cases "q = 0")
      case True
      then show thesis
        using none [of w1] room a1 C(1) alloc_null [OF ok, of SIZEOF_SLAB_NODE "ms_mem_ctx ms" w1]
        by (simp add: multislab_grow_def call_mem_alloc_def)
    next
      case q: False
      have "0 < SIZEOF_SLAB_NODE" "unat SIZEOF_SLAB_NODE + 63 < 2 ^ 64"
        by (simp_all add: const_defs)
      from alloc_block [OF ok this a1 q] obtain k where
        k: "ok w1" "R w q = None" "R w1 = (R w)(q \<mapsto> k)" by blast
      obtain r w2 where a2: "al ?sz (ms_mem_ctx ms) w1 = (r, w2)" by fastforce
      show thesis
      proof (cases "r = 0")
        case True
        then have w2: "ok w2" "R w2 = R w1" using alloc_null [OF k(1)] a2 by auto
        then obtain w3 where w3: "fr q SIZEOF_SLAB_NODE (ms_mem_ctx ms) w2 = Some w3" "ok w3"
          "R w3 = (R w2)(q := None)"
          using free_block [OF w2(1), of q k SIZEOF_SLAB_NODE "ms_mem_ctx ms"] k(3) by auto
        then have "R w3 = R w" using w2 k by (simp add: fun_upd_idem)
        then show thesis
          using none [of w3] room a1 a2 q True C(1,2) w3
          by (simp add: multislab_grow_def call_mem_alloc_def call_mem_free_def)
      next
        case r: False
        have "0 < ?sz" using G(1) by (simp add: word_less_nat_alt)
        from alloc_block [OF k(1) this G(2) a2 r] obtain l where
          l: "ok w2" "R w1 r = None" "unat r mod 16 = 0" "unat ?sz \<le> l" "R w2 = (R w1)(r \<mapsto> l)"
          by (elim conjE exE)
        have qr: "R w r = None" "q \<noteq> r" using l(2) k(3) by (auto split: if_splits)
        have R2: "R w2 = (R w)(q \<mapsto> k, r \<mapsto> l)" using k l by simp
        then have "unat r + l < 2 ^ 64" using block_in_space [OF l(1), of r l] by simp
        then have fit: "unat r + unat ?sz < 2 ^ 64" using l(4) by linarith
        obtain s where s: "cfiber_slab_init nd uninit_slab (ms_block_size ms) r ?sz = Some (0, s)"
          "slab_inv s" "sl_memory s = r" "sl_block_size s = ms_block_size ms"
          "sl_block_count s = ms_blocks_per_slab ms" "slab_used s = {}"
          by (rule grow_slab_init [OF C(3) r fit l(3)])
        let ?n = "\<lparr>sn_slab = s, sn_next = 0, sn_prev = 0, used_count = 0, is_full = False,
                   raw_memory = r\<rparr>"
        let ?V = "node_payload (ms_nodes ms)"
        let ?H = "(ms_nodes ms)(q \<mapsto> ?n)"
        note A = view_add [OF C(6-8) k(2) qr l(4) s(2-6)]
        have links: "dll (node_links ?H) h xs = dll (node_links (ms_nodes ms)) h xs" if "q \<notin> set xs" for h xs
          by (rule dll_frame) (use that in auto)
        have q_new: "q \<notin> set as" "q \<notin> set fs" using A(4) C(9) by auto
        then have D: "dll (node_links ?H) (ms_active ms) as" "dll (node_links ?H) (ms_full ms) fs"
          using links C(4,5) by auto
        obtain H' where H': "list_push ?H (ms_active ms) q = Some (H', q)"
          "dll (node_links H') q (q # as)" "node_payload H' = node_payload ?H"
          "dll (node_links H') (ms_full ms) fs"
          by (rule node_list.push_front [OF D(1) q_new(1) q]) (use D(2) q_new C(10) in auto)
        have P: "node_payload H' = ?V(q \<mapsto> (s, 0, False, r))"
          using H'(3) by (simp add: node_payload_upd node_view_def)
        let ?ms = "ms\<lparr>ms_nodes := H', ms_active := q, ms_slab_count := ms_slab_count ms + 1,
                     ms_empty_count := ms_empty_count ms + 1\<rparr>"
        have conf: "same_conf ms ?ms" by (simp add: same_conf_def)
        have core': "ms_core al fr (R w2) ?ms (q # as) fs"
          unfolding ms_core_def chains_ok_def geometry_conf [OF conf]
          using C(1-3) A(1-3) H'(2,4) P R2 by simp
        obtain n where n: "H' q = Some n" "node_view n = (s, 0, False, r)"
          using fun_cong [OF P, of q] by (auto simp: payload_Some)
        have live: "ms_live ?ms = ms_live ms"
          using view_blocks_add [of ?V q s] A(4) s(6) by (simp add: ms_live_def P slab_live_def domIff)
        have fin: "finite (dom ?V)" using ms_core_finite [OF core] by simp
        have dV: "dom (node_payload H') = insert q (dom ?V)" unfolding P by simp
        have card: "card (dom (node_payload H')) = Suc (card (dom ?V))"
          unfolding dV using fin A(4) by simp
        have eV: "view_empty (node_payload H') = insert q (view_empty ?V)" unfolding P by (simp add: view_empty_upd)
        have "q \<notin> view_empty ?V" using A(4) by (auto simp: view_empty_def node_payload_def)
        then have ecard: "card (view_empty (node_payload H')) = Suc (card (view_empty ?V))"
          unfolding eV using finite_view_empty [OF fin] by simp
        have "card (dom ?V) < unat (ms_max_slabs ms)" if "ms_max_slabs ms \<noteq> 0"
        proof -
          have le: "card (dom ?V) \<le> unat (ms_max_slabs ms)" using cnt that by (simp add: counts_ok_def)
          have "unat (ms_max_slabs ms) < 2 ^ LENGTH(32)" by (rule unsigned_less)
          then have "unat (ms_slab_count ms) = card (dom ?V)"
            using cnt le by (simp add: counts_ok_def unat_of_nat_small)
          then show ?thesis using room that by (simp add: word_le_nat_alt)
        qed
        then have counts: "counts_ok ?ms (node_payload (ms_nodes ?ms))"
          using cnt card ecard by (auto simp: counts_ok_def)
        have foot: "ms_footprint H' = insert q (insert r (ms_footprint (ms_nodes ms)))"
          unfolding footprint_ran dV using A(4) by (simp add: P domIff ran_map_upd insert_commute)
        have rest: "ms_rest (R w2) ?ms = ms_rest (R w) ms"
          using rest_grown [OF k(2) qr(1) foot] R2 by (simp add: ms_rest_def)
        have "multislab_grow nd ms w = Some (q, ?ms, w2)"
          using room a1 a2 q r C(1) s(1) H'(1)
          by (simp add: multislab_grow_def call_mem_alloc_def Let_def)
        then show thesis
          using grown [of q ?ms w2 n] q l(1) core' n conf live counts rest s(6) by (simp add: node_view_def)
      qed
    qed
  qed
qed

text \<open>\<open>cfiber_multislab_alloc\<close> always returns: null with nothing changed, or a block no one holds.\<close>

lemma alloc_spec:
  assumes ok: "ok w" and inv: "ms_inv al fr (R w) ms"
  obtains p ms' w' where "cfiber_multislab_alloc nd ms w = Some (p, ms', w')" "ok w'"
    "ms_inv al fr (R w') ms'" "same_conf ms ms'" "ms_rest (R w') ms' = ms_rest (R w) ms"
    "p = 0 \<Longrightarrow> ms_live ms' = ms_live ms \<and> R w' = R w"
    "p \<noteq> 0 \<Longrightarrow> p \<notin> ms_live ms \<and> ms_live ms' = insert p (ms_live ms)"
proof -
  from inv obtain as fs where core: "ms_core al fr (R w) ms as fs"
    and cnt: "counts_ok ms (node_payload (ms_nodes ms))" by (auto simp: ms_inv_def)
  from walk_spec [OF core] obtain r ms1 as1 fs1 where core1: "ms_core al fr (R w) ms1 as1 fs1"
    and same: "same_content ms ms1" and wd: "walk_done ms1 as1 r" and walk: "multislab_walk ms = Some r"
    by blast
  have cnt1: "counts_ok ms1 (node_payload (ms_nodes ms1))"
    using cnt same by (simp add: counts_ok_def same_content_def same_conf_def)
  have S: "same_conf ms ms1" "ms_live ms1 = ms_live ms" "ms_rest (R w) ms1 = ms_rest (R w) ms"
    using same by (auto simp: same_content_def ms_rest_def)
  from wd consider "as1 = []" "r = (0, ms1)"
    | n p s where "ms_nodes ms1 (ms_active ms1) = Some n" "ms_active ms1 \<in> set as1"
        "cfiber_slab_alloc (sn_slab n) = Some (p, s)" "p \<noteq> 0"
        "r = (p, ms1\<lparr>ms_nodes := (ms_nodes ms1)(ms_active ms1 \<mapsto> n\<lparr>sn_slab := s\<rparr>)\<rparr>)"
    unfolding walk_done_def by blast
  then show thesis
  proof cases
    case 1
    show thesis
    proof (cases rule: grow_spec [OF ok core1 cnt1, of nd])
      case (1 w')
      have "ms_inv al fr (R w') ms1" using core1 cnt1 1(3) by (auto simp: ms_inv_def)
      then show thesis
        using that [of 0 ms1 w'] 1 \<open>r = (0, ms1)\<close> walk S by (simp add: cfiber_multislab_alloc_def)
    next
      case (2 q n ms2 w')
      from ms_core_node(1) [OF 2(4,6)] obtain p s where
        ps: "cfiber_slab_alloc (sn_slab n) = Some (p, s)" "p \<noteq> 0"
      proof (cases rule: slab_alloc_cases)
        case full
        then show thesis using 2(7) slab_invD(3) [OF ms_core_node(1) [OF 2(4,6)]] by auto
      next
        case (block i s')
        then show thesis using that slab_addr_nonnull [OF ms_core_node(1) [OF 2(4,6)]] by blast
      qed
      have act: "ms_nodes ms2 (ms_active ms2) = Some n" "ms_active ms2 \<in> set (q # as1)" using 2(5,6) by auto
      obtain ms3 where T:
        "multislab_account p (ms2\<lparr>ms_nodes := (ms_nodes ms2)(ms_active ms2 \<mapsto> n\<lparr>sn_slab := s\<rparr>)\<rparr>) w' =
           Some (p, ms3, w')"
        "ms_core al fr (R w') ms3 (q # as1) fs1" "same_conf ms2 ms3" "p \<notin> ms_live ms2"
        "ms_live ms3 = insert p (ms_live ms2)" "ms_footprint (ms_nodes ms3) = ms_footprint (ms_nodes ms2)"
        "counts_ok ms3 (node_payload (ms_nodes ms3))"
        by (rule take_block [OF 2(3,4) act ps, of w']) (use 2(10) in blast)
      have "ms_inv al fr (R w') ms3" using T(2,7) by (auto simp: ms_inv_def)
      moreover have "cfiber_multislab_alloc nd ms w = Some (p, ms3, w')"
        using walk \<open>r = (0, ms1)\<close> 2(1,2,5,6) ps(1) T(1) by (simp add: cfiber_multislab_alloc_def)
      moreover have "same_conf ms ms3" using S(1) 2(8) T(3) same_conf_trans by blast
      moreover have "ms_rest (R w') ms3 = ms_rest (R w) ms"
        using S(3) 2(11) T(6) by (simp add: ms_rest_def)
      ultimately show thesis using that [of p ms3 w'] 2(3,9) S(2) T(4,5) ps(2) by simp
    qed
  next
    case (2 n p s)
    obtain ms3 where T:
      "multislab_account p (ms1\<lparr>ms_nodes := (ms_nodes ms1)(ms_active ms1 \<mapsto> n\<lparr>sn_slab := s\<rparr>)\<rparr>) w =
         Some (p, ms3, w)"
      "ms_core al fr (R w) ms3 as1 fs1" "same_conf ms1 ms3" "p \<notin> ms_live ms1"
      "ms_live ms3 = insert p (ms_live ms1)" "ms_footprint (ms_nodes ms3) = ms_footprint (ms_nodes ms1)"
      "counts_ok ms3 (node_payload (ms_nodes ms3))"
      by (rule take_block [OF ok core1 2(1-4), of w]) (use cnt1 in blast)
    have "ms_inv al fr (R w) ms3" using T(2,7) by (auto simp: ms_inv_def)
    moreover have "cfiber_multislab_alloc nd ms w = Some (p, ms3, w)"
      using walk 2(4,5) T(1) by (simp add: cfiber_multislab_alloc_def)
    moreover have "same_conf ms ms3" using S(1) T(3) same_conf_trans by blast
    moreover have "ms_rest (R w) ms3 = ms_rest (R w) ms"
      using S(3) T(6) by (simp add: ms_rest_def)
    ultimately show thesis using that [of p ms3 w] ok S(2) T(4,5) 2(4) by simp
  qed
qed

end

section \<open>Release\<close>

text \<open>A slab that was full goes back to the active list.\<close>

lemma refile_spec:
  assumes core: "ms_core al fr M ms as fs" and n: "ms_nodes ms q = Some n"
    and i: "i \<in> slab_used (sn_slab n)" and s: "slab_inv s" "same_slab (sn_slab n) s"
      "slab_used s = slab_used (sn_slab n) - {i}"
    and n': "n' = n\<lparr>sn_slab := s, used_count := used_count n - 1\<rparr>"
  obtains ms' as' fs' where
    "multislab_refile (ms\<lparr>ms_nodes := (ms_nodes ms)(q \<mapsto> n')\<rparr>) q n' = Some ms'"
    "ms_core al fr M ms' as' fs'" "q \<in> set as'" "same_conf ms ms'"
    "ms_slab_count ms' = ms_slab_count ms" "ms_empty_count ms' = ms_empty_count ms"
    "node_payload (ms_nodes ms') =
       (node_payload (ms_nodes ms))(q \<mapsto> (s, used_count n - 1, False, raw_memory n))"
    "unat (used_count n) = Suc (unat (used_count n - 1))"
proof -
  note C = ms_coreD [OF core] and N = ms_core_node [OF core n]
  have c: "card (slab_used (sn_slab n)) = Suc (card (slab_used s))"
    using card.remove [OF _ i] s(3) by simp
  have "1 \<le> used_count n" using c N(5) by (simp add: word_le_nat_alt)
  then have u: "unat (used_count n - 1) = card (slab_used s)"
    using c N(5) by (simp add: unat_sub)
  then have u1: "unat (used_count n) = Suc (unat (used_count n - 1))" using c N(5) by simp
  let ?H = "(ms_nodes ms)(q \<mapsto> n')"
  have L: "node_links ?H = node_links (ms_nodes ms)"
    by (rule node_links_same [of "ms_nodes ms", OF n]) (simp_all add: n')
  have P: "node_payload ?H =
      (node_payload (ms_nodes ms))(q \<mapsto> (s, used_count n - 1, is_full n, raw_memory n))"
    by (simp add: node_payload_upd node_view_def n')
  show thesis
  proof (cases "is_full n")
    case False
    let ?ms = "ms\<lparr>ms_nodes := ?H\<rparr>"
    have q: "q \<in> set as" "q \<notin> set fs" using False N(6) C(9) n by auto
    have conf: "same_conf ms ?ms" by (simp add: same_conf_def)
    have P': "node_payload (ms_nodes ?ms) =
        (node_payload (ms_nodes ms))(q \<mapsto> (s, used_count n - 1, False, raw_memory n))"
      using P False by simp
    have "ms_core al fr M ?ms as fs"
      by (rule core_upd [OF core n s(1,2) u refl C(10) refl _ _ conf P'])
        (use q C(4,5) L in auto)
    then show thesis
      by (rule that [OF _ _ q(1) conf _ _ P' u1, rotated]) (use False n' in \<open>simp_all add: multislab_refile_def\<close>)
  next
    case True
    have q: "q \<in> set fs" "q \<notin> set as" using True N(6) C(10) by auto
    have dist: "distinct as" "distinct fs" using C(4,5) by (auto dest: dll_distinct)
    have D: "dll (node_links ?H) (ms_full ms) fs" "dll (node_links ?H) (ms_active ms) as"
      using C(4,5) L by simp_all
    obtain H1 full where 1: "list_unlink ?H (ms_full ms) q = Some (H1, full)"
      "dll (node_links H1) full (remove1 q fs)" "node_payload H1 = node_payload ?H"
      "node_links H1 q \<noteq> None" "dll (node_links H1) (ms_active ms) as"
      by (rule node_list.unlink_remove [OF D(1) q(1)]) (use D(2) C(10) in auto)
    have q0: "q \<noteq> 0" using dll_in_dom [OF D(1) q(1)] by simp
    have disj: "set (remove1 q fs) \<inter> set (q # as) = {}" using q dist C(10) by (auto simp: set_remove1_eq)
    obtain H2 where 2: "list_push H1 (ms_active ms) q = Some (H2, q)" "dll (node_links H2) q (q # as)"
      "node_payload H2 = node_payload H1" "dll (node_links H2) full (remove1 q fs)"
      by (rule node_list.push_front [OF 1(5) q(2) q0 1(4)]) (use 1(2) disj in blast)
    have "node_payload H2 q = Some (s, used_count n - 1, is_full n, raw_memory n)"
      using 1(3) 2(3) P by simp
    then obtain m where m: "H2 q = Some m" "node_view m = (s, used_count n - 1, is_full n, raw_memory n)"
      by (auto simp: payload_Some)
    let ?H2 = "H2(q \<mapsto> m\<lparr>is_full := False\<rparr>)"
    let ?ms = "ms\<lparr>ms_nodes := ?H2, ms_full := full, ms_active := q\<rparr>"
    have conf: "same_conf ms ?ms" by (simp add: same_conf_def)
    have L2: "node_links ?H2 = node_links H2" using m(1) by (rule node_links_same) simp_all
    have P2: "node_payload (ms_nodes ?ms) =
        (node_payload (ms_nodes ms))(q \<mapsto> (s, used_count n - 1, False, raw_memory n))"
      using 1(3) 2(3) P m(2) by (simp add: node_payload_upd node_view_def)
    have "ms_core al fr M ?ms (q # as) (remove1 q fs)"
    proof (rule core_upd [OF core n s(1,2) u _ _ _ _ _ conf P2])
      show "set (q # as) \<union> set (remove1 q fs) = set as \<union> set fs" using q dist by (auto simp: set_remove1_eq)
      show "set (q # as) \<inter> set (remove1 q fs) = {}" using disj by blast
      show "set (remove1 q fs) - {q} = set fs - {q}" "False \<longleftrightarrow> q \<in> set (remove1 q fs)"
        using dist by (auto simp: set_remove1_eq)
    qed (simp_all add: L2 2(2,4) del: node_links_upd)
    moreover have "multislab_refile (ms\<lparr>ms_nodes := ?H\<rparr>) q n' = Some ?ms"
      using True n' 1(1) 2(1) m(1) by (simp add: multislab_refile_def)
    ultimately show thesis using that [of ?ms "q # as" "remove1 q fs"] conf P2 u1 by simp
  qed
qed

text \<open>Dropping a node and its memory.\<close>

lemma map_del_Some:
  assumes "(V(q := None)) p = Some v"
  shows "V p = Some v" "p \<noteq> q"
  using assms by (auto split: if_splits)

lemma mem_drop:
  assumes "mem_ok M sz V" "V q = Some (s, u, f, r)"
  shows "mem_ok (M(r := None, q := None)) sz (V(q := None))"
  unfolding mem_ok_def
proof (intro conjI allI impI)
  fix p s1 u1 f1 r1 assume "(V(q := None)) p = Some (s1, u1, f1, r1)"
  note v = map_del_Some [OF this]
  have m: "M p \<noteq> None \<and> (\<exists>m \<ge> unat sz. M r1 = Some m) \<and> r1 \<notin> dom V" "r \<notin> dom V" "r1 \<noteq> r"
    using v assms unfolding mem_ok_def by blast+
  moreover have "p \<noteq> r" "r1 \<noteq> q" using m v assms(2) by (auto simp: domIff)
  ultimately show "(M(r := None, q := None)) p \<noteq> None"
    "\<exists>m \<ge> unat sz. (M(r := None, q := None)) r1 = Some m" "r1 \<notin> dom (V(q := None))"
    using v by auto
next
  fix p p' s1 u1 f1 s2 u2 f2 r1
  assume "(V(q := None)) p = Some (s1, u1, f1, r1)" "(V(q := None)) p' = Some (s2, u2, f2, r1)"
  then show "p = p'" using assms(1) unfolding mem_ok_def by (blast dest: map_del_Some)
qed

lemma view_drop:
  assumes "nodes_ok bs bps V" "lists_ok V as fs" "q \<in> set as" "distinct as"
  shows "nodes_ok bs bps (V(q := None))" "lists_ok (V(q := None)) (remove1 q as) fs"
proof -
  show "nodes_ok bs bps (V(q := None))" using assms(1) unfolding nodes_ok_def by (blast dest: map_del_Some)
  have "dom (V(q := None)) = set (remove1 q as) \<union> set fs" "set (remove1 q as) \<inter> set fs = {}"
    using assms(2-4) by (auto simp: lists_ok_def set_remove1_eq)
  then show "lists_ok (V(q := None)) (remove1 q as) fs"
    using assms(2) unfolding lists_ok_def by (blast dest: map_del_Some)
qed

lemma view_blocks_drop:
  "V q = Some (s, u, f, r) \<Longrightarrow> slab_live s = {} \<Longrightarrow> view_blocks (V(q := None)) = view_blocks V"
  using view_blocks_add [of "V(q := None)" q s u f r] by (simp add: map_upd_triv)

lemma footprint_drop:
  assumes "mem_ok M sz (node_payload H)" "node_payload H q = Some (s, u, f, r)"
    "node_payload H' = (node_payload H)(q := None)"
  shows "ms_footprint H' = ms_footprint H - {q, r}" "{q, r} \<subseteq> ms_footprint H"
proof -
  let ?V = "node_payload H"
  have r: "r \<notin> dom ?V" using assms(1,2) unfolding mem_ok_def by blast
  have oth: "r' \<noteq> q \<and> (p \<noteq> q \<longrightarrow> r' \<noteq> r)" if "?V p = Some (s', u', f', r')" for p s' u' f' r'
    using that assms(1,2) unfolding mem_ok_def by blast
  show "{q, r} \<subseteq> ms_footprint H" using assms(2) unfolding footprint_payload by (auto simp: domIff simp del: dom_node_payload payload_None)
  show "ms_footprint H' = ms_footprint H - {q, r}" (is "?A = ?B")
  proof (rule set_eqI)
    fix x
    have 1: "x \<in> dom (?V(q := None)) \<longleftrightarrow> x \<in> dom ?V \<and> x \<noteq> q \<and> x \<noteq> r" using r by auto
    have 2: "(\<exists>p s u f. (?V(q := None)) p = Some (s, u, f, x)) \<longleftrightarrow>
        (\<exists>p s u f. ?V p = Some (s, u, f, x)) \<and> x \<noteq> q \<and> x \<noteq> r" (is "?L \<longleftrightarrow> ?R")
    proof
      assume ?L
      then obtain p s1 u1 f1 where "(?V(q := None)) p = Some (s1, u1, f1, x)" by blast
      then have "?V p = Some (s1, u1, f1, x)" "p \<noteq> q" by (auto split: if_splits)
      then show ?R using oth by blast
    next
      assume R: ?R
      then obtain p s1 u1 f1 where p: "?V p = Some (s1, u1, f1, x)" by blast
      then have "p \<noteq> q" using R assms(2) by auto
      then have "(?V(q := None)) p = Some (s1, u1, f1, x)" using p by simp
      then show ?L by blast
    qed
    show "x \<in> ?A \<longleftrightarrow> x \<in> ?B" unfolding footprint_payload assms(3) Un_iff Diff_iff mem_Collect_eq 1 2 by auto
  qed
qed

text \<open>The policy: no more empty slabs than the reserve, or only one slab.\<close>

definition reserve_ok :: "'w cfiber_multislab \<Rightarrow> bool" where
  "reserve_ok ms \<longleftrightarrow> ms_empty_count ms \<le> ms_max_empty_reserve ms \<or> ms_slab_count ms \<le> 1"

context backing_allocator
begin

lemma free_node_spec:
  assumes ok: "ok w" and fr: "ms_mem_free ms = Some fr" and n: "ms_nodes ms q = Some n"
    and m: "mem_ok (R w) sz (node_payload (ms_nodes ms))"
  obtains w' where
    "multislab_free_node ms q w = Some (ms\<lparr>ms_nodes := (ms_nodes ms)(q := None)\<rparr>, w')"
    "ok w'" "R w' = (R w)(raw_memory n := None, q := None)"
proof -
  let ?r = "raw_memory n"
  have M: "R w q \<noteq> None" "R w ?r \<noteq> None" "?r \<noteq> q"
    using m payload_view [OF n] n unfolding mem_ok_def by (fastforce simp: domIff)+
  then obtain w1 where w1: "fr ?r (ms_slab_memory_size ms) (ms_mem_ctx ms) w = Some w1" "ok w1"
    "R w1 = (R w)(?r := None)"
    using free_block [OF ok, of ?r _ "ms_slab_memory_size ms" "ms_mem_ctx ms"] by auto
  then obtain k where "R w1 q = Some k" using M by auto
  then obtain w2 where w2: "fr q SIZEOF_SLAB_NODE (ms_mem_ctx ms) w1 = Some w2" "ok w2"
    "R w2 = (R w1)(q := None)"
    using free_block [OF w1(2), of q k SIZEOF_SLAB_NODE "ms_mem_ctx ms"] by auto
  show thesis
    by (rule that [OF _ w2(2)])
      (use w1 w2 n fr in \<open>simp_all add: multislab_free_node_def call_mem_free_def\<close>)
qed

end

context backing_allocator
begin

lemma shrink_spec:
  assumes ok: "ok w" and core: "ms_core al fr (R w) ms as fs" and q: "q \<in> set as"
    and n: "ms_nodes ms q = Some n"
    and sc: "ms_slab_count ms = of_nat (card (dom (ms_nodes ms)))"
    and ec: "ms_empty_count ms = of_nat (card (view_empty (node_payload (ms_nodes ms)) - {q}))"
    and cap: "ms_max_slabs ms \<noteq> 0 \<longrightarrow> card (dom (ms_nodes ms)) \<le> unat (ms_max_slabs ms)"
  obtains ms' w' where "multislab_shrink ms q w = Some (ms', w')" "ok w'" "ms_inv al fr (R w') ms'"
    "same_conf ms ms'" "ms_live ms' = ms_live ms" "ms_rest (R w') ms' = ms_rest (R w) ms"
    "reserve_ok ms \<Longrightarrow> reserve_ok ms'"
proof -
  note C = ms_coreD [OF core] and V = payload_view [OF n]
  let ?V = "node_payload (ms_nodes ms)"
  have finD: "finite (dom (ms_nodes ms))" by (rule ms_core_finite [OF core])
  have finE: "finite (view_empty ?V)" using finD by (intro finite_view_empty) simp
  show thesis
  proof (cases "used_count n = 0")
    case False
    then have "q \<notin> view_empty ?V" using V by (auto simp: view_empty_def)
    then have "counts_ok ms ?V" using sc ec cap by (simp add: counts_ok_def)
    then have "ms_inv al fr (R w) ms" using core by (auto simp: ms_inv_def)
    then show thesis using that [of ms w] False n ok by (simp add: multislab_shrink_def)
  next
    case u0: True
    let ?ms1 = "ms\<lparr>ms_empty_count := ms_empty_count ms + 1\<rparr>"
    have qe: "q \<in> view_empty ?V" using u0 V by (auto simp: view_empty_def)
    have conf1: "same_conf ms ?ms1" by (simp add: same_conf_def)
    show thesis
    proof (cases "ms_empty_count ms + 1 > ms_max_empty_reserve ms \<and> ms_slab_count ms > 1")
      case False
      have "counts_ok ?ms1 ?V"
        using sc ec cap card.remove [OF finE qe] by (simp add: counts_ok_def)
      moreover have "ms_core al fr (R w) ?ms1 as fs"
        using core by (simp add: ms_core_def chains_ok_def geometry_conf [OF conf1])
      ultimately have "ms_inv al fr (R w) ?ms1" by (auto simp: ms_inv_def)
      moreover have "ms_live ?ms1 = ms_live ms" "ms_rest (R w) ?ms1 = ms_rest (R w) ms"
        by (simp_all add: ms_live_def ms_rest_def)
      moreover have "reserve_ok ?ms1" using False by (auto simp: reserve_ok_def)
      ultimately show thesis
        using that [of ?ms1 w] False u0 n ok conf1 by (simp add: multislab_shrink_def Let_def)
    next
      case free: True
      obtain H1 act where 1: "list_unlink (ms_nodes ms) (ms_active ms) q = Some (H1, act)"
        "dll (node_links H1) act (remove1 q as)" "node_payload H1 = ?V"
        "dll (node_links H1) (ms_full ms) fs"
        by (rule node_list.unlink_remove [OF C(4) q]) (use C(5,10) in \<open>auto simp: Int_commute\<close>)
      obtain n1 where n1: "H1 q = Some n1" "node_view n1 = node_view n"
      proof -
        have "node_payload H1 q = Some (node_view n)" using 1(3) n by (simp add: node_payload_def)
        then show ?thesis using that by (auto simp: payload_Some)
      qed
      let ?ms2 = "?ms1\<lparr>ms_nodes := H1, ms_active := act\<rparr>"
      have "ms_mem_free ?ms2 = Some fr" "ms_nodes ?ms2 q = Some n1"
        "mem_ok (R w) (ms_slab_memory_size ms) (node_payload (ms_nodes ?ms2))"
        using C(2,8) n1(1) 1(3) by simp_all
      from free_node_spec [OF ok this] obtain w' where
        w': "multislab_free_node ?ms2 q w = Some (?ms2\<lparr>ms_nodes := H1(q := None)\<rparr>, w')" "ok w'"
        "R w' = (R w)(raw_memory n := None, q := None)"
        using n1(2) by (auto simp: node_view_def)
      let ?ms3 = "?ms2\<lparr>ms_nodes := H1(q := None), ms_slab_count := ms_slab_count ms - 1,
        ms_empty_count := ms_empty_count ms\<rparr>"
      have run: "multislab_shrink ms q w = Some (?ms3, w')"
        using n u0 free 1(1) w'(1) by (simp add: multislab_shrink_def Let_def)
      have dist: "distinct as" using C(4) by (rule dll_distinct)
      have P: "node_payload (H1(q := None)) = ?V(q := None)"
        using 1(3) by (auto simp: node_payload_def fun_eq_iff)
      have links: "dll (node_links (H1(q := None))) h xs = dll (node_links H1) h xs" if "q \<notin> set xs" for h xs
        by (rule dll_frame) (use that in \<open>auto simp: node_links_def\<close>)
      note D = view_drop [OF C(6,7) q dist] mem_drop [OF C(8) V]
      have conf: "same_conf ms ?ms3" by (simp add: same_conf_def)
      have core': "ms_core al fr (R w') ?ms3 (remove1 q as) fs"
        unfolding ms_core_def chains_ok_def geometry_conf [OF conf]
        using C(1-3,10) D P 1(2,4) links q w'(3) dist by (auto simp: set_remove1_eq)
      have domq: "dom (node_payload (H1(q := None))) = dom (ms_nodes ms) - {q}" unfolding P by simp
      have card: "Suc (card (dom (ms_nodes ms) - {q})) = card (dom (ms_nodes ms))"
        using card.remove [OF finD domI, OF n] by simp
      have "ms_slab_count ms - 1 = of_nat (card (dom (ms_nodes ms) - {q}))"
        unfolding sc card [symmetric] by simp
      moreover have "view_empty (node_payload (H1(q := None))) = view_empty ?V - {q}"
        unfolding P by (auto simp: view_empty_def)
      ultimately have "counts_ok ?ms3 (node_payload (ms_nodes ?ms3))"
        using ec cap card domq by (auto simp: counts_ok_def)
      then have inv: "ms_inv al fr (R w') ?ms3" using core' by (auto simp: ms_inv_def)
      have "card (slab_used (sn_slab n)) = 0" using u0 ms_core_node(5) [OF core n] by simp
      then have "slab_used (sn_slab n) = {}" by simp
      then have live: "ms_live ?ms3 = ms_live ms"
        using view_blocks_drop [of ?V, OF V] P by (simp add: ms_live_def slab_live_def)
      have "ms_footprint (H1(q := None)) = ms_footprint (ms_nodes ms) - {q, raw_memory n}"
        "{q, raw_memory n} \<subseteq> ms_footprint (ms_nodes ms)"
        using footprint_drop [OF C(8) V] P by blast+
      then have rest: "ms_rest (R w') ?ms3 = ms_rest (R w) ms"
        using w'(3) by (auto simp: ms_rest_def restrict_map_def fun_eq_iff)
      have "reserve_ok ?ms3" if "reserve_ok ms" using that free by (auto simp: reserve_ok_def)
      then show thesis using that [OF run w'(2) inv conf live rest] by blast
    qed
  qed
qed

end

lemma find_SomeD: "find P xs = Some x \<Longrightarrow> x \<in> set xs \<and> P x"
  by (auto simp: find_Some_iff)

context backing_allocator
begin

text \<open>\<open>find_owning_slab\<close>: null for an address in no slab, else the slab whose memory holds it.\<close>

lemma node_region_words:
  assumes ok: "ok w" and core: "ms_core al fr (R w) ms as fs" and n: "ms_nodes ms q = Some n"
  shows "unat (raw_memory n + ms_slab_memory_size ms) =
    unat (raw_memory n) + unat (ms_slab_memory_size ms)"
proof -
  obtain m where "unat (ms_slab_memory_size ms) \<le> m" "R w (raw_memory n) = Some m"
    using ms_core_node(9) [OF core n] by blast
  then have "unat (raw_memory n) + unat (ms_slab_memory_size ms) < 2 ^ LENGTH(64)"
    using block_in_space [OF ok, of "raw_memory n" m] by simp
  then show ?thesis by (rule unat_add_no_wrap)
qed

lemma in_slab_iff:
  assumes ok: "ok w" and core: "ms_core al fr (R w) ms as fs" and n: "ms_nodes ms q = Some n"
  shows "in_slab (ms_nodes ms) (ms_slab_memory_size ms) b q \<longleftrightarrow>
    unat (raw_memory n) \<le> unat b \<and> unat b < unat (raw_memory n) + unat (ms_slab_memory_size ms)"
  using n node_region_words [OF ok core n] by (simp add: in_slab_def word_le_nat_alt word_less_nat_alt)

lemma find_owning_spec:
  assumes ok: "ok w" and core: "ms_core al fr (R w) ms as fs"
  obtains
    (none) "find_owning_slab ms b = Some 0"
      "\<And>q n. ms_nodes ms q = Some n \<Longrightarrow> \<not> in_slab (ms_nodes ms) (ms_slab_memory_size ms) b q"
  | (found) q n where "find_owning_slab ms b = Some q" "q \<noteq> 0" "ms_nodes ms q = Some n"
      "in_slab (ms_nodes ms) (ms_slab_memory_size ms) b q"
proof -
  note C = ms_coreD [OF core]
  let ?P = "in_slab (ms_nodes ms) (ms_slab_memory_size ms) b"
  have nz: "x \<noteq> 0" if "x \<in> set as \<union> set fs" for x
    using that dll_in_dom [OF C(4)] dll_in_dom [OF C(5)] by auto
  note F = find_in_list_spec [OF dll_walk [OF C(4)]] find_in_list_spec [OF dll_walk [OF C(5)]]
  have own: "find_owning_slab ms b = Some
      (case find ?P as of Some x \<Rightarrow> x | None \<Rightarrow> (case find ?P fs of Some x \<Rightarrow> x | None \<Rightarrow> 0))"
    using nz find_SomeD [of ?P as] by (auto simp: find_owning_slab_def F split: option.splits)
  consider x where "find ?P as = Some x" | x where "find ?P as = None" "find ?P fs = Some x"
    | "find ?P as = None" "find ?P fs = None" by fastforce
  then show thesis
  proof cases
    case (1 x)
    then have "x \<in> set as" "?P x" using find_SomeD by fast+
    then show thesis using found own 1 nz [of x] C(9) by fastforce
  next
    case (2 x)
    then have "x \<in> set fs" "?P x" using find_SomeD by fast+
    then show thesis using found own 2 nz [of x] C(9) by fastforce
  next
    case 3
    have "\<not> ?P q" if "ms_nodes ms q = Some n" for q n
      using 3 that C(9) by (auto simp: find_None_iff)
    then show thesis using none own 3 by simp
  qed
qed

text \<open>\<open>cfiber_multislab_release\<close> of a block in use: exactly that block leaves the live set.\<close>

lemma release_spec:
  assumes ok: "ok w" and inv: "ms_inv al fr (R w) ms" and b: "b \<in> ms_live ms"
  obtains ms' w' where "cfiber_multislab_release nd ms b w = Some (ms', w')" "ok w'"
    "ms_inv al fr (R w') ms'" "same_conf ms ms'" "ms_live ms' = ms_live ms - {b}"
    "ms_rest (R w') ms' = ms_rest (R w) ms" "reserve_ok ms \<Longrightarrow> reserve_ok ms'"
proof -
  from inv obtain as fs where core: "ms_core al fr (R w) ms as fs"
    and cnt: "counts_ok ms (node_payload (ms_nodes ms))" by (auto simp: ms_inv_def)
  from b obtain q n where n: "ms_nodes ms q = Some n" "b \<in> slab_live (sn_slab n)"
    by (auto simp: ms_live_iff)
  note N = ms_core_node [OF core n(1)]
  obtain i where i: "b = slab_addr (sn_slab n) i" "i \<in> slab_used (sn_slab n)"
    using n(2) by (auto simp: slab_live_def)
  have ib: "i < unat (ms_blocks_per_slab ms)" using i(2) N(4) by (auto simp: slab_used_def)
  note reg = node_block_region [OF core n(1) ib, folded i(1)]
  have own: "find_owning_slab ms b = Some q" "q \<noteq> 0"
  proof -
    have "find_owning_slab ms b = Some q \<and> q \<noteq> 0"
    proof (cases rule: find_owning_spec [OF ok core, of b])
      case 1
      then show ?thesis using n(1) reg in_slab_iff [OF ok core n(1)] by blast
    next
      case (2 q' n')
      then have "q' = q"
        using region_owner [OF ok core 2(3) n(1), of "unat b"] reg in_slab_iff [OF ok core 2(3)] by blast
      then show ?thesis using 2 by simp
    qed
    then show "find_owning_slab ms b = Some q" "q \<noteq> 0" by auto
  qed
  obtain s where s: "cfiber_slab_release nd (sn_slab n) b = Some (True, s)" "slab_inv s"
    "same_slab (sn_slab n) s" "slab_used s = slab_used (sn_slab n) - {i}"
    by (rule slab_release_live [OF N(1) i(2), of nd]) (simp add: i(1))
  let ?n = "n\<lparr>sn_slab := s, used_count := used_count n - 1\<rparr>"
  obtain ms1 as1 fs1 where 1: "multislab_refile (ms\<lparr>ms_nodes := (ms_nodes ms)(q \<mapsto> ?n)\<rparr>) q ?n = Some ms1"
    "ms_core al fr (R w) ms1 as1 fs1" "q \<in> set as1" "same_conf ms ms1"
    "ms_slab_count ms1 = ms_slab_count ms" "ms_empty_count ms1 = ms_empty_count ms"
    and P: "node_payload (ms_nodes ms1) =
       (node_payload (ms_nodes ms))(q \<mapsto> (s, used_count n - 1, False, raw_memory n))"
    and u: "unat (used_count n) = Suc (unat (used_count n - 1))"
    by (rule refile_spec [OF core n(1) i(2) s(2-4) refl])
  note V = payload_view [OF n(1)]
  have foot: "ms_footprint (ms_nodes ms1) = ms_footprint (ms_nodes ms)"
    and dom: "dom (ms_nodes ms1) = dom (ms_nodes ms)" using footprint_upd [OF V P] by simp_all
  then obtain n1 where n1: "ms_nodes ms1 q = Some n1" using n(1) by (metis domD domI)
  have "used_count n \<noteq> 0" using u by auto
  then have "q \<notin> view_empty (node_payload (ms_nodes ms))" using V by (auto simp: view_empty_def)
  then have "view_empty (node_payload (ms_nodes ms1)) - {q} = view_empty (node_payload (ms_nodes ms))"
    unfolding P by (auto simp: view_empty_upd)
  then have C1: "ms_slab_count ms1 = of_nat (card (dom (ms_nodes ms1)))"
    "ms_empty_count ms1 = of_nat (card (view_empty (node_payload (ms_nodes ms1)) - {q}))"
    "ms_max_slabs ms1 \<noteq> 0 \<longrightarrow> card (dom (ms_nodes ms1)) \<le> unat (ms_max_slabs ms1)"
    using cnt 1(4-6) dom by (auto simp: counts_ok_def same_conf_def)
  obtain ms2 w' where 2: "multislab_shrink ms1 q w = Some (ms2, w')" "ok w'" "ms_inv al fr (R w') ms2"
    "same_conf ms1 ms2" "ms_live ms2 = ms_live ms1" "ms_rest (R w') ms2 = ms_rest (R w) ms1"
    "reserve_ok ms1 \<Longrightarrow> reserve_ok ms2"
    by (rule shrink_spec [OF ok 1(2,3) n1 C1]) blast
  have run: "cfiber_multislab_release nd ms b w = Some (ms2, w')"
    using own n(1) s(1) 1(1) 2(1) by (simp add: cfiber_multislab_release_def Let_def)
  have sl: "slab_live s = slab_live (sn_slab n) - {b}"
    using i slab_addr_inj [OF N(1), of _ i] slab_used_bound [of "sn_slab n"] s(4)
    by (auto simp: slab_live_def same_slab_fields(5) [OF s(3)])
  have others: "b \<notin> slab_live s'" if "q' \<noteq> q" "node_payload (ms_nodes ms) q' = Some (s', u', f', r')"
    for q' s' u' f' r'
    using that live_owner [OF ok core n(1) ib, folded i(1), of q']
    by (auto simp: payload_Some node_view_def)
  have "ms_live ms1 = ms_live ms - {b}"
    unfolding ms_live_def P view_blocks_upd(1) [of "node_payload (ms_nodes ms)", OF V]
      view_blocks_upd(2) [of "node_payload (ms_nodes ms)", OF V] sl
    using others by blast
  then have live: "ms_live ms2 = ms_live ms - {b}" using 2(5) by simp
  have rest: "ms_rest (R w') ms2 = ms_rest (R w) ms" using 2(6) foot by (simp add: ms_rest_def)
  have "reserve_ok ms2" if "reserve_ok ms"
    using that 1(4-6) 2(7) by (simp add: reserve_ok_def same_conf_def)
  then show thesis
    using that [OF run 2(2,3) same_conf_trans [OF 1(4) 2(4)] live rest] by blast
qed

text \<open>Anything else is rejected: a failed assertion in a debug build, nothing in a release build.\<close>

lemma release_reject:
  assumes ok: "ok w" and inv: "ms_inv al fr (R w) ms" and b: "b \<notin> ms_live ms"
  shows "cfiber_multislab_release nd ms b w = (if nd then Some (ms, w) else None)"
proof -
  from inv obtain as fs where core: "ms_core al fr (R w) ms as fs" by (auto simp: ms_inv_def)
  show ?thesis
  proof (cases rule: find_owning_spec [OF ok core, of b])
    case 1
    then show ?thesis by (simp add: cfiber_multislab_release_def)
  next
    case (2 q n)
    have "b \<notin> slab_live (sn_slab n)" using b 2(3) by (auto simp: ms_live_iff)
    from slab_release_reject [OF ms_core_node(1) [OF core 2(3)] this, of nd]
    show ?thesis using 2 by (simp add: cfiber_multislab_release_def)
  qed
qed

end

section \<open>Initialisation and destruction\<close>

definition init_accepts :: "u64 \<Rightarrow> u32 \<Rightarrow> bool" where
  "init_accepts bs bps \<longleftrightarrow>
     64 \<le> unat bs \<and> unat bs mod 64 = 0 \<and> 0 < unat bps \<and> unat bps \<le> 512 \<and>
     unat bs * unat bps < 2 ^ 64"

lemma init_overflow_check:
  assumes "0 < unat bs"
  shows "(ucast (bps :: u32) > SIZE_MAX div bs) \<longleftrightarrow> \<not> unat bs * unat bps < 2 ^ 64"
proof -
  have "(- 1 :: u64) = 18446744073709551615" by simp
  then have "unat (- 1 :: u64) = 2 ^ 64 - 1" by (simp only: unat_numeral) simp
  then have m: "unat (SIZE_MAX div bs) = (2 ^ 64 - 1) div unat bs"
    by (simp only: SIZE_MAX_def unat_div)
  have "unat bps \<le> (2 ^ 64 - 1) div unat bs \<longleftrightarrow> unat bps * unat bs \<le> 2 ^ 64 - 1"
    by (rule less_eq_div_iff_mult_less_eq [OF assms])
  then show ?thesis by (auto simp: word_less_nat_alt m mult.commute)
qed

lemma init_ext_reject:
  "\<not> init_accepts bs bps \<Longrightarrow>
     cfiber_multislab_init_ext ms bs bps mx hy al fr ctx = (- 1, ms)"
  using init_overflow_check [of bs bps]
  by (auto simp: cfiber_multislab_init_ext_def init_accepts_def CFIBER_CACHE_LINE_SIZE_def CFIBER_BITMAP_WORD_BITS_def
      CFIBER_BITMAP_SIZE_def CFIBER_SLAB_MAX_BLOCKS_def word_nat unat_eq_0 [symmetric] simp del: unat_eq_0)

lemma init_ext_accept:
  assumes "init_accepts bs bps"
  obtains ms' where "cfiber_multislab_init_ext ms bs bps mx hy (Some al) (Some fr) ctx = (0, ms')"
    "ms_inv al fr M ms'" "ms_live ms' = {}" "ms_rest M ms' = M" "reserve_ok ms'"
    "ms_block_size ms' = bs" "ms_blocks_per_slab ms' = bps" "ms_max_slabs ms' = mx"
proof
  note a = assms [unfolded init_accepts_def]
  let ?ms = "ms_zero\<lparr>ms_block_size := bs, ms_blocks_per_slab := bps,
    ms_slab_memory_size := bs * ucast bps, ms_max_slabs := mx, ms_max_empty_reserve := hy,
    ms_mem_alloc := Some al, ms_mem_free := Some fr, ms_mem_ctx := ctx\<rparr>"
  show "cfiber_multislab_init_ext ms bs bps mx hy (Some al) (Some fr) ctx = (0, ?ms)"
    using a init_overflow_check [of bs bps]
    by (auto simp: cfiber_multislab_init_ext_def CFIBER_CACHE_LINE_SIZE_def CFIBER_BITMAP_WORD_BITS_def
      CFIBER_BITMAP_SIZE_def CFIBER_SLAB_MAX_BLOCKS_def word_nat unat_eq_0 [symmetric] simp del: unat_eq_0)
  have "unat (bs * ucast bps) = unat bs * unat bps"
    using a by (subst unat_mult_no_wrap) auto
  then have "geometry_ok ?ms" using a by (simp add: geometry_ok_def)
  then have "ms_core al fr M ?ms [] []"
    by (simp add: ms_core_def chains_ok_def ms_zero_def nodes_ok_def lists_ok_def mem_ok_def node_payload_def)
  moreover have "counts_ok ?ms (node_payload (ms_nodes ?ms))"
    by (simp add: counts_ok_def ms_zero_def node_payload_def view_empty_def)
  ultimately show "ms_inv al fr M ?ms" by (auto simp: ms_inv_def)
  show "ms_live ?ms = {}" by (simp add: ms_live_def view_blocks_def ms_zero_def node_payload_def)
  show "ms_rest M ?ms = M" by (simp add: ms_rest_def ms_zero_def ms_footprint_def restrict_map_def)
  show "reserve_ok ?ms" by (simp add: reserve_ok_def ms_zero_def)
qed (simp_all add: ms_zero_def)

context backing_allocator
begin

lemma free_list_spec:
  "\<lbrakk>ms_nodes ms = H; walk_from (node_links H) h xs; distinct xs; ok w; ms_mem_free ms = Some fr;
    mem_ok (R w) sz (node_payload H)\<rbrakk> \<Longrightarrow>
   \<exists>H' w'. free_node_list ms h w = Some (ms\<lparr>ms_nodes := H'\<rparr>, w') \<and> ok w' \<and>
     (\<forall>p. H' p = (if p \<in> set xs then None else H p)) \<and>
     mem_ok (R w') sz (node_payload H') \<and>
     R w' |` (- ms_footprint H') = R w |` (- ms_footprint H)"
proof (induction xs arbitrary: ms H h w)
  case Nil
  then show ?case
    by (intro exI [of _ H] exI [of _ w]) (auto simp: free_node_list.simps [of ms 0])
next
  case (Cons x xs)
  note H = Cons.prems(1) and m = Cons.prems(6)
  obtain n where n: "h = x" "x \<noteq> 0" "H x = Some n" "walk_from (node_links H) (sn_next n) xs"
    using walk_Cons [OF Cons.prems(2)] unfolding node_links_def [of H x] by auto
  let ?H = "H(x := None)"
  obtain w1 where w1: "multislab_free_node ms x w = Some (ms\<lparr>ms_nodes := ?H\<rparr>, w1)" "ok w1"
    "R w1 = (R w)(raw_memory n := None, x := None)"
    using free_node_spec [OF Cons.prems(4,5), of x n sz] n(3) m unfolding H by blast
  have V: "node_payload H x = Some (sn_slab n, used_count n, is_full n, raw_memory n)"
    using n(3) by (simp add: node_payload_def node_view_def)
  have P: "node_payload ?H = (node_payload H)(x := None)"
    by (auto simp: node_payload_def fun_eq_iff)
  have F: "ms_footprint ?H = ms_footprint H - {x, raw_memory n}" "{x, raw_memory n} \<subseteq> ms_footprint H"
    using footprint_drop [OF m V P] by blast+
  have m1: "mem_ok (R w1) sz (node_payload ?H)"
    using mem_drop [OF m V] w1(3) P by simp
  have wk: "walk_from (node_links ?H) (sn_next n) xs"
  proof -
    obtain pv pe where "dseg (node_links H) pv (sn_next n) xs 0 pe"
      using n(4) by (auto simp: walk_from_def)
    moreover have "dseg (node_links ?H) pv (sn_next n) xs 0 pe = dseg (node_links H) pv (sn_next n) xs 0 pe"
      by (rule dseg_frame) (use Cons.prems(3) in \<open>auto simp: node_links_def\<close>)
    ultimately show ?thesis by (auto simp: walk_from_def)
  qed
  have rest: "R w1 |` (- ms_footprint ?H) = R w |` (- ms_footprint H)"
    using w1(3) F by (auto simp: restrict_map_def fun_eq_iff)
  have "distinct xs" "ms_nodes (ms\<lparr>ms_nodes := ?H\<rparr>) = ?H" "ms_mem_free (ms\<lparr>ms_nodes := ?H\<rparr>) = Some fr"
    using Cons.prems(3,5) by simp_all
  have upd_twice: "ms\<lparr>ms_nodes := ?H, ms_nodes := H'\<rparr> = ms\<lparr>ms_nodes := H'\<rparr>" for H' by simp
  from Cons.IH [OF \<open>ms_nodes (ms\<lparr>ms_nodes := ?H\<rparr>) = ?H\<close> wk \<open>distinct xs\<close> w1(2)
      \<open>ms_mem_free (ms\<lparr>ms_nodes := ?H\<rparr>) = Some fr\<close> m1] obtain H' w' where
    H': "free_node_list (ms\<lparr>ms_nodes := ?H\<rparr>) (sn_next n) w1 = Some (ms\<lparr>ms_nodes := H'\<rparr>, w')" "ok w'"
    "\<forall>p. H' p = (if p \<in> set xs then None else ?H p)" "mem_ok (R w') sz (node_payload H')"
    "R w' |` (- ms_footprint H') = R w1 |` (- ms_footprint ?H)"
    unfolding upd_twice by blast
  have "free_node_list ms h w = Some (ms\<lparr>ms_nodes := H'\<rparr>, w')"
    using n w1(1) H'(1) H by (simp add: free_node_list.simps [of ms x])
  moreover have "\<forall>p. H' p = (if p \<in> set (x # xs) then None else H p)" using H'(3) by simp
  moreover have "R w' |` (- ms_footprint H') = R w |` (- ms_footprint H)" using H'(5) rest by simp
  ultimately show ?case using H'(2,4) by blast
qed

text \<open>\<open>cfiber_multislab_destroy\<close> gives back every region the multislab holds, and touches no other.\<close>

lemma destroy_spec:
  assumes ok: "ok w" and inv: "ms_inv al fr (R w) ms"
  obtains w' where "cfiber_multislab_destroy ms w = Some (ms_zero, w')" "ok w'" "R w' = ms_rest (R w) ms"
proof -
  from inv obtain as fs where core: "ms_core al fr (R w) ms as fs" by (auto simp: ms_inv_def)
  note C = ms_coreD [OF core]
  obtain H1 w1 where 1: "free_node_list ms (ms_active ms) w = Some (ms\<lparr>ms_nodes := H1\<rparr>, w1)" "ok w1"
    "\<forall>p. H1 p = (if p \<in> set as then None else ms_nodes ms p)"
    "mem_ok (R w1) (ms_slab_memory_size ms) (node_payload H1)"
    "R w1 |` (- ms_footprint H1) = R w |` (- ms_footprint (ms_nodes ms))"
    using free_list_spec [OF refl dll_walk [OF C(4)] dll_distinct [OF C(4)] ok C(2,8)] by blast
  have "dll (node_links H1) (ms_full ms) fs = dll (node_links (ms_nodes ms)) (ms_full ms) fs"
    by (rule dll_frame) (use 1(3) C(10) in \<open>auto simp: node_links_def\<close>)
  then have D: "dll (node_links H1) (ms_full ms) fs" using C(5) by simp
  have "ms_nodes (ms\<lparr>ms_nodes := H1\<rparr>) = H1" "ms_mem_free (ms\<lparr>ms_nodes := H1\<rparr>) = Some fr"
    using C(2) by simp_all
  from free_list_spec [OF this(1) dll_walk [OF D] dll_distinct [OF D] 1(2) this(2) 1(4)] obtain H2 w2
    where 2: "free_node_list (ms\<lparr>ms_nodes := H1\<rparr>) (ms_full ms) w1 = Some (ms\<lparr>ms_nodes := H2\<rparr>, w2)"
    "ok w2" "\<forall>p. H2 p = (if p \<in> set fs then None else H1 p)"
    "R w2 |` (- ms_footprint H2) = R w1 |` (- ms_footprint H1)"
    by auto
  have "H2 = Map.empty"
  proof
    fix p
    show "H2 p = None" using 1(3) 2(3) C(9) by (cases "p \<in> dom (ms_nodes ms)") (auto simp: domIff)
  qed
  then have "ms_footprint H2 = {}" by (simp add: ms_footprint_def)
  then have "R w2 = ms_rest (R w) ms" using 1(5) 2(4) by (simp add: ms_rest_def restrict_map_def)
  moreover have "cfiber_multislab_destroy ms w = Some (ms_zero, w2)"
    using 1(1) 2(1) by (simp add: cfiber_multislab_destroy_def)
  ultimately show thesis using that 2(2) by blast
qed

lemma live_blocks_disjoint:
  assumes ok: "ok w" and inv: "ms_inv al fr (R w) ms" and pq: "p \<in> ms_live ms" "q \<in> ms_live ms" "p \<noteq> q"
  shows "block_range (unat (ms_block_size ms)) p \<inter> block_range (unat (ms_block_size ms)) q = {}"
proof -
  from inv obtain as fs where core: "ms_core al fr (R w) ms as fs" by (auto simp: ms_inv_def)
  from pq obtain x n y m where n: "ms_nodes ms x = Some n" "p \<in> slab_live (sn_slab n)"
    and m: "ms_nodes ms y = Some m" "q \<in> slab_live (sn_slab m)" by (auto simp: ms_live_iff)
  note N = ms_core_node [OF core n(1)] and M = ms_core_node [OF core m(1)]
  note g = geometryD(3) [OF ms_coreD(3) [OF core]]
  show ?thesis
  proof (cases "x = y")
    case True
    then have "n = m" using n(1) m(1) by simp
    then show ?thesis using slab_blocks_disjoint [OF N(1) n(2)] m(2) pq(3) N(3) by simp
  next
    case False
    have "z \<notin> block_range (unat (ms_block_size ms)) q" if z: "z \<in> block_range (unat (ms_block_size ms)) p" for z
    proof
      assume "z \<in> block_range (unat (ms_block_size ms)) q"
      with z False show False
        using region_owner [OF ok core n(1) m(1), of z] slab_live_region [OF N(1) n(2)]
          slab_live_region [OF M(1) m(2)] N(2-4) M(2-4) g
        by (simp add: block_range_def)
    qed
    then show ?thesis by blast
  qed
qed

end

section \<open>The multislab is a block pool\<close>

definition ms_pool_inv ::
  "(u64 \<Rightarrow> u64 \<Rightarrow> 'w \<Rightarrow> u64 \<times> 'w) \<Rightarrow> (u64 \<Rightarrow> u64 \<Rightarrow> u64 \<Rightarrow> 'w \<Rightarrow> 'w option) \<Rightarrow>
   ('w \<Rightarrow> u64 \<Rightarrow> nat option) \<Rightarrow> ('w \<Rightarrow> bool) \<Rightarrow> (u64 \<Rightarrow> nat option) \<Rightarrow>
   'w cfiber_multislab \<times> 'w \<Rightarrow> bool" where
  "ms_pool_inv al fr R ok Z s \<longleftrightarrow>
     ok (snd s) \<and> ms_inv al fr (R (snd s)) (fst s) \<and> ms_rest (R (snd s)) (fst s) = Z"

definition ms_pool_alloc ::
  "bool \<Rightarrow> 'w cfiber_multislab \<times> 'w \<Rightarrow> (u64 \<times> 'w cfiber_multislab \<times> 'w) option" where
  "ms_pool_alloc nd s = cfiber_multislab_alloc nd (fst s) (snd s)"

definition ms_pool_release ::
  "bool \<Rightarrow> 'w cfiber_multislab \<times> 'w \<Rightarrow> u64 \<Rightarrow> ('w cfiber_multislab \<times> 'w) option" where
  "ms_pool_release nd s p = cfiber_multislab_release nd (fst s) p (snd s)"

lemmas ms_pool_defs = ms_pool_inv_def ms_pool_alloc_def ms_pool_release_def

lemma same_conf_bsz: "same_conf a b \<Longrightarrow> ms_block_size b = ms_block_size a"
  by (simp add: same_conf_def)

sublocale backing_allocator \<subseteq> pool: block_pool "ms_pool_inv al fr R ok Z" "\<lambda>s. ms_live (fst s)"
  "\<lambda>s. unat (ms_block_size (fst s))" "ms_pool_alloc nd" "ms_pool_release nd" for nd Z
proof unfold_locales
  fix s :: "'w cfiber_multislab \<times> 'w" assume "ms_pool_inv al fr R ok Z s"
  then have i: "ok (snd s)" "ms_inv al fr (R (snd s)) (fst s)" and z: "ms_rest (R (snd s)) (fst s) = Z" by (auto simp: ms_pool_defs)
  obtain p ms' w' where a: "cfiber_multislab_alloc nd (fst s) (snd s) = Some (p, ms', w')" "ok w'"
    "ms_inv al fr (R w') ms'" "same_conf (fst s) ms'" "ms_rest (R w') ms' = ms_rest (R (snd s)) (fst s)"
    by (rule alloc_spec [OF i, of nd]) blast
  then show "\<exists>p s'. ms_pool_alloc nd s = Some (p, s') \<and> ms_pool_inv al fr R ok Z s' \<and>
      unat (ms_block_size (fst s')) = unat (ms_block_size (fst s))"
    using z by (auto simp: ms_pool_defs dest: same_conf_bsz)
  show "0 \<notin> ms_live (fst s)"
  proof
    assume "0 \<in> ms_live (fst s)"
    then obtain q n where n: "ms_nodes (fst s) q = Some n" "0 \<in> slab_live (sn_slab n)"
      by (auto simp: ms_live_iff)
    obtain as fs where "ms_core al fr (R (snd s)) (fst s) as fs" using i(2) by (auto simp: ms_inv_def)
    from ms_core_node(1) [OF this n(1)] n(2) show False
      using slab_addr_nonnull by (force simp: slab_live_def slab_used_def)
  qed
  {
    fix s' :: "'w cfiber_multislab \<times> 'w"
    assume "ms_pool_alloc nd s = Some (0, s')"
    then have r: "cfiber_multislab_alloc nd (fst s) (snd s) = Some (0, s')" by (simp add: ms_pool_defs)
    show "ms_live (fst s') = ms_live (fst s)"
      by (rule alloc_spec [OF i, of nd]) (use r in auto)
  next
    fix p' and s' :: "'w cfiber_multislab \<times> 'w"
    assume "ms_pool_alloc nd s = Some (p', s')" "p' \<noteq> 0"
    then have r: "cfiber_multislab_alloc nd (fst s) (snd s) = Some (p', s')" "p' \<noteq> 0"
      by (simp_all add: ms_pool_defs)
    show "p' \<notin> ms_live (fst s) \<and> ms_live (fst s') = insert p' (ms_live (fst s))"
      by (rule alloc_spec [OF i, of nd]) (use r in auto)
  next
    fix b assume b: "b \<in> ms_live (fst s)"
    obtain ms'' w'' where "cfiber_multislab_release nd (fst s) b (snd s) = Some (ms'', w'')" "ok w''"
      "ms_inv al fr (R w'') ms''" "same_conf (fst s) ms''" "ms_live ms'' = ms_live (fst s) - {b}"
      "ms_rest (R w'') ms'' = ms_rest (R (snd s)) (fst s)"
      by (rule release_spec [OF i b, of nd]) blast
    then show "\<exists>s'. ms_pool_release nd s b = Some s' \<and> ms_pool_inv al fr R ok Z s' \<and>
        ms_live (fst s') = ms_live (fst s) - {b} \<and>
        unat (ms_block_size (fst s')) = unat (ms_block_size (fst s))"
      using z by (intro exI [of _ "(ms'', w'')"]) (simp add: ms_pool_defs same_conf_bsz)
    fix c assume "c \<in> ms_live (fst s)" "b \<noteq> c"
    then show "block_range (unat (ms_block_size (fst s))) b \<inter>
        block_range (unat (ms_block_size (fst s))) c = {}"
      by (rule live_blocks_disjoint [OF i b])
  }
qed

end
