(* ===== verification/Stack.thy ===== *)
theory Stack
  imports Memory Multislab_Correct
begin

text \<open>
  Stack descriptors, the canary and watermark sanitizer of \<^verbatim>\<open>src/cfiber/stack/debug\<close>, and
  the fixed-size stack allocator over a multislab. \<open>san\<close> is \<open>CFIBER_STACK_SANITIZER\<close>, \<open>rz\<close> is
  \<open>CFIBER_ASAN_REDZONE\<close> (0 without ASan); the build forbids both at once. The lemmas give the exact
  meaning of the peak the watermark reports and of the overflow verdict.
\<close>

section \<open>The descriptor\<close>

record cfiber_stack =
  mem_base :: u64
  usable_base :: u64
  stack_top :: u64
  total_size :: u64

definition cfiber_stack_is_valid :: "cfiber_stack \<Rightarrow> bool" where
  "cfiber_stack_is_valid stack \<longleftrightarrow>
     mem_base stack \<noteq> 0 \<and> usable_base stack \<noteq> 0 \<and> stack_top stack \<noteq> 0 \<and> total_size stack \<noteq> 0"

definition cfiber_stack_usable_size :: "cfiber_stack \<Rightarrow> u64" where
  "cfiber_stack_usable_size stack = stack_top stack - usable_base stack"

definition stack_null :: cfiber_stack where
  "stack_null = \<lparr>mem_base = 0, usable_base = 0, stack_top = 0, total_size = 0\<rparr>"

section \<open>Canary and watermark\<close>

definition CFIBER_CANARY_VALUE :: u64 where
  "CFIBER_CANARY_VALUE = 0xC5C4C3C2C1C0B0A0"

definition cfiber_stack_debug_canary_addr :: "cfiber_stack \<Rightarrow> u64" where
  "cfiber_stack_debug_canary_addr s = mem_base s"

definition cfiber_stack_debug_watermark_begin :: "cfiber_stack \<Rightarrow> u64" where
  "cfiber_stack_debug_watermark_begin s = cfiber_stack_debug_canary_addr s + 8"

definition cfiber_stack_debug_watermark_end :: "cfiber_stack \<Rightarrow> u64" where
  "cfiber_stack_debug_watermark_end s = stack_top s"

definition cfiber_stack_debug_watermark_size :: "cfiber_stack \<Rightarrow> u64" where
  "cfiber_stack_debug_watermark_size s =
     (let wm_begin = cfiber_stack_debug_watermark_begin s;
          wm_end = cfiber_stack_debug_watermark_end s
      in if wm_end > wm_begin then wm_end - wm_begin else 0)"

lemmas watermark_defs =
  cfiber_stack_debug_canary_addr_def cfiber_stack_debug_watermark_begin_def
  cfiber_stack_debug_watermark_end_def cfiber_stack_debug_watermark_size_def

text \<open>The painting loop, on the number of bytes still to paint.\<close>

primrec paint_bytes :: "(u64 \<Rightarrow> u8) \<Rightarrow> u64 \<Rightarrow> nat \<Rightarrow> u64 \<Rightarrow> u8" where
  "paint_bytes m p 0 = m"
| "paint_bytes m p (Suc n) = paint_bytes (m(p := 0xA5)) (p + 1) n"

definition cfiber_stack_debug_init :: "bool \<Rightarrow> cfiber_stack \<Rightarrow> (u64 \<Rightarrow> u8) \<Rightarrow> u64 \<Rightarrow> u8" where
  "cfiber_stack_debug_init san s m =
     (if \<not> san \<or> mem_base s = 0 \<or> stack_top s = 0 then m
      else
        let m = write_u64 m (cfiber_stack_debug_canary_addr s) CFIBER_CANARY_VALUE;
            p = cfiber_stack_debug_watermark_begin s;
            n = cfiber_stack_debug_watermark_size s
        in paint_bytes m p (unat n))"

definition canary_read :: "cfiber_stack \<Rightarrow> (u64 \<Rightarrow> u8) \<Rightarrow> u64" where
  "canary_read s m = read_u64 m (cfiber_stack_debug_canary_addr s)"

definition cfiber_stack_debug_check_canary :: "bool \<Rightarrow> cfiber_stack \<Rightarrow> (u64 \<Rightarrow> u8) \<Rightarrow> bool" where
  "cfiber_stack_debug_check_canary san s m =
     (if \<not> san then True
      else if mem_base s = 0 \<or> stack_top s = 0 then False
      else canary_read s m = CFIBER_CANARY_VALUE)"

text \<open>The scan: how many pattern bytes there are from \<open>p\<close> on, among \<open>n\<close>.\<close>

primrec count_painted :: "(u64 \<Rightarrow> u8) \<Rightarrow> u64 \<Rightarrow> nat \<Rightarrow> nat" where
  "count_painted m p 0 = 0"
| "count_painted m p (Suc n) = (if m p = 0xA5 then Suc (count_painted m (p + 1) n) else 0)"

definition cfiber_stack_debug_used_bytes :: "bool \<Rightarrow> cfiber_stack \<Rightarrow> (u64 \<Rightarrow> u8) \<Rightarrow> u64" where
  "cfiber_stack_debug_used_bytes san s m =
     (if \<not> san then 0
      else if mem_base s = 0 \<or> stack_top s = 0 then 0
      else if \<not> cfiber_stack_debug_check_canary san s m then - 1
      else
        let wm_begin = cfiber_stack_debug_watermark_begin s;
            n = cfiber_stack_debug_watermark_size s;
            i = count_painted m wm_begin (unat n)
        in n - of_nat i)"

definition cfiber_stack_debug_overflowed :: "bool \<Rightarrow> cfiber_stack \<Rightarrow> (u64 \<Rightarrow> u8) \<Rightarrow> bool" where
  "cfiber_stack_debug_overflowed san s m =
     (if \<not> san then False
      else
        let used = cfiber_stack_debug_used_bytes san s m
        in used = - 1 \<or> used = cfiber_stack_debug_watermark_size s)"

section \<open>What the watermark says\<close>

text \<open>A descriptor the allocators make: the block is inside the address space and holds the canary
  and at least one watermark byte.\<close>

definition stack_block_ok :: "cfiber_stack \<Rightarrow> bool" where
  "stack_block_ok s \<longleftrightarrow> mem_base s \<noteq> 0 \<and> stack_top s \<noteq> 0 \<and> unat (mem_base s) + 8 < unat (stack_top s)"

lemma watermark_numbers:
  assumes "stack_block_ok s"
  shows "unat (cfiber_stack_debug_watermark_begin s) = unat (mem_base s) + 8"
    "unat (cfiber_stack_debug_watermark_size s) = unat (stack_top s) - (unat (mem_base s) + 8)"
    "unat (cfiber_stack_debug_watermark_begin s) + unat (cfiber_stack_debug_watermark_size s) =
       unat (stack_top s)"
proof -
  have a: "unat (mem_base s) + 8 < unat (stack_top s)" using assms by (simp add: stack_block_ok_def)
  have "unat (stack_top s) < 2 ^ LENGTH(64)" by (rule unsigned_less)
  then have "unat (mem_base s + 8) = unat (mem_base s) + 8"
    using a by (subst unat_add_no_wrap) simp_all
  then show b: "unat (cfiber_stack_debug_watermark_begin s) = unat (mem_base s) + 8"
    by (simp add: watermark_defs)
  have lt: "cfiber_stack_debug_watermark_begin s < cfiber_stack_debug_watermark_end s"
    using a b by (simp add: word_less_nat_alt cfiber_stack_debug_watermark_end_def)
  then have "unat (cfiber_stack_debug_watermark_end s - cfiber_stack_debug_watermark_begin s) =
      unat (cfiber_stack_debug_watermark_end s) - unat (cfiber_stack_debug_watermark_begin s)"
    by (intro unat_sub) simp
  then show c: "unat (cfiber_stack_debug_watermark_size s) = unat (stack_top s) - (unat (mem_base s) + 8)"
    using lt b by (simp add: cfiber_stack_debug_watermark_size_def Let_def cfiber_stack_debug_watermark_end_def)
  show "unat (cfiber_stack_debug_watermark_begin s) + unat (cfiber_stack_debug_watermark_size s) =
       unat (stack_top s)" using a b c by simp
qed

lemma count_painted_le: "count_painted m p n \<le> n"
  by (induction n arbitrary: p) auto



lemma paint_bytes_other:
  "(\<And>j. j < n \<Longrightarrow> x \<noteq> p + of_nat j) \<Longrightarrow> paint_bytes m p n x = m x"
proof (induction n arbitrary: m p)
  case (Suc n)
  have "x \<noteq> p" using Suc.prems [of 0] by simp
  have "x \<noteq> p + 1 + of_nat j" if "j < n" for j
    using Suc.prems [of "Suc j"] that by (simp add: algebra_simps)
  then have "paint_bytes (m(p := 0xA5)) (p + 1) n x = (m(p := 0xA5)) x" by (rule Suc.IH)
  then show ?case using \<open>x \<noteq> p\<close> by simp
qed simp

lemma paint_bytes_in:
  "j < n \<Longrightarrow> unat p + n \<le> 2 ^ 64 \<Longrightarrow> paint_bytes m p n (p + of_nat j) = 0xA5"
proof (induction n arbitrary: m p j)
  case (Suc n)
  have p1: "unat (p + 1) = unat p + 1" if "0 < n"
    using Suc.prems(2) that by (subst unat_add_no_wrap) auto
  show ?case
  proof (cases j)
    case 0
    have "paint_bytes (m(p := 0xA5)) (p + 1) n p = (m(p := 0xA5)) p"
    proof (rule paint_bytes_other)
      fix i assume i: "i < n"
      then have "unat (p + 1 + of_nat i) = unat p + 1 + i"
        using Suc.prems(2) p1 by (subst addr_offset) auto
      then show "p \<noteq> p + 1 + of_nat i" by (metis add.assoc add_eq_self_zero add_gr_0 less_numeral_extra(1) not_gr_zero zero_neq_one)
    qed
    then show ?thesis using 0 by simp
  next
    case (Suc i)
    then have "i < n" "0 < n" using Suc.prems(1) by auto
    then have "paint_bytes (m(p := 0xA5)) (p + 1) n (p + 1 + of_nat i) = 0xA5"
      using p1 Suc.prems(2) by (intro Suc.IH) simp_all
    then show ?thesis using Suc by (simp add: algebra_simps)
  qed
qed simp

lemma debug_init_bytes:
  assumes ok: "stack_block_ok s" and init: "m' = cfiber_stack_debug_init True s m"
  shows "canary_read s m' = CFIBER_CANARY_VALUE"
    "\<And>x. unat (mem_base s) + 8 \<le> unat x \<Longrightarrow> unat x < unat (stack_top s) \<Longrightarrow> m' x = 0xA5"
    "\<And>x. unat x < unat (mem_base s) \<or> unat (stack_top s) \<le> unat x \<Longrightarrow> m' x = m x"
proof -
  let ?p = "cfiber_stack_debug_watermark_begin s" and ?n = "unat (cfiber_stack_debug_watermark_size s)"
  let ?m1 = "write_u64 m (mem_base s) CFIBER_CANARY_VALUE"
  note W = watermark_numbers [OF ok]
  have ok': "mem_base s \<noteq> 0" "stack_top s \<noteq> 0" "unat (mem_base s) + 8 < unat (stack_top s)"
    using ok by (simp_all add: stack_block_ok_def)
  have top: "unat (stack_top s) < 2 ^ 64" by (rule unat_lt64)
  have m': "m' = paint_bytes ?m1 ?p ?n"
    using ok' by (simp add: init cfiber_stack_debug_init_def Let_def cfiber_stack_debug_canary_addr_def)
  have off: "unat (?p + of_nat j) = unat (mem_base s) + 8 + j" if "j < ?n" for j
    using that W top by (subst addr_offset) auto
  have low: "m' x = ?m1 x" if "unat x < unat (mem_base s) + 8 \<or> unat (stack_top s) \<le> unat x" for x
    unfolding m'
  proof (rule paint_bytes_other)
    fix j assume j: "j < ?n"
    then show "x \<noteq> ?p + of_nat j" using off [OF j] that W by auto
  qed
  have can: "unat (mem_base s + of_nat i) = unat (mem_base s) + i" if "i < 8" for i
    using that ok'(3) top by (intro addr_offset) linarith
  have "read_u64 m' (mem_base s) = read_u64 ?m1 (mem_base s)"
  proof (rule read_u64_cong)
    fix i :: nat assume "i < 8"
    then show "m' (mem_base s + of_nat i) = ?m1 (mem_base s + of_nat i)"
      using can by (intro low) simp
  qed
  then show "canary_read s m' = CFIBER_CANARY_VALUE"
    by (simp add: canary_read_def cfiber_stack_debug_canary_addr_def)
  show "m' x = 0xA5" if "unat (mem_base s) + 8 \<le> unat x" "unat x < unat (stack_top s)" for x
  proof -
    define j where "j = unat x - (unat (mem_base s) + 8)"
    have j: "j < ?n" using that W by (simp add: j_def)
    have "unat (?p + of_nat j) = unat x" using off [OF j] that by (simp add: j_def)
    then have "x = ?p + of_nat j" by (simp add: word_unat_eq_iff)
    moreover have "unat ?p + ?n \<le> 2 ^ 64" using W(3) top by simp
    ultimately show ?thesis using j m' paint_bytes_in by simp
  qed
  show "m' x = m x" if "unat x < unat (mem_base s) \<or> unat (stack_top s) \<le> unat x" for x
  proof -
    have "?m1 x = m x"
    proof (rule write_u64_other)
      fix i :: nat assume "i < 8"
      then show "x \<noteq> mem_base s + of_nat i" using that can ok'(3) by auto
    qed
    moreover have "m' x = ?m1 x" by (rule low) (use that in linarith)
    ultimately show ?thesis by simp
  qed
qed


lemma overflowed_spec:
  assumes ok: "stack_block_ok s"
  shows "cfiber_stack_debug_overflowed True s m \<longleftrightarrow>
    canary_read s m \<noteq> CFIBER_CANARY_VALUE \<or> m (cfiber_stack_debug_watermark_begin s) \<noteq> 0xA5"
proof -
  let ?p = "cfiber_stack_debug_watermark_begin s" and ?n = "cfiber_stack_debug_watermark_size s"
  let ?k = "count_painted m ?p (unat ?n)"
  note W = watermark_numbers [OF ok]
  have ok': "mem_base s \<noteq> 0" "stack_top s \<noteq> 0" "unat (mem_base s) + 8 < unat (stack_top s)"
    using ok by (simp_all add: stack_block_ok_def)
  have n0: "0 < unat ?n" using W ok'(3) by simp
  have k: "?k \<le> unat ?n" by (rule count_painted_le)
  have uk: "unat (of_nat ?k :: u64) = ?k"
    by (rule unat_of_nat_small) (use k unat_lt64 [of ?n] in simp)
  then have u: "unat (?n - of_nat ?k) = unat ?n - ?k"
    using k by (simp add: unat_sub word_le_nat_alt)
  have top: "unat (stack_top s) < 2 ^ 64" by (rule unat_lt64)
  have "unat (?n - of_nat ?k) \<noteq> unat (- 1 :: u64)" unfolding u unat_minus_1 using W top by linarith
  then have not_max: "?n - of_nat ?k \<noteq> - 1" by metis
  have full: "?n - of_nat ?k = ?n \<longleftrightarrow> ?k = 0"
  proof
    assume "?n - of_nat ?k = ?n"
    then have "unat ?n - ?k = unat ?n" using u by simp
    then show "?k = 0" using n0 k by linarith
  qed simp
  have "?k = 0 \<longleftrightarrow> m ?p \<noteq> 0xA5"
    using n0 by (cases "unat ?n") simp_all
  then show ?thesis
    using ok' not_max full
    by (auto simp: cfiber_stack_debug_overflowed_def cfiber_stack_debug_used_bytes_def
        cfiber_stack_debug_check_canary_def Let_def)
qed

section \<open>The fixed-size stack allocator\<close>

definition cfiber_asan_poison :: "u64 \<Rightarrow> u64 \<Rightarrow> memory \<Rightarrow> memory" where
  "cfiber_asan_poison addr sz m =
     m\<lparr>shadow := shadow m \<union> {x. unat addr \<le> unat x \<and> unat x < unat addr + unat sz}\<rparr>"

definition cfiber_asan_unpoison :: "u64 \<Rightarrow> u64 \<Rightarrow> memory \<Rightarrow> memory" where
  "cfiber_asan_unpoison addr sz m =
     m\<lparr>shadow := shadow m - {x. unat addr \<le> unat x \<and> unat x < unat addr + unat sz}\<rparr>"

definition cfiber_fixed_stack_alloc ::
  "bool \<Rightarrow> bool \<Rightarrow> u64 \<Rightarrow> cfiber_stack \<Rightarrow> 'w cfiber_multislab \<Rightarrow> memory \<Rightarrow> 'w \<Rightarrow>
   (int \<times> cfiber_stack \<times> 'w cfiber_multislab \<times> memory \<times> 'w) option" where
  "cfiber_fixed_stack_alloc nd san rz stack ms m w = do {
     (mem, ms, w) \<leftarrow> cfiber_multislab_alloc nd ms w;
     if mem = 0 then Some (- 1, stack, ms, m, w)
     else do {
       let stack = stack\<lparr>mem_base := mem,
                         usable_base := mem + rz,
                         stack_top := mem + ms_block_size ms,
                         total_size := ms_block_size ms\<rparr>;
       let m = m\<lparr>bytes := cfiber_stack_debug_init san stack (bytes m)\<rparr>;
       let m = cfiber_asan_poison (mem_base stack) rz m;
       Some (0, stack, ms, m, w)
     }
   }"

definition cfiber_fixed_stack_release ::
  "bool \<Rightarrow> bool \<Rightarrow> u64 \<Rightarrow> cfiber_stack \<Rightarrow> 'w cfiber_multislab \<Rightarrow> memory \<Rightarrow> 'w \<Rightarrow>
   (bool \<times> 'w cfiber_multislab \<times> memory \<times> 'w) option" where
  "cfiber_fixed_stack_release nd san rz stack ms m w = do {
     let ok = \<not> cfiber_stack_debug_overflowed san stack (bytes m);
     let m = cfiber_asan_unpoison (mem_base stack) rz m;
     (ms, w) \<leftarrow> cfiber_multislab_release nd ms (mem_base stack) w;
     Some (ok, ms, m, w)
   }"

section \<open>The allocator's behaviour\<close>

definition fixed_stack_at :: "u64 \<Rightarrow> 'w cfiber_multislab \<Rightarrow> cfiber_stack \<Rightarrow> bool" where
  "fixed_stack_at rz ms stack \<longleftrightarrow>
     mem_base stack \<noteq> 0 \<and>
     unat (usable_base stack) = unat (mem_base stack) + unat rz \<and>
     unat (stack_top stack) = unat (mem_base stack) + unat (ms_block_size ms) \<and>
     unat (stack_top stack) < 2 ^ 64 \<and> total_size stack = ms_block_size ms"

lemma fixed_stack_block_ok:
  "fixed_stack_at rz ms stack \<Longrightarrow> 64 \<le> unat (ms_block_size ms) \<Longrightarrow> stack_block_ok stack"
  by (auto simp: fixed_stack_at_def stack_block_ok_def unat_eq_0 [symmetric] simp del: unat_eq_0)

lemma fixed_stack_usable:
  assumes "fixed_stack_at rz ms stack" "unat rz \<le> unat (ms_block_size ms)"
  shows "unat (cfiber_stack_usable_size stack) = unat (ms_block_size ms) - unat rz"
  using assms by (simp add: cfiber_stack_usable_size_def fixed_stack_at_def unat_sub word_le_nat_alt)

context backing_allocator
begin

lemma live_block_fits:
  assumes ok: "ok w" and inv: "ms_inv al fr (R w) ms" and p: "p \<in> ms_live ms"
  shows "unat p + unat (ms_block_size ms) < 2 ^ 64" "64 \<le> unat (ms_block_size ms)" "p \<noteq> 0"
proof -
  from inv obtain as fs where core: "ms_core al fr (R w) ms as fs" by (auto simp: ms_inv_def)
  obtain q n where n: "ms_nodes ms q = Some n" "p \<in> slab_live (sn_slab n)" using p by (auto simp: ms_live_iff)
  note N = ms_core_node [OF core n(1)]
  obtain m where "unat (ms_slab_memory_size ms) \<le> m" "R w (raw_memory n) = Some m" using N(9) by blast
  then have "unat (raw_memory n) + unat (ms_slab_memory_size ms) < 2 ^ 64"
    using block_in_space [OF ok, of "raw_memory n" m] by simp
  then show "unat p + unat (ms_block_size ms) < 2 ^ 64"
    using slab_live_region(2) [OF N(1) n(2)] N(2-4) geometryD(3) [OF ms_coreD(3) [OF core]] by simp
  have "0 < unat (ms_block_size ms)" "unat (ms_block_size ms) mod 64 = 0"
    using ms_coreD(3) [OF core] by (auto simp: geometry_ok_def)
  then show "64 \<le> unat (ms_block_size ms)" by (auto elim!: dvdE simp: mod_eq_0_iff_dvd)
  show "p \<noteq> 0" using n(2) slab_addr_nonnull [OF N(1)] by (force simp: slab_live_def slab_used_def)
qed

lemma fixed_alloc_spec:
  assumes ok: "ok w" and inv: "ms_inv al fr (R w) ms" and rz: "unat rz \<le> unat (ms_block_size ms)"
  obtains
    (none) ms' w' where "cfiber_fixed_stack_alloc nd san rz stack ms m w = Some (- 1, stack, ms', m, w')"
      "ok w'" "ms_inv al fr (R w') ms'" "same_conf ms ms'" "ms_live ms' = ms_live ms"
      "ms_rest (R w') ms' = ms_rest (R w) ms"
  | (stack) st ms' m' w' where
      "cfiber_fixed_stack_alloc nd san rz stack ms m w = Some (0, st, ms', m', w')"
      "ok w'" "ms_inv al fr (R w') ms'" "same_conf ms ms'" "fixed_stack_at rz ms st"
      "mem_base st \<notin> ms_live ms" "ms_live ms' = insert (mem_base st) (ms_live ms)"
      "ms_rest (R w') ms' = ms_rest (R w) ms" "\<not> cfiber_stack_debug_overflowed san st (bytes m')"
      "\<forall>x. x \<notin> shadow m \<longrightarrow> x \<in> shadow m' \<longrightarrow> unat x < unat (usable_base st)"
      "\<forall>x. unat x < unat (mem_base st) \<or> unat (stack_top st) \<le> unat x \<longrightarrow> bytes m' x = bytes m x"
proof (cases rule: alloc_spec [OF ok inv, of nd])
  case (1 p ms' w')
  show thesis
  proof (cases "p = 0")
    case True
    then show thesis using none [of ms' w'] 1 by (simp add: cfiber_fixed_stack_alloc_def)
  next
    case False
    note live = 1(7) [OF False]
    have "p \<in> ms_live ms'" using live by simp
    note fit = live_block_fits [OF 1(2,3) this]
    have bs: "ms_block_size ms' = ms_block_size ms" by (rule same_conf_bsz [OF 1(4)])
    let ?st = "stack\<lparr>mem_base := p, usable_base := p + rz, stack_top := p + ms_block_size ms',
      total_size := ms_block_size ms'\<rparr>"
    let ?b = "cfiber_stack_debug_init san ?st (bytes m)"
    let ?m = "cfiber_asan_poison p rz (m\<lparr>bytes := ?b\<rparr>)"
    have u: "unat (p + rz) = unat p + unat rz" "unat (p + ms_block_size ms') = unat p + unat (ms_block_size ms')"
      using fit(1) rz bs by (subst unat_add_no_wrap; simp)+
    then have at: "fixed_stack_at rz ms ?st" using fit bs by (simp add: fixed_stack_at_def)
    have blk: "stack_block_ok ?st" using fixed_stack_block_ok [OF at] fit(2) bs by simp
    have no: "\<not> cfiber_stack_debug_overflowed san ?st ?b"
    proof (cases san)
      case True
      have w: "unat (cfiber_stack_debug_watermark_begin ?st) = unat p + 8"
        using watermark_numbers(1) [OF blk] by simp
      have "?b (cfiber_stack_debug_watermark_begin ?st) = 0xA5"
        using debug_init_bytes(2) [OF blk refl, of "cfiber_stack_debug_watermark_begin ?st" "bytes m"]
          w fit(2) u bs True by simp
      then show ?thesis
        using overflowed_spec [OF blk, of ?b] debug_init_bytes(1) [OF blk refl, of "bytes m"] True by simp
    qed (simp add: cfiber_stack_debug_overflowed_def)
    have frame: "?b x = bytes m x" if "unat x < unat p \<or> unat (p + ms_block_size ms') \<le> unat x" for x
    proof (cases san)
      case True
      then show ?thesis using debug_init_bytes(3) [OF blk refl, of x "bytes m"] that by simp
    qed (simp add: cfiber_stack_debug_init_def)
    have run: "cfiber_fixed_stack_alloc nd san rz stack ms m w = Some (0, ?st, ms', ?m, w')"
      using 1(1) False by (simp add: cfiber_fixed_stack_alloc_def Let_def)
    show thesis
      by (rule stack [OF run 1(2-4) at]) (use live 1(5) no frame u in \<open>auto simp: cfiber_asan_poison_def\<close>)
  qed
qed

lemma fixed_release_spec:
  assumes ok: "ok w" and inv: "ms_inv al fr (R w) ms" and live: "mem_base st \<in> ms_live ms"
  obtains ms' w' where
    "cfiber_fixed_stack_release nd san rz st ms m w = Some
       (\<not> cfiber_stack_debug_overflowed san st (bytes m), ms', cfiber_asan_unpoison (mem_base st) rz m, w')"
    "ok w'" "ms_inv al fr (R w') ms'" "same_conf ms ms'" "ms_live ms' = ms_live ms - {mem_base st}"
    "ms_rest (R w') ms' = ms_rest (R w) ms"
proof (cases rule: release_spec [OF ok inv live, of nd])
  case (1 ms' w')
  then show thesis using that [of ms' w'] by (simp add: cfiber_fixed_stack_release_def Let_def)
qed

end

section \<open>Properties\<close>



end
