(* ===== verification/Fifo.thy ===== *)
theory Fifo
  imports Prelude
begin

text \<open>
  Intrusive singly linked FIFO queues with a head and a tail pointer: the ready queues of the
  scheduler and of the reactor are the same code. \<open>fifo N h t xs\<close> says that following the \<open>next\<close>
  pointers \<open>N\<close> from \<open>h\<close> visits exactly \<open>xs\<close> and that \<open>t\<close> is its last element. The locale
  \<open>fifo_ops\<close> is what the two routines promise; its lemmas are the queue's contract.
\<close>

type_synonym nexts = "u64 \<Rightarrow> u64 option"

primrec chain :: "nexts \<Rightarrow> u64 \<Rightarrow> u64 list \<Rightarrow> bool" where
  "chain N h [] \<longleftrightarrow> h = 0"
| "chain N h (x # xs) \<longleftrightarrow> h = x \<and> x \<noteq> 0 \<and> (\<exists>nx. N x = Some nx \<and> chain N nx xs)"

definition fifo :: "nexts \<Rightarrow> u64 \<Rightarrow> u64 \<Rightarrow> u64 list \<Rightarrow> bool" where
  "fifo N h t xs \<longleftrightarrow> distinct xs \<and> chain N h xs \<and> t = (if xs = [] then 0 else last xs)"

lemma chain_frame: "(\<And>x. x \<in> set xs \<Longrightarrow> N' x = N x) \<Longrightarrow> chain N' h xs = chain N h xs"
  by (induction xs arbitrary: h) auto

lemma chain_in_dom: "chain N h xs \<Longrightarrow> x \<in> set xs \<Longrightarrow> x \<noteq> 0 \<and> N x \<noteq> None"
  by (induction xs arbitrary: h) auto

lemma fifo_frame: "(\<And>x. x \<in> set xs \<Longrightarrow> N' x = N x) \<Longrightarrow> fifo N' h t xs = fifo N h t xs"
  using chain_frame [of xs N' N h] by (simp add: fifo_def)

lemma fifo_in_dom: "fifo N h t xs \<Longrightarrow> x \<in> set xs \<Longrightarrow> x \<noteq> 0 \<and> N x \<noteq> None"
  unfolding fifo_def using chain_in_dom by blast

lemma fifo_distinct: "fifo N h t xs \<Longrightarrow> distinct xs"
  by (simp add: fifo_def)

lemma fifo_Nil [simp]: "fifo N h t [] \<longleftrightarrow> h = 0 \<and> t = 0"
  by (auto simp: fifo_def)

lemma fifo_head_null: "fifo N h t xs \<Longrightarrow> h = 0 \<longleftrightarrow> xs = []"
  by (cases xs) (auto simp: fifo_def)

lemma fifo_tail_null: "fifo N h t xs \<Longrightarrow> t = 0 \<longleftrightarrow> xs = []"
  using chain_in_dom [of N h xs "last xs"] by (auto simp: fifo_def)

lemma fifo_tail: "fifo N h t xs \<Longrightarrow> xs \<noteq> [] \<Longrightarrow> t = last xs \<and> t \<in> set xs"
  by (auto simp: fifo_def)

lemma fifo_head: "fifo N h t (x # xs) \<Longrightarrow> h = x"
  by (simp add: fifo_def)

lemma chain_snoc:
  "chain N h xs \<Longrightarrow> xs \<noteq> [] \<Longrightarrow> distinct xs \<Longrightarrow> y \<notin> set xs \<Longrightarrow> y \<noteq> 0 \<Longrightarrow>
     chain (N(y \<mapsto> 0, last xs \<mapsto> y)) h (xs @ [y])"
proof (induction xs arbitrary: h)
  case (Cons x xs)
  then obtain nx where nx: "h = x" "x \<noteq> 0" "N x = Some nx" "chain N nx xs" by auto
  show ?case
  proof (cases "xs = []")
    case True
    then show ?thesis using Cons.prems nx by auto
  next
    case False
    then have "chain (N(y \<mapsto> 0, last xs \<mapsto> y)) nx (xs @ [y])"
      by (intro Cons.IH [OF nx(4) False]) (use Cons.prems in simp_all)
    moreover have "x \<noteq> last xs" "x \<noteq> y" using Cons.prems False last_in_set by force+
    then have "(N(y \<mapsto> 0, last xs \<mapsto> y)) x = Some nx" using nx(3) by simp
    ultimately show ?thesis
      using nx(1,2) False by (simp only: append_Cons chain.simps last.simps if_False) blast
  qed
qed simp

lemma fifo_snoc:
  assumes "fifo N h t xs" "y \<notin> set xs" "y \<noteq> 0"
  shows "fifo (if t = 0 then N(y \<mapsto> 0) else N(y \<mapsto> 0, t \<mapsto> y)) (if t = 0 then y else h) y (xs @ [y])"
proof (cases "xs = []")
  case True
  then show ?thesis using assms by (simp add: fifo_def)
next
  case False
  then have "t = last xs" "t \<noteq> 0" using fifo_tail [OF assms(1)] fifo_in_dom [OF assms(1)] by auto
  then show ?thesis using chain_snoc [of N h xs y] assms False by (simp add: fifo_def)
qed

locale fifo_ops =
  fixes nexts :: "'s \<Rightarrow> nexts"
    and head :: "'s \<Rightarrow> u64"
    and tail :: "'s \<Rightarrow> u64"
    and payload :: "'s \<Rightarrow> 'p"
    and mark :: "u64 \<Rightarrow> 'p \<Rightarrow> 'p"
    and enq :: "'s \<Rightarrow> u64 \<Rightarrow> 's option"
    and deq :: "'s \<Rightarrow> (u64 \<times> 's) option"
  assumes enq_links: "nexts s y \<noteq> None \<Longrightarrow> tail s = 0 \<or> (tail s \<noteq> y \<and> nexts s (tail s) \<noteq> None) \<Longrightarrow>
      \<exists>s'. enq s y = Some s' \<and>
        nexts s' = (if tail s = 0 then (nexts s)(y \<mapsto> 0) else (nexts s)(y \<mapsto> 0, tail s \<mapsto> y)) \<and>
        head s' = (if tail s = 0 then y else head s) \<and> tail s' = y \<and> payload s' = mark y (payload s)"
    and deq_empty: "head s = 0 \<Longrightarrow> deq s = Some (0, s)"
    and deq_links: "head s \<noteq> 0 \<Longrightarrow> nexts s (head s) = Some nx \<Longrightarrow>
      \<exists>s'. deq s = Some (head s, s') \<and> nexts s' = (nexts s)(head s \<mapsto> 0) \<and> head s' = nx \<and>
        tail s' = (if nx = 0 then 0 else tail s) \<and> payload s' = payload s"
begin

definition holds :: "'s \<Rightarrow> u64 list \<Rightarrow> bool" where
  "holds s xs \<longleftrightarrow> fifo (nexts s) (head s) (tail s) xs"

text \<open>An element that is on no queue goes to the back.\<close>

lemma enq_back:
  assumes "holds s xs" "y \<notin> set xs" "y \<noteq> 0" "nexts s y \<noteq> None"
  obtains s' where "enq s y = Some s'" "holds s' (xs @ [y])" "payload s' = mark y (payload s)"
    "dom (nexts s') = dom (nexts s)"
proof -
  have f: "fifo (nexts s) (head s) (tail s) xs" using assms(1) by (simp add: holds_def)
  have t: "tail s = 0 \<or> (tail s \<noteq> y \<and> nexts s (tail s) \<noteq> None)"
    using fifo_tail_null [OF f] fifo_tail [OF f] fifo_in_dom [OF f] assms(2) by metis
  from enq_links [OF assms(4) t] obtain s' where s': "enq s y = Some s'"
    "nexts s' = (if tail s = 0 then (nexts s)(y \<mapsto> 0) else (nexts s)(y \<mapsto> 0, tail s \<mapsto> y))"
    "head s' = (if tail s = 0 then y else head s)" "tail s' = y" "payload s' = mark y (payload s)"
    by blast
  have "holds s' (xs @ [y])"
    using fifo_snoc [OF f assms(2,3)] unfolding holds_def s'(2-4) .
  moreover have "dom (nexts s') = dom (nexts s)"
    using s'(2) t assms(4) by (auto split: if_splits)
  ultimately show thesis using that s' by blast
qed

text \<open>The front element comes out first.\<close>

lemma deq_front:
  assumes "holds s (x # xs)"
  obtains s' where "deq s = Some (x, s')" "x \<noteq> 0" "holds s' xs" "payload s' = payload s"
    "dom (nexts s') = dom (nexts s)"
proof -
  have f: "fifo (nexts s) (head s) (tail s) (x # xs)" using assms by (simp add: holds_def)
  then obtain nx where nx: "head s = x" "x \<noteq> 0" "nexts s x = Some nx" "chain (nexts s) nx xs"
    "distinct (x # xs)" "tail s = last (x # xs)" by (auto simp: fifo_def)
  from deq_links [of s nx] nx obtain s' where s': "deq s = Some (x, s')"
    "nexts s' = (nexts s)(x \<mapsto> 0)" "head s' = nx" "tail s' = (if nx = 0 then 0 else tail s)"
    "payload s' = payload s" by auto
  have "chain (nexts s') nx xs = chain (nexts s) nx xs"
    by (rule chain_frame) (use nx(5) s'(2) in auto)
  moreover have "nx = 0 \<longleftrightarrow> xs = []" using nx(4) by (cases xs) auto
  ultimately have "holds s' xs" using nx s' by (simp add: holds_def fifo_def)
  moreover have "dom (nexts s') = dom (nexts s)" using s'(2) nx(3) by auto
  ultimately show thesis using that s' nx(2) by blast
qed

lemma deq_none: "holds s [] \<Longrightarrow> deq s = Some (0, s)"
  by (rule deq_empty) (simp add: holds_def)

end

end
