(* ===== verification/Scheduler.thy ===== *)
theory Scheduler
  imports Fiber Stack Fifo
begin

text \<open>
  The cooperative scheduler of \<^verbatim>\<open>src/cfiber/scheduler/scheduler.c\<close>. \<open>sc_tasks\<close> is the memory
  of the task blocks, by address. What the registers do at a switch is theory \<open>Fiber\<close>; here a
  switch is a change of who runs: \<open>sc_current\<close> is 0 while the loop runs and the task while a fiber
  does, and \<open>sched_step\<close> is one move of the pair, an iteration of the loop up to its switch or one
  call a fiber makes. What a fiber computes between its calls is a parameter, \<open>beh\<close>, free to change
  memory and its own state. \<open>Scheduler_Correct\<close> holds the invariant and the properties.
\<close>

section \<open>Types\<close>

record cfiber_task =
  tk_fiber :: cfiber
  tk_stack :: cfiber_stack
  tk_next :: u64

record 'w cfiber_scheduler =
  sc_task_alloc :: "'w cfiber_multislab"
  sc_stack_alloc :: "'w cfiber_multislab"
  sc_current :: u64
  sc_zombie :: u64
  sc_ready_head :: u64
  sc_ready_tail :: u64
  sc_stack_size :: u64
  sc_stack_peak :: u64
  sc_active_count :: u32
  sc_tasks :: "u64 \<Rightarrow> cfiber_task option"

record cfiber_scheduler_config =
  cf_stack_size :: u64
  cf_fibers_per_slab :: u32
  cf_max_slabs :: u32

text \<open>The build and the machine: \<open>NDEBUG\<close>, \<open>CFIBER_STACK_SANITIZER\<close>, the ASan redzone, the address
  of \<open>cfiber_prologue\<close>, and the creator's CPU state a new fiber copies its FP control from.\<close>

record build =
  ndebug :: bool
  sanitizer :: bool
  redzone :: u64
  prologue_addr :: u64
  creator :: cpu

text \<open>Thread-local state: the current scheduler's address and the fiber-return hook.\<close>

record thread =
  s_current_sched :: u64
  s_return_hook :: cfiber_return_hook

text \<open>A task block before spawning fills it; every field is assigned before it is read.\<close>

definition task_uninit :: cfiber_task where
  "task_uninit = \<lparr>tk_fiber = \<lparr>fb_ctx = cfiber_context_zero, fb_stack = 0, fb_stack_size = 0\<rparr>,
     tk_stack = stack_null, tk_next = 0\<rparr>"

section \<open>Ready queue\<close>

definition enqueue_ready :: "'w cfiber_scheduler \<Rightarrow> u64 \<Rightarrow> 'w cfiber_scheduler option" where
  "enqueue_ready s t = do {
     tk \<leftarrow> sc_tasks s t;
     let s = s\<lparr>sc_tasks := (sc_tasks s)(t \<mapsto> tk\<lparr>tk_next := 0\<rparr>)\<rparr>;
     s \<leftarrow> (if sc_ready_tail s \<noteq> 0
           then do {
             l \<leftarrow> sc_tasks s (sc_ready_tail s);
             Some (s\<lparr>sc_tasks := (sc_tasks s)(sc_ready_tail s \<mapsto> l\<lparr>tk_next := t\<rparr>)\<rparr>)
           }
           else Some (s\<lparr>sc_ready_head := t\<rparr>));
     Some (s\<lparr>sc_ready_tail := t\<rparr>)
   }"

definition dequeue_ready :: "'w cfiber_scheduler \<Rightarrow> (u64 \<times> 'w cfiber_scheduler) option" where
  "dequeue_ready s =
     (let t = sc_ready_head s in
      if t = 0 then Some (0, s)
      else do {
        tk \<leftarrow> sc_tasks s t;
        let s = s\<lparr>sc_ready_head := tk_next tk\<rparr>;
        let s = (if sc_ready_head s = 0 then s\<lparr>sc_ready_tail := 0\<rparr> else s);
        Some (t, s\<lparr>sc_tasks := (sc_tasks s)(t \<mapsto> tk\<lparr>tk_next := 0\<rparr>)\<rparr>)
      })"

section \<open>Task lifecycle\<close>

text \<open>A released task's block is no longer the scheduler's: it leaves \<open>sc_tasks\<close>.\<close>

definition task_free ::
  "build \<Rightarrow> 'w cfiber_scheduler \<Rightarrow> u64 \<Rightarrow> memory \<Rightarrow> 'w \<Rightarrow> ('w cfiber_scheduler \<times> memory \<times> 'w) option" where
  "task_free b s t m w = do {
     tk \<leftarrow> sc_tasks s t;
     let s = (if sanitizer b
              then
                let used = cfiber_stack_debug_used_bytes True (tk_stack tk) (bytes m)
                in if used > sc_stack_peak s then s\<lparr>sc_stack_peak := used\<rparr> else s
              else s);
     (ok, sa, m, w) \<leftarrow>
       cfiber_fixed_stack_release (ndebug b) (sanitizer b) (redzone b) (tk_stack tk) (sc_stack_alloc s) m w;
     let s = s\<lparr>sc_stack_alloc := sa\<rparr>;
     if \<not> ok then None
     else do {
       (ta, w) \<leftarrow> cfiber_multislab_release (ndebug b) (sc_task_alloc s) t w;
       Some (s\<lparr>sc_task_alloc := ta, sc_tasks := (sc_tasks s)(t := None)\<rparr>, m, w)
     }
   }"

text \<open>The hook, up to the switch to the loop.\<close>

definition builtin_return_hook :: "'w cfiber_scheduler \<Rightarrow> 'w cfiber_scheduler" where
  "builtin_return_hook s =
     (let dead = sc_current s in
      s\<lparr>sc_zombie := dead, sc_current := 0, sc_active_count := sc_active_count s - 1\<rparr>)"

section \<open>Lifecycle of the scheduler\<close>

definition DEFAULT_PER_SLAB :: u32 where
  "DEFAULT_PER_SLAB = 16"

definition SIZEOF_TASK :: u64 where
  "SIZEOF_TASK = 128"

definition sched_zero :: "'w cfiber_scheduler" where
  "sched_zero = \<lparr>sc_task_alloc = ms_zero, sc_stack_alloc = ms_zero, sc_current = 0, sc_zombie = 0,
     sc_ready_head = 0, sc_ready_tail = 0, sc_stack_size = 0, sc_stack_peak = 0, sc_active_count = 0,
     sc_tasks = Map.empty\<rparr>"

text \<open>\<open>ms_init\<close> stands for \<open>cfiber_multislab_init\<close>, the constructor with the default backing allocator.\<close>

definition cfiber_scheduler_init_ext ::
  "build \<Rightarrow> ('w cfiber_multislab \<Rightarrow> u64 \<Rightarrow> u32 \<Rightarrow> u32 \<Rightarrow> u32 \<Rightarrow> int \<times> 'w cfiber_multislab) \<Rightarrow>
   'w cfiber_scheduler \<Rightarrow> cfiber_scheduler_config \<Rightarrow>
   (u64 \<Rightarrow> u64 \<Rightarrow> 'w \<Rightarrow> u64 \<times> 'w) option \<Rightarrow> (u64 \<Rightarrow> u64 \<Rightarrow> u64 \<Rightarrow> 'w \<Rightarrow> 'w option) option \<Rightarrow> u64 \<Rightarrow>
   'w \<Rightarrow> (int \<times> 'w cfiber_scheduler \<times> 'w) option" where
  "cfiber_scheduler_init_ext b ms_init sched config mem_alloc mem_free mem_ctx w =
     (if cf_stack_size config = 0 \<or> cf_stack_size config < 256 then Some (- 1, sched, w)
      else
        let sched = sched_zero\<lparr>sc_stack_size := cf_stack_size config\<rparr>;
            per_slab = (if cf_fibers_per_slab config \<noteq> 0 then cf_fibers_per_slab config else DEFAULT_PER_SLAB);
            task_block = align_up SIZEOF_TASK CFIBER_CACHE_LINE_SIZE;
            mk = (\<lambda>ms block.
              if mem_alloc \<noteq> None \<and> mem_free \<noteq> None
              then cfiber_multislab_init_ext ms block per_slab (cf_max_slabs config) 1 mem_alloc mem_free mem_ctx
              else ms_init ms block per_slab (cf_max_slabs config) 1);
            (rc, ta) = mk (sc_task_alloc sched) task_block;
            sched = sched\<lparr>sc_task_alloc := ta\<rparr>
        in if rc \<noteq> 0 then Some (rc, sched, w)
           else
             let stack_block = align_up (cf_stack_size config + redzone b) CFIBER_CACHE_LINE_SIZE;
                 (rc, sa) = mk (sc_stack_alloc sched) stack_block;
                 sched = sched\<lparr>sc_stack_alloc := sa\<rparr>
             in if rc \<noteq> 0
                then do {
                  (ta, w) \<leftarrow> cfiber_multislab_destroy (sc_task_alloc sched) w;
                  Some (rc, sched\<lparr>sc_task_alloc := ta\<rparr>, w)
                }
                else Some (0, sched, w))"

definition cfiber_scheduler_init ::
  "build \<Rightarrow> placement \<Rightarrow> libc_heap cfiber_scheduler \<Rightarrow> cfiber_scheduler_config \<Rightarrow> libc_heap \<Rightarrow>
   (int \<times> libc_heap cfiber_scheduler \<times> libc_heap) option" where
  "cfiber_scheduler_init b place sched config w =
     cfiber_scheduler_init_ext b (cfiber_multislab_init place) sched config None None 0 w"

definition cfiber_scheduler_destroy ::
  "build \<Rightarrow> 'w cfiber_scheduler \<Rightarrow> 'w \<Rightarrow> ('w cfiber_scheduler \<times> 'w) option" where
  "cfiber_scheduler_destroy b sched w = do {
     ASSERT (ndebug b) (sc_active_count sched = 0);
     (ta, w) \<leftarrow> cfiber_multislab_destroy (sc_task_alloc sched) w;
     (sa, w) \<leftarrow> cfiber_multislab_destroy (sc_stack_alloc sched) w;
     Some (sched_zero, w)
   }"

section \<open>Spawning\<close>

definition cfiber_scheduler_spawn ::
  "build \<Rightarrow> 'w cfiber_scheduler \<Rightarrow> u64 \<Rightarrow> u64 \<Rightarrow> memory \<Rightarrow> 'w \<Rightarrow>
   (bool \<times> 'w cfiber_scheduler \<times> memory \<times> 'w) option" where
  "cfiber_scheduler_spawn b sched func user_data m w = do {
     (task, ta, w) \<leftarrow> cfiber_multislab_alloc (ndebug b) (sc_task_alloc sched) w;
     let sched = sched\<lparr>sc_task_alloc := ta\<rparr>;
     if task = 0 then Some (False, sched, m, w)
     else do {
       let tk = task_uninit;
       (rc, stack, sa, m, w) \<leftarrow>
         cfiber_fixed_stack_alloc (ndebug b) (sanitizer b) (redzone b) (tk_stack tk) (sc_stack_alloc sched) m w;
       let sched = sched\<lparr>sc_stack_alloc := sa\<rparr>;
       if rc \<noteq> 0 then do {
         (ta, w) \<leftarrow> cfiber_multislab_release (ndebug b) (sc_task_alloc sched) task w;
         Some (False, sched\<lparr>sc_task_alloc := ta\<rparr>, m, w)
       }
       else do {
         let tk = tk\<lparr>tk_stack := stack,
                     tk_fiber := (tk_fiber tk)\<lparr>fb_stack := usable_base stack, fb_stack_size := sc_stack_size sched\<rparr>,
                     tk_next := 0\<rparr>;
         (fiber, bs) \<leftarrow>
           cfiber_init (ndebug b) (prologue_addr b) (creator b) (tk_fiber tk) func user_data (bytes m);
         let sched = sched\<lparr>sc_tasks := (sc_tasks sched)(task \<mapsto> tk\<lparr>tk_fiber := fiber\<rparr>)\<rparr>;
         sched \<leftarrow> enqueue_ready sched task;
         Some (True, sched\<lparr>sc_active_count := sc_active_count sched + 1\<rparr>, m\<lparr>bytes := bs\<rparr>, w)
       }
     }
   }"

section \<open>Calls made from a fiber\<close>

definition cfiber_scheduler_current :: "thread \<Rightarrow> u64" where
  "cfiber_scheduler_current th = s_current_sched th"

definition cfiber_scheduler_stack_peak :: "'w cfiber_scheduler \<Rightarrow> u64" where
  "cfiber_scheduler_stack_peak sched = sc_stack_peak sched"

text \<open>\<open>s\<close> is the scheduler \<open>s_current_sched\<close> points to; the result says whether control left to the loop.\<close>

definition cfiber_yield ::
  "build \<Rightarrow> thread \<Rightarrow> 'w cfiber_scheduler \<Rightarrow> (bool \<times> 'w cfiber_scheduler) option" where
  "cfiber_yield b th s = do {
     ASSERT (ndebug b) (s_current_sched th \<noteq> 0);
     if s_current_sched th = 0 then Some (False, s)
     else
       let cur = sc_current s in
       if cur = 0 then Some (False, s)
       else if sc_ready_head s = 0 then Some (False, s)
       else do {
         s \<leftarrow> enqueue_ready s cur;
         Some (True, s\<lparr>sc_current := 0\<rparr>)
       }
   }"

definition cfiber_spawn ::
  "build \<Rightarrow> thread \<Rightarrow> 'w cfiber_scheduler \<Rightarrow> u64 \<Rightarrow> u64 \<Rightarrow> memory \<Rightarrow> 'w \<Rightarrow>
   (bool \<times> 'w cfiber_scheduler \<times> memory \<times> 'w) option" where
  "cfiber_spawn b th s func user_data m w = do {
     ASSERT (ndebug b) (s_current_sched th \<noteq> 0);
     if s_current_sched th = 0 then Some (False, s, m, w)
     else cfiber_scheduler_spawn b s func user_data m w
   }"

section \<open>The run\<close>

text \<open>Entry and exit of \<open>cfiber_scheduler_run\<close> for the scheduler at address \<open>self\<close>, whose hook has
  the address \<open>hook\<close>: what was current before is returned, and restored at the end.\<close>

definition sched_run_begin :: "build \<Rightarrow> u64 \<Rightarrow> u64 \<Rightarrow> thread \<Rightarrow> (thread \<times> thread) option" where
  "sched_run_begin b hook self th = do {
     ASSERT (ndebug b) (s_current_sched th \<noteq> self);
     let prev_sched = s_current_sched th;
     let (prev_hook, h) = cfiber_set_return_hook hook self (s_return_hook th);
     Some (\<lparr>s_current_sched = prev_sched, s_return_hook = prev_hook\<rparr>,
           th\<lparr>s_current_sched := self, s_return_hook := h\<rparr>)
   }"

definition sched_run_end :: "thread \<Rightarrow> thread \<Rightarrow> thread" where
  "sched_run_end prev th =
     (let h = snd (cfiber_set_return_hook (hook_fn (s_return_hook prev)) (hook_ctx (s_return_hook prev))
                (s_return_hook th))
      in th\<lparr>s_return_hook := h, s_current_sched := s_current_sched prev\<rparr>)"

definition free_zombie ::
  "build \<Rightarrow> 'w cfiber_scheduler \<Rightarrow> memory \<Rightarrow> 'w \<Rightarrow> ('w cfiber_scheduler \<times> memory \<times> 'w) option" where
  "free_zombie b s m w =
     (if sc_zombie s \<noteq> 0 then do {
        (s, m, w) \<leftarrow> task_free b s (sc_zombie s) m w;
        Some (s\<lparr>sc_zombie := 0\<rparr>, m, w)
      } else Some (s, m, w))"

text \<open>The body of the loop, up to the switch into the fiber; an empty queue traps.\<close>

definition sched_dispatch ::
  "build \<Rightarrow> 'w cfiber_scheduler \<Rightarrow> memory \<Rightarrow> 'w \<Rightarrow> ('w cfiber_scheduler \<times> memory \<times> 'w) option" where
  "sched_dispatch b s m w = do {
     (s, m, w) \<leftarrow> free_zombie b s m w;
     (next, s) \<leftarrow> dequeue_ready s;
     if next = 0 then None
     else Some (s\<lparr>sc_current := next\<rparr>, m, w)
   }"

text \<open>What a fiber does next: the calls it can make, or returning from its function.\<close>

datatype act = Act_yield | Act_spawn u64 u64 | Act_return

type_synonym 'u behaviour = "u64 \<Rightarrow> memory \<Rightarrow> 'u \<Rightarrow> act \<times> memory \<times> 'u"

type_synonym ('w, 'u) sched_state = "'w cfiber_scheduler \<times> memory \<times> 'w \<times> 'u"

definition fiber_act ::
  "build \<Rightarrow> thread \<Rightarrow> 'u behaviour \<Rightarrow> ('w, 'u) sched_state \<Rightarrow> ('w, 'u) sched_state option" where
  "fiber_act b th beh st =
     (case st of (s, m, w, u) \<Rightarrow>
        case beh (sc_current s) m u of (a, m, u) \<Rightarrow>
          (case a of
             Act_yield \<Rightarrow> do { (left, s) \<leftarrow> cfiber_yield b th s; Some (s, m, w, u) }
           | Act_spawn f x \<Rightarrow> do { (spawned, s, m, w) \<leftarrow> cfiber_spawn b th s f x m w; Some (s, m, w, u) }
           | Act_return \<Rightarrow> Some (builtin_return_hook s, m, w, u)))"

definition sched_step ::
  "build \<Rightarrow> thread \<Rightarrow> 'u behaviour \<Rightarrow> ('w, 'u) sched_state \<Rightarrow> ('w, 'u) sched_state option" where
  "sched_step b th beh st =
     (case st of (s, m, w, u) \<Rightarrow>
        if sc_current s = 0
        then do { (s, m, w) \<leftarrow> sched_dispatch b s m w; Some (s, m, w, u) }
        else fiber_act b th beh st)"

definition sched_done :: "('w, 'u) sched_state \<Rightarrow> bool" where
  "sched_done st \<longleftrightarrow> sc_current (fst st) = 0 \<and> \<not> sc_active_count (fst st) > 0"

datatype 'a outcome = Trapped | Out_of_fuel | Finished 'a

text \<open>The loop of \<open>cfiber_scheduler_run\<close> to its end, for at most \<open>n\<close> moves.\<close>

fun sched_loop ::
  "build \<Rightarrow> thread \<Rightarrow> 'u behaviour \<Rightarrow> nat \<Rightarrow> ('w, 'u) sched_state \<Rightarrow> ('w, 'u) sched_state outcome" where
  "sched_loop b th beh n st =
     (if sched_done st
      then case st of (s, m, w, u) \<Rightarrow>
        (case free_zombie b s m w of None \<Rightarrow> Trapped | Some (s, m, w) \<Rightarrow> Finished (s, m, w, u))
      else case n of
        0 \<Rightarrow> Out_of_fuel
      | Suc n \<Rightarrow> (case sched_step b th beh st of None \<Rightarrow> Trapped | Some st \<Rightarrow> sched_loop b th beh n st))"

declare sched_loop.simps [simp del]

lemmas [run_defs] = cfiber_scheduler_init_def cfiber_scheduler_init_ext_def sched_zero_def
  SIZEOF_TASK_def DEFAULT_PER_SLAB_def cfiber_scheduler_spawn_def cfiber_fixed_stack_alloc_def
  task_uninit_def stack_null_def enqueue_ready_def dequeue_ready_def

end
