(* ===== verification/Scheduler_Correct.thy ===== *)
theory Scheduler_Correct
  imports Scheduler
begin

text \<open>
  The scheduler's invariant, kept by every move of the loop and of the fibers it runs, over any
  backing allocator that meets its contract; and from it: no trap but the stack sanitizer's is
  reachable, the ready queue is first-come first-served, a finished run has released every task and
  every stack, and a run ends when its fibers do.
\<close>

section \<open>The ready queue\<close>

definition task_nexts :: "'w cfiber_scheduler \<Rightarrow> nexts" where
  "task_nexts s p = map_option tk_next (sc_tasks s p)"

text \<open>Everything but the queue's own pointers.\<close>

definition strip_queue :: "'w cfiber_scheduler \<Rightarrow> 'w cfiber_scheduler" where
  "strip_queue s = s\<lparr>sc_ready_head := 0, sc_ready_tail := 0,
     sc_tasks := (\<lambda>p. map_option (\<lambda>t. t\<lparr>tk_next := 0\<rparr>) (sc_tasks s p))\<rparr>"

lemma task_nexts_None [simp]: "task_nexts s p = None \<longleftrightarrow> sc_tasks s p = None"
  by (simp add: task_nexts_def)

lemma dom_task_nexts [simp]: "dom (task_nexts s) = dom (sc_tasks s)"
  by (auto simp: task_nexts_def)

interpretation ready: fifo_ops task_nexts sc_ready_head sc_ready_tail strip_queue "\<lambda>_ s. s"
  enqueue_ready dequeue_ready
proof unfold_locales
  fix s :: "'w cfiber_scheduler" and y
  assume y: "task_nexts s y \<noteq> None"
    and t: "sc_ready_tail s = 0 \<or> (sc_ready_tail s \<noteq> y \<and> task_nexts s (sc_ready_tail s) \<noteq> None)"
  obtain tk where tk: "sc_tasks s y = Some tk" using y by auto
  show "\<exists>s'. enqueue_ready s y = Some s' \<and>
      task_nexts s' = (if sc_ready_tail s = 0 then (task_nexts s)(y \<mapsto> 0)
                       else (task_nexts s)(y \<mapsto> 0, sc_ready_tail s \<mapsto> y)) \<and>
      sc_ready_head s' = (if sc_ready_tail s = 0 then y else sc_ready_head s) \<and>
      sc_ready_tail s' = y \<and> strip_queue s' = strip_queue s"
  proof (cases "sc_ready_tail s = 0")
    case True
    then show ?thesis using tk by (auto simp: enqueue_ready_def task_nexts_def strip_queue_def fun_eq_iff)
  next
    case False
    then obtain l where "sc_tasks s (sc_ready_tail s) = Some l" "sc_ready_tail s \<noteq> y" using t by auto
    then show ?thesis
      using tk False by (auto simp: enqueue_ready_def task_nexts_def strip_queue_def fun_eq_iff)
  qed
next
  fix s :: "'w cfiber_scheduler" and nx
  assume h: "sc_ready_head s \<noteq> 0" "task_nexts s (sc_ready_head s) = Some nx"
  then obtain tk where "sc_tasks s (sc_ready_head s) = Some tk" "tk_next tk = nx"
    by (auto simp: task_nexts_def)
  then show "\<exists>s'. dequeue_ready s = Some (sc_ready_head s, s') \<and>
      task_nexts s' = (task_nexts s)(sc_ready_head s \<mapsto> 0) \<and> sc_ready_head s' = nx \<and>
      sc_ready_tail s' = (if nx = 0 then 0 else sc_ready_tail s) \<and> strip_queue s' = strip_queue s"
    using h(1) by (auto simp: dequeue_ready_def task_nexts_def strip_queue_def fun_eq_iff Let_def)
qed (simp add: dequeue_ready_def)

text \<open>What equal stripped states share.\<close>

lemma strip_queue_fields:
  assumes "strip_queue s' = strip_queue s"
  shows "sc_task_alloc s' = sc_task_alloc s" "sc_stack_alloc s' = sc_stack_alloc s"
    "sc_current s' = sc_current s" "sc_zombie s' = sc_zombie s" "sc_stack_size s' = sc_stack_size s"
    "sc_stack_peak s' = sc_stack_peak s" "sc_active_count s' = sc_active_count s"
    "dom (sc_tasks s') = dom (sc_tasks s)"
    "\<And>p. map_option tk_stack (sc_tasks s' p) = map_option tk_stack (sc_tasks s p)"
proof -
  have t: "map_option (\<lambda>t. t\<lparr>tk_next := 0\<rparr>) (sc_tasks s' p) =
      map_option (\<lambda>t. t\<lparr>tk_next := 0\<rparr>) (sc_tasks s p)" for p
    using arg_cong [OF assms, of sc_tasks] by (simp add: strip_queue_def fun_eq_iff)
  show "dom (sc_tasks s') = dom (sc_tasks s)"
  proof -
    have "sc_tasks s' p = None \<longleftrightarrow> sc_tasks s p = None" for p
      using t [of p] by (cases "sc_tasks s' p"; cases "sc_tasks s p"; simp)
    then show ?thesis by (simp add: dom_def)
  qed
  show "map_option tk_stack (sc_tasks s' p) = map_option tk_stack (sc_tasks s p)" for p
    using arg_cong [OF t, of "map_option tk_stack" p] by (simp add: option.map_comp comp_def)
qed (use assms in \<open>cases s; cases s'; simp add: strip_queue_def\<close>)+

section \<open>Two multislabs over one backing allocator\<close>

lemma ms_inv_frame:
  assumes "ms_inv al fr M ms" "\<And>x. x \<in> ms_footprint (ms_nodes ms) \<Longrightarrow> M' x = M x"
  shows "ms_inv al fr M' ms"
proof -
  let ?V = "node_payload (ms_nodes ms)"
  have "mem_ok M' sz ?V" if m: "mem_ok M sz ?V" for sz
    unfolding mem_ok_def
  proof (intro conjI allI impI)
    fix p s u f r assume v: "?V p = Some (s, u, f, r)"
    then have "p \<in> ms_footprint (ms_nodes ms)" "r \<in> ms_footprint (ms_nodes ms)"
      unfolding footprint_payload by blast+
    then have "M' p = M p" "M' r = M r" using assms(2) by auto
    then show "M' p \<noteq> None" "\<exists>m \<ge> unat sz. M' r = Some m" "r \<notin> dom ?V"
      using m v unfolding mem_ok_def by auto
  next
    fix p q s u f s' u' f' r assume "?V p = Some (s, u, f, r)" "?V q = Some (s', u', f', r)"
    then show "p = q" using m unfolding mem_ok_def by blast
  qed
  then show ?thesis using assms(1) unfolding ms_inv_def ms_core_def by blast
qed

lemma ms_inv_footprint:
  assumes "ms_inv al fr M ms" "x \<in> ms_footprint (ms_nodes ms)"
  shows "M x \<noteq> None"
proof -
  have "\<exists>sz. mem_ok M sz (node_payload (ms_nodes ms))" using assms(1) by (auto simp: ms_inv_def ms_core_def)
  then show ?thesis using assms(2) unfolding footprint_payload mem_ok_def by fastforce
qed

text \<open>An operation on one leaves the other in order and apart.\<close>

lemma ms_other_kept:
  assumes "ms_inv al fr M ms2" "ms_footprint (ms_nodes ms1) \<inter> ms_footprint (ms_nodes ms2) = {}"
    and rest: "ms_rest M' ms1' = ms_rest M ms1"
  shows "ms_inv al fr M' ms2" "ms_footprint (ms_nodes ms1') \<inter> ms_footprint (ms_nodes ms2) = {}"
proof -
  have *: "x \<notin> ms_footprint (ms_nodes ms1') \<and> M' x = M x" if x: "x \<in> ms_footprint (ms_nodes ms2)" for x
  proof -
    have "x \<notin> ms_footprint (ms_nodes ms1)" using x assms(2) by blast
    then have "ms_rest M' ms1' x = M x" using rest by (simp add: ms_rest_def)
    moreover have "M x \<noteq> None" by (rule ms_inv_footprint [OF assms(1) x])
    ultimately show ?thesis by (cases "x \<in> ms_footprint (ms_nodes ms1')") (auto simp: ms_rest_def)
  qed
  show "ms_inv al fr M' ms2" by (rule ms_inv_frame [OF assms(1)]) (use * in blast)
  show "ms_footprint (ms_nodes ms1') \<inter> ms_footprint (ms_nodes ms2) = {}" using * by blast
qed

text \<open>What the backing allocator holds besides the two.\<close>

definition both_rest :: "(u64 \<Rightarrow> nat option) \<Rightarrow> 'w cfiber_multislab \<Rightarrow> 'w cfiber_multislab \<Rightarrow> u64 \<Rightarrow> nat option" where
  "both_rest M ms1 ms2 = M |` (- (ms_footprint (ms_nodes ms1) \<union> ms_footprint (ms_nodes ms2)))"

lemma both_rest_1: "both_rest M ms1 ms2 = ms_rest M ms1 |` (- ms_footprint (ms_nodes ms2))"
  by (simp add: both_rest_def ms_rest_def Compl_Un)

lemma both_rest_2: "both_rest M ms1 ms2 = ms_rest M ms2 |` (- ms_footprint (ms_nodes ms1))"
  by (simp add: both_rest_def ms_rest_def Compl_Un Int_commute)

lemma both_rest_kept:
  "ms_rest M' ms1' = ms_rest M ms1 \<Longrightarrow> both_rest M' ms1' ms2 = both_rest M ms1 ms2"
  "ms_rest M' ms2' = ms_rest M ms2 \<Longrightarrow> both_rest M' ms1 ms2' = both_rest M ms1 ms2"
  by (simp add: both_rest_1) (simp add: both_rest_2)

section \<open>The invariant\<close>

text \<open>\<open>Z\<close> is what the backing allocator held before the scheduler took anything from it.\<close>

definition sched_stacks :: "'w cfiber_scheduler \<Rightarrow> u64 \<Rightarrow> u64 option" where
  "sched_stacks s p = map_option (\<lambda>t. mem_base (tk_stack t)) (sc_tasks s p)"

definition sched_inv ::
  "build \<Rightarrow> (u64 \<Rightarrow> u64 \<Rightarrow> 'w \<Rightarrow> u64 \<times> 'w) \<Rightarrow> (u64 \<Rightarrow> u64 \<Rightarrow> u64 \<Rightarrow> 'w \<Rightarrow> 'w option) \<Rightarrow> (u64 \<Rightarrow> nat option) \<Rightarrow>
   (u64 \<Rightarrow> nat option) \<Rightarrow> 'w cfiber_scheduler \<Rightarrow> u64 list \<Rightarrow> bool" where
  "sched_inv b al fr Z M s q \<longleftrightarrow>
     ms_inv al fr M (sc_task_alloc s) \<and> ms_inv al fr M (sc_stack_alloc s) \<and>
     ms_footprint (ms_nodes (sc_task_alloc s)) \<inter> ms_footprint (ms_nodes (sc_stack_alloc s)) = {} \<and>
     fifo (task_nexts s) (sc_ready_head s) (sc_ready_tail s) q \<and>
     dom (sc_tasks s) = ms_live (sc_task_alloc s) \<and>
     dom (sc_tasks s) = set q \<union> ({sc_current s} - {0}) \<union> ({sc_zombie s} - {0}) \<and>
     sc_current s \<notin> set q \<and> sc_zombie s \<notin> set q \<and> (sc_current s = 0 \<or> sc_zombie s = 0) \<and>
     sc_active_count s = of_nat (length q + (if sc_current s = 0 then 0 else 1)) \<and>
     (\<forall>p t. sc_tasks s p = Some t \<longrightarrow> fixed_stack_at (redzone b) (sc_stack_alloc s) (tk_stack t)) \<and>
     ran (sched_stacks s) = ms_live (sc_stack_alloc s) \<and> inj_on (sched_stacks s) (dom (sc_tasks s)) \<and>
     256 \<le> unat (sc_stack_size s) \<and>
     unat (redzone b) + unat (sc_stack_size s) \<le> unat (ms_block_size (sc_stack_alloc s)) \<and>
     both_rest M (sc_task_alloc s) (sc_stack_alloc s) = Z"

lemma sched_invD:
  assumes "sched_inv b al fr Z M s q"
  shows "ms_inv al fr M (sc_task_alloc s)" "ms_inv al fr M (sc_stack_alloc s)"
    "ms_footprint (ms_nodes (sc_task_alloc s)) \<inter> ms_footprint (ms_nodes (sc_stack_alloc s)) = {}"
    "ready.holds s q" "dom (sc_tasks s) = ms_live (sc_task_alloc s)"
    "dom (sc_tasks s) = set q \<union> ({sc_current s} - {0}) \<union> ({sc_zombie s} - {0})"
    "sc_current s \<notin> set q" "sc_zombie s \<notin> set q" "sc_current s = 0 \<or> sc_zombie s = 0"
    "sc_active_count s = of_nat (length q + (if sc_current s = 0 then 0 else 1))"
    "\<And>p t. sc_tasks s p = Some t \<Longrightarrow> fixed_stack_at (redzone b) (sc_stack_alloc s) (tk_stack t)"
    "ran (sched_stacks s) = ms_live (sc_stack_alloc s)" "inj_on (sched_stacks s) (dom (sc_tasks s))"
    "256 \<le> unat (sc_stack_size s)"
    "unat (redzone b) + unat (sc_stack_size s) \<le> unat (ms_block_size (sc_stack_alloc s))"
    "both_rest M (sc_task_alloc s) (sc_stack_alloc s) = Z"
  using assms unfolding sched_inv_def ready.holds_def by blast+

lemma fixed_stack_at_conf: "same_conf ms ms' \<Longrightarrow> fixed_stack_at rz ms' st = fixed_stack_at rz ms st"
  by (simp add: fixed_stack_at_def same_conf_def)

text \<open>Moving tasks between the queue and the running slot changes neither blocks nor stacks.\<close>

lemma sched_inv_move:
  assumes inv: "sched_inv b al fr Z M s q"
    and s': "strip_queue s' = strip_queue (s\<lparr>sc_current := c, sc_zombie := z, sc_active_count := a\<rparr>)"
    and q: "ready.holds s' q'"
    and slots: "set q' \<union> ({c} - {0}) \<union> ({z} - {0}) = dom (sc_tasks s)" "c \<notin> set q'" "z \<notin> set q'"
      "c = 0 \<or> z = 0" "a = of_nat (length q' + (if c = 0 then 0 else 1))"
  shows "sched_inv b al fr Z M s' q'"
proof -
  note F = strip_queue_fields [OF s', simplified] and I = sched_invD [OF inv]
  have st: "sched_stacks s' = sched_stacks s"
  proof
    fix p show "sched_stacks s' p = sched_stacks s p"
      using arg_cong [OF F(9), of "map_option mem_base" p]
      by (simp add: sched_stacks_def option.map_comp comp_def)
  qed
  have fx: "fixed_stack_at (redzone b) (sc_stack_alloc s) (tk_stack t)" if t: "sc_tasks s' p = Some t" for p t
  proof -
    obtain t' where "sc_tasks s p = Some t'" "tk_stack t' = tk_stack t"
      using F(9) [of p] t by (cases "sc_tasks s p") auto
    then show ?thesis using I(11) [of p t'] by simp
  qed
  show ?thesis
    unfolding sched_inv_def F(1-8) st
    using I(1-3,5,12-16) slots fx q unfolding ready.holds_def F(8) by simp
qed

section \<open>The moves keep the invariant\<close>

text \<open>One multislab operation, as the scheduler's invariant sees it.\<close>

context backing_allocator
begin

lemma task_free_spec:
  assumes ok: "ok w" and inv: "sched_inv b al fr Z (R w) s q" and z: "sc_zombie s \<noteq> 0"
  obtains tk where "sc_tasks s (sc_zombie s) = Some tk"
    "cfiber_stack_debug_overflowed (sanitizer b) (tk_stack tk) (bytes m) \<Longrightarrow> free_zombie b s m w = None"
    "\<not> cfiber_stack_debug_overflowed (sanitizer b) (tk_stack tk) (bytes m) \<Longrightarrow>
       \<exists>s' m' w'. free_zombie b s m w = Some (s', m', w') \<and> ok w' \<and> sched_inv b al fr Z (R w') s' q \<and>
         bytes m' = bytes m \<and> sc_zombie s' = 0 \<and> sc_current s' = sc_current s \<and>
         sc_active_count s' = sc_active_count s"
proof -
  note I = sched_invD [OF inv]
  let ?z = "sc_zombie s" and ?nd = "ndebug b"
  have "?z \<in> dom (sc_tasks s)" using z I(6) by blast
  then obtain tk where tk: "sc_tasks s ?z = Some tk" by blast
  have zl: "?z \<in> ms_live (sc_task_alloc s)" using tk I(5) by blast
  have sl: "mem_base (tk_stack tk) \<in> ms_live (sc_stack_alloc s)"
    using I(12) tk by (force simp: sched_stacks_def ran_def)
  define s1 where "s1 = (if sanitizer b \<and> cfiber_stack_debug_used_bytes True (tk_stack tk) (bytes m) > sc_stack_peak s
    then s\<lparr>sc_stack_peak := cfiber_stack_debug_used_bytes True (tk_stack tk) (bytes m)\<rparr> else s)"
  have s1: "sc_task_alloc s1 = sc_task_alloc s" "sc_stack_alloc s1 = sc_stack_alloc s"
    "sc_tasks s1 = sc_tasks s" by (simp_all add: s1_def)
  obtain sa w1 where rel: "cfiber_fixed_stack_release ?nd (sanitizer b) (redzone b) (tk_stack tk)
      (sc_stack_alloc s) m w = Some (\<not> cfiber_stack_debug_overflowed (sanitizer b) (tk_stack tk) (bytes m), sa,
        cfiber_asan_unpoison (mem_base (tk_stack tk)) (redzone b) m, w1)"
    "ok w1" "ms_inv al fr (R w1) sa" "same_conf (sc_stack_alloc s) sa"
    "ms_live sa = ms_live (sc_stack_alloc s) - {mem_base (tk_stack tk)}"
    "ms_rest (R w1) sa = ms_rest (R w) (sc_stack_alloc s)"
    by (rule fixed_release_spec [OF ok I(2) sl])
  have "ms_footprint (ms_nodes (sc_stack_alloc s)) \<inter> ms_footprint (ms_nodes (sc_task_alloc s)) = {}"
    using I(3) by blast
  note O1 = ms_other_kept [OF I(1) this rel(6)]
  obtain ta w2 where rel2: "cfiber_multislab_release ?nd (sc_task_alloc s) ?z w1 = Some (ta, w2)" "ok w2"
    "ms_inv al fr (R w2) ta" "same_conf (sc_task_alloc s) ta" "ms_live ta = ms_live (sc_task_alloc s) - {?z}"
    "ms_rest (R w2) ta = ms_rest (R w1) (sc_task_alloc s)"
    by (rule release_spec [OF rel(2) O1(1) zl, of ?nd]) blast
  have "ms_footprint (ms_nodes (sc_task_alloc s)) \<inter> ms_footprint (ms_nodes sa) = {}" using O1(2) by blast
  note O2 = ms_other_kept [OF rel(3) this rel2(6)]
  let ?s = "s1\<lparr>sc_stack_alloc := sa, sc_task_alloc := ta, sc_tasks := (sc_tasks s)(?z := None), sc_zombie := 0\<rparr>"
  let ?m = "cfiber_asan_unpoison (mem_base (tk_stack tk)) (redzone b) m"
  have run: "free_zombie b s m w = Some (?s, ?m, w2)"
    if "\<not> cfiber_stack_debug_overflowed (sanitizer b) (tk_stack tk) (bytes m)"
    using that z tk rel(1) rel2(1)
    by (cases "sanitizer b"; cases "sc_stack_peak s < cfiber_stack_debug_used_bytes True (tk_stack tk) (bytes m)";
        simp add: free_zombie_def task_free_def Let_def s1_def)
  have trap: "free_zombie b s m w = None"
    if "cfiber_stack_debug_overflowed (sanitizer b) (tk_stack tk) (bytes m)"
    using that z tk rel(1)
    by (cases "sanitizer b"; cases "sc_stack_peak s < cfiber_stack_debug_used_bytes True (tk_stack tk) (bytes m)";
        simp add: free_zombie_def task_free_def Let_def)
  have c0: "sc_current s = 0" using I(9) z by simp
  have fields: "sc_ready_head ?s = sc_ready_head s" "sc_ready_tail ?s = sc_ready_tail s"
    "sc_current ?s = sc_current s" "sc_active_count ?s = sc_active_count s" "sc_stack_size ?s = sc_stack_size s"
    by (simp_all add: s1_def)
  have q: "ready.holds ?s q"
  proof -
    have "fifo (task_nexts ?s) (sc_ready_head s) (sc_ready_tail s) q =
        fifo (task_nexts s) (sc_ready_head s) (sc_ready_tail s) q"
      by (rule fifo_frame) (use I(8) in \<open>auto simp: task_nexts_def\<close>)
    then show ?thesis using I(4) unfolding ready.holds_def fields(1,2) by simp
  qed
  have st: "sched_stacks ?s = (sched_stacks s)(?z := None)"
    by (simp add: sched_stacks_def fun_eq_iff)
  have tkz: "sched_stacks s ?z = Some (mem_base (tk_stack tk))" using tk by (simp add: sched_stacks_def)
  have ran: "ran (sched_stacks ?s) = ms_live sa"
  proof -
    have "ran ((sched_stacks s)(?z := None)) = ran (sched_stacks s) - {mem_base (tk_stack tk)}"
    proof -
      have "sched_stacks s p \<noteq> Some (mem_base (tk_stack tk))" if "p \<noteq> ?z" for p
        using inj_onD [OF I(13), of p ?z] that tkz tk by (auto simp: domIff sched_stacks_def)
      with tkz show ?thesis by (rule ran_del)
    qed
    then show ?thesis using st rel(5) I(12) by simp
  qed
  have dom: "dom (sc_tasks ?s) = dom (sc_tasks s) - {?z}" by simp
  have inj: "inj_on (sched_stacks ?s) (dom (sc_tasks ?s))"
    unfolding st dom using I(13) by (auto simp: inj_on_def)
  have bsz: "ms_block_size sa = ms_block_size (sc_stack_alloc s)" by (rule same_conf_bsz [OF rel(4)])
  have inv': "sched_inv b al fr Z (R w2) ?s q"
    unfolding sched_inv_def
  proof (intro conjI)
    show "ms_inv al fr (R w2) (sc_task_alloc ?s)" using rel2(3) by simp
    show "ms_inv al fr (R w2) (sc_stack_alloc ?s)" using O2(1) by simp
    show "ms_footprint (ms_nodes (sc_task_alloc ?s)) \<inter> ms_footprint (ms_nodes (sc_stack_alloc ?s)) = {}"
      using O2(2) by simp
    show "fifo (task_nexts ?s) (sc_ready_head ?s) (sc_ready_tail ?s) q" using q by (simp add: ready.holds_def)
    show "dom (sc_tasks ?s) = ms_live (sc_task_alloc ?s)" unfolding dom using rel2(5) I(5) by simp
    show "dom (sc_tasks ?s) = set q \<union> ({sc_current ?s} - {0}) \<union> ({sc_zombie ?s} - {0})"
      unfolding dom fields(3) using I(6,8) c0 z by auto
    show "sc_current ?s \<notin> set q" "sc_zombie ?s \<notin> set q"
      using I(7) c0 unfolding fields(3) by simp_all
    show "\<forall>p t. sc_tasks ?s p = Some t \<longrightarrow> fixed_stack_at (redzone b) (sc_stack_alloc ?s) (tk_stack t)"
      using I(11) fixed_stack_at_conf [OF rel(4)] by (auto split: if_splits)
    show "both_rest (R w2) (sc_task_alloc ?s) (sc_stack_alloc ?s) = Z"
      using I(16) both_rest_kept(2) [OF rel(6)] both_rest_kept(1) [OF rel2(6)] by simp
  qed (use fields ran inj I(10,14,15) bsz in simp_all)
  show thesis
  proof (rule that [OF tk trap])
    assume no: "\<not> cfiber_stack_debug_overflowed (sanitizer b) (tk_stack tk) (bytes m)"
    have "bytes ?m = bytes m" "sc_zombie ?s = 0" by (simp_all add: cfiber_asan_unpoison_def)
    then show "\<exists>s' m' w'. free_zombie b s m w = Some (s', m', w') \<and> ok w' \<and> sched_inv b al fr Z (R w') s' q \<and>
         bytes m' = bytes m \<and> sc_zombie s' = 0 \<and> sc_current s' = sc_current s \<and>
         sc_active_count s' = sc_active_count s"
      using run [OF no] rel2(2) inv' fields(3,4) by blast
  qed
qed

end

lemma sched_inv_allocs:
  assumes inv: "sched_inv b al fr Z M s q"
    and "ms_inv al fr M' ta" "ms_inv al fr M' sa"
    and "ms_footprint (ms_nodes ta) \<inter> ms_footprint (ms_nodes sa) = {}"
    and "ms_live ta = ms_live (sc_task_alloc s)" "ms_live sa = ms_live (sc_stack_alloc s)"
    and "same_conf (sc_stack_alloc s) sa" "both_rest M' ta sa = Z"
  shows "sched_inv b al fr Z M' (s\<lparr>sc_task_alloc := ta, sc_stack_alloc := sa\<rparr>) q"
proof -
  note I = sched_invD [OF inv]
  let ?s = "s\<lparr>sc_task_alloc := ta, sc_stack_alloc := sa\<rparr>"
  have [simp]: "task_nexts (s\<lparr>sc_task_alloc := ta, sc_stack_alloc := sa\<rparr>) = task_nexts s"
    "sched_stacks (s\<lparr>sc_task_alloc := ta, sc_stack_alloc := sa\<rparr>) = sched_stacks s"
    by (simp_all add: task_nexts_def sched_stacks_def fun_eq_iff)
  show ?thesis
    unfolding sched_inv_def
  proof (intro conjI)
    show "fifo (task_nexts ?s) (sc_ready_head ?s) (sc_ready_tail ?s) q"
      using I(4) by (simp add: ready.holds_def)
    show "dom (sc_tasks ?s) = ms_live (sc_task_alloc ?s)" using I(5) assms(5) by simp
    show "dom (sc_tasks ?s) = set q \<union> ({sc_current ?s} - {0}) \<union> ({sc_zombie ?s} - {0})"
      using I(6) by simp
    show "inj_on (sched_stacks ?s) (dom (sc_tasks ?s))" using I(13) by simp
    show "\<forall>p t. sc_tasks ?s p = Some t \<longrightarrow> fixed_stack_at (redzone b) (sc_stack_alloc ?s) (tk_stack t)"
      using I(11) fixed_stack_at_conf [OF assms(7)] by simp
  qed (use I(7-10,12,14,15) assms(2-4,6,8) same_conf_bsz [OF assms(7)] in simp_all)
qed

text \<open>Adding a task with a stack of its own at the back of the queue.\<close>

lemma sched_inv_add:
  assumes inv: "sched_inv b al fr Z M s q" and t: "t \<noteq> 0" "t \<notin> dom (sc_tasks s)"
    and tk: "fixed_stack_at (redzone b) (sc_stack_alloc s) (tk_stack tk)"
    and a: "ms_inv al fr M' ta" "ms_inv al fr M' sa"
      "ms_footprint (ms_nodes ta) \<inter> ms_footprint (ms_nodes sa) = {}"
      "ms_live ta = insert t (ms_live (sc_task_alloc s))"
      "mem_base (tk_stack tk) \<notin> ms_live (sc_stack_alloc s)"
      "ms_live sa = insert (mem_base (tk_stack tk)) (ms_live (sc_stack_alloc s))"
      "same_conf (sc_stack_alloc s) sa" "both_rest M' ta sa = Z"
  obtains s' where
    "enqueue_ready (s\<lparr>sc_task_alloc := ta, sc_stack_alloc := sa, sc_tasks := (sc_tasks s)(t \<mapsto> tk)\<rparr>) t = Some s'"
    "sched_inv b al fr Z M' (s'\<lparr>sc_active_count := sc_active_count s' + 1\<rparr>) (q @ [t])"
    "sc_current s' = sc_current s" "sc_zombie s' = sc_zombie s"
proof -
  let ?s = "s\<lparr>sc_task_alloc := ta, sc_stack_alloc := sa, sc_tasks := (sc_tasks s)(t \<mapsto> tk)\<rparr>"
  note I = sched_invD [OF inv]
  have tq: "t \<notin> set q" using I(6) t(2) by blast
  have "fifo (task_nexts ?s) (sc_ready_head s) (sc_ready_tail s) q =
      fifo (task_nexts s) (sc_ready_head s) (sc_ready_tail s) q"
    by (rule fifo_frame) (use tq in \<open>auto simp: task_nexts_def\<close>)
  then have h: "ready.holds ?s q" using I(4) by (simp add: ready.holds_def)
  have nn: "task_nexts ?s t \<noteq> None" by (simp add: task_nexts_def)
  obtain s' where s': "enqueue_ready ?s t = Some s'" "ready.holds s' (q @ [t])"
    "strip_queue s' = strip_queue ?s"
    by (rule ready.enq_back [OF h tq t(1) nn]) blast
  note F = strip_queue_fields [OF s'(3)]
  let ?s' = "s'\<lparr>sc_active_count := sc_active_count s' + 1\<rparr>"
  have st: "sched_stacks ?s' = (sched_stacks s)(t \<mapsto> mem_base (tk_stack tk))"
  proof
    fix p show "sched_stacks ?s' p = ((sched_stacks s)(t \<mapsto> mem_base (tk_stack tk))) p"
      using arg_cong [OF F(9), of "map_option mem_base" p]
      by (simp add: sched_stacks_def option.map_comp comp_def)
  qed
  have fx: "fixed_stack_at (redzone b) sa (tk_stack x)" if x: "sc_tasks s' p = Some x" for p x
  proof -
    obtain y where "sc_tasks ?s p = Some y" "tk_stack y = tk_stack x"
      using F(9) [of p] x by (cases "sc_tasks ?s p") auto
    then show ?thesis
      using I(11) [of p y] tk fixed_stack_at_conf [OF a(7)] by (auto split: if_splits)
  qed
  have domS: "dom (sc_tasks ?s) = insert t (dom (sc_tasks s))" by simp
  have tcz: "t \<noteq> sc_current s" "t \<noteq> sc_zombie s" using t I(6) by auto
  have tn: "sched_stacks s t = None" using t(2) by (simp add: sched_stacks_def domIff)
  have notran: "mem_base (tk_stack tk) \<notin> ran (sched_stacks s)" using I(12) a(5) by simp
  have inj: "inj_on ((sched_stacks s)(t \<mapsto> mem_base (tk_stack tk))) (insert t (dom (sc_tasks s)))"
  proof (rule inj_onI)
    fix x y assume xy: "x \<in> insert t (dom (sc_tasks s))" "y \<in> insert t (dom (sc_tasks s))"
      "((sched_stacks s)(t \<mapsto> mem_base (tk_stack tk))) x = ((sched_stacks s)(t \<mapsto> mem_base (tk_stack tk))) y"
    have "sched_stacks s z \<noteq> Some (mem_base (tk_stack tk))" for z
      using notran by (auto simp: ran_def)
    then show "x = y" using xy I(13) by (auto simp: inj_on_def split: if_splits)
  qed
  have ran: "ran ((sched_stacks s)(t \<mapsto> mem_base (tk_stack tk))) = ms_live sa"
    using ran_add [of "sched_stacks s" t] tn I(12) a(6) by simp
  have "sched_inv b al fr Z M' ?s' (q @ [t])"
    unfolding sched_inv_def
  proof (intro conjI)
    show "ms_inv al fr M' (sc_task_alloc ?s')" "ms_inv al fr M' (sc_stack_alloc ?s')"
      "ms_footprint (ms_nodes (sc_task_alloc ?s')) \<inter> ms_footprint (ms_nodes (sc_stack_alloc ?s')) = {}"
      using a(1-3) F(1,2) by simp_all
    show "fifo (task_nexts ?s') (sc_ready_head ?s') (sc_ready_tail ?s') (q @ [t])"
    proof -
      have "task_nexts ?s' = task_nexts s'" by (simp add: task_nexts_def fun_eq_iff)
      then show ?thesis using s'(2) by (simp add: ready.holds_def)
    qed
    show "dom (sc_tasks ?s') = ms_live (sc_task_alloc ?s')" using F(1,8) domS I(5) a(4) by simp
    show "dom (sc_tasks ?s') = set (q @ [t]) \<union> ({sc_current ?s'} - {0}) \<union> ({sc_zombie ?s'} - {0})"
      using F(3,4,8) domS I(6) by auto
    show "sc_current ?s' \<notin> set (q @ [t])" "sc_zombie ?s' \<notin> set (q @ [t])"
      using F(3,4) I(7,8) tcz by auto
    show "sc_current ?s' = 0 \<or> sc_zombie ?s' = 0" using F(3,4) I(9) by simp
    show "sc_active_count ?s' = of_nat (length (q @ [t]) + (if sc_current ?s' = 0 then 0 else 1))"
      using F(3,7) I(10) by simp
    show "\<forall>p x. sc_tasks ?s' p = Some x \<longrightarrow> fixed_stack_at (redzone b) (sc_stack_alloc ?s') (tk_stack x)"
      using fx F(2) by simp
    show "ran (sched_stacks ?s') = ms_live (sc_stack_alloc ?s')" unfolding st using ran F(2) by simp
    show "inj_on (sched_stacks ?s') (dom (sc_tasks ?s'))" unfolding st using inj F(8) by simp
    show "256 \<le> unat (sc_stack_size ?s')"
      "unat (redzone b) + unat (sc_stack_size ?s') \<le> unat (ms_block_size (sc_stack_alloc ?s'))"
      using I(14,15) F(2,5) same_conf_bsz [OF a(7)] by simp_all
    show "both_rest M' (sc_task_alloc ?s') (sc_stack_alloc ?s') = Z" using a(8) F(1,2) by simp
  qed
  then show thesis using that [OF s'(1)] F(3,4) by simp
qed

context backing_allocator
begin

text \<open>\<open>cfiber_scheduler_spawn\<close>: refused with the tasks as they were, or one new task at the back.\<close>

lemma spawn_spec:
  assumes ok: "ok w" and inv: "sched_inv b al fr Z (R w) s q"
  obtains
    (refused) s' w' where "cfiber_scheduler_spawn b s f x m w = Some (False, s', m, w')" "ok w'"
      "sched_inv b al fr Z (R w') s' q" "sc_current s' = sc_current s" "sc_zombie s' = sc_zombie s"
  | (spawned) t s' m' w' where "cfiber_scheduler_spawn b s f x m w = Some (True, s', m', w')" "ok w'"
      "sched_inv b al fr Z (R w') s' (q @ [t])" "t \<notin> dom (sc_tasks s)" "t \<noteq> 0"
      "sc_current s' = sc_current s" "sc_zombie s' = sc_zombie s"
proof -
  note I = sched_invD [OF inv]
  let ?nd = "ndebug b"
  obtain t ta w1 where A: "cfiber_multislab_alloc ?nd (sc_task_alloc s) w = Some (t, ta, w1)" "ok w1"
    "ms_inv al fr (R w1) ta" "same_conf (sc_task_alloc s) ta" "ms_rest (R w1) ta = ms_rest (R w) (sc_task_alloc s)"
    "t = 0 \<longrightarrow> ms_live ta = ms_live (sc_task_alloc s) \<and> R w1 = R w"
    "t \<noteq> 0 \<longrightarrow> t \<notin> ms_live (sc_task_alloc s) \<and> ms_live ta = insert t (ms_live (sc_task_alloc s))"
    by (rule alloc_spec [OF ok I(1), of ?nd]) blast
  note O1 = ms_other_kept [OF I(2,3) A(5)]
  have Z1: "both_rest (R w1) ta (sc_stack_alloc s) = Z" using both_rest_kept(1) [OF A(5)] I(16) by simp
  show thesis
  proof (cases "t = 0")
    case True
    have "sched_inv b al fr Z (R w1) (s\<lparr>sc_task_alloc := ta, sc_stack_alloc := sc_stack_alloc s\<rparr>) q"
      by (rule sched_inv_allocs [OF inv A(3) O1]) (use A(6) True Z1 in simp_all)
    then show thesis
      using refused [of "s\<lparr>sc_task_alloc := ta\<rparr>" w1] A(1,2) True by (simp add: cfiber_scheduler_spawn_def)
  next
    case False
    note live = mp [OF A(7) False]
    have rz: "unat (redzone b) \<le> unat (ms_block_size (sc_stack_alloc s))" using I(15) by simp
    from A(2) O1(1) rz show thesis
    proof (cases rule: fixed_alloc_spec [where nd = ?nd and san = "sanitizer b" and stack = stack_null and m = m])
      case (none sa w2)
      have disj: "ms_footprint (ms_nodes (sc_stack_alloc s)) \<inter> ms_footprint (ms_nodes ta) = {}"
        using O1(2) by blast
      note O2 = ms_other_kept [OF A(3) disj none(6)]
      have "t \<in> ms_live ta" using live by simp
      then obtain ta' w3 where B: "cfiber_multislab_release ?nd ta t w2 = Some (ta', w3)" "ok w3"
        "ms_inv al fr (R w3) ta'" "same_conf ta ta'" "ms_live ta' = ms_live ta - {t}"
        "ms_rest (R w3) ta' = ms_rest (R w2) ta"
        by (rule release_spec [OF none(2) O2(1), of _ ?nd]) blast
      have "ms_footprint (ms_nodes ta) \<inter> ms_footprint (ms_nodes sa) = {}" using O2(2) by blast
      note O3 = ms_other_kept [OF none(3) this B(6)]
      have "sched_inv b al fr Z (R w3) (s\<lparr>sc_task_alloc := ta', sc_stack_alloc := sa\<rparr>) q"
        by (rule sched_inv_allocs [OF inv B(3) O3]) (use B(5) live none(4,5) Z1 both_rest_kept(2) [OF none(6)] both_rest_kept(1) [OF B(6)] in auto)
      then show thesis
        using refused [of "s\<lparr>sc_task_alloc := ta', sc_stack_alloc := sa\<rparr>" w3] A(1) B(1,2) none(1) False
        by (simp add: cfiber_scheduler_spawn_def task_uninit_def Let_def)
    next
      case (stack st sa m' w2)
      have disj: "ms_footprint (ms_nodes (sc_stack_alloc s)) \<inter> ms_footprint (ms_nodes ta) = {}"
        using O1(2) by blast
      note O2 = ms_other_kept [OF A(3) disj stack(8)]
      have disj': "ms_footprint (ms_nodes ta) \<inter> ms_footprint (ms_nodes sa) = {}" using O2(2) by blast
      let ?f = "(tk_fiber task_uninit)\<lparr>fb_stack := usable_base st, fb_stack_size := sc_stack_size s\<rparr>"
      have "fiber_stack_ok ?f"
        using stack(5) I(14,15) by (auto simp: fiber_stack_ok_def fixed_stack_at_def unat_eq_0 [symmetric]
            simp del: unat_eq_0)
      from cfiber_init_spec [OF this, of ?nd "prologue_addr b" "creator b" f x "bytes m'"]
      obtain f' bs where init: "cfiber_init ?nd (prologue_addr b) (creator b) ?f f x (bytes m') = Some (f', bs)"
        by metis
      let ?tk = "task_uninit\<lparr>tk_stack := st, tk_fiber := f', tk_next := 0\<rparr>"
      have tk: "fixed_stack_at (redzone b) (sc_stack_alloc s) (tk_stack ?tk)" using stack(5) by simp
      have tn: "t \<notin> dom (sc_tasks s)" using I(5) live by simp
      obtain s' where s': "enqueue_ready (s\<lparr>sc_task_alloc := ta, sc_stack_alloc := sa,
            sc_tasks := (sc_tasks s)(t \<mapsto> ?tk)\<rparr>) t = Some s'"
        "sched_inv b al fr Z (R w2) (s'\<lparr>sc_active_count := sc_active_count s' + 1\<rparr>) (q @ [t])"
        "sc_current s' = sc_current s" "sc_zombie s' = sc_zombie s"
        by (rule sched_inv_add [OF inv False tn tk O2(1) stack(3) disj']) (use live stack Z1 both_rest_kept(2) [OF stack(8)] in auto)
      have run: "cfiber_scheduler_spawn b s f x m w =
          Some (True, s'\<lparr>sc_active_count := sc_active_count s' + 1\<rparr>, m'\<lparr>bytes := bs\<rparr>, w2)"
        using A(1) False stack(1) init s'(1)
        by (simp add: cfiber_scheduler_spawn_def task_uninit_def Let_def)
      show thesis by (rule spawned [OF run stack(2) s'(2) tn False]) (use s'(3,4) in simp_all)
    qed
  qed
qed

end

section \<open>The scheduler as a round robin\<close>

text \<open>Who runs, who waits in which order, and the fiber that returned but is not yet released.\<close>

type_synonym robin = "u64 \<times> u64 list \<times> u64"

text \<open>The moves: \<open>None\<close> is the loop's, \<open>Some a\<close> the running fiber's call \<open>a\<close>.\<close>

inductive robin_step :: "act option \<Rightarrow> robin \<Rightarrow> robin \<Rightarrow> bool" where
  dispatch: "t \<noteq> 0 \<Longrightarrow> robin_step None (0, t # q, z) (t, q, 0)"
| yield_alone: "c \<noteq> 0 \<Longrightarrow> robin_step (Some Act_yield) (c, [], 0) (c, [], 0)"
| yield_behind: "c \<noteq> 0 \<Longrightarrow> q \<noteq> [] \<Longrightarrow> robin_step (Some Act_yield) (c, q, 0) (0, q @ [c], 0)"
| spawned: "c \<noteq> 0 \<Longrightarrow> t \<noteq> 0 \<Longrightarrow> t \<notin> insert c (set q) \<Longrightarrow>
    robin_step (Some (Act_spawn f x)) (c, q, 0) (c, q @ [t], 0)"
| spawn_refused: "c \<noteq> 0 \<Longrightarrow> robin_step (Some (Act_spawn f x)) (c, q, 0) (c, q, 0)"
| returned: "c \<noteq> 0 \<Longrightarrow> robin_step (Some Act_return) (c, q, 0) (0, q, c)"

inductive_cases robin_stepE: "robin_step a r r'"

definition robin_of :: "'w cfiber_scheduler \<Rightarrow> u64 list \<Rightarrow> robin" where
  "robin_of s q = (sc_current s, q, sc_zombie s)"

text \<open>What the running fiber does next in a state, if one runs.\<close>

definition next_act :: "'u behaviour \<Rightarrow> ('w, 'u) sched_state \<Rightarrow> act option" where
  "next_act beh st = (case st of (s, m, w, u) \<Rightarrow>
     if sc_current s = 0 then None else Some (fst (beh (sc_current s) m u)))"

text \<open>The zombie waits with a stack whose canary is gone.\<close>

definition zombie_overflowed :: "build \<Rightarrow> 'w cfiber_scheduler \<Rightarrow> memory \<Rightarrow> bool" where
  "zombie_overflowed b s m \<longleftrightarrow> (\<exists>tk. sc_zombie s \<noteq> 0 \<and> sc_tasks s (sc_zombie s) = Some tk \<and>
     cfiber_stack_debug_overflowed (sanitizer b) (tk_stack tk) (bytes m))"

lemma no_sanitizer_no_overflow: "\<not> sanitizer b \<Longrightarrow> \<not> zombie_overflowed b s m"
  by (simp add: zombie_overflowed_def cfiber_stack_debug_overflowed_def)

context backing_allocator
begin

lemma free_zombie_spec:
  assumes ok: "ok w" and inv: "sched_inv b al fr Z (R w) s q"
  obtains (overflow) "zombie_overflowed b s m" "free_zombie b s m w = None"
  | (freed) s' m' w' where "\<not> zombie_overflowed b s m" "free_zombie b s m w = Some (s', m', w')" "ok w'"
      "sched_inv b al fr Z (R w') s' q" "sc_zombie s' = 0"
      "sc_current s' = sc_current s" "sc_active_count s' = sc_active_count s"
proof (cases "sc_zombie s = 0")
  case True
  then show thesis
    using freed [of s m w] ok inv by (simp add: zombie_overflowed_def free_zombie_def)
next
  case False
  obtain tk where T: "sc_tasks s (sc_zombie s) = Some tk"
    "cfiber_stack_debug_overflowed (sanitizer b) (tk_stack tk) (bytes m) \<longrightarrow> free_zombie b s m w = None"
    "\<not> cfiber_stack_debug_overflowed (sanitizer b) (tk_stack tk) (bytes m) \<longrightarrow>
       (\<exists>s' m' w'. free_zombie b s m w = Some (s', m', w') \<and> ok w' \<and> sched_inv b al fr Z (R w') s' q \<and>
         bytes m' = bytes m \<and> sc_zombie s' = 0 \<and> sc_current s' = sc_current s \<and>
         sc_active_count s' = sc_active_count s)"
    by (rule task_free_spec [OF ok inv False, of m]) blast
  have "zombie_overflowed b s m \<longleftrightarrow>
      cfiber_stack_debug_overflowed (sanitizer b) (tk_stack tk) (bytes m)"
    using T(1) False by (simp add: zombie_overflowed_def)
  then show thesis using T(2,3) overflow freed by blast
qed

text \<open>The loop's move: the zombie goes, then the front of the queue runs.\<close>

lemma dispatch_spec:
  assumes ok: "ok w" and inv: "sched_inv b al fr Z (R w) s q"
    and c: "sc_current s = 0" and q: "q = t # r"
  obtains (overflow) "zombie_overflowed b s m" "sched_dispatch b s m w = None"
  | (ran) s' m' w' where "\<not> zombie_overflowed b s m" "sched_dispatch b s m w = Some (s', m', w')" "ok w'"
      "sched_inv b al fr Z (R w') s' r" "robin_of s' r = (t, r, 0)" "t \<noteq> 0"
proof (cases rule: free_zombie_spec [OF ok inv, of m])
  case overflow': 1
  then show thesis using overflow by (simp add: sched_dispatch_def)
next
  case (2 s1 m1 w1)
  note I = sched_invD [OF 2(4)]
  from I(4) have h: "ready.holds s1 (t # r)" using q by simp
  obtain s2 where s2: "dequeue_ready s1 = Some (t, s2)" "t \<noteq> 0" "ready.holds s2 r"
    "strip_queue s2 = strip_queue s1"
    by (rule ready.deq_front [OF h]) blast
  note F = strip_queue_fields [OF s2(4)]
  have tr: "t \<notin> set r" using h by (simp add: ready.holds_def fifo_def)
  have "sched_inv b al fr Z (R w1) (s2\<lparr>sc_current := t\<rparr>) r"
  proof (rule sched_inv_move [OF 2(4), where c = t and z = 0 and a = "sc_active_count s1"])
    show "strip_queue (s2\<lparr>sc_current := t\<rparr>) =
        strip_queue (s1\<lparr>sc_current := t, sc_zombie := 0, sc_active_count := sc_active_count s1\<rparr>)"
      using s2(4) 2(5) by (cases s1; cases s2) (simp add: strip_queue_def)
    have "task_nexts (s2\<lparr>sc_current := t\<rparr>) = task_nexts s2" by (simp add: task_nexts_def fun_eq_iff)
    then show "ready.holds (s2\<lparr>sc_current := t\<rparr>) r" using s2(3) by (simp add: ready.holds_def)
    show "set r \<union> ({t} - {0}) \<union> ({0} - {0}) = dom (sc_tasks s1)"
      using I(6) 2(5,6) c q s2(2) by auto
    show "0 \<notin> set r" using I(8) 2(5) q by simp
    show "sc_active_count s1 = of_nat (length r + (if t = 0 then 0 else 1))"
      using I(10) 2(6) c q s2(2) by simp
  qed (use tr in auto)
  then show thesis
    using ran [of "s2\<lparr>sc_current := t\<rparr>" m1 w1] 2 s2(1,2) F(4)
    by (simp add: sched_dispatch_def robin_of_def Let_def)
qed

lemma yield_spec:
  assumes inv: "sched_inv b al fr Z M s q" and c: "sc_current s \<noteq> 0" and th: "s_current_sched th \<noteq> 0"
  obtains left s' q' where "cfiber_yield b th s = Some (left, s')" "sched_inv b al fr Z M s' q'"
    "robin_step (Some Act_yield) (robin_of s q) (robin_of s' q')" "left \<longleftrightarrow> q \<noteq> []"
    "sc_current s' = 0 \<longleftrightarrow> q \<noteq> []" "length q' + (if sc_current s' = 0 then 0 else 1) = length q + 1"
proof -
  note I = sched_invD [OF inv]
  have z: "sc_zombie s = 0" using I(9) c by simp
  have f: "fifo (task_nexts s) (sc_ready_head s) (sc_ready_tail s) q" using I(4) by (simp add: ready.holds_def)
  show thesis
  proof (cases q)
    case Nil
    then have "sc_ready_head s = 0" using f by (simp add: fifo_def)
    moreover have "robin_step (Some Act_yield) (robin_of s []) (robin_of s [])"
      using c z by (simp add: robin_of_def robin_step.yield_alone)
    ultimately show thesis
      using that [of False s "[]"] Nil c th inv by (simp add: cfiber_yield_def ASSERT_def)
  next
    case (Cons t r)
    then have hd: "sc_ready_head s \<noteq> 0" using f fifo_head [of "task_nexts s" _ _ t r] fifo_in_dom [OF f] by auto
    have cd: "sc_current s \<in> dom (sc_tasks s)" using I(6) c by blast
    then have nn: "task_nexts s (sc_current s) \<noteq> None" by auto
    obtain s1 where s1: "enqueue_ready s (sc_current s) = Some s1" "ready.holds s1 (q @ [sc_current s])"
      "strip_queue s1 = strip_queue s"
      by (rule ready.enq_back [OF I(4,7) c nn]) blast
    note F = strip_queue_fields [OF s1(3)]
    let ?q = "q @ [sc_current s]" and ?s = "s1\<lparr>sc_current := 0\<rparr>"
    have "sched_inv b al fr Z M ?s ?q"
    proof (rule sched_inv_move [OF inv, where c = 0 and z = 0 and a = "sc_active_count s"])
      show "strip_queue ?s =
          strip_queue (s\<lparr>sc_current := 0, sc_zombie := 0, sc_active_count := sc_active_count s\<rparr>)"
        using s1(3) z by (cases s; cases s1) (simp add: strip_queue_def)
      have "task_nexts ?s = task_nexts s1" by (simp add: task_nexts_def fun_eq_iff)
      then show "ready.holds ?s ?q" using s1(2) by (simp add: ready.holds_def)
      show "set ?q \<union> ({0} - {0}) \<union> ({0} - {0}) = dom (sc_tasks s)" using I(6) z c by auto
      show "sc_active_count s = of_nat (length ?q + (if (0 :: u64) = 0 then 0 else 1))" using I(10) c by simp
      show "0 \<notin> set ?q" using I(8) z c by simp
      then show "0 \<notin> set ?q" .
    qed simp
    moreover have "robin_step (Some Act_yield) (robin_of s q) (robin_of ?s ?q)"
      using c z Cons F(4) robin_step.yield_behind [OF c, of q] by (simp add: robin_of_def)
    ultimately show thesis
      using that [of True ?s ?q] s1(1) Cons c th hd by (simp add: cfiber_yield_def ASSERT_def)
  qed
qed

lemma return_spec:
  assumes inv: "sched_inv b al fr Z M s q" and c: "sc_current s \<noteq> 0"
  shows "sched_inv b al fr Z M (builtin_return_hook s) q"
    "robin_step (Some Act_return) (robin_of s q) (robin_of (builtin_return_hook s) q)"
proof -
  note I = sched_invD [OF inv]
  have z: "sc_zombie s = 0" using I(9) c by simp
  show "sched_inv b al fr Z M (builtin_return_hook s) q"
  proof (rule sched_inv_move [OF inv, where c = 0 and z = "sc_current s" and a = "sc_active_count s - 1"])
    have "task_nexts (builtin_return_hook s) = task_nexts s"
      by (simp add: task_nexts_def builtin_return_hook_def fun_eq_iff Let_def)
    then show "ready.holds (builtin_return_hook s) q"
      using I(4) by (simp add: ready.holds_def builtin_return_hook_def Let_def)
    show "set q \<union> ({0} - {0}) \<union> ({sc_current s} - {0}) = dom (sc_tasks s)" using I(6) z by auto
    show "0 \<notin> set q" using I(8) z by simp
    show "strip_queue (builtin_return_hook s) = strip_queue (s\<lparr>sc_current := 0,
        sc_zombie := sc_current s, sc_active_count := sc_active_count s - 1\<rparr>)"
      by (cases s) (simp add: builtin_return_hook_def strip_queue_def Let_def)
  qed (use I(7,10) c in \<open>simp_all add: builtin_return_hook_def Let_def\<close>)
  show "robin_step (Some Act_return) (robin_of s q) (robin_of (builtin_return_hook s) q)"
    using c z by (simp add: robin_of_def builtin_return_hook_def Let_def robin_step.returned)
qed

end

text \<open>How many fibers are alive and not waiting for release.\<close>

definition load :: "robin \<Rightarrow> nat" where
  "load r = (case r of (c, q, z) \<Rightarrow> length q + (if c = 0 then 0 else 1))"

lemma robin_load:
  "robin_step None r r' \<Longrightarrow> load r' = load r \<and> fst r' \<noteq> 0"
  "robin_step (Some Act_yield) r r' \<Longrightarrow> load r' = load r"
  "robin_step (Some (Act_spawn f x)) r r' \<Longrightarrow> load r' \<le> load r + 1"
  "robin_step (Some Act_return) r r' \<Longrightarrow> load r' + 1 = load r"
  by (auto elim!: robin_stepE simp: load_def)

context backing_allocator
begin

lemma fiber_act_spec:
  assumes ok: "ok w" and inv: "sched_inv b al fr Z (R w) s q" and c: "sc_current s \<noteq> 0"
    and th: "s_current_sched th \<noteq> 0" and beh: "beh (sc_current s) m u = (a, m1, u')"
  obtains s' m' w' q' where "fiber_act b th beh (s, m, w, u) = Some (s', m', w', u')" "ok w'"
    "sched_inv b al fr Z (R w') s' q'" "robin_step (Some a) (robin_of s q) (robin_of s' q')"
proof (cases a)
  case Act_yield
  obtain left s' q' where Y: "cfiber_yield b th s = Some (left, s')" "sched_inv b al fr Z (R w) s' q'"
    "robin_step (Some Act_yield) (robin_of s q) (robin_of s' q')"
    by (rule yield_spec [OF inv c th]) blast
  show thesis by (rule that [of s' m1 w q']) (use Y ok beh Act_yield in \<open>simp_all add: fiber_act_def\<close>)
next
  case (Act_spawn f x)
  note I = sched_invD [OF inv]
  have z: "sc_zombie s = 0" using I(9) c by simp
  from ok inv show thesis
  proof (cases rule: spawn_spec [where f = f and x = x and m = m1])
    case (refused s' w')
    show thesis
    proof (rule that [of s' m1 w' q])
      show "robin_step (Some a) (robin_of s q) (robin_of s' q)"
        using refused(4,5) c z Act_spawn by (simp add: robin_of_def robin_step.spawn_refused)
    qed (use refused beh Act_spawn th in \<open>simp_all add: fiber_act_def cfiber_spawn_def ASSERT_def\<close>)
  next
    case (spawned t s' m' w')
    show thesis
    proof (rule that [of s' m' w' "q @ [t]"])
      have "t \<notin> insert (sc_current s) (set q)" using spawned(4) I(6) c by auto
      then show "robin_step (Some a) (robin_of s q) (robin_of s' (q @ [t]))"
        using spawned(5-7) c z Act_spawn by (simp add: robin_of_def robin_step.spawned)
    qed (use spawned beh Act_spawn th in \<open>simp_all add: fiber_act_def cfiber_spawn_def ASSERT_def\<close>)
  qed
next
  case Act_return
  show thesis
    by (rule that [of "builtin_return_hook s" m1 w q])
      (use return_spec [OF inv c] ok beh Act_return in \<open>simp_all add: fiber_act_def\<close>)
qed

lemma not_done_queue:
  assumes "sched_inv b al fr Z M s q" "\<not> sched_done (s, m, w, u)" "sc_current s = 0"
  shows "q \<noteq> []"
  using sched_invD(10) [OF assms(1)] assms(2,3) by (auto simp: sched_done_def)

lemma step_spec:
  assumes ok: "ok w" and inv: "sched_inv b al fr Z (R w) s q" and th: "s_current_sched th \<noteq> 0"
    and nd: "\<not> sched_done (s, m, w, u)"
  obtains (overflow) "zombie_overflowed b s m" "sched_step b th beh (s, m, w, u) = None"
  | (moved) s' m' w' u' q' where "\<not> zombie_overflowed b s m"
      "sched_step b th beh (s, m, w, u) = Some (s', m', w', u')" "ok w'" "sched_inv b al fr Z (R w') s' q'"
      "robin_step (next_act beh (s, m, w, u)) (robin_of s q) (robin_of s' q')"
      "sc_current s = 0 \<Longrightarrow> u' = u \<and> sc_current s' \<noteq> 0"
      "sc_current s \<noteq> 0 \<Longrightarrow> u' = snd (snd (beh (sc_current s) m u))"
proof (cases "sc_current s = 0")
  case True
  have "q \<noteq> []" by (rule not_done_queue [OF inv nd True])
  then obtain t r where q: "q = t # r" by (cases q) auto
  show thesis
  proof (cases rule: dispatch_spec [OF ok inv True q, of m])
    case 1
    then show thesis using overflow True by (simp add: sched_step_def)
  next
    case (2 s' m' w')
    have "robin_step (next_act beh (s, m, w, u)) (robin_of s q) (robin_of s' r)"
      using 2(5,6) True q robin_step.dispatch [of t r "sc_zombie s"]
      by (simp add: next_act_def robin_of_def)
    then show thesis
      using moved [of s' m' w' u r] 2 True by (simp add: sched_step_def robin_of_def)
  qed
next
  case False
  obtain a m1 u' where beh: "beh (sc_current s) m u = (a, m1, u')" by (metis prod_cases3)
  obtain s' m' w' q' where A: "fiber_act b th beh (s, m, w, u) = Some (s', m', w', u')" "ok w'"
    "sched_inv b al fr Z (R w') s' q'" "robin_step (Some a) (robin_of s q) (robin_of s' q')"
    by (rule fiber_act_spec [where beh = beh and u = u and m = m, OF ok inv False th beh])
  have "sc_zombie s = 0" using sched_invD(9) [OF inv] False by simp
  then have nz: "\<not> zombie_overflowed b s m" by (simp add: zombie_overflowed_def)
  have step: "sched_step b th beh (s, m, w, u) = Some (s', m', w', u')"
    using A(1) False by (simp add: sched_step_def)
  have "next_act beh (s, m, w, u) = Some a" using False beh by (simp add: next_act_def)
  with A(4) have r: "robin_step (next_act beh (s, m, w, u)) (robin_of s q) (robin_of s' q')" by simp
  show thesis by (rule moved [OF nz step A(2,3) r]) (use False beh in simp_all)
qed

end

section \<open>The run to its end\<close>

text \<open>Each call uses up some of \<open>rank\<close>, save a fiber's last.\<close>

definition ranked :: "('u \<Rightarrow> nat) \<Rightarrow> 'u behaviour \<Rightarrow> bool" where
  "ranked rank beh \<longleftrightarrow> (\<forall>t m u.
     rank (snd (snd (beh t m u))) + (if fst (beh t m u) = Act_return then 0 else 1) \<le> rank u)"

text \<open>The moves left, at most.\<close>

definition fuel :: "nat \<Rightarrow> robin \<Rightarrow> nat" where
  "fuel rk r = 3 * rk + 2 * load r + (if fst r = 0 then 1 else 0)"

lemma step_uses_fuel:
  assumes rk: "ranked rank beh" and r: "robin_step (next_act beh (s, m, w, u)) (robin_of s q) (robin_of s' q')"
    and u: "sc_current s = 0 \<Longrightarrow> u' = u" "sc_current s \<noteq> 0 \<Longrightarrow> u' = snd (snd (beh (sc_current s) m u))"
  shows "fuel (rank u') (robin_of s' q') < fuel (rank u) (robin_of s q)"
    "load (robin_of s' q') + rank u' \<le> load (robin_of s q) + rank u"
proof -
  have c: "fst (robin_of s q) = sc_current s" by (simp add: robin_of_def)
  have "fuel (rank u') (robin_of s' q') < fuel (rank u) (robin_of s q) \<and>
      load (robin_of s' q') + rank u' \<le> load (robin_of s q) + rank u"
  proof (cases "sc_current s = 0")
    case True
    then have "robin_step None (robin_of s q) (robin_of s' q')" using r by (simp add: next_act_def)
    from robin_load(1) [OF this] show ?thesis using True u(1) c by (simp add: fuel_def)
  next
    case False
    let ?a = "fst (beh (sc_current s) m u)"
    have r': "robin_step (Some ?a) (robin_of s q) (robin_of s' q')" using r False by (simp add: next_act_def)
    have rank: "rank u' + (if ?a = Act_return then 0 else 1) \<le> rank u"
      using rk u(2) [OF False] unfolding ranked_def by metis
    show ?thesis
    proof (cases ?a)
      case Act_yield
      then have "load (robin_of s' q') = load (robin_of s q)" using r' robin_load(2) by metis
      then show ?thesis using rank Act_yield False c by (simp add: fuel_def)
    next
      case (Act_spawn f x)
      then have "load (robin_of s' q') \<le> load (robin_of s q) + 1" using r' robin_load(3) by metis
      moreover have "fst (robin_of s' q') = sc_current s"
        using r' Act_spawn c by (auto elim!: robin_stepE simp: robin_of_def)
      ultimately show ?thesis using rank Act_spawn False c by (simp add: fuel_def)
    next
      case Act_return
      then have "load (robin_of s' q') + 1 = load (robin_of s q)" using r' robin_load(4) by metis
      then show ?thesis using rank Act_return False c by (simp add: fuel_def)
    qed
  qed
  then show "fuel (rank u') (robin_of s' q') < fuel (rank u) (robin_of s q)"
    "load (robin_of s' q') + rank u' \<le> load (robin_of s q) + rank u" by simp_all
qed

lemma done_idle:
  assumes inv: "sched_inv b al fr Z M s q" and "sched_done (s, m, w, u)" "length q < 2 ^ 32"
  shows "q = []" "sc_current s = 0"
proof -
  show c: "sc_current s = 0" using assms(2) by (simp add: sched_done_def)
  then have "(of_nat (length q) :: u32) = 0"
    using sched_invD(10) [OF inv] assms(2) by (simp add: sched_done_def word_gt_0)
  then have "unat (of_nat (length q) :: u32) = 0" by simp
  then show "q = []" using assms(3) by (simp add: unat_of_nat)
qed

lemma idle_empty:
  assumes "sched_inv b al fr Z M s []" "sc_current s = 0" "sc_zombie s = 0"
  shows "dom (sc_tasks s) = {}" "ms_live (sc_task_alloc s) = {}" "ms_live (sc_stack_alloc s) = {}"
proof -
  note I = sched_invD [OF assms(1)]
  show d: "dom (sc_tasks s) = {}" using I(6) assms(2,3) by simp
  then show "ms_live (sc_task_alloc s) = {}" using I(5) by simp
  from d have "sched_stacks s = Map.empty" by (auto simp: sched_stacks_def fun_eq_iff)
  then show "ms_live (sc_stack_alloc s) = {}" using I(12) by simp
qed

context backing_allocator
begin

lemma loop_spec:
  assumes "ok w" "sched_inv b al fr Z (R w) s q" "s_current_sched th \<noteq> 0" "ranked rank beh"
    "load (robin_of s q) + rank u < 2 ^ 32" "fuel (rank u) (robin_of s q) \<le> n"
  shows "(sanitizer b \<and> sched_loop b th beh n (s, m, w, u) = Trapped) \<or>
    (\<exists>s' m' w' u'. sched_loop b th beh n (s, m, w, u) = Finished (s', m', w', u') \<and> ok w' \<and>
       sched_inv b al fr Z (R w') s' [] \<and> sc_current s' = 0 \<and> sc_zombie s' = 0)"
  using assms
proof (induction n arbitrary: s m w u q)
  have finish: "(sanitizer b \<and> sched_loop b th beh n (s, m, w, u) = Trapped) \<or>
    (\<exists>s' m' w' u'. sched_loop b th beh n (s, m, w, u) = Finished (s', m', w', u') \<and> ok w' \<and>
       sched_inv b al fr Z (R w') s' [] \<and> sc_current s' = 0 \<and> sc_zombie s' = 0)"
    if ok: "ok w" and inv: "sched_inv b al fr Z (R w) s q" and d: "sched_done (s, m, w, u)"
      and l: "load (robin_of s q) + rank u < 2 ^ 32" for n s m w u q
  proof -
    have "length q < 2 ^ 32" using l by (simp add: load_def robin_of_def split: if_splits)
    note idle = done_idle [OF inv d this]
    show ?thesis
    proof (cases rule: free_zombie_spec [OF ok inv, of m])
      case 1
      then have "sanitizer b" using no_sanitizer_no_overflow by blast
      then show ?thesis using 1 d by (simp add: sched_loop.simps [of _ _ _ n])
    next
      case (2 s' m' w')
      then show ?thesis using d idle by (simp add: sched_loop.simps [of _ _ _ n])
    qed
  qed
  {
    case 0
    have "load (robin_of s q) = 0" "sc_current s \<noteq> 0"
      using 0(6) by (auto simp: fuel_def robin_of_def split: if_splits)
    then show ?case by (simp add: load_def robin_of_def)
  next
    case (Suc n)
    show ?case
    proof (cases "sched_done (s, m, w, u)")
      case True
      then show ?thesis using finish Suc.prems by blast
    next
      case False
      show ?thesis
      proof (cases rule: step_spec [where beh = beh, OF Suc.prems(1-3) False])
        case 1
        then have "sanitizer b" using no_sanitizer_no_overflow by blast
        then show ?thesis using 1 False by (simp add: sched_loop.simps [of _ _ _ "Suc n"])
      next
        case (2 s' m' w' u' q')
        have U: "fuel (rank u') (robin_of s' q') < fuel (rank u) (robin_of s q)"
          "load (robin_of s' q') + rank u' \<le> load (robin_of s q) + rank u"
          by (rule step_uses_fuel [OF Suc.prems(4) 2(5)]; use 2(6,7) in blast)+
        have "sched_loop b th beh (Suc n) (s, m, w, u) = sched_loop b th beh n (s', m', w', u')"
          using 2(2) False by (simp add: sched_loop.simps [of _ _ _ "Suc n"])
        moreover note Suc.IH [OF 2(3,4) Suc.prems(3,4), of u' m']
        ultimately show ?thesis using U Suc.prems(5,6) by simp
      qed
    qed
  }
qed

end

section \<open>The scheduler's life\<close>

text \<open>The sizes \<open>cfiber_scheduler_init_ext\<close> asks its multislabs for.\<close>

definition config_per_slab :: "cfiber_scheduler_config \<Rightarrow> u32" where
  "config_per_slab c = (if cf_fibers_per_slab c \<noteq> 0 then cf_fibers_per_slab c else DEFAULT_PER_SLAB)"

definition config_stack_block :: "build \<Rightarrow> cfiber_scheduler_config \<Rightarrow> u64" where
  "config_stack_block b c = align_up (cf_stack_size c + redzone b) CFIBER_CACHE_LINE_SIZE"

definition config_ok :: "build \<Rightarrow> cfiber_scheduler_config \<Rightarrow> bool" where
  "config_ok b c \<longleftrightarrow> 256 \<le> cf_stack_size c \<and> init_accepts 128 (config_per_slab c) \<and>
     init_accepts (config_stack_block b c) (config_per_slab c)"

lemma task_block_size: "align_up SIZEOF_TASK CFIBER_CACHE_LINE_SIZE = 128"
  by (simp add: SIZEOF_TASK_def align_up_def CFIBER_CACHE_LINE_SIZE_def)

lemma config_stack_block_fits:
  assumes "unat (cf_stack_size c) + unat (redzone b) + 63 < 2 ^ 64"
  shows "unat (redzone b) + unat (cf_stack_size c) \<le> unat (config_stack_block b c)"
proof -
  have u: "unat (cf_stack_size c + redzone b) = unat (cf_stack_size c) + unat (redzone b)"
    using assms by (simp add: unat_add_no_wrap)
  then show ?thesis
    using align_up_64 [of "cf_stack_size c + redzone b"] assms
    by (simp add: config_stack_block_def CFIBER_CACHE_LINE_SIZE_def)
qed

context backing_allocator
begin

lemma scheduler_init_spec:
  assumes ok: "ok w" and nowrap: "unat (cf_stack_size c) + unat (redzone b) + 63 < 2 ^ 64"
    and cok: "config_ok b c"
  obtains s' where "cfiber_scheduler_init_ext b ms_init s c (Some al) (Some fr) ctx w = Some (0, s', w)"
    "sched_inv b al fr (R w) (R w) s' []" "sc_current s' = 0" "sc_zombie s' = 0"
    "sc_stack_size s' = cf_stack_size c" "sc_active_count s' = 0"
proof -
  let ?bps = "config_per_slab c" and ?sb = "config_stack_block b c"
  note C = cok [unfolded config_ok_def]
  have nz: "cf_stack_size c \<noteq> 0" "\<not> cf_stack_size c < 256"
    using C by (auto simp: word_le_nat_alt word_less_nat_alt)
  obtain ta where ta: "cfiber_multislab_init_ext ms_zero 128 ?bps (cf_max_slabs c) 1 (Some al) (Some fr) ctx = (0, ta)"
    "ms_inv al fr (R w) ta" "ms_live ta = {}" "ms_rest (R w) ta = R w"
    by (rule init_ext_accept [of 128 ?bps ms_zero "cf_max_slabs c" 1 al fr ctx "R w"]) (use C in blast)+
  obtain sa where sa: "cfiber_multislab_init_ext ms_zero ?sb ?bps (cf_max_slabs c) 1 (Some al) (Some fr) ctx = (0, sa)"
    "ms_inv al fr (R w) sa" "ms_live sa = {}" "ms_rest (R w) sa = R w" "ms_block_size sa = ?sb"
    by (rule init_ext_accept [of ?sb ?bps ms_zero "cf_max_slabs c" 1 al fr ctx "R w"]) (use C in blast)+
  have fp: "ms_footprint (ms_nodes ms) = {}" if "ms_rest (R w) ms = R w" "ms_inv al fr (R w) ms" for ms
  proof -
    have "R w x = None" if "x \<in> ms_footprint (ms_nodes ms)" for x
      using arg_cong [OF \<open>ms_rest (R w) ms = R w\<close>, of "\<lambda>f. f x"] that by (simp add: ms_rest_def)
    then show ?thesis using ms_inv_footprint [OF \<open>ms_inv al fr (R w) ms\<close>] by blast
  qed
  note fp = fp [OF ta(4,2)] fp [OF sa(4,2)]
  let ?s = "sched_zero\<lparr>sc_stack_size := cf_stack_size c, sc_task_alloc := ta, sc_stack_alloc := sa\<rparr>"
  have "ms_live ta = {}" "ms_live sa = {}" "sched_stacks ?s = Map.empty" "task_nexts ?s = Map.empty"
    using ta sa by (auto simp: sched_stacks_def task_nexts_def sched_zero_def fun_eq_iff)
  then have "sched_inv b al fr (R w) (R w) ?s []"
    using ta(2) sa(2,5) C config_stack_block_fits [OF nowrap] fp
    by (simp add: sched_inv_def sched_zero_def fifo_def both_rest_def word_le_nat_alt restrict_map_def)
  moreover have "cfiber_scheduler_init_ext b ms_init s c (Some al) (Some fr) ctx w = Some (0, ?s, w)"
    using nz ta(1) sa(1) unfolding cfiber_scheduler_init_ext_def
    by (simp add: task_block_size sched_zero_def config_per_slab_def config_stack_block_def Let_def)
  ultimately show thesis using that [of ?s] by (simp add: sched_zero_def)
qed

lemma scheduler_destroy_spec:
  assumes ok: "ok w" and inv: "sched_inv b al fr Z (R w) s []" and idle: "sc_current s = 0"
  obtains w' where "cfiber_scheduler_destroy b s w = Some (sched_zero, w')" "ok w'" "R w' = Z"
proof -
  note I = sched_invD [OF inv]
  have a: "sc_active_count s = 0" using I(10) idle by simp
  obtain w1 where 1: "cfiber_multislab_destroy (sc_task_alloc s) w = Some (ms_zero, w1)" "ok w1"
    "R w1 = ms_rest (R w) (sc_task_alloc s)"
    by (rule destroy_spec [OF ok I(1)])
  have sa: "ms_inv al fr (R w1) (sc_stack_alloc s)"
    by (rule ms_inv_frame [OF I(2)]) (use I(3) 1(3) in \<open>auto simp: ms_rest_def restrict_map_def\<close>)
  obtain w2 where 2: "cfiber_multislab_destroy (sc_stack_alloc s) w1 = Some (ms_zero, w2)" "ok w2"
    "R w2 = ms_rest (R w1) (sc_stack_alloc s)"
    by (rule destroy_spec [OF 1(2) sa])
  have "R w2 = Z" using I(16) by (simp add: both_rest_1 1(3) 2(3) ms_rest_def)
  moreover have "cfiber_scheduler_destroy b s w = Some (sched_zero, w2)"
    using a 1(1) 2(1) by (simp add: cfiber_scheduler_destroy_def ASSERT_def)
  ultimately show thesis using that 2(2) by blast
qed

end

end
