(* ===== verification/Examples.thy ===== *)
theory Examples
  imports Backing
begin

text \<open>A concrete C library heap, empty, and a placement, for the runs the properties are tried on.\<close>

definition demo_place :: placement where
  "demo_place a sz h = 65536 * (1 + of_nat (lh_calls h))"

definition demo_heap :: libc_heap where
  "demo_heap = \<lparr>lh_live = [], lh_calls = 0\<rparr>"

lemma demo_heap_ok: "libc_ok demo_heap"
  by (simp add: libc_ok_def demo_heap_def)

lemmas demo_heap_defs = demo_place_def demo_heap_def

end
