(* ===== verification/Scheduler_Properties.thy ===== *)
theory Scheduler_Properties
  imports Scheduler_Correct Examples
begin

text \<open>
  What \<^verbatim>\<open>src/cfiber/scheduler/scheduler.c\<close> promises, over the C library's heap: round robin order,
  runs that end with everything released, and a thread left as it was found. The concrete scheduler at
  the end of each property is one the hypotheses hold for.
\<close>

section \<open>A concrete scheduler\<close>

definition demo_build :: build where
  "demo_build = \<lparr>ndebug = False, sanitizer = False, redzone = 0, prologue_addr = 64, creator = cpu_zero\<rparr>"

definition demo_config :: cfiber_scheduler_config where
  "demo_config = \<lparr>cf_stack_size = 1024, cf_fibers_per_slab = 2, cf_max_slabs = 0\<rparr>"

definition demo_thread :: thread where
  "demo_thread = \<lparr>s_current_sched = 4096, s_return_hook = \<lparr>hook_fn = 0, hook_ctx = 0\<rparr>\<rparr>"

definition demo_memory :: memory where
  "demo_memory = \<lparr>bytes = (\<lambda>_. 0), shadow = {}\<rparr>"

definition demo_beh :: "nat behaviour" where
  "demo_beh t m u = (case u of 0 \<Rightarrow> (Act_return, m, 0) | Suc 0 \<Rightarrow> (Act_yield, m, 0) | Suc (Suc n) \<Rightarrow> (Act_spawn 77 88, m, Suc n))"

lemma demo_ranked: "ranked (\<lambda>n. n) demo_beh"
  by (auto simp: ranked_def demo_beh_def split: nat.splits)

lemma demo_config_ok: "config_ok demo_build demo_config"
  by (simp add: config_ok_def demo_build_def demo_config_def init_accepts_def config_per_slab_def
      config_stack_block_def align_up_def CFIBER_CACHE_LINE_SIZE_def)

lemma demo_no_wrap: "unat (cf_stack_size demo_config) + unat (redzone demo_build) + 63 < 2 ^ 64"
  by (simp add: demo_config_def demo_build_def)

text \<open>After one spawn.\<close>

definition demo_spawned :: "(bool \<times> libc_heap cfiber_scheduler \<times> memory \<times> libc_heap) option" where
  "demo_spawned = (case cfiber_scheduler_init demo_build demo_place sched_zero demo_config demo_heap of
     Some (rc, s, w) \<Rightarrow> cfiber_scheduler_spawn demo_build s 77 88 demo_memory w | None \<Rightarrow> None)"

lemma demo_spawned_ok: "\<exists>s m w. demo_spawned = Some (True, s, m, w)"
  by (simp add: demo_spawned_def run_defs demo_config_def demo_build_def demo_heap_def demo_place_def
    demo_memory_def cong: bind_weak_cong)

text \<open>The invariant over the C library's heap.\<close>

abbreviation libc_sched ::
  "build \<Rightarrow> placement \<Rightarrow> (u64 \<Rightarrow> nat option) \<Rightarrow> libc_heap \<Rightarrow> libc_heap cfiber_scheduler \<Rightarrow> u64 list \<Rightarrow> bool" where
  "libc_sched b place Z w \<equiv> sched_inv b (default_alloc place) default_free Z (libc_regions w)"

lemma init_default:
  "cfiber_scheduler_init b place s c w =
     cfiber_scheduler_init_ext b (cfiber_multislab_init place) s c
       (Some (default_alloc place)) (Some default_free) 0 w"
  by (simp add: cfiber_scheduler_init_def cfiber_scheduler_init_ext_def cfiber_multislab_init_def)

lemma demo_spawned_inv:
  obtains t s m w where "demo_spawned = Some (True, s, m, w)" "libc_ok w"
    "libc_sched demo_build demo_place (libc_regions demo_heap) w s [t]" "sc_current s = 0" "sc_zombie s = 0" "t \<noteq> 0"
proof -
  obtain s1 where 1: "cfiber_scheduler_init demo_build demo_place sched_zero demo_config demo_heap = Some (0, s1, demo_heap)"
    "libc_sched demo_build demo_place (libc_regions demo_heap) demo_heap s1 []" "sc_current s1 = 0" "sc_zombie s1 = 0"
    unfolding init_default
    by (rule libc_default.scheduler_init_spec [OF demo_heap_ok demo_no_wrap demo_config_ok, where place = demo_place])
      blast
  have d: "demo_spawned = cfiber_scheduler_spawn demo_build s1 77 88 demo_memory demo_heap"
    using 1(1) by (simp add: demo_spawned_def)
  show thesis
  proof (cases rule: libc_default.spawn_spec [OF demo_heap_ok 1(2), where f = 77 and x = 88 and m = demo_memory])
    case (1 s' w')
    then have "demo_spawned = Some (False, s', demo_memory, w')" using d by simp
    moreover obtain s'' m'' w'' where "demo_spawned = Some (True, s'', m'', w'')" using demo_spawned_ok by blast
    ultimately have "Some (False, s', demo_memory, w') = Some (True, s'', m'', w'')" by (rule trans [OF sym])
    then show thesis by simp
  next
    case (2 t s' m' w')
    then show thesis using that [of s' m' w' t] d 1(3,4) by simp
  qed
qed

section \<open>Properties\<close>

text \<open>Property C26. The scheduler is a round robin: in a state that keeps the invariant and is not at
  the end of its run, the next move of \<open>cfiber_scheduler_run\<close> or of the fiber it runs (yield, spawn,
  return) is the move of a first-come first-served queue, and the invariant holds again: every task
  and stack block is live in its multislab and belongs to one fiber, each fiber is queued once or
  running, \<open>active_count\<close> is exact. Nothing traps, except on a returned fiber whose stack canary is gone.\<close>

theorem scheduler_round_robin:
  assumes "libc_ok w" "libc_sched b place Z w s q" "s_current_sched th \<noteq> 0" "\<not> sched_done (s, m, w, u)"
  shows "if zombie_overflowed b s m then sched_step b th beh (s, m, w, u) = None
    else \<exists>s' m' w' u' q'. sched_step b th beh (s, m, w, u) = Some (s', m', w', u') \<and>
      libc_ok w' \<and> libc_sched b place Z w' s' q' \<and>
      robin_step (next_act beh (s, m, w, u)) (robin_of s q) (robin_of s' q')"
proof (cases rule: libc_default.step_spec [OF assms, where beh = beh])
  case 1
  then show ?thesis by simp
next
  case (2 s' m' w' u' q')
  then show ?thesis by auto
qed

lemma scheduler_round_robin_witness:
  "\<exists>s m w t s' m' w'. demo_spawned = Some (True, s, m, w) \<and>
     sched_step demo_build demo_thread demo_beh (s, m, w, 3) = Some (s', m', w', 3) \<and>
     robin_of s [t] = (0, [t], 0) \<and> robin_of s' [] = (t, [], 0)"
proof -
  obtain t s m w where D: "demo_spawned = Some (True, s, m, w)" "libc_ok w"
    "libc_sched demo_build demo_place (libc_regions demo_heap) w s [t]" "sc_current s = 0" "sc_zombie s = 0" "t \<noteq> 0"
    by (rule demo_spawned_inv)
  have n: "\<not> sched_done (s, m, w, 3 :: nat)"
    using sched_invD(10) [OF D(3)] D(4) by (simp add: sched_done_def word_gt_0)
  have th: "s_current_sched demo_thread \<noteq> 0" by (simp add: demo_thread_def)
  have no: "\<not> zombie_overflowed demo_build s m" using D(5) by (simp add: zombie_overflowed_def)
  from scheduler_round_robin [OF D(2,3) th n, of demo_beh] no obtain s' m' w' u' q' where
    S: "sched_step demo_build demo_thread demo_beh (s, m, w, 3) = Some (s', m', w', u')"
    "robin_step (next_act demo_beh (s, m, w, 3)) (robin_of s [t]) (robin_of s' q')" by auto
  have "next_act demo_beh (s, m, w, 3) = None" "robin_of s [t] = (0, [t], 0)"
    using D(4,5) by (simp_all add: next_act_def robin_of_def)
  then have r: "robin_of s' q' = (t, [], 0)" using S(2) by (auto elim: robin_stepE)
  then have "q' = []" by (simp add: robin_of_def)
  moreover have "u' = 3" using S(1) D(4) by (auto simp: sched_step_def split: Option.bind_splits)
  ultimately show ?thesis using D(1) S(1) r \<open>robin_of s [t] = (0, [t], 0)\<close> by blast
qed

text \<open>Property C27. A run ends: when the fibers make finitely many calls (\<open>ranked\<close>: each call but a
  return uses up one unit of \<open>rank\<close>), \<open>cfiber_scheduler_run\<close> returns after a bounded number of moves,
  with no fiber left, every task block and every stack back in its multislab, and nothing else of the
  heap touched. With the stack sanitizer compiled in, it may stop at a trap instead.\<close>

theorem scheduler_run_completes:
  assumes "libc_ok w" "libc_sched b place Z w s q" "s_current_sched th \<noteq> 0" "ranked rank beh"
    "load (robin_of s q) + rank u < 2 ^ 32" "fuel (rank u) (robin_of s q) \<le> n"
  shows "(sanitizer b \<and> sched_loop b th beh n (s, m, w, u) = Trapped) \<or>
    (\<exists>s' m' w' u'. sched_loop b th beh n (s, m, w, u) = Finished (s', m', w', u') \<and>
       libc_ok w' \<and> libc_sched b place Z w' s' [] \<and> dom (sc_tasks s') = {} \<and>
       ms_live (sc_task_alloc s') = {} \<and> ms_live (sc_stack_alloc s') = {})"
proof (cases "sched_loop b th beh n (s, m, w, u) = Trapped \<and> sanitizer b")
  case False
  then obtain s' m' w' u' where F: "sched_loop b th beh n (s, m, w, u) = Finished (s', m', w', u')" "libc_ok w'"
    "libc_sched b place Z w' s' []" "sc_current s' = 0" "sc_zombie s' = 0"
    using libc_default.loop_spec [OF assms, of m] by blast
  then show ?thesis using idle_empty [OF F(3-5)] by blast
qed simp

lemma scheduler_run_completes_witness:
  "\<exists>s m w s' m' w' u'. demo_spawned = Some (True, s, m, w) \<and>
     sched_loop demo_build demo_thread demo_beh 20 (s, m, w, 3) = Finished (s', m', w', u') \<and>
     dom (sc_tasks s') = {}"
proof -
  obtain t s m w where D: "demo_spawned = Some (True, s, m, w)" "libc_ok w"
    "libc_sched demo_build demo_place (libc_regions demo_heap) w s [t]" "sc_current s = 0" "sc_zombie s = 0" "t \<noteq> 0"
    by (rule demo_spawned_inv)
  have th: "s_current_sched demo_thread \<noteq> 0" by (simp add: demo_thread_def)
  have "load (robin_of s [t]) + 3 < 2 ^ 32" "fuel 3 (robin_of s [t]) \<le> 20" "\<not> sanitizer demo_build"
    using D(4) by (simp_all add: load_def fuel_def robin_of_def demo_build_def)
  then have "\<exists>s' m' w' u'. sched_loop demo_build demo_thread demo_beh 20 (s, m, w, 3) = Finished (s', m', w', u') \<and>
      dom (sc_tasks s') = {}"
    using scheduler_run_completes [OF D(2,3) th demo_ranked, of 3 20 m] by blast
  then show ?thesis using D(1) by blast
qed

text \<open>Property C28. A scheduler gives back all it took: initialised with a valid configuration, given a
  first fiber, run to its end and destroyed, it leaves the C library's heap with exactly the blocks it
  had before, whether or not a spawn was refused on the way; without the sanitizer nothing traps.\<close>

theorem scheduler_returns_memory:
  assumes "libc_ok w" "unat (cf_stack_size c) + unat (redzone b) + 63 < 2 ^ 64" "config_ok b c"
    and "\<not> sanitizer b" "s_current_sched th \<noteq> 0" "ranked rank beh" "rank u + 1 < 2 ^ 32" "3 * rank u + 3 \<le> n"
  shows "\<exists>s1 spawned s2 m2 w2 s3 m3 w3 u3 w4.
    cfiber_scheduler_init b place s c w = Some (0, s1, w) \<and>
    cfiber_scheduler_spawn b s1 f x m w = Some (spawned, s2, m2, w2) \<and>
    sched_loop b th beh n (s2, m2, w2, u) = Finished (s3, m3, w3, u3) \<and>
    cfiber_scheduler_destroy b s3 w3 = Some (sched_zero, w4) \<and>
    libc_ok w4 \<and> libc_regions w4 = libc_regions w"
proof -
  obtain s1 where 1: "cfiber_scheduler_init b place s c w = Some (0, s1, w)"
    "libc_sched b place (libc_regions w) w s1 []" "sc_current s1 = 0" "sc_zombie s1 = 0"
    unfolding init_default
    by (rule libc_default.scheduler_init_spec [OF assms(1-3), where place = place]) blast
  obtain spawned s2 m2 w2 q where 2: "cfiber_scheduler_spawn b s1 f x m w = Some (spawned, s2, m2, w2)" "libc_ok w2"
    "libc_sched b place (libc_regions w) w2 s2 q" "load (robin_of s2 q) \<le> 1" "sc_current s2 = 0"
  proof (cases rule: libc_default.spawn_spec [OF assms(1) 1(2), where f = f and x = x and m = m])
    case (1 s' w')
    with that [of False s' m w' "[]"] \<open>sc_current s1 = 0\<close> show thesis by (simp add: load_def robin_of_def)
  next
    case (2 t s' m' w')
    with that [of True s' m' w' "[t]"] \<open>sc_current s1 = 0\<close> show thesis by (simp add: load_def robin_of_def)
  qed
  have "load (robin_of s2 q) + rank u < 2 ^ 32" "fuel (rank u) (robin_of s2 q) \<le> n"
    using 2(4,5) assms(7,8) by (simp_all add: fuel_def robin_of_def)
  from libc_default.loop_spec [OF 2(2,3) assms(5,6) this, of m2] assms(4) obtain s3 m3 w3 u3 where
    3: "sched_loop b th beh n (s2, m2, w2, u) = Finished (s3, m3, w3, u3)" "libc_ok w3"
      "libc_sched b place (libc_regions w) w3 s3 []" "sc_current s3 = 0" by auto
  obtain w4 where "cfiber_scheduler_destroy b s3 w3 = Some (sched_zero, w4)" "libc_ok w4"
    "libc_regions w4 = libc_regions w"
    by (rule libc_default.scheduler_destroy_spec [OF 3(2-4)])
  then show ?thesis using 1(1) 2(1) 3(1) by blast
qed

lemma scheduler_returns_memory_witness:
  "\<exists>s1 spawned s2 m2 w2 s3 m3 w3 u3 w4.
    cfiber_scheduler_init demo_build demo_place sched_zero demo_config demo_heap = Some (0, s1, demo_heap) \<and>
    cfiber_scheduler_spawn demo_build s1 77 88 demo_memory demo_heap = Some (spawned, s2, m2, w2) \<and>
    sched_loop demo_build demo_thread demo_beh 12 (s2, m2, w2, 3) = Finished (s3, m3, w3, u3) \<and>
    cfiber_scheduler_destroy demo_build s3 w3 = Some (sched_zero, w4) \<and>
    libc_ok w4 \<and> libc_regions w4 = libc_regions demo_heap"
  by (rule scheduler_returns_memory [OF demo_heap_ok demo_no_wrap demo_config_ok _ _ demo_ranked])
    (simp_all add: demo_build_def demo_thread_def)

text \<open>\<open>cfiber_scheduler_run\<close> leaves the thread as it found it: it installs itself and its
  return hook, and what was current and hooked before, another scheduler's run included, is back at the
  end. Running the scheduler that already runs traps in a debug build.\<close>

theorem scheduler_run_restores:
  "sched_run_begin b hook self th =
     (if s_current_sched th = self \<and> \<not> ndebug b then None
      else Some (th, \<lparr>s_current_sched = self, s_return_hook = \<lparr>hook_fn = hook, hook_ctx = self\<rparr>\<rparr>)) \<and>
   sched_run_end th th' = th"
  by (cases th; cases "s_return_hook th"; cases th'; cases "s_return_hook th'")
    (auto simp: sched_run_begin_def sched_run_end_def cfiber_set_return_hook_def ASSERT_def)

text \<open>The stack size is not guarded against wrap-around once the ASan redzone is added: a
  request of \<open>2 ^ 64 - 1\<close> bytes per stack with a 64-byte redzone is accepted, with stacks of 64 bytes,
  all of them redzone.\<close>

theorem scheduler_stack_size_wraps:
  "\<exists>s. cfiber_scheduler_init (demo_build\<lparr>redzone := 64\<rparr>) place s0 (demo_config\<lparr>cf_stack_size := - 1\<rparr>) w =
       Some (0, s, w) \<and> sc_stack_size s = - 1 \<and> ms_block_size (sc_stack_alloc s) = 64"
  by (simp add: run_defs demo_config_def demo_build_def cong: bind_weak_cong)

end
