(* ===== verification/Allocator_Properties.thy ===== *)
theory Allocator_Properties
  imports Multislab_Correct Examples
begin

text \<open>
  What the allocators of \<^verbatim>\<open>src/cfiber/memory\<close> promise: slabs and multislabs hand out fresh,
  disjoint blocks, take them back, refuse what they did not hand out, and return every byte.
\<close>

section \<open>Slabs\<close>

text \<open>Property C37. A slab hands out its blocks in address order: \<open>cfiber_slab_alloc\<close> returns the lowest
  free block and marks that one block only, and returns null, changing nothing, exactly when every block
  is taken.\<close>

theorem slab_alloc_lowest_free:
  assumes "slab_inv s"
  shows "if slab_used s = {..<unat (sl_block_count s)} then cfiber_slab_alloc s = Some (0, s)
    else \<exists>s'. let i = LEAST i. i \<notin> slab_used s in
      i < unat (sl_block_count s) \<and> cfiber_slab_alloc s = Some (slab_addr s i, s') \<and>
      slab_addr s i \<noteq> 0 \<and> slab_inv s' \<and> slab_used s' = insert i (slab_used s)"
proof (cases rule: slab_alloc_cases [OF assms])
  case 1
  then show ?thesis by simp
next
  case (2 i s')
  have "(LEAST i. i \<notin> slab_used s) = i" using 2(2,3) by (intro Least_equality) (auto simp: not_less [symmetric])
  then show ?thesis using 2(1,2,4,5,7) slab_addr_nonnull [OF assms 2(1)] by (auto simp: Let_def)
qed

definition demo_slab :: "(int \<times> cfiber_slab) option" where
  "demo_slab = cfiber_slab_init False
     \<lparr>sl_memory = 0, sl_block_size = 0, sl_block_count = 0, sl_bitmap = [], sl_bitmap_count = 0\<rparr> 128 65536 384"

lemma demo_slab_inv:
  obtains s where "demo_slab = Some (0, s)" "slab_inv s" "slab_used s = {}" "unat (sl_block_count s) = 3"
    "sl_memory s = 65536" "sl_block_size s = 128"
proof -
  have acc: "slab_init_accepts 128 65536 384" by (simp add: slab_init_accepts_def)
  have m: "(65536 :: u64) \<noteq> 0" "unat (65536 :: u64) + unat (384 :: u64) < 2 ^ 64" by simp_all
  obtain s where "demo_slab = Some (0, s)" "slab_inv s" "sl_memory s = 65536" "sl_block_size s = 128"
    "unat (sl_block_count s) = unat (384 :: u64) div unat (128 :: u64)" "slab_used s = {}"
    unfolding demo_slab_def by (rule slab_init_accept [OF acc m])
  then show thesis using that [of s] by simp
qed

lemma slab_alloc_lowest_free_witness:
  "\<exists>s s'. demo_slab = Some (0, s) \<and> cfiber_slab_alloc s = Some (65536, s') \<and> slab_used s' = {0}"
proof -
  obtain s where s: "demo_slab = Some (0, s)" "slab_inv s" "slab_used s = {}" "unat (sl_block_count s) = 3"
    "sl_memory s = 65536" by (rule demo_slab_inv)
  have "0 \<in> {..<unat (sl_block_count s)}" using s(4) by simp
  then have "slab_used s \<noteq> {..<unat (sl_block_count s)}" using s(3) by blast
  then show ?thesis using slab_alloc_lowest_free [OF s(2)] s by (auto simp: slab_addr_def Let_def)
qed

text \<open>Property C38. A slab takes back exactly what it handed out: a live block becomes free and nothing
  else changes; any other pointer (foreign, inside a block, freed already) trips the assertion in a
  debug build and is refused without any change in a release build.\<close>

theorem slab_release_checked:
  assumes "slab_inv s"
  shows "if p \<in> slab_live s
    then \<exists>s'. cfiber_slab_release nd s p = Some (True, s') \<and> slab_inv s' \<and> slab_live s' = slab_live s - {p}
    else cfiber_slab_release nd s p = (if nd then Some (False, s) else None)"
proof (cases "p \<in> slab_live s")
  case True
  then obtain i where i: "p = slab_addr s i" "i \<in> slab_used s" by (auto simp: slab_live_def)
  then have ib: "i < unat (sl_block_count s)" using slab_used_bound by auto
  obtain s' where s': "cfiber_slab_release nd s (slab_addr s i) = Some (True, s')" "slab_inv s'"
    "same_slab s s'" "slab_used s' = slab_used s - {i}"
    by (rule slab_release_live [OF assms i(2)])
  have "slab_addr s' = slab_addr s" using s'(3) by (auto simp: same_slab_def slab_addr_def fun_eq_iff)
  then have "slab_live s' = slab_live s - {p}"
    using s'(4) i slab_addr_inj [OF assms _ ib] slab_used_bound [of s] by (auto simp: slab_live_def)
  then show ?thesis using s'(1,2) i(1) True by simp
next
  case False
  then show ?thesis using slab_release_reject [OF assms False] by simp
qed

lemma slab_release_checked_witness:
  "\<exists>s. demo_slab = Some (0, s) \<and> cfiber_slab_release False s 65536 = None \<and>
     cfiber_slab_release True s 65600 = Some (False, s)"
proof -
  obtain s where s: "demo_slab = Some (0, s)" "slab_inv s" "slab_used s = {}" by (rule demo_slab_inv)
  then have "slab_live s = {}" by (simp add: slab_live_def)
  then have "cfiber_slab_release False s 65536 = None \<and> cfiber_slab_release True s 65600 = Some (False, s)"
    using slab_release_checked [OF s(2), of 65536 False] slab_release_checked [OF s(2), of 65600 True] by simp
  then show ?thesis using s(1) by blast
qed
section \<open>Multislabs\<close>

text \<open>The invariant over the C library's heap.\<close>

abbreviation libc_ms :: "placement \<Rightarrow> libc_heap \<Rightarrow> libc_heap cfiber_multislab \<Rightarrow> bool" where
  "libc_ms place w ms \<equiv> ms_inv (default_alloc place) default_free (libc_regions w) ms"

text \<open>\<open>cfiber_multislab_init\<close> accepts exactly the sizes a slab can be cut from: whole cache
  lines, 1 to 512 blocks, a slab size that fits in a word. It fails with -1, leaving the struct alone,
  on all others, and otherwise makes an empty multislab that holds no memory.\<close>

theorem multislab_init_validates:
  "if init_accepts bs bps
   then \<exists>ms'. cfiber_multislab_init place ms bs bps mx hy = (0, ms') \<and> libc_ms place w ms' \<and>
     ms_live ms' = {} \<and> ms_rest (libc_regions w) ms' = libc_regions w \<and> reserve_ok ms'
   else cfiber_multislab_init place ms bs bps mx hy = (- 1, ms)"
proof (cases "init_accepts bs bps")
  case True
  show ?thesis
    unfolding cfiber_multislab_init_def
    by (rule init_ext_accept [OF True, of ms mx hy "default_alloc place" default_free 0 "libc_regions w"])
      (use True in auto)
next
  case False
  then show ?thesis by (simp add: cfiber_multislab_init_def init_ext_reject)
qed

text \<open>A multislab of two 128-byte blocks per slab.\<close>

definition demo_ms :: "libc_heap cfiber_multislab" where
  "demo_ms = snd (cfiber_multislab_init demo_place ms_zero 128 2 0 1)"

lemma demo_ms_inv: "libc_ms demo_place demo_heap demo_ms" "ms_live demo_ms = {}" "reserve_ok demo_ms"
  "ms_rest (libc_regions demo_heap) demo_ms = libc_regions demo_heap"
proof -
  have a: "init_accepts 128 2" by (simp add: init_accepts_def)
  obtain ms where ms: "cfiber_multislab_init demo_place ms_zero 128 2 0 1 = (0, ms)" "libc_ms demo_place demo_heap ms"
    "ms_live ms = {}" "reserve_ok ms" "ms_rest (libc_regions demo_heap) ms = libc_regions demo_heap"
    unfolding cfiber_multislab_init_def
    by (rule init_ext_accept [OF a, of ms_zero 0 1 "default_alloc demo_place" default_free 0
          "libc_regions demo_heap"]) blast
  then show "libc_ms demo_place demo_heap demo_ms" "ms_live demo_ms = {}" "reserve_ok demo_ms"
    "ms_rest (libc_regions demo_heap) demo_ms = libc_regions demo_heap"
    by (simp_all add: demo_ms_def)
qed

lemma demo_ms_alloc: "\<exists>ms w. cfiber_multislab_alloc False demo_ms demo_heap = Some (131072, ms, w)"
  by (simp add: demo_ms_def run_defs demo_heap_defs cong: bind_weak_cong)

text \<open>Property C29. \<open>cfiber_multislab_alloc\<close> never hands out memory twice: it returns null with the live
  blocks unchanged, or a block that was not live and shares no byte with any live one. Its invariant
  (lists, bitmaps, counters, ownership of the backing memory) is kept, whatever addresses the C library
  chooses and whenever it is out of memory.\<close>

theorem multislab_alloc_fresh:
  assumes "libc_ok w" "libc_ms place w ms"
  shows "\<exists>p ms' w'. cfiber_multislab_alloc nd ms w = Some (p, ms', w') \<and> libc_ok w' \<and>
    libc_ms place w' ms' \<and> ms_rest (libc_regions w') ms' = ms_rest (libc_regions w) ms \<and>
    (if p = 0 then ms_live ms' = ms_live ms
     else p \<notin> ms_live ms \<and> ms_live ms' = insert p (ms_live ms) \<and>
       (\<forall>q. q \<in> ms_live ms \<longrightarrow>
          block_range (unat (ms_block_size ms)) p \<inter> block_range (unat (ms_block_size ms)) q = {}))"
proof -
  obtain p ms' w' where a: "cfiber_multislab_alloc nd ms w = Some (p, ms', w')" "libc_ok w'"
    "libc_ms place w' ms'" "same_conf ms ms'" "ms_rest (libc_regions w') ms' = ms_rest (libc_regions w) ms"
    "p = 0 \<longrightarrow> ms_live ms' = ms_live ms \<and> libc_regions w' = libc_regions w"
    "p \<noteq> 0 \<longrightarrow> p \<notin> ms_live ms \<and> ms_live ms' = insert p (ms_live ms)"
    by (rule libc_default.alloc_spec [OF assms, of nd]) blast
  have "block_range (unat (ms_block_size ms)) p \<inter> block_range (unat (ms_block_size ms)) q = {}"
    if "p \<noteq> 0" "q \<in> ms_live ms" for q
    using libc_default.live_blocks_disjoint [OF a(2,3), of p q] a(7) that same_conf_bsz [OF a(4)] by auto
  then show ?thesis using a by auto
qed

lemma multislab_alloc_fresh_witness:
  "\<exists>ms w. cfiber_multislab_alloc False demo_ms demo_heap = Some (131072, ms, w) \<and> ms_live ms = {131072}"
  using multislab_alloc_fresh [OF demo_heap_ok demo_ms_inv(1), of False] demo_ms_alloc demo_ms_inv(2) by auto

text \<open>Property C30. \<open>cfiber_multislab_release\<close> of a live block makes exactly that block free again and
  keeps the invariant; a slab left empty is given back as soon as more empty slabs are held than the
  reserve allows. A pointer that is not live (foreign, interior or released twice) trips the assertion
  in a debug build and changes nothing in a release build.\<close>

theorem multislab_release_checked:
  assumes "libc_ok w" "libc_ms place w ms"
  shows "if p \<in> ms_live ms
    then \<exists>ms' w'. cfiber_multislab_release nd ms p w = Some (ms', w') \<and> libc_ok w' \<and> libc_ms place w' ms' \<and>
      ms_live ms' = ms_live ms - {p} \<and> ms_rest (libc_regions w') ms' = ms_rest (libc_regions w) ms \<and>
      (reserve_ok ms \<longrightarrow> reserve_ok ms')
    else cfiber_multislab_release nd ms p w = (if nd then Some (ms, w) else None)"
proof (cases "p \<in> ms_live ms")
  case True
  show ?thesis by (rule libc_default.release_spec [OF assms True, of nd]) (use True in auto)
next
  case False
  then show ?thesis using libc_default.release_reject [OF assms False, of nd] by simp
qed

lemma multislab_release_checked_witness:
  "\<exists>ms w ms' w'. cfiber_multislab_alloc False demo_ms demo_heap = Some (131072, ms, w) \<and>
     cfiber_multislab_release False ms 131072 w = Some (ms', w') \<and> ms_live ms' = {} \<and>
     cfiber_multislab_release False ms 131080 w = None"
proof -
  obtain ms w where a: "cfiber_multislab_alloc False demo_ms demo_heap = Some (131072, ms, w)"
    using demo_ms_alloc by blast
  obtain p ms' w' where b: "cfiber_multislab_alloc False demo_ms demo_heap = Some (p, ms', w')" "libc_ok w'"
    "libc_ms demo_place w' ms'" "p \<noteq> 0 \<longrightarrow> ms_live ms' = insert p (ms_live demo_ms)"
    by (rule libc_default.alloc_spec [OF demo_heap_ok demo_ms_inv(1), of False]) blast
  have ok: "libc_ok w" "libc_ms demo_place w ms" and l: "ms_live ms = {131072}"
    using a b demo_ms_inv(2) by simp_all
  from multislab_release_checked [OF ok, of 131072 False] multislab_release_checked [OF ok, of 131080 False] l a
  show ?thesis by auto
qed

text \<open>Property C31. Allocation and release are inverse: take any number of blocks (stopping at the first
  refusal), give them all back, destroy the multislab, and the C library's heap has exactly the blocks it
  had before the multislab took any.\<close>

theorem multislab_round_trip:
  assumes "libc_ok w" "libc_ms place w ms"
  shows "\<exists>ps ms1 w1 ms2 w2 w3. alloc_many (ms_pool_alloc nd) n (ms, w) = Some (ps, ms1, w1) \<and> distinct ps \<and>
    release_many (ms_pool_release nd) ps (ms1, w1) = Some (ms2, w2) \<and> ms_live ms2 = ms_live ms \<and>
    cfiber_multislab_destroy ms2 w2 = Some (ms_zero, w3) \<and> libc_ok w3 \<and>
    libc_regions w3 = ms_rest (libc_regions w) ms"
proof -
  let ?Z = "ms_rest (libc_regions w) ms"
  have inv: "ms_pool_inv (default_alloc place) default_free libc_regions libc_ok ?Z (ms, w)"
    using assms by (simp add: ms_pool_inv_def)
  obtain ps s1 where 1: "alloc_many (ms_pool_alloc nd) n (ms, w) = Some (ps, s1)" "distinct ps"
    using libc_default.pool.alloc_many_fresh [OF inv, of nd n] by blast
  obtain s2 where 2: "release_many (ms_pool_release nd) ps s1 = Some s2" "ms_live (fst s2) = ms_live ms"
    "ms_pool_inv (default_alloc place) default_free libc_regions libc_ok ?Z s2"
    using libc_default.pool.alloc_release_many [OF inv 1(1)] by auto
  have i: "libc_ok (snd s2)" "libc_ms place (snd s2) (fst s2)" using 2(3) by (simp_all add: ms_pool_inv_def)
  obtain w3 where "cfiber_multislab_destroy (fst s2) (snd s2) = Some (ms_zero, w3)" "libc_ok w3"
    "libc_regions w3 = ms_rest (libc_regions (snd s2)) (fst s2)"
    by (rule libc_default.destroy_spec [OF i])
  then show ?thesis using 1 2 by (cases s1; cases s2) (auto simp: ms_pool_inv_def)
qed

lemma multislab_round_trip_witness:
  "\<exists>ps ms1 w1 ms2 w2 w3. alloc_many (ms_pool_alloc False) 5 (demo_ms, demo_heap) = Some (ps, ms1, w1) \<and>
     distinct ps \<and> release_many (ms_pool_release False) ps (ms1, w1) = Some (ms2, w2) \<and>
     cfiber_multislab_destroy ms2 w2 = Some (ms_zero, w3) \<and> libc_regions w3 = libc_regions demo_heap"
proof -
  from multislab_round_trip [OF demo_heap_ok demo_ms_inv(1), of False 5, unfolded demo_ms_inv(4)] show ?thesis
    by metis
qed

end
