(* ===== verification/Growable.thy ===== *)
theory Growable
  imports Stack
begin

text \<open>
  Growable stacks (\<^verbatim>\<open>src/cfiber/stack/growable_stack.c\<close>) and their caching allocator
  (\<^verbatim>\<open>growable_stack_allocator.c\<close>). The system calls they make are a parameter, the record
  \<open>vm_os\<close>; the locale \<open>vm_contract\<close> is what POSIX documents of them, over the map from the base of
  each mapped region to its length. The lemmas say that a created stack is a fresh region with its
  guard page below the usable part, that the allocator never hands out a stack that is out or cached
  twice, and that destroying it unmaps everything it caches and reports exactly the stacks still out.
\<close>

section \<open>System calls\<close>

record 'w vm_os =
  vm_pagesize :: "'w \<Rightarrow> int"
  vm_mmap :: "u64 \<Rightarrow> 'w \<Rightarrow> u64 \<times> 'w"
  vm_mprotect_none :: "u64 \<Rightarrow> u64 \<Rightarrow> 'w \<Rightarrow> int \<times> 'w"
  vm_munmap :: "u64 \<Rightarrow> u64 \<Rightarrow> 'w \<Rightarrow> 'w"
  vm_madvise :: "u64 \<Rightarrow> u64 \<Rightarrow> 'w \<Rightarrow> 'w"
  vm_calloc :: "u64 \<Rightarrow> u64 \<Rightarrow> 'w \<Rightarrow> u64 \<times> 'w"
  vm_free :: "u64 \<Rightarrow> 'w \<Rightarrow> 'w"
  vm_errno :: "'w \<Rightarrow> int"
  vm_set_errno :: "int \<Rightarrow> 'w \<Rightarrow> 'w"

definition MAP_FAILED :: u64 where
  "MAP_FAILED = - 1"

definition EINVAL :: int where
  "EINVAL = 22"

section \<open>One stack\<close>

definition page_size :: "'w vm_os \<Rightarrow> 'w \<Rightarrow> u64" where
  "page_size os w = (let ps = vm_pagesize os w in if ps > 0 then word_of_int ps else 0)"

definition cfiber_growable_stack_create :: "'w vm_os \<Rightarrow> u64 \<Rightarrow> 'w \<Rightarrow> cfiber_stack \<times> 'w" where
  "cfiber_growable_stack_create os max_size w =
     (let stack = stack_null; page = page_size os w in
      if page = 0 then (stack, w)
      else if max_size = 0 \<or> max_size AND (page - 1) \<noteq> 0 \<or> max_size > SIZE_MAX - page
      then (stack, vm_set_errno os EINVAL w)
      else
        let total_vma_size = max_size + page;
            (vma_start, w) = vm_mmap os total_vma_size w
        in if vma_start = MAP_FAILED then (stack, w)
           else
             let (r, w) = vm_mprotect_none os vma_start page w in
             if r < 0
             then
               let saved = vm_errno os w;
                   w = vm_munmap os vma_start total_vma_size w;
                   w = vm_set_errno os saved w
               in (stack, w)
             else
               (stack\<lparr>mem_base := vma_start,
                      usable_base := vma_start + page,
                      stack_top := vma_start + total_vma_size,
                      total_size := total_vma_size\<rparr>, w))"

definition cfiber_growable_stack_destroy ::
  "bool \<Rightarrow> 'w vm_os \<Rightarrow> cfiber_stack \<Rightarrow> 'w \<Rightarrow> (cfiber_stack \<times> 'w) option" where
  "cfiber_growable_stack_destroy nd os stack w = do {
     ASSERT nd (cfiber_stack_is_valid stack);
     let w = vm_munmap os (mem_base stack) (total_size stack) w;
     Some (stack\<lparr>mem_base := 0, usable_base := 0, stack_top := 0, total_size := 0\<rparr>, w)
   }"

definition cfiber_growable_stack_recycle ::
  "bool \<Rightarrow> 'w vm_os \<Rightarrow> cfiber_stack \<Rightarrow> 'w \<Rightarrow> 'w option" where
  "cfiber_growable_stack_recycle nd os stack w = do {
     ASSERT nd (cfiber_stack_is_valid stack);
     let page = page_size os w;
     if page = 0 \<or> cfiber_stack_usable_size stack \<le> page then Some w
     else
       let len = cfiber_stack_usable_size stack - page
       in Some (vm_madvise os (usable_base stack) len w)
   }"

section \<open>The caching allocator\<close>

text \<open>\<open>ga_cache\<close> is the used part of the cache array, \<open>cache[0 .. cache_count - 1]\<close>.\<close>

record cfiber_growable_stack_allocator =
  ga_self :: u64
  ga_max_stack_size :: u64
  ga_total_size :: u64
  ga_cache_mem :: u64
  ga_cache :: "cfiber_stack list"
  ga_cache_capacity :: u64
  ga_active_count :: u64

record cfiber_growable_stack_allocator_args =
  arg_max_stack_size :: u64
  arg_cache_capacity :: u64
  arg_initial_cached :: u64

text \<open>Destroying the cached stacks, in order.\<close>

fun destroy_stacks :: "bool \<Rightarrow> 'w vm_os \<Rightarrow> cfiber_stack list \<Rightarrow> 'w \<Rightarrow> 'w option" where
  "destroy_stacks nd os [] w = Some w"
| "destroy_stacks nd os (s # ss) w = do {
     (s, w) \<leftarrow> cfiber_growable_stack_destroy nd os s w;
     destroy_stacks nd os ss w
   }"

definition growable_allocator_cleanup ::
  "bool \<Rightarrow> 'w vm_os \<Rightarrow> cfiber_growable_stack_allocator \<Rightarrow> 'w \<Rightarrow> 'w option" where
  "growable_allocator_cleanup nd os alloc w = do {
     w \<leftarrow> (if ga_cache_mem alloc \<noteq> 0 then do {
             w \<leftarrow> destroy_stacks nd os (ga_cache alloc) w;
             Some (vm_free os (ga_cache_mem alloc) w)
           } else Some w);
     Some (vm_free os (ga_self alloc) w)
   }"

text \<open>The loop that fills the cache: \<open>n\<close> stacks still to create; \<open>False\<close> when one failed.\<close>

fun precache ::
  "'w vm_os \<Rightarrow> nat \<Rightarrow> cfiber_growable_stack_allocator \<Rightarrow> 'w \<Rightarrow>
   bool \<times> cfiber_growable_stack_allocator \<times> 'w" where
  "precache os 0 alloc w = (True, alloc, w)"
| "precache os (Suc n) alloc w =
     (let (s, w) = cfiber_growable_stack_create os (ga_max_stack_size alloc) w in
      if mem_base s = 0 then (False, alloc, w)
      else precache os n (alloc\<lparr>ga_cache := ga_cache alloc @ [s]\<rparr>) w)"

definition SIZEOF_ALLOCATOR :: u64 where
  "SIZEOF_ALLOCATOR = 48"

definition SIZEOF_STACK :: u64 where
  "SIZEOF_STACK = 32"

definition cfiber_growable_stack_allocator_create ::
  "bool \<Rightarrow> 'w vm_os \<Rightarrow> cfiber_growable_stack_allocator_args \<Rightarrow> 'w \<Rightarrow>
   (cfiber_growable_stack_allocator option \<times> 'w) option" where
  "cfiber_growable_stack_allocator_create nd os args w =
     (let raw_page_size = vm_pagesize os w in
      if raw_page_size \<le> 0 then Some (None, w)
      else
        let page_size = word_of_int raw_page_size in
        if arg_max_stack_size args = 0 \<or> arg_max_stack_size args AND (page_size - 1) \<noteq> 0
        then do { ASSERT nd False; Some (None, w) }
        else if arg_cache_capacity args = 0 \<or> arg_initial_cached args > arg_cache_capacity args
        then do { ASSERT nd False; Some (None, w) }
        else
          let (p, w) = vm_calloc os 1 SIZEOF_ALLOCATOR w in
          if p = 0 then Some (None, w)
          else
            let (c, w) = vm_calloc os (arg_cache_capacity args) SIZEOF_STACK w;
                alloc = \<lparr>ga_self = p,
                         ga_max_stack_size = arg_max_stack_size args,
                         ga_total_size = arg_max_stack_size args + page_size,
                         ga_cache_mem = c, ga_cache = [],
                         ga_cache_capacity = arg_cache_capacity args,
                         ga_active_count = 0\<rparr>
            in if c = 0 then do { w \<leftarrow> growable_allocator_cleanup nd os alloc w; Some (None, w) }
               else
                 let (ok, alloc, w) = precache os (unat (arg_initial_cached args)) alloc w in
                 if ok then Some (Some alloc, w)
                 else do { w \<leftarrow> growable_allocator_cleanup nd os alloc w; Some (None, w) })"

definition cfiber_growable_stack_allocator_destroy ::
  "bool \<Rightarrow> 'w vm_os \<Rightarrow> cfiber_growable_stack_allocator \<Rightarrow> 'w \<Rightarrow> (int \<times> 'w) option" where
  "cfiber_growable_stack_allocator_destroy nd os alloc w = do {
     res \<leftarrow> (if ga_active_count alloc \<noteq> 0 then do { ASSERT nd False; Some (- 1) } else Some 0);
     w \<leftarrow> growable_allocator_cleanup nd os alloc w;
     Some (res, w)
   }"

definition cfiber_growable_stack_alloc ::
  "'w vm_os \<Rightarrow> cfiber_growable_stack_allocator \<Rightarrow> 'w \<Rightarrow>
   cfiber_stack \<times> cfiber_growable_stack_allocator \<times> 'w" where
  "cfiber_growable_stack_alloc os alloc w =
     (if ga_cache alloc \<noteq> []
      then (last (ga_cache alloc),
            alloc\<lparr>ga_active_count := ga_active_count alloc + 1, ga_cache := butlast (ga_cache alloc)\<rparr>, w)
      else
        let (stack, w) = cfiber_growable_stack_create os (ga_max_stack_size alloc) w in
        if mem_base stack \<noteq> 0
        then (stack, alloc\<lparr>ga_active_count := ga_active_count alloc + 1\<rparr>, w)
        else (stack, alloc, w))"

definition cfiber_growable_stack_release ::
  "bool \<Rightarrow> 'w vm_os \<Rightarrow> cfiber_growable_stack_allocator \<Rightarrow> cfiber_stack \<Rightarrow> 'w \<Rightarrow>
   (cfiber_growable_stack_allocator \<times> cfiber_stack \<times> 'w) option" where
  "cfiber_growable_stack_release nd os alloc stack w =
     (if total_size stack \<noteq> ga_total_size alloc
      then do {
        ASSERT nd False;
        (stack, w) \<leftarrow> cfiber_growable_stack_destroy nd os stack w;
        Some (alloc, stack, w)
      }
      else do {
        ASSERT nd (ga_active_count alloc > 0);
        let alloc = alloc\<lparr>ga_active_count := ga_active_count alloc - 1\<rparr>;
        (alloc, stack, w) \<leftarrow>
          (if of_nat (length (ga_cache alloc)) \<ge> ga_cache_capacity alloc
           then do {
             (stack, w) \<leftarrow> cfiber_growable_stack_destroy nd os stack w;
             Some (alloc, stack, w)
           }
           else do {
             w \<leftarrow> cfiber_growable_stack_recycle nd os stack w;
             Some (alloc\<lparr>ga_cache := ga_cache alloc @ [stack]\<rparr>, stack, w)
           });
        Some (alloc, stack\<lparr>mem_base := 0, usable_base := 0, stack_top := 0, total_size := 0\<rparr>, w)
      })"

section \<open>The contract of the system calls\<close>

text \<open>\<open>M w\<close> maps the base of every mapped region to its length; \<open>page\<close> is the page size.\<close>

locale vm_contract =
  fixes os :: "'w vm_os"
    and M :: "'w \<Rightarrow> u64 \<Rightarrow> nat option"
    and ok :: "'w \<Rightarrow> bool"
    and page :: nat
    and shift :: nat
  assumes page_range: "page = 2 ^ shift" "shift < 32"
    and pagesize: "vm_pagesize os w = int page"
    and mmap_failed: "ok w \<Longrightarrow> vm_mmap os len w = (MAP_FAILED, w') \<Longrightarrow> ok w' \<and> M w' = M w"
    and mmap_mapped: "ok w \<Longrightarrow> vm_mmap os len w = (p, w') \<Longrightarrow> p \<noteq> MAP_FAILED \<Longrightarrow>
      ok w' \<and> M w p = None \<and> M w' = (M w)(p \<mapsto> unat len)"
    and mprotect_keeps: "ok w \<Longrightarrow> vm_mprotect_none os p len w = (r, w') \<Longrightarrow> ok w' \<and> M w' = M w"
    and munmap_region: "ok w \<Longrightarrow> M w p = Some (unat len) \<Longrightarrow>
      ok (vm_munmap os p len w) \<and> M (vm_munmap os p len w) = (M w)(p := None)"
    and madvise_keeps: "ok w \<Longrightarrow> ok (vm_madvise os p len w) \<and> M (vm_madvise os p len w) = M w"
    and calloc_keeps: "ok w \<Longrightarrow> vm_calloc os c sz w = (p, w') \<Longrightarrow> ok w' \<and> M w' = M w"
    and free_keeps: "ok w \<Longrightarrow> ok (vm_free os p w) \<and> M (vm_free os p w) = M w"
    and errno_keeps: "ok w \<Longrightarrow> ok (vm_set_errno os e w) \<and> M (vm_set_errno os e w) = M w"
    and region_in_space: "ok w \<Longrightarrow> M w p = Some n \<Longrightarrow> p \<noteq> 0 \<and> unat p + n < 2 ^ 64"
    and regions_disjoint: "ok w \<Longrightarrow> M w p = Some n \<Longrightarrow> M w q = Some m \<Longrightarrow> p \<noteq> q \<Longrightarrow>
      ranges_disjoint (unat p) n (unat q) m"

section \<open>A kernel that meets it\<close>

text \<open>
  Mapped regions with the placement left open, as for the C heap: any page-aligned range that is
  free. \<open>mprotect\<close> and the C heap's answers are oracles of the call count.
\<close>

record vm_world =
  vw_map :: libc_heap
  vw_error :: int

definition vm_kernel :: "placement \<Rightarrow> (nat \<Rightarrow> bool) \<Rightarrow> (nat \<Rightarrow> u64) \<Rightarrow> vm_world vm_os" where
  "vm_kernel place protects heap =
     \<lparr>vm_pagesize = (\<lambda>w. 4096),
      vm_mmap = (\<lambda>len w. let (p, h) = libc_aligned_alloc place 4096 len (vw_map w) in
        (if p = 0 then (MAP_FAILED, w\<lparr>vw_map := h, vw_error := 12\<rparr>) else (p, w\<lparr>vw_map := h\<rparr>))),
      vm_mprotect_none = (\<lambda>p len w. if protects (lh_calls (vw_map w)) then (0, w) else (- 1, w\<lparr>vw_error := 12\<rparr>)),
      vm_munmap = (\<lambda>p len w. case libc_free p (vw_map w) of Some h \<Rightarrow> w\<lparr>vw_map := h\<rparr> | None \<Rightarrow> w),
      vm_madvise = (\<lambda>p len w. w),
      vm_calloc = (\<lambda>n sz w. (heap (lh_calls (vw_map w)), w)),
      vm_free = (\<lambda>p w. w),
      vm_errno = vw_error,
      vm_set_errno = (\<lambda>e w. w\<lparr>vw_error := e\<rparr>)\<rparr>"

lemma kernel_mmap:
  assumes "libc_ok (vw_map w)" "vm_mmap (vm_kernel place protects heap) len w = (p, w')"
  shows "libc_ok (vw_map w') \<and>
    (if p = MAP_FAILED then libc_regions (vw_map w') = libc_regions (vw_map w)
     else libc_regions (vw_map w) p = None \<and>
       libc_regions (vw_map w') = (libc_regions (vw_map w))(p \<mapsto> unat len))"
proof -
  obtain q h where a: "libc_aligned_alloc place 4096 len (vw_map w) = (q, h)" by fastforce
  show ?thesis
  proof (cases "q = 0")
    case True
    then show ?thesis
      using assms a libc_alloc_null [of "vw_map w" place 4096 len h] by (auto simp: vm_kernel_def)
  next
    case False
    note L = libc_alloc_block [OF assms(1) a False]
    have "unat q mod 4096 = 0" using L(3) by simp
    then have "q \<noteq> MAP_FAILED" by (auto simp: MAP_FAILED_def)
    then show ?thesis using assms(2) a False L by (auto simp: vm_kernel_def)
  qed
qed

interpretation kernel: vm_contract "vm_kernel place protects heap" "\<lambda>w. libc_regions (vw_map w)"
  "\<lambda>w. libc_ok (vw_map w)" 4096 12 for place protects heap
proof unfold_locales
  fix w w' :: vm_world and len p :: u64
  assume w: "libc_ok (vw_map w)"
  {
    assume "vm_mmap (vm_kernel place protects heap) len w = (MAP_FAILED, w')"
    then show "libc_ok (vw_map w') \<and> libc_regions (vw_map w') = libc_regions (vw_map w)"
      using kernel_mmap [OF w] by fastforce
  next
    assume "vm_mmap (vm_kernel place protects heap) len w = (p, w')" "p \<noteq> MAP_FAILED"
    then show "libc_ok (vw_map w') \<and> libc_regions (vw_map w) p = None \<and>
        libc_regions (vw_map w') = (libc_regions (vw_map w))(p \<mapsto> unat len)"
      using kernel_mmap [OF w] by fastforce
  next
    assume "libc_regions (vw_map w) p = Some (unat len)"
    then show "libc_ok (vw_map (vm_munmap (vm_kernel place protects heap) p len w)) \<and>
        libc_regions (vw_map (vm_munmap (vm_kernel place protects heap) p len w)) =
          (libc_regions (vw_map w))(p := None)"
      using libc_free_block [OF w, of p "unat len"] by (auto simp: vm_kernel_def)
  }
qed (auto simp: vm_kernel_def dest: libc_region_facts split: if_splits)

section \<open>Stacks and allocators in order\<close>

text \<open>Over the page size \<open>pg\<close> and the regions \<open>A\<close> mapped: what a growable stack looks like, which
  sizes are accepted, and an allocator whose stacks \<open>outs\<close> are handed out and not yet released.\<close>

definition growable_stack_at :: "nat \<Rightarrow> u64 \<Rightarrow> cfiber_stack \<Rightarrow> bool" where
  "growable_stack_at pg mx s \<longleftrightarrow>
     mem_base s \<noteq> 0 \<and> unat (usable_base s) = unat (mem_base s) + pg \<and>
     unat (stack_top s) = unat (mem_base s) + unat (total_size s) \<and>
     unat (total_size s) = unat mx + pg"

definition growable_max_ok :: "nat \<Rightarrow> u64 \<Rightarrow> bool" where
  "growable_max_ok pg mx \<longleftrightarrow> 0 < unat mx \<and> unat mx mod pg = 0 \<and> unat mx + pg < 2 ^ 64"

definition stacks_ok :: "nat \<Rightarrow> (u64 \<Rightarrow> nat option) \<Rightarrow> u64 \<Rightarrow> cfiber_stack list \<Rightarrow> bool" where
  "stacks_ok pg A mx ss \<longleftrightarrow> distinct (map mem_base ss) \<and>
     (\<forall>s \<in> set ss. growable_stack_at pg mx s \<and> A (mem_base s) = Some (unat (total_size s)))"

definition ga_inv ::
  "nat \<Rightarrow> (u64 \<Rightarrow> nat option) \<Rightarrow> cfiber_growable_stack_allocator \<Rightarrow> cfiber_stack list \<Rightarrow> bool" where
  "ga_inv pg A ga outs \<longleftrightarrow>
     growable_max_ok pg (ga_max_stack_size ga) \<and>
     ga_total_size ga = ga_max_stack_size ga + of_nat pg \<and>
     length (ga_cache ga) \<le> unat (ga_cache_capacity ga) \<and> ga_cache_mem ga \<noteq> 0 \<and>
     ga_active_count ga = of_nat (length outs) \<and>
     stacks_ok pg A (ga_max_stack_size ga) (ga_cache ga @ outs)"

text \<open>The mappings that are not the allocator's.\<close>

definition ga_rest ::
  "(u64 \<Rightarrow> nat option) \<Rightarrow> cfiber_growable_stack_allocator \<Rightarrow> cfiber_stack list \<Rightarrow> u64 \<Rightarrow> nat option" where
  "ga_rest A ga outs = A |` (- (mem_base ` set (ga_cache ga @ outs)))"

lemma ga_rest_cong:
  assumes "set (ga_cache ga' @ outs') = set (ga_cache ga @ outs)"
  shows "ga_rest A ga' outs' = ga_rest A ga outs"
  using assms by (simp add: ga_rest_def)

text \<open>A mapping made, and one undone.\<close>

lemma ga_rest_upd:
  assumes "set (ga_cache ga' @ outs') = insert s (set (ga_cache ga @ outs))"
  shows "A (mem_base s) = None \<Longrightarrow> ga_rest (A(mem_base s \<mapsto> k)) ga' outs' = ga_rest A ga outs"
    "ga_rest (A(mem_base s := None)) ga outs = ga_rest A ga' outs'"
  unfolding ga_rest_def assms by (auto simp: restrict_map_def fun_eq_iff)

section \<open>Creating and destroying a stack\<close>

context vm_contract
begin

lemma page_word: "page_size os w = of_nat page" "unat (of_nat page :: u64) = page" "0 < page" "page < 2 ^ 32"
proof -
  show 1: "0 < page" using page_range by simp
  have "2 ^ shift < (2 :: nat) ^ 32" using page_range(2) by (intro power_strict_increasing) simp_all
  then show 2: "page < 2 ^ 32" using page_range(1) by simp
  show "unat (of_nat page :: u64) = page" using 2 by (intro unat_of_nat_small) simp
  show "page_size os w = of_nat page" using pagesize 1 by (simp add: page_size_def)
qed

lemma page_mask: "x AND (of_nat page - 1) = (0 :: u64) \<longleftrightarrow> unat x mod page = 0"
proof -
  have "(of_nat page :: u64) = 2 ^ shift" using page_range(1) by simp
  then have "x AND (of_nat page - 1) = take_bit shift x"
    by (simp add: take_bit_eq_mask mask_eq_exp_minus_1)
  moreover have "unat (take_bit shift x) = unat x mod page"
  proof -
    have "unat (take_bit shift x) = take_bit shift (unat x)" by (rule unsigned_take_bit_eq)
    then show ?thesis using page_range(1) by (simp add: take_bit_eq_mod [of shift "unat x"])
  qed
  ultimately show ?thesis by (metis unat_eq_zero)
qed

lemma create_check:
  "growable_max_ok page mx \<longleftrightarrow> \<not> (mx = 0 \<or> mx AND (of_nat page - 1) \<noteq> 0 \<or> mx > SIZE_MAX - of_nat page)"
proof -
  have "of_nat page \<le> SIZE_MAX" by (simp add: SIZE_MAX_def)
  then have "unat (SIZE_MAX - of_nat page) = 2 ^ 64 - 1 - page"
    using page_word(2) by (simp only: unat_sub SIZE_MAX_def unat_minus_1)
  then have "mx > SIZE_MAX - of_nat page \<longleftrightarrow> \<not> unat mx + page < 2 ^ 64"
    using page_word(4) by (auto simp: word_less_nat_alt)
  then show ?thesis by (auto simp: growable_max_ok_def page_mask unat_gt_0)
qed

lemma create_spec:
  assumes "ok w"
  obtains
    (invalid) "\<not> growable_max_ok page mx"
      "cfiber_growable_stack_create os mx w = (stack_null, vm_set_errno os EINVAL w)"
  | (failed) w' where "cfiber_growable_stack_create os mx w = (stack_null, w')" "ok w'" "M w' = M w"
  | (created) s w' where "cfiber_growable_stack_create os mx w = (s, w')" "growable_max_ok page mx" "ok w'"
      "growable_stack_at page mx s" "M w (mem_base s) = None"
      "M w' = (M w)(mem_base s \<mapsto> unat (total_size s))"
proof (cases "growable_max_ok page mx")
  case False
  then show thesis
    using invalid page_word(3) create_check [of mx] page_word(2)
    by (auto simp: cfiber_growable_stack_create_def page_word(1) Let_def unat_eq_0 [symmetric]
        simp del: unat_eq_0)
next
  case True
  let ?t = "mx + of_nat page"
  have nz: "(of_nat page :: u64) \<noteq> 0" using page_word(2,3) by (metis unat_0 less_numeral_extra(3))
  have t: "unat ?t = unat mx + page"
    using True page_word(2) by (subst unat_add_no_wrap) (simp_all add: growable_max_ok_def)
  obtain p w1 where p: "vm_mmap os ?t w = (p, w1)" by fastforce
  show thesis
  proof (cases "p = MAP_FAILED")
    case fail: True
    then show thesis
      using failed [of w1] mmap_failed [OF assms, of ?t w1] p True nz create_check [of mx]
      by (simp add: cfiber_growable_stack_create_def page_word(1) Let_def)
  next
    case got: False
    note m = mmap_mapped [OF assms p got]
    obtain r w2 where r: "vm_mprotect_none os p (of_nat page) w1 = (r, w2)" by fastforce
    have m2: "ok w2" "M w2 = M w1" using mprotect_keeps [OF _ r] m by auto
    have M2: "M w2 p = Some (unat ?t)" using m m2 by simp
    show thesis
    proof (cases "r < 0")
      case bad: True
      let ?w3 = "vm_munmap os p ?t w2"
      let ?w = "vm_set_errno os (vm_errno os w2) ?w3"
      have "ok ?w3" "M ?w3 = M w" using munmap_region [OF m2(1) M2] m m2 by (auto simp: fun_upd_idem)
      then have "ok ?w" "M ?w = M w" using errno_keeps by auto
      then show thesis
        using failed [of ?w] p got r bad True nz create_check [of mx]
        by (simp add: cfiber_growable_stack_create_def page_word(1) Let_def)
    next
      case good: False
      let ?s = "stack_null\<lparr>mem_base := p, usable_base := p + of_nat page, stack_top := p + ?t,
        total_size := ?t\<rparr>"
      have "p \<noteq> 0" "unat p + unat ?t < 2 ^ 64" using region_in_space [OF m2(1) M2] by auto
      then have "growable_stack_at page mx ?s"
        using t page_word(2) unat_add_no_wrap [of p "of_nat page"] unat_add_no_wrap [of p ?t]
        by (simp add: growable_stack_at_def)
      then show thesis
        using created [of ?s w2] p got r good True nz create_check [of mx] m m2
        by (simp add: cfiber_growable_stack_create_def page_word(1) Let_def)
    qed
  qed
qed

lemma growable_valid:
  assumes "growable_stack_at page mx s" "unat (stack_top s) < 2 ^ 64"
  shows "cfiber_stack_is_valid s" "unat (cfiber_stack_usable_size s) = unat mx"
proof -
  note g = assms(1) [unfolded growable_stack_at_def]
  have "0 < unat (mem_base s)" using g by (simp add: unat_gt_0)
  then have "0 < unat (usable_base s)" "0 < unat (stack_top s)" "0 < unat (total_size s)"
    using g page_word(3) by linarith+
  then show "cfiber_stack_is_valid s"
    using g by (auto simp: cfiber_stack_is_valid_def)
  show "unat (cfiber_stack_usable_size s) = unat mx"
    using g by (simp add: cfiber_stack_usable_size_def unat_sub word_le_nat_alt)
qed

lemma destroy_stack_spec:
  assumes "ok w" "growable_stack_at page mx s" "M w (mem_base s) = Some (unat (total_size s))"
  obtains w' where "cfiber_growable_stack_destroy nd os s w = Some (stack_null, w')" "ok w'"
    "M w' = (M w)(mem_base s := None)"
proof
  let ?w = "vm_munmap os (mem_base s) (total_size s) w"
  have "cfiber_stack_is_valid s"
    using growable_valid(1) [OF assms(2)] region_in_space [OF assms(1,3)] assms(2) unat_lt64 by blast
  then show "cfiber_growable_stack_destroy nd os s w = Some (stack_null, ?w)"
    by (simp add: cfiber_growable_stack_destroy_def stack_null_def Let_def)
  show "ok ?w" "M ?w = (M w)(mem_base s := None)" using munmap_region [OF assms(1,3)] by auto
qed

lemma recycle_spec:
  assumes "ok w" "growable_stack_at page mx s"
  obtains w' where "cfiber_growable_stack_recycle nd os s w = Some w'" "ok w'" "M w' = M w"
  using growable_valid(1) [OF assms(2) unat_lt64] madvise_keeps [OF assms(1)] assms(1) that
  by (cases "page_size os w = 0 \<or> cfiber_stack_usable_size s \<le> page_size os w")
    (auto simp: cfiber_growable_stack_recycle_def Let_def)

end

section \<open>The caching allocator\<close>

text \<open>\<open>outs\<close> are the stacks handed out and not yet released.\<close>

context vm_contract
begin

lemma stacks_ok_mset:
  assumes "mset ss = mset ss'"
  shows "stacks_ok page (M w) mx ss = stacks_ok page (M w) mx ss'"
proof -
  have "distinct (map mem_base ss) = distinct (map mem_base ss')"
    using assms by (metis mset_map mset_eq_imp_distinct_iff)
  then show ?thesis using mset_eq_setD [OF assms] by (simp add: stacks_ok_def)
qed

lemma stacks_ok_cong: "M w' = M w \<Longrightarrow> stacks_ok page (M w') mx ss = stacks_ok page (M w) mx ss"
  by (simp add: stacks_ok_def)

lemma stacks_ok_length: "stacks_ok page (M w) mx ss \<Longrightarrow> length ss < 2 ^ 64"
  using distinct_words_bound [of "map mem_base ss"]
  by (fastforce simp: stacks_ok_def growable_stack_at_def)

lemma stacks_ok_Cons:
  "stacks_ok page (M w) mx (s # ss) \<longleftrightarrow> growable_stack_at page mx s \<and> M w (mem_base s) = Some (unat (total_size s)) \<and>
     mem_base s \<notin> mem_base ` set ss \<and> stacks_ok page (M w) mx ss"
  by (auto simp: stacks_ok_def)

lemma stacks_ok_unmap:
  assumes "stacks_ok page (M w) mx (s # ss)" "M w' = (M w)(mem_base s := None)"
  shows "stacks_ok page (M w') mx ss"
proof -
  have "mem_base t \<noteq> mem_base s" if "t \<in> set ss" for t
    using assms(1) that unfolding stacks_ok_Cons by (metis image_eqI)
  then show ?thesis using assms by (simp add: stacks_ok_def)
qed

lemma stacks_ok_map:
  assumes "stacks_ok page (M w) mx ss" "M w (mem_base s) = None" "growable_stack_at page mx s"
    "M w' = (M w)(mem_base s \<mapsto> unat (total_size s))"
  shows "stacks_ok page (M w') mx (s # ss)"
proof -
  have "mem_base t \<noteq> mem_base s" if "t \<in> set ss" for t
    using assms(1,2) that by (auto simp: stacks_ok_def)
  then show ?thesis using assms unfolding stacks_ok_def by auto
qed

lemma ga_total: "ga_inv page (M w) ga outs \<Longrightarrow> unat (ga_total_size ga) = unat (ga_max_stack_size ga) + page"
  using page_word(2) unat_add_no_wrap [of "ga_max_stack_size ga" "of_nat page"]
  by (simp add: ga_inv_def growable_max_ok_def)

text \<open>\<open>cfiber_growable_stack_alloc\<close>: a null descriptor with nothing changed, or one more stack out,
  taken from the cache or mapped, that was neither out nor cached below.\<close>

lemma growable_alloc_spec:
  assumes ok: "ok w" and inv: "ga_inv page (M w) ga outs"
  obtains
    (failed) w' where "cfiber_growable_stack_alloc os ga w = (stack_null, ga, w')" "ok w'" "M w' = M w"
      "ga_inv page (M w') ga outs"
  | (got) s ga' w' where "cfiber_growable_stack_alloc os ga w = (s, ga', w')" "ok w'"
      "ga_inv page (M w') ga' (s # outs)" "ga_max_stack_size ga' = ga_max_stack_size ga"
      "ga_self ga' = ga_self ga" "ga_rest (M w') ga' (s # outs) = ga_rest (M w) ga outs"
proof (cases "ga_cache ga = []")
  case True
  note i = inv [unfolded ga_inv_def] and fail = failed
  from ok show thesis
  proof (cases rule: create_spec [where mx = "ga_max_stack_size ga"])
    case invalid
    then show thesis using i by simp
  next
    case (failed w')
    then have "ga_inv page (M w') ga outs" using i stacks_ok_cong [of w' w] by (simp add: ga_inv_def)
    then show thesis
      using fail [of w'] failed True by (simp add: cfiber_growable_stack_alloc_def stack_null_def)
  next
    case (created s w')
    let ?ga = "ga\<lparr>ga_active_count := ga_active_count ga + 1\<rparr>"
    have "stacks_ok page (M w') (ga_max_stack_size ga) (s # outs)"
      by (rule stacks_ok_map [OF _ created(5,4,6)]) (use i True in simp)
    then have "ga_inv page (M w') ?ga (s # outs)" using i True by (simp add: ga_inv_def)
    moreover have "mem_base s \<noteq> 0" using created(4) by (simp add: growable_stack_at_def)
    moreover have "ga_rest (M w') ?ga (s # outs) = ga_rest (M w) ga outs"
      unfolding created(6) by (rule ga_rest_upd(1)) (use created(5) True in simp_all)
    ultimately show thesis
      using got [of s ?ga w'] created True by (simp add: cfiber_growable_stack_alloc_def)
  qed
next
  case False
  note i = inv [unfolded ga_inv_def]
  let ?s = "last (ga_cache ga)"
  let ?ga = "ga\<lparr>ga_active_count := ga_active_count ga + 1, ga_cache := butlast (ga_cache ga)\<rparr>"
  have "mset (butlast (ga_cache ga) @ ?s # outs) = mset (ga_cache ga @ outs)"
    using False by (metis append_butlast_last_id append.assoc append_Cons append_Nil)
  then have "stacks_ok page (M w) (ga_max_stack_size ga) (butlast (ga_cache ga) @ ?s # outs)"
    using i stacks_ok_mset by blast
  then have "ga_inv page (M w) ?ga (?s # outs)" using i by (auto simp: ga_inv_def)
  moreover have "ga_rest (M w) ?ga (?s # outs) = ga_rest (M w) ga outs"
  proof (rule ga_rest_cong)
    have "set (ga_cache ga) = set (butlast (ga_cache ga) @ [?s])" using False by simp
    then show "set (ga_cache ?ga @ ?s # outs) = set (ga_cache ga @ outs)" by simp
  qed
  ultimately show thesis
    using got [of ?s ?ga w] ok False by (simp add: cfiber_growable_stack_alloc_def)
qed

text \<open>\<open>cfiber_growable_stack_release\<close> of a stack that is out: it is cached, or unmapped when the
  cache is full; either way it is no longer out and the caller's descriptor is null.\<close>

lemma growable_release_spec:
  assumes ok: "ok w" and inv: "ga_inv page (M w) ga outs" and s: "s \<in> set outs"
  obtains ga' w' where "cfiber_growable_stack_release nd os ga s w = Some (ga', stack_null, w')"
    "ok w'" "ga_inv page (M w') ga' (remove1 s outs)" "ga_max_stack_size ga' = ga_max_stack_size ga"
    "mem_base s \<notin> mem_base ` set (remove1 s outs)" "ga_self ga' = ga_self ga"
    "ga_rest (M w') ga' (remove1 s outs) = ga_rest (M w) ga outs"
proof -
  note i = inv [unfolded ga_inv_def]
  let ?mx = "ga_max_stack_size ga"
  let ?ga = "ga\<lparr>ga_active_count := ga_active_count ga - 1\<rparr>"
  let ?rest = "ga_cache ga @ remove1 s outs"
  have ms: "mset (s # ?rest) = mset (ga_cache ga @ outs)" using s by simp
  then have st: "stacks_ok page (M w) ?mx (s # ?rest)" using i stacks_ok_mset by blast
  then have S: "growable_stack_at page ?mx s" "M w (mem_base s) = Some (unat (total_size s))"
    "mem_base s \<notin> mem_base ` set ?rest" "stacks_ok page (M w) ?mx ?rest" by (auto simp: stacks_ok_Cons)
  have tot: "total_size s = ga_total_size ga"
    using S(1) ga_total [OF inv] by (simp add: growable_stack_at_def word_unat_eq_iff)
  have len: "length outs = Suc (length (remove1 s outs))"
    using s length_pos_if_in_set [OF s] by (simp add: length_remove1)
  have "length outs < 2 ^ 64" using stacks_ok_length [of w ?mx "ga_cache ga @ outs"] i by simp
  then have "unat (ga_active_count ga) = length outs" using i by (simp add: unat_of_nat_small)
  then have pos: "ga_active_count ga > 0" using len by (simp add: word_less_nat_alt)
  have cnt: "ga_active_count ga - 1 = of_nat (length (remove1 s outs))" using i len by simp
  have lc: "unat (of_nat (length (ga_cache ga)) :: u64) = length (ga_cache ga)"
    using i unat_lt64 [of "ga_cache_capacity ga"] by (intro unat_of_nat_small) simp
  have null: "x\<lparr>mem_base := 0, usable_base := 0, stack_top := 0, total_size := 0\<rparr> = stack_null" for x :: cfiber_stack
    by (cases x) (simp add: stack_null_def)
  have notin: "mem_base s \<notin> mem_base ` set (remove1 s outs)" using S(3) by auto
  have split: "set (ga_cache ga @ outs) = insert s (set (ga_cache ?ga @ remove1 s outs))"
    using mset_eq_setD [OF ms] by auto
  show thesis
  proof (cases "of_nat (length (ga_cache ga)) \<ge> ga_cache_capacity ga")
    case True
    obtain w' where d: "cfiber_growable_stack_destroy nd os s w = Some (stack_null, w')" "ok w'"
      "M w' = (M w)(mem_base s := None)" by (rule destroy_stack_spec [OF ok S(1,2)])
    have "ga_inv page (M w') ?ga (remove1 s outs)"
      using i cnt stacks_ok_unmap [OF st d(3)] by (simp add: ga_inv_def)
    moreover have "cfiber_growable_stack_release nd os ga s w = Some (?ga, stack_null, w')"
      using tot pos True d(1) null by (simp add: cfiber_growable_stack_release_def Let_def)
    moreover have "ga_rest (M w') ?ga (remove1 s outs) = ga_rest (M w) ga outs"
      unfolding d(3) by (rule ga_rest_upd(2) [OF split])
    ultimately show thesis using that [of ?ga w'] d(2) notin by simp
  next
    case False
    obtain w' where r: "cfiber_growable_stack_recycle nd os s w = Some w'" "ok w'" "M w' = M w"
      by (rule recycle_spec [OF ok S(1)])
    let ?ga' = "?ga\<lparr>ga_cache := ga_cache ga @ [s]\<rparr>"
    have "stacks_ok page (M w') ?mx ((ga_cache ga @ [s]) @ remove1 s outs)"
      using st r(3) stacks_ok_mset [of "(ga_cache ga @ [s]) @ remove1 s outs" "s # ?rest"]
        stacks_ok_cong [of w' w] by simp
    moreover have "length (ga_cache ga @ [s]) \<le> unat (ga_cache_capacity ga)"
      using False lc by (simp add: word_le_nat_alt)
    ultimately have "ga_inv page (M w') ?ga' (remove1 s outs)" using i cnt by (simp add: ga_inv_def)
    moreover have "cfiber_growable_stack_release nd os ga s w = Some (?ga', stack_null, w')"
      using tot pos False r(1) null by (simp add: cfiber_growable_stack_release_def Let_def)
    moreover have "ga_rest (M w') ?ga' (remove1 s outs) = ga_rest (M w) ga outs"
      unfolding r(3) by (rule ga_rest_cong) (use split in auto)
    ultimately show thesis using that [of ?ga' w'] r(2) notin by simp
  qed
qed

lemma destroy_stacks_spec:
  "ok w \<Longrightarrow> stacks_ok page (M w) mx (ss @ outs) \<Longrightarrow>
   \<exists>w'. destroy_stacks nd os ss w = Some w' \<and> ok w' \<and> stacks_ok page (M w') mx outs \<and>
     M w' = M w |` (- (mem_base ` set ss))"
proof (induction ss arbitrary: w)
  case Nil
  then show ?case by (simp add: restrict_map_def)
next
  case (Cons s ss)
  then have S: "growable_stack_at page mx s" "M w (mem_base s) = Some (unat (total_size s))"
    "stacks_ok page (M w) mx (s # (ss @ outs))" by (auto simp: stacks_ok_Cons)
  obtain w1 where d: "cfiber_growable_stack_destroy nd os s w = Some (stack_null, w1)" "ok w1"
    "M w1 = (M w)(mem_base s := None)" by (rule destroy_stack_spec [OF Cons.prems(1) S(1,2)])
  from Cons.IH [OF d(2) stacks_ok_unmap [OF S(3) d(3)]] obtain w' where
    w': "destroy_stacks nd os ss w1 = Some w'" "ok w'" "stacks_ok page (M w') mx outs"
    "M w' = M w1 |` (- (mem_base ` set ss))" by blast
  have "M w' = M w |` (- (mem_base ` set (s # ss)))"
    unfolding w'(4) d(3) by (auto simp: restrict_map_def fun_eq_iff)
  moreover have "destroy_stacks nd os (s # ss) w = Some w'" using d(1) w'(1) by simp
  ultimately show ?case using w'(2,3) by blast
qed

text \<open>\<open>cfiber_growable_stack_allocator_destroy\<close> unmaps the cached stacks and only those; with
  stacks still out it fails its assertion in a debug build and reports -1 in a release build.\<close>

lemma growable_destroy_spec:
  assumes ok: "ok w" and inv: "ga_inv page (M w) ga outs"
  shows "\<exists>w'. ok w' \<and> M w' = M w |` (- (mem_base ` set (ga_cache ga))) \<and>
     cfiber_growable_stack_allocator_destroy nd os ga w =
       (if outs = [] then Some (0, w') else if nd then Some (- 1, w') else None)"
proof -
  note i = inv [unfolded ga_inv_def]
  have "length outs < 2 ^ 64" using stacks_ok_length [of w "ga_max_stack_size ga" "ga_cache ga @ outs"] i by simp
  then have z: "ga_active_count ga = 0 \<longleftrightarrow> outs = []"
  proof -
    have "unat (ga_active_count ga) = length outs"
      using i \<open>length outs < 2 ^ 64\<close> by (simp add: unat_of_nat_small)
    then show ?thesis by (metis length_0_conv unat_eq_0)
  qed
  from destroy_stacks_spec [OF ok, of _ "ga_cache ga" outs nd] i obtain w1 where
    w1: "destroy_stacks nd os (ga_cache ga) w = Some w1" "ok w1"
    "M w1 = M w |` (- (mem_base ` set (ga_cache ga)))" by blast
  let ?w2 = "vm_free os (ga_cache_mem ga) w1"
  let ?w3 = "vm_free os (ga_self ga) ?w2"
  have "ok ?w3" "M ?w3 = M w1" using free_keeps w1(2) by auto
  moreover have "growable_allocator_cleanup nd os ga w = Some ?w3"
    using w1(1) i by (simp add: growable_allocator_cleanup_def)
  ultimately show ?thesis
    using w1(3) z by (intro exI [of _ ?w3]) (simp add: cfiber_growable_stack_allocator_destroy_def)
qed

end

text \<open>Filling the cache, and \<open>cfiber_growable_stack_allocator_create\<close>: an allocator in order with
  as many stacks cached as asked for, or nothing and no region left mapped.\<close>

context vm_contract
begin

lemma precache_spec:
  "ok w \<Longrightarrow> growable_max_ok page (ga_max_stack_size ga) \<Longrightarrow>
   stacks_ok page (M w) (ga_max_stack_size ga) (ga_cache ga) \<Longrightarrow>
   \<exists>b ss w'. precache os n ga w = (b, ga\<lparr>ga_cache := ss\<rparr>, w') \<and> ok w' \<and>
     stacks_ok page (M w') (ga_max_stack_size ga) ss \<and>
     (b \<longrightarrow> length ss = length (ga_cache ga) + n) \<and>
     M w' |` (- (mem_base ` set ss)) = M w |` (- (mem_base ` set (ga_cache ga)))"
proof (induction n arbitrary: ga w)
  case 0
  then show ?case by (intro exI [of _ True] exI [of _ "ga_cache ga"] exI [of _ w]) simp
next
  case (Suc n)
  let ?mx = "ga_max_stack_size ga"
  from Suc.prems(1) show ?case
  proof (cases rule: create_spec [where mx = ?mx])
    case invalid
    then show ?thesis using Suc.prems(2) by simp
  next
    case (failed w')
    have "precache os (Suc n) ga w = (False, ga\<lparr>ga_cache := ga_cache ga\<rparr>, w')"
      using failed(1) by (simp add: stack_null_def)
    moreover have "stacks_ok page (M w') ?mx (ga_cache ga)" using Suc.prems(3) failed(3) by simp
    moreover have "M w' |` (- (mem_base ` set (ga_cache ga))) = M w |` (- (mem_base ` set (ga_cache ga)))"
      using failed(3) by simp
    ultimately show ?thesis using failed(2) by blast
  next
    case (created s w1)
    let ?ga = "ga\<lparr>ga_cache := ga_cache ga @ [s]\<rparr>"
    have nz: "mem_base s \<noteq> 0" using created(4) by (simp add: growable_stack_at_def)
    have "stacks_ok page (M w1) ?mx (s # ga_cache ga)"
      by (rule stacks_ok_map [OF Suc.prems(3) created(5,4,6)])
    moreover have "mset (s # ga_cache ga) = mset (ga_cache ga @ [s])" by simp
    ultimately have st: "stacks_ok page (M w1) ?mx (ga_cache ga @ [s])" using stacks_ok_mset by blast
    have "growable_max_ok page (ga_max_stack_size ?ga)"
      "stacks_ok page (M w1) (ga_max_stack_size ?ga) (ga_cache ?ga)" using created(2) st by simp_all
    from Suc.IH [OF created(3) this] obtain b ss w' where
      P: "precache os n ?ga w1 = (b, ?ga\<lparr>ga_cache := ss\<rparr>, w')" "ok w'"
      "stacks_ok page (M w') (ga_max_stack_size ?ga) ss" "b \<longrightarrow> length ss = length (ga_cache ?ga) + n"
      "M w' |` (- (mem_base ` set ss)) = M w1 |` (- (mem_base ` set (ga_cache ?ga)))" by blast
    have run: "precache os (Suc n) ga w = (b, ga\<lparr>ga_cache := ss\<rparr>, w')"
      using created(1) nz P(1) by simp
    have sok: "stacks_ok page (M w') ?mx ss" using P(3) by simp
    have len: "b \<longrightarrow> length ss = length (ga_cache ga) + Suc n" using P(4) by simp
    have "mem_base s \<notin> dom (M w)" using created(5) by auto
    then have "M w1 |` (- (mem_base ` set (ga_cache ?ga))) = M w |` (- (mem_base ` set (ga_cache ga)))"
      unfolding created(6) by (auto simp: restrict_map_def fun_eq_iff)
    then have "M w' |` (- (mem_base ` set ss)) = M w |` (- (mem_base ` set (ga_cache ga)))"
      using P(5) by simp
    then show ?thesis using run P(2) sok len by blast
  qed
qed

lemma allocator_create_spec:
  assumes ok: "ok w" and mx: "growable_max_ok page (arg_max_stack_size args)"
    and cap: "arg_cache_capacity args \<noteq> 0" "arg_initial_cached args \<le> arg_cache_capacity args"
  obtains
    (none) w' where "cfiber_growable_stack_allocator_create nd os args w = Some (None, w')" "ok w'"
      "M w' = M w"
  | (made) ga w' where "cfiber_growable_stack_allocator_create nd os args w = Some (Some ga, w')" "ok w'"
      "ga_inv page (M w') ga []" "length (ga_cache ga) = unat (arg_initial_cached args)"
      "M w' |` (- (mem_base ` set (ga_cache ga))) = M w" "ga_self ga \<noteq> 0"
      "ga_max_stack_size ga = arg_max_stack_size args"
proof -
  let ?mx = "arg_max_stack_size args" and ?c = "arg_cache_capacity args"
  have pos: "0 < (int page)" using page_word(3) by simp
  have checks: "\<not> (?mx = 0 \<or> ?mx AND (of_nat page - 1) \<noteq> 0)" "\<not> (?c = 0 \<or> arg_initial_cached args > ?c)"
    using create_check [of ?mx] mx cap by auto
  obtain p w1 where p: "vm_calloc os 1 SIZEOF_ALLOCATOR w = (p, w1)" by fastforce
  have w1: "ok w1" "M w1 = M w" using calloc_keeps [OF ok p] by auto
  show thesis
  proof (cases "p = 0")
    case True
    then show thesis
      using none [of w1] w1 p pos checks
      by (simp add: cfiber_growable_stack_allocator_create_def pagesize Let_def)
  next
    case pn: False
    obtain c w2 where c: "vm_calloc os ?c SIZEOF_STACK w1 = (c, w2)" by fastforce
    have w2: "ok w2" "M w2 = M w" using calloc_keeps [OF w1(1) c] w1 by auto
    let ?ga = "\<lparr>ga_self = p, ga_max_stack_size = ?mx, ga_total_size = ?mx + of_nat page, ga_cache_mem = c,
      ga_cache = [], ga_cache_capacity = ?c, ga_active_count = 0\<rparr>"
    show thesis
    proof (cases "c = 0")
      case True
      have "growable_allocator_cleanup nd os ?ga w2 = Some (vm_free os p w2)"
        using True by (simp add: growable_allocator_cleanup_def)
      then show thesis
        using none [of "vm_free os p w2"] free_keeps [OF w2(1), of p] w2 p pn c True pos checks
        by (simp add: cfiber_growable_stack_allocator_create_def pagesize Let_def)
    next
      case cn: False
      have "growable_max_ok page (ga_max_stack_size ?ga)"
        "stacks_ok page (M w2) (ga_max_stack_size ?ga) (ga_cache ?ga)"
        using mx by (simp_all add: stacks_ok_def)
      from precache_spec [OF w2(1) this, of "unat (arg_initial_cached args)"] obtain b ss w3 where
        P: "precache os (unat (arg_initial_cached args)) ?ga w2 = (b, ?ga\<lparr>ga_cache := ss\<rparr>, w3)" "ok w3"
        "stacks_ok page (M w3) (ga_max_stack_size ?ga) ss"
        "b \<longrightarrow> length ss = length (ga_cache ?ga) + unat (arg_initial_cached args)"
        "M w3 |` (- (mem_base ` set ss)) = M w2 |` (- (mem_base ` set (ga_cache ?ga)))" by blast
      have rest: "M w3 |` (- (mem_base ` set ss)) = M w" using P(5) w2(2) by (simp add: restrict_map_def)
      let ?ga' = "?ga\<lparr>ga_cache := ss\<rparr>"
      have "M w3 = M w3" ..
      show thesis
      proof (cases b)
        case True
        have "unat (arg_initial_cached args) \<le> unat ?c" using cap(2) by (simp add: word_le_nat_alt)
        then have "ga_inv page (M w3) ?ga' []"
          using mx cn True P(3,4) by (simp add: ga_inv_def)
        then show thesis
          using made [of ?ga' w3] True P(1,2,4) rest p pn c cn pos checks
          by (simp add: cfiber_growable_stack_allocator_create_def pagesize Let_def)
      next
        case False
        from destroy_stacks_spec [OF P(2), of _ ss "[]" nd] P(3) obtain w4 where
          w4: "destroy_stacks nd os ss w3 = Some w4" "ok w4" "M w4 = M w3 |` (- (mem_base ` set ss))" by auto
        let ?w = "vm_free os p (vm_free os c w4)"
        have "growable_allocator_cleanup nd os ?ga' w3 = Some ?w"
          using cn w4(1) by (simp add: growable_allocator_cleanup_def)
        moreover have "ok ?w" "M ?w = M w" using free_keeps w4(2,3) rest by auto
        ultimately show thesis
          using none [of ?w] False P(1) p pn c cn pos checks
          by (simp add: cfiber_growable_stack_allocator_create_def pagesize Let_def)
      qed
    qed
  qed
qed

end

end
