(* ===== verification/Growable_Properties.thy ===== *)
theory Growable_Properties
  imports Growable Examples
begin

text \<open>
  What the growable stacks of \<^verbatim>\<open>src/cfiber/stack\<close> promise, over the kernel model \<open>vm_kernel\<close> with
  4096-byte pages: \<open>place\<close> chooses every address, \<open>protects\<close> and \<open>heap\<close> when \<open>mprotect\<close> and the C
  heap refuse.
\<close>

abbreviation vm_ok :: "vm_world \<Rightarrow> bool" where
  "vm_ok w \<equiv> libc_ok (vw_map w)"

abbreviation vm_mapped :: "vm_world \<Rightarrow> u64 \<Rightarrow> nat option" where
  "vm_mapped w \<equiv> libc_regions (vw_map w)"

abbreviation growable_inv ::
  "vm_world \<Rightarrow> cfiber_growable_stack_allocator \<Rightarrow> cfiber_stack list \<Rightarrow> bool" where
  "growable_inv w ga outs \<equiv> ga_inv 4096 (vm_mapped w) ga outs"



definition demo_kernel :: "vm_world vm_os" where
  "demo_kernel = vm_kernel demo_place (\<lambda>_. True) (\<lambda>_. 64)"

definition demo_vm :: vm_world where
  "demo_vm = \<lparr>vw_map = demo_heap, vw_error = 0\<rparr>"

definition demo_args :: cfiber_growable_stack_allocator_args where
  "demo_args = \<lparr>arg_max_stack_size = 8192, arg_cache_capacity = 2, arg_initial_cached = 1\<rparr>"

lemma demo_vm_ok: "vm_ok demo_vm"
  by (simp add: demo_vm_def demo_heap_ok)

definition demo_growable :: "(cfiber_growable_stack_allocator option \<times> vm_world) option" where
  "demo_growable = cfiber_growable_stack_allocator_create False demo_kernel demo_args demo_vm"

lemma demo_growable_made: "\<exists>ga w. demo_growable = Some (Some ga, w)"
  by (simp add: demo_growable_def cfiber_growable_stack_allocator_create_def demo_kernel_def vm_kernel_def
    demo_args_def demo_vm_def demo_heap_defs SIZEOF_STACK_def SIZEOF_ALLOCATOR_def
    cfiber_growable_stack_create_def page_size_def MAP_FAILED_def stack_null_def SIZE_MAX_def Let_def
    libc_aligned_alloc_def)

lemma demo_args_ok: "growable_max_ok 4096 (arg_max_stack_size demo_args)" "arg_cache_capacity demo_args \<noteq> 0"
  "arg_initial_cached demo_args \<le> arg_cache_capacity demo_args"
  by (simp_all add: growable_max_ok_def demo_args_def)

lemma demo_growable_inv:
  obtains ga w where "demo_growable = Some (Some ga, w)" "vm_ok w" "growable_inv w ga []" "length (ga_cache ga) = 1"
proof -
  show thesis
  proof (cases rule: kernel.allocator_create_spec [OF demo_vm_ok demo_args_ok, where nd = False and
        place = demo_place and protects = "\<lambda>_. True" and heap = "\<lambda>_. 64"])
    case (1 w')
    then have "demo_growable = Some (None, w')" by (simp add: demo_growable_def demo_kernel_def)
    moreover obtain ga w where "demo_growable = Some (Some ga, w)" using demo_growable_made by blast
    ultimately have "Some (None, w') = Some (Some ga, w)" by (rule trans [OF sym])
    then show thesis by simp
  next
    case (2 ga w')
    then show thesis using that [of ga w'] by (simp add: demo_growable_def demo_kernel_def demo_args_def)
  qed
qed




text \<open>\<open>cfiber_growable_stack_allocator_destroy\<close> unmaps every cached stack and nothing else.
  It reports 0 when every stack came back; with stacks still out it trips the assertion in a debug build
  and returns -1 in a release build, leaving those stacks mapped.\<close>

theorem growable_destroy_reports:
  assumes "vm_ok w" "growable_inv w ga outs"
  shows "\<exists>w'. vm_ok w' \<and> vm_mapped w' = vm_mapped w |` (- (mem_base ` set (ga_cache ga))) \<and>
    (\<forall>s. s \<in> set outs \<longrightarrow> vm_mapped w' (mem_base s) = vm_mapped w (mem_base s)) \<and>
    cfiber_growable_stack_allocator_destroy nd (vm_kernel place protects heap) ga w =
      (if outs = [] then Some (0, w') else if nd then Some (- 1, w') else None)"
proof -
  have "mem_base s \<notin> mem_base ` set (ga_cache ga)" if "s \<in> set outs" for s
    using assms(2) that by (auto simp: ga_inv_def stacks_ok_def)
  then show ?thesis
    using kernel.growable_destroy_spec [OF assms, of nd place protects heap] by (fastforce simp: restrict_map_def)
qed

lemma growable_destroy_reports_witness:
  "\<exists>ga w w'. demo_growable = Some (Some ga, w) \<and>
     cfiber_growable_stack_allocator_destroy False demo_kernel ga w = Some (0, w')"
proof -
  obtain ga w where g: "demo_growable = Some (Some ga, w)" "vm_ok w" "growable_inv w ga []"
    by (rule demo_growable_inv)
  from growable_destroy_reports [OF g(2,3), of False demo_place "\<lambda>_. True" "\<lambda>_. 64"] g(1) show ?thesis
    by (auto simp: demo_kernel_def)
qed

end
