(* ===== verification/Reactor_Types.thy ===== *)
theory Reactor_Types
  imports Fiber Growable Multislab
begin

text \<open>
  The data of \<^verbatim>\<open>src/cfiber/reactor/reactor.c\<close>: fibers, commands, the reactor, and the world it runs
  in. \<open>re_blocks\<close> is the memory of the fiber blocks, by address; the pool never gives a slab back, so a
  block's contents outlive its fiber and a handle can be checked against them. The system calls are
  the record \<open>sys\<close>, a parameter; each returns what the kernel returns, a negative number for an error,
  and \<open>libc_ret\<close> is the wrapper that moves it to \<open>errno\<close>. ThreadSanitizer fields are left out.
\<close>

section \<open>Fibers\<close>

datatype fiber_state = FB_FREE | FB_READY | FB_RUNNING | FB_PARKED | FB_ZOMBIE

datatype park_kind = PARK_FD | PARK_TIMER | PARK_ASYNC

datatype ev_status = EV_READY | EV_TIMEOUT | EV_CANCELLED | EV_ERROR

definition NO_TIMER :: u64 where
  "NO_TIMER = - 1"

record ev_fiber =
  ef_fiber :: cfiber
  ef_stack :: cfiber_stack
  ef_next :: u64
  ef_live_next :: u64
  ef_live_prev :: u64
  ef_state :: fiber_state
  ef_park :: park_kind
  ef_wake_pending :: bool
  ef_generation :: u64
  ef_reg_fd :: int
  ef_wait_fd :: int
  ef_timer_i :: u64
  ef_deadline_ns :: u64
  ef_wait_status :: ev_status

text \<open>A block of zero bytes, read as a fiber.\<close>

definition ev_fiber_zero :: ev_fiber where
  "ev_fiber_zero = \<lparr>ef_fiber = \<lparr>fb_ctx = cfiber_context_zero, fb_stack = 0, fb_stack_size = 0\<rparr>,
     ef_stack = stack_null, ef_next = 0, ef_live_next = 0, ef_live_prev = 0, ef_state = FB_FREE,
     ef_park = PARK_FD, ef_wake_pending = False, ef_generation = 0, ef_reg_fd = 0, ef_wait_fd = 0,
     ef_timer_i = 0, ef_deadline_ns = 0, ef_wait_status = EV_READY\<rparr>"

type_synonym blocks = "u64 \<Rightarrow> ev_fiber option"

text \<open>\<open>f->field = v\<close>, undefined when \<open>f\<close> is not a fiber block.\<close>

definition fput :: "u64 \<Rightarrow> (ev_fiber \<Rightarrow> ev_fiber) \<Rightarrow> blocks \<Rightarrow> blocks option" where
  "fput f g F = (case F f of None \<Rightarrow> None | Some c \<Rightarrow> Some (F(f \<mapsto> g c)))"

lemma fput_Some [simp]: "F f = Some c \<Longrightarrow> fput f g F = Some (F(f \<mapsto> g c))"
  by (simp add: fput_def)

lemma fput_None [simp]: "F f = None \<Longrightarrow> fput f g F = None"
  by (simp add: fput_def)

section \<open>Commands\<close>

datatype cmd_kind = CMD_WAKE | CMD_CANCEL

record cmd =
  cmd_kind_of :: cmd_kind
  cmd_target :: u64
  cmd_gen :: u64

record cmd_cell =
  cell_seq :: u64
  cell_cmd :: cmd

record cmd_ring =
  enqueue_pos :: u64
  cells_mem :: u64
  cells :: "cmd_cell list"
  ring_mask :: u64
  dequeue_pos :: u64

text \<open>\<open>cfiber_reactor_handle_t\<close>.\<close>

record handle =
  h_f :: u64
  h_gen :: u64

section \<open>The reactor\<close>

text \<open>\<open>re_heap\<close> is the used part of the timer heap, \<open>heap[0 .. heap_len - 1]\<close>; \<open>re_fd_owner\<close> is the whole
  array, its length \<open>fd_owner_cap\<close>. \<open>re_self\<close> is the reactor's own address.\<close>

record ('h, 'v) cfiber_reactor =
  re_self :: u64
  re_cmds :: cmd_ring
  re_current :: u64
  re_zombie :: u64
  re_ready_head :: u64
  re_ready_tail :: u64
  re_live_head :: u64
  re_blocks :: blocks
  re_fibers :: "'h cfiber_multislab"
  re_stacks :: cfiber_growable_stack_allocator
  re_stack_size :: u64
  re_heap_mem :: u64
  re_heap :: "u64 list"
  re_heap_cap :: u64
  re_owner_mem :: u64
  re_fd_owner :: "u64 list"
  re_epfd :: int
  re_evfd :: int
  re_active :: int
  re_blocked :: int

record cfiber_reactor_config =
  rc_stack_size :: u64
  rc_stack_cache :: u64

section \<open>System calls\<close>

text \<open>An \<open>epoll_event\<close> is its event bits and its data pointer. \<open>sys_read\<close> and \<open>sys_write\<close> see the buffer
  as bytes: a read returns what it read; \<open>sys_accept4\<close> and \<open>sys_connect\<close> see memory, for the address.\<close>

record 'k sys =
  sys_clock :: "'k \<Rightarrow> (u64 \<times> u64) \<times> 'k"
  sys_realloc :: "u64 \<Rightarrow> u64 \<Rightarrow> 'k \<Rightarrow> u64 \<times> 'k"
  sys_calloc :: "u64 \<Rightarrow> u64 \<Rightarrow> 'k \<Rightarrow> u64 \<times> 'k"
  sys_aligned_alloc :: "u64 \<Rightarrow> u64 \<Rightarrow> 'k \<Rightarrow> u64 \<times> 'k"
  sys_free :: "u64 \<Rightarrow> 'k \<Rightarrow> 'k"
  sys_epoll_ctl :: "int \<Rightarrow> int \<Rightarrow> int \<Rightarrow> (u32 \<times> u64) option \<Rightarrow> 'k \<Rightarrow> int \<times> 'k"
  sys_epoll_wait :: "int \<Rightarrow> int \<Rightarrow> int \<Rightarrow> 'k \<Rightarrow> (int \<times> (u32 \<times> u64) list) \<times> 'k"
  sys_epoll_create :: "'k \<Rightarrow> int \<times> 'k"
  sys_eventfd :: "'k \<Rightarrow> int \<times> 'k"
  sys_read :: "int \<Rightarrow> nat \<Rightarrow> 'k \<Rightarrow> (int \<times> u8 list) \<times> 'k"
  sys_write :: "int \<Rightarrow> u8 list \<Rightarrow> 'k \<Rightarrow> int \<times> 'k"
  sys_accept4 :: "int \<Rightarrow> u64 \<Rightarrow> u64 \<Rightarrow> int \<Rightarrow> (u64 \<Rightarrow> u8) \<Rightarrow> 'k \<Rightarrow> int \<times> (u64 \<Rightarrow> u8) \<times> 'k"
  sys_connect :: "int \<Rightarrow> u64 \<Rightarrow> u32 \<Rightarrow> (u64 \<Rightarrow> u8) \<Rightarrow> 'k \<Rightarrow> int \<times> 'k"
  sys_so_error :: "int \<Rightarrow> 'k \<Rightarrow> (int \<times> int) \<times> 'k"
  sys_fcntl :: "int \<Rightarrow> int \<Rightarrow> int \<Rightarrow> 'k \<Rightarrow> int \<times> 'k"
  sys_close :: "int \<Rightarrow> 'k \<Rightarrow> int \<times> 'k"
  sys_sched_yield :: "'k \<Rightarrow> 'k"

text \<open>The world outside the reactor's struct: the heap behind the fiber pool, the mapped stacks, the
  kernel, \<open>errno\<close>, and the bytes of memory.\<close>

record ('h, 'v, 'k) world =
  w_heap :: 'h
  w_vm :: 'v
  w_sys :: 'k
  w_errno :: int
  w_bytes :: "u64 \<Rightarrow> u8"

text \<open>What is fixed during a run.\<close>

record ('v, 'k) renv =
  e_nd :: bool
  e_sys :: "'k sys"
  e_vm :: "'v vm_os"
  e_prologue :: u64
  e_creator :: cpu

text \<open>Thread-local state: \<open>g_reactor\<close>, the address of the reactor the thread runs, and the fiber-return
  hook.\<close>

record rthread =
  g_reactor :: u64
  r_hook :: cfiber_return_hook

definition libc_ret :: "int \<Rightarrow> ('h, 'v, 'k) world \<Rightarrow> int \<times> ('h, 'v, 'k) world" where
  "libc_ret r w = (if r < 0 then (- 1, w\<lparr>w_errno := - r\<rparr>) else (r, w))"

definition EINTR :: int where "EINTR = 4"
definition EIO :: int where "EIO = 5"
definition EBADF :: int where "EBADF = 9"
definition EAGAIN :: int where "EAGAIN = 11"
definition ENOMEM :: int where "ENOMEM = 12"
definition EBUSY :: int where "EBUSY = 16"
definition EEXIST :: int where "EEXIST = 17"
definition ENOENT :: int where "ENOENT = 2"
definition ETIMEDOUT :: int where "ETIMEDOUT = 110"
definition EINPROGRESS :: int where "EINPROGRESS = 115"
definition ECANCELED :: int where "ECANCELED = 125"

definition EPOLL_CTL_ADD :: int where "EPOLL_CTL_ADD = 1"
definition EPOLL_CTL_DEL :: int where "EPOLL_CTL_DEL = 2"
definition EPOLL_CTL_MOD :: int where "EPOLL_CTL_MOD = 3"

definition EPOLLIN :: u32 where "EPOLLIN = 1"
definition EPOLLOUT :: u32 where "EPOLLOUT = 4"
definition EPOLLONESHOT :: u32 where "EPOLLONESHOT = 1073741824"

definition CFIBER_EV_IN :: u32 where "CFIBER_EV_IN = 1"
definition CFIBER_EV_OUT :: u32 where "CFIBER_EV_OUT = 2"

lemmas errno_defs = EINTR_def EIO_def EBADF_def EAGAIN_def ENOMEM_def EBUSY_def EEXIST_def ENOENT_def
  ETIMEDOUT_def EINPROGRESS_def ECANCELED_def EINVAL_def
lemmas epoll_defs = EPOLL_CTL_ADD_def EPOLL_CTL_DEL_def EPOLL_CTL_MOD_def EPOLLIN_def EPOLLOUT_def
  EPOLLONESHOT_def CFIBER_EV_IN_def CFIBER_EV_OUT_def

section \<open>Time\<close>

definition now_ns :: "('v, 'k) renv \<Rightarrow> ('h, 'v, 'k) world \<Rightarrow> u64 \<times> ('h, 'v, 'k) world" where
  "now_ns e w = (case sys_clock (e_sys e) (w_sys w) of ((sec, nsec), k) \<Rightarrow>
     (sec * 1000000000 + nsec, w\<lparr>w_sys := k\<rparr>))"

definition NO_DEADLINE :: u64 where
  "NO_DEADLINE = - 1"

definition deadline_after ::
  "('v, 'k) renv \<Rightarrow> u64 \<Rightarrow> ('h, 'v, 'k) world \<Rightarrow> u64 \<times> ('h, 'v, 'k) world" where
  "deadline_after e ns w = (let (now, w) = now_ns e w in
     (if ns > NO_DEADLINE - now then NO_DEADLINE else now + ns, w))"

text \<open>\<open>int64_t\<close> arguments are words read with \<open>sint\<close>.\<close>

definition deadline_after_opt ::
  "('v, 'k) renv \<Rightarrow> i64 \<Rightarrow> ('h, 'v, 'k) world \<Rightarrow> u64 \<times> ('h, 'v, 'k) world" where
  "deadline_after_opt e timeout_ns w =
     (if sint timeout_ns < 0 then (NO_DEADLINE, w) else deadline_after e timeout_ns w)"

definition INT64_MAX :: u64 where
  "INT64_MAX = 9223372036854775807"

definition remaining_ns ::
  "('v, 'k) renv \<Rightarrow> u64 \<Rightarrow> ('h, 'v, 'k) world \<Rightarrow> i64 \<times> ('h, 'v, 'k) world" where
  "remaining_ns e deadline w =
     (if deadline = NO_DEADLINE then (- 1, w)
      else
        let (now, w) = now_ns e w in
        if deadline \<le> now then (0, w)
        else
          let left = deadline - now
          in (if left > INT64_MAX then INT64_MAX else left, w))"

definition INT32_MAX :: u64 where
  "INT32_MAX = 2147483647"

text \<open>The loop's poll timeout, as a function of the root of the heap.\<close>

definition next_timeout_ms ::
  "('v, 'k) renv \<Rightarrow> ('h, 'v) cfiber_reactor \<Rightarrow> ('h, 'v, 'k) world \<Rightarrow> (int \<times> ('h, 'v, 'k) world) option" where
  "next_timeout_ms e s w =
     (case re_heap s of
        [] \<Rightarrow> Some (- 1, w)
      | f # _ \<Rightarrow> do {
          c \<leftarrow> re_blocks s f;
          let deadline = ef_deadline_ns c;
          let (now, w) = now_ns e w;
          if deadline \<le> now then Some (0, w)
          else
            let left = deadline - now in
            if left \<ge> INT32_MAX * 1000000 then Some (uint INT32_MAX, w)
            else Some (sint (ucast ((left + 999999) div 1000000) :: 32 word), w)
        })"

end
