(* ===== verification/Heap_List.thy ===== *)
theory Heap_List
  imports Prelude "HOL-Library.Multiset"
begin

text \<open>
  Binary min-heaps in a list, by a key: the reference for the timer heap of the reactor. \<open>up\<close> and
  \<open>down\<close> restore the order from one position; the lemmas give what they need and what they leave.
\<close>

section \<open>Positions\<close>

definition par :: "nat \<Rightarrow> nat" where
  "par j = (j - 1) div 2"

definition swap :: "'a list \<Rightarrow> nat \<Rightarrow> nat \<Rightarrow> 'a list" where
  "swap h i j = h[i := h ! j, j := h ! i]"

lemma par_less [simp]: "0 < j \<Longrightarrow> par j < j"
  unfolding par_def by presburger

lemma par_lt: "0 < j \<Longrightarrow> j < n \<Longrightarrow> par j < n"
  using par_less by (rule less_trans)

lemma par_children: "0 < j \<Longrightarrow> par j = i \<longleftrightarrow> j = 2 * i + 1 \<or> j = 2 * i + 2"
  unfolding par_def by presburger

lemma length_swap [simp]: "length (swap h i j) = length h"
  by (simp add: swap_def)

lemma swap_nth: "i < length h \<Longrightarrow> j < length h \<Longrightarrow> m < length h \<Longrightarrow>
    swap h i j ! m = h ! (if m = i then j else if m = j then i else m)"
  by (auto simp: swap_def nth_list_update)

lemma mset_swap_list: "i < length h \<Longrightarrow> j < length h \<Longrightarrow> mset (swap h i j) = mset h"
  unfolding swap_def by (rule mset_swap)

section \<open>Order\<close>

definition heap_at :: "('a \<Rightarrow> u64) \<Rightarrow> 'a list \<Rightarrow> nat \<Rightarrow> bool" where
  "heap_at k h j \<longleftrightarrow> 0 < j \<and> j < length h \<longrightarrow> k (h ! par j) \<le> k (h ! j)"

definition is_heap :: "('a \<Rightarrow> u64) \<Rightarrow> 'a list \<Rightarrow> bool" where
  "is_heap k h \<longleftrightarrow> (\<forall>j. heap_at k h j)"

text \<open>The grandparent of the position under repair bounds its children.\<close>

definition bridged :: "('a \<Rightarrow> u64) \<Rightarrow> 'a list \<Rightarrow> nat \<Rightarrow> bool" where
  "bridged k h i \<longleftrightarrow> (\<forall>j. 0 < i \<and> 0 < j \<and> j < length h \<and> par j = i \<longrightarrow> k (h ! par i) \<le> k (h ! j))"

text \<open>Order may fail between \<open>i\<close> and its parent, or between \<open>i\<close> and its children.\<close>

definition up_ok :: "('a \<Rightarrow> u64) \<Rightarrow> 'a list \<Rightarrow> nat \<Rightarrow> bool" where
  "up_ok k h i \<longleftrightarrow> (\<forall>j. j \<noteq> i \<longrightarrow> heap_at k h j) \<and> bridged k h i"

definition down_ok :: "('a \<Rightarrow> u64) \<Rightarrow> 'a list \<Rightarrow> nat \<Rightarrow> bool" where
  "down_ok k h i \<longleftrightarrow> (\<forall>j. \<not> (0 < j \<and> par j = i) \<longrightarrow> heap_at k h j) \<and> bridged k h i"

lemma heap_root:
  assumes "is_heap k h" "j < length h"
  shows "k (h ! 0) \<le> k (h ! j)"
  using assms(2)
proof (induction j rule: less_induct)
  case (less j)
  show ?case
  proof (cases "j = 0")
    case False
    then have "k (h ! par j) \<le> k (h ! j)" using assms(1) less.prems by (auto simp: is_heap_def heap_at_def)
    moreover have "k (h ! 0) \<le> k (h ! par j)"
      using less.IH [of "par j"] less.prems False par_lt by simp
    ultimately show ?thesis by simp
  qed simp
qed

section \<open>Up\<close>

function up :: "('a \<Rightarrow> u64) \<Rightarrow> 'a list \<Rightarrow> nat \<Rightarrow> 'a list" where
  "up k h i = (if 0 < i \<and> k (h ! i) < k (h ! par i) then up k (swap h i (par i)) (par i) else h)"
  by pat_completeness auto
termination by (relation "measure (\<lambda>(k, h, i). i)") auto

declare up.simps [simp del]

lemma up_heap:
  "up_ok k h i \<Longrightarrow> i < length h \<Longrightarrow> is_heap k (up k h i) \<and> mset (up k h i) = mset h"
proof (induction k h i rule: up.induct)
  case (1 k h i)
  show ?case
  proof (cases "0 < i \<and> k (h ! i) < k (h ! par i)")
    case False
    have "heap_at k h i" using False by (auto simp: heap_at_def)
    then have "is_heap k h" using "1.prems"(1) by (auto simp: is_heap_def up_ok_def)
    moreover have "up k h i = h" using False by (subst up.simps) (simp only: if_False)
    ultimately show ?thesis by simp
  next
    case True
    let ?p = "par i" and ?h = "swap h i (par i)"
    have p: "?p < i" "?p < length h" using True "1.prems"(2) par_lt by auto
    note nth = swap_nth [OF "1.prems"(2) p(2)]
    have H: "\<And>j. j \<noteq> i \<Longrightarrow> heap_at k h j" and B: "bridged k h i"
      using "1.prems"(1) by (auto simp: up_ok_def)
    have "up_ok k ?h ?p"
      unfolding up_ok_def
    proof (intro conjI allI impI)
      fix j assume j: "j \<noteq> ?p"
      show "heap_at k ?h j"
        unfolding heap_at_def
      proof (intro impI)
        assume jl: "0 < j \<and> j < length ?h"
        then have pj: "par j < length h" by (auto intro: par_lt)
        consider "j = i" | "j \<noteq> i" "par j = i" | "j \<noteq> i" "par j = ?p" | "j \<noteq> i" "par j \<noteq> i" "par j \<noteq> ?p"
          by blast
        then show "k (?h ! par j) \<le> k (?h ! j)"
        proof cases
          case 1
          then show ?thesis using True p jl by (auto simp: nth intro: less_imp_le)
        next
          case 2
          then have "k (h ! ?p) \<le> k (h ! j)" using B jl True by (auto simp: bridged_def)
          then show ?thesis using 2 jl j pj p by (simp add: nth)
        next
          case 3
          then have "k (h ! ?p) \<le> k (h ! j)" using H [of j] jl by (auto simp: heap_at_def)
          then show ?thesis using 3 jl j pj p True by (auto simp: nth intro: order_trans less_imp_le)
        next
          case 4
          then show ?thesis using H [of j] jl j pj by (simp add: nth heap_at_def)
        qed
      qed
    next
      show "bridged k ?h ?p"
        unfolding bridged_def
      proof (intro allI impI)
        fix j assume j: "0 < ?p \<and> 0 < j \<and> j < length ?h \<and> par j = ?p"
        have pp: "par ?p < ?p" using j by simp
        have gp: "k (h ! par ?p) \<le> k (h ! ?p)" using H [of ?p] j p by (auto simp: heap_at_def)
        have "k (h ! ?p) \<le> k (h ! j)" if "j \<noteq> i" using H [of j] that j by (auto simp: heap_at_def)
        then have "k (h ! par ?p) \<le> k (?h ! j)" using gp j p by (cases "j = i") (auto simp: nth dest: par_less)
        then show "k (?h ! par ?p) \<le> k (?h ! j)" using pp p by (simp add: nth)
      qed
    qed
    from "1.IH" [OF True this] p(2) have "is_heap k (up k ?h ?p) \<and> mset (up k ?h ?p) = mset ?h" by simp
    then show ?thesis using True mset_swap_list [OF "1.prems"(2) p(2)] by (simp add: up.simps [of k h i])
  qed
qed

lemma up_id: "is_heap k h \<Longrightarrow> i < length h \<Longrightarrow> up k h i = h"
  by (auto simp: up.simps [of k h i] is_heap_def heap_at_def)

section \<open>Down\<close>

definition least_child :: "('a \<Rightarrow> u64) \<Rightarrow> 'a list \<Rightarrow> nat \<Rightarrow> nat" where
  "least_child k h i =
     (let l = 2 * i + 1; r = 2 * i + 2;
          m = (if l < length h \<and> k (h ! l) < k (h ! i) then l else i)
      in if r < length h \<and> k (h ! r) < k (h ! m) then r else m)"

lemma least_child_pos:
  "least_child k h i = i \<or> (i < least_child k h i \<and> least_child k h i < length h \<and>
     0 < least_child k h i \<and> par (least_child k h i) = i \<and> k (h ! least_child k h i) < k (h ! i))"
  by (auto simp: least_child_def Let_def par_def)

lemma least_child_min:
  "0 < j \<Longrightarrow> j < length h \<Longrightarrow> par j = i \<Longrightarrow> k (h ! least_child k h i) \<le> k (h ! j)"
  by (auto simp: least_child_def Let_def par_children)

function down :: "('a \<Rightarrow> u64) \<Rightarrow> 'a list \<Rightarrow> nat \<Rightarrow> 'a list" where
  "down k h i = (if least_child k h i = i then h else down k (swap h i (least_child k h i)) (least_child k h i))"
  by pat_completeness auto
termination
proof (relation "measure (\<lambda>(k, h, i). length h - i)", simp)
  fix k :: "'a \<Rightarrow> u64" and h i assume "least_child k h i \<noteq> i"
  then show "((k, swap h i (least_child k h i), least_child k h i), (k, h, i)) \<in> measure (\<lambda>(k, h, i). length h - i)"
    using least_child_pos [of k h i] by auto
qed

declare down.simps [simp del]

lemma down_heap:
  "down_ok k h i \<Longrightarrow> i < length h \<Longrightarrow> is_heap k (down k h i) \<and> mset (down k h i) = mset h"
proof (induction k h i rule: down.induct)
  case (1 k h i)
  let ?m = "least_child k h i"
  have H: "\<And>j. \<not> (0 < j \<and> par j = i) \<Longrightarrow> heap_at k h j" and B: "bridged k h i"
    using "1.prems"(1) by (auto simp: down_ok_def)
  show ?case
  proof (cases "?m = i")
    case True
    have "heap_at k h j" for j
      using H [of j] least_child_min [of j h i k] True by (auto simp: heap_at_def)
    then show ?thesis using True by (simp add: down.simps [of k h i] is_heap_def)
  next
    case False
    then have m: "i < ?m" "?m < length h" "par ?m = i" "k (h ! ?m) < k (h ! i)" "0 < ?m"
      using least_child_pos [of k h i] by auto
    let ?h = "swap h i ?m"
    note nth = swap_nth [OF "1.prems"(2) m(2)]
    have "down_ok k ?h ?m"
      unfolding down_ok_def
    proof (intro conjI allI impI)
      fix j assume j: "\<not> (0 < j \<and> par j = ?m)"
      show "heap_at k ?h j"
        unfolding heap_at_def
      proof (intro impI)
        assume jl: "0 < j \<and> j < length ?h"
        then have pj: "par j < length h" "par j \<noteq> ?m" "par j < j" using j par_lt by auto
        consider "j = ?m" | "j \<noteq> ?m" "par j = i" | "j = i" | "j \<noteq> ?m" "j \<noteq> i" "par j \<noteq> i" by blast
        then show "k (?h ! par j) \<le> k (?h ! j)"
        proof cases
          case 1
          then show ?thesis using m jl by (simp add: nth)
        next
          case 2
          then show ?thesis using least_child_min [of j h i k] jl pj by (auto simp: nth)
        next
          case 3
          then have "k (h ! par i) \<le> k (h ! ?m)" using B jl m by (auto simp: bridged_def)
          then show ?thesis using 3 jl pj m by (simp add: nth)
        next
          case 4
          then show ?thesis using H [of j] jl pj by (simp add: nth heap_at_def)
        qed
      qed
    next
      show "bridged k ?h ?m"
        unfolding bridged_def
      proof (intro allI impI)
        fix j assume j: "0 < ?m \<and> 0 < j \<and> j < length ?h \<and> par j = ?m"
        then have "?m < j" using par_less [of j] by simp
        moreover have "k (h ! ?m) \<le> k (h ! j)" using H [of j] j m by (auto simp: heap_at_def)
        ultimately show "k (?h ! par ?m) \<le> k (?h ! j)" using m j by (simp add: nth)
      qed
    qed
    from "1.IH" [OF False this] m(2) have "is_heap k (down k ?h ?m) \<and> mset (down k ?h ?m) = mset ?h" by simp
    then show ?thesis using False mset_swap_list [OF "1.prems"(2) m(2)] by (simp add: down.simps [of k h i])
  qed
qed

section \<open>Insertion and removal\<close>

lemma heap_snoc:
  assumes "is_heap k h"
  shows "is_heap k (up k (h @ [x]) (length h))" "mset (up k (h @ [x]) (length h)) = add_mset x (mset h)"
proof -
  have "up_ok k (h @ [x]) (length h)"
    unfolding up_ok_def bridged_def
  proof (intro conjI allI impI)
    fix j assume "j \<noteq> length h"
    then show "heap_at k (h @ [x]) j"
      using assms par_lt [of j "length h"] by (auto simp: is_heap_def heap_at_def nth_append)
  next
    fix j assume "0 < length h \<and> 0 < j \<and> j < length (h @ [x]) \<and> par j = length h"
    then show "k ((h @ [x]) ! par (length h)) \<le> k ((h @ [x]) ! j)" using par_less [of j] by simp
  qed
  from up_heap [OF this] show "is_heap k (up k (h @ [x]) (length h))"
    "mset (up k (h @ [x]) (length h)) = add_mset x (mset h)" by simp_all
qed

lemma heap_butlast: "is_heap k h \<Longrightarrow> is_heap k (butlast h)"
proof -
  assume h: "is_heap k h"
  have "k (butlast h ! par j) \<le> k (butlast h ! j)" if "0 < j" "j < length (butlast h)" for j
  proof -
    have "par j < length (butlast h)" using that par_less [of j] by linarith
    then show ?thesis using h that by (auto simp: is_heap_def heap_at_def nth_butlast)
  qed
  then show ?thesis by (simp add: is_heap_def heap_at_def)
qed

text \<open>Replacing an element: down and then up from its place.\<close>

lemma heap_replace:
  assumes h: "is_heap k h" and i: "i < length h"
  shows "is_heap k (up k (down k (h[i := x]) i) i)" "mset (up k (down k (h[i := x]) i) i) = mset (h[i := x])"
proof -
  let ?h = "h[i := x]"
  have at: "heap_at k ?h j" if "j \<noteq> i" "\<not> (0 < j \<and> par j = i)" for j
    using h that by (auto simp: is_heap_def heap_at_def nth_list_update)
  have b: "bridged k ?h i"
    unfolding bridged_def
  proof (intro allI impI)
    fix j assume j: "0 < i \<and> 0 < j \<and> j < length ?h \<and> par j = i"
    then have "i < j" "par i < i" using par_less [of j] by auto
    moreover have "k (h ! par i) \<le> k (h ! i)" "k (h ! i) \<le> k (h ! j)"
      using h i j by (auto simp: is_heap_def heap_at_def)
    ultimately show "k (?h ! par i) \<le> k (?h ! j)" by (auto simp: nth_list_update)
  qed
  have "is_heap k (up k (down k ?h i) i) \<and> mset (up k (down k ?h i) i) = mset ?h"
  proof (cases "heap_at k ?h i")
    case True
    have "heap_at k ?h j" if "\<not> (0 < j \<and> par j = i)" for j
      using at [OF _ that] True by (cases "j = i") simp_all
    then have "down_ok k ?h i" unfolding down_ok_def using b by simp
    from down_heap [OF this] i have D: "is_heap k (down k ?h i)" "mset (down k ?h i) = mset ?h" by simp_all
    then have "length (down k ?h i) = length h" by (metis length_list_update mset_eq_length)
    then show ?thesis using D up_id [OF D(1), of i] i by simp
  next
    case False
    then have lt: "0 < i" "k x < k (h ! par i)" using i par_less [of i] by (auto simp: heap_at_def nth_list_update split: if_splits)
    have ch: "k x \<le> k (?h ! j)" if "0 < j" "j < length h" "par j = i" for j
    proof -
      have "par i < i" using lt(1) by simp
      moreover have "i < j" using par_less [of j] that by simp
      ultimately have "par i \<noteq> i" "j \<noteq> i" by simp_all
      then have "k (h ! par i) \<le> k (?h ! j)" using b that lt(1) by (auto simp: bridged_def)
      then show ?thesis using lt(2) by simp
    qed
    then have "least_child k ?h i = i"
      using least_child_pos [of k ?h i] i by (metis length_list_update linorder_not_less nth_list_update_eq)
    then have "down k ?h i = ?h" by (simp add: down.simps [of k ?h i])
    moreover have "up_ok k ?h i"
    proof -
      have "heap_at k ?h j" if "j \<noteq> i" for j
        using at [OF that] ch [of j] i by (cases "par j = i") (auto simp: heap_at_def)
      then show ?thesis using b by (simp add: up_ok_def)
    qed
    ultimately show ?thesis using up_heap [of k ?h i] i by simp
  qed
  then show "is_heap k (up k (down k ?h i) i)" "mset (up k (down k ?h i) i) = mset ?h" by simp_all
qed

end
