(* ===== verification/Timer_Heap.thy ===== *)
theory Timer_Heap
  imports Reactor_Types Heap_List
begin

text \<open>
  The timer heap of \<^verbatim>\<open>reactor.c\<close>: an array of fiber pointers ordered by deadline, each fiber knowing
  its own index. The lemmas show that the routines compute the list heap of theory \<open>Heap_List\<close> and
  keep every index right. Indices are \<open>size_t\<close> values below the array's length, so they are written
  as natural numbers.
\<close>

section \<open>The routines\<close>

text \<open>\<open>while (cap < need) cap *= 2\<close>; it runs forever if the product reaches 0.\<close>

partial_function (option) grow_cap :: "u64 \<Rightarrow> u64 \<Rightarrow> u64 option" where
  "grow_cap need cap = (if cap < need then grow_cap need (cap * 2) else Some cap)"

definition TIMER_HEAP_INIT_CAP :: u64 where
  "TIMER_HEAP_INIT_CAP = 16"

definition heap_reserve ::
  "('v, 'k) renv \<Rightarrow> ('h, 'v) cfiber_reactor \<Rightarrow> u64 \<Rightarrow> ('h, 'v, 'k) world \<Rightarrow>
   (bool \<times> ('h, 'v) cfiber_reactor \<times> ('h, 'v, 'k) world) option" where
  "heap_reserve e s need w =
     (if need \<le> re_heap_cap s then Some (True, s, w)
      else do {
        cap \<leftarrow> grow_cap need (if re_heap_cap s \<noteq> 0 then re_heap_cap s * 2 else TIMER_HEAP_INIT_CAP);
        let (h, k) = sys_realloc (e_sys e) (re_heap_mem s) (cap * 8) (w_sys w);
        let w = w\<lparr>w_sys := k\<rparr>;
        if h = 0 then Some (False, s, w)
        else Some (True, s\<lparr>re_heap_mem := h, re_heap_cap := cap\<rparr>, w)
      })"

definition heap_swap :: "('h, 'v) cfiber_reactor \<Rightarrow> nat \<Rightarrow> nat \<Rightarrow> ('h, 'v) cfiber_reactor option" where
  "heap_swap s a b =
     (if a < length (re_heap s) \<and> b < length (re_heap s) then do {
        let h = (re_heap s)[a := re_heap s ! b, b := re_heap s ! a];
        F \<leftarrow> fput (h ! a) (ef_timer_i_update (\<lambda>_. of_nat a)) (re_blocks s);
        F \<leftarrow> fput (h ! b) (ef_timer_i_update (\<lambda>_. of_nat b)) F;
        Some (s\<lparr>re_heap := h, re_blocks := F\<rparr>)
      } else None)"

text \<open>\<open>s->heap[i]->deadline_ns\<close>.\<close>

definition heap_deadline :: "('h, 'v) cfiber_reactor \<Rightarrow> nat \<Rightarrow> u64 option" where
  "heap_deadline s i =
     (if i < length (re_heap s) then map_option ef_deadline_ns (re_blocks s (re_heap s ! i)) else None)"

lemma half_less: "0 < i \<Longrightarrow> (i - Suc 0) div 2 < i"
  by presburger

function heap_sift_up :: "('h, 'v) cfiber_reactor \<Rightarrow> nat \<Rightarrow> ('h, 'v) cfiber_reactor option" where
  "heap_sift_up s i =
     (if i > 0 then
        let parent = (i - 1) div 2 in
        Option.bind (heap_deadline s parent) (\<lambda>dp.
        Option.bind (heap_deadline s i) (\<lambda>di.
          if dp \<le> di then Some s
          else Option.bind (heap_swap s i parent) (\<lambda>s. heap_sift_up s parent)))
      else Some s)"
  by pat_completeness auto
termination by (relation "measure snd") (auto simp: half_less)

definition heap_smallest :: "('h, 'v) cfiber_reactor \<Rightarrow> nat \<Rightarrow> nat option" where
  "heap_smallest s i = do {
     let l = 2 * i + 1;
     let r = 2 * i + 2;
     let n = length (re_heap s);
     let smallest = i;
     smallest \<leftarrow> (if l < n then do {
         dl \<leftarrow> heap_deadline s l; ds \<leftarrow> heap_deadline s smallest;
         Some (if dl < ds then l else smallest)
       } else Some smallest);
     (if r < n then do {
        dr \<leftarrow> heap_deadline s r; ds \<leftarrow> heap_deadline s smallest;
        Some (if dr < ds then r else smallest)
      } else Some smallest)
   }"

lemma heap_smallest_bound:
  "heap_smallest s i = Some m \<Longrightarrow> m = i \<or> (i < m \<and> m < length (re_heap s))"
  by (auto simp: heap_smallest_def Let_def split: if_splits Option.bind_splits)

lemma heap_swap_length: "heap_swap s a b = Some s' \<Longrightarrow> length (re_heap s') = length (re_heap s)"
  by (auto simp: heap_swap_def Let_def split: if_splits Option.bind_splits)

function heap_sift_down :: "('h, 'v) cfiber_reactor \<Rightarrow> nat \<Rightarrow> ('h, 'v) cfiber_reactor option" where
  "heap_sift_down s i =
     Option.bind (heap_smallest s i) (\<lambda>smallest.
       if smallest = i then Some s
       else Option.bind (heap_swap s i smallest) (\<lambda>s. heap_sift_down s smallest))"
  by pat_completeness auto
termination
proof (relation "measure (\<lambda>(s, i). length (re_heap s) - i)", simp)
  fix s s' :: "('h, 'v) cfiber_reactor" and i m
  assume "heap_smallest s i = Some m" "m \<noteq> i" "heap_swap s i m = Some s'"
  then show "((s', m), (s, i)) \<in> measure (\<lambda>(s, i). length (re_heap s) - i)"
    using heap_smallest_bound [of s i m] heap_swap_length [of s i m s'] by auto
qed

declare heap_sift_up.simps [simp del] heap_sift_down.simps [simp del]

definition timer_add ::
  "('v, 'k) renv \<Rightarrow> ('h, 'v) cfiber_reactor \<Rightarrow> u64 \<Rightarrow> u64 \<Rightarrow> ('h, 'v, 'k) world \<Rightarrow>
   (bool \<times> ('h, 'v) cfiber_reactor \<times> ('h, 'v, 'k) world) option" where
  "timer_add e s f deadline w = do {
     (ok, s, w) \<leftarrow> heap_reserve e s (of_nat (length (re_heap s)) + 1) w;
     if \<not> ok then Some (False, s, w)
     else if \<not> length (re_heap s) < unat (re_heap_cap s) then None
     else do {
       let i = of_nat (length (re_heap s));
       F \<leftarrow> fput f (\<lambda>c. c\<lparr>ef_deadline_ns := deadline, ef_timer_i := i\<rparr>) (re_blocks s);
       s \<leftarrow> heap_sift_up (s\<lparr>re_blocks := F, re_heap := re_heap s @ [f]\<rparr>) (unat i);
       Some (True, s, w)
     }
   }"

definition timer_remove :: "('h, 'v) cfiber_reactor \<Rightarrow> u64 \<Rightarrow> ('h, 'v) cfiber_reactor option" where
  "timer_remove s f = do {
     c \<leftarrow> re_blocks s f;
     let i = ef_timer_i c;
     if i = NO_TIMER then Some s
     else do {
       F \<leftarrow> fput f (ef_timer_i_update (\<lambda>_. NO_TIMER)) (re_blocks s);
       let i = unat i;
       let last = length (re_heap s) - 1;
       if \<not> i < length (re_heap s) then None
       else if i \<noteq> last then do {
         let x = re_heap s ! last;
         F \<leftarrow> fput x (ef_timer_i_update (\<lambda>_. of_nat i)) F;
         s \<leftarrow> heap_sift_down (s\<lparr>re_blocks := F, re_heap := (butlast (re_heap s))[i := x]\<rparr>) i;
         heap_sift_up s i
       }
       else Some (s\<lparr>re_blocks := F, re_heap := butlast (re_heap s)\<rparr>)
     }
   }"

section \<open>Indices\<close>

definition dl :: "blocks \<Rightarrow> u64 \<Rightarrow> u64" where
  "dl F f = (case F f of Some c \<Rightarrow> ef_deadline_ns c | None \<Rightarrow> 0)"

definition back_ok :: "blocks \<Rightarrow> u64 list \<Rightarrow> bool" where
  "back_ok F h \<longleftrightarrow> distinct h \<and>
     (\<forall>i < length h. \<exists>c. F (h ! i) = Some c \<and> ef_timer_i c = of_nat i)"

text \<open>Only indices of fibers of the heap change.\<close>

definition retimed :: "u64 set \<Rightarrow> blocks \<Rightarrow> blocks \<Rightarrow> bool" where
  "retimed H F F' \<longleftrightarrow> (\<forall>p. F' p = F p \<or>
     (p \<in> H \<and> (\<exists>c t. F p = Some c \<and> F' p = Some (c\<lparr>ef_timer_i := t\<rparr>))))"

lemma retimed_refl [simp]: "retimed H F F"
  by (simp add: retimed_def)

lemma retimed_trans: "retimed H F F' \<Longrightarrow> retimed H F' F'' \<Longrightarrow> retimed H F F''"
proof -
  assume a: "retimed H F F'" "retimed H F' F''"
  show ?thesis
    unfolding retimed_def
  proof
    fix p
    show "F'' p = F p \<or> (p \<in> H \<and> (\<exists>c t. F p = Some c \<and> F'' p = Some (c\<lparr>ef_timer_i := t\<rparr>)))"
      using a [unfolded retimed_def, THEN spec, of p] by (cases "F p"; cases "F' p") auto
  qed
qed

lemma retimed_dl: "retimed H F F' \<Longrightarrow> dl F' p = dl F p"
  unfolding retimed_def dl_def by (drule spec [of _ p]) auto

lemma heap_deadline_dl: "back_ok (re_blocks s) (re_heap s) \<Longrightarrow> i < length (re_heap s) \<Longrightarrow>
    heap_deadline s i = Some (dl (re_blocks s) (re_heap s ! i))"
  by (auto simp: heap_deadline_def back_ok_def dl_def)

lemma heap_swap_spec:
  assumes b: "back_ok (re_blocks s) (re_heap s)" and i: "i < length (re_heap s)" "j < length (re_heap s)"
    and ne: "i \<noteq> j"
  obtains F where "heap_swap s i j = Some (s\<lparr>re_heap := swap (re_heap s) i j, re_blocks := F\<rparr>)"
    "back_ok F (swap (re_heap s) i j)" "retimed (set (re_heap s)) (re_blocks s) F"
proof -
  let ?h = "re_heap s" and ?F = "re_blocks s"
  let ?h' = "swap ?h i j"
  have d: "distinct ?h" using b by (simp add: back_ok_def)
  obtain ci cj where c: "?F (?h ! i) = Some ci" "?F (?h ! j) = Some cj"
    using b i unfolding back_ok_def by blast
  have nij: "?h ! i \<noteq> ?h ! j" using d i ne by (simp add: nth_eq_iff_index_eq)
  have h': "?h' ! i = ?h ! j" "?h' ! j = ?h ! i" using i ne by (simp_all add: swap_nth)
  let ?F' = "?F(?h ! j \<mapsto> cj\<lparr>ef_timer_i := of_nat i\<rparr>, ?h ! i \<mapsto> ci\<lparr>ef_timer_i := of_nat j\<rparr>)"
  have run: "heap_swap s i j = Some (s\<lparr>re_heap := ?h', re_blocks := ?F'\<rparr>)"
    using i c nij h' by (simp add: heap_swap_def swap_def Let_def)
  have "back_ok ?F' ?h'"
    unfolding back_ok_def
  proof (intro conjI allI impI)
    show "distinct ?h'" using d i by (simp add: swap_def)
    fix m assume m: "m < length ?h'"
    show "\<exists>c. ?F' (?h' ! m) = Some c \<and> ef_timer_i c = of_nat m"
    proof (cases "m = i \<or> m = j")
      case True
      then show ?thesis using nij h' by auto
    next
      case False
      then have "?h' ! m = ?h ! m" "?h ! m \<noteq> ?h ! i" "?h ! m \<noteq> ?h ! j"
        using d i m by (simp_all add: swap_nth nth_eq_iff_index_eq)
      then show ?thesis using b m by (simp add: back_ok_def)
    qed
  qed
  moreover have "retimed (set ?h) ?F ?F'" using c i by (auto simp: retimed_def)
  ultimately show thesis using that run by blast
qed

section \<open>The routines compute the list heap\<close>

lemma heap_sift_up_spec:
  "back_ok (re_blocks s) (re_heap s) \<Longrightarrow> i < length (re_heap s) \<Longrightarrow>
   \<exists>F. heap_sift_up s i = Some (s\<lparr>re_heap := up (dl (re_blocks s)) (re_heap s) i, re_blocks := F\<rparr>) \<and>
     back_ok F (up (dl (re_blocks s)) (re_heap s) i) \<and> retimed (set (re_heap s)) (re_blocks s) F"
proof (induction i arbitrary: s rule: less_induct)
  case (less i)
  let ?h = "re_heap s" and ?k = "dl (re_blocks s)"
  show ?case
  proof (cases "0 < i")
    case False
    then have "up ?k ?h i = ?h" "heap_sift_up s i = Some s"
      by (simp_all add: heap_sift_up.simps [of s] up.simps [of _ _ 0])
    then show ?thesis using less.prems by (auto intro!: exI [of _ "re_blocks s"])
  next
    case pos: True
    have p: "par i < i" "par i < length ?h" using pos less.prems(2) par_lt by auto
    have pd: "(i - 1) div 2 = par i" by (simp add: par_def)
    note D = heap_deadline_dl [OF less.prems] heap_deadline_dl [OF less.prems(1) p(2)]
    show ?thesis
    proof (cases "?k (?h ! par i) \<le> ?k (?h ! i)")
      case True
      then show ?thesis
        using less.prems D pd
        by (auto simp: heap_sift_up.simps [of s] up.simps [of _ _ i] Let_def intro!: exI [of _ "re_blocks s"])
    next
      case False
      obtain F where F: "heap_swap s i (par i) = Some (s\<lparr>re_heap := swap ?h i (par i), re_blocks := F\<rparr>)"
        "back_ok F (swap ?h i (par i))" "retimed (set ?h) (re_blocks s) F"
        by (rule heap_swap_spec [OF less.prems p(2)]) (use p in auto)
      let ?s = "s\<lparr>re_heap := swap ?h i (par i), re_blocks := F\<rparr>"
      have k: "dl F = ?k" using retimed_dl [OF F(3)] by (simp add: fun_eq_iff)
      have "back_ok (re_blocks ?s) (re_heap ?s)" "par i < length (re_heap ?s)" using F(2) p by simp_all
      from less.IH [OF p(1) this] obtain F' where
        F': "heap_sift_up ?s (par i) = Some (?s\<lparr>re_heap := up ?k (swap ?h i (par i)) (par i), re_blocks := F'\<rparr>)"
        "back_ok F' (up ?k (swap ?h i (par i)) (par i))" "retimed (set (swap ?h i (par i))) F F'"
        by (auto simp: k)
      have "set (swap ?h i (par i)) = set ?h"
        using mset_swap_list [OF less.prems(2) p(2)] by (metis set_mset_mset)
      then have r: "retimed (set ?h) (re_blocks s) F'" using retimed_trans [OF F(3)] F'(3) by simp
      have u: "up ?k ?h i = up ?k (swap ?h i (par i)) (par i)"
        using pos False by (subst up.simps) (simp only: not_le if_True simp_thms)
      have "heap_sift_up s i = heap_sift_up ?s (par i)"
        using pos D False F(1) pd by (simp add: heap_sift_up.simps [of s] Let_def)
      then show ?thesis using F'(1,2) r u by (intro exI [of _ F']) simp
    qed
  qed
qed

lemma heap_smallest_spec:
  assumes "back_ok (re_blocks s) (re_heap s)" "i < length (re_heap s)"
  shows "heap_smallest s i = Some (least_child (dl (re_blocks s)) (re_heap s) i)"
  using heap_deadline_dl [OF assms] heap_deadline_dl [OF assms(1), of "2 * i + 1"]
    heap_deadline_dl [OF assms(1), of "2 * i + 2"]
  by (cases "2 * i + 1 < length (re_heap s)"; cases "2 * i + 2 < length (re_heap s)")
    (simp_all add: heap_smallest_def least_child_def Let_def)

lemma heap_sift_down_spec:
  "back_ok (re_blocks s) (re_heap s) \<Longrightarrow> i < length (re_heap s) \<Longrightarrow>
   \<exists>F. heap_sift_down s i = Some (s\<lparr>re_heap := down (dl (re_blocks s)) (re_heap s) i, re_blocks := F\<rparr>) \<and>
     back_ok F (down (dl (re_blocks s)) (re_heap s) i) \<and> retimed (set (re_heap s)) (re_blocks s) F"
proof (induction "length (re_heap s) - i" arbitrary: s i rule: less_induct)
  case less
  let ?h = "re_heap s" and ?k = "dl (re_blocks s)"
  let ?m = "least_child ?k ?h i"
  note S = heap_smallest_spec [OF less.prems]
  show ?case
  proof (cases "?m = i")
    case True
    then show ?thesis
      using less.prems S
      by (auto simp: heap_sift_down.simps [of s] down.simps [of _ _ i] intro!: exI [of _ "re_blocks s"])
  next
    case False
    then have m: "i < ?m" "?m < length ?h" using least_child_pos [of ?k ?h i] by auto
    obtain F where F: "heap_swap s i ?m = Some (s\<lparr>re_heap := swap ?h i ?m, re_blocks := F\<rparr>)"
      "back_ok F (swap ?h i ?m)" "retimed (set ?h) (re_blocks s) F"
      by (rule heap_swap_spec [OF less.prems m(2)]) (use m in auto)
    let ?s = "s\<lparr>re_heap := swap ?h i ?m, re_blocks := F\<rparr>"
    have k: "dl F = ?k" using retimed_dl [OF F(3)] by (simp add: fun_eq_iff)
    have "back_ok (re_blocks ?s) (re_heap ?s)" "?m < length (re_heap ?s)"
      "length (re_heap ?s) - ?m < length ?h - i" using F(2) m by auto
    from less.hyps [OF this(3,1,2)] obtain F' where
      F': "heap_sift_down ?s ?m = Some (?s\<lparr>re_heap := down ?k (swap ?h i ?m) ?m, re_blocks := F'\<rparr>)"
      "back_ok F' (down ?k (swap ?h i ?m) ?m)" "retimed (set (swap ?h i ?m)) F F'"
      by (auto simp: k)
    have "set (swap ?h i ?m) = set ?h"
      using mset_swap_list [OF less.prems(2) m(2)] by (metis set_mset_mset)
    then have r: "retimed (set ?h) (re_blocks s) F'" using retimed_trans [OF F(3)] F'(3) by simp
    have u: "down ?k ?h i = down ?k (swap ?h i ?m) ?m" using False by (subst down.simps) simp
    have "heap_sift_down s i = heap_sift_down ?s ?m"
      using S False F(1) by (simp add: heap_sift_down.simps [of s])
    then show ?thesis using F'(1,2) r u by (intro exI [of _ F']) simp
  qed
qed
section \<open>Adding and removing a timer\<close>

text \<open>The heap of a reactor is in order. \<open>cap\<close> is bounded by what \<open>realloc\<close> can return.\<close>

definition timers_ok :: "('h, 'v) cfiber_reactor \<Rightarrow> bool" where
  "timers_ok s \<longleftrightarrow> back_ok (re_blocks s) (re_heap s) \<and> is_heap (dl (re_blocks s)) (re_heap s) \<and>
     length (re_heap s) \<le> unat (re_heap_cap s) \<and> unat (re_heap_cap s) < 2 ^ 60"

text \<open>What the C library documents of \<open>realloc\<close>: no object is larger than \<open>PTRDIFF_MAX\<close>.\<close>

definition realloc_bounded :: "'k sys \<Rightarrow> bool" where
  "realloc_bounded os \<longleftrightarrow> (\<forall>p n k. fst (sys_realloc os p n k) \<noteq> 0 \<longrightarrow> unat n < 2 ^ 63)"

lemma grow_cap_enough: "need \<le> cap \<Longrightarrow> grow_cap need cap = Some cap"
  by (subst grow_cap.simps) (auto simp: not_less)

lemma grow_array:
  assumes os: "realloc_bounded os" and cap: "unat cap < 2 ^ 60" "unat need \<le> unat cap + 1"
    and init: "init = 16 \<or> init = 64"
    and call: "sys_realloc os m ((if cap \<noteq> 0 then cap * 2 else init) * 8) k = (h, k')"
  shows "grow_cap need (if cap \<noteq> 0 then cap * 2 else init) = Some (if cap \<noteq> 0 then cap * 2 else init)"
    "h \<noteq> 0 \<Longrightarrow> unat (if cap \<noteq> 0 then cap * 2 else init) < 2 ^ 60"
    "unat need \<le> unat (if cap \<noteq> 0 then cap * 2 else init)"
proof -
  let ?c = "if cap \<noteq> 0 then cap * 2 else init"
  have u: "unat (cap * 2) = unat cap * 2" using cap(1) by (subst unat_mult_no_wrap) simp_all
  have c: "unat ?c < 2 ^ 61" using u cap(1) init by auto
  show need: "unat need \<le> unat ?c"
  proof (cases "cap = 0")
    case True
    then show ?thesis using cap(2) init by auto
  next
    case False
    then have "0 < unat cap" by (simp add: unat_gt_0)
    then show ?thesis using False cap(2) u by simp
  qed
  then show "grow_cap need ?c = Some ?c" by (intro grow_cap_enough) (simp add: word_le_nat_alt)
  have "unat (?c * 8) = unat ?c * 8" using c by (subst unat_mult_no_wrap) simp_all
  moreover have "h \<noteq> 0 \<Longrightarrow> unat (?c * 8) < 2 ^ 63" using os call unfolding realloc_bounded_def by (metis fst_conv)
  ultimately show "h \<noteq> 0 \<Longrightarrow> unat ?c < 2 ^ 60" by simp
qed

lemma heap_reserve_spec:
  assumes os: "realloc_bounded (e_sys e)" and cap: "unat (re_heap_cap s) < 2 ^ 60"
    and n: "n \<le> unat (re_heap_cap s)"
  obtains
    (none) k where "heap_reserve e s (of_nat n + 1) w = Some (False, s, w\<lparr>w_sys := k\<rparr>)"
  | (room) m c k where "heap_reserve e s (of_nat n + 1) w = Some (True, s\<lparr>re_heap_mem := m, re_heap_cap := c\<rparr>, w\<lparr>w_sys := k\<rparr>)"
      "n < unat c" "unat c < 2 ^ 60"
proof -
  have n1: "unat (of_nat n + 1 :: u64) = n + 1"
    using n cap by (subst unat_add_no_wrap) (simp_all add: unat_of_nat_small)
  show thesis
  proof (cases "of_nat n + 1 \<le> re_heap_cap s")
    case True
    then have "n < unat (re_heap_cap s)" using n1 by (simp add: word_le_nat_alt)
    then show thesis
      using room [where m = "re_heap_mem s" and c = "re_heap_cap s" and k = "w_sys w"] True cap by (simp add: heap_reserve_def)
  next
    case False
    let ?c = "if re_heap_cap s \<noteq> 0 then re_heap_cap s * 2 else TIMER_HEAP_INIT_CAP"
    obtain h k where call: "sys_realloc (e_sys e) (re_heap_mem s) (?c * 8) (w_sys w) = (h, k)" by fastforce
    have need: "unat (of_nat n + 1 :: u64) \<le> unat (re_heap_cap s) + 1" using n1 n by simp
    note G = grow_array [OF os cap need _ call]
    have i: "TIMER_HEAP_INIT_CAP = 16 \<or> TIMER_HEAP_INIT_CAP = 64" by (simp add: TIMER_HEAP_INIT_CAP_def)
    note G = G [OF i]
    show thesis
    proof (cases "h = 0")
      case True
      then show thesis using none [of k] False G(1) call by (simp add: heap_reserve_def Let_def)
    next
      case nz: False
      then show thesis
        using room [where m = h and c = ?c and k = k] False G call n1 by (simp add: heap_reserve_def Let_def)
    qed
  qed
qed

lemma back_ok_index:
  assumes "back_ok F h" "f \<in> set h" "F f = Some c" "length h < 2 ^ 60"
  obtains i where "i < length h" "h ! i = f" "ef_timer_i c = of_nat i" "unat (ef_timer_i c) = i"
    "ef_timer_i c \<noteq> NO_TIMER"
proof -
  obtain i where i: "i < length h" "h ! i = f" using assms(2) by (auto simp: in_set_conv_nth)
  then have t: "ef_timer_i c = of_nat i" using assms(1,3) by (auto simp: back_ok_def)
  have u: "unat (of_nat i :: u64) = i" using i assms(4) by (intro unat_of_nat_small) simp
  then have "of_nat i \<noteq> NO_TIMER" using i assms(4) by (auto simp: NO_TIMER_def)
  then show thesis using that i t u by simp
qed

lemma timer_add_spec:
  assumes t: "timers_ok s" and os: "realloc_bounded (e_sys e)"
    and f: "re_blocks s f = Some c" "f \<notin> set (re_heap s)"
  obtains
    (none) k where "timer_add e s f d w = Some (False, s, w\<lparr>w_sys := k\<rparr>)"
  | (added) m cap k h F where
      "timer_add e s f d w = Some (True, s\<lparr>re_heap_mem := m, re_heap_cap := cap, re_heap := h, re_blocks := F\<rparr>,
         w\<lparr>w_sys := k\<rparr>)"
      "timers_ok (s\<lparr>re_heap_mem := m, re_heap_cap := cap, re_heap := h, re_blocks := F\<rparr>)"
      "mset h = add_mset f (mset (re_heap s))"
      "retimed (set h) ((re_blocks s)(f \<mapsto> c\<lparr>ef_deadline_ns := d\<rparr>)) F"
proof -
  let ?h = "re_heap s" and ?n = "length (re_heap s)"
  note T = t [unfolded timers_ok_def]
  from os have "unat (re_heap_cap s) < 2 ^ 60" "?n \<le> unat (re_heap_cap s)" using T by auto
  from os this show thesis
  proof (cases rule: heap_reserve_spec [where w = w])
    case (none k)
    then show thesis using that(1) by (simp add: timer_add_def)
  next
    case (room m cap k)
    let ?c = "c\<lparr>ef_deadline_ns := d, ef_timer_i := of_nat ?n\<rparr>"
    let ?F = "(re_blocks s)(f \<mapsto> ?c)"
    let ?s = "s\<lparr>re_heap_mem := m, re_heap_cap := cap, re_blocks := ?F, re_heap := ?h @ [f]\<rparr>"
    have un: "unat (of_nat ?n :: u64) = ?n" using room by (intro unat_of_nat_small) simp
    have b: "back_ok ?F (?h @ [f])"
      unfolding back_ok_def
    proof (intro conjI allI impI)
      show "distinct (?h @ [f])" using T f(2) by (simp add: back_ok_def)
      fix i assume i: "i < length (?h @ [f])"
      show "\<exists>c. ?F ((?h @ [f]) ! i) = Some c \<and> ef_timer_i c = of_nat i"
      proof (cases "i < ?n")
        case True
        then have "?h ! i \<noteq> f" using f(2) nth_mem by blast
        then show ?thesis using T True by (simp add: nth_append back_ok_def)
      next
        case False
        then have "i = ?n" using i by simp
        then show ?thesis by simp
      qed
    qed
    then have b': "back_ok (re_blocks ?s) (re_heap ?s)" "?n < length (re_heap ?s)" by simp_all
    from heap_sift_up_spec [OF b'] obtain F where F:
      "heap_sift_up ?s ?n = Some (?s\<lparr>re_heap := up (dl ?F) (?h @ [f]) ?n, re_blocks := F\<rparr>)"
      "back_ok F (up (dl ?F) (?h @ [f]) ?n)" "retimed (set (?h @ [f])) ?F F" by auto
    let ?h' = "up (dl ?F) (?h @ [f]) ?n"
    have kf: "dl F = dl ?F" using retimed_dl [OF F(3)] by (simp add: fun_eq_iff)
    have "heap_at (dl ?F) ?h j" for j
    proof -
      have "heap_at (dl (re_blocks s)) ?h j" using T by (simp add: is_heap_def)
      moreover have "dl ?F (?h ! m) = dl (re_blocks s) (?h ! m)" if "m < ?n" for m
        using f(2) that nth_mem by (auto simp: dl_def)
      ultimately show ?thesis using par_lt by (auto simp: heap_at_def)
    qed
    then have "is_heap (dl ?F) ?h" by (simp add: is_heap_def)
    note S = heap_snoc [OF this, of f]
    have len: "length ?h' = ?n + 1" using S(2) by (metis add_mset_add_single length_append_singleton mset.simps(2)
          mset_append mset_eq_length Suc_eq_plus1 mset_single_iff_right size_mset)
    let ?s' = "s\<lparr>re_heap_mem := m, re_heap_cap := cap, re_heap := ?h', re_blocks := F\<rparr>"
    have run: "timer_add e s f d w = Some (True, ?s', w\<lparr>w_sys := k\<rparr>)"
      using room(1,2) f(1) F(1) un by (simp add: timer_add_def Let_def)
    have ok: "timers_ok ?s'" using F(2) S(1) kf len room(2,3) by (simp add: timers_ok_def)
    have "set ?h' = insert f (set ?h)" using S(2) by (metis set_mset_add_mset_insert set_mset_mset)
    then have "retimed (set ?h') ?F F" using F(3) by simp
    moreover have "retimed (set ?h') ((re_blocks s)(f \<mapsto> c\<lparr>ef_deadline_ns := d\<rparr>)) ?F"
      using \<open>set ?h' = insert f (set ?h)\<close> by (auto simp: retimed_def)
    ultimately have "retimed (set ?h') ((re_blocks s)(f \<mapsto> c\<lparr>ef_deadline_ns := d\<rparr>)) F" by (rule retimed_trans [rotated])
    then show thesis using that(2) [OF run ok S(2)] by simp
  qed
qed

lemma timer_remove_none:
  "re_blocks s f = Some c \<Longrightarrow> ef_timer_i c = NO_TIMER \<Longrightarrow> timer_remove s f = Some s"
  by (simp add: timer_remove_def)

lemma timer_remove_spec:
  assumes t: "timers_ok s" and f: "re_blocks s f = Some c" "f \<in> set (re_heap s)"
  obtains h F where "timer_remove s f = Some (s\<lparr>re_heap := h, re_blocks := F\<rparr>)"
    "timers_ok (s\<lparr>re_heap := h, re_blocks := F\<rparr>)" "mset h = mset (re_heap s) - {#f#}"
    "retimed (set (re_heap s)) (re_blocks s) F" "F f = Some (c\<lparr>ef_timer_i := NO_TIMER\<rparr>)"
proof -
  let ?h = "re_heap s" and ?F0 = "re_blocks s"
  note T = t [unfolded timers_ok_def]
  have d: "distinct ?h" using T by (simp add: back_ok_def)
  obtain i where i: "i < length ?h" "?h ! i = f" "ef_timer_i c = of_nat i" "unat (ef_timer_i c) = i"
    "ef_timer_i c \<noteq> NO_TIMER"
    by (rule back_ok_index [of ?F0 ?h f c]) (use T f in auto)
  let ?l = "length ?h - 1"
  let ?F1 = "?F0(f \<mapsto> c\<lparr>ef_timer_i := NO_TIMER\<rparr>)"
  have h: "?h = butlast ?h @ [?h ! ?l]" using i(1) by (metis append_butlast_last_id last_conv_nth length_pos_if_in_set less_zeroE list.size(3) nth_mem)
  have r1: "retimed (set ?h) ?F0 ?F1" using f by (auto simp: retimed_def)
  have bl: "butlast ?h ! j = ?h ! j" if "j < ?l" for j using that by (simp add: nth_butlast)
  show thesis
  proof (cases "i = ?l")
    case True
    let ?s = "s\<lparr>re_heap := butlast ?h, re_blocks := ?F1\<rparr>"
    have run: "timer_remove s f = Some ?s"
      using f(1) i True by (simp add: timer_remove_def Let_def)
    have "back_ok ?F1 (butlast ?h)"
      unfolding back_ok_def
    proof (intro conjI allI impI)
      show "distinct (butlast ?h)" using d by (rule distinct_butlast)
      fix j assume j: "j < length (butlast ?h)"
      then have "?h ! j \<noteq> f" using d i True by (auto simp: nth_eq_iff_index_eq)
      then show "\<exists>c. ?F1 (butlast ?h ! j) = Some c \<and> ef_timer_i c = of_nat j"
        using T j bl [of j] by (simp add: back_ok_def)
    qed
    moreover have "dl ?F1 = dl ?F0" using retimed_dl [OF r1] by (simp add: fun_eq_iff)
    ultimately have "timers_ok ?s" using T heap_butlast by (auto simp: timers_ok_def)
    moreover have "mset (butlast ?h) = mset ?h - {#f#}"
      using h i True by (metis add_mset_add_single add_mset_remove_trivial mset.simps(2) mset_append mset_single_iff)
    ultimately show thesis using that [OF run] r1 by simp
  next
    case False
    then have il: "i < ?l" using i(1) by simp
    let ?x = "?h ! ?l"
    have xf: "?x \<noteq> f" using d i il by (auto simp: nth_eq_iff_index_eq)
    have "?l < length ?h" using il by simp
    then obtain cx where cx: "?F0 ?x = Some cx" using T unfolding back_ok_def by blast
    let ?F2 = "?F1(?x \<mapsto> cx\<lparr>ef_timer_i := of_nat i\<rparr>)"
    let ?h2 = "(butlast ?h)[i := ?x]"
    let ?s2 = "s\<lparr>re_blocks := ?F2, re_heap := ?h2\<rparr>"
    have xin: "?x \<in> set ?h" using il by (intro nth_mem) simp
    have r2: "retimed (set ?h) ?F0 ?F2" using f cx xf xin by (auto simp: retimed_def)
    have k2: "dl ?F2 = dl ?F0" using retimed_dl [OF r2] by (simp add: fun_eq_iff)
    have xnb: "?x \<notin> set (butlast ?h)" using d h by (metis distinct_append disjoint_insert(1) list.simps(15))
    have fb: "f \<in> set (butlast ?h)" using bl [OF il] i(2) il by (metis length_butlast nth_mem)
    have m2: "mset ?h2 = mset ?h - {#f#}"
    proof -
      have "mset ?h2 = add_mset ?x (mset (butlast ?h) - {#f#})"
        using bl [OF il] i(2) il by (simp add: mset_update)
      moreover have "mset ?h = add_mset ?x (mset (butlast ?h))" by (subst h) simp
      ultimately show ?thesis using fb by (simp add: insert_DiffM2 diff_union_swap2)
    qed
    have b2: "back_ok ?F2 ?h2"
      unfolding back_ok_def
    proof (intro conjI allI impI)
      show "distinct ?h2" using d xnb by (simp add: distinct_list_update distinct_butlast)
      fix j assume j: "j < length ?h2"
      show "\<exists>c. ?F2 (?h2 ! j) = Some c \<and> ef_timer_i c = of_nat j"
      proof (cases "j = i")
        case True
        then show ?thesis using j by simp
      next
        case False
        then have "?h2 ! j = ?h ! j" "?h ! j \<noteq> f" "?h ! j \<noteq> ?x"
          using j bl [of j] d i il by (auto simp: nth_eq_iff_index_eq)
        then show ?thesis using T j by (simp add: back_ok_def)
      qed
    qed
    have hb: "is_heap (dl ?F0) (butlast ?h)" using T heap_butlast by blast
    note R = heap_replace [OF hb, of i ?x]
    have ib: "i < length (butlast ?h)" using il by simp
    let ?h3 = "down (dl ?F0) ?h2 i"
    have e2: "re_blocks ?s2 = ?F2" "re_heap ?s2 = ?h2" by simp_all
    have "back_ok (re_blocks ?s2) (re_heap ?s2)" "i < length (re_heap ?s2)" using b2 ib by simp_all
    from heap_sift_down_spec [OF this, unfolded e2 k2] obtain F3 where F3:
      "heap_sift_down ?s2 i = Some (?s2\<lparr>re_heap := ?h3, re_blocks := F3\<rparr>)" "back_ok F3 ?h3"
      "retimed (set ?h2) ?F2 F3" by blast
    have k3: "dl F3 = dl ?F0" using retimed_dl [OF F3(3)] k2 by (simp add: fun_eq_iff)
    have ldown: "length (down k g j) = length g" for k :: "u64 \<Rightarrow> u64" and g j
      by (induction k g j rule: down.induct) (subst down.simps, simp)
    have lup: "mset (up k g j) = mset g" if "j < length g" for k :: "u64 \<Rightarrow> u64" and g j
      using that
    proof (induction k g j rule: up.induct)
      case (1 k g j)
      then show ?case
        using par_lt [of j "length g"] par_less [of j] mset_swap_list [of j g "par j"]
        by (subst up.simps) auto
    qed
    let ?s3 = "s\<lparr>re_heap := ?h3, re_blocks := F3\<rparr>"
    have "back_ok (re_blocks ?s3) (re_heap ?s3)" "i < length (re_heap ?s3)" using F3(2) ib ldown by simp_all
    have e3: "re_blocks ?s3 = F3" "re_heap ?s3 = ?h3" by simp_all
    from heap_sift_up_spec [OF \<open>back_ok (re_blocks ?s3) _\<close> \<open>i < length (re_heap ?s3)\<close>, unfolded e3 k3] obtain F4 where F4:
      "heap_sift_up ?s3 i = Some (?s3\<lparr>re_heap := up (dl ?F0) ?h3 i, re_blocks := F4\<rparr>)"
      "back_ok F4 (up (dl ?F0) ?h3 i)" "retimed (set ?h3) F3 F4" by blast
    let ?h4 = "up (dl ?F0) ?h3 i"
    note R = R [OF ib]
    have m4: "mset ?h4 = mset ?h - {#f#}" using R(2) m2 by simp
    have m3: "mset ?h3 = mset ?h2" using lup [of i ?h3 "dl ?F0"] R(2) ib ldown by simp
    have set2: "set ?h2 = set ?h - {f}" using m2 d by (metis set_mset_mset mset_remove1 set_remove1_eq)
    have s3: "set ?h3 = set ?h2" using m3 by (metis set_mset_mset)
    have r34: "retimed (set ?h2) ?F2 F4" using retimed_trans [OF F3(3)] F4(3) s3 by simp
    then have r4: "retimed (set ?h) ?F0 F4"
      using retimed_trans [OF r2, of F4] set2 unfolding retimed_def by blast
    have F4f: "F4 f = Some (c\<lparr>ef_timer_i := NO_TIMER\<rparr>)"
    proof -
      have "f \<notin> set ?h2" using set2 by blast
      then have "F4 f = ?F2 f" using r34 unfolding retimed_def by blast
      then show ?thesis using xf by simp
    qed
    have k4: "dl F4 = dl ?F0" using retimed_dl [OF r4] by (simp add: fun_eq_iff)
    have len: "length ?h4 = length ?h - 1"
      using m4 f(2) by (metis size_Diff_singleton set_mset_mset size_mset)
    let ?s4 = "s\<lparr>re_heap := ?h4, re_blocks := F4\<rparr>"
    have "timers_ok ?s4" using F4(2) R(1) k4 len T by (auto simp: timers_ok_def)
    moreover have "timer_remove s f = Some ?s4"
      using f(1) i False il cx xf F3(1) F4(1) by (simp add: timer_remove_def Let_def)
    ultimately show thesis using that m4 r4 F4f by blast
  qed
qed

end
