(* ===== verification/Cmd_Ring.thy ===== *)
theory Cmd_Ring
  imports Reactor_Types
begin

text \<open>
  The command ring of \<^verbatim>\<open>reactor.c\<close>, a bounded lock-free queue: each cell carries a sequence number that
  orders producers and the consumer. \<open>enq_step\<close> and \<open>deq_step\<close> are one atomic access each, so a run of
  several threads is an interleaving of them; \<open>ring_enqueue\<close> and \<open>ring_dequeue\<close> are the calls run with
  no other thread in between. Sequence numbers and positions are compared as signed numbers: the
  subtraction is undefined in C when it overflows, which is \<open>None\<close> here.
\<close>

section \<open>The routines\<close>

definition CMD_RING_CAP :: u64 where
  "CMD_RING_CAP = 1024"

definition POST_RETRIES :: nat where
  "POST_RETRIES = 16"

definition cmd_zero :: cmd where
  "cmd_zero = \<lparr>cmd_kind_of = CMD_WAKE, cmd_target = 0, cmd_gen = 0\<rparr>"

text \<open>\<open>(intptr_t)a - (intptr_t)b\<close>.\<close>

definition seq_dif :: "u64 \<Rightarrow> u64 \<Rightarrow> int option" where
  "seq_dif a b = (let d = sint a - sint b in
     if - (2 ^ 63) \<le> d \<and> d < 2 ^ 63 then Some d else None)"

definition SIZEOF_CELL :: u64 where
  "SIZEOF_CELL = 32"

definition ring_init ::
  "('v, 'k) renv \<Rightarrow> cmd_ring \<Rightarrow> u64 \<Rightarrow> ('h, 'v, 'k) world \<Rightarrow> int \<times> cmd_ring \<times> ('h, 'v, 'k) world" where
  "ring_init e r cap w =
     (let (p, k) = sys_calloc (e_sys e) cap SIZEOF_CELL (w_sys w);
          w = w\<lparr>w_sys := k\<rparr>
      in if p = 0 then (- 1, r\<lparr>cells_mem := 0\<rparr>, w)
         else (0, r\<lparr>cells_mem := p, ring_mask := cap - 1,
                    cells := map (\<lambda>i. \<lparr>cell_seq = of_nat i, cell_cmd = cmd_zero\<rparr>) [0 ..< unat cap],
                    enqueue_pos := 0, dequeue_pos := 0\<rparr>, w))"

definition ring_destroy ::
  "('v, 'k) renv \<Rightarrow> cmd_ring \<Rightarrow> ('h, 'v, 'k) world \<Rightarrow> cmd_ring \<times> ('h, 'v, 'k) world" where
  "ring_destroy e r w =
     (r\<lparr>cells_mem := 0, cells := []\<rparr>, w\<lparr>w_sys := sys_free (e_sys e) (cells_mem r) (w_sys w)\<rparr>)"

text \<open>\<open>r->cells[pos & r->mask]\<close>, undefined outside the array.\<close>

definition cell_at :: "cmd_ring \<Rightarrow> u64 \<Rightarrow> nat option" where
  "cell_at r pos = (let i = unat (pos AND ring_mask r) in if i < length (cells r) then Some i else None)"

text \<open>A call in progress: before its first load, before a load of \<open>seq\<close>, before the compare-exchange,
  before the plain write of the cell, before the store of \<open>seq\<close>, and returned. A compare-exchange that
  fails reloads \<open>pos\<close>; the model's fails only when the position has moved.\<close>

datatype enq_pc = Enq_load | Enq_seq u64 | Enq_cas u64 | Enq_write u64 | Enq_publish u64 | Enq_done bool

definition enq_step :: "cmd \<Rightarrow> enq_pc \<Rightarrow> cmd_ring \<Rightarrow> (enq_pc \<times> cmd_ring) option" where
  "enq_step c pc r =
     (case pc of
        Enq_load \<Rightarrow> Some (Enq_seq (enqueue_pos r), r)
      | Enq_seq pos \<Rightarrow> do {
          i \<leftarrow> cell_at r pos;
          dif \<leftarrow> seq_dif (cell_seq (cells r ! i)) pos;
          Some (if dif = 0 then Enq_cas pos else if dif < 0 then Enq_done False else Enq_load, r)
        }
      | Enq_cas pos \<Rightarrow>
          Some (if enqueue_pos r = pos then (Enq_write pos, r\<lparr>enqueue_pos := pos + 1\<rparr>)
                else (Enq_seq (enqueue_pos r), r))
      | Enq_write pos \<Rightarrow> do {
          i \<leftarrow> cell_at r pos;
          Some (Enq_publish pos, r\<lparr>cells := (cells r)[i := (cells r ! i)\<lparr>cell_cmd := c\<rparr>]\<rparr>)
        }
      | Enq_publish pos \<Rightarrow> do {
          i \<leftarrow> cell_at r pos;
          Some (Enq_done True, r\<lparr>cells := (cells r)[i := (cells r ! i)\<lparr>cell_seq := pos + 1\<rparr>]\<rparr>)
        }
      | Enq_done b \<Rightarrow> None)"

datatype deq_pc = Deq_load | Deq_seq u64 | Deq_cas u64 | Deq_copy u64 | Deq_release u64 cmd | Deq_done "cmd option"

definition deq_step :: "deq_pc \<Rightarrow> cmd_ring \<Rightarrow> (deq_pc \<times> cmd_ring) option" where
  "deq_step pc r =
     (case pc of
        Deq_load \<Rightarrow> Some (Deq_seq (dequeue_pos r), r)
      | Deq_seq pos \<Rightarrow> do {
          i \<leftarrow> cell_at r pos;
          dif \<leftarrow> seq_dif (cell_seq (cells r ! i)) (pos + 1);
          Some (if dif = 0 then Deq_cas pos else if dif < 0 then Deq_done None else Deq_load, r)
        }
      | Deq_cas pos \<Rightarrow>
          Some (if dequeue_pos r = pos then (Deq_copy pos, r\<lparr>dequeue_pos := pos + 1\<rparr>)
                else (Deq_seq (dequeue_pos r), r))
      | Deq_copy pos \<Rightarrow> do {
          i \<leftarrow> cell_at r pos;
          Some (Deq_release pos (cell_cmd (cells r ! i)), r)
        }
      | Deq_release pos c \<Rightarrow> do {
          i \<leftarrow> cell_at r pos;
          Some (Deq_done (Some c),
                r\<lparr>cells := (cells r)[i := (cells r ! i)\<lparr>cell_seq := pos + ring_mask r + 1\<rparr>]\<rparr>)
        }
      | Deq_done c \<Rightarrow> None)"

partial_function (option) enq_run :: "cmd \<Rightarrow> enq_pc \<Rightarrow> cmd_ring \<Rightarrow> (bool \<times> cmd_ring) option" where
  "enq_run c pc r =
     (case pc of Enq_done b \<Rightarrow> Some (b, r)
      | _ \<Rightarrow> Option.bind (enq_step c pc r) (\<lambda>(pc, r). enq_run c pc r))"

partial_function (option) deq_run :: "deq_pc \<Rightarrow> cmd_ring \<Rightarrow> (cmd option \<times> cmd_ring) option" where
  "deq_run pc r =
     (case pc of Deq_done c \<Rightarrow> Some (c, r)
      | _ \<Rightarrow> Option.bind (deq_step pc r) (\<lambda>(pc, r). deq_run pc r))"

definition ring_enqueue :: "cmd_ring \<Rightarrow> cmd \<Rightarrow> (bool \<times> cmd_ring) option" where
  "ring_enqueue r c = enq_run c Enq_load r"

definition ring_dequeue :: "cmd_ring \<Rightarrow> (cmd option \<times> cmd_ring) option" where
  "ring_dequeue r = deq_run Deq_load r"

end
