(* ===== verification/Reactor.thy ===== *)
theory Reactor
  imports Timer_Heap Cmd_Ring
begin

text \<open>
  The reactor of \<^verbatim>\<open>src/cfiber/reactor/reactor.c\<close>: its ready queue, descriptor table, parking and
  waking, fiber pool, commands and spawning, one definition per function. A function that switches to
  the loop is split where it switches: \<open>park\<close> is the part of \<open>park_current\<close> before the switch, and
  what the loop does until the fiber is resumed is the parameter \<open>leave\<close> of the blocking calls.
\<close>

type_synonym ('h, 'v, 'k) rstate = "('h, 'v) cfiber_reactor \<times> ('h, 'v, 'k) world"

text \<open>\<open>f->field = v\<close> in the reactor's memory.\<close>

definition fset ::
  "u64 \<Rightarrow> (ev_fiber \<Rightarrow> ev_fiber) \<Rightarrow> ('h, 'v) cfiber_reactor \<Rightarrow> ('h, 'v) cfiber_reactor option" where
  "fset f g s = map_option (\<lambda>F. s\<lparr>re_blocks := F\<rparr>) (fput f g (re_blocks s))"

lemma fset_Some [simp]: "re_blocks s f = Some c \<Longrightarrow> fset f g s = Some (s\<lparr>re_blocks := (re_blocks s)(f \<mapsto> g c)\<rparr>)"
  by (simp add: fset_def)

lemma fset_None [simp]: "re_blocks s f = None \<Longrightarrow> fset f g s = None"
  by (simp add: fset_def)

section \<open>Ready queue\<close>

definition enqueue :: "('h, 'v) cfiber_reactor \<Rightarrow> u64 \<Rightarrow> ('h, 'v) cfiber_reactor option" where
  "enqueue s f = do {
     s \<leftarrow> fset f (ef_next_update (\<lambda>_. 0)) s;
     s \<leftarrow> (if re_ready_tail s \<noteq> 0 then fset (re_ready_tail s) (ef_next_update (\<lambda>_. f)) s
           else Some (s\<lparr>re_ready_head := f\<rparr>));
     fset f (ef_state_update (\<lambda>_. FB_READY)) (s\<lparr>re_ready_tail := f\<rparr>)
   }"

definition dequeue :: "('h, 'v) cfiber_reactor \<Rightarrow> (u64 \<times> ('h, 'v) cfiber_reactor) option" where
  "dequeue s =
     (let f = re_ready_head s in
      if f = 0 then Some (0, s)
      else do {
        c \<leftarrow> re_blocks s f;
        let s = s\<lparr>re_ready_head := ef_next c\<rparr>;
        let s = (if re_ready_head s = 0 then s\<lparr>re_ready_tail := 0\<rparr> else s);
        s \<leftarrow> fset f (ef_next_update (\<lambda>_. 0)) s;
        Some (f, s)
      })"

section \<open>Switches\<close>

text \<open>Up to the switch into \<open>f\<close>.\<close>

definition enter_fiber :: "('h, 'v) cfiber_reactor \<Rightarrow> u64 \<Rightarrow> ('h, 'v) cfiber_reactor option" where
  "enter_fiber s f = fset f (ef_state_update (\<lambda>_. FB_RUNNING)) (s\<lparr>re_current := f\<rparr>)"

text \<open>The return hook, up to the switch to the loop.\<close>

definition reactor_return_hook :: "('h, 'v) cfiber_reactor \<Rightarrow> ('h, 'v) cfiber_reactor option" where
  "reactor_return_hook s =
     (let dead = re_current s;
          s = s\<lparr>re_current := 0, re_zombie := dead\<rparr>
      in do {
        s \<leftarrow> fset dead (ef_state_update (\<lambda>_. FB_ZOMBIE)) s;
        Some (s\<lparr>re_active := re_active s - 1\<rparr>)
      })"

section \<open>Descriptors\<close>

definition FD_OWNER_INIT_CAP :: u64 where
  "FD_OWNER_INIT_CAP = 64"

definition fd_owner_reserve ::
  "('v, 'k) renv \<Rightarrow> ('h, 'v) cfiber_reactor \<Rightarrow> int \<Rightarrow> ('h, 'v, 'k) world \<Rightarrow>
   (bool \<times> ('h, 'v, 'k) rstate) option" where
  "fd_owner_reserve e s fd w =
     (let need = word_of_int fd + 1;
          old = of_nat (length (re_fd_owner s))
      in if need \<le> old then Some (True, s, w)
         else do {
           cap \<leftarrow> grow_cap need (if old \<noteq> 0 then old else FD_OWNER_INIT_CAP);
           let (m, k) = sys_realloc (e_sys e) (re_owner_mem s) (cap * 8) (w_sys w);
           let w = w\<lparr>w_sys := k\<rparr>;
           if m = 0 then Some (False, s, w)
           else Some (True, s\<lparr>re_owner_mem := m, re_fd_owner := re_fd_owner s @ replicate (unat (cap - old)) 0\<rparr>, w)
         })"

definition fd_owner_get :: "('h, 'v) cfiber_reactor \<Rightarrow> int \<Rightarrow> u64" where
  "fd_owner_get s fd = (if fd \<ge> 0 \<and> nat fd < length (re_fd_owner s) then re_fd_owner s ! nat fd else 0)"

definition c_epoll_ctl ::
  "('v, 'k) renv \<Rightarrow> int \<Rightarrow> int \<Rightarrow> int \<Rightarrow> (u32 \<times> u64) option \<Rightarrow> ('h, 'v, 'k) world \<Rightarrow> int \<times> ('h, 'v, 'k) world" where
  "c_epoll_ctl e epfd op fd ev w =
     (let (r, k) = sys_epoll_ctl (e_sys e) epfd op fd ev (w_sys w) in libc_ret r (w\<lparr>w_sys := k\<rparr>))"

definition detach_fd ::
  "('v, 'k) renv \<Rightarrow> ('h, 'v) cfiber_reactor \<Rightarrow> u64 \<Rightarrow> ('h, 'v, 'k) world \<Rightarrow> ('h, 'v, 'k) rstate option" where
  "detach_fd e s f w = do {
     c \<leftarrow> re_blocks s f;
     let fd = ef_reg_fd c;
     if fd = - 1 then Some (s, w)
     else do {
       s \<leftarrow> fset f (ef_reg_fd_update (\<lambda>_. - 1)) s;
       if fd_owner_get s fd = f
       then
         let s = s\<lparr>re_fd_owner := (re_fd_owner s)[nat fd := 0]\<rparr>;
             (r, w) = c_epoll_ctl e (re_epfd s) EPOLL_CTL_DEL fd None w
         in Some (s, w)
       else Some (s, w)
     }
   }"

text \<open>The second half of \<open>arm_fd\<close>: the registration, tried once more with the other operation when the
  kernel's view differs from the table.\<close>

definition arm_epoll ::
  "('v, 'k) renv \<Rightarrow> ('h, 'v) cfiber_reactor \<Rightarrow> u64 \<Rightarrow> int \<Rightarrow> u32 \<Rightarrow> int \<Rightarrow> ('h, 'v, 'k) world \<Rightarrow>
   bool \<times> ('h, 'v, 'k) world" where
  "arm_epoll e s f fd events op w =
     (let ev = Some (events OR EPOLLONESHOT, f);
          (r, w) = c_epoll_ctl e (re_epfd s) op fd ev w
      in if r < 0
         then
           let op = (if w_errno w = ENOENT then EPOLL_CTL_ADD
                     else if w_errno w = EEXIST then EPOLL_CTL_MOD else - 1)
           in if op < 0 then (False, w)
              else let (r, w) = c_epoll_ctl e (re_epfd s) op fd ev w in (\<not> r < 0, w)
         else (True, w))"

definition arm_fd ::
  "('v, 'k) renv \<Rightarrow> ('h, 'v) cfiber_reactor \<Rightarrow> u64 \<Rightarrow> int \<Rightarrow> u32 \<Rightarrow> ('h, 'v, 'k) world \<Rightarrow>
   (int \<times> ('h, 'v, 'k) rstate) option" where
  "arm_fd e s f fd events w =
     (if fd < 0 then Some (- 1, s, w\<lparr>w_errno := EBADF\<rparr>)
      else do {
        (ok, s, w) \<leftarrow> fd_owner_reserve e s fd w;
        if \<not> ok then Some (- 1, s, w\<lparr>w_errno := ENOMEM\<rparr>)
        else do {
          c \<leftarrow> re_blocks s f;
          (s, w) \<leftarrow> (if ef_reg_fd c \<noteq> fd then detach_fd e s f w else Some (s, w));
          holder \<leftarrow> (if nat fd < length (re_fd_owner s) then Some (re_fd_owner s ! nat fd) else None);
          taken \<leftarrow> (if holder \<noteq> 0 \<and> holder \<noteq> f
                   then do {
                     h \<leftarrow> re_blocks s holder;
                     if ef_state h = FB_PARKED \<and> ef_wait_fd h = fd then Some None
                     else do { s \<leftarrow> fset holder (ef_reg_fd_update (\<lambda>_. - 1)) s; Some (Some s) }
                   }
                   else Some (Some s));
          case taken of
            None \<Rightarrow> Some (- 1, s, w\<lparr>w_errno := EBUSY\<rparr>)
          | Some s \<Rightarrow> do {
              let (ok, w) = arm_epoll e s f fd events (if holder \<noteq> 0 then EPOLL_CTL_MOD else EPOLL_CTL_ADD) w;
              if \<not> ok then do {
                s \<leftarrow> fset f (ef_reg_fd_update (\<lambda>_. - 1)) (s\<lparr>re_fd_owner := (re_fd_owner s)[nat fd := 0]\<rparr>);
                Some (- 1, s, w)
              }
              else do {
                s \<leftarrow> fset f (ef_reg_fd_update (\<lambda>_. fd)) (s\<lparr>re_fd_owner := (re_fd_owner s)[nat fd := f]\<rparr>);
                Some (0, s, w)
              }
            }
        }
      })"

section \<open>Park and resume\<close>

definition resume ::
  "('h, 'v) cfiber_reactor \<Rightarrow> u64 \<Rightarrow> ev_status \<Rightarrow> ('h, 'v) cfiber_reactor option" where
  "resume s f status = do {
     c \<leftarrow> re_blocks s f;
     if ef_state c \<noteq> FB_PARKED then Some s
     else do {
       s \<leftarrow> fset f (ef_wait_status_update (\<lambda>_. status)) s;
       enqueue (s\<lparr>re_blocked := re_blocked s - 1\<rparr>) f
     }
   }"

definition unpark ::
  "('v, 'k) renv \<Rightarrow> ('h, 'v) cfiber_reactor \<Rightarrow> u64 \<Rightarrow> ev_status \<Rightarrow> ('h, 'v, 'k) world \<Rightarrow>
   ('h, 'v, 'k) rstate option" where
  "unpark e s f status w = do {
     (s, w) \<leftarrow> detach_fd e s f w;
     s \<leftarrow> timer_remove s f;
     s \<leftarrow> resume s f status;
     Some (s, w)
   }"

text \<open>\<open>s\<close> is the reactor \<open>g_reactor\<close> points to, when it is not null.\<close>

definition running_fiber :: "('v, 'k) renv \<Rightarrow> rthread \<Rightarrow> ('h, 'v) cfiber_reactor \<Rightarrow> u64 option" where
  "running_fiber e th s = do {
     ASSERT (e_nd e) (g_reactor th \<noteq> 0 \<and> re_current s \<noteq> 0);
     Some (if g_reactor th \<noteq> 0 then re_current s else 0)
   }"

text \<open>\<open>park_current\<close> before its switch.\<close>

definition park :: "('h, 'v) cfiber_reactor \<Rightarrow> park_kind \<Rightarrow> ('h, 'v) cfiber_reactor option" where
  "park s kind =
     (let f = re_current s in do {
        s \<leftarrow> fset f (\<lambda>c. c\<lparr>ef_park := kind, ef_state := FB_PARKED, ef_wait_status := EV_READY\<rparr>) s;
        Some (s\<lparr>re_blocked := re_blocked s + 1, re_current := 0\<rparr>)
      })"

type_synonym ('h, 'v, 'k) leave = "u64 \<Rightarrow> ('h, 'v, 'k) rstate \<Rightarrow> ('h, 'v, 'k) rstate option"

definition park_current ::
  "('h, 'v, 'k) leave \<Rightarrow> ('h, 'v) cfiber_reactor \<Rightarrow> park_kind \<Rightarrow> ('h, 'v, 'k) world \<Rightarrow>
   (ev_status \<times> ('h, 'v, 'k) rstate) option" where
  "park_current leave s kind w =
     (let f = re_current s in do {
        s \<leftarrow> park s kind;
        (s, w) \<leftarrow> leave f (s, w);
        c \<leftarrow> re_blocks s f;
        Some (ef_wait_status c, s, w)
      })"

section \<open>The fiber pool\<close>

text \<open>A block that was never used is zero; a block used before keeps what was in it.\<close>

definition fiber_obtain ::
  "('v, 'k) renv \<Rightarrow> ('h, 'v) cfiber_reactor \<Rightarrow> ('h, 'v, 'k) world \<Rightarrow> (u64 \<times> ('h, 'v, 'k) rstate) option" where
  "fiber_obtain e s w = do {
     (f, fibers, h) \<leftarrow> cfiber_multislab_alloc (e_nd e) (re_fibers s) (w_heap w);
     let s = s\<lparr>re_fibers := fibers\<rparr>;
     let w = w\<lparr>w_heap := h\<rparr>;
     if f = 0 then Some (0, s, w)
     else
       let gen = (case re_blocks s f of None \<Rightarrow> ef_generation ev_fiber_zero | Some c \<Rightarrow> ef_generation c)
       in Some (f, s\<lparr>re_blocks := (re_blocks s)(f \<mapsto> ev_fiber_zero\<lparr>ef_generation := gen\<rparr>)\<rparr>, w)
   }"

definition live_link :: "('h, 'v) cfiber_reactor \<Rightarrow> u64 \<Rightarrow> ('h, 'v) cfiber_reactor option" where
  "live_link s f = do {
     s \<leftarrow> fset f (\<lambda>c. c\<lparr>ef_live_prev := 0, ef_live_next := re_live_head s\<rparr>) s;
     s \<leftarrow> (if re_live_head s \<noteq> 0 then fset (re_live_head s) (ef_live_prev_update (\<lambda>_. f)) s else Some s);
     Some (s\<lparr>re_live_head := f\<rparr>)
   }"

definition live_unlink :: "('h, 'v) cfiber_reactor \<Rightarrow> u64 \<Rightarrow> ('h, 'v) cfiber_reactor option" where
  "live_unlink s f = do {
     c \<leftarrow> re_blocks s f;
     s \<leftarrow> (if ef_live_prev c \<noteq> 0 then fset (ef_live_prev c) (ef_live_next_update (\<lambda>_. ef_live_next c)) s
           else Some (s\<lparr>re_live_head := ef_live_next c\<rparr>));
     c \<leftarrow> re_blocks s f;
     (if ef_live_next c \<noteq> 0 then fset (ef_live_next c) (ef_live_prev_update (\<lambda>_. ef_live_prev c)) s
      else Some s)
   }"

definition fiber_repool ::
  "('v, 'k) renv \<Rightarrow> ('h, 'v) cfiber_reactor \<Rightarrow> u64 \<Rightarrow> ('h, 'v, 'k) world \<Rightarrow> ('h, 'v, 'k) rstate option" where
  "fiber_repool e s f w = do {
     s \<leftarrow> fset f (\<lambda>c. c\<lparr>ef_generation := ef_generation c + 1, ef_state := FB_FREE\<rparr>) s;
     (fibers, h) \<leftarrow> cfiber_multislab_release (e_nd e) (re_fibers s) f (w_heap w);
     Some (s\<lparr>re_fibers := fibers\<rparr>, w\<lparr>w_heap := h\<rparr>)
   }"

definition fiber_recycle ::
  "('v, 'k) renv \<Rightarrow> ('h, 'v) cfiber_reactor \<Rightarrow> u64 \<Rightarrow> ('h, 'v, 'k) world \<Rightarrow> ('h, 'v, 'k) rstate option" where
  "fiber_recycle e s f w = do {
     (s, w) \<leftarrow> detach_fd e s f w;
     s \<leftarrow> live_unlink s f;
     c \<leftarrow> re_blocks s f;
     (stacks, stack, v) \<leftarrow> cfiber_growable_stack_release (e_nd e) (e_vm e) (re_stacks s) (ef_stack c) (w_vm w);
     s \<leftarrow> fset f (ef_stack_update (\<lambda>_. stack)) (s\<lparr>re_stacks := stacks\<rparr>);
     fiber_repool e s f (w\<lparr>w_vm := v\<rparr>)
   }"

section \<open>Commands\<close>

definition apply_cmd ::
  "('v, 'k) renv \<Rightarrow> ('h, 'v) cfiber_reactor \<Rightarrow> cmd \<Rightarrow> ('h, 'v, 'k) world \<Rightarrow> ('h, 'v, 'k) rstate option" where
  "apply_cmd e s c w =
     (let f = cmd_target c in
      if f = 0 then Some (s, w)
      else do {
        b \<leftarrow> re_blocks s f;
        if ef_generation b \<noteq> cmd_gen c \<or> ef_state b = FB_FREE \<or> ef_state b = FB_ZOMBIE then Some (s, w)
        else if cmd_kind_of c = CMD_CANCEL
        then (if ef_state b = FB_PARKED then unpark e s f EV_CANCELLED w else Some (s, w))
        else if ef_state b = FB_PARKED \<and> ef_park b = PARK_ASYNC then unpark e s f EV_READY w
        else do { s \<leftarrow> fset f (ef_wake_pending_update (\<lambda>_. True)) s; Some (s, w) }
      })"

text \<open>The eight bytes of the number 1, and a write of them.\<close>

definition one_bytes :: "u8 list" where
  "one_bytes = [1, 0, 0, 0, 0, 0, 0, 0]"

definition c_write ::
  "('v, 'k) renv \<Rightarrow> int \<Rightarrow> u8 list \<Rightarrow> ('h, 'v, 'k) world \<Rightarrow> int \<times> ('h, 'v, 'k) world" where
  "c_write e fd bs w = (let (r, k) = sys_write (e_sys e) fd bs (w_sys w) in libc_ret r (w\<lparr>w_sys := k\<rparr>))"

fun post_loop ::
  "('v, 'k) renv \<Rightarrow> nat \<Rightarrow> ('h, 'v) cfiber_reactor \<Rightarrow> cmd \<Rightarrow> ('h, 'v, 'k) world \<Rightarrow>
   (bool \<times> ('h, 'v, 'k) rstate) option" where
  "post_loop e 0 s c w = Some (False, s, w\<lparr>w_errno := EAGAIN\<rparr>)"
| "post_loop e (Suc n) s c w = do {
     (ok, r) \<leftarrow> ring_enqueue (re_cmds s) c;
     let s = s\<lparr>re_cmds := r\<rparr>;
     if ok then
       let (rc, w) = c_write e (re_evfd s) one_bytes w in Some (True, s, w)
     else post_loop e n s c (w\<lparr>w_sys := sys_sched_yield (e_sys e) (w_sys w)\<rparr>)
   }"

definition post_cmd ::
  "('v, 'k) renv \<Rightarrow> ('h, 'v) cfiber_reactor \<Rightarrow> cmd \<Rightarrow> ('h, 'v, 'k) world \<Rightarrow>
   (bool \<times> ('h, 'v, 'k) rstate) option" where
  "post_cmd e s c w = post_loop e POST_RETRIES s c w"

text \<open>\<open>read(s->evfd, &sink, 8)\<close> until it does not return 8; it may never stop.\<close>

partial_function (option) drain_counter ::
  "('v, 'k) renv \<Rightarrow> int \<Rightarrow> ('h, 'v, 'k) world \<Rightarrow> ('h, 'v, 'k) world option" where
  "drain_counter e fd w =
     (let ((r, bs), k) = sys_read (e_sys e) fd 8 (w_sys w);
          (r, w) = libc_ret r (w\<lparr>w_sys := k\<rparr>)
      in if r = 8 then drain_counter e fd w else Some w)"

partial_function (option) drain_ring ::
  "('v, 'k) renv \<Rightarrow> ('h, 'v) cfiber_reactor \<Rightarrow> ('h, 'v, 'k) world \<Rightarrow> ('h, 'v, 'k) rstate option" where
  "drain_ring e s w =
     Option.bind (ring_dequeue (re_cmds s)) (\<lambda>(c, r).
       let s = s\<lparr>re_cmds := r\<rparr> in
       case c of
         None \<Rightarrow> Some (s, w)
       | Some c \<Rightarrow> Option.bind (apply_cmd e s c w) (\<lambda>(s, w). drain_ring e s w))"

definition drain_cmds ::
  "('v, 'k) renv \<Rightarrow> ('h, 'v) cfiber_reactor \<Rightarrow> ('h, 'v, 'k) world \<Rightarrow> ('h, 'v, 'k) rstate option" where
  "drain_cmds e s w = do {
     w \<leftarrow> drain_counter e (re_evfd s) w;
     drain_ring e s w
   }"

section \<open>Spawning\<close>

text \<open>\<open>out\<close> is what \<open>out\<close> points to, \<open>None\<close> for a null pointer.\<close>

definition spawn_locked ::
  "('v, 'k) renv \<Rightarrow> ('h, 'v) cfiber_reactor \<Rightarrow> u64 \<Rightarrow> u64 \<Rightarrow> handle option \<Rightarrow> ('h, 'v, 'k) world \<Rightarrow>
   (bool \<times> handle option \<times> ('h, 'v, 'k) rstate) option" where
  "spawn_locked e s fn arg out w = do {
     (f, s, w) \<leftarrow> fiber_obtain e s w;
     if f = 0 then Some (False, out, s, w)
     else do {
       let (stack, stacks, v) = cfiber_growable_stack_alloc (e_vm e) (re_stacks s) (w_vm w);
       let w = w\<lparr>w_vm := v\<rparr>;
       s \<leftarrow> fset f (ef_stack_update (\<lambda>_. stack)) (s\<lparr>re_stacks := stacks\<rparr>);
       if mem_base stack = 0 then do {
         (s, w) \<leftarrow> fiber_repool e s f w;
         Some (False, out, s, w)
       }
       else do {
         c \<leftarrow> re_blocks s f;
         let fb = (ef_fiber c)\<lparr>fb_stack := usable_base stack, fb_stack_size := cfiber_stack_usable_size stack\<rparr>;
         (fb, bs) \<leftarrow> cfiber_init (e_nd e) (e_prologue e) (e_creator e) fb fn arg (w_bytes w);
         s \<leftarrow> fset f (\<lambda>c. c\<lparr>ef_reg_fd := - 1, ef_wait_fd := - 1, ef_timer_i := NO_TIMER, ef_fiber := fb\<rparr>) s;
         let w = w\<lparr>w_bytes := bs\<rparr>;
         s \<leftarrow> live_link s f;
         s \<leftarrow> enqueue s f;
         let s = s\<lparr>re_active := re_active s + 1\<rparr>;
         c \<leftarrow> re_blocks s f;
         Some (True, map_option (\<lambda>_. \<lparr>h_f = f, h_gen = ef_generation c\<rparr>) out, s, w)
       }
     }
   }"

definition cfiber_reactor_spawn ::
  "('v, 'k) renv \<Rightarrow> ('h, 'v) cfiber_reactor \<Rightarrow> u64 \<Rightarrow> u64 \<Rightarrow> handle option \<Rightarrow> ('h, 'v, 'k) world \<Rightarrow>
   (bool \<times> handle option \<times> ('h, 'v, 'k) rstate) option" where
  "cfiber_reactor_spawn e r fn arg out w = spawn_locked e r fn arg out w"

definition cfiber_ev_spawn ::
  "('v, 'k) renv \<Rightarrow> rthread \<Rightarrow> ('h, 'v) cfiber_reactor \<Rightarrow> u64 \<Rightarrow> u64 \<Rightarrow> handle option \<Rightarrow> ('h, 'v, 'k) world \<Rightarrow>
   (bool \<times> handle option \<times> ('h, 'v, 'k) rstate) option" where
  "cfiber_ev_spawn e th s fn arg out w = do {
     ASSERT (e_nd e) (g_reactor th \<noteq> 0);
     if g_reactor th = 0 then Some (False, out, s, w\<lparr>w_errno := EINVAL\<rparr>)
     else spawn_locked e s fn arg out w
   }"

definition cfiber_ev_self :: "('v, 'k) renv \<Rightarrow> rthread \<Rightarrow> ('h, 'v) cfiber_reactor \<Rightarrow> handle option" where
  "cfiber_ev_self e th s = do {
     f \<leftarrow> running_fiber e th s;
     if f = 0 then Some \<lparr>h_f = 0, h_gen = 0\<rparr>
     else do { c \<leftarrow> re_blocks s f; Some \<lparr>h_f = f, h_gen = ef_generation c\<rparr> }
   }"

section \<open>Waking and cancelling\<close>

definition on_loop_thread :: "rthread \<Rightarrow> ('h, 'v) cfiber_reactor \<Rightarrow> bool" where
  "on_loop_thread th s \<longleftrightarrow> g_reactor th = re_self s"

definition cfiber_reactor_wake ::
  "('v, 'k) renv \<Rightarrow> rthread \<Rightarrow> ('h, 'v) cfiber_reactor \<Rightarrow> handle \<Rightarrow> ('h, 'v, 'k) world \<Rightarrow>
   (bool \<times> ('h, 'v, 'k) rstate) option" where
  "cfiber_reactor_wake e th r h w =
     (let c = \<lparr>cmd_kind_of = CMD_WAKE, cmd_target = h_f h, cmd_gen = h_gen h\<rparr> in
      if on_loop_thread th r then do { (r, w) \<leftarrow> apply_cmd e r c w; Some (True, r, w) }
      else post_cmd e r c w)"

definition cfiber_reactor_cancel ::
  "('v, 'k) renv \<Rightarrow> rthread \<Rightarrow> ('h, 'v) cfiber_reactor \<Rightarrow> handle \<Rightarrow> ('h, 'v, 'k) world \<Rightarrow>
   (bool \<times> ('h, 'v, 'k) rstate) option" where
  "cfiber_reactor_cancel e th r h w =
     (let c = \<lparr>cmd_kind_of = CMD_CANCEL, cmd_target = h_f h, cmd_gen = h_gen h\<rparr> in
      if on_loop_thread th r then do { (r, w) \<leftarrow> apply_cmd e r c w; Some (True, r, w) }
      else post_cmd e r c w)"

definition cfiber_ev_wake ::
  "('v, 'k) renv \<Rightarrow> rthread \<Rightarrow> ('h, 'v) cfiber_reactor \<Rightarrow> handle \<Rightarrow> ('h, 'v, 'k) world \<Rightarrow>
   ('h, 'v, 'k) rstate option" where
  "cfiber_ev_wake e th s h w = do {
     ASSERT (e_nd e) (g_reactor th \<noteq> 0);
     if g_reactor th \<noteq> 0
     then apply_cmd e s \<lparr>cmd_kind_of = CMD_WAKE, cmd_target = h_f h, cmd_gen = h_gen h\<rparr> w
     else Some (s, w)
   }"

definition cfiber_ev_cancel ::
  "('v, 'k) renv \<Rightarrow> rthread \<Rightarrow> ('h, 'v) cfiber_reactor \<Rightarrow> handle \<Rightarrow> ('h, 'v, 'k) world \<Rightarrow>
   ('h, 'v, 'k) rstate option" where
  "cfiber_ev_cancel e th s h w = do {
     ASSERT (e_nd e) (g_reactor th \<noteq> 0);
     if g_reactor th \<noteq> 0
     then apply_cmd e s \<lparr>cmd_kind_of = CMD_CANCEL, cmd_target = h_f h, cmd_gen = h_gen h\<rparr> w
     else Some (s, w)
   }"

end
