(* ===== verification/Reactor_Calls.thy ===== *)
theory Reactor_Calls
  imports Reactor
begin

text \<open>
  The calls a fiber of the reactor makes (\<^verbatim>\<open>cfiber_ev_*\<close> of \<^verbatim>\<open>reactor.c\<close>): waiting, sleeping, yielding,
  and the byte-stream helpers built on \<open>cfiber_ev_wait\<close>. A waiting call is its part before the switch
  (\<open>wait_begin\<close>, \<open>sleep_begin\<close>, \<open>async_begin\<close>: \<open>Some st\<close> when it returns \<open>st\<close> without parking), the
  switch \<open>leave\<close>, and what it does once resumed. The retry loops may run forever.
\<close>

section \<open>Waiting\<close>

definition ev_fail ::
  "int \<Rightarrow> ('h, 'v, 'k) rstate \<Rightarrow> (ev_status option \<times> ('h, 'v, 'k) rstate) option" where
  "ev_fail err st = (case st of (s, w) \<Rightarrow> Some (Some EV_ERROR, s, w\<lparr>w_errno := err\<rparr>))"

definition wait_begin ::
  "('v, 'k) renv \<Rightarrow> rthread \<Rightarrow> ('h, 'v) cfiber_reactor \<Rightarrow> int \<Rightarrow> u32 \<Rightarrow> i64 \<Rightarrow> ('h, 'v, 'k) world \<Rightarrow>
   (ev_status option \<times> ('h, 'v, 'k) rstate) option" where
  "wait_begin e th s fd direction timeout_ns w = do {
     f \<leftarrow> running_fiber e th s;
     if f = 0 then ev_fail EINVAL (s, w)
     else if direction = 0 \<or> direction AND NOT (CFIBER_EV_IN OR CFIBER_EV_OUT) \<noteq> 0
     then ev_fail EINVAL (s, w)
     else do {
       let events = (if direction AND CFIBER_EV_IN \<noteq> 0 then EPOLLIN else 0) OR
                    (if direction AND CFIBER_EV_OUT \<noteq> 0 then EPOLLOUT else 0);
       (r, s, w) \<leftarrow> arm_fd e s f fd events w;
       if r < 0 then Some (Some EV_ERROR, s, w)
       else do {
         (ok, s, w) \<leftarrow> (if sint timeout_ns \<ge> 0
                      then let (d, w) = deadline_after e timeout_ns w in timer_add e s f d w
                      else Some (True, s, w));
         if \<not> ok then do {
           (s, w) \<leftarrow> detach_fd e s f w;
           ev_fail ENOMEM (s, w)
         }
         else do {
           s \<leftarrow> fset f (ef_wait_fd_update (\<lambda>_. fd)) s;
           s \<leftarrow> park s PARK_FD;
           Some (None, s, w)
         }
       }
     }
   }"

text \<open>Back from the switch: \<open>f->wait_fd = -1\<close> and the delivered status.\<close>

definition wait_end ::
  "u64 \<Rightarrow> ('h, 'v) cfiber_reactor \<Rightarrow> (ev_status \<times> ('h, 'v) cfiber_reactor) option" where
  "wait_end f s = do {
     c \<leftarrow> re_blocks s f;
     s \<leftarrow> fset f (ef_wait_fd_update (\<lambda>_. - 1)) s;
     Some (ef_wait_status c, s)
   }"

definition cfiber_ev_wait ::
  "('v, 'k) renv \<Rightarrow> ('h, 'v, 'k) leave \<Rightarrow> rthread \<Rightarrow> ('h, 'v) cfiber_reactor \<Rightarrow> int \<Rightarrow> u32 \<Rightarrow> i64 \<Rightarrow>
   ('h, 'v, 'k) world \<Rightarrow> (ev_status \<times> ('h, 'v, 'k) rstate) option" where
  "cfiber_ev_wait e leave th s fd direction timeout_ns w =
     (let f = re_current s in do {
        (r, s, w) \<leftarrow> wait_begin e th s fd direction timeout_ns w;
        case r of
          Some st \<Rightarrow> Some (st, s, w)
        | None \<Rightarrow> do {
            (s, w) \<leftarrow> leave f (s, w);
            (st, s) \<leftarrow> wait_end f s;
            Some (st, s, w)
          }
      })"

definition sleep_begin ::
  "('v, 'k) renv \<Rightarrow> rthread \<Rightarrow> ('h, 'v) cfiber_reactor \<Rightarrow> u64 \<Rightarrow> ('h, 'v, 'k) world \<Rightarrow>
   (ev_status option \<times> ('h, 'v, 'k) rstate) option" where
  "sleep_begin e th s ns w = do {
     f \<leftarrow> running_fiber e th s;
     if f = 0 then ev_fail EINVAL (s, w)
     else do {
       let (d, w) = deadline_after e ns w;
       (ok, s, w) \<leftarrow> timer_add e s f d w;
       if \<not> ok then ev_fail ENOMEM (s, w)
       else do { s \<leftarrow> park s PARK_TIMER; Some (None, s, w) }
     }
   }"

text \<open>Back from the switch of \<open>park_current\<close>: the delivered status.\<close>

definition park_status :: "u64 \<Rightarrow> ('h, 'v) cfiber_reactor \<Rightarrow> ev_status option" where
  "park_status f s = map_option ef_wait_status (re_blocks s f)"

definition cfiber_ev_sleep ::
  "('v, 'k) renv \<Rightarrow> ('h, 'v, 'k) leave \<Rightarrow> rthread \<Rightarrow> ('h, 'v) cfiber_reactor \<Rightarrow> u64 \<Rightarrow>
   ('h, 'v, 'k) world \<Rightarrow> (ev_status \<times> ('h, 'v, 'k) rstate) option" where
  "cfiber_ev_sleep e leave th s ns w =
     (let f = re_current s in do {
        (r, s, w) \<leftarrow> sleep_begin e th s ns w;
        case r of
          Some st \<Rightarrow> Some (st, s, w)
        | None \<Rightarrow> do { (s, w) \<leftarrow> leave f (s, w); st \<leftarrow> park_status f s; Some (st, s, w) }
      })"

definition async_begin ::
  "('v, 'k) renv \<Rightarrow> rthread \<Rightarrow> ('h, 'v) cfiber_reactor \<Rightarrow> i64 \<Rightarrow> ('h, 'v, 'k) world \<Rightarrow>
   (ev_status option \<times> ('h, 'v, 'k) rstate) option" where
  "async_begin e th s timeout_ns w = do {
     f \<leftarrow> running_fiber e th s;
     if f = 0 then ev_fail EINVAL (s, w)
     else do {
       c \<leftarrow> re_blocks s f;
       if ef_wake_pending c then do {
         s \<leftarrow> fset f (ef_wake_pending_update (\<lambda>_. False)) s;
         Some (Some EV_READY, s, w)
       }
       else do {
         (ok, s, w) \<leftarrow> (if sint timeout_ns \<ge> 0
                      then let (d, w) = deadline_after e timeout_ns w in timer_add e s f d w
                      else Some (True, s, w));
         if \<not> ok then ev_fail ENOMEM (s, w)
         else do { s \<leftarrow> park s PARK_ASYNC; Some (None, s, w) }
       }
     }
   }"

definition cfiber_ev_wait_async ::
  "('v, 'k) renv \<Rightarrow> ('h, 'v, 'k) leave \<Rightarrow> rthread \<Rightarrow> ('h, 'v) cfiber_reactor \<Rightarrow> i64 \<Rightarrow>
   ('h, 'v, 'k) world \<Rightarrow> (ev_status \<times> ('h, 'v, 'k) rstate) option" where
  "cfiber_ev_wait_async e leave th s timeout_ns w =
     (let f = re_current s in do {
        (r, s, w) \<leftarrow> async_begin e th s timeout_ns w;
        case r of
          Some st \<Rightarrow> Some (st, s, w)
        | None \<Rightarrow> do { (s, w) \<leftarrow> leave f (s, w); st \<leftarrow> park_status f s; Some (st, s, w) }
      })"

text \<open>\<open>cfiber_ev_yield\<close> up to its switch; the result says whether control left to the loop.\<close>

definition cfiber_ev_yield ::
  "('v, 'k) renv \<Rightarrow> rthread \<Rightarrow> ('h, 'v) cfiber_reactor \<Rightarrow> (bool \<times> ('h, 'v) cfiber_reactor) option" where
  "cfiber_ev_yield e th s = do {
     cur \<leftarrow> running_fiber e th s;
     if cur = 0 then Some (False, s)
     else do {
       s \<leftarrow> enqueue (s\<lparr>re_current := 0\<rparr>) cur;
       Some (True, s)
     }
   }"

section \<open>Byte streams\<close>

definition wait_failed :: "ev_status \<Rightarrow> ('h, 'v, 'k) world \<Rightarrow> int \<times> ('h, 'v, 'k) world" where
  "wait_failed st w =
     (if st = EV_CANCELLED then (- 1, w\<lparr>w_errno := ECANCELED\<rparr>)
      else if st = EV_TIMEOUT then (- 1, w\<lparr>w_errno := ETIMEDOUT\<rparr>)
      else (- 1, w))"

text \<open>Memory after the bytes \<open>bs\<close> are stored at \<open>p\<close>, and the \<open>n\<close> bytes at \<open>p\<close>.\<close>

definition store_bytes :: "u64 \<Rightarrow> u8 list \<Rightarrow> (u64 \<Rightarrow> u8) \<Rightarrow> u64 \<Rightarrow> u8" where
  "store_bytes p bs m a = (if unat (a - p) < length bs then bs ! unat (a - p) else m a)"

definition load_bytes :: "u64 \<Rightarrow> u64 \<Rightarrow> (u64 \<Rightarrow> u8) \<Rightarrow> u8 list" where
  "load_bytes p n m = map (\<lambda>i. m (p + of_nat i)) [0 ..< unat n]"

definition c_read ::
  "('v, 'k) renv \<Rightarrow> int \<Rightarrow> u64 \<Rightarrow> u64 \<Rightarrow> ('h, 'v, 'k) world \<Rightarrow> int \<times> ('h, 'v, 'k) world" where
  "c_read e fd buf n w =
     (let ((r, bs), k) = sys_read (e_sys e) fd (unat n) (w_sys w)
      in libc_ret r (w\<lparr>w_sys := k, w_bytes := store_bytes buf bs (w_bytes w)\<rparr>))"

partial_function (option) read_loop ::
  "('v, 'k) renv \<Rightarrow> ('h, 'v, 'k) leave \<Rightarrow> rthread \<Rightarrow> int \<Rightarrow> u64 \<Rightarrow> u64 \<Rightarrow> u64 \<Rightarrow>
   ('h, 'v) cfiber_reactor \<Rightarrow> ('h, 'v, 'k) world \<Rightarrow> (int \<times> ('h, 'v, 'k) rstate) option" where
  "read_loop e leave th fd buf n deadline s w =
     (let (r, w) = c_read e fd buf n w in
      if r \<ge> 0 then Some (r, s, w)
      else if w_errno w = EINTR then read_loop e leave th fd buf n deadline s w
      else if w_errno w = EAGAIN then
        let (t, w) = remaining_ns e deadline w in
        Option.bind (cfiber_ev_wait e leave th s fd CFIBER_EV_IN t w) (\<lambda>(st, s, w).
          if st = EV_READY then read_loop e leave th fd buf n deadline s w
          else let (r, w) = wait_failed st w in Some (r, s, w))
      else Some (- 1, s, w))"

definition read_impl ::
  "('v, 'k) renv \<Rightarrow> ('h, 'v, 'k) leave \<Rightarrow> rthread \<Rightarrow> ('h, 'v) cfiber_reactor \<Rightarrow> int \<Rightarrow> u64 \<Rightarrow> u64 \<Rightarrow> i64 \<Rightarrow>
   ('h, 'v, 'k) world \<Rightarrow> (int \<times> ('h, 'v, 'k) rstate) option" where
  "read_impl e leave th s fd buf n timeout_ns w =
     (let (deadline, w) = deadline_after_opt e timeout_ns w in read_loop e leave th fd buf n deadline s w)"

partial_function (option) write_loop ::
  "('v, 'k) renv \<Rightarrow> ('h, 'v, 'k) leave \<Rightarrow> rthread \<Rightarrow> int \<Rightarrow> u64 \<Rightarrow> u64 \<Rightarrow> u64 \<Rightarrow> u64 \<Rightarrow>
   ('h, 'v) cfiber_reactor \<Rightarrow> ('h, 'v, 'k) world \<Rightarrow> (int \<times> ('h, 'v, 'k) rstate) option" where
  "write_loop e leave th fd buf n deadline off s w =
     (if off < n then
        let (r, w) = c_write e fd (load_bytes (buf + off) (n - off) (w_bytes w)) w in
        if r > 0 then write_loop e leave th fd buf n deadline (off + word_of_int r) s w
        else if r = 0 then Some (- 1, s, w\<lparr>w_errno := EIO\<rparr>)
        else if w_errno w = EINTR then write_loop e leave th fd buf n deadline off s w
        else if w_errno w = EAGAIN then
          let (t, w) = remaining_ns e deadline w in
          Option.bind (cfiber_ev_wait e leave th s fd CFIBER_EV_OUT t w) (\<lambda>(st, s, w).
            if st = EV_READY then write_loop e leave th fd buf n deadline off s w
            else let (r, w) = wait_failed st w in Some (r, s, w))
        else Some (- 1, s, w)
      else Some (sint off, s, w))"

definition write_impl ::
  "('v, 'k) renv \<Rightarrow> ('h, 'v, 'k) leave \<Rightarrow> rthread \<Rightarrow> ('h, 'v) cfiber_reactor \<Rightarrow> int \<Rightarrow> u64 \<Rightarrow> u64 \<Rightarrow> i64 \<Rightarrow>
   ('h, 'v, 'k) world \<Rightarrow> (int \<times> ('h, 'v, 'k) rstate) option" where
  "write_impl e leave th s fd buf n timeout_ns w =
     (let (deadline, w) = deadline_after_opt e timeout_ns w in write_loop e leave th fd buf n deadline 0 s w)"

definition cfiber_ev_read ::
  "('v, 'k) renv \<Rightarrow> ('h, 'v, 'k) leave \<Rightarrow> rthread \<Rightarrow> ('h, 'v) cfiber_reactor \<Rightarrow> int \<Rightarrow> u64 \<Rightarrow> u64 \<Rightarrow>
   ('h, 'v, 'k) world \<Rightarrow> (int \<times> ('h, 'v, 'k) rstate) option" where
  "cfiber_ev_read e leave th s fd buf n w = read_impl e leave th s fd buf n (- 1) w"

definition cfiber_ev_write ::
  "('v, 'k) renv \<Rightarrow> ('h, 'v, 'k) leave \<Rightarrow> rthread \<Rightarrow> ('h, 'v) cfiber_reactor \<Rightarrow> int \<Rightarrow> u64 \<Rightarrow> u64 \<Rightarrow>
   ('h, 'v, 'k) world \<Rightarrow> (int \<times> ('h, 'v, 'k) rstate) option" where
  "cfiber_ev_write e leave th s fd buf n w = write_impl e leave th s fd buf n (- 1) w"

definition cfiber_ev_read_timed ::
  "('v, 'k) renv \<Rightarrow> ('h, 'v, 'k) leave \<Rightarrow> rthread \<Rightarrow> ('h, 'v) cfiber_reactor \<Rightarrow> int \<Rightarrow> u64 \<Rightarrow> u64 \<Rightarrow> i64 \<Rightarrow>
   ('h, 'v, 'k) world \<Rightarrow> (int \<times> ('h, 'v, 'k) rstate) option" where
  "cfiber_ev_read_timed e leave th s fd buf n timeout_ns w = read_impl e leave th s fd buf n timeout_ns w"

definition cfiber_ev_write_timed ::
  "('v, 'k) renv \<Rightarrow> ('h, 'v, 'k) leave \<Rightarrow> rthread \<Rightarrow> ('h, 'v) cfiber_reactor \<Rightarrow> int \<Rightarrow> u64 \<Rightarrow> u64 \<Rightarrow> i64 \<Rightarrow>
   ('h, 'v, 'k) world \<Rightarrow> (int \<times> ('h, 'v, 'k) rstate) option" where
  "cfiber_ev_write_timed e leave th s fd buf n timeout_ns w = write_impl e leave th s fd buf n timeout_ns w"

section \<open>Sockets\<close>

definition SOCK_FLAGS :: int where
  "SOCK_FLAGS = 2048 OR 524288"

definition O_NONBLOCK :: int where
  "O_NONBLOCK = 2048"

definition F_GETFL :: int where "F_GETFL = 3"
definition F_SETFL :: int where "F_SETFL = 4"

partial_function (option) cfiber_ev_accept ::
  "('v, 'k) renv \<Rightarrow> ('h, 'v, 'k) leave \<Rightarrow> rthread \<Rightarrow> int \<Rightarrow> u64 \<Rightarrow> u64 \<Rightarrow>
   ('h, 'v) cfiber_reactor \<Rightarrow> ('h, 'v, 'k) world \<Rightarrow> (int \<times> ('h, 'v, 'k) rstate) option" where
  "cfiber_ev_accept e leave th lfd addr alen s w =
     (let (r, bs, k) = sys_accept4 (e_sys e) lfd addr alen SOCK_FLAGS (w_bytes w) (w_sys w);
          (c, w) = libc_ret r (w\<lparr>w_sys := k, w_bytes := bs\<rparr>)
      in if c \<ge> 0 then Some (c, s, w)
         else if w_errno w = EINTR then cfiber_ev_accept e leave th lfd addr alen s w
         else if w_errno w = EAGAIN then
           Option.bind (cfiber_ev_wait e leave th s lfd CFIBER_EV_IN (- 1) w) (\<lambda>(st, s, w).
             if st = EV_READY then cfiber_ev_accept e leave th lfd addr alen s w
             else let (r, w) = wait_failed st w in Some (r, s, w))
         else Some (- 1, s, w))"

definition cfiber_ev_connect ::
  "('v, 'k) renv \<Rightarrow> ('h, 'v, 'k) leave \<Rightarrow> rthread \<Rightarrow> ('h, 'v) cfiber_reactor \<Rightarrow> int \<Rightarrow> u64 \<Rightarrow> u32 \<Rightarrow>
   ('h, 'v, 'k) world \<Rightarrow> (int \<times> ('h, 'v, 'k) rstate) option" where
  "cfiber_ev_connect e leave th s fd addr alen w =
     (let (r, k) = sys_connect (e_sys e) fd addr alen (w_bytes w) (w_sys w);
          (r, w) = libc_ret r (w\<lparr>w_sys := k\<rparr>)
      in if r = 0 then Some (0, s, w)
         else if w_errno w \<noteq> EINPROGRESS then Some (- 1, s, w)
         else do {
           (st, s, w) \<leftarrow> cfiber_ev_wait e leave th s fd CFIBER_EV_OUT (- 1) w;
           if st \<noteq> EV_READY then let (r, w) = wait_failed st w in Some (r, s, w)
           else
             let ((g, err), k) = sys_so_error (e_sys e) fd (w_sys w);
                 (g, w) = libc_ret g (w\<lparr>w_sys := k\<rparr>)
             in if g < 0 then Some (- 1, s, w)
                else if err \<noteq> 0 then Some (- 1, s, w\<lparr>w_errno := err\<rparr>)
                else Some (0, s, w)
         })"

definition c_fcntl ::
  "('v, 'k) renv \<Rightarrow> int \<Rightarrow> int \<Rightarrow> int \<Rightarrow> ('h, 'v, 'k) world \<Rightarrow> int \<times> ('h, 'v, 'k) world" where
  "c_fcntl e fd op arg w =
     (let (r, k) = sys_fcntl (e_sys e) fd op arg (w_sys w) in libc_ret r (w\<lparr>w_sys := k\<rparr>))"

definition cfiber_ev_set_nonblocking ::
  "('v, 'k) renv \<Rightarrow> int \<Rightarrow> ('h, 'v, 'k) world \<Rightarrow> int \<times> ('h, 'v, 'k) world" where
  "cfiber_ev_set_nonblocking e fd w =
     (let (fl, w) = c_fcntl e fd F_GETFL 0 w in
      if fl < 0 then (- 1, w) else c_fcntl e fd F_SETFL (fl OR O_NONBLOCK) w)"

definition c_close :: "('v, 'k) renv \<Rightarrow> int \<Rightarrow> ('h, 'v, 'k) world \<Rightarrow> int \<times> ('h, 'v, 'k) world" where
  "c_close e fd w = (let (r, k) = sys_close (e_sys e) fd (w_sys w) in libc_ret r (w\<lparr>w_sys := k\<rparr>))"

definition cfiber_ev_close ::
  "('v, 'k) renv \<Rightarrow> rthread \<Rightarrow> ('h, 'v) cfiber_reactor \<Rightarrow> int \<Rightarrow> ('h, 'v, 'k) world \<Rightarrow>
   (int \<times> ('h, 'v, 'k) rstate) option" where
  "cfiber_ev_close e th s fd w = do {
     ASSERT (e_nd e) (g_reactor th \<noteq> 0);
     if g_reactor th = 0 then Some (- 1, s, w\<lparr>w_errno := EINVAL\<rparr>)
     else do {
       let holder = fd_owner_get s fd;
       (s, w) \<leftarrow> (if holder \<noteq> 0 then do {
                  h \<leftarrow> re_blocks s holder;
                  if ef_state h = FB_PARKED \<and> ef_wait_fd h = fd
                  then unpark e s holder EV_CANCELLED w
                  else detach_fd e s holder w
                }
                else Some (s, w));
       let (r, w) = c_close e fd w;
       Some (r, s, w)
     }
   }"

end
