(* ===== verification/Reactor_Run.thy ===== *)
theory Reactor_Run
  imports Reactor_Calls Backing
begin

text \<open>
  The run loop of \<^verbatim>\<open>reactor.c\<close>, and building and tearing down a reactor. A fiber runs between two
  moves of the loop, so the loop is a program counter with a step for each stretch of code between
  switches: \<open>L_top\<close> is the test of the outer loop, \<open>L_round\<close> the test of the inner one, \<open>L_entered\<close>
  the code after \<open>enter_fiber\<close> comes back, \<open>L_poll\<close> the rest of the outer body, \<open>L_done\<close> the exit with
  its return value. \<open>reactor_move\<close> is one move of the system, of the loop, of the running fiber, or of
  another thread; \<open>Reactor_System\<close> proves its invariant.
\<close>

section \<open>Timers\<close>

partial_function (option) fire_loop ::
  "('v, 'k) renv \<Rightarrow> u64 \<Rightarrow> ('h, 'v) cfiber_reactor \<Rightarrow> ('h, 'v, 'k) world \<Rightarrow> ('h, 'v, 'k) rstate option" where
  "fire_loop e now s w =
     (case re_heap s of
        [] \<Rightarrow> Some (s, w)
      | f # _ \<Rightarrow>
          Option.bind (re_blocks s f) (\<lambda>c.
            if ef_deadline_ns c \<le> now then
              Option.bind (timer_remove s f) (\<lambda>s.
              Option.bind (detach_fd e s f w) (\<lambda>(s, w).
              Option.bind (resume s f EV_TIMEOUT) (\<lambda>s. fire_loop e now s w)))
            else Some (s, w)))"

definition fire_expired_timers ::
  "('v, 'k) renv \<Rightarrow> ('h, 'v) cfiber_reactor \<Rightarrow> ('h, 'v, 'k) world \<Rightarrow> ('h, 'v, 'k) rstate option" where
  "fire_expired_timers e s w = (let (now, w) = now_ns e w in fire_loop e now s w)"

section \<open>The loop\<close>

datatype loop_pc = L_top | L_round u64 | L_entered u64 u64 | L_poll | L_done int

fun deliver_events ::
  "('v, 'k) renv \<Rightarrow> (u32 \<times> u64) list \<Rightarrow> ('h, 'v) cfiber_reactor \<Rightarrow> ('h, 'v, 'k) world \<Rightarrow>
   ('h, 'v, 'k) rstate option" where
  "deliver_events e [] s w = Some (s, w)"
| "deliver_events e ((events, ptr) # evs) s w =
     (if ptr = re_self s then do {
        (s, w) \<leftarrow> drain_cmds e s w;
        deliver_events e evs s w
      }
      else do {
        c \<leftarrow> re_blocks s ptr;
        if ef_state c \<noteq> FB_PARKED then deliver_events e evs s w
        else do {
          s \<leftarrow> timer_remove s ptr;
          s \<leftarrow> resume s ptr EV_READY;
          deliver_events e evs s w
        }
      })"

text \<open>The poll: \<open>Inr\<close> the events, or \<open>Inl\<close> where the loop goes on an error.\<close>

definition loop_poll ::
  "('v, 'k) renv \<Rightarrow> ('h, 'v) cfiber_reactor \<Rightarrow> ('h, 'v, 'k) world \<Rightarrow>
   ((loop_pc + (u32 \<times> u64) list) \<times> ('h, 'v, 'k) world) option" where
  "loop_poll e s w = do {
     (timeout_ms, w) \<leftarrow> (if re_ready_head s \<noteq> 0 then Some (0, w) else next_timeout_ms e s w);
     let ((n, evs), k) = sys_epoll_wait (e_sys e) (re_epfd s) 64 timeout_ms (w_sys w);
     let (n, w) = libc_ret n (w\<lparr>w_sys := k\<rparr>);
     if n < 0 then Some (Inl (if w_errno w = EINTR then L_top else L_done (- 1)), w)
     else if nat n \<le> length evs then Some (Inr (take (nat n) evs), w)
     else None
   }"

definition loop_step ::
  "('v, 'k) renv \<Rightarrow> loop_pc \<Rightarrow> ('h, 'v) cfiber_reactor \<Rightarrow> ('h, 'v, 'k) world \<Rightarrow>
   (loop_pc \<times> ('h, 'v, 'k) rstate) option" where
  "loop_step e pc s w =
     (case pc of
        L_top \<Rightarrow> Some (if re_active s > 0 then L_round (re_ready_tail s) else L_done 0, s, w)
      | L_round round_end \<Rightarrow>
          if re_ready_head s \<noteq> 0 then do {
            (f, s) \<leftarrow> dequeue s;
            s \<leftarrow> enter_fiber s f;
            Some (L_entered f round_end, s, w)
          }
          else Some (L_poll, s, w)
      | L_entered f round_end \<Rightarrow> do {
          (s, w) \<leftarrow> (if re_zombie s \<noteq> 0 then do {
                     (s, w) \<leftarrow> fiber_recycle e s (re_zombie s) w;
                     Some (s\<lparr>re_zombie := 0\<rparr>, w)
                   }
                   else Some (s, w));
          Some (if f = round_end then L_poll else L_round round_end, s, w)
        }
      | L_poll \<Rightarrow>
          if re_active s = 0 then Some (L_done 0, s, w)
          else do {
            ASSERT (e_nd e) (re_ready_head s \<noteq> 0 \<or> re_blocked s > 0);
            (r, w) \<leftarrow> loop_poll e s w;
            case r of
              Inl pc \<Rightarrow> Some (pc, s, w)
            | Inr evs \<Rightarrow> do {
                (s, w) \<leftarrow> deliver_events e evs s w;
                (s, w) \<leftarrow> fire_expired_timers e s w;
                Some (L_top, s, w)
              }
          }
      | L_done rc \<Rightarrow> None)"

text \<open>Entry and exit of \<open>cfiber_reactor_run\<close>: \<open>None\<close> in the result when the reactor already runs on
  this thread. \<open>hook\<close> is the address of \<open>reactor_return_hook\<close>.\<close>

definition run_begin ::
  "u64 \<Rightarrow> rthread \<Rightarrow> ('h, 'v) cfiber_reactor \<Rightarrow> ('h, 'v, 'k) world \<Rightarrow>
   (rthread \<times> rthread) option \<times> ('h, 'v, 'k) world" where
  "run_begin hook th r w =
     (if g_reactor th = re_self r then (None, w\<lparr>w_errno := EBUSY\<rparr>)
      else
        let prev_reactor = g_reactor th;
            (prev_hook, h) = cfiber_set_return_hook hook (re_self r) (r_hook th)
        in (Some (\<lparr>g_reactor = prev_reactor, r_hook = prev_hook\<rparr>,
                  th\<lparr>g_reactor := re_self r, r_hook := h\<rparr>), w))"

definition run_end :: "rthread \<Rightarrow> rthread \<Rightarrow> rthread" where
  "run_end prev th =
     (let h = snd (cfiber_set_return_hook (hook_fn (r_hook prev)) (hook_ctx (r_hook prev)) (r_hook th))
      in th\<lparr>r_hook := h, g_reactor := g_reactor prev\<rparr>)"

section \<open>The system\<close>

text \<open>What the running fiber does next: call into the reactor, go on after a wait, or return.\<close>

datatype fiber_call =
    Call_wait int u32 i64
  | Call_sleep u64
  | Call_wait_async i64
  | Call_yield
  | Call_spawn u64 u64
  | Call_wake handle
  | Call_cancel handle
  | Call_close int
  | Call_wait_end
  | Call_return

definition fiber_call ::
  "('v, 'k) renv \<Rightarrow> rthread \<Rightarrow> fiber_call \<Rightarrow> ('h, 'v) cfiber_reactor \<Rightarrow> ('h, 'v, 'k) world \<Rightarrow>
   ('h, 'v, 'k) rstate option" where
  "fiber_call e th a s w =
     (case a of
        Call_wait fd d t \<Rightarrow> map_option snd (wait_begin e th s fd d t w)
      | Call_sleep ns \<Rightarrow> map_option snd (sleep_begin e th s ns w)
      | Call_wait_async t \<Rightarrow> map_option snd (async_begin e th s t w)
      | Call_yield \<Rightarrow> do { (left, s) \<leftarrow> cfiber_ev_yield e th s; Some (s, w) }
      | Call_spawn fn arg \<Rightarrow> map_option (snd \<circ> snd) (cfiber_ev_spawn e th s fn arg None w)
      | Call_wake h \<Rightarrow> cfiber_ev_wake e th s h w
      | Call_cancel h \<Rightarrow> cfiber_ev_cancel e th s h w
      | Call_close fd \<Rightarrow> map_option snd (cfiber_ev_close e th s fd w)
      | Call_wait_end \<Rightarrow> do { (st, s) \<leftarrow> wait_end (re_current s) s; Some (s, w) }
      | Call_return \<Rightarrow> do { s \<leftarrow> reactor_return_hook s; Some (s, w) })"

text \<open>A move: the loop's, when no fiber runs; the running fiber's; or a command of another thread,
  at any moment, with that thread's own \<open>errno\<close>.\<close>

datatype move = Loop | Fiber fiber_call | Post cmd

type_synonym ('h, 'v, 'k) sys_state = "loop_pc \<times> ('h, 'v, 'k) rstate"

definition reactor_move ::
  "('v, 'k) renv \<Rightarrow> rthread \<Rightarrow> move \<Rightarrow> ('h, 'v, 'k) sys_state \<Rightarrow> ('h, 'v, 'k) sys_state option" where
  "reactor_move e th m st =
     (case st of (pc, s, w) \<Rightarrow>
        (case m of
           Loop \<Rightarrow> if re_current s = 0 then loop_step e pc s w else None
         | Fiber a \<Rightarrow>
             if re_current s \<noteq> 0 then do { (s, w) \<leftarrow> fiber_call e th a s w; Some (pc, s, w) } else None
         | Post c \<Rightarrow> do {
             (ok, s, w') \<leftarrow> post_cmd e s c w;
             Some (pc, s, w'\<lparr>w_errno := w_errno w\<rparr>)
           }))"

section \<open>Construction and destruction\<close>

text \<open>Sizes on LP64: \<open>sizeof(ev_fiber_t)\<close> and \<open>sizeof(cfiber_reactor_t)\<close>.\<close>

definition SIZEOF_EV_FIBER :: u64 where
  "SIZEOF_EV_FIBER = 208"

definition SIZEOF_REACTOR :: u64 where
  "SIZEOF_REACTOR = 448"

definition DEFAULT_FIBERS_PER_SLAB :: u32 where
  "DEFAULT_FIBERS_PER_SLAB = 32"

definition UINT32_MAX :: u32 where
  "UINT32_MAX = - 1"

definition ring_zero :: cmd_ring where
  "ring_zero = \<lparr>enqueue_pos = 0, cells_mem = 0, cells = [], ring_mask = 0, dequeue_pos = 0\<rparr>"

text \<open>A null allocator pointer, and the struct after \<open>memset\<close> and \<open>epfd = evfd = -1\<close>.\<close>

definition ga_null :: cfiber_growable_stack_allocator where
  "ga_null = \<lparr>ga_self = 0, ga_max_stack_size = 0, ga_total_size = 0, ga_cache_mem = 0, ga_cache = [],
     ga_cache_capacity = 0, ga_active_count = 0\<rparr>"

definition reactor_zero :: "u64 \<Rightarrow> ('h, 'v) cfiber_reactor" where
  "reactor_zero self = \<lparr>re_self = self, re_cmds = ring_zero, re_current = 0, re_zombie = 0,
     re_ready_head = 0, re_ready_tail = 0, re_live_head = 0, re_blocks = Map.empty,
     re_fibers = ms_zero, re_stacks = ga_null, re_stack_size = 0, re_heap_mem = 0, re_heap = [],
     re_heap_cap = 0, re_owner_mem = 0, re_fd_owner = [], re_epfd = - 1, re_evfd = - 1,
     re_active = 0, re_blocked = 0\<rparr>"

definition close_if_open :: "('v, 'k) renv \<Rightarrow> int \<Rightarrow> ('h, 'v, 'k) world \<Rightarrow> ('h, 'v, 'k) world" where
  "close_if_open e fd w = (if fd \<ge> 0 then snd (c_close e fd w) else w)"

text \<open>The label \<open>fail\<close> of \<open>cfiber_reactor_create\<close>.\<close>

definition create_fail ::
  "('v, 'k) renv \<Rightarrow> ('h, 'v) cfiber_reactor \<Rightarrow> ('h, 'v, 'k) world \<Rightarrow>
   (('h, 'v) cfiber_reactor option \<times> ('h, 'v, 'k) world) option" where
  "create_fail e s w =
     (let w = close_if_open e (re_evfd s) w;
          w = close_if_open e (re_epfd s) w;
          (r, w) = ring_destroy e (re_cmds s) w
      in do {
        (ms, h) \<leftarrow> cfiber_multislab_destroy (re_fibers s) (w_heap w);
        Some (None, w\<lparr>w_heap := h, w_sys := sys_free (e_sys e) (re_self s) (w_sys w)\<rparr>)
      })"

text \<open>\<open>stack_size\<close> rounded up to a page, and at least one page.\<close>

definition round_stack_size :: "u64 \<Rightarrow> u64 \<Rightarrow> u64" where
  "round_stack_size page sz =
     (let maxs = (sz + page - 1) AND NOT (page - 1) in if maxs < page then page else maxs)"

definition create_stacks ::
  "('v, 'k) renv \<Rightarrow> cfiber_reactor_config \<Rightarrow> u64 \<Rightarrow> ('h, 'v) cfiber_reactor \<Rightarrow> ('h, 'v, 'k) world \<Rightarrow>
   (('h, 'v) cfiber_reactor option \<times> ('h, 'v, 'k) world) option" where
  "create_stacks e config maxs s w = do {
     (stacks, v) \<leftarrow> cfiber_growable_stack_allocator_create (e_nd e) (e_vm e)
       \<lparr>arg_max_stack_size = maxs,
        arg_cache_capacity = (if rc_stack_cache config \<noteq> 0 then rc_stack_cache config else 64),
        arg_initial_cached = 0\<rparr> (w_vm w);
     let w = w\<lparr>w_vm := v\<rparr>;
     case stacks of
       None \<Rightarrow> create_fail e s w
     | Some ga \<Rightarrow> Some (Some (s\<lparr>re_stacks := ga, re_stack_size := maxs\<rparr>), w)
   }"

text \<open>The descriptors of the event loop; what follows them is \<open>next\<close>.\<close>

definition create_epoll ::
  "('v, 'k) renv \<Rightarrow>
   (('h, 'v) cfiber_reactor \<Rightarrow> ('h, 'v, 'k) world \<Rightarrow> (('h, 'v) cfiber_reactor option \<times> ('h, 'v, 'k) world) option) \<Rightarrow>
   ('h, 'v) cfiber_reactor \<Rightarrow> ('h, 'v, 'k) world \<Rightarrow>
   (('h, 'v) cfiber_reactor option \<times> ('h, 'v, 'k) world) option" where
  "create_epoll e next s w =
     (let (r, k) = sys_epoll_create (e_sys e) (w_sys w);
          (epfd, w) = libc_ret r (w\<lparr>w_sys := k\<rparr>);
          s = s\<lparr>re_epfd := epfd\<rparr>
      in if epfd < 0 then create_fail e s w
         else
           let (r, k) = sys_eventfd (e_sys e) (w_sys w);
               (evfd, w) = libc_ret r (w\<lparr>w_sys := k\<rparr>);
               s = s\<lparr>re_evfd := evfd\<rparr>
           in if evfd < 0 then create_fail e s w
              else
                let (r, w) = c_epoll_ctl e epfd EPOLL_CTL_ADD evfd (Some (EPOLLIN, re_self s)) w
                in if r < 0 then create_fail e s w else next s w)"

definition cfiber_reactor_create ::
  "placement \<Rightarrow> ('v, 'k) renv \<Rightarrow> cfiber_reactor_config \<Rightarrow> (libc_heap, 'v, 'k) world \<Rightarrow>
   ((libc_heap, 'v) cfiber_reactor option \<times> (libc_heap, 'v, 'k) world) option" where
  "cfiber_reactor_create place e config w =
     (let ps = vm_pagesize (e_vm e) (w_vm w) in
      if ps \<le> 0 \<or> rc_stack_size config = 0 then Some (None, w\<lparr>w_errno := EINVAL\<rparr>)
      else
        let maxs = round_stack_size (word_of_int ps) (rc_stack_size config);
            (p, k) = sys_aligned_alloc (e_sys e) CFIBER_CACHE_LINE_SIZE
              (align_up SIZEOF_REACTOR CFIBER_CACHE_LINE_SIZE) (w_sys w);
            w = w\<lparr>w_sys := k\<rparr>
        in if p = 0 then Some (None, w)
           else
             let s = reactor_zero p;
                 block = align_up SIZEOF_EV_FIBER CFIBER_CACHE_LINE_SIZE;
                 (rc, fibers) = cfiber_multislab_init_ext (re_fibers s) block DEFAULT_FIBERS_PER_SLAB 0
                   UINT32_MAX (Some (zeroing_alloc place)) (Some zeroing_free) 0;
                 s = s\<lparr>re_fibers := fibers\<rparr>
             in if rc \<noteq> 0 then Some (None, w\<lparr>w_sys := sys_free (e_sys e) p (w_sys w)\<rparr>)
                else
                  let (rc, cmds, w) = ring_init e (re_cmds s) CMD_RING_CAP w;
                      s = s\<lparr>re_cmds := cmds\<rparr>
                  in if rc \<noteq> 0 then create_fail e s w
                     else create_epoll e (create_stacks e config maxs) s w)"

text \<open>The stacks of the fibers the loop never finished, following \<open>live_next\<close> from \<open>f\<close>.\<close>

partial_function (option) release_stacks ::
  "('v, 'k) renv \<Rightarrow> u64 \<Rightarrow> ('h, 'v) cfiber_reactor \<Rightarrow> 'v \<Rightarrow> (('h, 'v) cfiber_reactor \<times> 'v) option" where
  "release_stacks e f s v =
     (if f = 0 then Some (s, v)
      else Option.bind (re_blocks s f) (\<lambda>c.
        Option.bind (cfiber_growable_stack_release (e_nd e) (e_vm e) (re_stacks s) (ef_stack c) v)
          (\<lambda>(stacks, stack, v).
            release_stacks e (ef_live_next c)
              (s\<lparr>re_stacks := stacks, re_blocks := (re_blocks s)(f \<mapsto> c\<lparr>ef_stack := stack\<rparr>)\<rparr>) v)))"

text \<open>\<open>None\<close> in the argument is a null pointer.\<close>

definition cfiber_reactor_destroy ::
  "('v, 'k) renv \<Rightarrow> rthread \<Rightarrow> ('h, 'v) cfiber_reactor option \<Rightarrow> ('h, 'v, 'k) world \<Rightarrow>
   ('h, 'v, 'k) world option" where
  "cfiber_reactor_destroy e th r w =
     (case r of
        None \<Rightarrow> Some w
      | Some s \<Rightarrow> do {
          ASSERT (e_nd e) (g_reactor th \<noteq> re_self s);
          (s, v) \<leftarrow> release_stacks e (re_live_head s) s (w_vm w);
          let s = s\<lparr>re_live_head := 0\<rparr>;
          (ms, h) \<leftarrow> cfiber_multislab_destroy (re_fibers s) (w_heap w);
          let (cmds, w) = ring_destroy e (re_cmds s) (w\<lparr>w_vm := v, w_heap := h\<rparr>);
          let w = w\<lparr>w_sys := sys_free (e_sys e) (re_heap_mem s) (w_sys w)\<rparr>;
          let w = w\<lparr>w_sys := sys_free (e_sys e) (re_owner_mem s) (w_sys w)\<rparr>;
          w \<leftarrow> (if ga_self (re_stacks s) \<noteq> 0 then do {
                 (leaked, v) \<leftarrow> cfiber_growable_stack_allocator_destroy (e_nd e) (e_vm e) (re_stacks s) (w_vm w);
                 ASSERT (e_nd e) (leaked = 0);
                 Some (w\<lparr>w_vm := v\<rparr>)
               }
               else Some w);
          let w = close_if_open e (re_evfd s) w;
          let w = close_if_open e (re_epfd s) w;
          Some (w\<lparr>w_sys := sys_free (e_sys e) (re_self s) (w_sys w)\<rparr>)
        })"

end
