(* ===== verification/Kernel.thy ===== *)
theory Kernel
  imports Timer_Heap
begin

text \<open>
  What the reactor relies on of the system calls, the locale \<open>kernel_contract\<close>, over the set of epoll
  registrations: descriptor, data pointer, and whether it is one-shot and still armed. A one-shot
  registration that was reported is disarmed, and a descriptor has one registration. \<open>demo_os\<close> is
  a small kernel that meets it: scripted readiness, a clock that advances while the loop sleeps, and
  an eventfd counter.
\<close>

definition oneshot :: "u32 \<Rightarrow> bool" where
  "oneshot ev \<longleftrightarrow> ev AND EPOLLONESHOT \<noteq> 0"

type_synonym regs = "(int \<times> u64 \<times> bool) set"

locale kernel_contract =
  fixes os :: "'k sys"
    and regs :: "'k \<Rightarrow> regs"
    and epfd evfd :: int
  assumes ctl_set: "op = EPOLL_CTL_ADD \<or> op = EPOLL_CTL_MOD \<Longrightarrow>
      sys_epoll_ctl os epfd op fd (Some (ev, p)) k = (r, k') \<Longrightarrow>
      regs k' \<subseteq> (if r < 0 then regs k else {x \<in> regs k. fst x \<noteq> fd} \<union> {(fd, p, oneshot ev)})"
    and ctl_del: "sys_epoll_ctl os epfd EPOLL_CTL_DEL fd None k = (r, k') \<Longrightarrow>
      regs k' \<subseteq> {x \<in> regs k. fst x \<noteq> fd}"
    and wait_events: "sys_epoll_wait os epfd 64 t k = ((n, evs), k') \<Longrightarrow>
      nat n \<le> length evs \<and> regs k' \<subseteq> regs k \<and>
      (\<forall>(ev, p) \<in> set evs. \<exists>fd one. (fd, p, one) \<in> regs k \<and> (one \<longrightarrow> (fd, p, True) \<notin> regs k'))"
    and clock_regs: "sys_clock os k = (t', k') \<Longrightarrow> regs k' \<subseteq> regs k"
    and realloc_regs: "sys_realloc os q n' k = (p, k') \<Longrightarrow> regs k' \<subseteq> regs k"
    and read_regs: "sys_read os fd len k = (x, k') \<Longrightarrow> regs k' \<subseteq> regs k"
    and write_regs: "sys_write os fd bs k = (r, k') \<Longrightarrow> regs k' \<subseteq> regs k"
    and close_regs: "sys_close os fd k = (r, k') \<Longrightarrow> regs k' \<subseteq> regs k"
    and calloc_regs: "sys_calloc os c n' k = (p, k') \<Longrightarrow> regs k' \<subseteq> regs k"
    and aligned_regs: "sys_aligned_alloc os a n' k = (p, k') \<Longrightarrow> regs k' \<subseteq> regs k"
    and free_regs: "regs (sys_free os p k) \<subseteq> regs k"
    and create_regs: "sys_epoll_create os k = (r, k') \<Longrightarrow> regs k' \<subseteq> regs k"
    and eventfd_regs: "sys_eventfd os k = (r, k') \<Longrightarrow> regs k' \<subseteq> regs k"
    and yield_regs: "regs (sys_sched_yield os k) \<subseteq> regs k"
    and realloc_room: "realloc_bounded os"
    and read_clears: "sys_read os evfd 8 k = ((8, bs), k') \<Longrightarrow> fst (fst (sys_read os evfd 8 k')) \<noteq> 8"

section \<open>A kernel that meets it\<close>

text \<open>\<open>dk_regs\<close> lists descriptor, events and pointer of each registration, and whether it is armed;
  \<open>dk_script\<close> the descriptors that become ready, one list for each \<open>epoll_wait\<close>; \<open>dk_count\<close> the counter
  of the eventfd, descriptor 4 (the epoll set is 3). Pointers returned by \<open>realloc\<close> are made up, null
  for a request that does not fit.\<close>

record demo_state =
  dk_regs :: "(int \<times> u32 \<times> u64 \<times> bool) list"
  dk_script :: "int list list"
  dk_count :: nat
  dk_time :: u64
  dk_allocs :: nat

definition demo_events :: "demo_state \<Rightarrow> (int \<times> u32 \<times> u64 \<times> bool) list" where
  "demo_events k = filter (\<lambda>(fd, ev, p, armed). armed \<and>
     (fd = 4 \<and> dk_count k > 0 \<or> dk_script k \<noteq> [] \<and> fd \<in> set (hd (dk_script k)))) (dk_regs k)"

definition demo_alloc :: "u64 \<Rightarrow> demo_state \<Rightarrow> u64 \<times> demo_state" where
  "demo_alloc n k = (if unat n < 2 ^ 60 then 4096 * (1 + of_nat (dk_allocs k)) else 0, k\<lparr>dk_allocs := dk_allocs k + 1\<rparr>)"

definition demo_os :: "demo_state sys" where
  "demo_os = \<lparr>
     sys_clock = (\<lambda>k. ((dk_time k div 1000000000, dk_time k mod 1000000000), k)),
     sys_realloc = (\<lambda>p n k. demo_alloc n k),
     sys_calloc = (\<lambda>c n k. demo_alloc (c * n) k),
     sys_aligned_alloc = (\<lambda>a n k. demo_alloc n k),
     sys_free = (\<lambda>p k. k),
     sys_epoll_ctl = (\<lambda>epfd op fd ev k.
       let rest = filter (\<lambda>x. fst x \<noteq> fd) (dk_regs k); old = (rest \<noteq> dk_regs k) in
       case ev of
         None \<Rightarrow> (if old then 0 else - ENOENT, k\<lparr>dk_regs := rest\<rparr>)
       | Some (e, p) \<Rightarrow>
           if op = EPOLL_CTL_ADD \<and> old then (- EEXIST, k)
           else if op = EPOLL_CTL_MOD \<and> \<not> old then (- ENOENT, k)
           else (0, k\<lparr>dk_regs := (fd, e, p, True) # rest\<rparr>)),
     sys_epoll_wait = (\<lambda>epfd n t k.
       let evs = demo_events k;
           k' = k\<lparr>dk_script := tl (dk_script k),
                  dk_regs := map (\<lambda>(fd, ev, p, a). (fd, ev, p, a \<and> \<not> ((fd, ev, p, a) \<in> set evs \<and> oneshot ev))) (dk_regs k)\<rparr>
       in if evs = [] \<and> t < 0 then ((- EINTR, []), k')
          else if evs = [] then ((0, []), k'\<lparr>dk_time := dk_time k + word_of_int t * 1000000\<rparr>)
          else ((int (length evs), map (\<lambda>(fd, ev, p, a). (ev, p)) evs), k')),
     sys_epoll_create = (\<lambda>k. (3, k)),
     sys_eventfd = (\<lambda>k. (4, k)),
     sys_read = (\<lambda>fd n k. if fd = 4 \<and> dk_count k > 0 then ((8, of_nat (dk_count k) # replicate 7 0), k\<lparr>dk_count := 0\<rparr>)
       else ((- EAGAIN, []), k)),
     sys_write = (\<lambda>fd bs k. (int (length bs), if fd = 4 then k\<lparr>dk_count := dk_count k + 1\<rparr> else k)),
     sys_accept4 = (\<lambda>fd a l f m k. (- EAGAIN, m, k)),
     sys_connect = (\<lambda>fd a l m k. (- EINPROGRESS, k)),
     sys_so_error = (\<lambda>fd k. ((0, 0), k)),
     sys_fcntl = (\<lambda>fd op arg k. (0, k)),
     sys_close = (\<lambda>fd k. (0, k\<lparr>dk_regs := filter (\<lambda>x. fst x \<noteq> fd) (dk_regs k)\<rparr>)),
     sys_sched_yield = (\<lambda>k. k)\<rparr>"

text \<open>The armed registrations; one that is not one-shot is always armed.\<close>

definition demo_regs :: "demo_state \<Rightarrow> regs" where
  "demo_regs k = {(fd, p, oneshot ev) | fd ev p. (fd, ev, p, True) \<in> set (dk_regs k)}"

lemma demo_regs_mono: "set (dk_regs k') \<subseteq> set (dk_regs k) \<Longrightarrow> demo_regs k' \<subseteq> demo_regs k"
  by (auto simp: demo_regs_def)

lemma demo_ctl:
  assumes "sys_epoll_ctl demo_os epfd op fd ev k = (r, k')"
  shows "set (dk_regs k') \<subseteq> (case ev of
      None \<Rightarrow> {x \<in> set (dk_regs k). fst x \<noteq> fd}
    | Some (e, p) \<Rightarrow> if r < 0 then set (dk_regs k) else {x \<in> set (dk_regs k). fst x \<noteq> fd} \<union> {(fd, e, p, True)})"
  using assms by (auto simp: demo_os_def Let_def errno_defs filter_id_conv split: option.splits prod.splits if_splits)

lemma demo_wait:
  assumes "sys_epoll_wait demo_os epfd n t k = ((m, evs), k')"
  obtains es where "es = demo_events k" "evs = map (\<lambda>(fd, ev, p, a). (ev, p)) es \<or> evs = []" "nat m \<le> length evs"
    "dk_regs k' = map (\<lambda>(fd, ev, p, a). (fd, ev, p, a \<and> \<not> ((fd, ev, p, a) \<in> set es \<and> oneshot ev))) (dk_regs k)"
proof (rule that [of "demo_events k"])
  show "dk_regs k' = map (\<lambda>(fd, ev, p, a). (fd, ev, p, a \<and> \<not> ((fd, ev, p, a) \<in> set (demo_events k) \<and> oneshot ev))) (dk_regs k)"
    using assms by (auto simp: demo_os_def Let_def split: if_splits)
qed (use assms in \<open>auto simp: demo_os_def Let_def EINTR_def split: if_splits\<close>)

interpretation demo_os: kernel_contract demo_os demo_regs 3 4
proof unfold_locales
  fix k k' :: demo_state and t n fd ev p r op and evs :: "(u32 \<times> u64) list"
  {
    assume "sys_epoll_ctl demo_os 3 op fd (Some (ev, p)) k = (r, k')"
    from demo_ctl [OF this] show "demo_regs k' \<subseteq>
        (if r < 0 then demo_regs k else {x \<in> demo_regs k. fst x \<noteq> fd} \<union> {(fd, p, oneshot ev)})"
      unfolding demo_regs_def by (auto split: if_splits)
  next
    assume "sys_epoll_ctl demo_os 3 EPOLL_CTL_DEL fd None k = (r, k')"
    from demo_ctl [OF this] show "demo_regs k' \<subseteq> {x \<in> demo_regs k. fst x \<noteq> fd}"
      unfolding demo_regs_def by auto
  next
    assume "sys_epoll_wait demo_os 3 64 t k = ((n, evs), k')"
    then obtain es where w: "es = demo_events k" "evs = map (\<lambda>(fd, ev, p, a). (ev, p)) es \<or> evs = []" "nat n \<le> length evs"
      "dk_regs k' = map (\<lambda>(fd, ev, p, a). (fd, ev, p, a \<and> \<not> ((fd, ev, p, a) \<in> set es \<and> oneshot ev))) (dk_regs k)"
      by (rule demo_wait)
    have "demo_regs k' \<subseteq> demo_regs k" unfolding demo_regs_def w(4) by auto
    moreover have "\<exists>fd one. (fd, p, one) \<in> demo_regs k \<and> (one \<longrightarrow> (fd, p, True) \<notin> demo_regs k')"
      if "(ev, p) \<in> set evs" for ev p
    proof -
      from that w(2) obtain fd a where e: "(fd, ev, p, a) \<in> set es" by auto
      then have a: "a" "(fd, ev, p, a) \<in> set (dk_regs k)" using w(1) by (auto simp: demo_events_def)
      have "(fd, p, oneshot ev) \<in> demo_regs k" using a by (auto simp: demo_regs_def)
      moreover have "(fd, p, True) \<notin> demo_regs k'"
      proof
        assume "(fd, p, True) \<in> demo_regs k'"
        then obtain ev2 where "oneshot ev2" "(fd, ev2, p, True) \<in> set (dk_regs k')" by (auto simp: demo_regs_def)
        then have "oneshot ev2" "(fd, ev2, p, True) \<in> set (dk_regs k)" "(fd, ev2, p, True) \<notin> set es"
          unfolding w(4) by auto
        then show False using e a(1) w(1) by (auto simp: demo_events_def)
      qed
      ultimately show ?thesis by blast
    qed
    ultimately show "nat n \<le> length evs \<and> demo_regs k' \<subseteq> demo_regs k \<and>
        (\<forall>(ev, p) \<in> set evs. \<exists>fd one. (fd, p, one) \<in> demo_regs k \<and> (one \<longrightarrow> (fd, p, True) \<notin> demo_regs k'))"
      using w(3) by auto
  }
qed (auto simp: demo_os_def demo_alloc_def demo_regs_def realloc_bounded_def EAGAIN_def split: if_splits)

end
