(* ===== verification/Ring_Correct.thy ===== *)
theory Ring_Correct
  imports Cmd_Ring
begin

text \<open>
  The command ring is a bounded queue, also when producers on any threads and the consumer interleave
  at every atomic access. \<open>ring_rep\<close> describes the ring between two accesses, by positions counted as
  natural numbers since the start: \<open>R\<close> cells released, \<open>D\<close> claimed by the consumer, \<open>E\<close> claimed by
  producers, \<open>P\<close> the claimed ones not yet published, and \<open>cs p\<close> the command of position \<open>p\<close>. Positions
  stay below \<open>2^63\<close>, beyond which the signed comparison would overflow.
\<close>

section \<open>Cells and positions\<close>

lemma sint_of_nat64:
  assumes "a < 2 ^ 63"
  shows "sint (of_nat a :: u64) = int a"
proof -
  have "unat (of_nat a :: u64) = a" using assms by (intro unat_of_nat_small) simp
  moreover have "uint x = int (unat x)" for x :: u64 by simp
  ultimately have u: "uint (of_nat a :: u64) = int a" by metis
  have "int a < int (2 ^ 63)" using assms by (simp only: of_nat_less_iff)
  then have "int a < 2 ^ 63" by simp
  moreover have "- (2 ^ 63) \<le> int a" by (rule order_trans [of _ 0]) simp_all
  ultimately have "signed_take_bit 63 (int a) = int a" by (intro signed_take_bit_int_eq_self)
  then show ?thesis using u by (simp add: sint_uint)
qed

lemma seq_dif_of_nat:
  assumes "a < 2 ^ 63" "b < 2 ^ 63"
  shows "seq_dif (of_nat a) (of_nat b) = Some (int a - int b)"
proof -
  have "int a < int (2 ^ 63)" "int b < int (2 ^ 63)" using assms by (simp_all only: of_nat_less_iff)
  then have "- (2 ^ 63) \<le> int a - int b" "int a - int b < 2 ^ 63" by simp_all
  then show ?thesis by (simp only: seq_dif_def sint_of_nat64 [OF assms(1)] sint_of_nat64 [OF assms(2)] Let_def simp_thms if_True)
qed

lemma cell_at_of_nat:
  assumes "ring_mask r = mask k" "length (cells r) = 2 ^ k" "p < 2 ^ 63"
  shows "cell_at r (of_nat p) = Some (p mod 2 ^ k)"
proof -
  have u: "unat (of_nat p :: u64) = p" using assms(3) by (intro unat_of_nat_small) simp
  have "(of_nat p :: u64) AND mask k = take_bit k (of_nat p)" by (simp only: take_bit_eq_mask)
  moreover have "unat (take_bit k (of_nat p :: u64)) = p mod 2 ^ k"
    by (simp only: unsigned_take_bit_eq u) (simp only: take_bit_eq_mod)
  ultimately show ?thesis using assms(1,2) by (simp add: cell_at_def)
qed

section \<open>The invariant of the ring\<close>

definition slot :: "cmd_ring \<Rightarrow> nat \<Rightarrow> cmd_cell" where
  "slot r p = cells r ! (p mod length (cells r))"

lemma slot_wrap: "slot r (p + length (cells r)) = slot r p"
  by (simp add: slot_def)

definition ring_rep :: "nat \<Rightarrow> nat \<Rightarrow> nat \<Rightarrow> nat set \<Rightarrow> (nat \<Rightarrow> cmd) \<Rightarrow> cmd_ring \<Rightarrow> bool" where
  "ring_rep R D E P cs r \<longleftrightarrow>
     (\<exists>k. 0 < k \<and> length (cells r) = 2 ^ k \<and> ring_mask r = mask k) \<and>
     enqueue_pos r = of_nat E \<and> dequeue_pos r = of_nat D \<and>
     R \<le> D \<and> D \<le> E \<and> E \<le> R + length (cells r) \<and> E + length (cells r) < 2 ^ 63 \<and> P \<subseteq> {D ..< E} \<and>
     (\<forall>p. R \<le> p \<longrightarrow> p < E \<longrightarrow> p \<notin> P \<longrightarrow> slot r p = \<lparr>cell_seq = of_nat (p + 1), cell_cmd = cs p\<rparr>) \<and>
     (\<forall>p \<in> P. cell_seq (slot r p) = of_nat p) \<and>
     (\<forall>p. E \<le> p \<longrightarrow> p < R + length (cells r) \<longrightarrow> cell_seq (slot r p) = of_nat p)"

lemma ring_repD:
  assumes "ring_rep R D E P cs r"
  shows "enqueue_pos r = of_nat E" "dequeue_pos r = of_nat D"
    "R \<le> D" "D \<le> E" "E \<le> R + length (cells r)" "E + length (cells r) < 2 ^ 63" "P \<subseteq> {D ..< E}"
    "\<And>p. R \<le> p \<Longrightarrow> p < E \<Longrightarrow> p \<notin> P \<Longrightarrow> slot r p = \<lparr>cell_seq = of_nat (p + 1), cell_cmd = cs p\<rparr>"
    "\<And>p. p \<in> P \<Longrightarrow> cell_seq (slot r p) = of_nat p"
    "\<And>p. E \<le> p \<Longrightarrow> p < R + length (cells r) \<Longrightarrow> cell_seq (slot r p) = of_nat p"
    "2 \<le> length (cells r)"
proof -
  from assms obtain k where "0 < k" "length (cells r) = 2 ^ k" by (auto simp: ring_rep_def)
  then show "2 \<le> length (cells r)" by (cases k) simp_all
qed (use assms in \<open>auto simp: ring_rep_def\<close>)

lemma ring_cell_at:
  assumes "ring_rep R D E P cs r" "p < 2 ^ 63"
  shows "cell_at r (of_nat p) = Some (p mod length (cells r))"
  using assms cell_at_of_nat by (auto simp: ring_rep_def)

text \<open>What a load of \<open>seq\<close> at any position can see: an older generation only when the ring is full
  there, a newer one only at a position already released.\<close>

lemma seq_window:
  assumes r: "ring_rep R D E P cs r" and p: "p \<le> E"
  obtains q where "cell_seq (slot r p) = of_nat q" "q < 2 ^ 63" "p \<le> q \<or> (p = E \<and> E = R + length (cells r))"
    "q = p \<Longrightarrow> p \<in> P \<or> (p = E \<and> E < R + length (cells r))"
proof -
  note r = ring_repD [OF r]
  let ?n = "length (cells r)"
  show thesis
  proof (cases "p < R")
    case True
    have n0: "0 < ?n" using r(11) by linarith
    obtain d m j where dm: "d + m = R - p + ?n - 1" "m < ?n" "d = j * ?n"
      using n0 by (metis div_mult_mod_eq mod_less_divisor)
    let ?q = "p + d"
    have q: "R \<le> ?q" "?q < R + ?n" "p < ?q" using dm(1,2) True n0 by linarith+
    have s: "slot r ?q = slot r p" by (simp add: slot_def dm(3))
    show thesis
    proof (cases "?q < E")
      case True
      show thesis
      proof (cases "?q \<in> P")
        case True
        then show thesis using r(9) [OF True] r(6) \<open>?q < E\<close> q s by (intro that [of ?q]) auto
      next
        case False
        then show thesis using r(8) [of ?q] q True r(6) s by (intro that [of "?q + 1"]) auto
      qed
    next
      case False
      then show thesis using r(10) [of ?q] q r(3-6) s by (intro that [of ?q]) auto
    qed
  next
    case False
    show thesis
    proof (cases "p = E")
      case pE: True
      show thesis
      proof (cases "E < R + ?n")
        case True
        show thesis
        proof (rule that [of E])
          show "cell_seq (slot r p) = of_nat E" unfolding pE using True by (intro r(10)) simp_all
          show "E < 2 ^ 63" using r(6) by linarith
          show "p \<le> E \<or> (p = E \<and> E = R + ?n)" using pE by simp
          show "p \<in> P \<or> (p = E \<and> E < R + ?n)" using pE True by blast
        qed
      next
        case False
        then have e: "E = R + ?n" using r(5) by simp
        have s: "slot r p = slot r R" by (simp only: slot_def pE e mod_add_self2)
        have "R < E" using e r(11) by linarith
        show thesis
        proof (cases "R \<in> P")
          case True
          show thesis
          proof (rule that [of R])
            show "cell_seq (slot r p) = of_nat R" using r(9) [OF True] s by simp
            show "R < 2 ^ 63" using r(6) \<open>R < E\<close> by linarith
            show "p \<le> R \<or> (p = E \<and> E = R + ?n)" using pE e by simp
          qed (use pE \<open>R < E\<close> in simp)
        next
          case False
          then have "slot r R = \<lparr>cell_seq = of_nat (R + 1), cell_cmd = cs R\<rparr>" using r(8) [of R] \<open>R < E\<close> by blast
          show thesis
          proof (rule that [of "R + 1"])
            show "cell_seq (slot r p) = of_nat (R + 1)"
              using \<open>slot r R = _\<close> s by (simp only: cmd_cell.simps)
            show "R + 1 < 2 ^ 63" using r(6,11) \<open>R < E\<close> by linarith
            show "p \<le> R + 1 \<or> (p = E \<and> E = R + ?n)" using pE e by simp
          qed (use pE e r(11) in linarith)
        qed
      qed
    next
      case npE: False
      then have "p < E" using p by simp
      show thesis
      proof (cases "p \<in> P")
        case True
        then show thesis using r(9) [OF True] r(6) \<open>p < E\<close> by (intro that [of p]) auto
      next
        case nP: False
        then show thesis using r(8) [of p] False r(6) \<open>p < E\<close> by (intro that [of "p + 1"]) auto
      qed
    qed
  qed
qed

text \<open>A change of one cell.\<close>

lemma slot_update:
  assumes "length (cells r) = n" "0 < n" "cells r' = (cells r)[p mod n := c]"
  shows "slot r' q = (if q mod n = p mod n then c else slot r q)"
  using assms by (auto simp: slot_def nth_list_update)

lemma mod_window:
  assumes "q mod n = p mod n" "a \<le> p" "p < a + n" "a \<le> q" "q < a + (n :: nat)"
  shows "q = p"
proof -
  have e: "int q mod int n = int p mod int n" using assms(1) by (metis of_nat_mod)
  then have "(int q - int a) mod int n = (int p - int a) mod int n" by (rule mod_diff_cong) simp
  moreover have "0 \<le> int q - int a" "int q - int a < int n" "0 \<le> int p - int a" "int p - int a < int n"
    using assms by simp_all
  ultimately show ?thesis by (simp add: mod_pos_pos_trivial)
qed

section \<open>The accesses that change the ring\<close>

lemma rep_claim:
  assumes r: "ring_rep R D E P cs r" and E: "E < R + length (cells r)" "E + 1 + length (cells r) < 2 ^ 63"
  shows "ring_rep R D (E + 1) (insert E P) (cs(E := c)) (r\<lparr>enqueue_pos := of_nat E + 1\<rparr>)"
proof -
  have s: "slot (r\<lparr>enqueue_pos := x\<rparr>) p = slot r p" for x p by (simp add: slot_def)
  have "cell_seq (slot r E) = of_nat E" using ring_repD(10) [OF r, of E] E(1) by simp
  then show ?thesis
    using r E unfolding ring_rep_def s by (auto simp: less_Suc_eq)
qed

text \<open>In the window from \<open>R\<close> on, a cell belongs to one position.\<close>

lemma rep_slot:
  assumes r: "ring_rep R D E P cs r" and p: "R \<le> p" "p < R + length (cells r)"
    and r': "r' = r\<lparr>cells := (cells r)[p mod length (cells r) := x]\<rparr>"
  shows "length (cells r') = length (cells r)" "slot r' p = x"
    "\<And>q. R \<le> q \<Longrightarrow> q < R + length (cells r) \<Longrightarrow> q \<noteq> p \<Longrightarrow> slot r' q = slot r q"
proof -
  have n: "0 < length (cells r)" using ring_repD(11) [OF r] by linarith
  note u = slot_update [of r _ r' p x, OF refl n]
  show "length (cells r') = length (cells r)" using r' by simp
  show "slot r' p = x" using u [of p] r' by simp
  fix q assume q: "R \<le> q" "q < R + length (cells r)" "q \<noteq> p"
  then have "q mod length (cells r) \<noteq> p mod length (cells r)" using mod_window [OF _ p] by blast
  then show "slot r' q = slot r q" using u [of q] r' by simp
qed

lemma rep_write:
  assumes r: "ring_rep R D E P cs r" and p: "p \<in> P"
  shows "ring_rep R D E P cs
    (r\<lparr>cells := (cells r)[p mod length (cells r) := (slot r p)\<lparr>cell_cmd := c\<rparr>]\<rparr>)" (is "ring_rep _ _ _ _ _ ?r")
proof -
  note D = ring_repD [OF r]
  have w: "R \<le> p" "p < R + length (cells r)" using D(3,5,7) p by auto
  note S = rep_slot [OF r w refl, where x = "(slot r p)\<lparr>cell_cmd := c\<rparr>"]
  have other: "slot ?r q = slot r q" if "R \<le> q" "q < R + length (cells r)" "q \<noteq> p" for q
    using S(3) [OF that] .
  have "cell_seq (slot ?r q) = cell_seq (slot r q)" if "R \<le> q" "q < R + length (cells r)" for q
    using other [OF that] S(2) by (cases "q = p") simp_all
  moreover have "q \<in> P \<Longrightarrow> R \<le> q \<and> q < R + length (cells r)" for q using D(3,5,7) by auto
  ultimately have q: "cell_seq (slot ?r q) = cell_seq (slot r q)" "R \<le> q \<and> q < R + length (cells r)"
    if "q \<in> P" for q using that by blast+
  show ?thesis
    unfolding ring_rep_def S(1)
  proof (intro conjI allI impI ballI)
    fix q assume q: "R \<le> q" "q < E" "q \<notin> P"
    then show "slot ?r q = \<lparr>cell_seq = of_nat (q + 1), cell_cmd = cs q\<rparr>"
      using other [of q] D(5) D(8) [of q] p by fastforce
  next
    fix i assume "i \<in> P"
    then show "cell_seq (slot ?r i) = of_nat i" using q(1) D(9) by simp
  next
    fix i assume "E \<le> i" "i < R + length (cells r)"
    then show "cell_seq (slot ?r i) = of_nat i" using other [of i] D(3,4,7) D(10) [of i] p by fastforce
  qed (use r in \<open>auto simp: ring_rep_def\<close>)
qed

lemma rep_publish:
  assumes r: "ring_rep R D E P cs r" and p: "p \<in> P" "cell_cmd (slot r p) = cs p"
  shows "ring_rep R D E (P - {p}) cs
    (r\<lparr>cells := (cells r)[p mod length (cells r) := (slot r p)\<lparr>cell_seq := of_nat p + 1\<rparr>]\<rparr>)" (is "ring_rep _ _ _ _ _ ?r")
proof -
  note D = ring_repD [OF r]
  have w: "R \<le> p" "p < R + length (cells r)" "p < E" using D(3,5,7) p by auto
  note S = rep_slot [OF r w(1,2) refl, where x = "(slot r p)\<lparr>cell_seq := of_nat p + 1\<rparr>"]
  have here: "slot ?r p = \<lparr>cell_seq = of_nat (p + 1), cell_cmd = cs p\<rparr>" using S(2) p(2) by simp
  have P: "q \<in> P \<Longrightarrow> R \<le> q \<and> q < R + length (cells r)" for q using D(3,5,7) by auto
  show ?thesis
    unfolding ring_rep_def S(1)
  proof (intro conjI allI impI ballI)
    fix q assume q: "R \<le> q" "q < E" "q \<notin> P - {p}"
    then show "slot ?r q = \<lparr>cell_seq = of_nat (q + 1), cell_cmd = cs q\<rparr>"
      using here S(3) [of q] D(5,8) by (cases "q = p") auto
  next
    fix q assume "q \<in> P - {p}"
    then show "cell_seq (slot ?r q) = of_nat q" using S(3) [of q] P D(9) by auto
  next
    fix q assume "E \<le> q" "q < R + length (cells r)"
    then show "cell_seq (slot ?r q) = of_nat q" using S(3) [of q] w D(3,4,10) by auto
  qed (use r in \<open>auto simp: ring_rep_def\<close>)
qed

lemma rep_deq_claim:
  assumes r: "ring_rep D D E P cs r" and p: "D < E" "D \<notin> P"
  shows "ring_rep D (D + 1) E P cs (r\<lparr>dequeue_pos := of_nat D + 1\<rparr>)"
proof -
  have s: "slot (r\<lparr>dequeue_pos := x\<rparr>) q = slot r q" for x q by (simp add: slot_def)
  have "P \<subseteq> {D + 1 ..< E}"
  proof
    fix q assume "q \<in> P"
    then have "D \<le> q" "q < E" "q \<noteq> D" using ring_repD(7) [OF r] p(2) by auto
    then show "q \<in> {D + 1 ..< E}" by simp
  qed
  then show ?thesis using r p unfolding ring_rep_def s by auto
qed

lemma mask_word_of_nat: "of_nat p + mask k + 1 = (of_nat (p + 2 ^ k) :: u64)"
  by (simp add: mask_eq_exp_minus_1)

lemma rep_release:
  assumes r: "ring_rep R D E P cs r" and p: "D = R + 1"
  shows "ring_rep (R + 1) D E P cs
    (r\<lparr>cells := (cells r)[R mod length (cells r) := (slot r R)\<lparr>cell_seq := of_nat R + ring_mask r + 1\<rparr>]\<rparr>)" (is "ring_rep _ _ _ _ _ ?r")
proof -
  note D = ring_repD [OF r]
  let ?n = "length (cells r)"
  have w: "R \<le> R" "R < R + ?n" using D(11) by linarith+
  note S = rep_slot [OF r w refl, where x = "(slot r R)\<lparr>cell_seq := of_nat R + ring_mask r + 1\<rparr>"]
  have m: "of_nat R + ring_mask r + 1 = (of_nat (R + ?n) :: u64)"
    using r mask_word_of_nat [of R] by (auto simp: ring_rep_def)
  have here: "cell_seq (slot ?r (R + ?n)) = of_nat (R + ?n)"
  proof -
    have "slot ?r (R + ?n) = slot ?r R" using slot_wrap [of ?r R] unfolding S(1) .
    then show ?thesis unfolding \<open>slot ?r (R + ?n) = slot ?r R\<close> S(2) using m by simp
  qed
  show ?thesis
    unfolding ring_rep_def S(1)
  proof (intro conjI allI impI ballI)
    fix q assume q: "R + 1 \<le> q" "q < E" "q \<notin> P"
    then show "slot ?r q = \<lparr>cell_seq = of_nat (q + 1), cell_cmd = cs q\<rparr>"
      using S(3) [of q] D(5) D(8) [of q] by auto
  next
    fix q assume "q \<in> P"
    then have "R < q" "q < E" using D(7) p by auto
    then show "cell_seq (slot ?r q) = of_nat q" using S(3) [of q] D(5) D(9) [OF \<open>q \<in> P\<close>] by auto
  next
    fix q assume q: "E \<le> q" "q < R + 1 + ?n"
    show "cell_seq (slot ?r q) = of_nat q"
    proof (cases "q = R + ?n")
      case True
      then show ?thesis using here by simp
    next
      case False
      then show ?thesis using S(3) [of q] q D(3,4) D(10) [of q] p by auto
    qed
  qed (use r p in \<open>auto simp: ring_rep_def\<close>)
qed

section \<open>One thread at a time\<close>

lemma seq_at:
  assumes r: "ring_rep R D E P cs r" and p: "p < 2 ^ 63" "q < 2 ^ 63" and s: "cell_seq (slot r p) = of_nat q"
    and b: "b < 2 ^ 63"
  obtains i where "cell_at r (of_nat p) = Some i"
    "seq_dif (cell_seq (cells r ! i)) (of_nat b) = Some (int q - int b)"
  using ring_cell_at [OF r p(1)] seq_dif_of_nat [OF p(2) b] s that by (simp add: slot_def)

lemma ring_enqueue_room:
  assumes r: "ring_rep D D E {} cs r" and E: "E < D + length (cells r)" "E + 1 + length (cells r) < 2 ^ 63"
  obtains r' where "ring_enqueue r c = Some (True, r')" "ring_rep D D (E + 1) {} (cs(E := c)) r'"
    "length (cells r') = length (cells r)"
proof -
  note B = ring_repD [OF r]
  let ?n = "length (cells r)"
  have E63: "E < 2 ^ 63" using E(2) by linarith
  let ?r1 = "r\<lparr>enqueue_pos := of_nat E + 1\<rparr>"
  have r1: "ring_rep D D (E + 1) {E} (cs(E := c)) ?r1" using rep_claim [OF r E] by simp
  let ?r2 = "?r1\<lparr>cells := (cells ?r1)[E mod length (cells ?r1) := (slot ?r1 E)\<lparr>cell_cmd := c\<rparr>]\<rparr>"
  have r2: "ring_rep D D (E + 1) {E} (cs(E := c)) ?r2" by (rule rep_write [OF r1]) simp
  have w: "D \<le> E" "E < D + length (cells ?r1)" using B(4) E(1) by simp_all
  note S = rep_slot [OF r1 w refl, where x = "(slot ?r1 E)\<lparr>cell_cmd := c\<rparr>"]
  have n2: "length (cells ?r2) = ?n" by simp
  let ?r3 = "?r2\<lparr>cells := (cells ?r2)[E mod length (cells ?r2) := (slot ?r2 E)\<lparr>cell_seq := of_nat E + 1\<rparr>]\<rparr>"
  have "cell_cmd (slot ?r2 E) = (cs(E := c)) E" using S(2) by simp
  from rep_publish [OF r2 insertI1 this] have r3: "ring_rep D D (E + 1) {} (cs(E := c)) ?r3"
    by (simp only: Diff_cancel)
  have s0: "cell_seq (slot r E) = of_nat E" using B(10) [of E] E(1) by simp
  have c0: "enq_step c Enq_load r = Some (Enq_seq (of_nat E), r)" by (simp add: enq_step_def B(1))
  have c1: "enq_step c (Enq_seq (of_nat E)) r = Some (Enq_cas (of_nat E), r)"
    by (rule seq_at [OF r E63 E63 s0 E63]) (simp add: enq_step_def)
  have c2: "enq_step c (Enq_cas (of_nat E)) r = Some (Enq_write (of_nat E), ?r1)" by (simp add: enq_step_def B(1))
  have i: "cell_at r' (of_nat E) = Some (E mod ?n)" if "ring_rep D D (E + 1) {E} (cs(E := c)) r'" "length (cells r') = ?n" for r'
    using ring_cell_at [OF that(1) E63] that(2) by simp
  have c3: "enq_step c (Enq_write (of_nat E)) ?r1 = Some (Enq_publish (of_nat E), ?r2)"
    using i [OF r1] by (simp add: enq_step_def slot_def)
  have c4: "enq_step c (Enq_publish (of_nat E)) ?r2 = Some (Enq_done True, ?r3)"
    using i [OF r2 n2] n2 by (simp add: enq_step_def slot_def)
  have "ring_enqueue r c = Some (True, ?r3)"
    unfolding ring_enqueue_def
    by (subst enq_run.simps, simp only: enq_pc.case c0 Option.bind.simps prod.case,
        subst enq_run.simps, simp only: enq_pc.case c1 Option.bind.simps prod.case,
        subst enq_run.simps, simp only: enq_pc.case c2 Option.bind.simps prod.case,
        subst enq_run.simps, simp only: enq_pc.case c3 Option.bind.simps prod.case,
        subst enq_run.simps, simp only: enq_pc.case c4 Option.bind.simps prod.case,
        subst enq_run.simps, simp only: enq_pc.case)
  then show thesis using that r3 by simp
qed

lemma ring_enqueue_full:
  assumes r: "ring_rep D D E {} cs r" and E: "E = D + length (cells r)"
  shows "ring_enqueue r c = Some (False, r)"
proof -
  note B = ring_repD [OF r]
  have E63: "E < 2 ^ 63" "D + 1 < 2 ^ 63" "D < E" using B(6,11) E by linarith+
  have "slot r D = \<lparr>cell_seq = of_nat (D + 1), cell_cmd = cs D\<rparr>" by (rule B(8)) (use E63 in simp_all)
  then have s0: "cell_seq (slot r E) = of_nat (D + 1)" using slot_wrap [of r D] E by simp
  have c0: "enq_step c Enq_load r = Some (Enq_seq (of_nat E), r)" by (simp add: enq_step_def B(1))
  have neg: "int (D + 1) - int E < 0" using E B(11) by simp
  have c1: "enq_step c (Enq_seq (of_nat E)) r = Some (Enq_done False, r)"
    by (rule seq_at [OF r E63(1,2) s0 E63(1)]) (use neg in \<open>simp add: enq_step_def\<close>)
  show ?thesis
    unfolding ring_enqueue_def
    by (subst enq_run.simps, simp only: enq_pc.case c0 Option.bind.simps prod.case,
        subst enq_run.simps, simp only: enq_pc.case c1 Option.bind.simps prod.case,
        subst enq_run.simps, simp only: enq_pc.case)
qed

lemma ring_dequeue_some:
  assumes r: "ring_rep D D E {} cs r" and E: "D < E"
  obtains r' where "ring_dequeue r = Some (Some (cs D), r')" "ring_rep (D + 1) (D + 1) E {} cs r'"
    "length (cells r') = length (cells r)"
proof -
  note B = ring_repD [OF r]
  let ?n = "length (cells r)"
  have D63: "D < 2 ^ 63" "D + 1 < 2 ^ 63" using B(6,11) E by linarith+
  have sD: "slot r D = \<lparr>cell_seq = of_nat (D + 1), cell_cmd = cs D\<rparr>" by (rule B(8)) (use E in simp_all)
  let ?r1 = "r\<lparr>dequeue_pos := of_nat D + 1\<rparr>"
  have r1: "ring_rep D (D + 1) E {} cs ?r1" by (rule rep_deq_claim [OF r E]) simp
  let ?r2 = "?r1\<lparr>cells := (cells ?r1)[D mod length (cells ?r1) := (slot ?r1 D)\<lparr>cell_seq := of_nat D + ring_mask ?r1 + 1\<rparr>]\<rparr>"
  have r2: "ring_rep (D + 1) (D + 1) E {} cs ?r2" by (rule rep_release [OF r1 refl])
  have c0: "deq_step Deq_load r = Some (Deq_seq (of_nat D), r)" by (simp add: deq_step_def B(2))
  have "seq_dif (of_nat (D + 1)) (of_nat (D + 1)) = Some 0" using seq_dif_of_nat [OF D63(2) D63(2)] by simp
  then have c1: "deq_step (Deq_seq (of_nat D)) r = Some (Deq_cas (of_nat D), r)"
    using ring_cell_at [OF r D63(1)] sD by (simp add: deq_step_def slot_def add.commute)
  have c2: "deq_step (Deq_cas (of_nat D)) r = Some (Deq_copy (of_nat D), ?r1)" by (simp add: deq_step_def B(2))
  have i: "cell_at ?r1 (of_nat D) = Some (D mod ?n)" using ring_cell_at [OF r1 D63(1)] by simp
  have c3: "deq_step (Deq_copy (of_nat D)) ?r1 = Some (Deq_release (of_nat D) (cs D), ?r1)"
    using i sD by (simp add: deq_step_def slot_def)
  have c4: "deq_step (Deq_release (of_nat D) (cs D)) ?r1 = Some (Deq_done (Some (cs D)), ?r2)"
    using i by (simp add: deq_step_def slot_def)
  have "ring_dequeue r = Some (Some (cs D), ?r2)"
    unfolding ring_dequeue_def
    by (subst deq_run.simps, simp only: deq_pc.case c0 Option.bind.simps prod.case,
        subst deq_run.simps, simp only: deq_pc.case c1 Option.bind.simps prod.case,
        subst deq_run.simps, simp only: deq_pc.case c2 Option.bind.simps prod.case,
        subst deq_run.simps, simp only: deq_pc.case c3 Option.bind.simps prod.case,
        subst deq_run.simps, simp only: deq_pc.case c4 Option.bind.simps prod.case,
        subst deq_run.simps, simp only: deq_pc.case)
  then show thesis using that r2 by simp
qed

lemma ring_dequeue_none:
  assumes r: "ring_rep D D D {} cs r"
  shows "ring_dequeue r = Some (None, r)"
proof -
  note B = ring_repD [OF r]
  have D63: "D < 2 ^ 63" "D + 1 < 2 ^ 63" using B(6,11) by linarith+
  have s0: "cell_seq (slot r D) = of_nat D" by (rule B(10)) (use B(11) in linarith)+
  have c0: "deq_step Deq_load r = Some (Deq_seq (of_nat D), r)" by (simp add: deq_step_def B(2))
  have "seq_dif (of_nat D) (of_nat (D + 1)) = Some (- 1)" using seq_dif_of_nat [OF D63] by simp
  then have c1: "deq_step (Deq_seq (of_nat D)) r = Some (Deq_done None, r)"
    using ring_cell_at [OF r D63(1)] s0 by (simp add: deq_step_def slot_def add.commute)
  show ?thesis
    unfolding ring_dequeue_def
    by (subst deq_run.simps, simp only: deq_pc.case c0 Option.bind.simps prod.case,
        subst deq_run.simps, simp only: deq_pc.case c1 Option.bind.simps prod.case,
        subst deq_run.simps, simp only: deq_pc.case)
qed

text \<open>The abstract queue: its contents, and how many commands were ever put in it.\<close>

definition ring_queue :: "cmd_ring \<Rightarrow> nat \<Rightarrow> cmd list \<Rightarrow> bool" where
  "ring_queue r n q \<longleftrightarrow> (\<exists>D cs. n = D + length q \<and> ring_rep D D n {} cs r \<and> q = map cs [D ..< n])"

lemma queue_enq:
  assumes "ring_queue r n q" "length q < length (cells r)" "n + 1 + length (cells r) < 2 ^ 63"
  obtains r' where "ring_enqueue r c = Some (True, r')" "ring_queue r' (n + 1) (q @ [c])"
    "length (cells r') = length (cells r)"
proof -
  from assms(1) obtain D cs where r: "n = D + length q" "ring_rep D D n {} cs r" "q = map cs [D ..< n]"
    unfolding ring_queue_def by blast
  from ring_enqueue_room [OF r(2) _ assms(3)] r(1) assms(2) obtain r' where r':
    "ring_enqueue r c = Some (True, r')" "ring_rep D D (n + 1) {} (cs(n := c)) r'"
    "length (cells r') = length (cells r)" by auto
  have "q @ [c] = map (cs(n := c)) [D ..< n + 1]" using r by simp
  then have "ring_queue r' (n + 1) (q @ [c])" unfolding ring_queue_def using r(1) r'(2) by fastforce
  then show thesis using that r' by blast
qed

lemma queue_full: "ring_queue r n q \<Longrightarrow> length q = length (cells r) \<Longrightarrow> ring_enqueue r c = Some (False, r)"
  unfolding ring_queue_def using ring_enqueue_full by metis

lemma queue_deq:
  assumes "ring_queue r n (c # q)"
  obtains r' where "ring_dequeue r = Some (Some c, r')" "ring_queue r' n q" "length (cells r') = length (cells r)"
proof -
  from assms obtain D cs where q: "n = D + length (c # q)" and r: "ring_rep D D n {} cs r" "c # q = map cs [D ..< n]"
    unfolding ring_queue_def by (elim exE conjE)
  from q have "n = D + 1 + length q" by (simp only: list.size)
  note r = this r
  have "[D ..< n] = D # [D + 1 ..< n]" using r(1) upt_conv_Cons [of D n] by simp
  then have c: "c = cs D" "q = map cs [D + 1 ..< n]" using r(3) by simp_all
  from ring_dequeue_some [OF r(2)] r(1) obtain r' where r': "ring_dequeue r = Some (Some (cs D), r')"
    "ring_rep (D + 1) (D + 1) n {} cs r'" "length (cells r') = length (cells r)" by auto
  then have "ring_queue r' n q" unfolding ring_queue_def using r(1) c(2) by blast
  then show thesis using that r' c(1) by blast
qed

lemma queue_deq_none: "ring_queue r n [] \<Longrightarrow> ring_dequeue r = Some (None, r)"
  unfolding ring_queue_def using ring_dequeue_none by auto

lemma queue_bounds: "ring_queue r n q \<Longrightarrow> length q \<le> length (cells r) \<and> length q \<le> n \<and> n + length (cells r) < 2 ^ 63"
  by (auto simp: ring_queue_def dest: ring_repD(5,6))

lemma ring_init_spec:
  assumes "ring_init e r cap w = (0, r', w')" "cap = 2 ^ k" "0 < k" "k < 62"
  shows "ring_rep 0 0 0 {} cs r'" "length (cells r') = 2 ^ k"
proof -
  have u: "unat cap = 2 ^ k"
  proof -
    have "(2 :: nat) ^ k < 2 ^ 64" using assms(4) by (intro power_strict_increasing) simp_all
    then have "unat (of_nat (2 ^ k) :: u64) = 2 ^ k" by (intro unat_of_nat_small) simp
    then show ?thesis using assms(2) by simp
  qed
  have "(2 :: nat) ^ k < 2 ^ 62" using assms(4) by (intro power_strict_increasing) simp_all
  then have "(2 :: nat) ^ k < 2 ^ 63" by simp
  obtain p where r': "r' = r\<lparr>cells_mem := p, ring_mask := cap - 1,
      cells := map (\<lambda>i. \<lparr>cell_seq = of_nat i, cell_cmd = cmd_zero\<rparr>) [0 ..< 2 ^ k], enqueue_pos := 0, dequeue_pos := 0\<rparr>"
    using assms(1) unfolding ring_init_def Let_def u by (auto split: prod.splits if_splits)
  have m: "cap - 1 = mask k" by (simp only: assms(2) mask_eq_exp_minus_1)
  show l: "length (cells r') = 2 ^ k" using r' by simp
  have "cell_seq (slot r' p) = of_nat p" if "p < 2 ^ k" for p
    using that r' by (simp add: slot_def)
  then show "ring_rep 0 0 0 {} cs r'"
    unfolding ring_rep_def l using r' assms(3) m \<open>2 ^ k < 2 ^ 63\<close> by auto
qed

end
