(* ===== verification/Reactor_Inv.thy ===== *)
theory Reactor_Inv
  imports Reactor_Run Kernel DList Fifo Ring_Correct Multislab_Correct
begin

text \<open>
  The invariant of the reactor, in parts over separate fields of the fibers: the ready queue over
  \<open>next\<close>, the live list over its links, the states, the timers, the descriptors, the stacks. A field
  is seen through \<open>vw\<close>; an operation changes few views and the parts over the others are kept as they
  are. The ready queue and the live list get their properties from the locales of theories \<open>Fifo\<close> and
  \<open>DList\<close>.
\<close>

section \<open>Views\<close>

definition vw :: "(ev_fiber \<Rightarrow> 'a) \<Rightarrow> blocks \<Rightarrow> u64 \<Rightarrow> 'a option" where
  "vw g F p = map_option g (F p)"

lemma vw_Some: "F f = Some c \<Longrightarrow> vw g F f = Some (g c)"
  by (simp add: vw_def)

lemma vw_SomeD: "vw g F f = Some x \<Longrightarrow> \<exists>c. F f = Some c \<and> g c = x"
  by (auto simp: vw_def)

lemma vw_None [simp]: "vw g F f = None \<longleftrightarrow> F f = None"
  by (simp add: vw_def)

lemma vw_upd [simp]: "vw g (F(f \<mapsto> c)) = (vw g F)(f \<mapsto> g c)"
  by (auto simp: vw_def)

lemma vw_same: "F f = Some c \<Longrightarrow> g c' = g c \<Longrightarrow> (vw g F)(f \<mapsto> g c') = vw g F"
  by (auto simp: vw_def)

lemma vw_same' [simp]: "vw g F f = Some x \<Longrightarrow> (vw g F)(f \<mapsto> x) = vw g F"
  by (auto simp: vw_def)

lemma vw_retimed:
  assumes "retimed H F F'" "\<And>c t. g (c\<lparr>ef_timer_i := t\<rparr>) = g c"
  shows "vw g F' = vw g F"
proof
  fix p
  have "F' p = F p \<or> (\<exists>c t. F p = Some c \<and> F' p = Some (c\<lparr>ef_timer_i := t\<rparr>))"
    using assms(1) unfolding retimed_def by blast
  then show "vw g F' p = vw g F p" using assms(2) by (auto simp: vw_def)
qed

abbreviation "v_next \<equiv> vw ef_next"
abbreviation "v_links \<equiv> vw (\<lambda>c. (ef_live_next c, ef_live_prev c))"
abbreviation "v_state \<equiv> vw ef_state"
abbreviation "v_fd \<equiv> vw (\<lambda>c. (ef_state c, ef_park c, ef_reg_fd c, ef_wait_fd c))"
abbreviation "v_stack \<equiv> vw ef_stack"
abbreviation "v_timer \<equiv> vw ef_timer_i"

text \<open>A fiber without its queue pointer, and without its live links.\<close>

definition no_next :: "ev_fiber \<Rightarrow> ev_fiber" where
  "no_next c = c\<lparr>ef_next := 0\<rparr>"

definition no_links :: "ev_fiber \<Rightarrow> ev_fiber" where
  "no_links c = c\<lparr>ef_live_next := 0, ef_live_prev := 0\<rparr>"

lemma vw_cong:
  assumes "vw h F' = vw h F" "\<And>c. g c = k (h c)"
  shows "vw g F' = vw g F"
proof
  fix p
  have "map_option k (map_option h (F' p)) = map_option k (map_option h (F p))"
    using fun_cong [OF assms(1), of p] by (simp add: vw_def)
  then show "vw g F' p = vw g F p" by (simp add: vw_def option.map_comp comp_def flip: assms(2))
qed

section \<open>The ready queue and the live list\<close>

definition strip_ready :: "('h, 'v) cfiber_reactor \<Rightarrow> ('h, 'v) cfiber_reactor \<times> (u64 \<Rightarrow> ev_fiber option)" where
  "strip_ready s = (s\<lparr>re_ready_head := 0, re_ready_tail := 0, re_blocks := Map.empty\<rparr>, vw no_next (re_blocks s))"

definition mark_ready ::
  "u64 \<Rightarrow> ('h, 'v) cfiber_reactor \<times> (u64 \<Rightarrow> ev_fiber option) \<Rightarrow> ('h, 'v) cfiber_reactor \<times> (u64 \<Rightarrow> ev_fiber option)" where
  "mark_ready y p = (fst p, \<lambda>x. if x = y then map_option (ef_state_update (\<lambda>_. FB_READY)) (snd p x) else snd p x)"

interpretation rq: fifo_ops "\<lambda>s. v_next (re_blocks s)" re_ready_head re_ready_tail strip_ready mark_ready enqueue dequeue
proof unfold_locales
  fix s :: "('h, 'v) cfiber_reactor" and y
  assume y: "v_next (re_blocks s) y \<noteq> None"
    and t: "re_ready_tail s = 0 \<or> (re_ready_tail s \<noteq> y \<and> v_next (re_blocks s) (re_ready_tail s) \<noteq> None)"
  obtain c where c: "re_blocks s y = Some c" using y by auto
  show "\<exists>s'. enqueue s y = Some s' \<and>
      v_next (re_blocks s') = (if re_ready_tail s = 0 then (v_next (re_blocks s))(y \<mapsto> 0)
                       else (v_next (re_blocks s))(y \<mapsto> 0, re_ready_tail s \<mapsto> y)) \<and>
      re_ready_head s' = (if re_ready_tail s = 0 then y else re_ready_head s) \<and>
      re_ready_tail s' = y \<and> strip_ready s' = mark_ready y (strip_ready s)"
  proof (cases "re_ready_tail s = 0")
    case True
    then show ?thesis using c by (auto simp: enqueue_def strip_ready_def mark_ready_def vw_def no_next_def fun_eq_iff)
  next
    case False
    then obtain l where "re_blocks s (re_ready_tail s) = Some l" "re_ready_tail s \<noteq> y" using t by auto
    then show ?thesis
      using c False by (auto simp: enqueue_def strip_ready_def mark_ready_def vw_def no_next_def fun_eq_iff)
  qed
next
  fix s :: "('h, 'v) cfiber_reactor" and nx
  assume h: "re_ready_head s \<noteq> 0" "v_next (re_blocks s) (re_ready_head s) = Some nx"
  then obtain c where "re_blocks s (re_ready_head s) = Some c" "ef_next c = nx" by (auto simp: vw_def)
  then show "\<exists>s'. dequeue s = Some (re_ready_head s, s') \<and>
      v_next (re_blocks s') = (v_next (re_blocks s))(re_ready_head s \<mapsto> 0) \<and> re_ready_head s' = nx \<and>
      re_ready_tail s' = (if nx = 0 then 0 else re_ready_tail s) \<and> strip_ready s' = strip_ready s"
    using h(1) by (auto simp: dequeue_def strip_ready_def vw_def no_next_def fun_eq_iff Let_def)
qed (simp add: dequeue_def)

definition strip_live ::
  "('h, 'v) cfiber_reactor \<Rightarrow> u64 \<Rightarrow> (('h, 'v) cfiber_reactor \<times> ev_fiber option) option" where
  "strip_live s p = Some (s\<lparr>re_live_head := 0, re_blocks := Map.empty\<rparr>, vw no_links (re_blocks s) p)"

text \<open>The list's head is an argument and a result in \<open>dlist_ops\<close>.\<close>

definition live_push :: "('h, 'v) cfiber_reactor \<Rightarrow> u64 \<Rightarrow> u64 \<Rightarrow> (('h, 'v) cfiber_reactor \<times> u64) option" where
  "live_push s h p = map_option (\<lambda>s. (s, re_live_head s)) (live_link (s\<lparr>re_live_head := h\<rparr>) p)"

definition live_remove :: "('h, 'v) cfiber_reactor \<Rightarrow> u64 \<Rightarrow> u64 \<Rightarrow> (('h, 'v) cfiber_reactor \<times> u64) option" where
  "live_remove s h p = map_option (\<lambda>s. (s, re_live_head s)) (live_unlink (s\<lparr>re_live_head := h\<rparr>) p)"

interpretation lv: dlist_ops "\<lambda>s. v_links (re_blocks s)" strip_live live_push live_remove
proof unfold_locales
  fix s :: "('h, 'v) cfiber_reactor" and h p
  assume p: "v_links (re_blocks s) p \<noteq> None" "h \<noteq> p" "h = 0 \<or> v_links (re_blocks s) h \<noteq> None"
  obtain c where c: "re_blocks s p = Some c" using p(1) by auto
  show "\<exists>s'. live_push s h p = Some (s', p) \<and> v_links (re_blocks s') = link_push (v_links (re_blocks s)) h p \<and>
      strip_live s' = strip_live s"
  proof (cases "h = 0")
    case True
    then show ?thesis
      using c by (auto simp: live_push_def live_link_def link_push_def strip_live_def vw_def no_links_def fun_eq_iff)
  next
    case False
    then obtain d where "re_blocks s h = Some d" using p(3) by auto
    then show ?thesis
      using c False p(2)
      by (auto simp: live_push_def live_link_def link_push_def strip_live_def vw_def no_links_def fun_eq_iff)
  qed
next
  fix s :: "('h, 'v) cfiber_reactor" and h p nx pv
  assume p: "v_links (re_blocks s) p = Some (nx, pv)" "pv = 0 \<or> v_links (re_blocks s) pv \<noteq> None"
    "nx = 0 \<or> v_links (re_blocks s) nx \<noteq> None"
  obtain c where c: "re_blocks s p = Some c" "ef_live_next c = nx" "ef_live_prev c = pv" using p(1) by (auto simp: vw_def)
  show "\<exists>s'. live_remove s h p = Some (s', unlink_head (v_links (re_blocks s)) h p) \<and>
      v_links (re_blocks s') = link_unlink (v_links (re_blocks s)) p \<and> strip_live s' = strip_live s"
  proof (cases "pv = 0"; cases "nx = 0")
    assume "pv = 0" "nx = 0"
    then show ?thesis using c
      by (auto simp: live_remove_def live_unlink_def link_unlink_def unlink_head_def link_next_def link_prev_def
        strip_live_def vw_def no_links_def fun_eq_iff)
  next
    assume z: "pv = 0" "nx \<noteq> 0"
    then obtain d where "re_blocks s nx = Some d" using p(3) by auto
    then show ?thesis using c z
      by (auto simp: live_remove_def live_unlink_def link_unlink_def unlink_head_def link_next_def link_prev_def
        strip_live_def vw_def no_links_def fun_eq_iff)
  next
    assume z: "pv \<noteq> 0" "nx = 0"
    then obtain d where "re_blocks s pv = Some d" using p(2) by auto
    then show ?thesis using c z
      by (auto simp: live_remove_def live_unlink_def link_unlink_def unlink_head_def link_next_def link_prev_def
        strip_live_def vw_def no_links_def fun_eq_iff)
  next
    assume z: "pv \<noteq> 0" "nx \<noteq> 0"
    then obtain d d' where "re_blocks s pv = Some d" "re_blocks s nx = Some d'" using p(2,3) by auto
    then show ?thesis using c z
      by (auto simp: live_remove_def live_unlink_def link_unlink_def unlink_head_def link_next_def link_prev_def
        strip_live_def vw_def no_links_def fun_eq_iff)
  qed
qed

abbreviation "v_time \<equiv> vw (\<lambda>c. (ef_timer_i c, ef_deadline_ns c))"
abbreviation "v_gen \<equiv> vw (\<lambda>c. (ef_generation c, ef_wake_pending c))"

text \<open>The views that a change of the queue pointers, or of the links, leaves alone.\<close>

lemma no_next_views:
  assumes "vw no_next F' = vw no_next F"
  shows "v_links F' = v_links F" "v_state F' = v_state F" "v_fd F' = v_fd F" "v_stack F' = v_stack F"
    "v_time F' = v_time F" "v_gen F' = v_gen F" "vw ef_wait_status F' = vw ef_wait_status F"
  by (rule vw_cong [OF assms, where k = "\<lambda>c. (ef_live_next c, ef_live_prev c)"], simp add: no_next_def)
    (rule vw_cong [OF assms, where k = ef_state], simp add: no_next_def,
     rule vw_cong [OF assms, where k = "\<lambda>c. (ef_state c, ef_park c, ef_reg_fd c, ef_wait_fd c)"], simp add: no_next_def,
     rule vw_cong [OF assms, where k = ef_stack], simp add: no_next_def,
     rule vw_cong [OF assms, where k = "\<lambda>c. (ef_timer_i c, ef_deadline_ns c)"], simp add: no_next_def,
     rule vw_cong [OF assms, where k = "\<lambda>c. (ef_generation c, ef_wake_pending c)"], simp add: no_next_def,
     rule vw_cong [OF assms, where k = ef_wait_status], simp add: no_next_def)

lemma no_links_views:
  assumes "vw no_links F' = vw no_links F"
  shows "v_next F' = v_next F" "v_state F' = v_state F" "v_fd F' = v_fd F" "v_stack F' = v_stack F"
    "v_time F' = v_time F" "v_gen F' = v_gen F" "vw ef_wait_status F' = vw ef_wait_status F"
  by (rule vw_cong [OF assms, where k = ef_next], simp add: no_links_def)
    (rule vw_cong [OF assms, where k = ef_state], simp add: no_links_def,
     rule vw_cong [OF assms, where k = "\<lambda>c. (ef_state c, ef_park c, ef_reg_fd c, ef_wait_fd c)"], simp add: no_links_def,
     rule vw_cong [OF assms, where k = ef_stack], simp add: no_links_def,
     rule vw_cong [OF assms, where k = "\<lambda>c. (ef_timer_i c, ef_deadline_ns c)"], simp add: no_links_def,
     rule vw_cong [OF assms, where k = "\<lambda>c. (ef_generation c, ef_wake_pending c)"], simp add: no_links_def,
     rule vw_cong [OF assms, where k = ef_wait_status], simp add: no_links_def)

lemma retimed_views:
  assumes "retimed H F F'"
  shows "v_next F' = v_next F" "v_links F' = v_links F" "v_state F' = v_state F" "v_fd F' = v_fd F"
    "v_stack F' = v_stack F" "v_gen F' = v_gen F" "vw ef_wait_status F' = vw ef_wait_status F"
    "vw ef_deadline_ns F' = vw ef_deadline_ns F"
  by (rule vw_retimed [OF assms], simp)+

lemma enqueue_spec:
  assumes q: "fifo (v_next (re_blocks s)) (re_ready_head s) (re_ready_tail s) Q"
    and f: "f \<notin> set Q" "f \<noteq> 0" "re_blocks s f = Some c"
  obtains F h t where "enqueue s f = Some (s\<lparr>re_ready_head := h, re_ready_tail := t, re_blocks := F\<rparr>)"
    "fifo (v_next F) h t (Q @ [f])" "vw no_next F = vw no_next ((re_blocks s)(f \<mapsto> c\<lparr>ef_state := FB_READY\<rparr>))"
proof -
  have "rq.holds s Q" using q by (simp add: rq.holds_def)
  moreover have "v_next (re_blocks s) f \<noteq> None" using f(3) by simp
  ultimately obtain s' where s': "enqueue s f = Some s'" "rq.holds s' (Q @ [f])"
    "strip_ready s' = mark_ready f (strip_ready s)" using rq.enq_back [of s Q f] f(1,2) by blast
  let ?F = "re_blocks s'" and ?h = "re_ready_head s'" and ?t = "re_ready_tail s'"
  have "s' = s\<lparr>re_ready_head := ?h, re_ready_tail := ?t, re_blocks := ?F\<rparr>"
    using s'(3) by (cases s; cases s') (simp add: strip_ready_def mark_ready_def)
  moreover have "vw no_next ?F = vw no_next ((re_blocks s)(f \<mapsto> c\<lparr>ef_state := FB_READY\<rparr>))"
  proof
    fix p
    have "vw no_next ?F p = snd (mark_ready f (strip_ready s)) p"
      using arg_cong [OF s'(3), of "\<lambda>x. snd x p"] by (simp add: strip_ready_def)
    then show "vw no_next ?F p = vw no_next ((re_blocks s)(f \<mapsto> c\<lparr>ef_state := FB_READY\<rparr>)) p"
      using f(3) by (auto simp: mark_ready_def strip_ready_def vw_def no_next_def)
  qed
  ultimately show thesis using that [where F = ?F and h = ?h and t = ?t] s'(1,2) unfolding rq.holds_def by metis
qed

lemma dequeue_spec:
  assumes q: "fifo (v_next (re_blocks s)) (re_ready_head s) (re_ready_tail s) (f # Q)"
  obtains F h t where "dequeue s = Some (f, s\<lparr>re_ready_head := h, re_ready_tail := t, re_blocks := F\<rparr>)"
    "fifo (v_next F) h t Q" "vw no_next F = vw no_next (re_blocks s)"
proof -
  have "rq.holds s (f # Q)" using q by (simp add: rq.holds_def)
  then obtain s' where s': "dequeue s = Some (f, s')" "rq.holds s' Q" "strip_ready s' = strip_ready s"
    by (rule rq.deq_front) blast
  have "s' = s\<lparr>re_ready_head := re_ready_head s', re_ready_tail := re_ready_tail s', re_blocks := re_blocks s'\<rparr>"
    using s'(3) by (cases s; cases s') (simp add: strip_ready_def)
  moreover have "vw no_next (re_blocks s') = vw no_next (re_blocks s)" using s'(3) by (simp add: strip_ready_def)
  ultimately show thesis
    using that [where F = "re_blocks s'" and h = "re_ready_head s'" and t = "re_ready_tail s'"] s'(1,2)
    unfolding rq.holds_def by metis
qed

lemma strip_live_eq:
  assumes "strip_live s' = strip_live s"
  shows "s' = s\<lparr>re_live_head := re_live_head s', re_blocks := re_blocks s'\<rparr>"
    "vw no_links (re_blocks s') = vw no_links (re_blocks s)"
proof -
  have "strip_live s' p = strip_live s p" for p using assms by simp
  then have e: "s'\<lparr>re_live_head := 0, re_blocks := Map.empty\<rparr> = s\<lparr>re_live_head := 0, re_blocks := Map.empty\<rparr>"
    "\<And>p. vw no_links (re_blocks s') p = vw no_links (re_blocks s) p" by (auto simp: strip_live_def)
  then show "s' = s\<lparr>re_live_head := re_live_head s', re_blocks := re_blocks s'\<rparr>" by (cases s; cases s') simp
  show "vw no_links (re_blocks s') = vw no_links (re_blocks s)" using e(2) by blast
qed

lemma live_link_spec:
  assumes l: "dll (v_links (re_blocks s)) (re_live_head s) L"
    and f: "f \<notin> set L" "f \<noteq> 0" "re_blocks s f \<noteq> None"
  obtains F where "live_link s f = Some (s\<lparr>re_live_head := f, re_blocks := F\<rparr>)" "dll (v_links F) f (f # L)"
    "vw no_links F = vw no_links (re_blocks s)"
proof -
  have "v_links (re_blocks s) f \<noteq> None" using f(3) by simp
  from lv.push_front [OF l f(1,2) this] obtain s' where s': "live_push s (re_live_head s) f = Some (s', f)"
    "dll (v_links (re_blocks s')) f (f # L)" "strip_live s' = strip_live s" .
  then have k: "live_link s f = Some s'" "re_live_head s' = f" by (auto simp: live_push_def)
  have "s\<lparr>re_live_head := f, re_blocks := re_blocks s'\<rparr> = s'"
    using strip_live_eq(1) [OF s'(3)] unfolding k(2) by (rule sym)
  then show thesis using that [of "re_blocks s'"] k(1) s'(2) strip_live_eq(2) [OF s'(3)] by (simp only:)
qed

lemma live_unlink_spec:
  assumes l: "dll (v_links (re_blocks s)) (re_live_head s) L" and f: "f \<in> set L"
  obtains F h where "live_unlink s f = Some (s\<lparr>re_live_head := h, re_blocks := F\<rparr>)" "dll (v_links F) h (remove1 f L)"
    "vw no_links F = vw no_links (re_blocks s)"
proof -
  from lv.unlink_remove [OF l f] obtain s' h where s': "live_remove s (re_live_head s) f = Some (s', h)"
    "dll (v_links (re_blocks s')) h (remove1 f L)" "strip_live s' = strip_live s" .
  then have k: "live_unlink s f = Some s'" "re_live_head s' = h" by (auto simp: live_remove_def)
  have "s\<lparr>re_live_head := h, re_blocks := re_blocks s'\<rparr> = s'"
    using strip_live_eq(1) [OF s'(3)] unfolding k(2) by (rule sym)
  then show thesis using that [where F = "re_blocks s'" and h = h] k(1) s'(2) strip_live_eq(2) [OF s'(3)] by (simp only:)
qed

text \<open>The timers, over a view.\<close>

lemma timers_ok_cong:
  assumes "\<And>f. f \<in> set (re_heap s) \<Longrightarrow> v_time (re_blocks s') f = v_time (re_blocks s) f"
    "re_heap s' = re_heap s" "re_heap_cap s' = re_heap_cap s"
  shows "timers_ok s' = timers_ok s"
proof -
  have t: "vw g (re_blocks s') f = vw g (re_blocks s) f" if "f \<in> set (re_heap s)" "\<And>c. g c = k (ef_timer_i c, ef_deadline_ns c)" for f g k
    using assms(1) [OF that(1)] that(2) by (cases "re_blocks s f"; cases "re_blocks s' f") (auto simp: vw_def)
  have d: "dl (re_blocks s') f = dl (re_blocks s) f" if "f \<in> set (re_heap s)" for f
    using t [OF that, of ef_deadline_ns snd] by (cases "re_blocks s f"; cases "re_blocks s' f") (auto simp: vw_def dl_def)
  have bk: "back_ok F h \<longleftrightarrow> distinct h \<and> (\<forall>i < length h. v_timer F (h ! i) = Some (of_nat i))" for F h
    unfolding back_ok_def vw_def by (auto split: option.splits)
  have "back_ok (re_blocks s') (re_heap s) = back_ok (re_blocks s) (re_heap s)"
    unfolding bk using t [of _ ef_timer_i fst] nth_mem by auto
  moreover have "is_heap (dl (re_blocks s')) (re_heap s) = is_heap (dl (re_blocks s)) (re_heap s)"
  proof -
    have "heap_at (dl (re_blocks s')) (re_heap s) j = heap_at (dl (re_blocks s)) (re_heap s) j" for j
      using d par_lt nth_mem by (auto simp: heap_at_def)
    then show ?thesis by (simp add: is_heap_def)
  qed
  ultimately show ?thesis using assms(2,3) by (simp add: timers_ok_def)
qed

section \<open>Descriptors\<close>

type_synonym fdv = "u64 \<Rightarrow> (fiber_state \<times> park_kind \<times> int \<times> int) option"

text \<open>A live fiber holds its registration in the table; it waits on a descriptor exactly when it is
  parked on one, and then on the one it holds.\<close>

definition fd_fiber_ok :: "u64 list \<Rightarrow> u64 \<Rightarrow> fiber_state \<times> park_kind \<times> int \<times> int \<Rightarrow> bool" where
  "fd_fiber_ok W f x \<longleftrightarrow> (case x of (st, pk, r, wt) \<Rightarrow>
     (r \<noteq> - 1 \<longrightarrow> 0 \<le> r \<and> nat r < length W \<and> W ! nat r = f) \<and>
     (st = FB_PARKED \<longrightarrow> (pk = PARK_FD \<longleftrightarrow> wt \<noteq> - 1) \<and> (wt \<noteq> - 1 \<longrightarrow> wt = r)) \<and>
     (st = FB_ZOMBIE \<longrightarrow> wt = - 1))"

text \<open>The armed registrations allowed: of fibers parked on that descriptor, and the eventfd's.\<close>

definition armed_by :: "u64 \<Rightarrow> fdv \<Rightarrow> regs" where
  "armed_by self V = {(fd, p, one). if one then V p = Some (FB_PARKED, PARK_FD, fd, fd) else p = self}"

definition d_ok :: "regs \<Rightarrow> u64 \<Rightarrow> u64 list \<Rightarrow> fdv \<Rightarrow> bool" where
  "d_ok A self W V \<longleftrightarrow> length W < 2 ^ 60 \<and>
     (\<forall>f x. V f = Some x \<longrightarrow> fst x \<noteq> FB_FREE \<longrightarrow> fd_fiber_ok W f x) \<and>
     (\<forall>i < length W. W ! i \<noteq> 0 \<longrightarrow> (\<exists>st pk wt. V (W ! i) = Some (st, pk, int i, wt) \<and> st \<noteq> FB_FREE)) \<and>
     A \<subseteq> armed_by self V"

lemma d_ok_each: "d_ok A self W V \<Longrightarrow> V f = Some x \<Longrightarrow> fst x \<noteq> FB_FREE \<Longrightarrow> fd_fiber_ok W f x"
  unfolding d_ok_def by blast

lemma d_okD:
  assumes "d_ok A self W V" "V f = Some (st, pk, r, wt)" "st \<noteq> FB_FREE"
  shows "r \<noteq> - 1 \<Longrightarrow> 0 \<le> r \<and> nat r < length W \<and> W ! nat r = f"
    "st = FB_PARKED \<Longrightarrow> pk = PARK_FD \<longleftrightarrow> wt \<noteq> - 1" "st = FB_PARKED \<Longrightarrow> wt \<noteq> - 1 \<Longrightarrow> wt = r"
    "st = FB_ZOMBIE \<Longrightarrow> wt = - 1"
  using assms by (auto simp: d_ok_def fd_fiber_ok_def)

lemma d_ok_armed: "d_ok A self W V \<Longrightarrow> (fd, p, True) \<in> A \<Longrightarrow> V p = Some (FB_PARKED, PARK_FD, fd, fd)"
  by (auto simp: d_ok_def armed_by_def)

text \<open>A fiber changes state and keeps its registration.\<close>

lemma d_ok_fiber:
  assumes d: "d_ok A self W V" and f: "V f = Some (st, pk, r, wt)" "st \<noteq> FB_FREE" "st' \<noteq> FB_FREE"
    and new: "fd_fiber_ok W f (st', pk', r, wt')" and A: "A' \<subseteq> A"
    and arm: "\<And>fd. (fd, f, True) \<in> A' \<Longrightarrow> (st', pk', r, wt') = (FB_PARKED, PARK_FD, fd, fd)"
  shows "d_ok A' self W (V(f \<mapsto> (st', pk', r, wt')))"
  unfolding d_ok_def
proof (intro conjI allI impI)
  fix g x assume "(V(f \<mapsto> (st', pk', r, wt'))) g = Some x" "fst x \<noteq> FB_FREE"
  then show "fd_fiber_ok W g x" using new d_ok_each [OF d, of g x] by (auto split: if_splits)
next
  fix i assume i: "i < length W" "W ! i \<noteq> 0"
  then obtain s p w where "V (W ! i) = Some (s, p, int i, w)" "s \<noteq> FB_FREE" using d by (auto simp: d_ok_def)
  then show "\<exists>s p w. (V(f \<mapsto> (st', pk', r, wt'))) (W ! i) = Some (s, p, int i, w) \<and> s \<noteq> FB_FREE"
    using f by (cases "W ! i = f") auto
next
  show "A' \<subseteq> armed_by self (V(f \<mapsto> (st', pk', r, wt')))"
  proof
    fix x assume x: "x \<in> A'"
    obtain fd p one where e: "x = (fd, p, one)" by (cases x)
    show "x \<in> armed_by self (V(f \<mapsto> (st', pk', r, wt')))"
    proof (cases "one \<and> p = f")
      case True
      then show ?thesis using arm [of fd] x e by (simp add: armed_by_def)
    next
      case False
      have "x \<in> armed_by self V" using x A d by (auto simp: d_ok_def)
      then show ?thesis using False e by (auto simp: armed_by_def)
    qed
  qed
qed (use d in \<open>simp add: d_ok_def\<close>)

text \<open>A fiber loses its registration.\<close>

lemma d_ok_clear:
  assumes d: "d_ok A self W V" and f: "V f = Some (st, pk, r, wt)" "st \<noteq> FB_FREE" "f \<noteq> 0"
    and new: "fd_fiber_ok W f (st', pk', - 1, wt')" "st' \<noteq> FB_PARKED \<or> wt' = - 1"
    and A: "A' \<subseteq> A" and nf: "\<And>fd. (fd, f, True) \<notin> A'"
  shows "d_ok A' self (if r = - 1 then W else W[nat r := 0]) (V(f \<mapsto> (st', pk', - 1, wt')))" (is "d_ok _ _ ?W ?V")
proof -
  have r: "r = - 1 \<or> (0 \<le> r \<and> nat r < length W \<and> W ! nat r = f)" using d_okD(1) [OF d f(1,2)] by blast
  have other: "W ! i \<noteq> f" if "i < length W" "r = - 1 \<or> i \<noteq> nat r" for i
  proof
    assume "W ! i = f"
    then have "V f = Some (st, pk, int i, wt)" using d f that(1) by (fastforce simp: d_ok_def)
    then have "r = int i" using f(1) by simp
    then show False using that(2) by simp
  qed
  show ?thesis
    unfolding d_ok_def
  proof (intro conjI allI impI)
    show "length ?W < 2 ^ 60" using d by (simp add: d_ok_def)
  next
    fix g x assume g: "?V g = Some x" "fst x \<noteq> FB_FREE"
    show "fd_fiber_ok ?W g x"
    proof (cases "g = f")
      case True
      then show ?thesis using g new by (auto simp: fd_fiber_ok_def)
    next
      case False
      then have gx: "fd_fiber_ok W g x" using g d_ok_each [OF d, of g x] by simp
      then show ?thesis using False r by (auto simp: fd_fiber_ok_def nth_list_update split: prod.splits if_splits)
    qed
  next
    fix i assume i: "i < length ?W" "?W ! i \<noteq> 0"
    then have i': "i < length W" "W ! i \<noteq> 0" "r = - 1 \<or> i \<noteq> nat r"
      by (cases "i = nat r"; auto split: if_splits)+
    then obtain s p w where "V (W ! i) = Some (s, p, int i, w)" "s \<noteq> FB_FREE" using d by (auto simp: d_ok_def)
    then show "\<exists>s p w. ?V (?W ! i) = Some (s, p, int i, w) \<and> s \<noteq> FB_FREE"
      using other [OF i'(1,3)] i' by (auto simp: nth_list_update)
  next
    show "A' \<subseteq> armed_by self ?V"
    proof
      fix x assume x: "x \<in> A'"
      obtain fd p one where e: "x = (fd, p, one)" by (cases x)
      have "x \<in> armed_by self V" using x A d by (auto simp: d_ok_def)
      then show "x \<in> armed_by self ?V" using nf x e by (auto simp: armed_by_def split: if_splits)
    qed
  qed
qed

lemma d_ok_detach:
  assumes d: "d_ok A self W V" and f: "V f = Some (st, pk, r, wt)" "st \<noteq> FB_FREE" "f \<noteq> 0"
    and new: "fd_fiber_ok W f (st', pk', - 1, wt')" "st' \<noteq> FB_PARKED \<or> wt' = - 1"
    and A: "A' \<subseteq> (if r = - 1 then A else {x \<in> A. fst x \<noteq> r})"
  shows "d_ok A' self (if r = - 1 then W else W[nat r := 0]) (V(f \<mapsto> (st', pk', - 1, wt')))"
proof (rule d_ok_clear [OF d f new])
  show "A' \<subseteq> A" using A by (auto split: if_splits)
  show "(fd, f, True) \<notin> A'" for fd
  proof
    assume a: "(fd, f, True) \<in> A'"
    then have "(fd, f, True) \<in> A" using A by (auto split: if_splits)
    then have e: "st = FB_PARKED" "pk = PARK_FD" "r = fd" "wt = fd" using d_ok_armed [OF d] f(1) by auto
    then have "r \<noteq> - 1" using d_okD(2) [OF d f(1,2)] by auto
    then show False using a A e(3) by auto
  qed
qed

section \<open>The parts together\<close>

definition in_st :: "fiber_state \<Rightarrow> blocks \<Rightarrow> u64 set" where
  "in_st x F = {f. v_state F f = Some x}"

lemma in_st_iff: "f \<in> in_st x F \<longleftrightarrow> (\<exists>c. F f = Some c \<and> ef_state c = x)"
  by (auto simp: in_st_def vw_def)

definition ptr_set :: "u64 \<Rightarrow> u64 set" where
  "ptr_set p = (if p = 0 then {} else {p})"

definition states_ok :: "('h, 'v) cfiber_reactor \<Rightarrow> u64 list \<Rightarrow> u64 list \<Rightarrow> bool" where
  "states_ok s Q L \<longleftrightarrow> set Q = in_st FB_READY (re_blocks s) \<and>
     set L = dom (re_blocks s) - in_st FB_FREE (re_blocks s) \<and>
     in_st FB_RUNNING (re_blocks s) = ptr_set (re_current s) \<and>
     in_st FB_ZOMBIE (re_blocks s) = ptr_set (re_zombie s) \<and>
     (re_current s = 0 \<or> re_zombie s = 0) \<and> re_blocks s 0 = None \<and>
     re_blocked s = int (card (in_st FB_PARKED (re_blocks s))) \<and>
     re_active s = int (length L) - (if re_zombie s = 0 then 0 else 1)"

definition t_ok :: "('h, 'v) cfiber_reactor \<Rightarrow> bool" where
  "t_ok s \<longleftrightarrow> timers_ok s \<and> set (re_heap s) \<subseteq> in_st FB_PARKED (re_blocks s) \<and>
     (\<forall>f c. re_blocks s f = Some c \<longrightarrow> ef_state c \<noteq> FB_FREE \<longrightarrow> f \<notin> set (re_heap s) \<longrightarrow> ef_timer_i c = NO_TIMER)"

definition reactor_ok :: "regs \<Rightarrow> u64 list \<Rightarrow> u64 list \<Rightarrow> ('h, 'v) cfiber_reactor \<Rightarrow> bool" where
  "reactor_ok A Q L s \<longleftrightarrow>
     fifo (v_next (re_blocks s)) (re_ready_head s) (re_ready_tail s) Q \<and>
     dll (v_links (re_blocks s)) (re_live_head s) L \<and> states_ok s Q L \<and> t_ok s \<and>
     d_ok A (re_self s) (re_fd_owner s) (v_fd (re_blocks s))"

lemma reactor_okD:
  assumes "reactor_ok A Q L s"
  shows "fifo (v_next (re_blocks s)) (re_ready_head s) (re_ready_tail s) Q"
    "dll (v_links (re_blocks s)) (re_live_head s) L" "states_ok s Q L" "t_ok s"
    "d_ok A (re_self s) (re_fd_owner s) (v_fd (re_blocks s))"
  using assms by (simp_all add: reactor_ok_def)

lemma reactor_okI:
  assumes "fifo (v_next (re_blocks s)) (re_ready_head s) (re_ready_tail s) Q"
    "dll (v_links (re_blocks s)) (re_live_head s) L" "states_ok s Q L" "t_ok s"
    "d_ok A (re_self s) (re_fd_owner s) (v_fd (re_blocks s))"
  shows "reactor_ok A Q L s"
  using assms by (simp add: reactor_ok_def)

lemma reactor_ok_mono: "reactor_ok A Q L s \<Longrightarrow> A' \<subseteq> A \<Longrightarrow> reactor_ok A' Q L s"
  by (auto simp: reactor_ok_def d_ok_def)

lemma v_fd_at: "F f = Some c \<Longrightarrow> v_fd F f = Some (ef_state c, ef_park c, ef_reg_fd c, ef_wait_fd c)"
  by (simp add: vw_def)

lemma in_st_cong: "v_state F' = v_state F \<Longrightarrow> in_st x F' = in_st x F"
  by (simp add: in_st_def)

lemma in_st_upd: "F f = Some c \<Longrightarrow>
    in_st x (F(f \<mapsto> c')) = (if ef_state c' = x then insert f (in_st x F) else in_st x F - {f})"
  by (auto simp: in_st_def vw_def)

lemma dom_view: "vw g F' = vw g F \<Longrightarrow> dom F' = dom F"
proof -
  assume v: "vw g F' = vw g F"
  have "F' p = None \<longleftrightarrow> F p = None" for p using fun_cong [OF v, of p] by (metis vw_None)
  then show ?thesis by (auto simp: dom_def)
qed

lemma states_ok_cong:
  assumes "v_state (re_blocks s') = v_state (re_blocks s)" "re_current s' = re_current s"
    "re_zombie s' = re_zombie s" "re_blocked s' = re_blocked s" "re_active s' = re_active s"
  shows "states_ok s' Q L = states_ok s Q L"
  using assms in_st_cong [OF assms(1)] dom_view [OF assms(1)]
  by (auto simp: states_ok_def)

lemma live_in_L: "states_ok s Q L \<Longrightarrow> f \<in> set L \<longleftrightarrow> (\<exists>c. re_blocks s f = Some c \<and> ef_state c \<noteq> FB_FREE)"
  by (auto simp: states_ok_def in_st_iff)

lemma t_ok_cong:
  assumes "v_time (re_blocks s') = v_time (re_blocks s)" "v_state (re_blocks s') = v_state (re_blocks s)"
    "re_heap s' = re_heap s" "re_heap_cap s' = re_heap_cap s"
  shows "t_ok s' = t_ok s"
proof -
  have tm: "timers_ok s' = timers_ok s" by (rule timers_ok_cong) (use assms in simp_all)
  have same: "(\<exists>c. F' f = Some c \<and> ef_state c \<noteq> FB_FREE \<and> ef_timer_i c \<noteq> NO_TIMER) \<longleftrightarrow>
      (\<exists>c. F f = Some c \<and> ef_state c \<noteq> FB_FREE \<and> ef_timer_i c \<noteq> NO_TIMER)"
    if "v_time F' = v_time F" "v_state F' = v_state F" for F F' f
    using fun_cong [OF that(1), of f] fun_cong [OF that(2), of f]
    by (cases "F f"; cases "F' f") (auto simp: vw_def)
  have alt: "(\<forall>f c. F f = Some c \<longrightarrow> ef_state c \<noteq> FB_FREE \<longrightarrow> f \<notin> H \<longrightarrow> ef_timer_i c = NO_TIMER) \<longleftrightarrow>
      (\<forall>f. f \<notin> H \<longrightarrow> \<not> (\<exists>c. F f = Some c \<and> ef_state c \<noteq> FB_FREE \<and> ef_timer_i c \<noteq> NO_TIMER))" for F :: blocks and H
    by blast
  show ?thesis
    unfolding t_ok_def alt tm assms(3) in_st_cong [OF assms(2)] same [OF assms(1,2)] ..
qed

text \<open>The fields of the reactor that the waking of a fiber leaves alone.\<close>

definition kept :: "('h, 'v) cfiber_reactor \<Rightarrow> ('h, 'v) cfiber_reactor \<Rightarrow> bool" where
  "kept s s' \<longleftrightarrow> re_self s' = re_self s \<and> re_cmds s' = re_cmds s \<and> re_current s' = re_current s \<and>
     re_zombie s' = re_zombie s \<and> re_live_head s' = re_live_head s \<and> re_fibers s' = re_fibers s \<and>
     re_stacks s' = re_stacks s \<and> re_stack_size s' = re_stack_size s \<and> re_epfd s' = re_epfd s \<and>
     re_evfd s' = re_evfd s \<and> re_active s' = re_active s"

lemma kept_refl [simp]: "kept s s" by (simp add: kept_def)

lemma kept_trans: "kept s s' \<Longrightarrow> kept s' s'' \<Longrightarrow> kept s s''" by (simp add: kept_def)

text \<open>A parked fiber was woken with a status: it is ready, off the timer heap, and nothing else has
  changed state, stack, generation, permit or status.\<close>

definition woken :: "u64 \<Rightarrow> ev_status \<Rightarrow> ('h, 'v) cfiber_reactor \<Rightarrow> ('h, 'v) cfiber_reactor \<Rightarrow> bool" where
  "woken f st s s' \<longleftrightarrow> kept s s' \<and>
     v_state (re_blocks s') = (v_state (re_blocks s))(f \<mapsto> FB_READY) \<and>
     v_stack (re_blocks s') = v_stack (re_blocks s) \<and> v_gen (re_blocks s') = v_gen (re_blocks s) \<and>
     vw ef_wait_status (re_blocks s') = (vw ef_wait_status (re_blocks s))(f \<mapsto> st) \<and>
     vw ef_deadline_ns (re_blocks s') = vw ef_deadline_ns (re_blocks s) \<and>
     set (re_heap s') = set (re_heap s) - {f}"

lemma resume_spec:
  assumes q: "fifo (v_next (re_blocks s)) (re_ready_head s) (re_ready_tail s) Q"
    and l: "dll (v_links (re_blocks s)) (re_live_head s) L" and st: "states_ok s Q L" and t: "t_ok s"
    and f: "re_blocks s f = Some c" "ef_state c = FB_PARKED" "f \<notin> set (re_heap s)"
    and d: "d_ok A (re_self s) (re_fd_owner s)
      ((v_fd (re_blocks s))(f \<mapsto> (FB_READY, ef_park c, ef_reg_fd c, ef_wait_fd c)))"
  obtains s' where "resume s f x = Some s'" "reactor_ok A (Q @ [f]) L s'" "woken f x s s'"
proof -
  let ?F = "re_blocks s"
  let ?s = "s\<lparr>re_blocks := ?F(f \<mapsto> c\<lparr>ef_wait_status := x\<rparr>), re_blocked := re_blocked s - 1\<rparr>"
  have f0: "f \<noteq> 0" using st f(1) by (auto simp: states_ok_def)
  have fQ: "f \<notin> set Q" using st f(1,2) by (auto simp: states_ok_def in_st_iff)
  have fq: "fifo (v_next (re_blocks ?s)) (re_ready_head ?s) (re_ready_tail ?s) Q" using q f(1) by (simp add: vw_def)
  have fb: "re_blocks ?s f = Some (c\<lparr>ef_wait_status := x\<rparr>)" by simp
  obtain F h u where e:
    "enqueue ?s f = Some (?s\<lparr>re_ready_head := h, re_ready_tail := u, re_blocks := F\<rparr>)"
    "fifo (v_next F) h u (Q @ [f])"
    "vw no_next F = vw no_next ((re_blocks ?s)(f \<mapsto> c\<lparr>ef_wait_status := x, ef_state := FB_READY\<rparr>))"
    by (rule enqueue_spec [OF fq fQ f0 fb])
  note N = no_next_views [OF e(3)]
  let ?s' = "?s\<lparr>re_ready_head := h, re_ready_tail := u, re_blocks := F\<rparr>"
  have run: "resume s f x = Some ?s'" using f(1,2) e(1) by (simp add: resume_def)
  have S: "v_state F = (v_state ?F)(f \<mapsto> FB_READY)" using N(2) by simp
  have ins: "in_st y F = (if y = FB_READY then insert f (in_st y ?F) else in_st y ?F - {f})" for y
    using S by (auto simp: in_st_def)
  have fin: "finite (in_st FB_PARKED ?F)"
  proof (rule finite_subset)
    show "in_st FB_PARKED ?F \<subseteq> set L" using live_in_L [OF st] by (auto simp: in_st_iff)
  qed simp
  have fp: "f \<in> in_st FB_PARKED ?F" using f(1,2) by (auto simp: in_st_iff)
  have nf: "f \<notin> in_st y ?F" if "y \<noteq> FB_PARKED" for y using f(1,2) that by (auto simp: in_st_iff)
  have dm: "dom F = dom ?F" using dom_view [OF e(3)] f(1) by auto
  have st': "states_ok ?s' (Q @ [f]) L"
  proof -
    have "card (in_st FB_PARKED F) = card (in_st FB_PARKED ?F) - 1" using ins fp fin by simp
    moreover have "0 < card (in_st FB_PARKED ?F)" using fp fin card_gt_0_iff by blast
    ultimately have "re_blocked s - 1 = int (card (in_st FB_PARKED F))" using st by (simp add: states_ok_def)
    moreover have "F 0 = None" using dm st by (auto simp: states_ok_def)
    moreover have same: "in_st y F = in_st y ?F" if "y \<noteq> FB_READY" "y \<noteq> FB_PARKED" for y using ins nf that by simp
    have "in_st FB_FREE F = in_st FB_FREE ?F" "in_st FB_RUNNING F = in_st FB_RUNNING ?F"
      "in_st FB_ZOMBIE F = in_st FB_ZOMBIE ?F" by (rule same; simp)+
    moreover have "in_st FB_READY F = insert f (in_st FB_READY ?F)" using ins [of FB_READY] by simp
    ultimately show ?thesis using st dm by (simp add: states_ok_def)
  qed
  have T: "v_time F = v_time ?F" using N(5) f(1) by (simp add: vw_def)
  have t': "t_ok ?s'"
  proof -
    have "timers_ok ?s' = timers_ok s" by (rule timers_ok_cong) (use T in simp_all)
    moreover have "set (re_heap s) \<subseteq> in_st FB_PARKED F" using t ins f(3) by (auto simp: t_ok_def)
    moreover have "ef_timer_i b = NO_TIMER" if b: "F g = Some b" "ef_state b \<noteq> FB_FREE" "g \<notin> set (re_heap s)" for g b
    proof -
      have "dom F = dom ?F" by (rule dm)
      then obtain b0 where b0: "?F g = Some b0" using b(1) by auto
      have "ef_timer_i b = ef_timer_i b0" using fun_cong [OF T, of g] b(1) b0 by (simp add: vw_def)
      moreover have "ef_state b0 \<noteq> FB_FREE"
        using fun_cong [OF S, of g] b b0 f by (auto simp: vw_def split: if_splits)
      ultimately show ?thesis using t b(3) b0 by (auto simp: t_ok_def)
    qed
    ultimately show ?thesis using t by (auto simp: t_ok_def)
  qed
  have "v_links F = v_links ?F" using N(1) f(1) by (simp add: vw_def)
  moreover have "v_fd F = (v_fd ?F)(f \<mapsto> (FB_READY, ef_park c, ef_reg_fd c, ef_wait_fd c))" using N(3) by simp
  ultimately have "reactor_ok A (Q @ [f]) L ?s'"
    using e(2) l st' t' d by (simp add: reactor_ok_def)
  moreover have "v_stack F = v_stack ?F" "v_gen F = v_gen ?F" using N(4,6) f(1) by (simp_all add: vw_def)
  moreover have "vw ef_wait_status F = (vw ef_wait_status ?F)(f \<mapsto> x)" using N(7) by simp
  moreover have "vw ef_deadline_ns F = vw ef_deadline_ns ?F" by (rule vw_cong [OF T, where k = snd]) simp
  ultimately have "woken f x s ?s'" using S f(3) by (simp add: woken_def kept_def)
  then show thesis using that run \<open>reactor_ok A (Q @ [f]) L ?s'\<close> by blast
qed

text \<open>A wake kept as a permit.\<close>

definition permit :: "u64 \<Rightarrow> ('h, 'v) cfiber_reactor \<Rightarrow> ('h, 'v) cfiber_reactor" where
  "permit f s = s\<lparr>re_blocks := (re_blocks s)(f \<mapsto> (the (re_blocks s f))\<lparr>ef_wake_pending := True\<rparr>)\<rparr>"

lemma permit_ok:
  assumes "reactor_ok A Q L s" "re_blocks s f = Some c"
  shows "reactor_ok A Q L (permit f s)"
proof -
  note K = reactor_okD [OF assms(1)]
  let ?s = "permit f s"
  have v: "vw g (re_blocks ?s) = vw g (re_blocks s)" if "g (c\<lparr>ef_wake_pending := True\<rparr>) = g c" for g :: "ev_fiber \<Rightarrow> 'b"
    using assms(2) that by (simp add: permit_def vw_def)
  have "states_ok ?s Q L = states_ok s Q L"
    by (rule states_ok_cong) (use assms(2) in \<open>simp_all add: permit_def vw_def\<close>)
  moreover have "t_ok ?s = t_ok s"
    by (rule t_ok_cong) (use assms(2) in \<open>simp_all add: permit_def vw_def\<close>)
  ultimately show ?thesis
    using K assms(2) by (simp add: reactor_ok_def permit_def vw_def)
qed

section \<open>Over the environment\<close>

locale reactor_env =
  k: kernel_contract "e_sys e" regs epfd evfd +
  v: vm_contract "e_vm e" M okv page shift +
  h: backing_allocator al fr R okh
  for e :: "('v, 'k) renv"
    and regs :: "'k \<Rightarrow> regs" and epfd evfd :: int
    and M :: "'v \<Rightarrow> u64 \<Rightarrow> nat option" and okv :: "'v \<Rightarrow> bool" and page shift :: nat
    and al :: "u64 \<Rightarrow> u64 \<Rightarrow> 'h \<Rightarrow> u64 \<times> 'h" and fr :: "u64 \<Rightarrow> u64 \<Rightarrow> u64 \<Rightarrow> 'h \<Rightarrow> 'h option"
    and R :: "'h \<Rightarrow> u64 \<Rightarrow> nat option" and okh :: "'h \<Rightarrow> bool"

text \<open>Only the kernel and \<open>errno\<close> changed, and the armed registrations did not grow.\<close>

definition calm :: "('k \<Rightarrow> regs) \<Rightarrow> ('h, 'v, 'k) world \<Rightarrow> ('h, 'v, 'k) world \<Rightarrow> bool" where
  "calm rg w w' \<longleftrightarrow> w_heap w' = w_heap w \<and> w_vm w' = w_vm w \<and> w_bytes w' = w_bytes w \<and>
     rg (w_sys w') \<subseteq> rg (w_sys w)"

lemma calm_refl [simp]: "calm rg w w" by (simp add: calm_def)

lemma calm_trans: "calm rg w w' \<Longrightarrow> calm rg w' w'' \<Longrightarrow> calm rg w w''"
  by (auto simp: calm_def)

lemma calm_errno [simp]: "calm rg w (w'\<lparr>w_errno := x\<rparr>) = calm rg w w'"
  by (simp add: calm_def)

lemma calm_libc_ret: "libc_ret r w = (r', w') \<Longrightarrow> calm rg w w' \<and> w_sys w' = w_sys w \<and> (r' < 0 \<longleftrightarrow> r < 0)"
  by (auto simp: libc_ret_def calm_def split: if_splits)

context reactor_env
begin

lemma detach_spec:
  assumes f: "re_blocks s f = Some c" and ep: "re_epfd s = epfd"
    and own: "ef_reg_fd c \<noteq> - 1 \<Longrightarrow> 0 \<le> ef_reg_fd c \<and> nat (ef_reg_fd c) < length (re_fd_owner s) \<and>
      re_fd_owner s ! nat (ef_reg_fd c) = f"
  obtains w' where
    "detach_fd e s f w = Some (s\<lparr>re_blocks := (re_blocks s)(f \<mapsto> c\<lparr>ef_reg_fd := - 1\<rparr>),
       re_fd_owner := (if ef_reg_fd c = - 1 then re_fd_owner s else (re_fd_owner s)[nat (ef_reg_fd c) := 0])\<rparr>, w')"
    "calm regs w w'"
    "regs (w_sys w') \<subseteq> (if ef_reg_fd c = - 1 then regs (w_sys w) else {x \<in> regs (w_sys w). fst x \<noteq> ef_reg_fd c})"
proof (cases "ef_reg_fd c = - 1")
  case True
  then have "(re_blocks s)(f \<mapsto> c\<lparr>ef_reg_fd := - 1\<rparr>) = re_blocks s" using f by (cases c) auto
  then show thesis using that [of w] True f by (simp add: detach_fd_def)
next
  case False
  let ?fd = "ef_reg_fd c"
  obtain r k where c: "sys_epoll_ctl (e_sys e) epfd EPOLL_CTL_DEL ?fd None (w_sys w) = (r, k)" by fastforce
  obtain r' w' where l: "libc_ret r (w\<lparr>w_sys := k\<rparr>) = (r', w')" by fastforce
  have "calm regs (w\<lparr>w_sys := k\<rparr>) w'" "w_sys w' = k" using calm_libc_ret [OF l] by auto
  moreover have "regs k \<subseteq> {x \<in> regs (w_sys w). fst x \<noteq> ?fd}" by (rule k.ctl_del [OF c])
  ultimately have "calm regs w w'" "regs (w_sys w') \<subseteq> {x \<in> regs (w_sys w). fst x \<noteq> ?fd}"
    by (auto simp: calm_def)
  moreover have "detach_fd e s f w = Some (s\<lparr>re_blocks := (re_blocks s)(f \<mapsto> c\<lparr>ef_reg_fd := - 1\<rparr>),
      re_fd_owner := (re_fd_owner s)[nat ?fd := 0]\<rparr>, w')"
    using False f ep own c l by (simp add: detach_fd_def fd_owner_get_def c_epoll_ctl_def)
  ultimately show thesis using that [of w'] False by simp
qed

text \<open>\<open>timer_remove\<close> on a live fiber, on the heap or not.\<close>

lemma timer_remove_live:
  assumes t: "t_ok s" and f: "re_blocks s f = Some c" "ef_state c \<noteq> FB_FREE"
  obtains h F where "timer_remove s f = Some (s\<lparr>re_heap := h, re_blocks := F\<rparr>)"
    "t_ok (s\<lparr>re_heap := h, re_blocks := F\<rparr>)" "set h = set (re_heap s) - {f}"
    "retimed (insert f (set (re_heap s))) (re_blocks s) F" "F f = Some (c\<lparr>ef_timer_i := NO_TIMER\<rparr>)"
proof (cases "f \<in> set (re_heap s)")
  case True
  have tm: "timers_ok s" using t by (simp add: t_ok_def)
  obtain h F where r: "timer_remove s f = Some (s\<lparr>re_heap := h, re_blocks := F\<rparr>)"
    "timers_ok (s\<lparr>re_heap := h, re_blocks := F\<rparr>)" "mset h = mset (re_heap s) - {#f#}"
    "retimed (set (re_heap s)) (re_blocks s) F" "F f = Some (c\<lparr>ef_timer_i := NO_TIMER\<rparr>)"
    by (rule timer_remove_spec [OF tm f(1) True])
  have d: "distinct (re_heap s)" using tm by (simp add: timers_ok_def back_ok_def)
  have "mset h = mset (remove1 f (re_heap s))" using r(3) by simp
  then have h: "set h = set (re_heap s) - {f}" using d by (metis mset_eq_setD set_remove1_eq)
  have ins: "in_st x F = in_st x (re_blocks s)" for x by (rule in_st_cong) (rule retimed_views [OF r(4)])
  have "t_ok (s\<lparr>re_heap := h, re_blocks := F\<rparr>)"
    unfolding t_ok_def
  proof (intro conjI allI impI)
    show "set (re_heap (s\<lparr>re_heap := h, re_blocks := F\<rparr>)) \<subseteq> in_st FB_PARKED (re_blocks (s\<lparr>re_heap := h, re_blocks := F\<rparr>))"
      using t h ins by (auto simp: t_ok_def)
    fix g b assume g: "re_blocks (s\<lparr>re_heap := h, re_blocks := F\<rparr>) g = Some b" "ef_state b \<noteq> FB_FREE"
      "g \<notin> set (re_heap (s\<lparr>re_heap := h, re_blocks := F\<rparr>))"
    show "ef_timer_i b = NO_TIMER"
    proof (cases "g = f")
      case True
      then show ?thesis using g(1) r(5) by auto
    next
      case False
      then have "g \<notin> set (re_heap s)" using g(3) h by simp
      moreover then have "F g = re_blocks s g" using r(4) unfolding retimed_def by blast
      ultimately show ?thesis using g t by (auto simp: t_ok_def)
    qed
  qed (rule r(2))
  moreover have "retimed (insert f (set (re_heap s))) (re_blocks s) F" using r(4) unfolding retimed_def by blast
  ultimately show thesis using that r(1,5) h by blast
next
  case False
  then have n: "ef_timer_i c = NO_TIMER" using t f by (auto simp: t_ok_def)
  then have "c\<lparr>ef_timer_i := NO_TIMER\<rparr> = c" by (cases c) simp
  then show thesis
    using that [where h = "re_heap s" and F = "re_blocks s"] timer_remove_none [OF f(1) n] False t f(1) by simp
qed

text \<open>\<open>unpark\<close>: off both wait sources and onto the back of the ready queue.\<close>

lemma unpark_spec:
  assumes ok: "reactor_ok (regs (w_sys w)) Q L s" and ep: "re_epfd s = epfd"
    and f: "re_blocks s f = Some c" "ef_state c = FB_PARKED"
  obtains s' w' where "unpark e s f x w = Some (s', w')" "reactor_ok (regs (w_sys w')) (Q @ [f]) L s'"
    "woken f x s s'" "calm regs w w'"
proof -
  note K = reactor_okD [OF ok]
  let ?F = "re_blocks s" and ?V = "v_fd (re_blocks s)" and ?r = "ef_reg_fd c"
  let ?T = "if ?r = - 1 then re_fd_owner s else (re_fd_owner s)[nat ?r := 0]"
  have V: "?V f = Some (FB_PARKED, ef_park c, ?r, ef_wait_fd c)" using v_fd_at [of ?F f c] f by simp
  have f0: "f \<noteq> 0" using K(3) f(1) by (auto simp: states_ok_def)
  note D = d_okD [OF K(5) V]
  let ?s1 = "s\<lparr>re_blocks := ?F(f \<mapsto> c\<lparr>ef_reg_fd := - 1\<rparr>), re_fd_owner := ?T\<rparr>"
  obtain w' where d: "detach_fd e s f w = Some (?s1, w')" "calm regs w w'"
    "regs (w_sys w') \<subseteq> (if ?r = - 1 then regs (w_sys w) else {x \<in> regs (w_sys w). fst x \<noteq> ?r})"
    by (rule detach_spec [OF f(1) ep]) (use D(1) in auto)
  have "t_ok ?s1 = t_ok s" by (rule t_ok_cong) (use f(1) in \<open>auto simp: vw_def\<close>)
  then have t1: "t_ok ?s1" using K(4) by simp
  have c1: "re_blocks ?s1 f = Some (c\<lparr>ef_reg_fd := - 1\<rparr>)" "ef_state (c\<lparr>ef_reg_fd := - 1\<rparr>) \<noteq> FB_FREE" using f(2) by simp_all
  obtain h F where m: "timer_remove ?s1 f = Some (?s1\<lparr>re_heap := h, re_blocks := F\<rparr>)"
    "t_ok (?s1\<lparr>re_heap := h, re_blocks := F\<rparr>)" "set h = set (re_heap ?s1) - {f}"
    "retimed (insert f (set (re_heap ?s1))) (re_blocks ?s1) F" "F f = Some (c\<lparr>ef_reg_fd := - 1, ef_timer_i := NO_TIMER\<rparr>)"
    by (rule timer_remove_live [OF t1 c1])
  let ?s2 = "?s1\<lparr>re_heap := h, re_blocks := F\<rparr>"
  note W = retimed_views [OF m(4)]
  have st: "v_state F = v_state ?F" using W(3) f by (simp add: vw_def)
  have "d_ok (regs (w_sys w')) (re_self s) ?T (?V(f \<mapsto> (FB_READY, ef_park c, - 1, ef_wait_fd c)))"
    by (rule d_ok_detach [OF K(5) V _ f0 _ _ d(3)]) (auto simp: fd_fiber_ok_def)
  moreover have "(v_fd F)(f \<mapsto> (FB_READY, ef_park c, - 1, ef_wait_fd c)) = ?V(f \<mapsto> (FB_READY, ef_park c, - 1, ef_wait_fd c))"
    using W(4) by simp
  ultimately have dd: "d_ok (regs (w_sys w')) (re_self ?s2) (re_fd_owner ?s2)
    ((v_fd (re_blocks ?s2))(f \<mapsto> (FB_READY, ef_park (c\<lparr>ef_reg_fd := - 1, ef_timer_i := NO_TIMER\<rparr>),
      ef_reg_fd (c\<lparr>ef_reg_fd := - 1, ef_timer_i := NO_TIMER\<rparr>), ef_wait_fd (c\<lparr>ef_reg_fd := - 1, ef_timer_i := NO_TIMER\<rparr>))))" by simp
  have q2: "fifo (v_next (re_blocks ?s2)) (re_ready_head ?s2) (re_ready_tail ?s2) Q" using K(1) W(1) f(1) by (simp add: vw_def)
  have l2: "dll (v_links (re_blocks ?s2)) (re_live_head ?s2) L" using K(2) W(2) f(1) by (simp add: vw_def)
  have "states_ok ?s2 Q L = states_ok s Q L" by (rule states_ok_cong) (use st in simp_all)
  then have s2: "states_ok ?s2 Q L" using K(3) by simp
  have c2: "re_blocks ?s2 f = Some (c\<lparr>ef_reg_fd := - 1, ef_timer_i := NO_TIMER\<rparr>)"
    "ef_state (c\<lparr>ef_reg_fd := - 1, ef_timer_i := NO_TIMER\<rparr>) = FB_PARKED" "f \<notin> set (re_heap ?s2)" using m(3,5) f(2) by simp_all
  obtain s' where r: "resume ?s2 f x = Some s'" "reactor_ok (regs (w_sys w')) (Q @ [f]) L s'" "woken f x ?s2 s'"
    by (rule resume_spec [OF q2 l2 s2 m(2) c2 dd])
  have "woken f x s s'"
    using r(3) W(3,5,6,7,8) st m(3) f(1) by (simp add: woken_def kept_def vw_def)
  moreover have "unpark e s f x w = Some (s', w')" using d(1) m(1) r(1) by (simp add: unpark_def)
  ultimately show thesis using that r(2) d(2) by blast
qed

text \<open>A parked fiber reported ready: off the timer heap, its disarmed registration kept.\<close>

lemma event_spec:
  assumes ok: "reactor_ok A Q L s" and f: "re_blocks s f = Some c" "ef_state c = FB_PARKED"
    and dis: "\<And>fd. (fd, f, True) \<notin> A"
  obtains s1 s' where "timer_remove s f = Some s1" "resume s1 f x = Some s'" "reactor_ok A (Q @ [f]) L s'" "woken f x s s'"
proof -
  note K = reactor_okD [OF ok]
  let ?F = "re_blocks s" and ?V = "v_fd (re_blocks s)"
  have V: "?V f = Some (FB_PARKED, ef_park c, ef_reg_fd c, ef_wait_fd c)" using v_fd_at [of ?F f c] f by simp
  have live: "ef_state c \<noteq> FB_FREE" using f(2) by simp
  obtain h F where m: "timer_remove s f = Some (s\<lparr>re_heap := h, re_blocks := F\<rparr>)"
    "t_ok (s\<lparr>re_heap := h, re_blocks := F\<rparr>)" "set h = set (re_heap s) - {f}"
    "retimed (insert f (set (re_heap s))) (re_blocks s) F" "F f = Some (c\<lparr>ef_timer_i := NO_TIMER\<rparr>)"
    by (rule timer_remove_live [OF K(4) f(1) live])
  let ?s2 = "s\<lparr>re_heap := h, re_blocks := F\<rparr>"
  note W = retimed_views [OF m(4)]
  have "fd_fiber_ok (re_fd_owner s) f (FB_READY, ef_park c, ef_reg_fd c, ef_wait_fd c)"
    using d_okD(1) [OF K(5) V] by (simp add: fd_fiber_ok_def)
  then have "d_ok A (re_self s) (re_fd_owner s) (?V(f \<mapsto> (FB_READY, ef_park c, ef_reg_fd c, ef_wait_fd c)))"
    by (intro d_ok_fiber [OF K(5) V]) (use dis in auto)
  then have dd: "d_ok A (re_self ?s2) (re_fd_owner ?s2) ((v_fd (re_blocks ?s2))(f \<mapsto>
      (FB_READY, ef_park (c\<lparr>ef_timer_i := NO_TIMER\<rparr>), ef_reg_fd (c\<lparr>ef_timer_i := NO_TIMER\<rparr>), ef_wait_fd (c\<lparr>ef_timer_i := NO_TIMER\<rparr>))))"
    using W(4) by simp
  have q2: "fifo (v_next (re_blocks ?s2)) (re_ready_head ?s2) (re_ready_tail ?s2) Q" using K(1) W(1) by simp
  have l2: "dll (v_links (re_blocks ?s2)) (re_live_head ?s2) L" using K(2) W(2) by simp
  have "states_ok ?s2 Q L = states_ok s Q L" by (rule states_ok_cong) (use W(3) in simp_all)
  then have s2: "states_ok ?s2 Q L" using K(3) by simp
  have c2: "re_blocks ?s2 f = Some (c\<lparr>ef_timer_i := NO_TIMER\<rparr>)" "ef_state (c\<lparr>ef_timer_i := NO_TIMER\<rparr>) = FB_PARKED"
    "f \<notin> set (re_heap ?s2)" using m(3,5) f(2) by simp_all
  obtain s' where r: "resume ?s2 f x = Some s'" "reactor_ok A (Q @ [f]) L s'" "woken f x ?s2 s'"
    by (rule resume_spec [OF q2 l2 s2 m(2) c2 dd])
  have "woken f x s s'" using r(3) W(3,5,6,7,8) m(3) by (simp add: woken_def kept_def)
  then show thesis using that m(1) r(1,2) by blast
qed

text \<open>A parked fiber timed out: off the timer heap first, then off its descriptor.\<close>

lemma timeout_spec:
  assumes ok: "reactor_ok (regs (w_sys w)) Q L s" and ep: "re_epfd s = epfd"
    and f: "re_blocks s f = Some c" "ef_state c = FB_PARKED"
  obtains s1 s2 s' w' where "timer_remove s f = Some s1" "detach_fd e s1 f w = Some (s2, w')" "resume s2 f x = Some s'"
    "reactor_ok (regs (w_sys w')) (Q @ [f]) L s'" "woken f x s s'" "calm regs w w'"
proof -
  note K = reactor_okD [OF ok]
  let ?F = "re_blocks s" and ?V = "v_fd (re_blocks s)" and ?r = "ef_reg_fd c"
  let ?T = "if ?r = - 1 then re_fd_owner s else (re_fd_owner s)[nat ?r := 0]"
  have V: "?V f = Some (FB_PARKED, ef_park c, ?r, ef_wait_fd c)" using v_fd_at [of ?F f c] f by simp
  have f0: "f \<noteq> 0" using K(3) f(1) by (auto simp: states_ok_def)
  have live: "ef_state c \<noteq> FB_FREE" using f(2) by simp
  note D = d_okD [OF K(5) V]
  obtain h F where m: "timer_remove s f = Some (s\<lparr>re_heap := h, re_blocks := F\<rparr>)"
    "t_ok (s\<lparr>re_heap := h, re_blocks := F\<rparr>)" "set h = set (re_heap s) - {f}"
    "retimed (insert f (set (re_heap s))) (re_blocks s) F" "F f = Some (c\<lparr>ef_timer_i := NO_TIMER\<rparr>)"
    by (rule timer_remove_live [OF K(4) f(1) live])
  let ?c1 = "c\<lparr>ef_timer_i := NO_TIMER\<rparr>"
  let ?s1 = "s\<lparr>re_heap := h, re_blocks := F\<rparr>"
  let ?s2 = "?s1\<lparr>re_blocks := F(f \<mapsto> ?c1\<lparr>ef_reg_fd := - 1\<rparr>), re_fd_owner := ?T\<rparr>"
  note W = retimed_views [OF m(4)]
  have b1: "re_blocks ?s1 f = Some ?c1" "re_epfd ?s1 = epfd" using m(5) ep by simp_all
  have o1: "ef_reg_fd ?c1 \<noteq> - 1 \<Longrightarrow> 0 \<le> ef_reg_fd ?c1 \<and> nat (ef_reg_fd ?c1) < length (re_fd_owner ?s1) \<and>
      re_fd_owner ?s1 ! nat (ef_reg_fd ?c1) = f" using D(1) by simp
  obtain w' where d0: "detach_fd e ?s1 f w = Some (?s1\<lparr>re_blocks := (re_blocks ?s1)(f \<mapsto> ?c1\<lparr>ef_reg_fd := - 1\<rparr>),
       re_fd_owner := (if ef_reg_fd ?c1 = - 1 then re_fd_owner ?s1 else (re_fd_owner ?s1)[nat (ef_reg_fd ?c1) := 0])\<rparr>, w')"
    "calm regs w w'"
    "regs (w_sys w') \<subseteq> (if ef_reg_fd ?c1 = - 1 then regs (w_sys w) else {x \<in> regs (w_sys w). fst x \<noteq> ef_reg_fd ?c1})"
    by (rule detach_spec [OF b1 o1])
  have d: "detach_fd e ?s1 f w = Some (?s2, w')" "calm regs w w'"
    "regs (w_sys w') \<subseteq> (if ?r = - 1 then regs (w_sys w) else {x \<in> regs (w_sys w). fst x \<noteq> ?r})"
    using d0 by (simp_all cong: if_cong)
  have "t_ok ?s2 = t_ok ?s1" by (rule t_ok_cong) (use m(5) in \<open>auto simp: vw_def\<close>)
  then have t2: "t_ok ?s2" using m(2) by simp
  have st: "v_state (re_blocks ?s2) = v_state ?F" using W(3) f m(5) by (simp add: vw_def)
  have "d_ok (regs (w_sys w')) (re_self s) ?T (?V(f \<mapsto> (FB_READY, ef_park c, - 1, ef_wait_fd c)))"
    by (rule d_ok_detach [OF K(5) V _ f0 _ _ d(3)]) (auto simp: fd_fiber_ok_def)
  then have dd: "d_ok (regs (w_sys w')) (re_self ?s2) (re_fd_owner ?s2) ((v_fd (re_blocks ?s2))(f \<mapsto>
      (FB_READY, ef_park (?c1\<lparr>ef_reg_fd := - 1\<rparr>), ef_reg_fd (?c1\<lparr>ef_reg_fd := - 1\<rparr>), ef_wait_fd (?c1\<lparr>ef_reg_fd := - 1\<rparr>))))"
    using W(4) by simp
  have q2: "fifo (v_next (re_blocks ?s2)) (re_ready_head ?s2) (re_ready_tail ?s2) Q" using K(1) W(1) f(1) m(5) by (simp add: vw_def)
  have l2: "dll (v_links (re_blocks ?s2)) (re_live_head ?s2) L" using K(2) W(2) f(1) m(5) by (simp add: vw_def)
  have "states_ok ?s2 Q L = states_ok s Q L" by (rule states_ok_cong) (use st in simp_all)
  then have s2: "states_ok ?s2 Q L" using K(3) by simp
  have c2: "re_blocks ?s2 f = Some (?c1\<lparr>ef_reg_fd := - 1\<rparr>)" "ef_state (?c1\<lparr>ef_reg_fd := - 1\<rparr>) = FB_PARKED"
    "f \<notin> set (re_heap ?s2)" using m(3) f(2) by simp_all
  obtain s' where r: "resume ?s2 f x = Some s'" "reactor_ok (regs (w_sys w')) (Q @ [f]) L s'" "woken f x ?s2 s'"
    by (rule resume_spec [OF q2 l2 s2 t2 c2 dd])
  have "woken f x s s'"
    using r(3) W(3,5,6,7,8) st m(3,5) f(1) by (simp add: woken_def kept_def vw_def)
  then show thesis using that m(1) d(1,2) r(1,2) by blast
qed

text \<open>A command: a stale one changes nothing, a cancel resumes a parked fiber, a wake resumes a fiber in
  an async park and leaves a permit with any other.\<close>

lemma apply_cmd_spec:
  assumes ok: "reactor_ok (regs (w_sys w)) Q L s" and ep: "re_epfd s = epfd"
    and c: "cmd_target c \<noteq> 0 \<Longrightarrow> re_blocks s (cmd_target c) \<noteq> None"
  obtains
    (stale) "apply_cmd e s c w = Some (s, w)"
      "cmd_target c = 0 \<or> (\<exists>b. re_blocks s (cmd_target c) = Some b \<and>
        (ef_generation b \<noteq> cmd_gen c \<or> ef_state b = FB_FREE \<or> ef_state b = FB_ZOMBIE))"
  | (unheard) b where "apply_cmd e s c w = Some (s, w)" "re_blocks s (cmd_target c) = Some b"
      "ef_generation b = cmd_gen c" "cmd_kind_of c = CMD_CANCEL" "ef_state b = FB_READY \<or> ef_state b = FB_RUNNING"
  | (resumed) b s' w' where "apply_cmd e s c w = Some (s', w')" "re_blocks s (cmd_target c) = Some b"
      "ef_generation b = cmd_gen c" "ef_state b = FB_PARKED" "cmd_kind_of c = CMD_CANCEL \<or> ef_park b = PARK_ASYNC"
      "reactor_ok (regs (w_sys w')) (Q @ [cmd_target c]) L s'" "calm regs w w'"
      "woken (cmd_target c) (if cmd_kind_of c = CMD_CANCEL then EV_CANCELLED else EV_READY) s s'"
  | (kept_wake) b where "apply_cmd e s c w = Some (permit (cmd_target c) s, w)" "re_blocks s (cmd_target c) = Some b"
      "ef_generation b = cmd_gen c" "cmd_kind_of c = CMD_WAKE"
      "ef_state b \<noteq> FB_FREE" "ef_state b \<noteq> FB_ZOMBIE" "ef_state b = FB_PARKED \<Longrightarrow> ef_park b \<noteq> PARK_ASYNC"
proof -
  let ?f = "cmd_target c"
  show thesis
  proof (cases "?f = 0")
    case True
    then show thesis using stale by (simp add: apply_cmd_def)
  next
    case False
    then obtain b where b: "re_blocks s ?f = Some b" using c by blast
    show thesis
    proof (cases "ef_generation b \<noteq> cmd_gen c \<or> ef_state b = FB_FREE \<or> ef_state b = FB_ZOMBIE")
      case True
      then show thesis using stale b False by (simp add: apply_cmd_def)
    next
      case cur: False
      show thesis
      proof (cases "ef_state b = FB_PARKED \<and> (cmd_kind_of c = CMD_CANCEL \<or> ef_park b = PARK_ASYNC)")
        case True
        then have p: "ef_state b = FB_PARKED" by simp
        obtain s' w' where u: "unpark e s ?f (if cmd_kind_of c = CMD_CANCEL then EV_CANCELLED else EV_READY) w = Some (s', w')"
          "reactor_ok (regs (w_sys w')) (Q @ [?f]) L s'"
          "woken ?f (if cmd_kind_of c = CMD_CANCEL then EV_CANCELLED else EV_READY) s s'" "calm regs w w'"
          by (rule unpark_spec [OF ok ep b p])
        have "apply_cmd e s c w = Some (s', w')"
          using u(1) True False b cur by (auto simp: apply_cmd_def split: if_splits)
        then show thesis using resumed b True cur u(2-4) by blast
      next
        case False
        show thesis
        proof (cases "cmd_kind_of c")
          case CMD_CANCEL
          then show thesis
            using unheard [of b] False cur b \<open>?f \<noteq> 0\<close> by (cases "ef_state b") (auto simp: apply_cmd_def)
        next
          case CMD_WAKE
          then show thesis
            using kept_wake [of b] False cur b \<open>?f \<noteq> 0\<close> by (auto simp: apply_cmd_def permit_def)
        qed
      qed
    qed
  qed
qed

end

end
