(* ===== verification/Reactor_Loop.thy ===== *)
theory Reactor_Loop
  imports Reactor_Inv
begin

text \<open>
  The wake-ups of one loop turn: timers, commands and events each resume parked fibers, in the order in
  which they are found, and change nothing else. \<open>woke\<close> is what such code may do to the reactor.
\<close>

section \<open>What waking may change\<close>

definition woke :: "('h, 'v) cfiber_reactor \<Rightarrow> ('h, 'v) cfiber_reactor \<Rightarrow> bool" where
  "woke s s' \<longleftrightarrow> kept s (s'\<lparr>re_cmds := re_cmds s\<rparr>) \<and>
     v_stack (re_blocks s') = v_stack (re_blocks s) \<and>
     vw ef_generation (re_blocks s') = vw ef_generation (re_blocks s) \<and>
     (\<forall>f. v_state (re_blocks s') f = v_state (re_blocks s) f \<or>
        (v_state (re_blocks s) f = Some FB_PARKED \<and> v_state (re_blocks s') f = Some FB_READY))"

lemma woke_refl [simp]: "woke s s"
  by (simp add: woke_def kept_def)

lemma woke_trans: "woke s s' \<Longrightarrow> woke s' s'' \<Longrightarrow> woke s s''"
  unfolding woke_def kept_def by (simp, metis fiber_state.distinct(3) fiber_state.distinct option.inject)

lemma woke_cmds [simp]: "woke s (s'\<lparr>re_cmds := r\<rparr>) = woke s s'" "woke (s\<lparr>re_cmds := r\<rparr>) s' = woke s s'"
  by (simp_all add: woke_def kept_def)

lemma reactor_ok_cmds [simp]: "reactor_ok A Q L (s\<lparr>re_cmds := r\<rparr>) = reactor_ok A Q L s"
  by (simp add: reactor_ok_def states_ok_def t_ok_def timers_ok_def)

lemma v_gen_generation: "v_gen F' = v_gen F \<Longrightarrow> vw ef_generation F' = vw ef_generation F"
  by (rule vw_cong [where k = fst and g = ef_generation], assumption) simp

lemma woken_woke:
  assumes "woken f x s s'" "re_blocks s f = Some c" "ef_state c = FB_PARKED"
  shows "woke s s'"
  using assms v_gen_generation [of "re_blocks s'" "re_blocks s"]
  by (auto simp: woken_def woke_def kept_def vw_Some)

lemma permit_woke: "re_blocks s f = Some c \<Longrightarrow> woke s (permit f s)"
  by (simp add: woke_def kept_def permit_def vw_def fun_eq_iff)

lemma woke_dom: "woke s s' \<Longrightarrow> dom (re_blocks s') = dom (re_blocks s)"
  unfolding woke_def using dom_view [of ef_stack "re_blocks s'" "re_blocks s"] by simp

section \<open>Timers\<close>

context reactor_env
begin

text \<open>The loop resumes, with a timeout, exactly the fibers whose deadline has come, earliest first.\<close>

lemma fire_loop_spec:
  assumes "reactor_ok (regs (w_sys w)) Q L s" "re_epfd s = epfd"
  shows "\<exists>Q' s' w'. fire_loop e now s w = Some (s', w') \<and> reactor_ok (regs (w_sys w')) (Q @ Q') L s' \<and>
    calm regs w w' \<and> woke s s' \<and> re_cmds s' = re_cmds s \<and>
    set Q' = {f \<in> set (re_heap s). dl (re_blocks s) f \<le> now} \<and>
    sorted (map (dl (re_blocks s)) Q') \<and>
    set (re_heap s') = {f \<in> set (re_heap s). now < dl (re_blocks s) f} \<and>
    (\<forall>f. vw ef_wait_status (re_blocks s') f = (if f \<in> set Q' then Some EV_TIMEOUT else vw ef_wait_status (re_blocks s) f)) \<and>
    vw ef_deadline_ns (re_blocks s') = vw ef_deadline_ns (re_blocks s)"
  using assms
proof (induction "card (set (re_heap s))" arbitrary: s w Q rule: less_induct)
  case less
  note K = reactor_okD [OF less.prems(1)]
  show ?case
  proof (cases "re_heap s")
    case Nil
    then have "fire_loop e now s w = Some (s, w)" by (subst fire_loop.simps) simp
    then show ?thesis using less.prems Nil by (intro exI [of _ "[]"] exI [of _ s] exI [of _ w]) auto
  next
    case (Cons f rest)
    then have fh: "f \<in> set (re_heap s)" by simp
    then obtain c where c: "re_blocks s f = Some c" "ef_state c = FB_PARKED"
      using K(4) unfolding t_ok_def by (meson in_st_iff subsetD)
    have d: "dl (re_blocks s) f = ef_deadline_ns c" using c(1) by (simp add: dl_def)
    have hp: "is_heap (dl (re_blocks s)) (re_heap s)" using K(4) by (simp add: t_ok_def timers_ok_def)
    have least: "dl (re_blocks s) f \<le> dl (re_blocks s) g" if "g \<in> set (re_heap s)" for g
      using heap_root [OF hp] that Cons by (metis in_set_conv_nth nth_Cons_0)
    show ?thesis
    proof (cases "ef_deadline_ns c \<le> now")
      case False
      then have "fire_loop e now s w = Some (s, w)" using Cons c(1) by (subst fire_loop.simps) simp
      moreover have "now < dl (re_blocks s) g" if "g \<in> set (re_heap s)" for g
        using least [OF that] False d by simp
      ultimately show ?thesis
        using less.prems by (intro exI [of _ "[]"] exI [of _ s] exI [of _ w]) (auto simp: not_le [symmetric])
    next
      case True
      obtain s1 s2 s3 w1 where r: "timer_remove s f = Some s1" "detach_fd e s1 f w = Some (s2, w1)"
        "resume s2 f EV_TIMEOUT = Some s3" "reactor_ok (regs (w_sys w1)) (Q @ [f]) L s3" "woken f EV_TIMEOUT s s3" "calm regs w w1"
        by (rule timeout_spec [OF less.prems c])
      have step: "fire_loop e now s w = fire_loop e now s3 w1"
        using Cons c(1) True r(1-3) by (subst fire_loop.simps) simp
      have h3: "set (re_heap s3) = set (re_heap s) - {f}" "re_epfd s3 = epfd" "re_cmds s3 = re_cmds s"
        using r(5) less.prems(2) by (simp_all add: woken_def kept_def)
      have dl3: "dl (re_blocks s3) g = dl (re_blocks s) g" for g
      proof -
        have "vw ef_deadline_ns (re_blocks s3) g = vw ef_deadline_ns (re_blocks s) g" using r(5) by (simp add: woken_def)
        then show ?thesis by (cases "re_blocks s g"; cases "re_blocks s3 g") (simp_all add: vw_def dl_def)
      qed
      have "card (set (re_heap s3)) < card (set (re_heap s))"
        unfolding h3 by (rule psubset_card_mono) (use fh in auto)
      from less.hyps [OF this r(4) h3(2)] obtain Q' s' w' where I: "fire_loop e now s3 w1 = Some (s', w')"
        "reactor_ok (regs (w_sys w')) ((Q @ [f]) @ Q') L s'" "calm regs w1 w'" "woke s3 s'" "re_cmds s' = re_cmds s3"
        "set Q' = {g \<in> set (re_heap s3). dl (re_blocks s3) g \<le> now}" "sorted (map (dl (re_blocks s3)) Q')"
        "set (re_heap s') = {g \<in> set (re_heap s3). now < dl (re_blocks s3) g}"
        "\<forall>g. vw ef_wait_status (re_blocks s') g = (if g \<in> set Q' then Some EV_TIMEOUT else vw ef_wait_status (re_blocks s3) g)"
        "vw ef_deadline_ns (re_blocks s') = vw ef_deadline_ns (re_blocks s3)"
        by blast
      have st: "vw ef_wait_status (re_blocks s3) = (vw ef_wait_status (re_blocks s))(f \<mapsto> EV_TIMEOUT)"
        "vw ef_deadline_ns (re_blocks s3) = vw ef_deadline_ns (re_blocks s)" using r(5) by (simp_all add: woken_def)
      show ?thesis
      proof (intro exI [of _ "f # Q'"] exI [of _ s'] exI [of _ w'] conjI)
        show "fire_loop e now s w = Some (s', w')" using step I(1) by simp
        show "reactor_ok (regs (w_sys w')) (Q @ f # Q') L s'" using I(2) by simp
        show "calm regs w w'" by (rule calm_trans [OF r(6) I(3)])
        show "woke s s'" by (rule woke_trans [OF woken_woke [OF r(5) c] I(4)])
        show "set (f # Q') = {g \<in> set (re_heap s). dl (re_blocks s) g \<le> now}" using I(6) h3 dl3 fh True d by auto
        show "sorted (map (dl (re_blocks s)) (f # Q'))" using I(6,7) h3(1) dl3 least by (auto cong: map_cong)
        show "set (re_heap s') = {g \<in> set (re_heap s). now < dl (re_blocks s) g}" using I(8) h3(1) dl3 d True by auto
        show "\<forall>g. vw ef_wait_status (re_blocks s') g =
            (if g \<in> set (f # Q') then Some EV_TIMEOUT else vw ef_wait_status (re_blocks s) g)" using I(9) st(1) by auto
      qed (use I(5,10) st(2) h3(3) in simp_all)
    qed
  qed
qed

end

section \<open>Commands\<close>

definition cmd_ok :: "('h, 'v) cfiber_reactor \<Rightarrow> cmd \<Rightarrow> bool" where
  "cmd_ok s c \<longleftrightarrow> cmd_target c = 0 \<or> re_blocks s (cmd_target c) \<noteq> None"

text \<open>\<open>n\<close> commands were ever posted, of which \<open>q\<close> wait to be applied.\<close>

definition cmds_ok :: "('h, 'v) cfiber_reactor \<Rightarrow> nat \<Rightarrow> cmd list \<Rightarrow> bool" where
  "cmds_ok s n q \<longleftrightarrow> ring_queue (re_cmds s) n q \<and> length (cells (re_cmds s)) = 1024 \<and> (\<forall>c \<in> set q. cmd_ok s c)"

lemma cmd_ok_dom: "dom (re_blocks s) \<subseteq> dom (re_blocks s') \<Longrightarrow> cmd_ok s c \<Longrightarrow> cmd_ok s' c"
  unfolding cmd_ok_def by blast

lemma cmds_ok_frame: "cmds_ok s n q \<Longrightarrow> re_cmds s' = re_cmds s \<Longrightarrow> dom (re_blocks s) \<subseteq> dom (re_blocks s') \<Longrightarrow> cmds_ok s' n q"
  unfolding cmds_ok_def using cmd_ok_dom [of s s'] by metis

context reactor_env
begin

lemma apply_cmd_woke:
  assumes ok: "reactor_ok (regs (w_sys w)) Q L s" and ep: "re_epfd s = epfd" and c: "cmd_ok s c"
  obtains Q' s' w' where "apply_cmd e s c w = Some (s', w')" "reactor_ok (regs (w_sys w')) (Q @ Q') L s'"
    "calm regs w w'" "woke s s'" "re_cmds s' = re_cmds s"
proof -
  have t: "cmd_target c \<noteq> 0 \<Longrightarrow> re_blocks s (cmd_target c) \<noteq> None" using c by (simp add: cmd_ok_def)
  show thesis
  proof (rule apply_cmd_spec [OF ok ep t])
    assume "apply_cmd e s c w = Some (s, w)"
    then show thesis using that [of s w "[]"] ok by simp
  next
    fix b assume "apply_cmd e s c w = Some (s, w)"
    then show thesis using that [of s w "[]"] ok by simp
  next
    fix b s' w' assume r: "apply_cmd e s c w = Some (s', w')" "re_blocks s (cmd_target c) = Some b" "ef_state b = FB_PARKED"
      "reactor_ok (regs (w_sys w')) (Q @ [cmd_target c]) L s'" "calm regs w w'"
      "woken (cmd_target c) (if cmd_kind_of c = CMD_CANCEL then EV_CANCELLED else EV_READY) s s'"
    have "re_cmds s' = re_cmds s" using r(6) by (simp add: woken_def kept_def)
    then show thesis using that r woken_woke [OF r(6,2,3)] by blast
  next
    fix b assume r: "apply_cmd e s c w = Some (permit (cmd_target c) s, w)" "re_blocks s (cmd_target c) = Some b"
    show thesis
      using that [of "permit (cmd_target c) s" w "[]"] r(1) permit_ok [OF ok r(2)] permit_woke [OF r(2)]
      by (simp add: permit_def)
  qed
qed

lemma drain_ring_spec:
  assumes "reactor_ok (regs (w_sys w)) Q L s" "re_epfd s = epfd" "cmds_ok s n q"
  shows "\<exists>Q' s' w'. drain_ring e s w = Some (s', w') \<and> reactor_ok (regs (w_sys w')) (Q @ Q') L s' \<and>
    calm regs w w' \<and> woke s s' \<and> cmds_ok s' n []"
  using assms
proof (induction q arbitrary: s w Q)
  case Nil
  then have "ring_queue (re_cmds s) n []" by (simp add: cmds_ok_def)
  then have "ring_dequeue (re_cmds s) = Some (None, re_cmds s)" by (rule queue_deq_none)
  then have "drain_ring e s w = Some (s, w)" by (subst drain_ring.simps) simp
  then show ?case using Nil by (intro exI [of _ "[]"] exI [of _ s] exI [of _ w]) simp
next
  case (Cons c q)
  have "ring_queue (re_cmds s) n (c # q)" using Cons.prems(3) by (simp add: cmds_ok_def)
  then obtain r where r: "ring_dequeue (re_cmds s) = Some (Some c, r)" "ring_queue r n q"
    "length (cells r) = length (cells (re_cmds s))" by (rule queue_deq)
  let ?s = "s\<lparr>re_cmds := r\<rparr>"
  have p: "reactor_ok (regs (w_sys w)) Q L ?s" "re_epfd ?s = epfd" "cmd_ok ?s c"
    using Cons.prems by (simp_all add: cmds_ok_def cmd_ok_def)
  obtain Q1 s1 w1 where a: "apply_cmd e ?s c w = Some (s1, w1)" "reactor_ok (regs (w_sys w1)) (Q @ Q1) L s1"
    "calm regs w w1" "woke ?s s1" "re_cmds s1 = re_cmds ?s" by (rule apply_cmd_woke [OF p])
  have "cmds_ok ?s n q" using Cons.prems(3) r(2,3) by (simp add: cmds_ok_def cmd_ok_def)
  then have k: "cmds_ok s1 n q" by (rule cmds_ok_frame) (use a(5) woke_dom [OF a(4)] in simp_all)
  have "re_epfd s1 = epfd" using a(4) p(2) by (simp add: woke_def kept_def)
  from Cons.IH [OF a(2) this k] obtain Q' s' w' where i: "drain_ring e s1 w1 = Some (s', w')"
    "reactor_ok (regs (w_sys w')) ((Q @ Q1) @ Q') L s'" "calm regs w1 w'" "woke s1 s'" "cmds_ok s' n []" by blast
  have "drain_ring e s w = Some (s', w')" using r(1) a(1) i(1) by (subst drain_ring.simps) simp
  moreover have "woke s s'" using woke_trans [OF a(4) i(4)] by simp
  ultimately show ?case
    using i(2,5) calm_trans [OF a(3) i(3)] by (intro exI [of _ "Q1 @ Q'"] exI [of _ s'] exI [of _ w']) simp
qed

lemma read_calm:
  assumes "sys_read (e_sys e) fd n (w_sys w) = (x, k)" "libc_ret r (w\<lparr>w_sys := k\<rparr>) = (r', w')"
  shows "calm regs w w'" "w_sys w' = k"
  using calm_libc_ret [OF assms(2)] k.read_regs [OF assms(1)] by (auto simp: calm_def)

text \<open>A second read of a drained eventfd fails, so the loop reads at most twice.\<close>

lemma drain_counter_spec:
  obtains w' where "drain_counter e evfd w = Some w'" "calm regs w w'"
proof -
  obtain n bs k where r: "sys_read (e_sys e) evfd 8 (w_sys w) = ((n, bs), k)" by (metis surj_pair)
  obtain n' w1 where l: "libc_ret n (w\<lparr>w_sys := k\<rparr>) = (n', w1)" by fastforce
  note c1 = read_calm [OF r l]
  show thesis
  proof (cases "n' = 8")
    case False
    then have "drain_counter e evfd w = Some w1" using r l by (subst drain_counter.simps) simp
    then show thesis using that c1(1) by blast
  next
    case True
    then have "n = 8" using l by (auto simp: libc_ret_def split: if_splits)
    obtain m bs' k' where r': "sys_read (e_sys e) evfd 8 (w_sys w1) = ((m, bs'), k')" by (metis surj_pair)
    obtain m' w2 where l': "libc_ret m (w1\<lparr>w_sys := k'\<rparr>) = (m', w2)" by fastforce
    have "m \<noteq> 8" using k.read_clears [of "w_sys w" bs k] r r' \<open>n = 8\<close> c1(2) by simp
    then have "m' \<noteq> 8" using l' by (auto simp: libc_ret_def split: if_splits)
    then have "drain_counter e evfd w1 = Some w2" using r' l' by (subst drain_counter.simps) simp
    moreover have "drain_counter e evfd w = drain_counter e evfd w1" using r l True by (subst drain_counter.simps) simp
    ultimately show thesis using that calm_trans [OF c1(1) read_calm(1) [OF r' l']] by metis
  qed
qed

lemma deliver_spec:
  assumes "reactor_ok (regs (w_sys w)) Q L s" "re_epfd s = epfd" "re_evfd s = evfd" "cmds_ok s n q"
    and "\<And>p. p \<in> snd ` set evs \<Longrightarrow> p = re_self s \<or> (re_blocks s p \<noteq> None \<and> (\<forall>fd. (fd, p, True) \<notin> regs (w_sys w)))"
  shows "\<exists>Q' q' s' w'. deliver_events e evs s w = Some (s', w') \<and> reactor_ok (regs (w_sys w')) (Q @ Q') L s' \<and>
    calm regs w w' \<and> woke s s' \<and> cmds_ok s' n q'"
  using assms
proof (induction evs arbitrary: s w Q q)
  case Nil
  then show ?case by (intro exI [of _ "[]"] exI [of _ q] exI [of _ s] exI [of _ w]) simp
next
  case (Cons x evs)
  obtain ev p where x: "x = (ev, p)" by (cases x)
  have go: ?case if r: "reactor_ok (regs (w_sys w1)) (Q @ Q1) L s1" "calm regs w w1" "woke s s1" "cmds_ok s1 n q1"
    "deliver_events e (x # evs) s w = deliver_events e evs s1 w1" for s1 w1 Q1 q1
  proof -
    have k: "re_epfd s1 = epfd" "re_evfd s1 = evfd" "re_self s1 = re_self s"
      using r(3) Cons.prems(2,3) by (simp_all add: woke_def kept_def)
    have ev: "p = re_self s1 \<or> (re_blocks s1 p \<noteq> None \<and> (\<forall>fd. (fd, p, True) \<notin> regs (w_sys w1)))" if "p \<in> snd ` set evs" for p
      using Cons.prems(5) [of p] that k(3) r(2) woke_dom [OF r(3)] unfolding calm_def by (auto simp: dom_def)
    from Cons.IH [OF r(1) k(1,2) r(4) ev] obtain Q' q' s' w' where i: "deliver_events e evs s1 w1 = Some (s', w')"
      "reactor_ok (regs (w_sys w')) ((Q @ Q1) @ Q') L s'" "calm regs w1 w'" "woke s1 s'" "cmds_ok s' n q'" by blast
    show ?thesis
      using i(1,2,5) r(5) calm_trans [OF r(2) i(3)] woke_trans [OF r(3) i(4)]
      by (intro exI [of _ "Q1 @ Q'"] exI [of _ q'] exI [of _ s'] exI [of _ w']) simp
  qed
  show ?case
  proof (cases "p = re_self s")
    case True
    obtain w0 where w0: "drain_counter e evfd w = Some w0" "calm regs w w0" by (rule drain_counter_spec)
    have "reactor_ok (regs (w_sys w0)) Q L s" using reactor_ok_mono [OF Cons.prems(1)] w0(2) by (simp add: calm_def)
    from drain_ring_spec [OF this Cons.prems(2,4)] obtain Q1 s1 w1 where d: "drain_ring e s w0 = Some (s1, w1)"
      "reactor_ok (regs (w_sys w1)) (Q @ Q1) L s1" "calm regs w0 w1" "woke s s1" "cmds_ok s1 n []" by blast
    show ?thesis
      by (rule go [OF d(2) calm_trans [OF w0(2) d(3)] d(4,5)])
        (use True x w0(1) d(1) Cons.prems(3) in \<open>simp add: drain_cmds_def\<close>)
  next
    case False
    then have p: "re_blocks s p \<noteq> None" "\<And>fd. (fd, p, True) \<notin> regs (w_sys w)" using Cons.prems(5) [of p] x by auto
    then obtain c where c: "re_blocks s p = Some c" by auto
    show ?thesis
    proof (cases "ef_state c = FB_PARKED")
      case True
      obtain s1 s2 where d: "timer_remove s p = Some s1" "resume s1 p EV_READY = Some s2"
        "reactor_ok (regs (w_sys w)) (Q @ [p]) L s2" "woken p EV_READY s s2"
        by (rule event_spec [OF Cons.prems(1) c True p(2)])
      have wk: "woke s s2" by (rule woken_woke [OF d(4) c True])
      have ck: "cmds_ok s2 n q"
        by (rule cmds_ok_frame [OF Cons.prems(4)]) (use d(4) woke_dom [OF wk] in \<open>simp_all add: woken_def kept_def\<close>)
      show ?thesis
        by (rule go [OF d(3) calm_refl wk ck]) (use x False c True d(1,2) in simp)
    next
      case np: False
      show ?thesis
        by (rule go [of w "[]" s q]) (use Cons.prems(1,4) x False c np in simp_all)
    qed
  qed
qed

end

end
