(* ===== verification/Reactor_Fd.thy ===== *)
theory Reactor_Fd
  imports Reactor_Loop
begin

text \<open>
  Arming a descriptor for the running fiber (\<open>arm_fd\<close>), its timer, and its parking: the parts of the
  waiting calls up to the switch, against the invariant of theory \<open>Reactor_Inv\<close>.
\<close>

section \<open>Growing a table\<close>

text \<open>Doubling reaches any need up to \<open>2^63\<close>, in at most 63 steps, and overshoots by less than one.\<close>

lemma grow_cap_spec:
  assumes "0 < unat cap" "unat need \<le> 2 ^ 63"
  obtains c where "grow_cap need cap = Some c" "unat need \<le> unat c" "unat c \<le> max (unat cap) (2 * unat need)"
proof -
  have "\<exists>c. grow_cap need cap = Some c \<and> unat need \<le> unat c \<and> unat c \<le> max (unat cap) (2 * unat need)"
    using assms(1)
  proof (induction "unat need - unat cap" arbitrary: cap rule: less_induct)
    case less
    show ?case
    proof (cases "need \<le> cap")
      case True
      then show ?thesis by (simp add: grow_cap_enough word_le_nat_alt)
    next
      case False
      then have lt: "unat cap < unat need" by (simp add: word_le_nat_alt)
      have u: "unat (cap * 2) = unat cap * 2" using lt assms(2) by (subst unat_mult_no_wrap) simp_all
      have "grow_cap need cap = grow_cap need (cap * 2)" using False by (subst grow_cap.simps) (simp add: not_le)
      moreover have "unat need - unat (cap * 2) < unat need - unat cap" "0 < unat (cap * 2)"
        using lt less.prems u by linarith+
      ultimately show ?thesis using less.hyps [of "cap * 2"] u lt by fastforce
    qed
  qed
  then show thesis using that by blast
qed

text \<open>The world but for the kernel and \<open>errno\<close>.\<close>

definition quiet :: "('h, 'v, 'k) world \<Rightarrow> ('h, 'v, 'k) world \<Rightarrow> bool" where
  "quiet w w' \<longleftrightarrow> w_heap w' = w_heap w \<and> w_vm w' = w_vm w \<and> w_bytes w' = w_bytes w"

lemma quiet_refl [simp]: "quiet w w" by (simp add: quiet_def)

lemma quiet_trans: "quiet w w' \<Longrightarrow> quiet w' w'' \<Longrightarrow> quiet w w''" by (simp add: quiet_def)

lemma calm_quiet: "calm rg w w' \<Longrightarrow> quiet w w'" by (simp add: calm_def quiet_def)

lemma calm_sys: "quiet w w' \<Longrightarrow> rg (w_sys w') \<subseteq> rg (w_sys w) \<Longrightarrow> calm rg w w'" by (simp add: calm_def quiet_def)

text \<open>Only registrations, the table and its memory changed.\<close>

definition no_fd :: "ev_fiber \<Rightarrow> ev_fiber" where
  "no_fd c = c\<lparr>ef_reg_fd := 0\<rparr>"

definition refd :: "('h, 'v) cfiber_reactor \<Rightarrow> ('h, 'v) cfiber_reactor \<Rightarrow> bool" where
  "refd s s' \<longleftrightarrow> vw no_fd (re_blocks s') = vw no_fd (re_blocks s) \<and>
     s' = s\<lparr>re_blocks := re_blocks s', re_fd_owner := re_fd_owner s', re_owner_mem := re_owner_mem s'\<rparr>"

lemma refd_refl [simp]: "refd s s" by (simp add: refd_def)

lemma refd_trans:
  assumes "refd s s'" "refd s' s''"
  shows "refd s s''"
proof -
  have "s'' = s'\<lparr>re_blocks := re_blocks s'', re_fd_owner := re_fd_owner s'', re_owner_mem := re_owner_mem s''\<rparr>"
    using assms(2) unfolding refd_def by blast
  also have "\<dots> = s\<lparr>re_blocks := re_blocks s'', re_fd_owner := re_fd_owner s'', re_owner_mem := re_owner_mem s''\<rparr>"
    using assms(1) unfolding refd_def by (cases s; cases s') simp
  finally show ?thesis using assms unfolding refd_def by metis
qed

lemma refd_upd: "re_blocks s f = Some c \<Longrightarrow>
    refd s (s\<lparr>re_blocks := (re_blocks s)(f \<mapsto> c\<lparr>ef_reg_fd := r\<rparr>), re_fd_owner := W\<rparr>)"
  by (auto simp: refd_def vw_def no_fd_def)

lemma refd_table: "refd s (s\<lparr>re_owner_mem := m, re_fd_owner := W\<rparr>)"
  by (simp add: refd_def)

lemma refd_view:
  assumes "refd s s'" "\<And>c. g c = k (no_fd c)"
  shows "vw g (re_blocks s') = vw g (re_blocks s)"
  by (rule vw_cong [where h = no_fd and k = k]) (use assms in \<open>simp_all add: refd_def\<close>)

lemma refd_views:
  assumes "refd s s'"
  shows "v_next (re_blocks s') = v_next (re_blocks s)" "v_links (re_blocks s') = v_links (re_blocks s)"
    "v_state (re_blocks s') = v_state (re_blocks s)" "v_stack (re_blocks s') = v_stack (re_blocks s)"
    "v_time (re_blocks s') = v_time (re_blocks s)" "v_gen (re_blocks s') = v_gen (re_blocks s)"
    "vw ef_wait_fd (re_blocks s') = vw ef_wait_fd (re_blocks s)"
  by (rule refd_view [OF assms, where k = ef_next], simp add: no_fd_def)
    (rule refd_view [OF assms, where k = "\<lambda>c. (ef_live_next c, ef_live_prev c)"], simp add: no_fd_def,
     rule refd_view [OF assms, where k = ef_state], simp add: no_fd_def,
     rule refd_view [OF assms, where k = ef_stack], simp add: no_fd_def,
     rule refd_view [OF assms, where k = "\<lambda>c. (ef_timer_i c, ef_deadline_ns c)"], simp add: no_fd_def,
     rule refd_view [OF assms, where k = "\<lambda>c. (ef_generation c, ef_wake_pending c)"], simp add: no_fd_def,
     rule refd_view [OF assms, where k = ef_wait_fd], simp add: no_fd_def)

lemma refd_fields:
  assumes "refd s s'"
  shows "re_ready_head s' = re_ready_head s" "re_ready_tail s' = re_ready_tail s" "re_live_head s' = re_live_head s"
    "re_current s' = re_current s" "re_zombie s' = re_zombie s" "re_blocked s' = re_blocked s" "re_active s' = re_active s"
    "re_heap s' = re_heap s" "re_heap_cap s' = re_heap_cap s" "re_self s' = re_self s" "re_epfd s' = re_epfd s"
    "re_evfd s' = re_evfd s" "re_cmds s' = re_cmds s" "re_fibers s' = re_fibers s" "re_stacks s' = re_stacks s"
proof -
  from assms obtain F W m where "s' = s\<lparr>re_blocks := F, re_fd_owner := W, re_owner_mem := m\<rparr>" unfolding refd_def by blast
  then show "re_ready_head s' = re_ready_head s" "re_ready_tail s' = re_ready_tail s" "re_live_head s' = re_live_head s"
    "re_current s' = re_current s" "re_zombie s' = re_zombie s" "re_blocked s' = re_blocked s" "re_active s' = re_active s"
    "re_heap s' = re_heap s" "re_heap_cap s' = re_heap_cap s" "re_self s' = re_self s" "re_epfd s' = re_epfd s"
    "re_evfd s' = re_evfd s" "re_cmds s' = re_cmds s" "re_fibers s' = re_fibers s" "re_stacks s' = re_stacks s"
    by simp_all
qed

text \<open>The invariant but for the descriptors.\<close>

definition undesc_ok :: "u64 list \<Rightarrow> u64 list \<Rightarrow> ('h, 'v) cfiber_reactor \<Rightarrow> bool" where
  "undesc_ok Q L s \<longleftrightarrow> fifo (v_next (re_blocks s)) (re_ready_head s) (re_ready_tail s) Q \<and>
     dll (v_links (re_blocks s)) (re_live_head s) L \<and> states_ok s Q L \<and> t_ok s"

lemma reactor_ok_split:
  "reactor_ok A Q L s \<longleftrightarrow> undesc_ok Q L s \<and> d_ok A (re_self s) (re_fd_owner s) (v_fd (re_blocks s))"
  by (auto simp: reactor_ok_def undesc_ok_def)

lemma refd_undesc:
  assumes "refd s s'"
  shows "undesc_ok Q L s' = undesc_ok Q L s"
proof -
  note V = refd_views [OF assms] and K = refd_fields [OF assms]
  have "states_ok s' Q L = states_ok s Q L" by (rule states_ok_cong) (simp_all add: V K)
  moreover have "t_ok s' = t_ok s" by (rule t_ok_cong) (simp_all add: V K)
  ultimately show ?thesis by (simp add: undesc_ok_def V K)
qed

section \<open>The descriptor table\<close>

lemma d_ok_grow:
  assumes "d_ok A self W V" "length W + n < 2 ^ 60"
  shows "d_ok A self (W @ replicate n 0) V"
  unfolding d_ok_def
proof (intro conjI allI impI)
  fix f x assume "V f = Some x" "fst x \<noteq> FB_FREE"
  then have "fd_fiber_ok W f x" by (rule d_ok_each [OF assms(1)])
  then show "fd_fiber_ok (W @ replicate n 0) f x" by (auto simp: fd_fiber_ok_def nth_append)
next
  fix i assume "i < length (W @ replicate n 0)" "(W @ replicate n 0) ! i \<noteq> 0"
  then have "i < length W" "(W @ replicate n 0) ! i = W ! i" by (auto simp: nth_append split: if_splits)
  then show "\<exists>st pk wt. V ((W @ replicate n 0) ! i) = Some (st, pk, int i, wt) \<and> st \<noteq> FB_FREE"
    using assms(1) \<open>(W @ replicate n 0) ! i \<noteq> 0\<close> by (simp add: d_ok_def)
qed (use assms in \<open>simp_all add: d_ok_def\<close>)
lemma oneshot_set: "oneshot (ev OR EPOLLONESHOT)"
proof -
  have "(ev OR m) AND m = m" for m :: u32 by (rule bit_word_eqI) (auto simp: bit_and_iff bit_or_iff)
  moreover have "EPOLLONESHOT \<noteq> 0" by (simp add: EPOLLONESHOT_def)
  ultimately show ?thesis unfolding oneshot_def by (simp only: not_False_eq_True)
qed

context reactor_env
begin

lemma fd_owner_reserve_spec:
  assumes fd: "0 \<le> fd" "fd < 2 ^ 31" and len: "length (re_fd_owner s) < 2 ^ 60"
  obtains
    (none) w' where "fd_owner_reserve e s fd w = Some (False, s, w')" "calm regs w w'"
  | (room) m n w' where
      "fd_owner_reserve e s fd w = Some (True, s\<lparr>re_owner_mem := m, re_fd_owner := re_fd_owner s @ replicate n 0\<rparr>, w')"
      "calm regs w w'" "nat fd < length (re_fd_owner s) + n" "length (re_fd_owner s) + n < 2 ^ 60"
proof -
  let ?W = "re_fd_owner s" and ?need = "word_of_int fd + 1 :: u64"
  have "word_of_int (int (nat fd)) = (of_nat (nat fd) :: u64)" by simp
  then have "word_of_int fd = (of_nat (nat fd) :: u64)" by (simp only: nat_0_le [OF fd(1)])
  moreover have "unat (of_nat (nat fd) :: u64) = nat fd" using fd by (intro unat_of_nat_small) simp
  ultimately have n: "unat ?need = nat fd + 1" using fd by (subst unat_add_no_wrap) simp_all
  have o: "unat (of_nat (length ?W) :: u64) = length ?W" using len by (intro unat_of_nat_small) simp
  show thesis
  proof (cases "?need \<le> of_nat (length ?W)")
    case True
    then have "fd_owner_reserve e s fd w = Some (True, s, w)" by (simp add: fd_owner_reserve_def Let_def)
    then show thesis using room [where m = "re_owner_mem s" and n = 0 and w' = w] True n o len by (simp add: word_le_nat_alt)
  next
    case False
    then have lt: "length ?W < nat fd + 1" using n o by (simp add: word_le_nat_alt)
    let ?start = "if of_nat (length ?W) \<noteq> (0 :: u64) then of_nat (length ?W) else FD_OWNER_INIT_CAP"
    have st: "0 < unat ?start" "unat ?start \<le> 2 ^ 31"
      using o lt fd by (auto simp: FD_OWNER_INIT_CAP_def unat_gt_0)
    have need: "unat ?need \<le> 2 ^ 63" using n fd by simp
    obtain c where c: "grow_cap ?need ?start = Some c" "unat ?need \<le> unat c" "unat c \<le> max (unat ?start) (2 * unat ?need)"
      by (rule grow_cap_spec [OF st(1) need])
    have c60: "unat c < 2 ^ 60" using c(3) st(2) n fd by (simp add: max_def split: if_splits)
    have "of_nat (length ?W) \<le> c" using c(2) n o lt by (simp add: word_le_nat_alt)
    then have d: "unat (c - of_nat (length ?W)) = unat c - length ?W" using o by (simp add: unat_sub)
    obtain m k where call: "sys_realloc (e_sys e) (re_owner_mem s) (c * 8) (w_sys w) = (m, k)" by fastforce
    have q: "calm regs w (w\<lparr>w_sys := k\<rparr>)" using k.realloc_regs [OF call] by (simp add: calm_def)
    show thesis
    proof (cases "m = 0")
      case True
      then show thesis
        using none [of "w\<lparr>w_sys := k\<rparr>"] False c(1) call q by (simp add: fd_owner_reserve_def Let_def cong: if_cong)
    next
      case m: False
      have "fd_owner_reserve e s fd w = Some (True, s\<lparr>re_owner_mem := m,
          re_fd_owner := ?W @ replicate (unat c - length ?W) 0\<rparr>, w\<lparr>w_sys := k\<rparr>)"
        using m False c(1) call d by (simp add: fd_owner_reserve_def Let_def cong: if_cong)
      then show thesis using room q c(2) n c60 lt by fastforce
    qed
  qed
qed

lemma ctl_spec:
  assumes "op = EPOLL_CTL_ADD \<or> op = EPOLL_CTL_MOD"
  obtains r w' where "c_epoll_ctl e epfd op fd (Some (ev, p)) w = (r, w')" "quiet w w'"
    "regs (w_sys w') \<subseteq> (if r < 0 then regs (w_sys w) else {x \<in> regs (w_sys w). fst x \<noteq> fd} \<union> {(fd, p, oneshot ev)})"
proof -
  obtain r k where c: "sys_epoll_ctl (e_sys e) epfd op fd (Some (ev, p)) (w_sys w) = (r, k)" by fastforce
  obtain r' w' where l: "libc_ret r (w\<lparr>w_sys := k\<rparr>) = (r', w')" by fastforce
  have L: "calm regs (w\<lparr>w_sys := k\<rparr>) w'" "w_sys w' = k" "r' < 0 \<longleftrightarrow> r < 0" using calm_libc_ret [OF l] by auto
  show thesis
  proof (rule that)
    show "c_epoll_ctl e epfd op fd (Some (ev, p)) w = (r', w')" using c l by (simp add: c_epoll_ctl_def)
    show "quiet w w'" using L(1) by (simp add: calm_def quiet_def)
    show "regs (w_sys w') \<subseteq> (if r' < 0 then regs (w_sys w) else {x \<in> regs (w_sys w). fst x \<noteq> fd} \<union> {(fd, p, oneshot ev)})"
      unfolding L(2,3) by (rule k.ctl_set [OF assms c])
  qed
qed

lemma arm_epoll_spec:
  assumes ep: "re_epfd s = epfd" and op: "op = EPOLL_CTL_ADD \<or> op = EPOLL_CTL_MOD"
  obtains ok w' where "arm_epoll e s f fd events op w = (ok, w')" "quiet w w'"
    "regs (w_sys w') \<subseteq> (if ok then {x \<in> regs (w_sys w). fst x \<noteq> fd} \<union> {(fd, f, True)} else regs (w_sys w))"
proof -
  let ?ev = "events OR EPOLLONESHOT"
  obtain r w1 where c: "c_epoll_ctl e epfd op fd (Some (?ev, f)) w = (r, w1)" "quiet w w1"
    "regs (w_sys w1) \<subseteq> (if r < 0 then regs (w_sys w) else {x \<in> regs (w_sys w). fst x \<noteq> fd} \<union> {(fd, f, oneshot ?ev)})"
    by (rule ctl_spec [OF op])
  show thesis
  proof (cases "r < 0")
    case False
    then show thesis using that [of True w1] c ep by (simp add: arm_epoll_def oneshot_set Let_def)
  next
    case True
    let ?op = "if w_errno w1 = ENOENT then EPOLL_CTL_ADD else if w_errno w1 = EEXIST then EPOLL_CTL_MOD else - 1"
    show thesis
    proof (cases "?op < 0")
      case neg: True
      then have "arm_epoll e s f fd events op w = (False, w1)" using c(1) ep True by (simp add: arm_epoll_def Let_def)
      then show thesis using that [of False w1] c True by simp
    next
      case False
      then have "?op = EPOLL_CTL_ADD \<or> ?op = EPOLL_CTL_MOD" by (auto split: if_splits)
      then obtain r2 w2 where c2: "c_epoll_ctl e epfd ?op fd (Some (?ev, f)) w1 = (r2, w2)" "quiet w1 w2"
        "regs (w_sys w2) \<subseteq> (if r2 < 0 then regs (w_sys w1) else {x \<in> regs (w_sys w1). fst x \<noteq> fd} \<union> {(fd, f, oneshot ?ev)})"
        by (rule ctl_spec)
      have "arm_epoll e s f fd events op w = (\<not> r2 < 0, w2)"
        using c(1) c2(1) ep True False by (simp add: arm_epoll_def Let_def)
      moreover have "regs (w_sys w1) \<subseteq> regs (w_sys w)" using c(3) True by simp
      ultimately show thesis
        using that [of "\<not> r2 < 0" w2] quiet_trans [OF c(2) c2(2)] c2(3) by (auto simp: oneshot_set split: if_splits)
    qed
  qed
qed

end
text \<open>The entry of \<open>fd\<close> is cleared, and its holder's registration, when the holder does not wait on it;
  the entry is then taken by a fiber about to park.\<close>

lemma d_ok_drop:
  assumes d: "d_ok A self W V" and i: "0 \<le> fd" "nat fd < length W"
    and h: "W ! nat fd \<noteq> 0 \<Longrightarrow> V (W ! nat fd) = Some (st, pk, fd, wt) \<and> \<not> (st = FB_PARKED \<and> wt = fd)"
  shows "d_ok A self (W[nat fd := 0]) (if W ! nat fd = 0 then V else V(W ! nat fd \<mapsto> (st, pk, - 1, wt)))"
proof (cases "W ! nat fd = 0")
  case True
  then have "W[nat fd := 0] = W" by (metis list_update_id)
  then show ?thesis using d True by simp
next
  case False
  let ?h = "W ! nat fd"
  have V: "V ?h = Some (st, pk, fd, wt)" and np: "\<not> (st = FB_PARKED \<and> wt = fd)" using h False by blast+
  have live: "st \<noteq> FB_FREE" using d i False V by (fastforce simp: d_ok_def)
  note D = d_okD [OF d V live]
  have fin: "st \<noteq> FB_PARKED \<or> wt = - 1" using D(3) np by blast
  have new: "fd_fiber_ok W ?h (st, pk, - 1, wt)" using D(2,4) fin by (auto simp: fd_fiber_ok_def)
  have nf: "(fd', ?h, True) \<notin> A" for fd'
  proof
    assume "(fd', ?h, True) \<in> A"
    then have "st = FB_PARKED" "fd' = fd" "wt = fd'" using d_ok_armed [OF d] V by auto
    then show False using np by blast
  qed
  have "d_ok A self (if fd = - 1 then W else W[nat fd := 0]) (V(?h \<mapsto> (st, pk, - 1, wt)))"
    by (rule d_ok_clear [OF d V live False new fin _ nf]) simp
  then show ?thesis using False i(1) by simp
qed

lemma d_ok_take:
  assumes d: "d_ok A self W V" and i: "0 \<le> fd" "nat fd < length W" "W ! nat fd = 0"
    and f: "V f = Some (st, pk, - 1, wt)" "st \<noteq> FB_FREE" "st \<noteq> FB_PARKED" "V 0 = None"
    and A: "A' \<subseteq> {x \<in> A. fst x \<noteq> fd} \<union> {(fd, f, True)}"
  shows "d_ok A' self (W[nat fd := f]) (V(f \<mapsto> (FB_PARKED, PARK_FD, fd, fd)))" (is "d_ok _ _ ?W ?V")
  unfolding d_ok_def
proof (intro conjI allI impI)
  show "length ?W < 2 ^ 60" using d by (simp add: d_ok_def)
next
  fix g x assume g: "?V g = Some x" "fst x \<noteq> FB_FREE"
  show "fd_fiber_ok ?W g x"
  proof (cases "g = f")
    case True
    then show ?thesis using g i by (auto simp: fd_fiber_ok_def)
  next
    case False
    then have gx: "V g = Some x" using g(1) by simp
    then have "fd_fiber_ok W g x" using d_ok_each [OF d] g(2) by blast
    moreover have "W ! nat fd \<noteq> g" using i(3) gx f(4) by auto
    ultimately show ?thesis using i False by (auto simp: fd_fiber_ok_def nth_list_update split: prod.splits)
  qed
next
  fix j assume j: "j < length ?W" "?W ! j \<noteq> 0"
  show "\<exists>s p w. ?V (?W ! j) = Some (s, p, int j, w) \<and> s \<noteq> FB_FREE"
  proof (cases "j = nat fd")
    case True
    then show ?thesis using i by simp
  next
    case False
    then have j': "j < length W" "W ! j \<noteq> 0" "?W ! j = W ! j" using j by (auto simp: nth_list_update)
    then obtain s p w where v: "V (W ! j) = Some (s, p, int j, w)" "s \<noteq> FB_FREE" using d by (auto simp: d_ok_def)
    then have "W ! j \<noteq> f" using f(1) by auto
    then show ?thesis using v j'(3) by simp
  qed
next
  show "A' \<subseteq> armed_by self ?V"
  proof
    fix x assume x: "x \<in> A'"
    show "x \<in> armed_by self ?V"
    proof (cases "x = (fd, f, True)")
      case True
      then show ?thesis by (simp add: armed_by_def)
    next
      case False
      then have "x \<in> armed_by self V" using x A d by (auto simp: d_ok_def)
      then show ?thesis using f(1,3) by (auto simp: armed_by_def split: if_splits)
    qed
  qed
qed
text \<open>\<open>arm_fd\<close> for the running fiber. On success the fiber holds the descriptor, and the table is as
  it has to be once the fiber parks on it; on failure nothing but its registration has changed.\<close>

context reactor_env
begin

lemma refd_ok:
  assumes "reactor_ok A Q L s" "refd s s'" "d_ok A' (re_self s) (re_fd_owner s') (v_fd (re_blocks s'))"
  shows "reactor_ok A' Q L s'"
  using assms refd_undesc [OF assms(2), of Q L] refd_fields(10) [OF assms(2)] by (simp add: reactor_ok_split)

text \<open>A fiber that does not wait on its descriptor loses it.\<close>

lemma detach_live:
  assumes ok: "reactor_ok (regs (w_sys w)) Q L s" and ep: "re_epfd s = epfd"
    and f: "re_blocks s f = Some c" "ef_state c \<noteq> FB_FREE" "ef_state c = FB_PARKED \<Longrightarrow> ef_wait_fd c = - 1"
  obtains s' w' where "detach_fd e s f w = Some (s', w')" "reactor_ok (regs (w_sys w')) Q L s'" "refd s s'" "calm regs w w'"
    "re_blocks s' f = Some (c\<lparr>ef_reg_fd := - 1\<rparr>)" "length (re_fd_owner s') = length (re_fd_owner s)"
proof -
  note K = reactor_okD [OF ok]
  let ?r = "ef_reg_fd c" and ?V = "v_fd (re_blocks s)"
  let ?s = "s\<lparr>re_blocks := (re_blocks s)(f \<mapsto> c\<lparr>ef_reg_fd := - 1\<rparr>),
    re_fd_owner := (if ?r = - 1 then re_fd_owner s else (re_fd_owner s)[nat ?r := 0])\<rparr>"
  have f0: "f \<noteq> 0" using K(3) f(1) by (auto simp: states_ok_def)
  have V: "?V f = Some (ef_state c, ef_park c, ?r, ef_wait_fd c)" using v_fd_at [of "re_blocks s" f c] f(1) by simp
  note D = d_okD [OF K(5) V f(2)]
  obtain w' where d: "detach_fd e s f w = Some (?s, w')" "calm regs w w'"
    "regs (w_sys w') \<subseteq> (if ?r = - 1 then regs (w_sys w) else {x \<in> regs (w_sys w). fst x \<noteq> ?r})"
    by (rule detach_spec [OF f(1) ep]) (use D(1) in auto)
  have r: "refd s ?s" by (rule refd_upd [OF f(1)])
  have new: "fd_fiber_ok (re_fd_owner s) f (ef_state c, ef_park c, - 1, ef_wait_fd c)"
    "ef_state c \<noteq> FB_PARKED \<or> ef_wait_fd c = - 1"
    using D(2,4) f(3) by (auto simp: fd_fiber_ok_def)
  have "d_ok (regs (w_sys w')) (re_self s) (if ?r = - 1 then re_fd_owner s else (re_fd_owner s)[nat ?r := 0])
      (?V(f \<mapsto> (ef_state c, ef_park c, - 1, ef_wait_fd c)))"
    by (rule d_ok_detach [OF K(5) V f(2) f0 new d(3)])
  then have "d_ok (regs (w_sys w')) (re_self s) (re_fd_owner ?s) (v_fd (re_blocks ?s))" by simp
  then have "reactor_ok (regs (w_sys w')) Q L ?s" by (rule refd_ok [OF ok r])
  then show thesis using that d(1,2) r by simp
qed

lemma arm_fd_spec:
  assumes ok: "reactor_ok (regs (w_sys w)) Q L s" and ep: "re_epfd s = epfd" and fd: "fd < 2 ^ 31"
    and f: "re_blocks s f = Some c" "ef_state c = FB_RUNNING" "ef_wait_fd c = - 1"
  obtains
    (failed) s' w' where "arm_fd e s f fd events w = Some (- 1, s', w')" "reactor_ok (regs (w_sys w')) Q L s'"
      "refd s s'" "calm regs w w'"
  | (armed) s' w' where "arm_fd e s f fd events w = Some (0, s', w')" "undesc_ok Q L s'" "refd s s'" "quiet w w'" "0 \<le> fd"
      "re_blocks s' f = Some (c\<lparr>ef_reg_fd := fd\<rparr>)"
      "d_ok (regs (w_sys w')) (re_self s') (re_fd_owner s') ((v_fd (re_blocks s'))(f \<mapsto> (FB_PARKED, PARK_FD, fd, fd)))"
proof (cases "fd < 0")
  case True
  then show thesis using failed [of s "w\<lparr>w_errno := EBADF\<rparr>"] ok by (simp add: arm_fd_def)
next
  case False
  then have fd0: "0 \<le> fd" by simp
  note K = reactor_okD [OF ok]
  have z: "re_blocks s 0 = None" using K(3) by (simp add: states_ok_def)
  then have f0: "f \<noteq> 0" using f(1) by auto
  have len: "length (re_fd_owner s) < 2 ^ 60" using K(5) by (simp add: d_ok_def)
  from fd0 fd len show thesis
  proof (cases rule: fd_owner_reserve_spec [where w = w])
    case (none w')
    then show thesis using failed [of s "w'\<lparr>w_errno := ENOMEM\<rparr>"] False reactor_ok_mono [OF ok]
      by (simp add: arm_fd_def calm_def)
  next
    case (room m n w1)
    let ?s1 = "s\<lparr>re_owner_mem := m, re_fd_owner := re_fd_owner s @ replicate n 0\<rparr>"
    have r1: "refd s ?s1" by (rule refd_table)
    have "d_ok (regs (w_sys w1)) (re_self s) (re_fd_owner ?s1) (v_fd (re_blocks ?s1))"
      using d_ok_grow [OF K(5) room(4)] room(2) by (auto simp: d_ok_def calm_def)
    then have ok1: "reactor_ok (regs (w_sys w1)) Q L ?s1" by (rule refd_ok [OF ok r1])
    obtain s2 w2 c2 where d: "(if ef_reg_fd c \<noteq> fd then detach_fd e ?s1 f w1 else Some (?s1, w1)) = Some (s2, w2)"
      "reactor_ok (regs (w_sys w2)) Q L s2" "refd ?s1 s2" "calm regs w1 w2"
      "re_blocks s2 f = Some c2" "c2 = c \<and> ef_reg_fd c = fd \<or> c2 = c\<lparr>ef_reg_fd := - 1\<rparr>" "nat fd < length (re_fd_owner s2)"
    proof (cases "ef_reg_fd c = fd")
      case True
      have c: "re_blocks ?s1 f = Some c" using f(1) by simp
      have e: "c = c \<and> ef_reg_fd c = fd \<or> c = c\<lparr>ef_reg_fd := - 1\<rparr>" using True by blast
      show thesis by (rule that [OF _ ok1 refd_refl calm_refl c e]) (use True room(3) in simp_all)
    next
      case False
      have eb: "re_epfd ?s1 = epfd" "re_blocks ?s1 f = Some c" using f ep by simp_all
      then obtain s' w' where r: "detach_fd e ?s1 f w1 = Some (s', w')" "reactor_ok (regs (w_sys w')) Q L s'"
        "refd ?s1 s'" "calm regs w1 w'" "re_blocks s' f = Some (c\<lparr>ef_reg_fd := - 1\<rparr>)"
        "length (re_fd_owner s') = length (re_fd_owner ?s1)"
        using detach_live [OF ok1 eb] f(2,3) by auto
      have x: "c\<lparr>ef_reg_fd := - 1\<rparr> = c \<and> ef_reg_fd c = fd \<or> c\<lparr>ef_reg_fd := - 1\<rparr> = c\<lparr>ef_reg_fd := - 1\<rparr>" by blast
      show thesis by (rule that [OF _ r(2-5) x]) (use False r(1,6) room(3) in simp_all)
    qed
    have r2: "refd s s2" by (rule refd_trans [OF r1 d(3)])
    have c12: "calm regs w w2" by (rule calm_trans [OF room(2) d(4)])
    note K2 = reactor_okD [OF d(2)]
    let ?V = "v_fd (re_blocks s2)" and ?W = "re_fd_owner s2" and ?h = "re_fd_owner s2 ! nat fd"
    have ep2: "re_epfd s2 = epfd" using refd_fields(11) [OF r2] ep by simp
    have c2: "ef_state c2 = FB_RUNNING" "ef_wait_fd c2 = - 1" "ef_park c2 = ef_park c" "ef_reg_fd c2 = fd \<or> ef_reg_fd c2 = - 1"
      using d(6) f by auto
    have Vf: "?V f = Some (FB_RUNNING, ef_park c, ef_reg_fd c2, - 1)" using v_fd_at [of "re_blocks s2" f c2] d(5) c2 by simp
    have Vh: "\<exists>b. re_blocks s2 ?h = Some b \<and> ef_reg_fd b = fd" if nz: "?h \<noteq> 0"
    proof -
      obtain st pk wt where "?V ?h = Some (st, pk, int (nat fd), wt)" using K2(5) d(7) nz unfolding d_ok_def by blast
      then show ?thesis using fd0 by (auto simp: vw_def)
    qed
    have V0: "?V 0 = None" using K2(3) by (simp add: states_ok_def)
    have own: "ef_reg_fd c2 = fd \<Longrightarrow> ?h = f" using d_okD(1) [OF K2(5) Vf] fd0 by simp
    let ?op = "if ?h \<noteq> 0 then EPOLL_CTL_MOD else EPOLL_CTL_ADD"
    have start: "arm_fd e s f fd events w = do {
          taken \<leftarrow> (if ?h \<noteq> 0 \<and> ?h \<noteq> f then do {
              h \<leftarrow> re_blocks s2 ?h;
              if ef_state h = FB_PARKED \<and> ef_wait_fd h = fd then Some None
              else do { s \<leftarrow> fset ?h (ef_reg_fd_update (\<lambda>_. - 1)) s2; Some (Some s) }
            } else Some (Some s2));
          case taken of
            None \<Rightarrow> Some (- 1, s2, w2\<lparr>w_errno := EBUSY\<rparr>)
          | Some s \<Rightarrow> do {
              let (ok, w) = arm_epoll e s f fd events ?op w2;
              if \<not> ok then do {
                s \<leftarrow> fset f (ef_reg_fd_update (\<lambda>_. - 1)) (s\<lparr>re_fd_owner := (re_fd_owner s)[nat fd := 0]\<rparr>);
                Some (- 1, s, w)
              }
              else do {
                s \<leftarrow> fset f (ef_reg_fd_update (\<lambda>_. fd)) (s\<lparr>re_fd_owner := (re_fd_owner s)[nat fd := f]\<rparr>);
                Some (0, s, w)
              }
            } }"
      using False room(1) f(1) d(1,7) by (simp add: arm_fd_def cong: if_cong)
    show thesis
    proof (cases "\<exists>b. ?h \<noteq> 0 \<and> ?h \<noteq> f \<and> re_blocks s2 ?h = Some b \<and> ef_state b = FB_PARKED \<and> ef_wait_fd b = fd")
      case True
      then have "arm_fd e s f fd events w = Some (- 1, s2, w2\<lparr>w_errno := EBUSY\<rparr>)" unfolding start by auto
      then show thesis using failed d(2) r2 c12 by simp
    next
      case free: False
      define s3 where "s3 = (if ?h \<noteq> 0 \<and> ?h \<noteq> f
        then s2\<lparr>re_blocks := (re_blocks s2)(?h \<mapsto> (the (re_blocks s2 ?h))\<lparr>ef_reg_fd := - 1\<rparr>)\<rparr> else s2)"
      have r3: "refd s2 s3"
      proof (cases "?h \<noteq> 0 \<and> ?h \<noteq> f")
        case True
        then obtain b where b: "re_blocks s2 ?h = Some b" using Vh by blast
        have "s3 = s2\<lparr>re_blocks := (re_blocks s2)(?h \<mapsto> b\<lparr>ef_reg_fd := - 1\<rparr>), re_fd_owner := re_fd_owner s2\<rparr>"
          using True b by (simp add: s3_def)
        then show ?thesis using refd_upd [OF b] by (simp only:)
      next
        case False
        then have "s3 = s2" by (auto simp: s3_def)
        then show ?thesis by simp
      qed
      have b3: "re_blocks s3 f = Some c2" "re_fd_owner s3 = ?W" "re_epfd s3 = epfd"
        using d(5) ep2 by (auto simp: s3_def)
      obtain okr w3 where a: "arm_epoll e s3 f fd events ?op w2 = (okr, w3)" "quiet w2 w3"
        "regs (w_sys w3) \<subseteq> (if okr then {x \<in> regs (w_sys w2). fst x \<noteq> fd} \<union> {(fd, f, True)} else regs (w_sys w2))"
        by (rule arm_epoll_spec [OF b3(3), where op = ?op and fd = fd]) auto
      let ?s4 = "\<lambda>r y. s3\<lparr>re_blocks := (re_blocks s3)(f \<mapsto> c2\<lparr>ef_reg_fd := r\<rparr>), re_fd_owner := ?W[nat fd := y]\<rparr>"
      have run: "arm_fd e s f fd events w = Some (if okr then (0, ?s4 fd f, w3) else (- 1, ?s4 (- 1) 0, w3))"
        unfolding start using free Vh a(1) b3 by (auto simp: s3_def)
      have r4: "refd s (?s4 r y)" for r y
        by (rule refd_trans [OF refd_trans [OF r2 r3] refd_upd [OF b3(1)]])
      have clear: "d_ok (regs (w_sys w2)) (re_self s2) (?W[nat fd := 0]) (v_fd (re_blocks (?s4 (- 1) 0)))"
      proof (cases "?h = 0 \<or> ?h = f")
        case True
        have "d_ok (regs (w_sys w2)) (re_self s2) (?W[nat fd := 0])
            (if ?h = 0 then ?V else ?V(?h \<mapsto> (FB_RUNNING, ef_park c, - 1, - 1)))"
          by (rule d_ok_drop [OF K2(5) fd0 d(7)]) (use True Vh Vf d(5) in \<open>auto simp: vw_def\<close>)
        moreover have "?h = 0 \<Longrightarrow> ?V(f \<mapsto> (FB_RUNNING, ef_park c, - 1, - 1)) = ?V"
          using Vf own c2(4) f0 by auto
        ultimately show ?thesis using True f0 c2 by (auto simp: s3_def)
      next
        case other: False
        then obtain b where b: "re_blocks s2 ?h = Some b" "ef_reg_fd b = fd" using Vh by blast
        have "d_ok (regs (w_sys w2)) (re_self s2) (?W[nat fd := 0])
            (if ?h = 0 then ?V else ?V(?h \<mapsto> (ef_state b, ef_park b, - 1, ef_wait_fd b)))"
          by (rule d_ok_drop [OF K2(5) fd0 d(7)]) (use other b free in \<open>auto simp: vw_def\<close>)
        moreover have "ef_reg_fd c2 = - 1" using own c2(4) other by blast
        then have "?V(?h \<mapsto> x, f \<mapsto> (FB_RUNNING, ef_park c, - 1, - 1)) = ?V(?h \<mapsto> x)" for x
          using Vf other by (auto simp: fun_eq_iff)
        ultimately show ?thesis using other b c2 by (simp add: s3_def)
      qed
      show thesis
      proof (cases okr)
        case False
        have "d_ok (regs (w_sys w3)) (re_self s) (re_fd_owner (?s4 (- 1) 0)) (v_fd (re_blocks (?s4 (- 1) 0)))"
          using clear a(3) False refd_fields(10) [OF r2] by (auto simp: d_ok_def)
        then have "reactor_ok (regs (w_sys w3)) Q L (?s4 (- 1) 0)" by (rule refd_ok [OF ok r4])
        moreover have "calm regs w w3" using calm_trans [OF c12 calm_sys [OF a(2)]] a(3) False by simp
        ultimately show thesis using failed run False r4 by simp
      next
        case True
        have "d_ok (regs (w_sys w3)) (re_self s2) (?W[nat fd := 0, nat fd := f])
            ((v_fd (re_blocks (?s4 (- 1) 0)))(f \<mapsto> (FB_PARKED, PARK_FD, fd, fd)))"
          by (rule d_ok_take [OF clear fd0]) (use d(7) c2 V0 f0 a(3) True in \<open>auto simp: s3_def\<close>)
        then have "d_ok (regs (w_sys w3)) (re_self (?s4 fd f)) (re_fd_owner (?s4 fd f))
            ((v_fd (re_blocks (?s4 fd f)))(f \<mapsto> (FB_PARKED, PARK_FD, fd, fd)))"
          using refd_fields(10) [OF r3] by simp
        note da = this
        have u: "undesc_ok Q L (?s4 fd f)" using refd_undesc [OF r4, of Q L] ok by (simp add: reactor_ok_split)
        have qt: "quiet w w3" by (rule quiet_trans [OF calm_quiet [OF c12] a(2)])
        have blk: "re_blocks (?s4 fd f) f = Some (c\<lparr>ef_reg_fd := fd\<rparr>)" using d(6) by auto
        show thesis by (rule armed [OF _ u r4 qt fd0 blk da]) (use run True in simp)
      qed
    qed
  qed
qed

end

end
