(* ===== verification/Reactor_Park.thy ===== *)
theory Reactor_Park
  imports Reactor_Fd
begin

text \<open>
  The running fiber's side of the reactor against its invariant: parking with or without a timer, and
  the calls built on it (\<open>wait_begin\<close>, \<open>sleep_begin\<close>, \<open>async_begin\<close>), yielding, going on after a
  wait, returning.
\<close>

section \<open>Timers of the running fiber\<close>

text \<open>At most the fiber \<open>f\<close> was put on the timer heap.\<close>

definition timed :: "u64 \<Rightarrow> ('h, 'v) cfiber_reactor \<Rightarrow> ('h, 'v) cfiber_reactor \<Rightarrow> bool" where
  "timed f s s' \<longleftrightarrow> timers_ok s' \<and> set (re_heap s) \<subseteq> set (re_heap s') \<and> set (re_heap s') \<subseteq> insert f (set (re_heap s)) \<and>
     s' = s\<lparr>re_heap_mem := re_heap_mem s', re_heap_cap := re_heap_cap s', re_heap := re_heap s', re_blocks := re_blocks s'\<rparr> \<and>
     (\<exists>c d. re_blocks s f = Some c \<and>
        retimed (set (re_heap s')) ((re_blocks s)(f \<mapsto> c\<lparr>ef_deadline_ns := d\<rparr>)) (re_blocks s'))"

lemma timed_refl: "timers_ok s \<Longrightarrow> re_blocks s f = Some c \<Longrightarrow> timed f s s"
proof -
  assume a: "timers_ok s" "re_blocks s f = Some c"
  have "c\<lparr>ef_deadline_ns := ef_deadline_ns c\<rparr> = c" by (cases c) simp
  then have "(re_blocks s)(f \<mapsto> c\<lparr>ef_deadline_ns := ef_deadline_ns c\<rparr>) = re_blocks s" using a(2) by auto
  then have "retimed (set (re_heap s)) ((re_blocks s)(f \<mapsto> c\<lparr>ef_deadline_ns := ef_deadline_ns c\<rparr>)) (re_blocks s)" by simp
  then show ?thesis
    unfolding timed_def by (intro conjI exI [of _ c] exI [of _ "ef_deadline_ns c"] subset_insertI) (use a in simp_all)
qed

lemma timed_views:
  assumes "timed f s s'"
  shows "v_next (re_blocks s') = v_next (re_blocks s)" "v_links (re_blocks s') = v_links (re_blocks s)"
    "v_state (re_blocks s') = v_state (re_blocks s)" "v_fd (re_blocks s') = v_fd (re_blocks s)"
    "v_stack (re_blocks s') = v_stack (re_blocks s)" "v_gen (re_blocks s') = v_gen (re_blocks s)"
proof -
  from assms obtain c d where c: "re_blocks s f = Some c"
    "retimed (set (re_heap s')) ((re_blocks s)(f \<mapsto> c\<lparr>ef_deadline_ns := d\<rparr>)) (re_blocks s')" unfolding timed_def by blast
  note V = retimed_views [OF c(2)]
  show "v_next (re_blocks s') = v_next (re_blocks s)" "v_links (re_blocks s') = v_links (re_blocks s)"
    "v_state (re_blocks s') = v_state (re_blocks s)" "v_fd (re_blocks s') = v_fd (re_blocks s)"
    "v_stack (re_blocks s') = v_stack (re_blocks s)" "v_gen (re_blocks s') = v_gen (re_blocks s)"
    using V c(1) by (simp_all add: vw_def)
qed

lemma timed_fields:
  assumes "timed f s s'"
  shows "re_ready_head s' = re_ready_head s" "re_ready_tail s' = re_ready_tail s" "re_live_head s' = re_live_head s"
    "re_current s' = re_current s" "re_zombie s' = re_zombie s" "re_blocked s' = re_blocked s" "re_active s' = re_active s"
    "re_fd_owner s' = re_fd_owner s" "re_self s' = re_self s" "re_epfd s' = re_epfd s"
    "re_evfd s' = re_evfd s" "re_cmds s' = re_cmds s" "re_fibers s' = re_fibers s" "re_stacks s' = re_stacks s"
proof -
  from assms obtain m k h F where "s' = s\<lparr>re_heap_mem := m, re_heap_cap := k, re_heap := h, re_blocks := F\<rparr>"
    unfolding timed_def by blast
  then show "re_ready_head s' = re_ready_head s" "re_ready_tail s' = re_ready_tail s" "re_live_head s' = re_live_head s"
    "re_current s' = re_current s" "re_zombie s' = re_zombie s" "re_blocked s' = re_blocked s" "re_active s' = re_active s"
    "re_fd_owner s' = re_fd_owner s" "re_self s' = re_self s" "re_epfd s' = re_epfd s"
    "re_evfd s' = re_evfd s" "re_cmds s' = re_cmds s" "re_fibers s' = re_fibers s" "re_stacks s' = re_stacks s"
    by simp_all
qed

text \<open>Fibers off the heap keep their index.\<close>

lemma timed_other:
  assumes "timed f s s'" "g \<notin> set (re_heap s')" "g \<noteq> f"
  shows "re_blocks s' g = re_blocks s g"
proof -
  from assms(1) obtain c d where
    "retimed (set (re_heap s')) ((re_blocks s)(f \<mapsto> c\<lparr>ef_deadline_ns := d\<rparr>)) (re_blocks s')" unfolding timed_def by blast
  then have "re_blocks s' g = ((re_blocks s)(f \<mapsto> c\<lparr>ef_deadline_ns := d\<rparr>)) g" using assms(2) unfolding retimed_def by blast
  then show ?thesis using assms(3) by simp
qed

lemma timed_self:
  assumes "timed f s s'" "f \<notin> set (re_heap s')" "re_blocks s f = Some c"
  shows "\<exists>d. re_blocks s' f = Some (c\<lparr>ef_deadline_ns := d\<rparr>)"
proof -
  from assms(1) obtain b d where b: "re_blocks s f = Some b"
    "retimed (set (re_heap s')) ((re_blocks s)(f \<mapsto> b\<lparr>ef_deadline_ns := d\<rparr>)) (re_blocks s')" unfolding timed_def by blast
  then have "re_blocks s' f = ((re_blocks s)(f \<mapsto> b\<lparr>ef_deadline_ns := d\<rparr>)) f" using assms(2) unfolding retimed_def by blast
  then show ?thesis using b(1) assms(3) by auto
qed

lemma in_st_finite: "states_ok s Q L \<Longrightarrow> x \<noteq> FB_FREE \<Longrightarrow> finite (in_st x (re_blocks s))"
proof (rule finite_subset)
  assume "states_ok s Q L" "x \<noteq> FB_FREE"
  then show "in_st x (re_blocks s) \<subseteq> set L" using live_in_L [of s Q L] by (auto simp: in_st_iff)
qed simp

section \<open>Parking\<close>

text \<open>What no call of a fiber changes: where the reactor is, its pools, its commands, the stacks.\<close>

definition frame :: "('h, 'v) cfiber_reactor \<Rightarrow> ('h, 'v) cfiber_reactor \<Rightarrow> bool" where
  "frame s s' \<longleftrightarrow> re_self s' = re_self s \<and> re_cmds s' = re_cmds s \<and> re_zombie s' = re_zombie s \<and>
     re_fibers s' = re_fibers s \<and> re_stacks s' = re_stacks s \<and> re_epfd s' = re_epfd s \<and> re_evfd s' = re_evfd s \<and>
     v_stack (re_blocks s') = v_stack (re_blocks s)"

lemma frame_refl [simp]: "frame s s" by (simp add: frame_def)

lemma frame_trans: "frame s s' \<Longrightarrow> frame s' s'' \<Longrightarrow> frame s s''" by (simp add: frame_def)

lemma refd_frame: "refd s s' \<Longrightarrow> frame s s'"
  unfolding frame_def using refd_fields [of s s'] refd_views(4) [of s s'] by simp

lemma timed_frame: "timed f s s' \<Longrightarrow> frame s s'"
  unfolding frame_def using timed_fields [of f s s'] timed_views(5) [of f s s'] by simp

lemma woken_frame: "woken f x s s' \<Longrightarrow> frame s s'"
  by (simp add: woken_def kept_def frame_def)

lemma park_spec:
  assumes u: "undesc_ok Q L s" and c: "re_blocks s (re_current s) = Some c" "ef_state c = FB_RUNNING"
    and tm: "timed (re_current s) s s1" and c1: "re_blocks s1 (re_current s) = Some c1"
    and d: "d_ok A (re_self s) (re_fd_owner s) ((v_fd (re_blocks s))(re_current s \<mapsto> (FB_PARKED, kind, ef_reg_fd c, wt)))"
  obtains s' where "park (s1\<lparr>re_blocks := (re_blocks s1)(re_current s \<mapsto> c1\<lparr>ef_wait_fd := wt\<rparr>)\<rparr>) kind = Some s'"
    "reactor_ok A Q L s'" "frame s s'" "re_current s' = 0"
    "v_state (re_blocks s') = (v_state (re_blocks s))(re_current s \<mapsto> FB_PARKED)"
    "vw ef_park (re_blocks s') (re_current s) = Some kind" "set (re_heap s') = set (re_heap s1)"
    "v_gen (re_blocks s') = v_gen (re_blocks s)"
proof -
  let ?f = "re_current s" and ?F = "re_blocks s1"
  note V = timed_views [OF tm] and K = timed_fields [OF tm]
  have st: "states_ok s Q L" and t: "t_ok s" using u by (simp_all add: undesc_ok_def)
  have f0: "?f \<noteq> 0" using st c(1) by (auto simp: states_ok_def)
  have same: "ef_reg_fd c1 = ef_reg_fd c" using fun_cong [OF V(4), of ?f] c(1) c1 by (simp add: vw_def)
  let ?c' = "c1\<lparr>ef_wait_fd := wt, ef_park := kind, ef_state := FB_PARKED, ef_wait_status := EV_READY\<rparr>"
  let ?s' = "s1\<lparr>re_blocks := ?F(?f \<mapsto> ?c'), re_blocked := re_blocked s + 1, re_current := 0\<rparr>"
  have run: "park (s1\<lparr>re_blocks := ?F(?f \<mapsto> c1\<lparr>ef_wait_fd := wt\<rparr>)\<rparr>) kind = Some ?s'"
    using c1 K by (simp add: park_def)
  have S: "v_state (re_blocks ?s') = (v_state (re_blocks s))(?f \<mapsto> FB_PARKED)" using V(3) by simp
  have ins: "in_st x (re_blocks ?s') = (if x = FB_PARKED then insert ?f (in_st x (re_blocks s)) else in_st x (re_blocks s) - {?f})" for x
    using S by (auto simp: in_st_def)
  have fr: "?f \<in> in_st x (re_blocks s) \<longleftrightarrow> x = FB_RUNNING" for x using c by (auto simp: in_st_iff)
  have dm: "dom (re_blocks ?s') = dom (re_blocks s)" using dom_view [OF V(3)] c(1) by auto
  have st': "states_ok ?s' Q L"
  proof -
    have "card (in_st FB_PARKED (re_blocks ?s')) = card (in_st FB_PARKED (re_blocks s)) + 1"
      using ins [of FB_PARKED] fr [of FB_PARKED] in_st_finite [OF st, of FB_PARKED] by simp
    moreover have "in_st FB_RUNNING (re_blocks ?s') = {}"
      using ins [of FB_RUNNING] st f0 by (auto simp: states_ok_def ptr_set_def)
    moreover have "in_st x (re_blocks ?s') = in_st x (re_blocks s)" if "x = FB_READY \<or> x = FB_FREE \<or> x = FB_ZOMBIE" for x
      using ins [of x] fr [of x] that by auto
    moreover have "re_blocks s1 0 = None" using fun_cong [OF V(3), of 0] st unfolding states_ok_def by (metis vw_None)
    ultimately show ?thesis using st dm K(5,7) f0 by (simp add: states_ok_def ptr_set_def)
  qed
  have t': "t_ok ?s'"
    unfolding t_ok_def
  proof (intro conjI allI impI)
    have "timers_ok ?s' = timers_ok s1" by (rule timers_ok_cong) (use c1 in \<open>auto simp: vw_def\<close>)
    then show "timers_ok ?s'" using tm by (simp add: timed_def)
    have "set (re_heap s1) \<subseteq> insert ?f (in_st FB_PARKED (re_blocks s))" using tm t by (auto simp: timed_def t_ok_def)
    then show "set (re_heap ?s') \<subseteq> in_st FB_PARKED (re_blocks ?s')" using ins [of FB_PARKED] by simp
    fix g b assume g: "re_blocks ?s' g = Some b" "ef_state b \<noteq> FB_FREE" "g \<notin> set (re_heap ?s')"
    have gs: "g \<notin> set (re_heap s1)" "g \<notin> set (re_heap s)" using g(3) tm by (auto simp: timed_def)
    have old: "ef_timer_i b' = NO_TIMER" if "re_blocks s g = Some b'" "ef_state b' \<noteq> FB_FREE" for b'
      using t that gs(2) by (simp add: t_ok_def)
    show "ef_timer_i b = NO_TIMER"
    proof (cases "g = ?f")
      case True
      then obtain d where "c1 = c\<lparr>ef_deadline_ns := d\<rparr>" using timed_self [OF tm _ c(1)] gs(1) c1 by auto
      then show ?thesis using True g(1) old [of c] c by auto
    next
      case False
      then have "re_blocks s g = Some b" using timed_other [OF tm gs(1)] g(1) by simp
      then show ?thesis using old g(2) by simp
    qed
  qed
  have "v_fd (re_blocks ?s') = (v_fd (re_blocks s))(?f \<mapsto> (FB_PARKED, kind, ef_reg_fd c, wt))" using V(4) same by simp
  moreover have "v_next (re_blocks ?s') = v_next (re_blocks s)" "v_links (re_blocks ?s') = v_links (re_blocks s)"
    "v_stack (re_blocks ?s') = v_stack (re_blocks s)" "v_gen (re_blocks ?s') = v_gen (re_blocks s)"
    using V(1,2,5,6) c1 by (simp_all add: vw_def fun_eq_iff)
  ultimately show thesis
    using that [of ?s'] run u st' t' d K S by (simp add: undesc_ok_def reactor_ok_def frame_def vw_def)
qed
section \<open>The waiting calls\<close>

text \<open>After a call of the running fiber.\<close>

definition call_ok ::
  "('k \<Rightarrow> regs) \<Rightarrow> u64 list \<Rightarrow> u64 list \<Rightarrow> ('h, 'v, 'k) rstate \<Rightarrow> ('h, 'v, 'k) rstate \<Rightarrow> bool" where
  "call_ok rg Q L st st' \<longleftrightarrow> reactor_ok (rg (w_sys (snd st'))) Q L (fst st') \<and> frame (fst st) (fst st') \<and>
     quiet (snd st) (snd st') \<and> (re_current (fst st') = 0 \<or> re_current (fst st') = re_current (fst st))"

text \<open>A fiber runs and is not in the middle of a wait.\<close>

definition runs :: "('h, 'v) cfiber_reactor \<Rightarrow> ev_fiber \<Rightarrow> bool" where
  "runs s c \<longleftrightarrow> re_current s \<noteq> 0 \<and> re_blocks s (re_current s) = Some c \<and> ef_state c = FB_RUNNING \<and> ef_wait_fd c = - 1"

lemma runsD:
  assumes "runs s c"
  shows "re_current s \<noteq> 0" "re_blocks s (re_current s) = Some c" "ef_state c = FB_RUNNING" "ef_wait_fd c = - 1"
  using assms by (simp_all add: runs_def)

lemma running_fiber_here: "g_reactor th \<noteq> 0 \<Longrightarrow> re_current s \<noteq> 0 \<Longrightarrow> running_fiber e th s = Some (re_current s)"
  by (simp add: running_fiber_def)

text \<open>The timer of a call, when it has one.\<close>

abbreviation timer_opt ::
  "('v, 'k) renv \<Rightarrow> ('h, 'v) cfiber_reactor \<Rightarrow> u64 \<Rightarrow> bool \<Rightarrow> u64 \<Rightarrow> ('h, 'v, 'k) world \<Rightarrow>
   (bool \<times> ('h, 'v, 'k) rstate) option" where
  "timer_opt e s f g ns w \<equiv>
     (if g then let (d, w) = deadline_after e ns w in timer_add e s f d w else Some (True, s, w))"

context reactor_env
begin

lemma deadline_calm: "deadline_after e ns w = (d, w') \<Longrightarrow> calm regs w w'"
  using k.clock_regs [of "w_sys w"] by (auto simp: deadline_after_def now_ns_def calm_def split: prod.splits if_splits)

lemma timer_add_calm:
  assumes "timer_add e s f d w = Some (b, s', w')"
  shows "calm regs w w'"
proof -
  obtain ok s1 w1 where r: "heap_reserve e s (of_nat (length (re_heap s)) + 1) w = Some (ok, s1, w1)"
    using assms unfolding timer_add_def by (auto simp: Option.bind_eq_Some_conv)
  have "calm regs w w1"
  proof (cases "of_nat (length (re_heap s)) + 1 \<le> re_heap_cap s")
    case True
    then show ?thesis using r by (simp add: heap_reserve_def)
  next
    case False
    then obtain cap where "grow_cap (of_nat (length (re_heap s)) + 1)
        (if re_heap_cap s \<noteq> 0 then re_heap_cap s * 2 else TIMER_HEAP_INIT_CAP) = Some cap"
      using r by (auto simp: heap_reserve_def Option.bind_eq_Some_conv cong: if_cong)
    moreover obtain p k where "sys_realloc (e_sys e) (re_heap_mem s) (cap * 8) (w_sys w) = (p, k)" by fastforce
    ultimately show ?thesis
      using r False k.realloc_regs [of "re_heap_mem s" "cap * 8" "w_sys w"]
      by (simp add: heap_reserve_def Let_def calm_def cong: if_cong split: if_splits) auto
  qed
  moreover have "w' = w1"
    using assms r by (auto simp: timer_add_def Let_def Option.bind_eq_Some_conv split: if_splits)
  ultimately show ?thesis by simp
qed

lemma timer_opt_spec:
  assumes t: "t_ok s" and c: "re_blocks s f = Some c" "ef_state c = FB_RUNNING"
  obtains
    (none) w' where "timer_opt e s f g ns w = Some (False, s, w')" "calm regs w w'"
  | (added) s' w' where "timer_opt e s f g ns w = Some (True, s', w')" "calm regs w w'" "timed f s s'"
      "f \<in> set (re_heap s') \<longleftrightarrow> g"
proof -
  have tm: "timers_ok s" using t by (simp add: t_ok_def)
  have nh: "f \<notin> set (re_heap s)" using t c by (auto simp: t_ok_def in_st_iff)
  show thesis
  proof (cases g)
    case False
    then show thesis using added [of s w] timed_refl [OF tm c(1)] nh by simp
  next
    case True
    obtain d w1 where d: "deadline_after e ns w = (d, w1)" by fastforce
    have c1: "calm regs w w1" by (rule deadline_calm [OF d])
    from tm k.realloc_room c(1) nh show thesis
    proof (cases rule: timer_add_spec [where d = d and w = w1])
      case (none k)
      then show thesis using that(1) True d calm_trans [OF c1 timer_add_calm [OF none]] by simp
    next
      case (added m cap k h F)
      let ?s' = "s\<lparr>re_heap_mem := m, re_heap_cap := cap, re_heap := h, re_blocks := F\<rparr>"
      have h: "set h = insert f (set (re_heap s))" using added(3) by (metis set_mset_add_mset_insert set_mset_mset)
      have "timed f s ?s'"
        unfolding timed_def by (intro conjI exI [of _ c] exI [of _ d]) (use added(2,4) c(1) h in auto)
      then show thesis using that(2) [of ?s'] True d added(1) h calm_trans [OF c1 timer_add_calm [OF added(1)]] by simp
    qed
  qed
qed

lemma unpend:
  assumes u: "undesc_ok Q L s" and ep: "re_epfd s = epfd" and c: "re_blocks s f = Some c" "ef_state c = FB_RUNNING"
    "ef_wait_fd c = - 1" "ef_reg_fd c = fd" "0 \<le> fd"
    and d: "d_ok (regs (w_sys w)) (re_self s) (re_fd_owner s) ((v_fd (re_blocks s))(f \<mapsto> (FB_PARKED, PARK_FD, fd, fd)))"
  obtains s' w' where "detach_fd e s f w = Some (s', w')" "reactor_ok (regs (w_sys w')) Q L s'" "refd s s'" "calm regs w w'"
proof -
  let ?V = "(v_fd (re_blocks s))(f \<mapsto> (FB_PARKED, PARK_FD, fd, fd))"
  let ?s = "s\<lparr>re_blocks := (re_blocks s)(f \<mapsto> c\<lparr>ef_reg_fd := - 1\<rparr>),
    re_fd_owner := (if ef_reg_fd c = - 1 then re_fd_owner s else (re_fd_owner s)[nat (ef_reg_fd c) := 0])\<rparr>"
  have f0: "f \<noteq> 0" using u c(1) by (auto simp: undesc_ok_def states_ok_def)
  have Vf: "?V f = Some (FB_PARKED, PARK_FD, fd, fd)" and live: "FB_PARKED \<noteq> FB_FREE" by simp_all
  have own: "0 \<le> fd \<and> nat fd < length (re_fd_owner s) \<and> re_fd_owner s ! nat fd = f"
    using d_okD(1) [OF d Vf live] c(5) by simp
  obtain w' where r: "detach_fd e s f w = Some (?s, w')" "calm regs w w'"
    "regs (w_sys w') \<subseteq> (if ef_reg_fd c = - 1 then regs (w_sys w) else {x \<in> regs (w_sys w). fst x \<noteq> ef_reg_fd c})"
    by (rule detach_spec [OF c(1) ep]) (use own c(4) in auto)
  have A: "regs (w_sys w') \<subseteq> (if fd = - 1 then regs (w_sys w) else {x \<in> regs (w_sys w). fst x \<noteq> fd})"
    using r(3) unfolding c(4) .
  have "d_ok (regs (w_sys w')) (re_self s) (if fd = - 1 then re_fd_owner s else (re_fd_owner s)[nat fd := 0])
      (?V(f \<mapsto> (FB_RUNNING, ef_park c, - 1, - 1)))"
    by (rule d_ok_detach [OF d Vf live f0 _ _ A]) (simp_all add: fd_fiber_ok_def)
  then have "d_ok (regs (w_sys w')) (re_self s) (re_fd_owner ?s) (v_fd (re_blocks ?s))" using c by simp
  then have "reactor_ok (regs (w_sys w')) Q L ?s"
    using refd_undesc [OF refd_upd [OF c(1)], of Q L] u by (simp add: reactor_ok_split)
  then show thesis using that r(1,2) refd_upd [OF c(1)] by blast
qed

end
context reactor_env
begin

text \<open>Each of the three either refuses, with a status and the fiber still running, or parks it.\<close>

lemma call_okI:
  "reactor_ok (regs (w_sys w')) Q L s' \<Longrightarrow> frame s s' \<Longrightarrow> quiet w w' \<Longrightarrow> re_current s' = 0 \<or> re_current s' = re_current s \<Longrightarrow>
    call_ok regs Q L (s, w) (s', w')"
  by (simp add: call_ok_def)

lemma wait_begin_spec:
  assumes ok: "reactor_ok (regs (w_sys w)) Q L s" and ep: "re_epfd s = epfd" and th: "g_reactor th \<noteq> 0"
    and c: "runs s c" and fd: "fd < 2 ^ 31"
  obtains
    (refused) s' w' where "wait_begin e th s fd dir t w = Some (Some EV_ERROR, s', w')"
      "call_ok regs Q L (s, w) (s', w')" "re_current s' = re_current s"
  | (parked) s' w' where "wait_begin e th s fd dir t w = Some (None, s', w')" "call_ok regs Q L (s, w) (s', w')"
      "re_current s' = 0" "0 \<le> fd" "vw ef_park (re_blocks s') (re_current s) = Some PARK_FD"
      "v_state (re_blocks s') = (v_state (re_blocks s))(re_current s \<mapsto> FB_PARKED)"
      "re_current s \<in> set (re_heap s') \<longleftrightarrow> 0 \<le> sint t"
proof -
  let ?f = "re_current s"
  note C = runsD [OF c]
  have rf: "running_fiber e th s = Some ?f" using running_fiber_here th C(1) by blast
  show thesis
  proof (cases "dir = 0 \<or> dir AND NOT (CFIBER_EV_IN OR CFIBER_EV_OUT) \<noteq> 0")
    case True
    then have "wait_begin e th s fd dir t w = Some (Some EV_ERROR, s, w\<lparr>w_errno := EINVAL\<rparr>)"
      using rf C(1) by (simp add: wait_begin_def ev_fail_def)
    moreover have "call_ok regs Q L (s, w) (s, w\<lparr>w_errno := EINVAL\<rparr>)"
      by (rule call_okI) (use ok in \<open>simp_all add: quiet_def\<close>)
    ultimately show thesis using refused by simp
  next
    case good: False
    let ?ev = "(if dir AND CFIBER_EV_IN \<noteq> 0 then EPOLLIN else 0) OR (if dir AND CFIBER_EV_OUT \<noteq> 0 then EPOLLOUT else 0)"
    from ok ep fd C(2-4) show thesis
    proof (cases rule: arm_fd_spec [where events = ?ev])
      case (failed s1 w1)
      then have "wait_begin e th s fd dir t w = Some (Some EV_ERROR, s1, w1)"
        using rf C(1) good by (simp add: wait_begin_def)
      moreover have "call_ok regs Q L (s, w) (s1, w1)"
        by (rule call_okI) (use failed refd_frame refd_fields(4) calm_quiet in blast)+
      ultimately show thesis using refused refd_fields(4) [OF failed(3)] by simp
    next
      case (armed s1 w1)
      note R = refd_fields [OF armed(3)]
      have ep1: "re_epfd s1 = epfd" using R(11) ep by simp
      have t1: "t_ok s1" using armed(2) by (simp add: undesc_ok_def)
      let ?c1 = "c\<lparr>ef_reg_fd := fd\<rparr>"
      have c1: "re_blocks s1 ?f = Some ?c1" "ef_state ?c1 = FB_RUNNING" using armed(6) C by simp_all
      have run: "wait_begin e th s fd dir t w = do {
          (ok, s, w) \<leftarrow> timer_opt e s1 ?f (0 \<le> sint t) t w1;
          if \<not> ok then do { (s, w) \<leftarrow> detach_fd e s ?f w; ev_fail ENOMEM (s, w) }
          else do { s \<leftarrow> fset ?f (ef_wait_fd_update (\<lambda>_. fd)) s; s \<leftarrow> park s PARK_FD; Some (None, s, w) } }"
        using rf C(1) good armed(1) by (simp add: wait_begin_def cong: if_cong)
      from t1 c1 show thesis
      proof (cases rule: timer_opt_spec [where g = "0 \<le> sint t" and ns = t and w = w1])
        case (none w2)
        have d2: "d_ok (regs (w_sys w2)) (re_self s1) (re_fd_owner s1) ((v_fd (re_blocks s1))(?f \<mapsto> (FB_PARKED, PARK_FD, fd, fd)))"
          using armed(7) none(2) by (auto simp: d_ok_def calm_def)
        have w1: "ef_wait_fd ?c1 = - 1" "ef_reg_fd ?c1 = fd" using C by simp_all
        obtain s3 w3 where d: "detach_fd e s1 ?f w2 = Some (s3, w3)" "reactor_ok (regs (w_sys w3)) Q L s3" "refd s1 s3" "calm regs w2 w3"
          by (rule unpend [OF armed(2) ep1 c1 w1 armed(5) d2])
        have "wait_begin e th s fd dir t w = Some (Some EV_ERROR, s3, w3\<lparr>w_errno := ENOMEM\<rparr>)"
          unfolding run none(1) by (simp add: d(1) ev_fail_def)
        moreover have r3: "refd s s3" by (rule refd_trans [OF armed(3) d(3)])
        moreover have "quiet w w3"
          by (rule quiet_trans [OF armed(4) quiet_trans [OF calm_quiet [OF none(2)] calm_quiet [OF d(4)]]])
        ultimately show thesis
          using refused [of s3 "w3\<lparr>w_errno := ENOMEM\<rparr>"] d(2) refd_fields(4) [OF r3] refd_frame [OF r3]
          by (simp add: call_ok_def quiet_def)
      next
        case (added s2 w2)
        note T = timed_fields [OF added(3)]
        have cur: "re_current s1 = ?f" using R(4) .
        obtain c2 where c2: "re_blocks s2 ?f = Some c2"
          using fun_cong [OF timed_views(3) [OF added(3)], of ?f] c1(1) by (cases "re_blocks s2 ?f") (auto simp: vw_def)
        have d2: "d_ok (regs (w_sys w2)) (re_self s1) (re_fd_owner s1) ((v_fd (re_blocks s1))(re_current s1 \<mapsto>
            (FB_PARKED, PARK_FD, ef_reg_fd ?c1, fd)))"
          using armed(7) added(2) cur by (auto simp: d_ok_def calm_def)
        obtain s3 where p: "park (s2\<lparr>re_blocks := (re_blocks s2)(re_current s1 \<mapsto> c2\<lparr>ef_wait_fd := fd\<rparr>)\<rparr>) PARK_FD = Some s3"
          "reactor_ok (regs (w_sys w2)) Q L s3" "frame s1 s3" "re_current s3 = 0"
          "v_state (re_blocks s3) = (v_state (re_blocks s1))(re_current s1 \<mapsto> FB_PARKED)"
          "vw ef_park (re_blocks s3) (re_current s1) = Some PARK_FD" "set (re_heap s3) = set (re_heap s2)"
          by (rule park_spec [OF armed(2) _ c1(2) _ _ d2, of s2 c2]) (use c1 c2 added(3) cur in auto)
        have "wait_begin e th s fd dir t w = Some (None, s3, w2)"
          unfolding run added(1) using c2 p(1) cur by simp
        moreover have "call_ok regs Q L (s, w) (s3, w2)"
          by (rule call_okI [OF p(2) frame_trans [OF refd_frame [OF armed(3)] p(3)] quiet_trans [OF armed(4) calm_quiet [OF added(2)]]])
            (simp add: p(4))
        ultimately show thesis
          using parked p(4-7) armed(5) cur added(4) refd_views(3) [OF armed(3)] by simp
      qed
    qed
  qed
qed

end
context reactor_env
begin

lemma park_plain:
  assumes ok: "reactor_ok A Q L s" and c: "runs s c" and tm: "timed (re_current s) s s1" and A: "A' \<subseteq> A"
    and kind: "kind \<noteq> PARK_FD"
  obtains s' where "park s1 kind = Some s'" "reactor_ok A' Q L s'" "frame s s'" "re_current s' = 0"
    "v_state (re_blocks s') = (v_state (re_blocks s))(re_current s \<mapsto> FB_PARKED)"
    "vw ef_park (re_blocks s') (re_current s) = Some kind" "set (re_heap s') = set (re_heap s1)"
    "v_gen (re_blocks s') = v_gen (re_blocks s)"
proof -
  note C = runsD [OF c] and K = reactor_okD [OF ok]
  let ?f = "re_current s" and ?V = "v_fd (re_blocks s)"
  have V: "?V ?f = Some (FB_RUNNING, ef_park c, ef_reg_fd c, - 1)" using C by (simp add: vw_def)
  have live: "FB_RUNNING \<noteq> FB_FREE" "FB_PARKED \<noteq> FB_FREE" by simp_all
  have new: "fd_fiber_ok (re_fd_owner s) ?f (FB_PARKED, kind, ef_reg_fd c, - 1)"
    using d_okD(1) [OF K(5) V live(1)] kind by (auto simp: fd_fiber_ok_def)
  have none: "(fd, ?f, True) \<notin> A" for fd using d_ok_armed [OF K(5)] V by fastforce
  have d: "d_ok A' (re_self s) (re_fd_owner s) (?V(?f \<mapsto> (FB_PARKED, kind, ef_reg_fd c, - 1)))"
    by (rule d_ok_fiber [OF K(5) V live new A]) (use none A in blast)
  have u: "undesc_ok Q L s" using ok by (simp add: reactor_ok_split)
  obtain c1 where c1: "re_blocks s1 ?f = Some c1" "ef_wait_fd c1 = - 1"
    using fun_cong [OF timed_views(4) [OF tm], of ?f] C(2,4) by (cases "re_blocks s1 ?f") (auto simp: vw_def)
  have "c1\<lparr>ef_wait_fd := - 1\<rparr> = c1" using c1(2) by (cases c1) simp
  then have "(re_blocks s1)(?f \<mapsto> c1\<lparr>ef_wait_fd := - 1\<rparr>) = re_blocks s1" using c1(1) by auto
  then have same: "s1\<lparr>re_blocks := (re_blocks s1)(?f \<mapsto> c1\<lparr>ef_wait_fd := - 1\<rparr>)\<rparr> = s1" by (cases s1) simp
  show thesis by (rule park_spec [OF u C(2,3) tm c1(1) d, unfolded same]) (rule that)
qed

lemma sleep_begin_spec:
  assumes ok: "reactor_ok (regs (w_sys w)) Q L s" and th: "g_reactor th \<noteq> 0" and c: "runs s c"
  obtains
    (refused) s' w' where "sleep_begin e th s ns w = Some (Some EV_ERROR, s', w')"
      "call_ok regs Q L (s, w) (s', w')" "re_current s' = re_current s"
  | (parked) s' w' where "sleep_begin e th s ns w = Some (None, s', w')" "call_ok regs Q L (s, w) (s', w')"
      "re_current s' = 0" "vw ef_park (re_blocks s') (re_current s) = Some PARK_TIMER"
      "v_state (re_blocks s') = (v_state (re_blocks s))(re_current s \<mapsto> FB_PARKED)" "re_current s \<in> set (re_heap s')"
proof -
  let ?f = "re_current s"
  note C = runsD [OF c]
  have run: "sleep_begin e th s ns w = do {
      (ok, s, w) \<leftarrow> timer_opt e s ?f True ns w;
      if \<not> ok then ev_fail ENOMEM (s, w) else do { s \<leftarrow> park s PARK_TIMER; Some (None, s, w) } }"
    using running_fiber_here [OF th C(1), of e] C(1) by (simp add: sleep_begin_def split: prod.split)
  have t: "t_ok s" using ok by (simp add: reactor_ok_def)
  from t C(2,3) show thesis
  proof (cases rule: timer_opt_spec [where g = True and ns = ns and w = w])
    case (none w1)
    have "call_ok regs Q L (s, w) (s, w1\<lparr>w_errno := ENOMEM\<rparr>)"
      by (rule call_okI) (use reactor_ok_mono [OF ok] none(2) in \<open>auto simp: calm_def quiet_def\<close>)
    moreover have "sleep_begin e th s ns w = Some (Some EV_ERROR, s, w1\<lparr>w_errno := ENOMEM\<rparr>)"
      unfolding run none(1) by (simp add: ev_fail_def)
    ultimately show thesis using refused by simp
  next
    case (added s1 w1)
    have A: "regs (w_sys w1) \<subseteq> regs (w_sys w)" using added(2) by (simp add: calm_def)
    have kind: "PARK_TIMER \<noteq> PARK_FD" by simp
    obtain s' where p: "park s1 PARK_TIMER = Some s'" "reactor_ok (regs (w_sys w1)) Q L s'" "frame s s'" "re_current s' = 0"
      "v_state (re_blocks s') = (v_state (re_blocks s))(?f \<mapsto> FB_PARKED)"
      "vw ef_park (re_blocks s') ?f = Some PARK_TIMER" "set (re_heap s') = set (re_heap s1)"
      by (rule park_plain [OF ok c added(3) A kind])
    have "sleep_begin e th s ns w = Some (None, s', w1)" unfolding run added(1) by (simp add: p(1))
    moreover have "call_ok regs Q L (s, w) (s', w1)"
      by (rule call_okI [OF p(2,3) calm_quiet [OF added(2)]]) (simp add: p(4))
    ultimately show thesis using parked p(4-7) added(4) by simp
  qed
qed

text \<open>A pending wake is consumed without parking.\<close>

lemma async_begin_spec:
  assumes ok: "reactor_ok (regs (w_sys w)) Q L s" and th: "g_reactor th \<noteq> 0" and c: "runs s c"
  obtains
    (pending) s' where "async_begin e th s t w = Some (Some EV_READY, s', w)" "ef_wake_pending c"
      "s' = s\<lparr>re_blocks := (re_blocks s)(re_current s \<mapsto> c\<lparr>ef_wake_pending := False\<rparr>)\<rparr>"
      "call_ok regs Q L (s, w) (s', w)" "re_current s' = re_current s"
  | (refused) s' w' where "async_begin e th s t w = Some (Some EV_ERROR, s', w')" "\<not> ef_wake_pending c"
      "call_ok regs Q L (s, w) (s', w')" "re_current s' = re_current s"
  | (parked) s' w' where "async_begin e th s t w = Some (None, s', w')" "\<not> ef_wake_pending c" "call_ok regs Q L (s, w) (s', w')"
      "re_current s' = 0" "vw ef_park (re_blocks s') (re_current s) = Some PARK_ASYNC"
      "v_state (re_blocks s') = (v_state (re_blocks s))(re_current s \<mapsto> FB_PARKED)"
      "re_current s \<in> set (re_heap s') \<longleftrightarrow> 0 \<le> sint t" "v_gen (re_blocks s') = v_gen (re_blocks s)"
proof -
  let ?f = "re_current s"
  note C = runsD [OF c] and K = reactor_okD [OF ok]
  have rf: "running_fiber e th s = Some ?f" using running_fiber_here th C(1) by blast
  show thesis
  proof (cases "ef_wake_pending c")
    case True
    let ?s = "s\<lparr>re_blocks := (re_blocks s)(?f \<mapsto> c\<lparr>ef_wake_pending := False\<rparr>)\<rparr>"
    have "states_ok ?s Q L = states_ok s Q L" by (rule states_ok_cong) (use C in \<open>auto simp: vw_def\<close>)
    moreover have "t_ok ?s = t_ok s" by (rule t_ok_cong) (use C in \<open>auto simp: vw_def\<close>)
    ultimately have "reactor_ok (regs (w_sys w)) Q L ?s" using K C(2) by (simp add: reactor_ok_def vw_def)
    moreover have "frame s ?s" using C(2) by (auto simp: frame_def vw_def)
    ultimately have "call_ok regs Q L (s, w) (?s, w)" by (intro call_okI) simp_all
    moreover have "async_begin e th s t w = Some (Some EV_READY, ?s, w)"
      using rf C True by (simp add: async_begin_def)
    ultimately show thesis using pending True by simp
  next
    case False
    have run: "async_begin e th s t w = do {
        (ok, s, w) \<leftarrow> timer_opt e s ?f (0 \<le> sint t) t w;
        if \<not> ok then ev_fail ENOMEM (s, w) else do { s \<leftarrow> park s PARK_ASYNC; Some (None, s, w) } }"
      using rf C False by (simp add: async_begin_def cong: if_cong)
    from K(4) C(2,3) show thesis
    proof (cases rule: timer_opt_spec [where g = "0 \<le> sint t" and ns = t and w = w])
      case (none w1)
      have "call_ok regs Q L (s, w) (s, w1\<lparr>w_errno := ENOMEM\<rparr>)"
        by (rule call_okI) (use reactor_ok_mono [OF ok] none(2) in \<open>auto simp: calm_def quiet_def\<close>)
      moreover have "async_begin e th s t w = Some (Some EV_ERROR, s, w1\<lparr>w_errno := ENOMEM\<rparr>)"
        unfolding run none(1) by (simp add: ev_fail_def)
      ultimately show thesis using refused False by simp
    next
      case (added s1 w1)
      have A: "regs (w_sys w1) \<subseteq> regs (w_sys w)" using added(2) by (simp add: calm_def)
      have kind: "PARK_ASYNC \<noteq> PARK_FD" by simp
      obtain s' where p: "park s1 PARK_ASYNC = Some s'" "reactor_ok (regs (w_sys w1)) Q L s'" "frame s s'" "re_current s' = 0"
        "v_state (re_blocks s') = (v_state (re_blocks s))(?f \<mapsto> FB_PARKED)"
        "vw ef_park (re_blocks s') ?f = Some PARK_ASYNC" "set (re_heap s') = set (re_heap s1)"
        "v_gen (re_blocks s') = v_gen (re_blocks s)"
        by (rule park_plain [OF ok c added(3) A kind])
      have "async_begin e th s t w = Some (None, s', w1)" unfolding run added(1) by (simp add: p(1))
      moreover have "call_ok regs Q L (s, w) (s', w1)"
        by (rule call_okI [OF p(2,3) calm_quiet [OF added(2)]]) (simp add: p(4))
      ultimately show thesis using parked p(4-8) added(4) False by simp
    qed
  qed
qed

end
section \<open>Yielding, going on, returning\<close>

context reactor_env
begin

lemma yield_spec:
  assumes ok: "reactor_ok (regs (w_sys w)) Q L s" and th: "g_reactor th \<noteq> 0" and c: "runs s c"
  obtains s' where "cfiber_ev_yield e th s = Some (True, s')" "call_ok regs (Q @ [re_current s]) L (s, w) (s', w)"
    "re_current s' = 0"
proof -
  let ?f = "re_current s" and ?V = "v_fd (re_blocks s)"
  note C = runsD [OF c] and K = reactor_okD [OF ok]
  let ?s = "s\<lparr>re_current := 0\<rparr>"
  have nq: "?f \<notin> set Q" using K(3) C(2,3) by (auto simp: states_ok_def in_st_iff)
  have q: "fifo (v_next (re_blocks ?s)) (re_ready_head ?s) (re_ready_tail ?s) Q" using K(1) by simp
  have b: "re_blocks ?s ?f = Some c" using C(2) by simp
  obtain F h u where r: "enqueue ?s ?f = Some (?s\<lparr>re_ready_head := h, re_ready_tail := u, re_blocks := F\<rparr>)"
    "fifo (v_next F) h u (Q @ [?f])" "vw no_next F = vw no_next ((re_blocks ?s)(?f \<mapsto> c\<lparr>ef_state := FB_READY\<rparr>))"
    by (rule enqueue_spec [OF q nq C(1) b])
  let ?s' = "?s\<lparr>re_ready_head := h, re_ready_tail := u, re_blocks := F\<rparr>"
  note N = no_next_views [OF r(3)]
  have S: "v_state F = (v_state (re_blocks s))(?f \<mapsto> FB_READY)" using N(2) by simp
  have ins: "in_st x F = (if x = FB_READY then insert ?f (in_st x (re_blocks s)) else in_st x (re_blocks s) - {?f})" for x
    using S by (auto simp: in_st_def)
  have fr: "?f \<in> in_st x (re_blocks s) \<longleftrightarrow> x = FB_RUNNING" for x using C by (auto simp: in_st_iff)
  have dm: "dom F = dom (re_blocks s)" using dom_view [OF r(3)] C(2) by auto
  have st': "states_ok ?s' (Q @ [?f]) L"
  proof -
    have "in_st FB_RUNNING F = {}" using ins [of FB_RUNNING] K(3) C(1) by (auto simp: states_ok_def ptr_set_def)
    moreover have "in_st x F = in_st x (re_blocks s)" if "x = FB_PARKED \<or> x = FB_FREE \<or> x = FB_ZOMBIE" for x
      using ins [of x] fr [of x] that by auto
    moreover have "F 0 = None" using dm K(3) by (auto simp: states_ok_def)
    moreover have "in_st FB_READY F = insert ?f (in_st FB_READY (re_blocks s))" using ins by simp
    ultimately show ?thesis using K(3) dm by (simp add: states_ok_def ptr_set_def)
  qed
  have T: "v_time F = v_time (re_blocks s)" using N(5) C(2) by (simp add: vw_def)
  have t': "t_ok ?s'"
    unfolding t_ok_def
  proof (intro conjI allI impI)
    have "timers_ok ?s' = timers_ok s" by (rule timers_ok_cong) (simp_all add: T)
    then show "timers_ok ?s'" using K(4) by (simp add: t_ok_def)
    have "re_heap ?s' = re_heap s" by simp
    then show "set (re_heap ?s') \<subseteq> in_st FB_PARKED (re_blocks ?s')"
      using K(4) ins [of FB_PARKED] fr [of FB_PARKED] by (simp add: t_ok_def)
    fix g b assume g: "re_blocks ?s' g = Some b" "ef_state b \<noteq> FB_FREE" "g \<notin> set (re_heap ?s')"
    obtain b0 where b0: "re_blocks s g = Some b0" using g(1) dm by auto
    have "ef_timer_i b = ef_timer_i b0" using fun_cong [OF T, of g] g(1) b0 by (simp add: vw_def)
    moreover have "ef_state b0 \<noteq> FB_FREE" using fun_cong [OF S, of g] g b0 C by (auto simp: vw_def split: if_splits)
    ultimately show "ef_timer_i b = NO_TIMER" using K(4) b0 g(3) by (simp add: t_ok_def)
  qed
  have V: "?V ?f = Some (FB_RUNNING, ef_park c, ef_reg_fd c, - 1)" using C by (simp add: vw_def)
  have live: "FB_RUNNING \<noteq> FB_FREE" "FB_READY \<noteq> FB_FREE" by simp_all
  have new: "fd_fiber_ok (re_fd_owner s) ?f (FB_READY, ef_park c, ef_reg_fd c, - 1)"
    using d_okD(1) [OF K(5) V live(1)] by (auto simp: fd_fiber_ok_def)
  have none: "(fd, ?f, True) \<notin> regs (w_sys w)" for fd using d_ok_armed [OF K(5)] V by fastforce
  have "d_ok (regs (w_sys w)) (re_self s) (re_fd_owner s) (?V(?f \<mapsto> (FB_READY, ef_park c, ef_reg_fd c, - 1)))"
    by (rule d_ok_fiber [OF K(5) V live new subset_refl]) (use none in blast)
  moreover have "v_fd F = ?V(?f \<mapsto> (FB_READY, ef_park c, ef_reg_fd c, - 1))" using N(3) C(4) by simp
  moreover have "v_links F = v_links (re_blocks s)" "v_stack F = v_stack (re_blocks s)" using N(1,4) C(2) by (simp_all add: vw_def)
  ultimately have "reactor_ok (regs (w_sys w)) (Q @ [?f]) L ?s'" "frame s ?s'"
    using r(2) K(2) st' t' by (simp_all add: reactor_ok_def frame_def)
  then have "call_ok regs (Q @ [?f]) L (s, w) (?s', w)" by (intro call_okI) simp_all
  moreover have "cfiber_ev_yield e th s = Some (True, ?s')"
    using running_fiber_here [OF th C(1), of e] C(1) r(1) by (simp add: cfiber_ev_yield_def)
  ultimately show thesis using that by simp
qed

text \<open>A field of the running fiber's block that no part of the invariant reads, but \<open>wait_fd\<close>.\<close>

lemma wait_end_spec:
  assumes ok: "reactor_ok A Q L s" and cur: "re_current s \<noteq> 0"
  obtains c s' where "wait_end (re_current s) s = Some (ef_wait_status c, s')" "re_blocks s (re_current s) = Some c"
    "reactor_ok A Q L s'" "frame s s'" "re_current s' = re_current s" "runs s' (c\<lparr>ef_wait_fd := - 1\<rparr>)"
proof -
  note K = reactor_okD [OF ok]
  let ?f = "re_current s" and ?V = "v_fd (re_blocks s)"
  have "?f \<in> in_st FB_RUNNING (re_blocks s)" using K(3) cur by (simp add: states_ok_def ptr_set_def)
  then obtain c where c: "re_blocks s ?f = Some c" "ef_state c = FB_RUNNING" by (auto simp: in_st_iff)
  let ?s = "s\<lparr>re_blocks := (re_blocks s)(?f \<mapsto> c\<lparr>ef_wait_fd := - 1\<rparr>)\<rparr>"
  have "states_ok ?s Q L = states_ok s Q L" by (rule states_ok_cong) (use c in \<open>auto simp: vw_def\<close>)
  moreover have "t_ok ?s = t_ok s" by (rule t_ok_cong) (use c in \<open>auto simp: vw_def\<close>)
  moreover have "d_ok A (re_self s) (re_fd_owner s) (?V(?f \<mapsto> (FB_RUNNING, ef_park c, ef_reg_fd c, - 1)))"
  proof -
    have V: "?V ?f = Some (FB_RUNNING, ef_park c, ef_reg_fd c, ef_wait_fd c)" using c by (simp add: vw_def)
    have live: "FB_RUNNING \<noteq> FB_FREE" "FB_RUNNING \<noteq> FB_FREE" by simp_all
    have new: "fd_fiber_ok (re_fd_owner s) ?f (FB_RUNNING, ef_park c, ef_reg_fd c, - 1)"
      using d_okD(1) [OF K(5) V live(1)] by (auto simp: fd_fiber_ok_def)
    have none: "(fd, ?f, True) \<notin> A" for fd using d_ok_armed [OF K(5)] V by fastforce
    show ?thesis by (rule d_ok_fiber [OF K(5) V live new subset_refl]) (use none in blast)
  qed
  ultimately have "reactor_ok A Q L ?s" using K c by (simp add: reactor_ok_def vw_Some)
  moreover have "frame s ?s" using c by (simp add: frame_def vw_Some)
  ultimately show thesis
    using that [of c ?s] c cur by (simp add: wait_end_def runs_def)
qed

lemma hook_spec:
  assumes ok: "reactor_ok A Q L s" and c: "runs s c"
  obtains s' where "reactor_return_hook s = Some s'" "reactor_ok A Q L s'" "re_current s' = 0" "re_zombie s' = re_current s"
    "frame s (s'\<lparr>re_zombie := re_zombie s\<rparr>)" "re_zombie s = 0"
proof -
  note C = runsD [OF c] and K = reactor_okD [OF ok]
  let ?f = "re_current s" and ?V = "v_fd (re_blocks s)"
  have z: "re_zombie s = 0" using K(3) C(1) by (simp add: states_ok_def)
  let ?s = "s\<lparr>re_current := 0, re_zombie := ?f, re_blocks := (re_blocks s)(?f \<mapsto> c\<lparr>ef_state := FB_ZOMBIE\<rparr>), re_active := re_active s - 1\<rparr>"
  have ins: "in_st x (re_blocks ?s) = (if x = FB_ZOMBIE then insert ?f (in_st x (re_blocks s)) else in_st x (re_blocks s) - {?f})" for x
    using in_st_upd [of "re_blocks s" ?f c x "c\<lparr>ef_state := FB_ZOMBIE\<rparr>"] C(2) by auto
  have fr: "?f \<in> in_st x (re_blocks s) \<longleftrightarrow> x = FB_RUNNING" for x using C by (auto simp: in_st_iff)
  have st': "states_ok ?s Q L"
  proof -
    have "in_st FB_RUNNING (re_blocks ?s) = {}" "in_st FB_ZOMBIE (re_blocks ?s) = {?f}"
      using ins [of FB_RUNNING] ins [of FB_ZOMBIE] K(3) C(1) z by (auto simp: states_ok_def ptr_set_def)
    moreover have "in_st x (re_blocks ?s) = in_st x (re_blocks s)" if "x = FB_PARKED \<or> x = FB_FREE \<or> x = FB_READY" for x
      using ins [of x] fr [of x] that by auto
    moreover have "dom (re_blocks ?s) = dom (re_blocks s)" using C(2) by auto
    ultimately show ?thesis using K(3) C(1) z by (simp add: states_ok_def ptr_set_def)
  qed
  have t': "t_ok ?s"
    unfolding t_ok_def
  proof (intro conjI allI impI)
    have "timers_ok ?s = timers_ok s" by (rule timers_ok_cong) (use C(2) in \<open>auto simp: vw_def\<close>)
    then show "timers_ok ?s" using K(4) by (simp add: t_ok_def)
    have "re_heap ?s = re_heap s" by simp
    then show "set (re_heap ?s) \<subseteq> in_st FB_PARKED (re_blocks ?s)"
      using K(4) ins [of FB_PARKED] fr [of FB_PARKED] by (simp add: t_ok_def)
    fix g b assume "re_blocks ?s g = Some b" "ef_state b \<noteq> FB_FREE" "g \<notin> set (re_heap ?s)"
    then show "ef_timer_i b = NO_TIMER" using K(4) C(2,3) by (auto simp: t_ok_def split: if_splits)
  qed
  have V: "?V ?f = Some (FB_RUNNING, ef_park c, ef_reg_fd c, - 1)" using C by (simp add: vw_def)
  have live: "FB_RUNNING \<noteq> FB_FREE" "FB_ZOMBIE \<noteq> FB_FREE" by simp_all
  have new: "fd_fiber_ok (re_fd_owner s) ?f (FB_ZOMBIE, ef_park c, ef_reg_fd c, - 1)"
    using d_okD(1) [OF K(5) V live(1)] by (auto simp: fd_fiber_ok_def)
  have none: "(fd, ?f, True) \<notin> A" for fd using d_ok_armed [OF K(5)] V by fastforce
  have "d_ok A (re_self s) (re_fd_owner s) (?V(?f \<mapsto> (FB_ZOMBIE, ef_park c, ef_reg_fd c, - 1)))"
    by (rule d_ok_fiber [OF K(5) V live new subset_refl]) (use none in blast)
  then have "reactor_ok A Q L ?s" using K(1,2) st' t' C by (simp add: reactor_ok_def vw_Some)
  moreover have "reactor_return_hook s = Some ?s" using C(2) by (simp add: reactor_return_hook_def Let_def)
  moreover have "frame s (?s\<lparr>re_zombie := re_zombie s\<rparr>)" using C(2) by (simp add: frame_def vw_Some)
  ultimately show thesis using that [of ?s] z by simp
qed

end

end
