(* ===== verification/Reactor_World.thy ===== *)
theory Reactor_World
  imports Reactor_Park
begin

text \<open>
  The reactor together with the world it runs in: the fiber pool over its backing allocator, the
  stacks over the kernel's mappings, the commands waiting in the ring. \<open>contract\<close> collects the
  environment's side: which registrations a kernel state holds, which regions are mapped, which blocks
  are out, and which of them are not the reactor's; \<open>c_stack_size\<close> is the size of every stack. Spawning a fiber and recycling a finished one are proved here to keep it all in order.
\<close>

section \<open>The world\<close>

record ('h, 'v, 'k) contract =
  c_regs :: "'k \<Rightarrow> regs"
  c_epfd :: int
  c_evfd :: int
  c_mapped :: "'v \<Rightarrow> u64 \<Rightarrow> nat option"
  c_vm_ok :: "'v \<Rightarrow> bool"
  c_page :: nat
  c_shift :: nat
  c_alloc :: "u64 \<Rightarrow> u64 \<Rightarrow> 'h \<Rightarrow> u64 \<times> 'h"
  c_free :: "u64 \<Rightarrow> u64 \<Rightarrow> u64 \<Rightarrow> 'h \<Rightarrow> 'h option"
  c_regions :: "'h \<Rightarrow> u64 \<Rightarrow> nat option"
  c_heap_ok :: "'h \<Rightarrow> bool"
  c_heap_rest :: "u64 \<Rightarrow> nat option"
  c_vm_rest :: "u64 \<Rightarrow> nat option"
  c_stack_size :: u64

text \<open>The environment meets its contracts, and a page has room for the smallest fiber stack.\<close>

locale reactor_world =
  reactor_env e "c_regs G" "c_epfd G" "c_evfd G" "c_mapped G" "c_vm_ok G" "c_page G" "c_shift G"
    "c_alloc G" "c_free G" "c_regions G" "c_heap_ok G"
  for e :: "('v, 'k) renv" and G :: "('h, 'v, 'k) contract" +
  assumes page_room: "8 \<le> c_shift G"

definition stk :: "blocks \<Rightarrow> u64 \<Rightarrow> cfiber_stack" where
  "stk F f = (case F f of Some c \<Rightarrow> ef_stack c | None \<Rightarrow> stack_null)"

text \<open>Every live fiber is a block of the pool and owns a stack; nothing else does, and every other block
  and mapping is as it was.\<close>

definition pools_ok :: "('h, 'v, 'k) contract \<Rightarrow> u64 list \<Rightarrow> ('h, 'v) cfiber_reactor \<Rightarrow> ('h, 'v, 'k) world \<Rightarrow> bool" where
  "pools_ok G L s w \<longleftrightarrow> c_heap_ok G (w_heap w) \<and>
     ms_inv (c_alloc G) (c_free G) (c_regions G (w_heap w)) (re_fibers s) \<and> ms_live (re_fibers s) = set L \<and>
     c_vm_ok G (w_vm w) \<and> ga_inv (c_page G) (c_mapped G (w_vm w)) (re_stacks s) (map (stk (re_blocks s)) L) \<and>
     ms_rest (c_regions G (w_heap w)) (re_fibers s) = c_heap_rest G \<and>
     ga_rest (c_mapped G (w_vm w)) (re_stacks s) (map (stk (re_blocks s)) L) = c_vm_rest G \<and>
     ga_self (re_stacks s) \<noteq> 0 \<and> ga_max_stack_size (re_stacks s) = c_stack_size G"

lemma pools_okD:
  assumes "pools_ok G L s w"
  shows "c_heap_ok G (w_heap w)" "ms_inv (c_alloc G) (c_free G) (c_regions G (w_heap w)) (re_fibers s)"
    "ms_live (re_fibers s) = set L" "c_vm_ok G (w_vm w)"
    "ga_inv (c_page G) (c_mapped G (w_vm w)) (re_stacks s) (map (stk (re_blocks s)) L)"
    "ms_rest (c_regions G (w_heap w)) (re_fibers s) = c_heap_rest G"
    "ga_rest (c_mapped G (w_vm w)) (re_stacks s) (map (stk (re_blocks s)) L) = c_vm_rest G"
    "ga_self (re_stacks s) \<noteq> 0" "ga_max_stack_size (re_stacks s) = c_stack_size G"
  using assms by (simp_all add: pools_ok_def)

definition world_ok ::
  "('h, 'v, 'k) contract \<Rightarrow> u64 list \<Rightarrow> u64 list \<Rightarrow> nat \<Rightarrow> cmd list \<Rightarrow> ('h, 'v, 'k) rstate \<Rightarrow> bool" where
  "world_ok G Q L n q st \<longleftrightarrow> (case st of (s, w) \<Rightarrow>
     reactor_ok (c_regs G (w_sys w)) Q L s \<and> pools_ok G L s w \<and> cmds_ok s n q \<and>
     re_epfd s = c_epfd G \<and> re_evfd s = c_evfd G \<and> re_self s \<noteq> 0)"

lemma world_okD:
  assumes "world_ok G Q L n q (s, w)"
  shows "reactor_ok (c_regs G (w_sys w)) Q L s" "pools_ok G L s w" "cmds_ok s n q" "re_epfd s = c_epfd G"
    "re_evfd s = c_evfd G" "re_self s \<noteq> 0"
  using assms by (simp_all add: world_ok_def)

lemma stk_view: "v_stack F' = v_stack F \<Longrightarrow> stk F' = stk F"
proof -
  have "stk F f = (case v_stack F f of Some x \<Rightarrow> x | None \<Rightarrow> stack_null)" for F f
    by (cases "F f") (simp_all add: stk_def vw_def)
  then show "v_stack F' = v_stack F \<Longrightarrow> stk F' = stk F" by (simp add: fun_eq_iff)
qed

lemma pools_ok_frame: "frame s s' \<Longrightarrow> quiet w w' \<Longrightarrow> pools_ok G L s' w' = pools_ok G L s w"
  using stk_view [of "re_blocks s'" "re_blocks s"] by (simp add: pools_ok_def frame_def quiet_def)

lemma cmds_ok_shrink: "cmds_ok s n q \<Longrightarrow> frame s s' \<Longrightarrow> cmds_ok s' n q"
  using dom_view [of ef_stack "re_blocks s'" "re_blocks s"] by (auto simp: frame_def intro: cmds_ok_frame)

lemma world_ok_step:
  assumes "world_ok G Q L n q (s, w)" and c: "frame s s'" "quiet w w'" "reactor_ok (c_regs G (w_sys w')) Q' L s'"
  shows "world_ok G Q' L n q (s', w')"
proof -
  note W = world_okD [OF assms(1)]
  show ?thesis
    using c W pools_ok_frame [OF c(1,2), of G L] cmds_ok_shrink [OF W(3) c(1)] by (simp add: world_ok_def frame_def)
qed

lemma world_ok_call:
  "world_ok G Q L n q (s, w) \<Longrightarrow> call_ok (c_regs G) Q' L (s, w) (s', w') \<Longrightarrow> world_ok G Q' L n q (s', w')"
  using world_ok_step [of G Q L n q s w s' w' Q'] by (simp add: call_ok_def)

lemma ga_inv_mset:
  assumes "mset outs = mset outs'"
  shows "ga_inv pg A ga outs = ga_inv pg A ga outs'"
proof -
  have "length outs = length outs'" using assms by (rule mset_eq_length)
  moreover have "distinct (map mem_base (ga_cache ga @ outs)) = distinct (map mem_base (ga_cache ga @ outs'))"
    using assms by (intro mset_eq_imp_distinct_iff) simp
  ultimately show ?thesis using mset_eq_setD [OF assms] by (simp add: ga_inv_def stacks_ok_def)
qed

section \<open>Recycling a finished fiber\<close>

text \<open>No registration, no entry, and no armed event names a block that is not a live fiber.\<close>

lemma d_ok_fresh:
  assumes d: "d_ok A self W V" and f: "\<And>x. V f = Some x \<Longrightarrow> fst x = FB_FREE"
    and new: "st = FB_FREE \<or> fd_fiber_ok W f (st, pk, r, wt)"
  shows "d_ok A self W (V(f \<mapsto> (st, pk, r, wt)))"
  unfolding d_ok_def
proof (intro conjI allI impI)
  show "length W < 2 ^ 60" using d by (simp add: d_ok_def)
next
  fix g x assume g: "(V(f \<mapsto> (st, pk, r, wt))) g = Some x" "fst x \<noteq> FB_FREE"
  then show "fd_fiber_ok W g x" using new d_ok_each [OF d, of g x] by (auto split: if_splits)
next
  fix i assume i: "i < length W" "W ! i \<noteq> 0"
  then obtain a b c where v: "V (W ! i) = Some (a, b, int i, c)" "a \<noteq> FB_FREE" using d by (auto simp: d_ok_def)
  then have "W ! i \<noteq> f" using f by fastforce
  then show "\<exists>a b c. (V(f \<mapsto> (st, pk, r, wt))) (W ! i) = Some (a, b, int i, c) \<and> a \<noteq> FB_FREE" using v by simp
next
  show "A \<subseteq> armed_by self (V(f \<mapsto> (st, pk, r, wt)))"
  proof
    fix x assume "x \<in> A"
    then have x: "x \<in> armed_by self V" using d by (auto simp: d_ok_def)
    obtain fd p one where e: "x = (fd, p, one)" by (cases x)
    have "V f \<noteq> Some (FB_PARKED, PARK_FD, fd, fd)" using f by fastforce
    then have "one \<Longrightarrow> p \<noteq> f" using x e by (auto simp: armed_by_def)
    then show "x \<in> armed_by self (V(f \<mapsto> (st, pk, r, wt)))" using x e by (auto simp: armed_by_def)
  qed
qed

context reactor_world
begin

lemma recycle_spec:
  assumes ok: "world_ok G Q L n q (s, w)" and z: "re_zombie s \<noteq> 0"
  obtains s' w' where "fiber_recycle e s (re_zombie s) w = Some (s', w')"
    "world_ok G Q (remove1 (re_zombie s) L) n q (s'\<lparr>re_zombie := 0\<rparr>, w')" "re_current s' = 0" "re_zombie s \<in> set L"
    "re_cmds s' = re_cmds s" "re_self s' = re_self s"
    "v_gen (re_blocks s') = (v_gen (re_blocks s))(re_zombie s \<mapsto>
       (ef_generation (the (re_blocks s (re_zombie s))) + 1, ef_wake_pending (the (re_blocks s (re_zombie s)))))"
    "v_state (re_blocks s') (re_zombie s) = Some FB_FREE"
proof -
  note W = world_okD [OF ok]
  note K = reactor_okD [OF W(1)]
  let ?f = "re_zombie s"
  have "?f \<in> in_st FB_ZOMBIE (re_blocks s)" using K(3) z by (simp add: states_ok_def ptr_set_def)
  then obtain c where c: "re_blocks s ?f = Some c" "ef_state c = FB_ZOMBIE" by (auto simp: in_st_iff)
  have cur: "re_current s = 0" using K(3) z by (simp add: states_ok_def)
  have fL: "?f \<in> set L" using live_in_L [OF K(3)] c by auto
  have live: "ef_state c \<noteq> FB_FREE" "ef_state c = FB_PARKED \<Longrightarrow> ef_wait_fd c = - 1" using c(2) by simp_all
  obtain s1 w1 where d: "detach_fd e s ?f w = Some (s1, w1)" "reactor_ok (c_regs G (w_sys w1)) Q L s1" "refd s s1"
    "calm (c_regs G) w w1" "re_blocks s1 ?f = Some (c\<lparr>ef_reg_fd := - 1\<rparr>)"
    by (rule detach_live [OF W(1,4) c(1) live])
  note K1 = reactor_okD [OF d(2)] and R = refd_fields [OF d(3)]
  obtain F h where l: "live_unlink s1 ?f = Some (s1\<lparr>re_live_head := h, re_blocks := F\<rparr>)" "dll (v_links F) h (remove1 ?f L)"
    "vw no_links F = vw no_links (re_blocks s1)"
    by (rule live_unlink_spec [OF K1(2) fL])
  note N = no_links_views [OF l(3)]
  obtain b where b: "F ?f = Some b"
    using d(5) dom_view [OF l(3)] by auto
  have bV: "ef_state b = FB_ZOMBIE" "ef_reg_fd b = - 1" "ef_stack b = stk (re_blocks s) ?f"
    using fun_cong [OF N(3), of ?f] fun_cong [OF N(4), of ?f] d(5) b c by (simp_all add: vw_def stk_def)
  have sk: "stk F = stk (re_blocks s)"
    using stk_view N(4) refd_views(4) [OF d(3)] by metis
  note P = pools_okD [OF W(2)]
  have w1: "w_heap w1 = w_heap w" "w_vm w1 = w_vm w" using d(4) by (simp_all add: calm_def)
  have so: "ef_stack b \<in> set (map (stk (re_blocks s)) L)" using bV(3) fL by simp
  obtain ga v1 where g: "cfiber_growable_stack_release (e_nd e) (e_vm e) (re_stacks s) (ef_stack b) (w_vm w) = Some (ga, stack_null, v1)"
    "c_vm_ok G v1" "ga_inv (c_page G) (c_mapped G v1) ga (remove1 (ef_stack b) (map (stk (re_blocks s)) L))"
    "ga_max_stack_size ga = ga_max_stack_size (re_stacks s)"
    "mem_base (ef_stack b) \<notin> mem_base ` set (remove1 (ef_stack b) (map (stk (re_blocks s)) L))" "ga_self ga = ga_self (re_stacks s)"
    "ga_rest (c_mapped G v1) ga (remove1 (ef_stack b) (map (stk (re_blocks s)) L)) =
      ga_rest (c_mapped G (w_vm w)) (re_stacks s) (map (stk (re_blocks s)) L)"
    by (rule v.growable_release_spec [OF P(4,5) so])
  obtain ms h1 where m: "cfiber_multislab_release (e_nd e) (re_fibers s) ?f (w_heap w) = Some (ms, h1)" "c_heap_ok G h1"
    "ms_inv (c_alloc G) (c_free G) (c_regions G h1) ms" "ms_live ms = ms_live (re_fibers s) - {?f}"
    "ms_rest (c_regions G h1) ms = ms_rest (c_regions G (w_heap w)) (re_fibers s)"
    by (rule h.release_spec [OF P(1,2)]) (use fL P(3) in auto)
  let ?b = "b\<lparr>ef_stack := stack_null, ef_generation := ef_generation b + 1, ef_state := FB_FREE\<rparr>"
  let ?s' = "s1\<lparr>re_live_head := h, re_blocks := F(?f \<mapsto> ?b), re_stacks := ga, re_fibers := ms\<rparr>"
  let ?w' = "w1\<lparr>w_vm := v1, w_heap := h1\<rparr>"
  have run: "fiber_recycle e s ?f w = Some (?s', ?w')"
    using d(1) l(1) b g(1) m(1) R w1 by (simp add: fiber_recycle_def fiber_repool_def)
  let ?L = "remove1 ?f L"
  have dist: "distinct L" by (rule dll_distinct [OF K(2)])
  have S: "v_state (re_blocks ?s') = (v_state (re_blocks s1))(?f \<mapsto> FB_FREE)" using N(2) by simp
  have ins: "in_st x (re_blocks ?s') = (if x = FB_FREE then insert ?f (in_st x (re_blocks s1)) else in_st x (re_blocks s1) - {?f})" for x
    using S by (auto simp: in_st_def)
  have fr: "?f \<in> in_st x (re_blocks s1) \<longleftrightarrow> x = FB_ZOMBIE" for x using d(5) c by (auto simp: in_st_iff)
  have dm: "dom (re_blocks ?s') = dom (re_blocks s1)" using dom_view [OF l(3)] d(5) by auto
  have st': "states_ok (?s'\<lparr>re_zombie := 0\<rparr>) Q ?L"
  proof -
    have "in_st FB_ZOMBIE (re_blocks ?s') = {}" using ins [of FB_ZOMBIE] K1(3) R(5) z by (auto simp: states_ok_def ptr_set_def)
    moreover have "in_st x (re_blocks ?s') = in_st x (re_blocks s1)" if "x = FB_PARKED \<or> x = FB_RUNNING \<or> x = FB_READY" for x
      using ins [of x] fr [of x] that by auto
    moreover have "F 0 = None" using fun_cong [OF l(3), of 0] K1(3) unfolding states_ok_def by (metis vw_None)
    moreover have "set ?L = dom (re_blocks ?s') - in_st FB_FREE (re_blocks ?s')"
      using K1(3) dm ins [of FB_FREE] dist by (auto simp: states_ok_def)
    moreover have "length L = Suc (length ?L)" using fL length_pos_if_in_set [OF fL] by (simp add: length_remove1)
    ultimately show ?thesis using K1(3) R(4,5) z cur by (simp add: states_ok_def ptr_set_def)
  qed
  have T: "v_time F = v_time (re_blocks s1)" by (rule N(5))
  have t': "t_ok (?s'\<lparr>re_zombie := 0\<rparr>)"
    unfolding t_ok_def
  proof (intro conjI allI impI)
    have "timers_ok (?s'\<lparr>re_zombie := 0\<rparr>) = timers_ok s1"
      by (rule timers_ok_cong) (use T b in \<open>auto simp: vw_def fun_eq_iff\<close>)
    then show "timers_ok (?s'\<lparr>re_zombie := 0\<rparr>)" using K1(4) by (simp add: t_ok_def)
    show "set (re_heap (?s'\<lparr>re_zombie := 0\<rparr>)) \<subseteq> in_st FB_PARKED (re_blocks (?s'\<lparr>re_zombie := 0\<rparr>))"
      using K1(4) ins [of FB_PARKED] fr [of FB_PARKED] by (simp add: t_ok_def)
    fix g x assume g: "re_blocks (?s'\<lparr>re_zombie := 0\<rparr>) g = Some x" "ef_state x \<noteq> FB_FREE" "g \<notin> set (re_heap (?s'\<lparr>re_zombie := 0\<rparr>))"
    then have "g \<noteq> ?f" and Fg: "F g = Some x" by (auto split: if_splits)
    obtain x0 where x0: "re_blocks s1 g = Some x0" using Fg dom_view [OF l(3)] by auto
    have "ef_timer_i x = ef_timer_i x0" "ef_state x = ef_state x0"
      using fun_cong [OF T, of g] fun_cong [OF N(2), of g] Fg x0 by (simp_all add: vw_def)
    then show "ef_timer_i x = NO_TIMER" using K1(4) x0 g(2,3) by (simp add: t_ok_def)
  qed
  have V: "v_fd (re_blocks s1) ?f = Some (FB_ZOMBIE, ef_park b, - 1, ef_wait_fd b)"
    using fun_cong [OF N(3), of ?f] b bV by (simp add: vw_def)
  have d': "d_ok (c_regs G (w_sys w1)) (re_self s1) (re_fd_owner s1) (v_fd (re_blocks ?s'))"
  proof -
    have z1: "FB_ZOMBIE \<noteq> FB_FREE" "FB_FREE \<noteq> FB_PARKED \<or> ef_wait_fd b = - 1" by simp_all
    have new: "fd_fiber_ok (re_fd_owner s1) ?f (FB_FREE, ef_park b, - 1, ef_wait_fd b)" by (simp add: fd_fiber_ok_def)
    have none: "(fd, ?f, True) \<notin> c_regs G (w_sys w1)" for fd using d_ok_armed [OF K1(5)] V by fastforce
    have "d_ok (c_regs G (w_sys w1)) (re_self s1) (if - 1 = (- 1 :: int) then re_fd_owner s1 else (re_fd_owner s1)[nat (- 1) := 0])
        ((v_fd (re_blocks s1))(?f \<mapsto> (FB_FREE, ef_park b, - 1, ef_wait_fd b)))"
      by (rule d_ok_clear [OF K1(5) V z1(1) z new z1(2) subset_refl none])
    then show ?thesis using N(3) bV by simp
  qed
  have q': "fifo (v_next (re_blocks ?s')) (re_ready_head s1) (re_ready_tail s1) Q"
  proof -
    have "v_next (re_blocks ?s') = v_next F" using b by (simp add: vw_Some)
    then show ?thesis using K1(1) N(1) by simp
  qed
  have l': "dll (v_links (re_blocks ?s')) h ?L" using l(2) b by (simp add: vw_Some)
  have rok: "reactor_ok (c_regs G (w_sys ?w')) Q ?L (?s'\<lparr>re_zombie := 0\<rparr>)"
    using q' l' st' t' d' by (simp add: reactor_ok_def)
  have pools: "pools_ok G ?L (?s'\<lparr>re_zombie := 0\<rparr>) ?w'"
  proof -
    have "map (stk (F(?f \<mapsto> ?b))) ?L = map (stk F) ?L" using dist by (auto simp: stk_def)
    moreover have "mset (map (stk F) ?L) = mset (remove1 (ef_stack b) (map (stk (re_blocks s)) L))"
      using fL bV(3) sk by (simp add: image_mset_Diff)
    ultimately have e: "mset (map (stk (F(?f \<mapsto> ?b))) ?L) = mset (remove1 (ef_stack b) (map (stk (re_blocks s)) L))" by metis
    have "ga_inv (c_page G) (c_mapped G v1) ga (map (stk (F(?f \<mapsto> ?b))) ?L)" using g(3) ga_inv_mset [OF e] by blast
    moreover have "ga_rest (c_mapped G v1) ga (map (stk (F(?f \<mapsto> ?b))) ?L) = c_vm_rest G"
      using g(7) P(7) ga_rest_cong [of ga _ ga] mset_eq_setD [OF e] by (metis set_append)
    ultimately show ?thesis using m(2-5) g(2,4,6) P(3,6,8,9) dist by (simp add: pools_ok_def)
  qed
  have cm: "cmds_ok (?s'\<lparr>re_zombie := 0\<rparr>) n q"
    by (rule cmds_ok_frame [OF W(3)]) (use R(13) dm refd_views(3) [OF d(3)] dom_view [of ef_state "re_blocks s1" "re_blocks s"] in auto)
  have "world_ok G Q ?L n q (?s'\<lparr>re_zombie := 0\<rparr>, ?w')"
    using rok pools cm W(4-6) R(10-12) by (simp add: world_ok_def)
  moreover have "v_gen (re_blocks ?s') = (v_gen (re_blocks s))(?f \<mapsto> (ef_generation c + 1, ef_wake_pending c))"
  proof -
    have "(ef_generation b, ef_wake_pending b) = (ef_generation c, ef_wake_pending c)"
      using fun_cong [OF N(6), of ?f] d(5) b by (simp add: vw_def)
    then show ?thesis using N(6) refd_views(6) [OF d(3)] by simp
  qed
  ultimately show thesis using that run cur fL R(4,10,13) c(1) by simp
qed

end
section \<open>Spawning\<close>

text \<open>A block of the pool that is not a live fiber may hold anything.\<close>

lemma free_block_ok:
  assumes ok: "reactor_ok A Q L s" and f: "f \<notin> set L" "f \<noteq> 0" "ef_state c = FB_FREE"
  shows "reactor_ok A Q L (s\<lparr>re_blocks := (re_blocks s)(f \<mapsto> c)\<rparr>)"
proof -
  note K = reactor_okD [OF ok]
  let ?s = "s\<lparr>re_blocks := (re_blocks s)(f \<mapsto> c)\<rparr>"
  have free: "ef_state b = FB_FREE" if "re_blocks s f = Some b" for b using live_in_L [OF K(3), of f] f(1) that by auto
  then have nst: "f \<notin> in_st x (re_blocks s)" if "x \<noteq> FB_FREE" for x using that by (auto simp: in_st_iff)
  have ins: "in_st x (re_blocks ?s) = (if x = FB_FREE then insert f (in_st x (re_blocks s)) else in_st x (re_blocks s))" for x
    using nst [of x] f(3) by (auto simp: in_st_def vw_def)
  have nq: "f \<notin> set Q" "f \<notin> set (re_heap s)"
    using K(3,4) nst by (auto simp: states_ok_def t_ok_def)
  have same: "vw g (re_blocks ?s) x = vw g (re_blocks s) x" if "x \<noteq> f" for g :: "ev_fiber \<Rightarrow> 'x" and x
    using that by simp
  have "fifo (v_next (re_blocks ?s)) (re_ready_head s) (re_ready_tail s) Q = fifo (v_next (re_blocks s)) (re_ready_head s) (re_ready_tail s) Q"
    by (rule fifo_frame) (use nq(1) in \<open>auto intro!: same\<close>)
  then have "fifo (v_next (re_blocks ?s)) (re_ready_head ?s) (re_ready_tail ?s) Q" using K(1) by simp
  moreover have "dll (v_links (re_blocks ?s)) (re_live_head s) L = dll (v_links (re_blocks s)) (re_live_head s) L"
    by (rule dll_frame) (use f(1) in \<open>auto intro!: same\<close>)
  then have "dll (v_links (re_blocks ?s)) (re_live_head ?s) L" using K(2) by simp
  moreover have "states_ok ?s Q L" using K(3) ins f(1,2) by (auto simp: states_ok_def)
  moreover have "t_ok ?s"
    unfolding t_ok_def
  proof (intro conjI allI impI)
    have "timers_ok ?s = timers_ok s" by (rule timers_ok_cong) (use nq in auto)
    then show "timers_ok ?s" using K(4) by (simp add: t_ok_def)
    show "set (re_heap ?s) \<subseteq> in_st FB_PARKED (re_blocks ?s)" using K(4) ins by (simp add: t_ok_def)
    fix g b assume "re_blocks ?s g = Some b" "ef_state b \<noteq> FB_FREE" "g \<notin> set (re_heap ?s)"
    then show "ef_timer_i b = NO_TIMER" using K(4) f(3) by (auto simp: t_ok_def split: if_splits)
  qed
  moreover have "d_ok A (re_self s) (re_fd_owner s) ((v_fd (re_blocks s))(f \<mapsto> (FB_FREE, ef_park c, ef_reg_fd c, ef_wait_fd c)))"
    by (rule d_ok_fresh [OF K(5)]) (use free in \<open>auto simp: vw_def\<close>)
  ultimately show ?thesis using f(3) by (simp add: reactor_ok_def)
qed

text \<open>A prepared block becomes a ready fiber.\<close>

lemma start_ok:
  assumes ok: "reactor_ok A Q L s" and f: "f \<notin> set L" "f \<noteq> 0" "re_blocks s f = Some c" "ef_state c = FB_FREE"
    and new: "ef_reg_fd c = - 1" "ef_wait_fd c = - 1" "ef_timer_i c = NO_TIMER"
  obtains s1 s2 where "live_link s f = Some s1" "enqueue s1 f = Some s2"
    "reactor_ok A (Q @ [f]) (f # L) (s2\<lparr>re_active := re_active s2 + 1\<rparr>)"
    "frame s s2" "re_current s2 = re_current s" "v_gen (re_blocks s2) = v_gen (re_blocks s)" "re_active s2 = re_active s"
    "vw ef_wait_fd (re_blocks s2) = vw ef_wait_fd (re_blocks s)" "vw ef_fiber (re_blocks s2) = vw ef_fiber (re_blocks s)"
proof -
  note K = reactor_okD [OF ok]
  have nst: "f \<notin> in_st x (re_blocks s)" if "x \<noteq> FB_FREE" for x using that f(3,4) by (auto simp: in_st_iff)
  have nq: "f \<notin> set Q" using K(3) nst by (auto simp: states_ok_def)
  have nn: "re_blocks s f \<noteq> None" using f(3) by simp
  obtain F1 where l: "live_link s f = Some (s\<lparr>re_live_head := f, re_blocks := F1\<rparr>)" "dll (v_links F1) f (f # L)"
    "vw no_links F1 = vw no_links (re_blocks s)" by (rule live_link_spec [OF K(2) f(1,2) nn])
  let ?s1 = "s\<lparr>re_live_head := f, re_blocks := F1\<rparr>"
  note N1 = no_links_views [OF l(3)]
  have q1: "fifo (v_next (re_blocks ?s1)) (re_ready_head ?s1) (re_ready_tail ?s1) Q" using K(1) N1(1) by simp
  obtain c1 where c1: "re_blocks ?s1 f = Some c1" using dom_view [OF l(3)] f(3) by auto
  obtain F h t where q: "enqueue ?s1 f = Some (?s1\<lparr>re_ready_head := h, re_ready_tail := t, re_blocks := F\<rparr>)"
    "fifo (v_next F) h t (Q @ [f])" "vw no_next F = vw no_next ((re_blocks ?s1)(f \<mapsto> c1\<lparr>ef_state := FB_READY\<rparr>))"
    by (rule enqueue_spec [OF q1 nq f(2) c1])
  let ?s2 = "?s1\<lparr>re_ready_head := h, re_ready_tail := t, re_blocks := F\<rparr>"
  let ?s = "?s2\<lparr>re_active := re_active ?s2 + 1\<rparr>"
  note N2 = no_next_views [OF q(3)]
  have S: "v_state F = (v_state (re_blocks s))(f \<mapsto> FB_READY)" using N2(2) N1(2) by simp
  have keep: "v_links F = v_links F1" "v_stack F = v_stack (re_blocks s)" "v_time F = v_time (re_blocks s)"
    "v_gen F = v_gen (re_blocks s)"
  proof -
    show "v_links F = v_links F1" using N2(1) c1 by (simp add: vw_Some)
    have "v_stack F = v_stack F1" "v_time F = v_time F1" "v_gen F = v_gen F1" using N2(4,5,6) c1 by (simp_all add: vw_Some)
    then show "v_stack F = v_stack (re_blocks s)" "v_time F = v_time (re_blocks s)" "v_gen F = v_gen (re_blocks s)"
      using N1(4,5,6) by simp_all
  qed
  have ins: "in_st x F = (if x = FB_READY then insert f (in_st x (re_blocks s)) else in_st x (re_blocks s) - {f})" for x
    using S by (auto simp: in_st_def)
  have dm: "dom F = dom (re_blocks s)" using dom_view [OF q(3)] dom_view [OF l(3)] f(3) by auto
  have st: "states_ok ?s (Q @ [f]) (f # L)"
  proof -
    have "in_st x F = in_st x (re_blocks s)" if "x = FB_PARKED \<or> x = FB_RUNNING \<or> x = FB_ZOMBIE" for x
      using ins [of x] nst [of x] that by auto
    moreover have "set (f # L) = dom F - in_st FB_FREE F" using K(3) dm ins [of FB_FREE] f(3) by (auto simp: states_ok_def)
    moreover have "F 0 = None" using dm K(3) by (auto simp: states_ok_def)
    moreover have "in_st FB_READY F = insert f (in_st FB_READY (re_blocks s))" using ins by simp
    ultimately show ?thesis using K(3) by (simp add: states_ok_def)
  qed
  have t: "t_ok ?s"
    unfolding t_ok_def
  proof (intro conjI allI impI)
    have "timers_ok ?s = timers_ok s" by (rule timers_ok_cong) (simp_all add: keep)
    then show "timers_ok ?s" using K(4) by (simp add: t_ok_def)
    show "set (re_heap ?s) \<subseteq> in_st FB_PARKED (re_blocks ?s)"
      using K(4) ins [of FB_PARKED] nst [of FB_PARKED] by (simp add: t_ok_def)
    fix g b assume g: "re_blocks ?s g = Some b" "ef_state b \<noteq> FB_FREE" "g \<notin> set (re_heap ?s)"
    then have Fg: "F g = Some b" by simp
    obtain b0 where b0: "re_blocks s g = Some b0" using Fg dm by auto
    have "ef_timer_i b = ef_timer_i b0" using fun_cong [OF keep(3), of g] Fg b0 by (simp add: vw_def)
    moreover have "ef_state b0 \<noteq> FB_FREE" if "g \<noteq> f"
      using fun_cong [OF S, of g] Fg b0 g(2) that by (simp add: vw_def)
    ultimately show "ef_timer_i b = NO_TIMER"
      using K(4) b0 g(3) f(3) new(3) by (cases "g = f") (simp_all add: t_ok_def)
  qed
  have "d_ok A (re_self s) (re_fd_owner s) ((v_fd (re_blocks s))(f \<mapsto> (FB_READY, ef_park c, - 1, - 1)))"
    by (rule d_ok_fresh [OF K(5)]) (use f(3,4) in \<open>auto simp: vw_def fd_fiber_ok_def\<close>)
  moreover have "v_fd F = (v_fd (re_blocks s))(f \<mapsto> (FB_READY, ef_park c, - 1, - 1))"
  proof -
    have "(ef_state c1, ef_park c1, ef_reg_fd c1, ef_wait_fd c1) = (ef_state c, ef_park c, ef_reg_fd c, ef_wait_fd c)"
      using fun_cong [OF N1(3), of f] c1 f(3) by (simp add: vw_def)
    then show ?thesis using N2(3) N1(3) new by simp
  qed
  ultimately have rok: "reactor_ok A (Q @ [f]) (f # L) ?s" using q(2) l(2) keep(1) st t by (simp add: reactor_ok_def)
  have same: "vw k F = vw k (re_blocks s)"
    if k: "\<And>b. k (no_next b) = k b" "\<And>b. k (no_links b) = k b" "k (c1\<lparr>ef_state := FB_READY\<rparr>) = k c1" for k :: "ev_fiber \<Rightarrow> 'z"
  proof -
    have "vw k F = vw k ((re_blocks ?s1)(f \<mapsto> c1\<lparr>ef_state := FB_READY\<rparr>))"
      by (rule vw_cong [OF q(3), where k = k]) (metis k(1))
    also have "\<dots> = vw k F1" using c1 k(3) by (simp add: vw_Some)
    also have "\<dots> = vw k (re_blocks s)" by (rule vw_cong [OF l(3), where k = k]) (metis k(2))
    finally show ?thesis .
  qed
  have "vw ef_wait_fd F = vw ef_wait_fd (re_blocks s)" "vw ef_fiber F = vw ef_fiber (re_blocks s)"
    by (rule same; simp add: no_next_def no_links_def)+
  then show thesis using that [OF l(1) q(1)] rok keep by (simp add: frame_def)
qed
lemma stk_upd [simp]: "stk (F(f \<mapsto> c)) g = (if g = f then ef_stack c else stk F g)"
  by (simp add: stk_def)

context reactor_world
begin

text \<open>The stack of a fiber has room for its first frame.\<close>

lemma stack_room:
  assumes v: "c_vm_ok G v" and inv: "ga_inv (c_page G) (c_mapped G v) ga (st # outs)"
  shows "fiber_stack_ok (c\<lparr>fb_stack := usable_base st, fb_stack_size := cfiber_stack_usable_size st\<rparr>)" "mem_base st \<noteq> 0"
proof -
  have i: "growable_max_ok (c_page G) (ga_max_stack_size ga)" "growable_stack_at (c_page G) (ga_max_stack_size ga) st"
    "c_mapped G v (mem_base st) = Some (unat (total_size st))" using inv by (auto simp: ga_inv_def stacks_ok_def)
  note g = i(2) [unfolded growable_stack_at_def]
  show "mem_base st \<noteq> 0" using g by simp
  have pg: "256 \<le> c_page G"
  proof -
    have "(2 :: nat) ^ 8 \<le> 2 ^ c_shift G" using page_room by (intro power_increasing) simp_all
    then show ?thesis using v.page_range(1) by simp
  qed
  have "c_page G \<le> unat (ga_max_stack_size ga)" using i(1) by (auto simp: growable_max_ok_def intro: dvd_imp_le)
  moreover have "unat (cfiber_stack_usable_size st) = unat (ga_max_stack_size ga)"
    by (rule v.growable_valid(2) [OF i(2)]) (rule unat_lt64)
  moreover have "unat (mem_base st) + unat (total_size st) < 2 ^ 64" using v.region_in_space [OF v i(3)] by simp
  moreover have "usable_base st \<noteq> 0"
  proof
    assume "usable_base st = 0"
    then have "unat (mem_base st) + c_page G = 0" using g by simp
    then show False using pg by simp
  qed
  ultimately show "fiber_stack_ok (c\<lparr>fb_stack := usable_base st, fb_stack_size := cfiber_stack_usable_size st\<rparr>)"
    using g pg by (simp add: fiber_stack_ok_def)
qed

lemma spawn_spec:
  assumes ok: "world_ok G Q L n q (s, w)"
  obtains
    (failed) s' w' where "spawn_locked e s fn arg out w = Some (False, out, s', w')" "world_ok G Q L n q (s', w')"
      "re_current s' = re_current s" "re_zombie s' = re_zombie s" "re_self s' = re_self s" "w_sys w' = w_sys w"
      "\<And>f. f \<in> set L \<Longrightarrow> re_blocks s' f = re_blocks s f"
  | (spawned) f c s' w' where "spawn_locked e s fn arg out w =
        Some (True, map_option (\<lambda>_. \<lparr>h_f = f, h_gen = ef_generation c\<rparr>) out, s', w')"
      "world_ok G (Q @ [f]) (f # L) n q (s', w')" "f \<notin> set L" "re_blocks s' f = Some c"
      "re_current s' = re_current s" "re_zombie s' = re_zombie s" "re_self s' = re_self s" "w_sys w' = w_sys w"
      "\<not> ef_wake_pending c"
      "ef_generation c = (case re_blocks s f of None \<Rightarrow> 0 | Some b \<Rightarrow> ef_generation b)" "ef_wait_fd c = - 1"
      "\<exists>fb. fiber_stack_ok fb \<and> fb_stack fb = usable_base (ef_stack c) \<and> fb_stack_size fb = cfiber_stack_usable_size (ef_stack c) \<and>
         cfiber_init (e_nd e) (e_prologue e) (e_creator e) fb fn arg (w_bytes w) = Some (ef_fiber c, w_bytes w')"
proof -
  note W = world_okD [OF ok]
  note P = pools_okD [OF W(2)]
  obtain f ms h1 where a: "cfiber_multislab_alloc (e_nd e) (re_fibers s) (w_heap w) = Some (f, ms, h1)" "c_heap_ok G h1"
    "ms_inv (c_alloc G) (c_free G) (c_regions G h1) ms" "f = 0 \<Longrightarrow> ms_live ms = ms_live (re_fibers s)"
    "f \<noteq> 0 \<Longrightarrow> f \<notin> ms_live (re_fibers s) \<and> ms_live ms = insert f (ms_live (re_fibers s))"
    "ms_rest (c_regions G h1) ms = ms_rest (c_regions G (w_heap w)) (re_fibers s)"
    by (rule h.alloc_spec [OF P(1,2), where nd = "e_nd e"]) blast
  show thesis
  proof (cases "f = 0")
    case True
    let ?s = "s\<lparr>re_fibers := ms\<rparr>" and ?w = "w\<lparr>w_heap := h1\<rparr>"
    have "reactor_ok (c_regs G (w_sys w)) Q L ?s"
      using W(1) by (simp add: reactor_ok_def states_ok_def t_ok_def timers_ok_def)
    then have "world_ok G Q L n q (?s, ?w)"
      using W True a P by (simp add: world_ok_def pools_ok_def cmds_ok_def cmd_ok_def)
    moreover have "spawn_locked e s fn arg out w = Some (False, out, ?s, ?w)"
      using a(1) True by (simp add: spawn_locked_def fiber_obtain_def)
    ultimately show thesis using failed by simp
  next
    case f0: False
    then have fL: "f \<notin> set L" "ms_live ms = insert f (set L)" using a(5) P(3) by simp_all
    let ?gen = "case re_blocks s f of None \<Rightarrow> 0 | Some b \<Rightarrow> ef_generation b"
    let ?z = "ev_fiber_zero\<lparr>ef_generation := ?gen\<rparr>"
    let ?s0 = "s\<lparr>re_fibers := ms, re_blocks := (re_blocks s)(f \<mapsto> ?z)\<rparr>" and ?w0 = "w\<lparr>w_heap := h1\<rparr>"
    have z: "ef_state ?z = FB_FREE" by (simp add: ev_fiber_zero_def)
    have ob: "fiber_obtain e s w = Some (f, ?s0, ?w0)"
      using a(1) f0 by (simp add: fiber_obtain_def ev_fiber_zero_def split: option.split)
    have stks: "map (stk ((re_blocks s)(f \<mapsto> c))) L = map (stk (re_blocks s)) L" for c using fL(1) by auto
    have base: "reactor_ok (c_regs G (w_sys w)) Q L (s\<lparr>re_fibers := m, re_stacks := g, re_blocks := (re_blocks s)(f \<mapsto> c)\<rparr>)"
      if "ef_state c = FB_FREE" for c m g
      using free_block_ok [OF W(1) fL(1) f0 that] by (simp add: reactor_ok_def states_ok_def t_ok_def timers_ok_def)
    have frees: "cmds_ok (s\<lparr>re_fibers := m, re_stacks := g, re_blocks := (re_blocks s)(f \<mapsto> c)\<rparr>) n q" for c m g
      by (rule cmds_ok_frame [OF W(3)]) auto
    from P(4,5) show thesis
    proof (cases rule: v.growable_alloc_spec)
      case (failed v1)
      obtain ms2 h2 where m: "cfiber_multislab_release (e_nd e) ms f h1 = Some (ms2, h2)" "c_heap_ok G h2"
        "ms_inv (c_alloc G) (c_free G) (c_regions G h2) ms2" "ms_live ms2 = ms_live ms - {f}"
        "ms_rest (c_regions G h2) ms2 = ms_rest (c_regions G h1) ms"
        by (rule h.release_spec [OF a(2,3)]) (use fL in auto)
      let ?c = "?z\<lparr>ef_stack := stack_null, ef_generation := ?gen + 1, ef_state := FB_FREE\<rparr>"
      let ?s' = "s\<lparr>re_fibers := ms2, re_stacks := re_stacks s, re_blocks := (re_blocks s)(f \<mapsto> ?c)\<rparr>"
      let ?w' = "w\<lparr>w_heap := h2, w_vm := v1\<rparr>"
      have "ms_live ms2 = set L" using m(4) fL by auto
      moreover have "ga_inv (c_page G) (c_mapped G v1) (re_stacks s) (map (stk ((re_blocks s)(f \<mapsto> ?c))) L)"
        unfolding stks by (rule failed(4))
      moreover have "ga_rest (c_mapped G v1) (re_stacks s) (map (stk ((re_blocks s)(f \<mapsto> ?c))) L) = c_vm_rest G"
        unfolding stks failed(3) by (rule P(7))
      ultimately have "pools_ok G L ?s' ?w'" using m(2,3,5) failed(2) a(6) P(6,8,9) by (simp add: pools_ok_def)
      moreover have "reactor_ok (c_regs G (w_sys w)) Q L ?s'" by (rule base) simp
      moreover have "cmds_ok ?s' n q" by (rule frees)
      ultimately have "world_ok G Q L n q (?s', ?w')" using W(4-6) by (simp add: world_ok_def)
      note wok = this
      have run: "spawn_locked e s fn arg out w = Some (False, out, ?s', ?w')"
        using f0 failed(1) m(1) by (simp add: spawn_locked_def ob fiber_repool_def stack_null_def)
      show thesis by (rule that(1) [OF run wok]) (use fL(1) in auto)
    next
      case (got st ga v1)
      let ?fb = "(ef_fiber ?z)\<lparr>fb_stack := usable_base st, fb_stack_size := cfiber_stack_usable_size st\<rparr>"
      have room: "fiber_stack_ok ?fb" "mem_base st \<noteq> 0" by (rule stack_room [OF got(2,3)])+
      obtain fb bs where i: "cfiber_init (e_nd e) (e_prologue e) (e_creator e) ?fb fn arg (w_bytes w) = Some (fb, bs)"
        by (rule cfiber_init_spec [OF room(1), where nd = "e_nd e" and prologue = "e_prologue e" and c = "e_creator e"
            and func = fn and ud = arg and m = "w_bytes w"])
      let ?c = "?z\<lparr>ef_stack := st, ef_reg_fd := - 1, ef_wait_fd := - 1, ef_timer_i := NO_TIMER, ef_fiber := fb\<rparr>"
      let ?s1 = "s\<lparr>re_fibers := ms, re_stacks := ga, re_blocks := (re_blocks s)(f \<mapsto> ?c)\<rparr>"
      have ok1: "reactor_ok (c_regs G (w_sys w)) Q L ?s1" by (rule base) (use z in simp)
      have c1: "re_blocks ?s1 f = Some ?c" "ef_state ?c = FB_FREE" "ef_reg_fd ?c = - 1" "ef_wait_fd ?c = - 1"
        "ef_timer_i ?c = NO_TIMER" using z by simp_all
      obtain s2 s3 where r: "live_link ?s1 f = Some s2" "enqueue s2 f = Some s3"
        "reactor_ok (c_regs G (w_sys w)) (Q @ [f]) (f # L) (s3\<lparr>re_active := re_active s3 + 1\<rparr>)"
        "frame ?s1 s3" "re_current s3 = re_current ?s1" "v_gen (re_blocks s3) = v_gen (re_blocks ?s1)"
        "re_active s3 = re_active ?s1" "vw ef_wait_fd (re_blocks s3) = vw ef_wait_fd (re_blocks ?s1)"
        "vw ef_fiber (re_blocks s3) = vw ef_fiber (re_blocks ?s1)"
        by (rule start_ok [OF ok1 fL(1) f0 c1])
      let ?s' = "s3\<lparr>re_active := re_active s3 + 1\<rparr>"
      let ?w' = "w\<lparr>w_heap := h1, w_vm := v1, w_bytes := bs\<rparr>"
      obtain c3 where c3: "re_blocks s3 f = Some c3" "ef_generation c3 = ?gen" "\<not> ef_wake_pending c3" "ef_wait_fd c3 = - 1"
        using fun_cong [OF r(6), of f] fun_cong [OF r(8), of f] by (cases "re_blocks s3 f") (auto simp: vw_def ev_fiber_zero_def)
      have "stk (re_blocks s3) = stk (re_blocks ?s1)" by (rule stk_view) (use r(4) in \<open>simp add: frame_def\<close>)
      then have sk: "map (stk (re_blocks s3)) L = map (stk ((re_blocks s)(f \<mapsto> ?c))) L" "stk (re_blocks s3) f = st" by simp_all
      from sk have "map (stk (re_blocks s3)) (f # L) = st # map (stk (re_blocks s)) L" unfolding stks by (simp only: list.map)
      then have "ga_inv (c_page G) (c_mapped G v1) ga (map (stk (re_blocks s3)) (f # L))" "ga_rest (c_mapped G v1) ga (map (stk (re_blocks s3)) (f # L)) = c_vm_rest G"
        using got(3,6) P(7) by (simp_all only:)
      then have "pools_ok G (f # L) ?s' ?w'" using a(2,3,6) fL(2) got(2,4,5) r(4) P(6,8,9) by (simp add: pools_ok_def frame_def)
      moreover have "cmds_ok ?s' n q"
        by (rule cmds_ok_frame [OF frees]) (use r(4) dom_view [of ef_stack "re_blocks s3" "re_blocks ?s1"] in \<open>auto simp: frame_def\<close>)
      ultimately have "world_ok G (Q @ [f]) (f # L) n q (?s', ?w')"
        using r(3,4) W(4-6) by (simp add: world_ok_def frame_def)
      moreover have "spawn_locked e s fn arg out w =
          Some (True, map_option (\<lambda>_. \<lparr>h_f = f, h_gen = ef_generation c3\<rparr>) out, ?s', ?w')"
        using f0 got(1) room(2) i r(1,2) c3(1) by (simp add: spawn_locked_def ob cong: bind_weak_cong)
      moreover have "\<exists>fb. fiber_stack_ok fb \<and> fb_stack fb = usable_base (ef_stack c3) \<and>
          fb_stack_size fb = cfiber_stack_usable_size (ef_stack c3) \<and>
          cfiber_init (e_nd e) (e_prologue e) (e_creator e) fb fn arg (w_bytes w) = Some (ef_fiber c3, bs)"
      proof (intro exI conjI)
        have "ef_fiber c3 = fb" using fun_cong [OF r(9), of f] c3(1) by (simp add: vw_def)
        then show "cfiber_init (e_nd e) (e_prologue e) (e_creator e) ?fb fn arg (w_bytes w) = Some (ef_fiber c3, bs)" using i by simp
        have "ef_stack c3 = st" using sk(2) c3(1) by (simp add: stk_def)
        then show "fb_stack ?fb = usable_base (ef_stack c3)" "fb_stack_size ?fb = cfiber_stack_usable_size (ef_stack c3)" by simp_all
      qed (rule room(1))
      ultimately show thesis using spawned [of f c3 ?s' ?w'] fL(1) c3 r(4,5) by (simp add: frame_def)
    qed
  qed
qed

end

end
