(* ===== verification/Reactor_System.thy ===== *)
theory Reactor_System
  imports Reactor_World
begin

text \<open>
  The whole system as moves (\<open>reactor_move\<close>): of the loop, of the running fiber, of other threads.
  \<open>system_ok\<close> is its invariant; from a state in which it holds every move that is due can be made, and
  leads to such a state. \<open>legal\<close> is what the client owes: handles come from the reactor, descriptors
  are C ints, and a fiber that was resumed in a wait finishes the wait before anything else.
\<close>

section \<open>Dispatching\<close>

lemma dispatch_fiber:
  assumes ok: "reactor_ok A (f # Q) L s" and idle: "re_current s = 0" "re_zombie s = 0"
  obtains s1 s2 where "dequeue s = Some (f, s1)" "enter_fiber s1 f = Some s2" "reactor_ok A Q L s2" "frame s s2"
    "re_current s2 = f" "f \<noteq> 0" "re_heap s2 = re_heap s" "v_gen (re_blocks s2) = v_gen (re_blocks s)"
    "vw ef_wait_fd (re_blocks s2) = vw ef_wait_fd (re_blocks s)"
    "vw ef_wait_status (re_blocks s2) = vw ef_wait_status (re_blocks s)"
proof -
  note K = reactor_okD [OF ok]
  obtain F h t where d: "dequeue s = Some (f, s\<lparr>re_ready_head := h, re_ready_tail := t, re_blocks := F\<rparr>)"
    "fifo (v_next F) h t Q" "vw no_next F = vw no_next (re_blocks s)" by (rule dequeue_spec [OF K(1)])
  note N = no_next_views [OF d(3)]
  have wf: "vw ef_wait_fd F = vw ef_wait_fd (re_blocks s)" by (rule vw_cong [OF d(3), where k = ef_wait_fd]) (simp add: no_next_def)
  have "f \<in> in_st FB_READY (re_blocks s)" using K(3) by (auto simp: states_ok_def)
  then obtain c0 where c0: "re_blocks s f = Some c0" "ef_state c0 = FB_READY" by (auto simp: in_st_iff)
  obtain c where c: "F f = Some c" using c0 dom_view [OF d(3)] by auto
  have cV: "ef_state c = FB_READY" using fun_cong [OF N(2), of f] c c0 by (simp add: vw_def)
  have f0: "f \<noteq> 0" using K(3) c0(1) by (auto simp: states_ok_def)
  have dist: "f \<notin> set Q" using fifo_distinct [OF K(1)] by simp
  let ?s1 = "s\<lparr>re_ready_head := h, re_ready_tail := t, re_blocks := F\<rparr>"
  let ?s2 = "?s1\<lparr>re_current := f, re_blocks := F(f \<mapsto> c\<lparr>ef_state := FB_RUNNING\<rparr>)\<rparr>"
  have en: "enter_fiber ?s1 f = Some ?s2" using c by (simp add: enter_fiber_def)
  have S: "v_state (re_blocks ?s2) = (v_state (re_blocks s))(f \<mapsto> FB_RUNNING)" using N(2) by simp
  have ins: "in_st x (re_blocks ?s2) = (if x = FB_RUNNING then insert f (in_st x (re_blocks s)) else in_st x (re_blocks s) - {f})" for x
    using S by (auto simp: in_st_def)
  have fr: "f \<in> in_st x (re_blocks s) \<longleftrightarrow> x = FB_READY" for x using c0 by (auto simp: in_st_iff)
  have dm: "dom (re_blocks ?s2) = dom (re_blocks s)" using dom_view [OF d(3)] c by auto
  have st: "states_ok ?s2 Q L"
  proof -
    have "in_st x (re_blocks ?s2) = in_st x (re_blocks s)" if "x = FB_PARKED \<or> x = FB_FREE \<or> x = FB_ZOMBIE" for x
      using ins [of x] fr [of x] that by auto
    moreover have "in_st FB_READY (re_blocks ?s2) = set Q" using ins [of FB_READY] K(3) dist by (auto simp: states_ok_def)
    moreover have "in_st FB_RUNNING (re_blocks ?s2) = {f}" using ins [of FB_RUNNING] K(3) idle by (auto simp: states_ok_def ptr_set_def)
    moreover have "F 0 = None" using fun_cong [OF d(3), of 0] K(3) unfolding states_ok_def by (metis vw_None)
    ultimately show ?thesis using K(3) dm f0 idle by (simp add: states_ok_def ptr_set_def)
  qed
  have same: "vw g (re_blocks ?s2) = vw g F" if "g (c\<lparr>ef_state := FB_RUNNING\<rparr>) = g c" for g :: "ev_fiber \<Rightarrow> 'x"
    using c that by (simp add: vw_Some)
  have T: "v_time (re_blocks ?s2) = v_time (re_blocks s)" using same [of "\<lambda>c. (ef_timer_i c, ef_deadline_ns c)"] N(5) by simp
  have t: "t_ok ?s2"
    unfolding t_ok_def
  proof (intro conjI allI impI)
    have "timers_ok ?s2 = timers_ok s" by (rule timers_ok_cong) (use T in simp_all)
    then show "timers_ok ?s2" using K(4) by (simp add: t_ok_def)
    show "set (re_heap ?s2) \<subseteq> in_st FB_PARKED (re_blocks ?s2)"
      using K(4) ins [of FB_PARKED] fr [of FB_PARKED] by (simp add: t_ok_def)
    fix g b assume g: "re_blocks ?s2 g = Some b" "ef_state b \<noteq> FB_FREE" "g \<notin> set (re_heap ?s2)"
    have "g \<in> dom (re_blocks ?s2)" using g(1) by (simp only: domIff) simp
    then obtain b0 where b0: "re_blocks s g = Some b0" unfolding dm by blast
    have "ef_timer_i b = ef_timer_i b0" using fun_cong [OF T, of g] g(1) b0 by (auto simp: vw_def split: if_splits)
    moreover have "ef_state b0 \<noteq> FB_FREE" using fun_cong [OF S, of g] g b0 c0 by (auto simp: vw_def split: if_splits)
    ultimately show "ef_timer_i b = NO_TIMER" using K(4) b0 g(3) by (simp add: t_ok_def)
  qed
  have V: "v_fd (re_blocks s) f = Some (FB_READY, ef_park c, ef_reg_fd c, ef_wait_fd c)"
    using fun_cong [OF N(3), of f] c cV by (simp add: vw_def)
  have live: "FB_READY \<noteq> FB_FREE" "FB_RUNNING \<noteq> FB_FREE" by simp_all
  have new: "fd_fiber_ok (re_fd_owner s) f (FB_RUNNING, ef_park c, ef_reg_fd c, ef_wait_fd c)"
    using d_okD(1) [OF K(5) V live(1)] by (auto simp: fd_fiber_ok_def)
  have none: "(fd, f, True) \<notin> A" for fd using d_ok_armed [OF K(5)] V by fastforce
  have "d_ok A (re_self s) (re_fd_owner s) ((v_fd (re_blocks s))(f \<mapsto> (FB_RUNNING, ef_park c, ef_reg_fd c, ef_wait_fd c)))"
    by (rule d_ok_fiber [OF K(5) V live new subset_refl]) (use none in blast)
  then have "d_ok A (re_self ?s2) (re_fd_owner ?s2) (v_fd (re_blocks ?s2))" using N(3) by simp
  moreover have "fifo (v_next (re_blocks ?s2)) (re_ready_head ?s2) (re_ready_tail ?s2) Q" using d(2) same [of ef_next] by simp
  moreover have "dll (v_links (re_blocks ?s2)) (re_live_head ?s2) L"
    using K(2) N(1) same [of "\<lambda>c. (ef_live_next c, ef_live_prev c)"] by simp
  ultimately have "reactor_ok A Q L ?s2" using st t by (simp add: reactor_ok_def)
  moreover have "v_stack (re_blocks ?s2) = v_stack (re_blocks s)" "v_gen (re_blocks ?s2) = v_gen (re_blocks s)"
    "vw ef_wait_fd (re_blocks ?s2) = vw ef_wait_fd (re_blocks s)"
    "vw ef_wait_status (re_blocks ?s2) = vw ef_wait_status (re_blocks s)"
    using N(4,6,7) wf same [of ef_stack] same [of "\<lambda>c. (ef_generation c, ef_wake_pending c)"] same [of ef_wait_fd]
      same [of ef_wait_status] by simp_all
  ultimately show thesis using that [OF d(1) en] f0 by (simp add: frame_def)
qed
lemma woke_frame: "woke s s' \<Longrightarrow> re_cmds s' = re_cmds s \<Longrightarrow> frame s s'"
  by (simp add: woke_def kept_def frame_def)

lemma world_ok_woke:
  assumes "world_ok G Q L n q (s, w)" "reactor_ok (c_regs G (w_sys w')) Q' L s'" "calm (c_regs G) w w'" "woke s s'" "cmds_ok s' n q'"
  shows "world_ok G Q' L n q' (s', w')"
proof -
  have "frame s (s'\<lparr>re_cmds := re_cmds s\<rparr>)" using assms(4) by (intro woke_frame) simp_all
  from pools_ok_frame [OF this calm_quiet [OF assms(3)], of G L]
  have "pools_ok G L s' w'" using world_okD(2) [OF assms(1)] by (simp add: pools_ok_def)
  then show ?thesis using assms world_okD [OF assms(1)] by (simp add: world_ok_def woke_def kept_def)
qed

section \<open>Commands and closing\<close>

lemma d_ok_entry:
  "d_ok A self W V \<Longrightarrow> i < length W \<Longrightarrow> W ! i \<noteq> 0 \<Longrightarrow> \<exists>st pk wt. V (W ! i) = Some (st, pk, int i, wt) \<and> st \<noteq> FB_FREE"
  unfolding d_ok_def by blast

context reactor_world
begin

lemma apply_world:
  assumes ok: "world_ok G Q L n q (s, w)" and c: "cmd_ok s c"
  obtains Q' s' w' where "apply_cmd e s c w = Some (s', w')" "world_ok G (Q @ Q') L n q (s', w')"
    "re_current s' = re_current s" "re_zombie s' = re_zombie s" "re_self s' = re_self s"
proof -
  note W = world_okD [OF ok]
  obtain Q' s' w' where r: "apply_cmd e s c w = Some (s', w')" "reactor_ok (c_regs G (w_sys w')) (Q @ Q') L s'"
    "calm (c_regs G) w w'" "woke s s'" "re_cmds s' = re_cmds s" by (rule apply_cmd_woke [OF W(1,4) c])
  have "cmds_ok s' n q" by (rule cmds_ok_shrink [OF W(3) woke_frame [OF r(4,5)]])
  from world_ok_woke [OF ok r(2-4) this] show thesis using that r(1,4) by (simp add: woke_def kept_def)
qed

lemma close_spec:
  assumes ok: "world_ok G Q L n q (s, w)" and th: "g_reactor th \<noteq> 0"
  obtains Q' r s' w' where "cfiber_ev_close e th s fd w = Some (r, s', w')" "world_ok G (Q @ Q') L n q (s', w')"
    "re_current s' = re_current s" "re_zombie s' = re_zombie s" "re_self s' = re_self s"
proof -
  note W = world_okD [OF ok]
  note K = reactor_okD [OF W(1)]
  let ?h = "fd_owner_get s fd"
  have "\<exists>Q' s1 w1. (if ?h \<noteq> 0 then do {
        h \<leftarrow> re_blocks s ?h;
        if ef_state h = FB_PARKED \<and> ef_wait_fd h = fd then unpark e s ?h EV_CANCELLED w else detach_fd e s ?h w
      } else Some (s, w)) = Some (s1, w1) \<and> reactor_ok (c_regs G (w_sys w1)) (Q @ Q') L s1 \<and> frame s s1 \<and>
      quiet w w1 \<and> re_current s1 = re_current s"
  proof (cases "?h = 0")
    case True
    then show ?thesis using W(1) by (intro exI [of _ "[]"]) simp
  next
    case False
    then have fd: "0 \<le> fd" "nat fd < length (re_fd_owner s)" "?h = re_fd_owner s ! nat fd"
      by (auto simp: fd_owner_get_def split: if_splits)
    then obtain st pk wt where v: "v_fd (re_blocks s) ?h = Some (st, pk, int (nat fd), wt)" "st \<noteq> FB_FREE"
      using d_ok_entry [OF K(5) fd(2)] False by auto
    have "\<exists>b. re_blocks s ?h = Some b \<and> (ef_state b, ef_park b, ef_reg_fd b, ef_wait_fd b) = (st, pk, int (nat fd), wt)"
      using vw_SomeD [OF v(1)] by blast
    then obtain b where b: "re_blocks s ?h = Some b" "ef_state b = st" "ef_reg_fd b = fd" "ef_wait_fd b = wt"
      unfolding prod.inject nat_0_le [OF fd(1)] by blast
    show ?thesis
    proof (cases "ef_state b = FB_PARKED \<and> ef_wait_fd b = fd")
      case True
      then have pk: "ef_state b = FB_PARKED" by simp
      obtain s1 w1 where u: "unpark e s ?h EV_CANCELLED w = Some (s1, w1)" "reactor_ok (c_regs G (w_sys w1)) (Q @ [?h]) L s1"
        "woken ?h EV_CANCELLED s s1" "calm (c_regs G) w w1" by (rule unpark_spec [OF W(1,4) b(1) pk])
      have "re_current s1 = re_current s" using u(3) by (simp add: woken_def kept_def)
      then show ?thesis using False b(1) True u(1,2) woken_frame [OF u(3)] calm_quiet [OF u(4)] by auto
    next
      case np: False
      have live: "ef_state b \<noteq> FB_FREE" "ef_state b = FB_PARKED \<Longrightarrow> ef_wait_fd b = - 1"
        using v b np d_okD(3) [OF K(5) v] fd(1) by auto
      obtain s1 w1 where d: "detach_fd e s ?h w = Some (s1, w1)" "reactor_ok (c_regs G (w_sys w1)) Q L s1" "refd s s1"
        "calm (c_regs G) w w1" by (rule detach_live [OF W(1,4) b(1) live])
      show ?thesis
        using False b(1) np d(1,2) refd_frame [OF d(3)] calm_quiet [OF d(4)] refd_fields(4) [OF d(3)]
        by (intro exI [of _ "[]"] exI [of _ s1] exI [of _ w1]) auto
    qed
  qed
  then obtain Q' s1 w1 where a: "(if ?h \<noteq> 0 then do {
        h \<leftarrow> re_blocks s ?h;
        if ef_state h = FB_PARKED \<and> ef_wait_fd h = fd then unpark e s ?h EV_CANCELLED w else detach_fd e s ?h w
      } else Some (s, w)) = Some (s1, w1)" "reactor_ok (c_regs G (w_sys w1)) (Q @ Q') L s1" "frame s s1"
      "quiet w w1" "re_current s1 = re_current s" by blast
  obtain r k where c: "sys_close (e_sys e) fd (w_sys w1) = (r, k)" by fastforce
  obtain r' w2 where l: "libc_ret r (w1\<lparr>w_sys := k\<rparr>) = (r', w2)" by fastforce
  have w2: "calm (c_regs G) (w1\<lparr>w_sys := k\<rparr>) w2" "w_sys w2 = k" using calm_libc_ret [OF l] by auto
  have run: "cfiber_ev_close e th s fd w = Some (r', s1, w2)"
    using th a(1) c l by (simp add: cfiber_ev_close_def Let_def c_close_def)
  have qt: "quiet w w2" using a(4) w2(1) by (simp add: quiet_def calm_def)
  have rok: "reactor_ok (c_regs G (w_sys w2)) (Q @ Q') L s1"
    using reactor_ok_mono [OF a(2)] k.close_regs [OF c] w2(2) by simp
  have "re_current s1 = 0 \<or> re_current s1 = re_current s" using a(5) by simp
  from that [OF run world_ok_call [OF ok call_okI [OF rok a(3) qt this]] a(5)] show thesis
    using a(3) by (simp add: frame_def)
qed

text \<open>Posting: at once when the ring has room, never when it is full.\<close>

lemma write_calm:
  obtains r w' where "c_write e fd bs w = (r, w')" "calm (c_regs G) w w'"
proof -
  obtain r k where c: "sys_write (e_sys e) fd bs (w_sys w) = (r, k)" by fastforce
  obtain r' w' where l: "libc_ret r (w\<lparr>w_sys := k\<rparr>) = (r', w')" by fastforce
  have "calm (c_regs G) (w\<lparr>w_sys := k\<rparr>) w'" "w_sys w' = k" using calm_libc_ret [OF l] by auto
  then have "calm (c_regs G) w w'" using k.write_regs [OF c] by (simp add: calm_def)
  then show thesis using that c l by (simp add: c_write_def)
qed

lemma post_full:
  assumes "ring_queue (re_cmds s) n q" "length q = length (cells (re_cmds s))"
  shows "\<exists>w'. post_loop e k s c w = Some (False, s, w'\<lparr>w_errno := EAGAIN\<rparr>) \<and> calm (c_regs G) w w'"
proof (induction k arbitrary: w)
  case 0
  then show ?case by (intro exI [of _ w]) simp
next
  case (Suc k)
  let ?w = "w\<lparr>w_sys := sys_sched_yield (e_sys e) (w_sys w)\<rparr>"
  have "calm (c_regs G) w ?w" using k.yield_regs by (simp add: calm_def)
  moreover obtain w' where w': "post_loop e k s c ?w = Some (False, s, w'\<lparr>w_errno := EAGAIN\<rparr>)" "calm (c_regs G) ?w w'"
    using Suc.IH by blast
  moreover have "post_loop e (Suc k) s c w = post_loop e k s c ?w" using queue_full [OF assms] by simp
  ultimately show ?case using calm_trans by metis
qed

lemma post_spec:
  assumes cm: "cmds_ok s n q" and c: "cmd_ok s c" and n: "n < 2 ^ 62"
  obtains
    (posted) s' w' where "post_cmd e s c w = Some (True, s', w')" "length q < 1024" "cmds_ok s' (n + 1) (q @ [c])"
      "s' = s\<lparr>re_cmds := re_cmds s'\<rparr>" "calm (c_regs G) w w'"
  | (full) w' where "post_cmd e s c w = Some (False, s, w'\<lparr>w_errno := EAGAIN\<rparr>)" "length q = 1024" "calm (c_regs G) w w'"
proof -
  have C: "ring_queue (re_cmds s) n q" "length (cells (re_cmds s)) = 1024" "\<forall>c \<in> set q. cmd_ok s c"
    using cm by (simp_all add: cmds_ok_def)
  show thesis
  proof (cases "length q < 1024")
    case True
    have "n + 1 + length (cells (re_cmds s)) < 2 ^ 63" using n C(2) by simp
    then obtain r where r: "ring_enqueue (re_cmds s) c = Some (True, r)" "ring_queue r (n + 1) (q @ [c])"
      "length (cells r) = length (cells (re_cmds s))" using queue_enq [OF C(1)] True C(2) by metis
    obtain rc w' where w: "c_write e (re_evfd s) one_bytes w = (rc, w')" "calm (c_regs G) w w'" by (rule write_calm)
    let ?s = "s\<lparr>re_cmds := r\<rparr>"
    have "post_cmd e s c w = Some (True, ?s, w')"
      using r(1) w(1) by (simp add: post_cmd_def POST_RETRIES_def numeral_eq_Suc)
    moreover have "cmds_ok ?s (n + 1) (q @ [c])" using r C c by (simp add: cmds_ok_def cmd_ok_def)
    ultimately show thesis using posted True w(2) by simp
  next
    case False
    then have l: "length q = length (cells (re_cmds s))" using queue_bounds [OF C(1)] C(2) by simp
    then show thesis using full post_full [OF C(1) l, of POST_RETRIES c w] C(2) by (auto simp: post_cmd_def)
  qed
qed

end
section \<open>The loop\<close>

context reactor_world
begin

lemma now_calm: "now_ns e w = (t, w') \<Longrightarrow> calm (c_regs G) w w'"
  using k.clock_regs [of "w_sys w"] by (auto simp: now_ns_def calm_def split: prod.splits)

lemma timeout_calm:
  assumes t: "t_ok s"
  obtains ms w' where "next_timeout_ms e s w = Some (ms, w')" "calm (c_regs G) w w'"
proof (cases "re_heap s")
  case Nil
  then show thesis using that [of "- 1" w] by (simp add: next_timeout_ms_def)
next
  case (Cons f rest)
  then have "f \<in> in_st FB_PARKED (re_blocks s)" using t by (auto simp: t_ok_def)
  then obtain c where c: "re_blocks s f = Some c" by (auto simp: in_st_iff)
  obtain now w1 where n: "now_ns e w = (now, w1)" by fastforce
  have "\<exists>ms. next_timeout_ms e s w = Some (ms, w1)"
    using Cons c n by (simp add: next_timeout_ms_def Let_def cong: if_cong)
  then show thesis using that now_calm [OF n] by blast
qed

lemma poll_spec:
  assumes ok: "world_ok G Q L n q (s, w)"
  obtains
    (skip) pc w' where "loop_poll e s w = Some (Inl pc, w')" "pc = L_top \<or> pc = L_done (- 1)" "calm (c_regs G) w w'"
  | (events) evs w' where "loop_poll e s w = Some (Inr evs, w')" "calm (c_regs G) w w'"
      "\<And>p. p \<in> snd ` set evs \<Longrightarrow> p = re_self s \<or> (re_blocks s p \<noteq> None \<and> (\<forall>fd. (fd, p, True) \<notin> c_regs G (w_sys w')))"
proof -
  note W = world_okD [OF ok]
  note K = reactor_okD [OF W(1)]
  obtain ms w1 where t: "(if re_ready_head s \<noteq> 0 then Some (0, w) else next_timeout_ms e s w) = Some (ms, w1)"
    "calm (c_regs G) w w1"
  proof (cases "re_ready_head s \<noteq> 0")
    case True
    then show thesis using that by simp
  next
    case False
    then show thesis using that timeout_calm [OF K(4), of w] by auto
  qed
  obtain m evs k where p: "sys_epoll_wait (e_sys e) (c_epfd G) 64 ms (w_sys w1) = ((m, evs), k)" by (metis surj_pair)
  obtain m' w2 where l: "libc_ret m (w1\<lparr>w_sys := k\<rparr>) = (m', w2)" by fastforce
  note E = k.wait_events [OF p]
  have L2: "calm (c_regs G) (w1\<lparr>w_sys := k\<rparr>) w2" "w_sys w2 = k" "m' < 0 \<longleftrightarrow> m < 0" using calm_libc_ret [OF l] by auto
  have "calm (c_regs G) w1 w2" using L2(1) E by (auto simp: calm_def)
  then have c2: "calm (c_regs G) w w2" by (rule calm_trans [OF t(2)])
  have run: "loop_poll e s w = (if m' < 0 then Some (Inl (if w_errno w2 = EINTR then L_top else L_done (- 1)), w2)
      else if nat m' \<le> length evs then Some (Inr (take (nat m') evs), w2) else None)"
    using t(1) p l W(4) by (simp add: loop_poll_def)
  show thesis
  proof (cases "m' < 0")
    case True
    then have r: "loop_poll e s w = Some (Inl (if w_errno w2 = EINTR then L_top else L_done (- 1)), w2)" using run by simp
    show thesis by (rule skip [OF r _ c2]) simp
  next
    case False
    then have m: "m' = m" using l L2(3) by (auto simp: libc_ret_def split: if_splits)
    then have r: "loop_poll e s w = Some (Inr (take (nat m) evs), w2)" using run False E by simp
    have "p = re_self s \<or> (re_blocks s p \<noteq> None \<and> (\<forall>fd. (fd, p, True) \<notin> c_regs G (w_sys w2)))"
      if "p \<in> snd ` set (take (nat m) evs)" for p
    proof -
      from that obtain ev where "(ev, p) \<in> set evs" using in_set_takeD by fastforce
      then obtain fd one where f: "(fd, p, one) \<in> c_regs G (w_sys w1)" "one \<longrightarrow> (fd, p, True) \<notin> c_regs G k" using E by fastforce
      have sub: "c_regs G (w_sys w1) \<subseteq> c_regs G (w_sys w)" "c_regs G k \<subseteq> c_regs G (w_sys w1)"
        using t(2) E by (auto simp: calm_def)
      show ?thesis
      proof (cases one)
        case False
        then have "(fd, p, False) \<in> armed_by (re_self s) (v_fd (re_blocks s))" using f(1) sub K(5) by (auto simp: d_ok_def)
        then show ?thesis by (simp add: armed_by_def)
      next
        case True
        then have "(fd, p, True) \<in> c_regs G (w_sys w)" using f(1) sub by auto
        then have v: "v_fd (re_blocks s) p = Some (FB_PARKED, PARK_FD, fd, fd)" by (rule d_ok_armed [OF K(5)])
        have "(fd', p, True) \<notin> c_regs G k" for fd'
        proof
          assume a: "(fd', p, True) \<in> c_regs G k"
          then have "v_fd (re_blocks s) p = Some (FB_PARKED, PARK_FD, fd', fd')" using d_ok_armed [OF K(5)] sub by blast
          then show False using a f(2) True v by simp
        qed
        moreover have "re_blocks s p \<noteq> None" using v by (auto simp: vw_def)
        ultimately show ?thesis using L2(2) by simp
      qed
    qed
    then show thesis using events [OF r c2] by blast
  qed
qed

text \<open>Events and timers of one turn.\<close>

lemma turn_spec:
  assumes ok: "world_ok G Q L n q (s, w)"
    and ev: "\<And>p. p \<in> snd ` set evs \<Longrightarrow> p = re_self s \<or> (re_blocks s p \<noteq> None \<and> (\<forall>fd. (fd, p, True) \<notin> c_regs G (w_sys w)))"
  obtains Q' q' s1 w1 s2 w2 where "deliver_events e evs s w = Some (s1, w1)" "fire_expired_timers e s1 w1 = Some (s2, w2)"
    "world_ok G (Q @ Q') L n q' (s2, w2)" "woke s s2" "re_current s2 = re_current s" "re_zombie s2 = re_zombie s"
proof -
  note W = world_okD [OF ok]
  from deliver_spec [OF W(1,4,5,3) ev] obtain Q1 q1 s1 w1 where d: "deliver_events e evs s w = Some (s1, w1)"
    "reactor_ok (c_regs G (w_sys w1)) (Q @ Q1) L s1" "calm (c_regs G) w w1" "woke s s1" "cmds_ok s1 n q1" by blast
  have ok1: "world_ok G (Q @ Q1) L n q1 (s1, w1)" by (rule world_ok_woke [OF ok d(2-5)])
  note W1 = world_okD [OF ok1]
  obtain now w1' where nw: "now_ns e w1 = (now, w1')" by fastforce
  have c1: "calm (c_regs G) w1 w1'" by (rule now_calm [OF nw])
  have "reactor_ok (c_regs G (w_sys w1')) (Q @ Q1) L s1" using reactor_ok_mono [OF W1(1)] c1 by (simp add: calm_def)
  from fire_loop_spec [OF this W1(4), of now] obtain Q2 s2 w2 where f: "fire_loop e now s1 w1' = Some (s2, w2)"
    "reactor_ok (c_regs G (w_sys w2)) ((Q @ Q1) @ Q2) L s2" "calm (c_regs G) w1' w2" "woke s1 s2" "re_cmds s2 = re_cmds s1"
    by blast
  have "cmds_ok s2 n q1" by (rule cmds_ok_shrink [OF W1(3) woke_frame [OF f(4,5)]])
  from world_ok_woke [OF ok1 f(2) calm_trans [OF c1 f(3)] f(4) this]
  have ok2: "world_ok G (Q @ (Q1 @ Q2)) L n q1 (s2, w2)" by simp
  have wk: "woke s s2" by (rule woke_trans [OF d(4) f(4)])
  have run: "fire_expired_timers e s1 w1 = Some (s2, w2)" using nw f(1) by (simp add: fire_expired_timers_def)
  show thesis by (rule that [OF d(1) run ok2 wk]) (use wk in \<open>simp_all add: woke_def kept_def\<close>)
qed

end
section \<open>The system\<close>

definition handle_ok :: "('h, 'v) cfiber_reactor \<Rightarrow> handle \<Rightarrow> bool" where
  "handle_ok s h \<longleftrightarrow> h_f h = 0 \<or> re_blocks s (h_f h) \<noteq> None"

definition legal_call :: "fiber_call \<Rightarrow> ('h, 'v) cfiber_reactor \<Rightarrow> bool" where
  "legal_call a s \<longleftrightarrow> (a = Call_wait_end \<or> vw ef_wait_fd (re_blocks s) (re_current s) = Some (- 1)) \<and>
     (case a of Call_wait fd d t \<Rightarrow> fd < 2 ^ 31 | Call_wake h \<Rightarrow> handle_ok s h | Call_cancel h \<Rightarrow> handle_ok s h | _ \<Rightarrow> True)"

text \<open>The move is the one that comes next, and meets what the client owes; a ring takes \<open>2^62\<close> commands
  in its life.\<close>

definition due :: "move \<Rightarrow> ('h, 'v, 'k) sys_state \<Rightarrow> bool" where
  "due m st \<longleftrightarrow> (case st of (pc, s, w) \<Rightarrow>
     (case m of
        Loop \<Rightarrow> re_current s = 0 \<and> (\<forall>rc. pc \<noteq> L_done rc)
      | Fiber a \<Rightarrow> re_current s \<noteq> 0 \<and> legal_call a s
      | Post c \<Rightarrow> cmd_ok s c \<and> unat (enqueue_pos (re_cmds s)) < 2 ^ 62))"

text \<open>The ready queue in two parts: \<open>R\<close> is what is left of the round, \<open>N\<close> waits for the next one.\<close>

definition pc_ok :: "loop_pc \<Rightarrow> u64 list \<Rightarrow> u64 list \<Rightarrow> u64 list \<Rightarrow> ('h, 'v) cfiber_reactor \<Rightarrow> bool" where
  "pc_ok pc R N L s \<longleftrightarrow>
     (case pc of
        L_entered f r \<Rightarrow> (R = [] \<longleftrightarrow> f = r) \<and> (R \<noteq> [] \<longrightarrow> last R = r)
      | L_round r \<Rightarrow> re_current s = 0 \<and> re_zombie s = 0 \<and> (R = [] \<longrightarrow> N = []) \<and> (R \<noteq> [] \<longrightarrow> last R = r)
      | L_done rc \<Rightarrow> re_current s = 0 \<and> re_zombie s = 0 \<and> R = [] \<and> (rc = 0 \<longrightarrow> L = [])
      | _ \<Rightarrow> re_current s = 0 \<and> re_zombie s = 0 \<and> R = [])"

definition system_at ::
  "('h, 'v, 'k) contract \<Rightarrow> rthread \<Rightarrow> u64 list \<Rightarrow> u64 list \<Rightarrow> u64 list \<Rightarrow> nat \<Rightarrow> cmd list \<Rightarrow> ('h, 'v, 'k) sys_state \<Rightarrow> bool" where
  "system_at G th R N L n q st \<longleftrightarrow> (case st of (pc, s, w) \<Rightarrow>
     world_ok G (R @ N) L n q (s, w) \<and> pc_ok pc R N L s \<and> g_reactor th = re_self s)"

definition system_ok :: "('h, 'v, 'k) contract \<Rightarrow> rthread \<Rightarrow> ('h, 'v, 'k) sys_state \<Rightarrow> bool" where
  "system_ok G th st \<longleftrightarrow> (\<exists>R N L n q. system_at G th R N L n q st)"

text \<open>What a move does to the round, the next round and the live fibers.\<close>

definition round_move ::
  "move \<Rightarrow> loop_pc \<times> u64 list \<times> u64 list \<times> u64 list \<Rightarrow> loop_pc \<times> u64 list \<times> u64 list \<times> u64 list \<Rightarrow> bool" where
  "round_move m a b \<longleftrightarrow> (case a of (pc, R, N, L) \<Rightarrow> case b of (pc', R', N', L') \<Rightarrow>
     (case m of
        Post c \<Rightarrow> b = a
      | Fiber c \<Rightarrow> pc' = pc \<and> R' = R \<and> (\<exists>new. N' = N @ new \<and> (L' = L \<or> (\<exists>f. f \<notin> set L \<and> new = [f] \<and> L' = f # L)))
      | Loop \<Rightarrow>
          (case pc of
             L_top \<Rightarrow> L' = L \<and> R' = N \<and> N' = [] \<and> (if L = [] then pc' = L_done 0 else (\<exists>r. pc' = L_round r))
           | L_round r \<Rightarrow> L' = L \<and> N' = N \<and>
               (case R of [] \<Rightarrow> pc' = L_poll \<and> R' = [] | f # fs \<Rightarrow> pc' = L_entered f r \<and> R' = fs)
           | L_entered f r \<Rightarrow> R' = R \<and> N' = N \<and> (L' = L \<or> (\<exists>z \<in> set L. L' = remove1 z L)) \<and>
               pc' = (if R = [] then L_poll else L_round r)
           | L_poll \<Rightarrow> L' = L \<and> R' = [] \<and>
               (if L = [] then pc' = L_done 0 \<and> N' = N
                else (pc' = L_top \<or> pc' = L_done (- 1)) \<and> (\<exists>new. N' = N @ new))
           | L_done rc \<Rightarrow> False)))"

lemma ring_count: "ring_queue r n q \<Longrightarrow> unat (enqueue_pos r) = n"
proof -
  assume "ring_queue r n q"
  then obtain D cs where r: "ring_rep D D n {} cs r" by (auto simp: ring_queue_def)
  have "n < 2 ^ 63" using ring_repD(5,6) [OF r] by linarith
  then show ?thesis using ring_repD(1) [OF r] by (simp add: unat_of_nat_small)
qed

lemma running_runs:
  assumes "reactor_ok A Q L s" "re_current s \<noteq> 0" "vw ef_wait_fd (re_blocks s) (re_current s) = Some (- 1)"
  obtains c where "runs s c"
proof -
  have "re_current s \<in> in_st FB_RUNNING (re_blocks s)"
    using assms(1,2) by (simp add: reactor_ok_def states_ok_def ptr_set_def)
  then obtain c where "re_blocks s (re_current s) = Some c" "ef_state c = FB_RUNNING" by (auto simp: in_st_iff)
  then show thesis using that [of c] assms(2,3) by (simp add: runs_def vw_def)
qed

lemma world_ok_zombie:
  assumes "world_ok G Q L n q (s, w)" "reactor_ok (c_regs G (w_sys w)) Q L s'" "frame s (s'\<lparr>re_zombie := re_zombie s\<rparr>)"
  shows "world_ok G Q L n q (s', w)"
proof -
  note W = world_okD [OF assms(1)]
  have "pools_ok G L s' w" using pools_ok_frame [OF assms(3) quiet_refl, of G L w] W(2) by (simp add: pools_ok_def)
  moreover have "cmds_ok s' n q" using cmds_ok_shrink [OF W(3) assms(3)] by (simp add: cmds_ok_def cmd_ok_def)
  ultimately show ?thesis using assms(2,3) W by (simp add: world_ok_def frame_def)
qed

context reactor_world
begin

text \<open>Every call of the running fiber returns, in every build.\<close>

lemma fiber_call_spec:
  assumes ok: "world_ok G Q L n q (s, w)" and th: "g_reactor th \<noteq> 0" and cur: "re_current s \<noteq> 0" and leg: "legal_call a s"
  shows "\<exists>new L' s' w'. fiber_call e th a s w = Some (s', w') \<and> world_ok G (Q @ new) L' n q (s', w') \<and>
    re_self s' = re_self s \<and> (L' = L \<or> (\<exists>f. f \<notin> set L \<and> new = [f] \<and> L' = f # L))"
proof -
  note W = world_okD [OF ok]
  have same: ?thesis if "fiber_call e th a s w = Some (s', w')" "call_ok (c_regs G) (Q @ new) L (s, w) (s', w')" for new s' w'
    using that world_ok_call [OF ok that(2)] by (auto simp: call_ok_def frame_def)
  show ?thesis
  proof (cases "a = Call_wait_end")
    case True
    obtain c s' where r: "wait_end (re_current s) s = Some (ef_wait_status c, s')" "re_blocks s (re_current s) = Some c"
      "reactor_ok (c_regs G (w_sys w)) Q L s'" "frame s s'" "re_current s' = re_current s" by (rule wait_end_spec [OF W(1) cur])
    show ?thesis
      by (rule same [of s' w "[]"]) (use True r in \<open>simp_all add: fiber_call_def call_ok_def\<close>)
  next
    case False
    then obtain c where c: "runs s c" using running_runs [OF W(1) cur] leg by (auto simp: legal_call_def)
    show ?thesis
    proof (cases a)
      case (Call_wait fd d t)
      then have fd: "fd < 2 ^ 31" using leg by (simp add: legal_call_def)
      from W(1,4) th c fd show ?thesis
      proof (cases rule: wait_begin_spec [where dir = d and t = t])
        case (refused s' w')
        show ?thesis by (rule same [of s' w' "[]"]) (use Call_wait refused in \<open>simp_all add: fiber_call_def\<close>)
      next
        case (parked s' w')
        show ?thesis by (rule same [of s' w' "[]"]) (use Call_wait parked in \<open>simp_all add: fiber_call_def\<close>)
      qed
    next
      case (Call_sleep ns)
      from W(1) th c show ?thesis
      proof (cases rule: sleep_begin_spec [where ns = ns])
        case (refused s' w')
        show ?thesis by (rule same [of s' w' "[]"]) (use Call_sleep refused in \<open>simp_all add: fiber_call_def\<close>)
      next
        case (parked s' w')
        show ?thesis by (rule same [of s' w' "[]"]) (use Call_sleep parked in \<open>simp_all add: fiber_call_def\<close>)
      qed
    next
      case (Call_wait_async t)
      from W(1) th c show ?thesis
      proof (cases rule: async_begin_spec [where t = t])
        case (pending s')
        show ?thesis by (rule same [of s' w "[]"]) (use Call_wait_async pending(1,4) in \<open>simp_all add: fiber_call_def\<close>)
      next
        case (refused s' w')
        show ?thesis by (rule same [of s' w' "[]"]) (use Call_wait_async refused in \<open>simp_all add: fiber_call_def\<close>)
      next
        case (parked s' w')
        show ?thesis by (rule same [of s' w' "[]"]) (use Call_wait_async parked in \<open>simp_all add: fiber_call_def\<close>)
      qed
    next
      case Call_yield
      obtain s' where r: "cfiber_ev_yield e th s = Some (True, s')" "call_ok (c_regs G) (Q @ [re_current s]) L (s, w) (s', w)"
        by (rule yield_spec [OF W(1) th c])
      show ?thesis by (rule same [OF _ r(2)]) (use Call_yield r(1) in \<open>simp add: fiber_call_def\<close>)
    next
      case (Call_spawn fn arg)
      have run: "fiber_call e th a s w = map_option (snd \<circ> snd) (spawn_locked e s fn arg None w)"
        using Call_spawn th by (simp add: fiber_call_def cfiber_ev_spawn_def)
      from ok show ?thesis
      proof (cases rule: spawn_spec [where fn = fn and arg = arg and out = None])
        case (failed s' w')
        then show ?thesis using run by (intro exI [of _ "[]"] exI [of _ L]) simp
      next
        case (spawned f c s' w')
        then show ?thesis using run by (intro exI [of _ "[f]"] exI [of _ "f # L"]) simp
      qed
    next
      case (Call_wake h)
      let ?c = "\<lparr>cmd_kind_of = CMD_WAKE, cmd_target = h_f h, cmd_gen = h_gen h\<rparr>"
      have "cmd_ok s ?c" using leg Call_wake by (simp add: legal_call_def handle_ok_def cmd_ok_def)
      from apply_world [OF ok this] obtain Q' s' w' where r: "apply_cmd e s ?c w = Some (s', w')"
        "world_ok G (Q @ Q') L n q (s', w')" "re_self s' = re_self s" by metis
      have "fiber_call e th a s w = Some (s', w')" using Call_wake th r(1) by (simp add: fiber_call_def cfiber_ev_wake_def)
      then show ?thesis using r(2,3) by blast
    next
      case (Call_cancel h)
      let ?c = "\<lparr>cmd_kind_of = CMD_CANCEL, cmd_target = h_f h, cmd_gen = h_gen h\<rparr>"
      have "cmd_ok s ?c" using leg Call_cancel by (simp add: legal_call_def handle_ok_def cmd_ok_def)
      from apply_world [OF ok this] obtain Q' s' w' where r: "apply_cmd e s ?c w = Some (s', w')"
        "world_ok G (Q @ Q') L n q (s', w')" "re_self s' = re_self s" by metis
      have "fiber_call e th a s w = Some (s', w')" using Call_cancel th r(1) by (simp add: fiber_call_def cfiber_ev_cancel_def)
      then show ?thesis using r(2,3) by blast
    next
      case (Call_close fd)
      obtain Q' rc s' w' where r: "cfiber_ev_close e th s fd w = Some (rc, s', w')" "world_ok G (Q @ Q') L n q (s', w')"
        "re_current s' = re_current s" "re_zombie s' = re_zombie s" "re_self s' = re_self s" by (rule close_spec [OF ok th])
      then have "fiber_call e th a s w = Some (s', w')" using Call_close by (simp add: fiber_call_def)
      then show ?thesis using r(2,5) by blast
    next
      case Call_wait_end
      then show ?thesis using False by simp
    next
      case Call_return
      obtain s' where r: "reactor_return_hook s = Some s'" "reactor_ok (c_regs G (w_sys w)) Q L s'"
        "frame s (s'\<lparr>re_zombie := re_zombie s\<rparr>)" by (rule hook_spec [OF W(1) c])
      have "fiber_call e th a s w = Some (s', w)" using Call_return r(1) by (simp add: fiber_call_def)
      moreover have "re_self s' = re_self s" using r(3) by (simp add: frame_def)
      ultimately show ?thesis using world_ok_zombie [OF ok r(2,3)] by (intro exI [of _ "[]"] exI [of _ L]) simp
    qed
  qed
qed

end
section \<open>The invariant of the system\<close>

lemma frame_pcs: "frame s s' \<Longrightarrow> re_zombie s' = re_zombie s \<and> re_self s' = re_self s" by (simp add: frame_def)

lemma world_ok_queues:
  assumes "world_ok G Q L n q (s, w)"
  shows "re_ready_head s = 0 \<longleftrightarrow> Q = []" "Q \<noteq> [] \<Longrightarrow> re_ready_tail s = last Q" "Q = [] \<Longrightarrow> re_ready_tail s = 0"
    "distinct Q" "distinct L" "set Q \<subseteq> set L" "0 \<notin> set Q"
    "re_zombie s = 0 \<Longrightarrow> re_active s = int (length L)"
    "re_zombie s = 0 \<Longrightarrow> re_current s = 0 \<Longrightarrow> L \<noteq> [] \<Longrightarrow> Q = [] \<Longrightarrow> 0 < re_blocked s"
proof -
  note K = reactor_okD [OF world_okD(1) [OF assms]]
  show "re_ready_head s = 0 \<longleftrightarrow> Q = []" by (rule fifo_head_null [OF K(1)])
  show "Q \<noteq> [] \<Longrightarrow> re_ready_tail s = last Q" "Q = [] \<Longrightarrow> re_ready_tail s = 0" using fifo_tail [OF K(1)] K(1) by auto
  show "distinct Q" "distinct L" by (rule fifo_distinct [OF K(1)], rule dll_distinct [OF K(2)])
  show "set Q \<subseteq> set L" "0 \<notin> set Q" using K(3) by (auto simp: states_ok_def in_st_iff)
  show "re_zombie s = 0 \<Longrightarrow> re_active s = int (length L)" using K(3) by (simp add: states_ok_def)
  assume z: "re_zombie s = 0" "re_current s = 0" "L \<noteq> []" "Q = []"
  then obtain f where "f \<in> set L" by (cases L) auto
  then obtain c where c: "re_blocks s f = Some c" "ef_state c \<noteq> FB_FREE" using live_in_L [OF K(3)] by blast
  have "f \<notin> in_st FB_READY (re_blocks s)" "f \<notin> in_st FB_RUNNING (re_blocks s)" "f \<notin> in_st FB_ZOMBIE (re_blocks s)"
    using K(3) z by (auto simp: states_ok_def ptr_set_def)
  then have "f \<in> in_st FB_PARKED (re_blocks s)" using c by (cases "ef_state c") (auto simp: in_st_iff)
  then have "0 < card (in_st FB_PARKED (re_blocks s))" using in_st_finite [OF K(3), of FB_PARKED] card_gt_0_iff by blast
  then show "0 < re_blocked s" using K(3) by (simp add: states_ok_def)
qed

context reactor_world
begin

lemma loop_move_spec:
  assumes sys: "system_at G th R N L n q (pc, s, w)" and due: "re_current s = 0" "\<And>rc. pc \<noteq> L_done rc"
  shows "\<exists>R' N' L' q' pc' s' w'. loop_step e pc s w = Some (pc', s', w') \<and> system_at G th R' N' L' n q' (pc', s', w') \<and>
    round_move Loop (pc, R, N, L) (pc', R', N', L')"
proof -
  have ok: "world_ok G (R @ N) L n q (s, w)" and pk: "pc_ok pc R N L s" and th: "g_reactor th = re_self s"
    using sys by (simp_all add: system_at_def)
  note Qs = world_ok_queues [OF ok]
  note K = reactor_okD [OF world_okD(1) [OF ok]]
  show ?thesis
  proof (cases pc)
    case L_top
    then have idle: "re_zombie s = 0" "R = []" using pk by (simp_all add: pc_ok_def)
    show ?thesis
    proof (cases "L = []")
      case True
      then have "N = []" using Qs(6) idle by simp
      moreover have "loop_step e pc s w = Some (L_done 0, s, w)" using L_top Qs(8) idle True by (simp add: loop_step_def)
      ultimately show ?thesis
        using ok th idle due True L_top
        by (intro exI [of _ "[]"] exI [of _ L] exI [of _ q] exI [of _ "L_done 0"] exI [of _ s] exI [of _ w])
          (simp add: system_at_def pc_ok_def round_move_def)
    next
      case False
      then have "loop_step e pc s w = Some (L_round (re_ready_tail s), s, w)" using L_top Qs(8) idle by (simp add: loop_step_def)
      then show ?thesis
        using ok th idle due False L_top Qs(2)
        by (intro exI [of _ N] exI [of _ "[]"] exI [of _ L] exI [of _ q] exI [of _ "L_round (re_ready_tail s)"] exI [of _ s] exI [of _ w])
          (simp add: system_at_def pc_ok_def round_move_def)
    qed
  next
    case (L_round r)
    then have idle: "re_zombie s = 0" "R = [] \<Longrightarrow> N = []" "R \<noteq> [] \<Longrightarrow> last R = r" using pk by (simp_all add: pc_ok_def)
    show ?thesis
    proof (cases R)
      case Nil
      then have "loop_step e pc s w = Some (L_poll, s, w)" using L_round Qs(1) idle by (simp add: loop_step_def)
      then show ?thesis
        using ok th idle due L_round Nil
        by (intro exI [of _ "[]"] exI [of _ L] exI [of _ q] exI [of _ L_poll] exI [of _ s] exI [of _ w])
          (simp add: system_at_def pc_ok_def round_move_def)
    next
      case (Cons f fs)
      have rok: "reactor_ok (c_regs G (w_sys w)) (f # (fs @ N)) L s" using world_okD(1) [OF ok] Cons by simp
      obtain s1 s2 where d: "dequeue s = Some (f, s1)" "enter_fiber s1 f = Some s2"
        "reactor_ok (c_regs G (w_sys w)) (fs @ N) L s2" "frame s s2" "re_current s2 = f" "f \<noteq> 0"
        by (rule dispatch_fiber [OF rok due(1) idle(1)])
      have "loop_step e pc s w = Some (L_entered f r, s2, w)"
        using L_round Qs(1) Cons d(1,2) by (simp add: loop_step_def)
      moreover have "world_ok G (fs @ N) L n q (s2, w)"
        by (rule world_ok_step [OF ok d(4) quiet_refl d(3)])
      moreover have "pc_ok (L_entered f r) fs N L s2"
        using idle(3) Qs(4) Cons by (auto simp: pc_ok_def)
      ultimately show ?thesis
        using th L_round Cons frame_pcs [OF d(4)]
        by (intro exI [of _ fs] exI [of _ N] exI [of _ L] exI [of _ q] exI [of _ "L_entered f r"] exI [of _ s2] exI [of _ w])
          (simp add: system_at_def round_move_def)
    qed
  next
    case (L_entered f r)
    then have pr: "R = [] \<longleftrightarrow> f = r" "R \<noteq> [] \<Longrightarrow> last R = r" using pk by (simp_all add: pc_ok_def)
    let ?pc = "if f = r then L_poll else L_round r"
    show ?thesis
    proof (cases "re_zombie s = 0")
      case True
      then have "loop_step e pc s w = Some (?pc, s, w)" using L_entered by (simp add: loop_step_def)
      then show ?thesis
        using ok th due True pr L_entered
        by (intro exI [of _ R] exI [of _ N] exI [of _ L] exI [of _ q] exI [of _ ?pc] exI [of _ s] exI [of _ w])
          (auto simp: system_at_def pc_ok_def round_move_def)
    next
      case False
      obtain s' w' where z: "fiber_recycle e s (re_zombie s) w = Some (s', w')"
        "world_ok G (R @ N) (remove1 (re_zombie s) L) n q (s'\<lparr>re_zombie := 0\<rparr>, w')" "re_current s' = 0" "re_zombie s \<in> set L"
        "re_cmds s' = re_cmds s" "re_self s' = re_self s" by (rule recycle_spec [OF ok False])
      then have "loop_step e pc s w = Some (?pc, s'\<lparr>re_zombie := 0\<rparr>, w')" using L_entered False by (simp add: loop_step_def)
      then show ?thesis
        using z th pr L_entered
        by (intro exI [of _ R] exI [of _ N] exI [of _ "remove1 (re_zombie s) L"] exI [of _ q] exI [of _ ?pc]
            exI [of _ "s'\<lparr>re_zombie := 0\<rparr>"] exI [of _ w'])
          (auto simp: system_at_def pc_ok_def round_move_def)
    qed
  next
    case L_poll
    then have idle: "re_zombie s = 0" "R = []" using pk by (simp_all add: pc_ok_def)
    show ?thesis
    proof (cases "L = []")
      case True
      then have "loop_step e pc s w = Some (L_done 0, s, w)" using L_poll Qs(8) idle by (simp add: loop_step_def)
      then show ?thesis
        using ok th idle due True L_poll
        by (intro exI [of _ "[]"] exI [of _ N] exI [of _ L] exI [of _ q] exI [of _ "L_done 0"] exI [of _ s] exI [of _ w])
          (simp add: system_at_def pc_ok_def round_move_def)
    next
      case False
      have act: "re_active s \<noteq> 0" using Qs(8) idle False by simp
      have asrt: "re_ready_head s \<noteq> 0 \<or> 0 < re_blocked s" using Qs(1,9) idle due False by auto
      from ok show ?thesis
      proof (cases rule: poll_spec)
        case (skip pc' w')
        have "world_ok G (R @ N) L n q (s, w')"
          by (rule world_ok_woke [OF ok _ skip(3) woke_refl world_okD(3) [OF ok]])
            (use reactor_ok_mono [OF world_okD(1) [OF ok]] skip(3) in \<open>simp add: calm_def\<close>)
        moreover have "loop_step e pc s w = Some (pc', s, w')"
          using L_poll act asrt skip(1) by (simp add: loop_step_def)
        ultimately show ?thesis
          using th idle due False L_poll skip(2)
          by (intro exI [of _ "[]"] exI [of _ N] exI [of _ L] exI [of _ q] exI [of _ pc'] exI [of _ s] exI [of _ w'])
            (auto simp: system_at_def pc_ok_def round_move_def)
      next
        case (events evs w1)
        have ok1: "world_ok G (R @ N) L n q (s, w1)"
          by (rule world_ok_woke [OF ok _ events(2) woke_refl world_okD(3) [OF ok]])
            (use reactor_ok_mono [OF world_okD(1) [OF ok]] events(2) in \<open>simp add: calm_def\<close>)
        obtain Q' q' s1 w1' s2 w2 where t: "deliver_events e evs s w1 = Some (s1, w1')" "fire_expired_timers e s1 w1' = Some (s2, w2)"
          "world_ok G ((R @ N) @ Q') L n q' (s2, w2)" "woke s s2" "re_current s2 = re_current s" "re_zombie s2 = re_zombie s"
          by (rule turn_spec [OF ok1 events(3)])
        have "loop_step e pc s w = Some (L_top, s2, w2)"
          using L_poll act asrt events(1) t(1,2) by (simp add: loop_step_def)
        then show ?thesis
          using t(3-6) th idle due False L_poll
          by (intro exI [of _ "[]"] exI [of _ "N @ Q'"] exI [of _ L] exI [of _ q'] exI [of _ L_top] exI [of _ s2] exI [of _ w2])
            (simp add: system_at_def pc_ok_def round_move_def woke_def kept_def)
      qed
    qed
  next
    case (L_done rc)
    then show ?thesis using due(2) by blast
  qed
qed

text \<open>Every move that is due can be made: no assertion fires, no access is out of bounds, and the
  invariant holds again.\<close>

lemma system_move:
  assumes sys: "system_at G th R N L n q st" and due: "due m st"
  shows "\<exists>R' N' L' n' q' st'. reactor_move e th m st = Some st' \<and> system_at G th R' N' L' n' q' st' \<and>
    round_move m (fst st, R, N, L) (fst st', R', N', L')"
proof -
  obtain pc s w where st: "st = (pc, s, w)" by (cases st) auto
  have ok: "world_ok G (R @ N) L n q (s, w)" and pk: "pc_ok pc R N L s" and th: "g_reactor th = re_self s"
    using sys st by (simp_all add: system_at_def)
  note W = world_okD [OF ok]
  show ?thesis
  proof (cases m)
    case Loop
    then have d: "re_current s = 0" "\<And>rc. pc \<noteq> L_done rc" using due st by (simp_all add: due_def)
    from loop_move_spec [OF sys [unfolded st] d] obtain R' N' L' q' pc' s' w' where
      "loop_step e pc s w = Some (pc', s', w')" "system_at G th R' N' L' n q' (pc', s', w')"
      "round_move Loop (pc, R, N, L) (pc', R', N', L')" by blast
    then show ?thesis
      using st Loop d(1)
      by (intro exI [of _ R'] exI [of _ N'] exI [of _ L'] exI [of _ n] exI [of _ q'] exI [of _ "(pc', s', w')"])
        (simp add: reactor_move_def)
  next
    case (Fiber a)
    then have cur: "re_current s \<noteq> 0" and leg: "legal_call a s" using due st by (simp_all add: due_def)
    have "\<exists>f r. pc = L_entered f r" using pk cur by (cases pc) (simp_all add: pc_ok_def)
    then obtain f r where pc: "pc = L_entered f r" by blast
    have "g_reactor th \<noteq> 0" using th W(6) by simp
    from fiber_call_spec [OF ok this cur leg] obtain new L' s' w' where r: "fiber_call e th a s w = Some (s', w')"
      "world_ok G ((R @ N) @ new) L' n q (s', w')" "re_self s' = re_self s"
      "L' = L \<or> (\<exists>f. f \<notin> set L \<and> new = [f] \<and> L' = f # L)" by blast
    have "system_at G th R (N @ new) L' n q (pc, s', w')"
      using r(2,3) th pk pc by (simp add: system_at_def pc_ok_def)
    moreover have "reactor_move e th m st = Some (pc, s', w')" using st Fiber cur r(1) by (simp add: reactor_move_def)
    moreover have "round_move m (pc, R, N, L) (pc, R, N @ new, L')" using Fiber r(4) by (auto simp: round_move_def)
    ultimately show ?thesis
      using st by (intro exI [of _ R] exI [of _ "N @ new"] exI [of _ L'] exI [of _ n] exI [of _ q] exI [of _ "(pc, s', w')"]) simp
  next
    case (Post c)
    have n: "n < 2 ^ 62" "cmd_ok s c"
      using due st Post W(3) ring_count [of "re_cmds s" n q] by (auto simp: due_def cmds_ok_def)
    have pc_same: "pc_ok pc R N L (s\<lparr>re_cmds := r\<rparr>) = pc_ok pc R N L s" for r by (simp add: pc_ok_def split: loop_pc.split)
    have keep: "system_at G th R N L n' q' (pc, s\<lparr>re_cmds := r\<rparr>, w'\<lparr>w_errno := x\<rparr>)"
      if "calm (c_regs G) w w'" "cmds_ok (s\<lparr>re_cmds := r\<rparr>) n' q'" for w' r n' q' x
    proof -
      have "pools_ok G L s w'" using pools_ok_frame [OF frame_refl calm_quiet [OF that(1)], of G L s] W(2) by simp
      then have "pools_ok G L (s\<lparr>re_cmds := r\<rparr>) (w'\<lparr>w_errno := x\<rparr>)" by (simp add: pools_ok_def)
      moreover have "reactor_ok (c_regs G (w_sys w')) (R @ N) L s" using reactor_ok_mono [OF W(1)] that(1) by (simp add: calm_def)
      ultimately show ?thesis using that(2) W pk th pc_same by (simp add: system_at_def world_ok_def)
    qed
    from W(3) n(2,1) show ?thesis
    proof (cases rule: post_spec [where w = w])
      case (posted s' w')
      have "reactor_move e th m st = Some (pc, s', w'\<lparr>w_errno := w_errno w\<rparr>)"
        using st Post posted(1) by (simp add: reactor_move_def)
      moreover have "system_at G th R N L (n + 1) (q @ [c]) (pc, s', w'\<lparr>w_errno := w_errno w\<rparr>)"
        using keep [OF posted(5), of "re_cmds s'"] posted(3,4) by metis
      moreover have "round_move m (pc, R, N, L) (pc, R, N, L)" using Post by (simp add: round_move_def)
      ultimately show ?thesis
        using st
        by (intro exI [of _ R] exI [of _ N] exI [of _ L] exI [of _ "n + 1"] exI [of _ "q @ [c]"]
            exI [of _ "(pc, s', w'\<lparr>w_errno := w_errno w\<rparr>)"]) simp
    next
      case (full w')
      have "reactor_move e th m st = Some (pc, s, w'\<lparr>w_errno := w_errno w\<rparr>)"
        using st Post full(1) by (simp add: reactor_move_def)
      moreover have "system_at G th R N L n q (pc, s, w'\<lparr>w_errno := w_errno w\<rparr>)"
        using keep [OF full(3), of "re_cmds s"] W(3) by simp
      moreover have "round_move m (pc, R, N, L) (pc, R, N, L)" using Post by (simp add: round_move_def)
      ultimately show ?thesis
        using st
        by (intro exI [of _ R] exI [of _ N] exI [of _ L] exI [of _ n] exI [of _ q]
            exI [of _ "(pc, s, w'\<lparr>w_errno := w_errno w\<rparr>)"]) simp
    qed
  qed
qed

end

end
