(* ===== verification/Reactor_Create.thy ===== *)
theory Reactor_Create
  imports Reactor_System
begin

text \<open>
  \<open>cfiber_reactor_create\<close> builds a reactor in which the invariant holds, or fails with every block and
  mapping given back; \<open>cfiber_reactor_destroy\<close> gives them all back, also those of fibers that never
  finished.
\<close>

section \<open>The stack size\<close>

lemma round_stack_size_ok:
  assumes pg: "page = 2 ^ k" "k < 32" and sz: "0 < unat sz" "unat sz + 2 * page \<le> 2 ^ 64"
  shows "unat (round_stack_size (of_nat page) sz) = (unat sz + (page - 1)) div page * page"
    "growable_max_ok page (round_stack_size (of_nat page) sz)" "unat sz \<le> unat (round_stack_size (of_nat page) sz)"
    "unat (round_stack_size (of_nat page) sz) < unat sz + page"
proof -
  let ?r = "(unat sz + (page - 1)) div page * page"
  have p0: "0 < page" using pg(1) by simp
  have "(2 :: nat) ^ k < 2 ^ 32" using pg(2) by (intro power_strict_increasing) simp_all
  then have p32: "page < 2 ^ 32" using pg(1) by simp
  have w: "(of_nat page :: u64) = 2 ^ k" using pg(1) by simp
  have up: "page = 0 + page" by simp
  have m: "?r = unat sz + (page - 1) - (unat sz + (page - 1)) mod page" by (simp add: minus_mod_eq_div_mult)
  have md: "(unat sz + (page - 1)) mod page \<le> page - 1" using p0 by (simp add: less_Suc_eq_le [symmetric])
  have lo: "unat sz \<le> ?r" unfolding m using md by linarith
  have hi: "?r < unat sz + page" unfolding m using p0 by linarith
  have a: "unat ((sz + of_nat page - 1) AND NOT (of_nat page - 1)) = ?r"
  proof -
    have "unat sz + (2 ^ k - 1) < 2 ^ 64" using sz(2) pg(1) p0 by linarith
    then have "unat (align_up sz (2 ^ k)) = (unat sz + (2 ^ k - 1)) div 2 ^ k * 2 ^ k" using pg(2) by (intro align_up_pow2) simp_all
    then show ?thesis by (simp add: align_up_def w pg(1))
  qed
  have ge: "page \<le> ?r"
  proof -
    have "page \<le> unat sz + (page - 1)" using sz(1) by linarith
    then have "1 \<le> (unat sz + (page - 1)) div page" using p0 by (simp add: div_greater_zero_iff Suc_leI)
    then have "1 * page \<le> ?r" by (rule mult_le_mono1)
    then show ?thesis by (simp only: mult_1)
  qed
  have u: "unat (of_nat page :: u64) = page" using p32 by (intro unat_of_nat_small) simp
  have "\<not> (sz + of_nat page - 1) AND NOT (of_nat page - 1) < (of_nat page :: u64)"
    unfolding word_less_nat_alt a u using ge by (rule leD)
  then have "round_stack_size (of_nat page) sz = (sz + of_nat page - 1) AND NOT (of_nat page - 1)"
    by (simp add: round_stack_size_def)
  then show e: "unat (round_stack_size (of_nat page) sz) = ?r" using a by simp
  show "unat sz \<le> unat (round_stack_size (of_nat page) sz)" "unat (round_stack_size (of_nat page) sz) < unat sz + page"
    unfolding e by (rule lo, rule hi)
  have "0 < ?r" using lo sz(1) by linarith
  moreover have "?r + page < 2 ^ 64" using hi sz(2) by linarith
  moreover have "?r mod page = 0" by simp
  ultimately show "growable_max_ok page (round_stack_size (of_nat page) sz)" unfolding growable_max_ok_def e by blast
qed

text \<open>A size within a page of \<open>2^64\<close> wraps: the reactor gets one-page stacks.\<close>

lemma round_stack_size_wraps:
  assumes pg: "page = 2 ^ k" "0 < k" "k < 32" and sz: "2 ^ 64 \<le> unat sz + (page - 1)"
  shows "round_stack_size (of_nat page) sz = of_nat page"
proof -
  have "(2 :: nat) ^ k < 2 ^ 32" using pg(3) by (intro power_strict_increasing) simp_all
  then have p32: "page < 2 ^ 32" using pg(1) by simp
  have p0: "0 < page" using pg(1) by simp
  have u: "unat (of_nat page - 1 :: u64) = page - 1"
  proof -
    have "of_nat page - 1 = (of_nat (page - 1) :: u64)" using p0 by (simp add: of_nat_diff)
    then show ?thesis using p32 unat_of_nat_small [of "page - 1", where 'a = 64] by simp
  qed
  let ?x = "sz + of_nat page - 1 :: u64"
  have "?x = sz + (of_nat page - 1)" by (rule add_diff_eq [symmetric])
  moreover have "unat (sz + (of_nat page - 1)) = (unat sz + (page - 1)) mod 2 ^ LENGTH(64)"
    using unat_word_ariths(1) [of sz "of_nat page - 1"] unfolding u .
  ultimately have "unat ?x = (unat sz + (page - 1)) mod 2 ^ 64" by (simp only: len_num0 len_bit0 len_num1 mult_2) simp
  also have "\<dots> = unat sz + (page - 1) - 2 ^ 64" using sz unat_lt64 [of sz] p32 by (simp add: mod_if)
  finally have x: "unat ?x < page" using unat_lt64 [of sz] p0 by linarith
  have "?x AND NOT (of_nat page - 1) = 0"
  proof -
    have "?x AND NOT (mask k) = ?x - take_bit k ?x" by (rule and_not_mask_eq)
    moreover have "take_bit k ?x = ?x"
      using x pg(1) by (simp add: word_unat_eq_iff unsigned_take_bit_eq take_bit_nat_eq_self)
    moreover have "(of_nat page - 1 :: u64) = mask k" using pg(1) by (simp add: mask_eq_exp_minus_1)
    ultimately show ?thesis by simp
  qed
  moreover have "(0 :: u64) < of_nat page" using p0 p32 by (simp add: word_less_nat_alt unat_of_nat_small)
  ultimately show ?thesis by (simp add: round_stack_size_def)
qed

section \<open>A new reactor\<close>

lemma empty_reactor_ok:
  assumes "re_blocks s = Map.empty" "re_ready_head s = 0" "re_ready_tail s = 0" "re_live_head s = 0" "re_heap s = []"
    "re_heap_cap s = 0" "re_fd_owner s = []" "re_current s = 0" "re_zombie s = 0" "re_active s = 0" "re_blocked s = 0"
    and A: "\<And>fd p one. (fd, p, one) \<in> A \<Longrightarrow> \<not> one \<and> p = re_self s"
  shows "reactor_ok A [] [] s"
proof -
  have no: "vw g Map.empty = Map.empty" for g :: "ev_fiber \<Rightarrow> 'x" by (simp add: vw_def fun_eq_iff)
  have "timers_ok s" using assms by (simp add: timers_ok_def back_ok_def is_heap_def heap_at_def)
  then have "t_ok s" using assms by (simp add: t_ok_def)
  moreover have "d_ok A (re_self s) (re_fd_owner s) (v_fd (re_blocks s))"
    using assms(1,7) A by (auto simp: d_ok_def armed_by_def no)
  moreover have "states_ok s [] []" using assms by (simp add: states_ok_def in_st_def ptr_set_def no)
  ultimately show ?thesis using assms by (simp add: reactor_ok_def)
qed

text \<open>The reactor's pool comes from \<open>calloc\<close>; the epoll set and the eventfd have the descriptors the
  contract speaks of.\<close>

locale reactor_libc = reactor_world e G
  for e :: "('v, 'k) renv" and G :: "(libc_heap, 'v, 'k) contract" +
  fixes place :: placement
  assumes pool_alloc: "c_alloc G = zeroing_alloc place"
    and pool_free: "c_free G = zeroing_free"
    and epoll_fd: "sys_epoll_create (e_sys e) k = (r, k') \<Longrightarrow> r < 0 \<or> r = c_epfd G"
    and event_fd: "sys_eventfd (e_sys e) k = (r, k') \<Longrightarrow> r < 0 \<or> r = c_evfd G"
begin

lemma close_if_open_calm: "calm (c_regs G) w (close_if_open e fd w)"
proof (cases "fd \<ge> 0")
  case True
  obtain r k where c: "sys_close (e_sys e) fd (w_sys w) = (r, k)" by fastforce
  obtain r' w' where l: "libc_ret r (w\<lparr>w_sys := k\<rparr>) = (r', w')" by fastforce
  have "calm (c_regs G) (w\<lparr>w_sys := k\<rparr>) w'" "w_sys w' = k" using calm_libc_ret [OF l] by auto
  then have "calm (c_regs G) w w'" using k.close_regs [OF c] by (simp add: calm_def)
  then show ?thesis using True c l by (simp add: close_if_open_def c_close_def)
qed (simp add: close_if_open_def)

text \<open>The failure path gives the pool back; nothing was mapped.\<close>

lemma create_fail_spec:
  assumes "c_heap_ok G (w_heap w)" "ms_inv (c_alloc G) (c_free G) (c_regions G (w_heap w)) (re_fibers s)"
    "ms_rest (c_regions G (w_heap w)) (re_fibers s) = c_regions G (w_heap w)"
  obtains w' where "create_fail e s w = Some (None, w')" "c_heap_ok G (w_heap w')"
    "c_regions G (w_heap w') = c_regions G (w_heap w)" "w_vm w' = w_vm w"
proof -
  let ?w1 = "close_if_open e (re_evfd s) w"
  let ?w2 = "close_if_open e (re_epfd s) ?w1"
  obtain r w3 where r: "ring_destroy e (re_cmds s) ?w2 = (r, w3)" by fastforce
  have "calm (c_regs G) w ?w2" using calm_trans [OF close_if_open_calm close_if_open_calm] .
  then have w3: "w_heap w3 = w_heap w" "w_vm w3 = w_vm w" using r by (auto simp: ring_destroy_def calm_def)
  obtain h where h: "cfiber_multislab_destroy (re_fibers s) (w_heap w) = Some (ms_zero, h)" "c_heap_ok G h"
    "c_regions G h = ms_rest (c_regions G (w_heap w)) (re_fibers s)" by (rule h.destroy_spec [OF assms(1,2)])
  have "create_fail e s w = Some (None, w3\<lparr>w_heap := h, w_sys := sys_free (e_sys e) (re_self s) (w_sys w3)\<rparr>)"
    using r w3 h(1) by (simp add: create_fail_def)
  then show thesis by (rule that) (use h assms(3) w3 in simp_all)
qed

end

context reactor_libc
begin

text \<open>The descriptors: all made and the eventfd registered, or the reactor given up.\<close>

lemma create_epoll_spec:
  assumes ok: "c_heap_ok G (w_heap w)" "ms_inv (c_alloc G) (c_free G) (c_regions G (w_heap w)) (re_fibers s)"
    "ms_rest (c_regions G (w_heap w)) (re_fibers s) = c_regions G (w_heap w)" and none: "c_regs G (w_sys w) = {}"
  obtains
    (gone) w' where "create_epoll e nxt s w = Some (None, w')" "c_regions G (w_heap w') = c_regions G (w_heap w)" "w_vm w' = w_vm w"
  | (made) w' where "create_epoll e nxt s w = nxt (s\<lparr>re_epfd := c_epfd G, re_evfd := c_evfd G\<rparr>) w'" "quiet w w'"
      "c_regs G (w_sys w') \<subseteq> {(c_evfd G, re_self s, False)}"
proof -
  have fail: thesis if "quiet w v" "create_epoll e nxt s w = create_fail e t v" and t: "re_fibers t = re_fibers s" for v t
  proof -
    have v: "w_heap v = w_heap w" "w_vm v = w_vm w" using that(1) by (simp_all add: quiet_def)
    obtain w' where "create_fail e t v = Some (None, w')" "c_heap_ok G (w_heap w')"
      "c_regions G (w_heap w') = c_regions G (w_heap v)" "w_vm w' = w_vm v"
      by (rule create_fail_spec [of v t]) (simp_all add: v ok t)
    then show thesis using gone [of w'] that(2) v by simp
  qed
  obtain r1 k1 where c1: "sys_epoll_create (e_sys e) (w_sys w) = (r1, k1)" by fastforce
  obtain r1' w1 where l1: "libc_ret r1 (w\<lparr>w_sys := k1\<rparr>) = (r1', w1)" by fastforce
  have w1: "quiet w w1" "w_sys w1 = k1" "r1' < 0 \<longleftrightarrow> r1 < 0"
    using calm_libc_ret [OF l1, of "c_regs G"] by (auto simp: calm_def quiet_def)
  show thesis
  proof (cases "r1' < 0")
    case True
    then show thesis using fail [OF w1(1), of "s\<lparr>re_epfd := r1'\<rparr>"] c1 l1 by (simp add: create_epoll_def)
  next
    case False
    then have r1: "r1' = c_epfd G" using epoll_fd [OF c1] l1 w1(3) by (auto simp: libc_ret_def split: if_splits)
    obtain r2 k2 where c2: "sys_eventfd (e_sys e) (w_sys w1) = (r2, k2)" by fastforce
    obtain r2' w2 where l2: "libc_ret r2 (w1\<lparr>w_sys := k2\<rparr>) = (r2', w2)" by fastforce
    have w2: "quiet w1 w2" "w_sys w2 = k2" "r2' < 0 \<longleftrightarrow> r2 < 0"
      using calm_libc_ret [OF l2, of "c_regs G"] by (auto simp: calm_def quiet_def)
    have q2: "quiet w w2" by (rule quiet_trans [OF w1(1) w2(1)])
    show thesis
    proof (cases "r2' < 0")
      case True
      then show thesis using fail [OF q2, of "s\<lparr>re_epfd := r1', re_evfd := r2'\<rparr>"] False c1 l1 c2 l2 by (simp add: create_epoll_def)
    next
      case nf: False
      then have r2: "r2' = c_evfd G" using event_fd [OF c2] l2 w2(3) by (auto simp: libc_ret_def split: if_splits)
      obtain r3 k3 where c3: "sys_epoll_ctl (e_sys e) (c_epfd G) EPOLL_CTL_ADD (c_evfd G) (Some (EPOLLIN, re_self s)) (w_sys w2) = (r3, k3)"
        by fastforce
      obtain r3' w3 where l3: "libc_ret r3 (w2\<lparr>w_sys := k3\<rparr>) = (r3', w3)" by fastforce
      have w3: "quiet w2 w3" "w_sys w3 = k3" "r3' < 0 \<longleftrightarrow> r3 < 0"
        using calm_libc_ret [OF l3, of "c_regs G"] by (auto simp: calm_def quiet_def)
      have q3: "quiet w w3" by (rule quiet_trans [OF q2 w3(1)])
      show thesis
      proof (cases "r3' < 0")
        case True
        then show thesis using fail [OF q3, of "s\<lparr>re_epfd := r1', re_evfd := r2'\<rparr>"] False nf c1 l1 c2 l2 c3 l3 r1 r2
          by (simp add: create_epoll_def c_epoll_ctl_def)
      next
        case True3: False
        have "\<not> oneshot EPOLLIN" by (simp add: oneshot_def EPOLLIN_def EPOLLONESHOT_def)
        moreover have "c_regs G k2 = {}"
          using none k.create_regs [OF c1] k.eventfd_regs [OF c2] w1(2) by auto
        ultimately have "c_regs G k3 \<subseteq> {(c_evfd G, re_self s, False)}"
          using k.ctl_set [OF disjI1 [OF refl] c3] True3 w3(3) w2(2) by auto
        then show thesis using made [of w3] q3 False nf True3 c1 l1 c2 l2 c3 l3 r1 r2 w3(2)
          by (simp add: create_epoll_def c_epoll_ctl_def)
      qed
    qed
  qed
qed

end
definition fresh_for :: "(libc_heap, 'v, 'k) contract \<Rightarrow> cfiber_reactor_config \<Rightarrow> (libc_heap, 'v, 'k) world \<Rightarrow> bool" where
  "fresh_for G config w \<longleftrightarrow> c_heap_ok G (w_heap w) \<and> c_vm_ok G (w_vm w) \<and> c_regs G (w_sys w) = {} \<and>
     c_heap_rest G = c_regions G (w_heap w) \<and> c_vm_rest G = c_mapped G (w_vm w) \<and>
     c_stack_size G = round_stack_size (of_nat (c_page G)) (rc_stack_size config)"

context reactor_libc
begin

lemma create_stacks_spec:
  assumes ok: "c_heap_ok G (w_heap w)" "ms_inv (c_alloc G) (c_free G) (c_regions G (w_heap w)) (re_fibers s)"
    "ms_rest (c_regions G (w_heap w)) (re_fibers s) = c_regions G (w_heap w)"
    and vm: "c_vm_ok G (w_vm w)" and mx: "growable_max_ok (c_page G) mx"
  obtains
    (gone) w' where "create_stacks e config mx s w = Some (None, w')" "c_regions G (w_heap w') = c_regions G (w_heap w)"
      "c_mapped G (w_vm w') = c_mapped G (w_vm w)"
  | (made) ga v where "create_stacks e config mx s w = Some (Some (s\<lparr>re_stacks := ga, re_stack_size := mx\<rparr>), w\<lparr>w_vm := v\<rparr>)"
      "c_vm_ok G v" "ga_inv (c_page G) (c_mapped G v) ga []" "ga_rest (c_mapped G v) ga [] = c_mapped G (w_vm w)"
      "ga_self ga \<noteq> 0" "ga_max_stack_size ga = mx"
proof -
  let ?args = "\<lparr>arg_max_stack_size = mx, arg_cache_capacity = (if rc_stack_cache config \<noteq> 0 then rc_stack_cache config else 64),
    arg_initial_cached = 0\<rparr>"
  have a: "growable_max_ok (c_page G) (arg_max_stack_size ?args)" "arg_cache_capacity ?args \<noteq> 0"
    "arg_initial_cached ?args \<le> arg_cache_capacity ?args" using mx by simp_all
  from vm a show thesis
  proof (cases rule: v.allocator_create_spec [where nd = "e_nd e"])
    case (none v)
    obtain w' where "create_fail e s (w\<lparr>w_vm := v\<rparr>) = Some (None, w')" "c_heap_ok G (w_heap w')"
      "c_regions G (w_heap w') = c_regions G (w_heap (w\<lparr>w_vm := v\<rparr>))" "w_vm w' = w_vm (w\<lparr>w_vm := v\<rparr>)"
      by (rule create_fail_spec [of "w\<lparr>w_vm := v\<rparr>" s]) (simp_all add: ok)
    then show thesis using gone [of w'] none by (simp add: create_stacks_def)
  next
    case (made ga v)
    then show thesis using that(2) [of ga v] by (simp add: create_stacks_def ga_rest_def)
  qed
qed

text \<open>Either nothing is kept, or the reactor is one with no fiber, in which the invariant holds.\<close>

lemma create_spec:
  assumes fresh: "fresh_for G config w"
    and sz: "0 < unat (rc_stack_size config)" "unat (rc_stack_size config) + 2 * c_page G \<le> 2 ^ 64"
  obtains
    (gone) w' where "cfiber_reactor_create place e config w = Some (None, w')"
      "c_regions G (w_heap w') = c_regions G (w_heap w)" "c_mapped G (w_vm w') = c_mapped G (w_vm w)"
  | (made) s w' where "cfiber_reactor_create place e config w = Some (Some s, w')" "world_ok G [] [] 0 [] (s, w')"
      "re_current s = 0" "re_zombie s = 0" "re_active s = 0"
proof -
  have F: "c_heap_ok G (w_heap w)" "c_vm_ok G (w_vm w)" "c_regs G (w_sys w) = {}"
    "c_heap_rest G = c_regions G (w_heap w)" "c_vm_rest G = c_mapped G (w_vm w)"
    "c_stack_size G = round_stack_size (of_nat (c_page G)) (rc_stack_size config)"
    using fresh by (simp_all add: fresh_for_def)
  let ?mx = "round_stack_size (of_nat (c_page G)) (rc_stack_size config)"
  have mx: "growable_max_ok (c_page G) ?mx" by (rule round_stack_size_ok(2) [OF v.page_range sz])
  have ps: "vm_pagesize (e_vm e) (w_vm w) = int (c_page G)" "0 < c_page G" using v.pagesize v.page_range(1) by simp_all
  have nz: "rc_stack_size config \<noteq> 0" using sz(1) by auto
  obtain p k where p: "sys_aligned_alloc (e_sys e) CFIBER_CACHE_LINE_SIZE (align_up SIZEOF_REACTOR CFIBER_CACHE_LINE_SIZE) (w_sys w) = (p, k)"
    by fastforce
  let ?w1 = "w\<lparr>w_sys := k\<rparr>"
  have k1: "c_regs G k = {}" using k.aligned_regs [OF p] F(3) by simp
  have acc: "init_accepts (align_up SIZEOF_EV_FIBER CFIBER_CACHE_LINE_SIZE) DEFAULT_FIBERS_PER_SLAB"
    by (simp add: init_accepts_def SIZEOF_EV_FIBER_def CFIBER_CACHE_LINE_SIZE_def DEFAULT_FIBERS_PER_SLAB_def align_up_def)
  obtain ms where ms: "cfiber_multislab_init_ext ms_zero (align_up SIZEOF_EV_FIBER CFIBER_CACHE_LINE_SIZE) DEFAULT_FIBERS_PER_SLAB 0
      UINT32_MAX (Some (c_alloc G)) (Some (c_free G)) 0 = (0, ms)"
    "ms_inv (c_alloc G) (c_free G) (c_regions G (w_heap w)) ms" "ms_live ms = {}"
    "ms_rest (c_regions G (w_heap w)) ms = c_regions G (w_heap w)"
    by (rule init_ext_accept [OF acc, where M = "c_regions G (w_heap w)" and ms = ms_zero and mx = 0 and hy = UINT32_MAX
        and al = "c_alloc G" and fr = "c_free G" and ctx = 0])
  let ?s = "(reactor_zero p)\<lparr>re_fibers := ms\<rparr>"
  obtain rc r w2 where r: "ring_init e ring_zero CMD_RING_CAP ?w1 = (rc, r, w2)" by (metis surj_pair)
  have w2: "quiet w w2" "c_regs G (w_sys w2) = {}"
  proof -
    obtain q k2 where q: "sys_calloc (e_sys e) CMD_RING_CAP SIZEOF_CELL k = (q, k2)" by fastforce
    then have "w2 = ?w1\<lparr>w_sys := k2\<rparr>" using r by (auto simp: ring_init_def Let_def split: if_splits)
    then show "quiet w w2" "c_regs G (w_sys w2) = {}" using k.calloc_regs [OF q] k1 by (auto simp: quiet_def)
  qed
  have ok2: "c_heap_ok G (w_heap w2)" "ms_inv (c_alloc G) (c_free G) (c_regions G (w_heap w2)) (re_fibers (?s\<lparr>re_cmds := r\<rparr>))"
    "ms_rest (c_regions G (w_heap w2)) (re_fibers (?s\<lparr>re_cmds := r\<rparr>)) = c_regions G (w_heap w2)"
    using F(1) ms w2(1) by (simp_all add: quiet_def)
  have run: "cfiber_reactor_create place e config w =
     (if p = 0 then Some (None, ?w1)
      else if rc \<noteq> 0 then create_fail e (?s\<lparr>re_cmds := r\<rparr>) w2
      else create_epoll e (create_stacks e config ?mx) (?s\<lparr>re_cmds := r\<rparr>) w2)"
    using ps nz p ms(1) r unfolding pool_alloc pool_free
    by (simp add: cfiber_reactor_create_def reactor_zero_def)
  show thesis
  proof (cases "p = 0 \<or> rc \<noteq> 0")
    case True
    show thesis
    proof (cases "p = 0")
      case True
      then show thesis using gone [of ?w1] run by simp
    next
      case False
      obtain w' where "create_fail e (?s\<lparr>re_cmds := r\<rparr>) w2 = Some (None, w')" "c_heap_ok G (w_heap w')"
        "c_regions G (w_heap w') = c_regions G (w_heap w2)" "w_vm w' = w_vm w2" by (rule create_fail_spec [OF ok2])
      then show thesis using gone [of w'] run True False w2(1) by (simp add: quiet_def)
    qed
  next
    case False
    then have p0: "p \<noteq> 0" and rc: "rc = 0" by simp_all
    have ring: "ring_queue r 0 []" "length (cells r) = 1024"
    proof -
      have "CMD_RING_CAP = 2 ^ 10" by (simp add: CMD_RING_CAP_def)
      note I = ring_init_spec [OF r [unfolded rc] this]
      show "length (cells r) = 1024" using I(2) by simp
      show "ring_queue r 0 []" using I(1) unfolding ring_queue_def by auto
    qed
    from ok2 w2(2) show thesis
    proof (cases rule: create_epoll_spec [where nxt = "create_stacks e config ?mx"])
      case (gone w')
      then show thesis using that(1) [of w'] run p0 rc w2(1) by (simp add: quiet_def)
    next
      case (made w3)
      let ?t = "?s\<lparr>re_cmds := r, re_epfd := c_epfd G, re_evfd := c_evfd G\<rparr>"
      have q3: "quiet w w3" by (rule quiet_trans [OF w2(1) made(2)])
      have ok3: "c_heap_ok G (w_heap w3)" "ms_inv (c_alloc G) (c_free G) (c_regions G (w_heap w3)) (re_fibers ?t)"
        "ms_rest (c_regions G (w_heap w3)) (re_fibers ?t) = c_regions G (w_heap w3)" "c_vm_ok G (w_vm w3)"
        using F(1,2) ms q3 by (simp_all add: quiet_def)
      from ok3 mx show thesis
      proof (cases rule: create_stacks_spec [where config = config])
        case (gone w')
        then show thesis using that(1) [of w'] run p0 rc q3 made(1) by (simp add: quiet_def)
      next
        case stacks: (made ga v)
        let ?u = "?t\<lparr>re_stacks := ga, re_stack_size := ?mx\<rparr>"
        have "\<not> one \<and> x = p" if "(fd, x, one) \<in> c_regs G (w_sys w3)" for fd x one
          using that made(3) by (auto simp: reactor_zero_def)
        then have "reactor_ok (c_regs G (w_sys w3)) [] [] ?u" by (intro empty_reactor_ok) (auto simp: reactor_zero_def)
        moreover have "pools_ok G [] ?u (w3\<lparr>w_vm := v\<rparr>)"
          using ok3 stacks ms(2-4) F(4-6) q3 by (simp add: pools_ok_def quiet_def)
        moreover have "cmds_ok ?u 0 []" using ring by (simp add: cmds_ok_def)
        ultimately have "world_ok G [] [] 0 [] (?u, w3\<lparr>w_vm := v\<rparr>)" using p0 by (simp add: world_ok_def reactor_zero_def)
        then show thesis using that(2) [of ?u "w3\<lparr>w_vm := v\<rparr>"] run p0 rc made(1) stacks(1) by (simp add: reactor_zero_def)
      qed
    qed
  qed
qed

end
section \<open>Destroying a reactor\<close>

context reactor_world
begin

text \<open>The walk over the live list: each fiber's stack goes back to the allocator.\<close>

lemma release_stacks_spec:
  "\<lbrakk>walk_from (v_links (re_blocks s)) f L; distinct L; c_vm_ok G v;
    ga_inv (c_page G) (c_mapped G v) (re_stacks s) (map (stk (re_blocks s)) L)\<rbrakk> \<Longrightarrow>
   \<exists>s' v'. release_stacks e f s v = Some (s', v') \<and> c_vm_ok G v' \<and>
     ga_inv (c_page G) (c_mapped G v') (re_stacks s') [] \<and>
     ga_rest (c_mapped G v') (re_stacks s') [] = ga_rest (c_mapped G v) (re_stacks s) (map (stk (re_blocks s)) L) \<and>
     ga_self (re_stacks s') = ga_self (re_stacks s) \<and> re_fibers s' = re_fibers s"
proof (induction L arbitrary: f s v)
  case Nil
  then show ?case by (intro exI [of _ s] exI [of _ v]) (simp add: release_stacks.simps [of e 0])
next
  case (Cons x L)
  obtain nx pv where x: "f = x" "x \<noteq> 0" "v_links (re_blocks s) x = Some (nx, pv)" "walk_from (v_links (re_blocks s)) nx L"
    using walk_Cons [OF Cons.prems(1)] by auto
  obtain c where c: "re_blocks s x = Some c" "ef_live_next c = nx" using x(3) by (auto simp: vw_def)
  have st: "stk (re_blocks s) x = ef_stack c" using c(1) by (simp add: stk_def)
  have inv: "ga_inv (c_page G) (c_mapped G v) (re_stacks s) (ef_stack c # map (stk (re_blocks s)) L)"
    using Cons.prems(4) st by simp
  obtain ga v1 where g: "cfiber_growable_stack_release (e_nd e) (e_vm e) (re_stacks s) (ef_stack c) v = Some (ga, stack_null, v1)"
    "c_vm_ok G v1" "ga_inv (c_page G) (c_mapped G v1) ga (remove1 (ef_stack c) (ef_stack c # map (stk (re_blocks s)) L))"
    "ga_max_stack_size ga = ga_max_stack_size (re_stacks s)"
    "mem_base (ef_stack c) \<notin> mem_base ` set (remove1 (ef_stack c) (ef_stack c # map (stk (re_blocks s)) L))"
    "ga_self ga = ga_self (re_stacks s)"
    "ga_rest (c_mapped G v1) ga (remove1 (ef_stack c) (ef_stack c # map (stk (re_blocks s)) L)) =
      ga_rest (c_mapped G v) (re_stacks s) (ef_stack c # map (stk (re_blocks s)) L)"
    by (rule v.growable_release_spec [OF Cons.prems(3) inv list.set_intros(1)])
  let ?s = "s\<lparr>re_stacks := ga, re_blocks := (re_blocks s)(x \<mapsto> c\<lparr>ef_stack := stack_null\<rparr>)\<rparr>"
  have links: "v_links (re_blocks ?s) = v_links (re_blocks s)" using c(1) by (simp add: vw_Some)
  have same: "map (stk (re_blocks ?s)) L = map (stk (re_blocks s)) L" using Cons.prems(2) by auto
  have "walk_from (v_links (re_blocks ?s)) nx L" unfolding links by (rule x(4))
  moreover have "ga_inv (c_page G) (c_mapped G v1) (re_stacks ?s) (map (stk (re_blocks ?s)) L)" unfolding same using g(3) by simp
  ultimately obtain s' v' where r: "release_stacks e nx ?s v1 = Some (s', v')" "c_vm_ok G v'"
    "ga_inv (c_page G) (c_mapped G v') (re_stacks s') []"
    "ga_rest (c_mapped G v') (re_stacks s') [] = ga_rest (c_mapped G v1) (re_stacks ?s) (map (stk (re_blocks ?s)) L)"
    "ga_self (re_stacks s') = ga_self (re_stacks ?s)" "re_fibers s' = re_fibers ?s"
    using Cons.IH [OF _ _ g(2)] Cons.prems(2) by (meson distinct.simps(2))
  have "release_stacks e f s v = Some (s', v')"
    using x c g(1) r(1) by (simp add: release_stacks.simps [of e x])
  moreover have "ga_rest (c_mapped G v') (re_stacks s') [] = ga_rest (c_mapped G v) (re_stacks s) (map (stk (re_blocks s)) (x # L))"
    unfolding r(4) same using g(7) st by simp
  ultimately show ?case using r(2,3,5,6) g(6) by auto
qed

text \<open>Nothing the reactor held is left, whatever its fibers were doing.\<close>

lemma destroy_reactor_spec:
  assumes ok: "world_ok G Q L n q (s, w)" and th: "g_reactor th \<noteq> re_self s"
  obtains w' where "cfiber_reactor_destroy e th (Some s) w = Some w'" "c_heap_ok G (w_heap w')" "c_vm_ok G (w_vm w')"
    "c_regions G (w_heap w') = c_heap_rest G" "c_mapped G (w_vm w') = c_vm_rest G"
proof -
  note W = world_okD [OF ok]
  note P = pools_okD [OF W(2)]
  note K = reactor_okD [OF W(1)]
  from release_stacks_spec [OF dll_walk [OF K(2)] dll_distinct [OF K(2)] P(4,5)] obtain s1 v1 where
    r: "release_stacks e (re_live_head s) s (w_vm w) = Some (s1, v1)" "c_vm_ok G v1"
    "ga_inv (c_page G) (c_mapped G v1) (re_stacks s1) []" "ga_rest (c_mapped G v1) (re_stacks s1) [] = c_vm_rest G"
    "ga_self (re_stacks s1) \<noteq> 0" "re_fibers s1 = re_fibers s" unfolding P(7) using P(8) by auto
  obtain h where h: "cfiber_multislab_destroy (re_fibers s) (w_heap w) = Some (ms_zero, h)" "c_heap_ok G h"
    "c_regions G h = c_heap_rest G" using h.destroy_spec [OF P(1,2)] unfolding P(6) by blast
  obtain v2 where v2: "c_vm_ok G v2" "c_mapped G v2 = c_mapped G v1 |` (- (mem_base ` set (ga_cache (re_stacks s1))))"
    "cfiber_growable_stack_allocator_destroy (e_nd e) (e_vm e) (re_stacks s1) v1 = Some (0, v2)"
    using v.growable_destroy_spec [OF r(2,3), of "e_nd e"] by auto
  have m: "c_mapped G v2 = c_vm_rest G" using v2(2) r(4) by (simp add: ga_rest_def)
  have close: "w_heap (close_if_open e fd x) = w_heap x \<and> w_vm (close_if_open e fd x) = w_vm x" for fd and x :: "('h, 'v, 'k) world"
    by (auto simp: close_if_open_def c_close_def libc_ret_def split: prod.splits)
  have "\<exists>w'. cfiber_reactor_destroy e th (Some s) w = Some w' \<and> w_heap w' = h \<and> w_vm w' = v2"
    using th r(1,5,6) h(1) v2(3) close by (simp add: cfiber_reactor_destroy_def ring_destroy_def Let_def)
  then show thesis using that h(2,3) v2(1) m by auto
qed

end

end
