(* ===== verification/Reactor_Demo.thy ===== *)
theory Reactor_Demo
  imports Reactor_Create Growable_Properties
begin

text \<open>
  The contracts of the reactor's environment met by definitions: the kernel \<open>demo_os\<close> for the event
  loop, \<open>vm_kernel\<close> for the stacks, the C heap for the pool. A reactor made there is the example of the
  reactor's properties.
\<close>

definition demo_env :: "(vm_world, demo_state) renv" where
  "demo_env = \<lparr>e_nd = False, e_sys = demo_os, e_vm = demo_kernel, e_prologue = 4194304, e_creator = cpu_zero\<rparr>"

definition demo_kernel_state :: demo_state where
  "demo_kernel_state = \<lparr>dk_regs = [], dk_script = [[], [7]], dk_count = 0, dk_time = 0, dk_allocs = 0\<rparr>"

definition demo_world :: "(libc_heap, vm_world, demo_state) world" where
  "demo_world = \<lparr>w_heap = demo_heap, w_vm = demo_vm, w_sys = demo_kernel_state, w_errno = 0, w_bytes = (\<lambda>_. 0)\<rparr>"

definition demo_thread :: rthread where
  "demo_thread = \<lparr>g_reactor = 0, r_hook = \<lparr>hook_fn = 0, hook_ctx = 0\<rparr>\<rparr>"

definition demo_reactor_config :: cfiber_reactor_config where
  "demo_reactor_config = \<lparr>rc_stack_size = 5000, rc_stack_cache = 2\<rparr>"

definition demo_contract :: "(libc_heap, vm_world, demo_state) contract" where
  "demo_contract = \<lparr>c_regs = demo_regs, c_epfd = 3, c_evfd = 4, c_mapped = vm_mapped, c_vm_ok = vm_ok, c_page = 4096,
     c_shift = 12, c_alloc = zeroing_alloc demo_place, c_free = zeroing_free, c_regions = libc_regions, c_heap_ok = libc_ok,
     c_heap_rest = libc_regions demo_heap, c_vm_rest = vm_mapped demo_vm,
     c_stack_size = round_stack_size 4096 (rc_stack_size demo_reactor_config)\<rparr>"

interpretation demo_reactor: reactor_libc demo_env demo_contract demo_place
proof -
  have "kernel_contract (e_sys demo_env) (c_regs demo_contract) (c_epfd demo_contract) (c_evfd demo_contract)"
    using demo_os.kernel_contract_axioms by (simp add: demo_env_def demo_contract_def)
  moreover have "vm_contract (e_vm demo_env) (c_mapped demo_contract) (c_vm_ok demo_contract) (c_page demo_contract)
      (c_shift demo_contract)"
    using kernel.vm_contract_axioms [of demo_place "\<lambda>_. True" "\<lambda>_. 64"]
    by (simp add: demo_env_def demo_contract_def demo_kernel_def)
  moreover have "backing_allocator (c_alloc demo_contract) (c_free demo_contract) (c_regions demo_contract) (c_heap_ok demo_contract)"
    using libc_zeroing.backing_allocator_axioms [of demo_place] by (simp add: demo_contract_def)
  ultimately have "reactor_world demo_env demo_contract"
    by (simp add: reactor_world_def reactor_env_def reactor_world_axioms_def demo_contract_def)
  then show "reactor_libc demo_env demo_contract demo_place"
    by (auto simp: reactor_libc_def reactor_libc_axioms_def demo_contract_def demo_env_def demo_os_def)
qed

lemma demo_world_is: "reactor_world demo_env demo_contract" "reactor_libc demo_env demo_contract demo_place"
  by (rule demo_reactor.reactor_world_axioms, rule demo_reactor.reactor_libc_axioms)

lemma demo_fresh: "fresh_for demo_contract demo_reactor_config demo_world"
  by (simp add: fresh_for_def demo_contract_def demo_world_def demo_heap_ok demo_vm_ok demo_kernel_state_def demo_regs_def)

definition demo_create ::
  "((libc_heap, vm_world) cfiber_reactor option \<times> (libc_heap, vm_world, demo_state) world) option" where
  "demo_create = cfiber_reactor_create demo_place demo_env demo_reactor_config demo_world"

lemma demo_ring_init:
  assumes "w_sys w = demo_kernel_state\<lparr>dk_allocs := Suc 0\<rparr>"
  shows "\<exists>r. ring_init demo_env ring_zero CMD_RING_CAP w = (0, r, w\<lparr>w_sys := demo_kernel_state\<lparr>dk_allocs := 2\<rparr>\<rparr>)"
proof -
  have "sys_calloc demo_os CMD_RING_CAP SIZEOF_CELL (w_sys w) = (8192, demo_kernel_state\<lparr>dk_allocs := 2\<rparr>)"
    by (simp add: demo_os_def demo_alloc_def CMD_RING_CAP_def SIZEOF_CELL_def assms demo_kernel_state_def)
  then show ?thesis by (simp add: ring_init_def demo_env_def)
qed

definition demo_pool :: "libc_heap cfiber_multislab" where
  "demo_pool = snd (cfiber_multislab_init_ext ms_zero (align_up SIZEOF_EV_FIBER CFIBER_CACHE_LINE_SIZE)
     DEFAULT_FIBERS_PER_SLAB 0 UINT32_MAX (Some (zeroing_alloc demo_place)) (Some zeroing_free) 0)"

lemma demo_create_made:
  "\<exists>s w. demo_create = Some (Some s, w) \<and> re_fibers s = demo_pool \<and> ga_cache (re_stacks s) = [] \<and>
     w_heap w = demo_heap \<and> w_vm w = demo_vm"
proof -
  let ?made = "\<lambda>s x. \<exists>s' w'. x = Some (Some s', w') \<and> re_fibers s' = re_fibers s \<and> ga_cache (re_stacks s') = [] \<and>
     w_heap w' = demo_heap \<and> w_vm w' = demo_vm"
  have page: "vm_pagesize (e_vm demo_env) (w_vm demo_world) = 4096" by (simp add: demo_env_def demo_kernel_def vm_kernel_def)
  have cfg: "rc_stack_size demo_reactor_config = 5000" by (simp add: demo_reactor_config_def)
  have size: "round_stack_size 4096 5000 = 8192" by (simp add: round_stack_size_def)
  have al: "sys_aligned_alloc (e_sys demo_env) CFIBER_CACHE_LINE_SIZE (align_up SIZEOF_REACTOR CFIBER_CACHE_LINE_SIZE) (w_sys demo_world) =
      (4096, demo_kernel_state\<lparr>dk_allocs := Suc 0\<rparr>)"
    by (simp add: demo_env_def demo_os_def demo_alloc_def demo_world_def demo_kernel_state_def SIZEOF_REACTOR_def
      CFIBER_CACHE_LINE_SIZE_def align_up_def)
  have acc: "init_accepts (align_up SIZEOF_EV_FIBER CFIBER_CACHE_LINE_SIZE) DEFAULT_FIBERS_PER_SLAB"
    by (simp add: init_accepts_def SIZEOF_EV_FIBER_def CFIBER_CACHE_LINE_SIZE_def DEFAULT_FIBERS_PER_SLAB_def align_up_def)
  have ms: "cfiber_multislab_init_ext ms_zero (align_up SIZEOF_EV_FIBER CFIBER_CACHE_LINE_SIZE) DEFAULT_FIBERS_PER_SLAB 0
      UINT32_MAX (Some (zeroing_alloc demo_place)) (Some zeroing_free) 0 = (0, demo_pool)"
    unfolding demo_pool_def by (rule init_ext_accept [OF acc, where M = "libc_regions demo_heap" and ms = ms_zero and mx = 0
        and hy = UINT32_MAX and al = "zeroing_alloc demo_place" and fr = zeroing_free and ctx = 0]) simp
  obtain r where r: "ring_init demo_env ring_zero CMD_RING_CAP (demo_world\<lparr>w_sys := demo_kernel_state\<lparr>dk_allocs := Suc 0\<rparr>\<rparr>) =
      (0, r, demo_world\<lparr>w_sys := demo_kernel_state\<lparr>dk_allocs := 2\<rparr>\<rparr>)"
    using demo_ring_init [of "demo_world\<lparr>w_sys := demo_kernel_state\<lparr>dk_allocs := Suc 0\<rparr>\<rparr>"] by auto
  have ring: "re_cmds (reactor_zero 4096) = ring_zero" "re_fibers (reactor_zero 4096) = ms_zero" "re_self (reactor_zero 4096) = 4096" by (simp_all add: reactor_zero_def)
  have made: "?made s (create_stacks demo_env demo_reactor_config 8192 s (demo_world\<lparr>w_sys := k\<rparr>))" for s k
    by (simp add: create_stacks_def cfiber_growable_stack_allocator_create_def demo_reactor_config_def demo_env_def demo_kernel_def
      vm_kernel_def demo_world_def demo_vm_def demo_heap_defs SIZEOF_STACK_def SIZEOF_ALLOCATOR_def Let_def)
  have sys: "sys_epoll_create (e_sys demo_env) k = (3, k)" "sys_eventfd (e_sys demo_env) k = (4, k)" for k
    by (simp_all add: demo_env_def demo_os_def)
  obtain k where k: "sys_epoll_ctl (e_sys demo_env) 3 EPOLL_CTL_ADD 4 (Some (EPOLLIN, 4096)) (demo_kernel_state\<lparr>dk_allocs := 2\<rparr>) = (0, k)"
    by (simp add: demo_env_def demo_os_def demo_kernel_state_def EPOLL_CTL_ADD_def EPOLL_CTL_MOD_def Let_def)
  have "create_epoll demo_env nx s (demo_world\<lparr>w_sys := demo_kernel_state\<lparr>dk_allocs := 2\<rparr>\<rparr>) =
      nx (s\<lparr>re_epfd := 3, re_evfd := 4\<rparr>) (demo_world\<lparr>w_sys := k\<rparr>)" if "re_self s = 4096"
      for nx and s :: "(libc_heap, vm_world) cfiber_reactor"
    using k that by (simp add: create_epoll_def c_epoll_ctl_def libc_ret_def sys)
  then have "?made s (create_epoll demo_env (create_stacks demo_env demo_reactor_config 8192) s
      (demo_world\<lparr>w_sys := demo_kernel_state\<lparr>dk_allocs := 2\<rparr>\<rparr>))" if "re_self s = 4096" for s
    using made [of "s\<lparr>re_epfd := 3, re_evfd := 4\<rparr>" k] that by simp
  from this [of "(reactor_zero 4096)\<lparr>re_fibers := demo_pool, re_cmds := r\<rparr>"] show ?thesis
    by (simp add: demo_create_def cfiber_reactor_create_def page size al ms ring r cfg)
qed

lemma demo_made:
  obtains s w where "demo_create = Some (Some s, w)" "world_ok demo_contract [] [] 0 [] (s, w)" "re_current s = 0"
    "re_zombie s = 0" "re_active s = 0" "re_fibers s = demo_pool" "ga_cache (re_stacks s) = []" "w_heap w = demo_heap" "w_vm w = demo_vm"
proof -
  obtain s w where m: "demo_create = Some (Some s, w)" "re_fibers s = demo_pool" "ga_cache (re_stacks s) = []"
    "w_heap w = demo_heap" "w_vm w = demo_vm" using demo_create_made by blast
  have "0 < unat (rc_stack_size demo_reactor_config)"
    "unat (rc_stack_size demo_reactor_config) + 2 * c_page demo_contract \<le> 2 ^ 64"
    by (simp_all add: demo_reactor_config_def demo_contract_def)
  from demo_fresh this show thesis
    by (cases rule: demo_reactor.create_spec) (use m that [of s w] in \<open>simp_all add: demo_create_def\<close>)
qed

text \<open>A fiber spawned on it.\<close>

lemma demo_spawned_out:
  obtains s w f gen s' w' where "demo_create = Some (Some s, w)" "world_ok demo_contract [] [] 0 [] (s, w)"
    "cfiber_reactor_spawn demo_env s fn arg out w = Some (True, map_option (\<lambda>_. \<lparr>h_f = f, h_gen = gen\<rparr>) out, s', w')"
    "world_ok demo_contract [f] [f] 0 [] (s', w')" "re_current s' = 0" "re_zombie s' = 0" "f \<noteq> 0"
    "vw ef_wait_fd (re_blocks s') f = Some (- 1)"
proof -
  obtain s w where m: "demo_create = Some (Some s, w)" "world_ok demo_contract [] [] 0 [] (s, w)" "re_current s = 0"
    "re_zombie s = 0" "re_active s = 0" "re_fibers s = demo_pool" "ga_cache (re_stacks s) = []" "w_heap w = demo_heap" "w_vm w = demo_vm"
    by (rule demo_made)
  have pool: "\<exists>f ms h. cfiber_multislab_alloc False demo_pool demo_heap = Some (f, ms, h) \<and> f \<noteq> 0"
    by (simp add: demo_pool_def run_defs demo_heap_defs zeroing_alloc_def DEFAULT_FIBERS_PER_SLAB_def UINT32_MAX_def
      SIZEOF_EV_FIBER_def cong: bind_weak_cong)
  have size: "ga_max_stack_size (re_stacks s) = 8192"
    using pools_okD(9) [OF world_okD(2) [OF m(2)]] by (simp add: demo_contract_def demo_reactor_config_def round_stack_size_def)
  have stack: "\<exists>st ga v. cfiber_growable_stack_alloc demo_kernel (re_stacks s) demo_vm = (st, ga, v) \<and> mem_base st \<noteq> 0"
    by (simp add: cfiber_growable_stack_alloc_def m(7) size cfiber_growable_stack_create_def page_size_def demo_kernel_def vm_kernel_def
      demo_vm_def demo_heap_defs MAP_FAILED_def stack_null_def SIZE_MAX_def Let_def libc_aligned_alloc_def)
  from m(2) show thesis
  proof (cases rule: demo_reactor.spawn_spec [where fn = fn and arg = arg and out = out])
    case (failed s' w')
    then show thesis using pool stack m(6,8,9)
      by (auto simp: spawn_locked_def fiber_obtain_def demo_env_def split: Option.bind_splits)
  next
    case (spawned f c s' w')
    have "f \<noteq> 0" using world_ok_queues(7) [OF spawned(2)] by auto
    then show thesis using that [of s w f "ef_generation c" s' w'] m spawned by (simp add: cfiber_reactor_spawn_def vw_def)
  qed
qed


lemma demo_spawned:
  obtains s w f s' w' where "demo_create = Some (Some s, w)" "world_ok demo_contract [] [] 0 [] (s, w)"
    "cfiber_reactor_spawn demo_env s fn arg None w = Some (True, None, s', w')"
    "world_ok demo_contract [f] [f] 0 [] (s', w')" "re_current s' = 0" "re_zombie s' = 0" "f \<noteq> 0"
  by (rule demo_spawned_out [of fn arg None]) (simp only: option.map, rule that)

end
