(* ===== verification/Reactor_Properties.thy ===== *)
theory Reactor_Properties
  imports Reactor_Demo
begin

text \<open>
  The life of a reactor, from its creation to its destruction: fibers are spawned and commands posted
  before it runs, \<open>cfiber_reactor_run\<close> enters the loop, the loop, its fibers and other threads move, the
  run returns, and it may run again. \<open>reactor_life\<close> are the states this reaches: with no thread in the
  loop, or with the thread and its place in the loop.
\<close>

inductive reactor_life ::
  "('v, 'k) renv \<Rightarrow> placement \<Rightarrow> cfiber_reactor_config \<Rightarrow> (libc_heap, 'v, 'k) world \<Rightarrow>
   (rthread \<times> loop_pc) option \<Rightarrow> (libc_heap, 'v, 'k) rstate \<Rightarrow> bool" for e place config w0 where
  made: "cfiber_reactor_create place e config w0 = Some (Some s, w) \<Longrightarrow> reactor_life e place config w0 None (s, w)"
| spawn: "reactor_life e place config w0 None (s, w) \<Longrightarrow> cfiber_reactor_spawn e s fn arg out w = Some (b, out', s', w') \<Longrightarrow>
    reactor_life e place config w0 None (s', w')"
| post: "reactor_life e place config w0 None (s, w) \<Longrightarrow> cmd_ok s c \<Longrightarrow> unat (enqueue_pos (re_cmds s)) < 2 ^ 62 \<Longrightarrow>
    post_cmd e s c w = Some (b, s', w') \<Longrightarrow> reactor_life e place config w0 None (s', w')"
| run: "reactor_life e place config w0 None (s, w) \<Longrightarrow> run_begin hook th s w = (Some (prev, th'), w') \<Longrightarrow>
    reactor_life e place config w0 (Some (th', L_top)) (s, w')"
| move: "reactor_life e place config w0 (Some (th, pc)) (s, w) \<Longrightarrow> due m (pc, s, w) \<Longrightarrow>
    reactor_move e th m (pc, s, w) = Some (pc', s', w') \<Longrightarrow> reactor_life e place config w0 (Some (th, pc')) (s', w')"
| return: "reactor_life e place config w0 (Some (th, L_done rc)) (s, w) \<Longrightarrow> reactor_life e place config w0 None (s, w)"

definition life_ok ::
  "(libc_heap, 'v, 'k) contract \<Rightarrow> (rthread \<times> loop_pc) option \<Rightarrow> (libc_heap, 'v, 'k) rstate \<Rightarrow> bool" where
  "life_ok G at st \<longleftrightarrow>
     (case at of
        None \<Rightarrow> \<exists>Q L n q. world_ok G Q L n q st \<and> re_current (fst st) = 0 \<and> re_zombie (fst st) = 0
      | Some (th, pc) \<Rightarrow> system_ok G th (pc, st))"

context reactor_world
begin

lemma post_world:
  assumes ok: "world_ok G Q L n q (s, w)" and c: "cmd_ok s c" "unat (enqueue_pos (re_cmds s)) < 2 ^ 62"
    and p: "post_cmd e s c w = Some (b, s', w')"
  shows "\<exists>n' q'. world_ok G Q L n' q' (s', w')" "s' = s\<lparr>re_cmds := re_cmds s'\<rparr>"
proof -
  note W = world_okD [OF ok]
  have n: "n < 2 ^ 62" using ring_count [of "re_cmds s" n q] W(3) c(2) by (auto simp: cmds_ok_def)
  have keep: "world_ok G Q L n' q' (s\<lparr>re_cmds := r\<rparr>, v\<lparr>w_errno := x\<rparr>)"
    if "calm (c_regs G) w v" "cmds_ok (s\<lparr>re_cmds := r\<rparr>) n' q'" for v r n' q' x
  proof -
    have "pools_ok G L s v" using pools_ok_frame [OF frame_refl calm_quiet [OF that(1)], of G L s] W(2) by simp
    then have "pools_ok G L (s\<lparr>re_cmds := r\<rparr>) (v\<lparr>w_errno := x\<rparr>)" by (simp add: pools_ok_def)
    moreover have "reactor_ok (c_regs G (w_sys v)) Q L s" using reactor_ok_mono [OF W(1)] that(1) by (simp add: calm_def)
    ultimately show ?thesis using that(2) W by (simp add: world_ok_def)
  qed
  from W(3) c(1) n have "(\<exists>n' q'. world_ok G Q L n' q' (s', w')) \<and> s' = s\<lparr>re_cmds := re_cmds s'\<rparr>"
  proof (cases rule: post_spec [where w = w])
    case (posted t v)
    then have e: "t = s'" "v = w'" using p by simp_all
    have "cmds_ok (s\<lparr>re_cmds := re_cmds s'\<rparr>) (n + 1) (q @ [c])" using posted(3,4) e(1) by metis
    from keep [OF posted(5) this, of "w_errno v"] show ?thesis using posted(4) e by auto
  next
    case (full v)
    then have e: "s' = s" "w' = v\<lparr>w_errno := EAGAIN\<rparr>" using p by simp_all
    have "cmds_ok (s\<lparr>re_cmds := re_cmds s\<rparr>) n q" using W(3) by simp
    from keep [OF full(3) this, of EAGAIN] show ?thesis using e by auto
  qed
  then show "\<exists>n' q'. world_ok G Q L n' q' (s', w')" "s' = s\<lparr>re_cmds := re_cmds s'\<rparr>" by auto
qed

lemma begin_system:
  assumes ok: "world_ok G Q L n q (s, w)" and idle: "re_current s = 0" "re_zombie s = 0"
    and b: "run_begin hook th s w = (Some (prev, th'), w')"
  shows "system_at G th' [] Q L n q (L_top, s, w')" "w' = w"
  using assms by (auto simp: run_begin_def system_at_def pc_ok_def Let_def split: if_splits prod.splits)

lemma system_ok_move:
  assumes "system_ok G th st" "due m st"
  obtains st' where "reactor_move e th m st = Some st'" "system_ok G th st'"
proof -
  from assms(1) obtain R N L n q where "system_at G th R N L n q st" by (auto simp: system_ok_def)
  from system_move [OF this assms(2)] show thesis using that unfolding system_ok_def by blast
qed

end

context reactor_libc
begin

lemma life_invariant:
  assumes fresh: "fresh_for G config w0"
    and sz: "0 < unat (rc_stack_size config)" "unat (rc_stack_size config) + 2 * c_page G \<le> 2 ^ 64"
    and life: "reactor_life e place config w0 at st"
  shows "life_ok G at st"
  using life
proof induction
  case (made s w)
  from fresh sz show ?case
    by (cases rule: create_spec) (use made in \<open>auto simp: life_ok_def\<close>)
next
  case (spawn s w fn arg out b out' s' w')
  then obtain Q L n q where ok: "world_ok G Q L n q (s, w)" "re_current s = 0" "re_zombie s = 0" by (auto simp: life_ok_def)
  from ok(1) show ?case
    by (cases rule: spawn_spec [where fn = fn and arg = arg and out = out])
      (use spawn.hyps(2) ok(2,3) in \<open>auto simp: life_ok_def cfiber_reactor_spawn_def\<close>)
next
  case (post s w c b s' w')
  then obtain Q L n q where ok: "world_ok G Q L n q (s, w)" "re_current s = 0" "re_zombie s = 0" by (auto simp: life_ok_def)
  note P = post_world [OF ok(1) post.hyps(2-4)]
  have "re_current s' = 0" "re_zombie s' = 0" by (subst P(2); simp add: ok)+
  then show ?case using P(1) by (auto simp: life_ok_def)
next
  case (run s w hook th prev th' w')
  then obtain Q L n q where ok: "world_ok G Q L n q (s, w)" "re_current s = 0" "re_zombie s = 0" by (auto simp: life_ok_def)
  from begin_system(1) [OF ok run.hyps(2)] show ?case unfolding life_ok_def system_ok_def option.case prod.case by blast
next
  case (move th pc s w m pc' s' w')
  then have "system_ok G th (pc, s, w)" by (simp add: life_ok_def)
  then show ?case by (rule system_ok_move [OF _ move.hyps(2)]) (use move.hyps(3) in \<open>simp add: life_ok_def\<close>)
next
  case (return th rc s w)
  then obtain R N L n q where "system_at G th R N L n q (L_done rc, s, w)" by (auto simp: life_ok_def system_ok_def)
  then show ?case by (auto simp: life_ok_def system_at_def pc_ok_def)
qed

end
section \<open>Properties\<close>

lemma run_begin_ready:
  assumes "g_reactor th \<noteq> re_self s"
  obtains prev th' where "run_begin hook th s w = (Some (prev, th'), w)" "g_reactor th' = re_self s"
  using assms by (cases "cfiber_set_return_hook hook (re_self s) (r_hook th)") (simp add: run_begin_def)

text \<open>Property C1. Every move that is due can be made, whoever makes it: the loop, the running fiber,
  another thread posting a command. No assertion fires and no memory outside the reactor's is touched, in
  either build and whatever the kernel answers. And the move is one of a round robin: the loop runs the
  fibers \<open>R\<close> left of its round in their order, a fiber made ready waits at the end of \<open>N\<close> for the next
  round, polling and timers come once a round, and only a dispatched fiber that returned leaves the live
  ones \<open>L\<close>.\<close>

theorem reactor_round_robin:
  assumes "reactor_world e G" "system_at G th R N L n q st" "due m st"
  shows "\<exists>R' N' L' n' q' st'. reactor_move e th m st = Some st' \<and> system_at G th R' N' L' n' q' st' \<and>
    round_move m (fst st, R, N, L) (fst st', R', N', L')"
  by (rule reactor_world.system_move [OF assms])

lemma reactor_round_robin_witness:
  "\<exists>s w f s1 w1 th st'. demo_create = Some (Some s, w) \<and>
     cfiber_reactor_spawn demo_env s 4660 22136 None w = Some (True, None, s1, w1) \<and>
     reactor_move demo_env th Loop (L_top, s1, w1) = Some st' \<and>
     (\<exists>n q. system_at demo_contract th [f] [] [f] n q st')"
proof -
  obtain s w f s1 w1 where d: "demo_create = Some (Some s, w)" "world_ok demo_contract [] [] 0 [] (s, w)"
    "cfiber_reactor_spawn demo_env s 4660 22136 None w = Some (True, None, s1, w1)"
    "world_ok demo_contract [f] [f] 0 [] (s1, w1)" "re_current s1 = 0" "re_zombie s1 = 0" "f \<noteq> 0" by (rule demo_spawned)
  have "g_reactor demo_thread \<noteq> re_self s1" using world_okD(6) [OF d(4)] by (simp add: demo_thread_def)
  then obtain prev th where th: "run_begin 8192 demo_thread s1 w1 = (Some (prev, th), w1)" by (rule run_begin_ready)
  have at: "system_at demo_contract th [] [f] [f] 0 [] (L_top, s1, w1)"
    by (rule demo_reactor.begin_system(1) [OF d(4-6) th])
  have "due Loop (L_top, s1, w1)" using d(5) by (simp add: due_def)
  from reactor_round_robin [OF demo_world_is(1) at this] show ?thesis
    using d(1,3) by (fastforce simp: round_move_def)
qed

text \<open>Property C2. In every state a reactor reaches from its creation, through any spawns, commands and
  runs, the invariant holds: the ready queue and the live list are the chains their pointers make, every
  fiber is in the state its lists say, the counters \<open>active\<close> and \<open>blocked\<close> are exact, the timer heap is
  a heap, the descriptor table and the armed registrations agree with the fibers, pool and stacks are
  what the live fibers hold. And the reactor is not stuck: every due move can be made.\<close>

theorem reactor_life_safe:
  assumes "reactor_libc e G place" "fresh_for G config w0"
    and "0 < unat (rc_stack_size config)" "unat (rc_stack_size config) + 2 * c_page G \<le> 2 ^ 64"
    and "reactor_life e place config w0 (Some (th, pc)) (s, w)"
  shows "system_ok G th (pc, s, w) \<and> (\<forall>m. due m (pc, s, w) \<longrightarrow> (\<exists>st'. reactor_move e th m (pc, s, w) = Some st'))"
proof -
  have ok: "system_ok G th (pc, s, w)" using reactor_libc.life_invariant [OF assms] by (simp add: life_ok_def)
  have "reactor_world e G" using assms(1) by (rule reactor_libc.axioms(1))
  then have "\<exists>st'. reactor_move e th m (pc, s, w) = Some st'" if "due m (pc, s, w)" for m
    using reactor_world.system_ok_move [OF _ ok that] by blast
  then show ?thesis using ok by blast
qed

lemma demo_sizes: "0 < unat (rc_stack_size demo_reactor_config)"
  "unat (rc_stack_size demo_reactor_config) + 2 * c_page demo_contract \<le> 2 ^ 64"
  by (simp_all add: demo_reactor_config_def demo_contract_def)

text \<open>The example at the top of its loop, with a fiber and without one.\<close>

lemma demo_life:
  obtains s w th where "demo_create = Some (Some s, w)" "reactor_life demo_env demo_place demo_reactor_config demo_world (Some (th, L_top)) (s, w)"
    "re_current s = 0" "re_active s = 0" "re_zombie s = 0" "g_reactor th = re_self s" "re_self s \<noteq> 0"
proof -
  obtain s w where m: "demo_create = Some (Some s, w)" "world_ok demo_contract [] [] 0 [] (s, w)" "re_current s = 0"
    "re_zombie s = 0" "re_active s = 0" by (rule demo_made)
  have "g_reactor demo_thread \<noteq> re_self s" using world_okD(6) [OF m(2)] by (simp add: demo_thread_def)
  then obtain prev th where th: "run_begin 8192 demo_thread s w = (Some (prev, th), w)" "g_reactor th = re_self s"
    by (rule run_begin_ready)
  have "reactor_life demo_env demo_place demo_reactor_config demo_world None (s, w)"
    by (rule reactor_life.made) (use m(1) in \<open>simp add: demo_create_def\<close>)
  from reactor_life.run [OF this th(1)] show thesis using that m th(2) world_okD(6) [OF m(2)] by simp
qed

lemma demo_life_fiber:
  obtains s w s1 w1 th where "demo_create = Some (Some s, w)"
    "cfiber_reactor_spawn demo_env s 4660 22136 None w = Some (True, None, s1, w1)"
    "reactor_life demo_env demo_place demo_reactor_config demo_world (Some (th, L_top)) (s1, w1)" "re_current s1 = 0"
proof -
  obtain s w f s1 w1 where d: "demo_create = Some (Some s, w)" "world_ok demo_contract [] [] 0 [] (s, w)"
    "cfiber_reactor_spawn demo_env s 4660 22136 None w = Some (True, None, s1, w1)"
    "world_ok demo_contract [f] [f] 0 [] (s1, w1)" "re_current s1 = 0" "re_zombie s1 = 0" "f \<noteq> 0" by (rule demo_spawned)
  have "g_reactor demo_thread \<noteq> re_self s1" using world_okD(6) [OF d(4)] by (simp add: demo_thread_def)
  then obtain prev th where th: "run_begin 8192 demo_thread s1 w1 = (Some (prev, th), w1)" by (rule run_begin_ready)
  have "reactor_life demo_env demo_place demo_reactor_config demo_world None (s, w)"
    by (rule reactor_life.made) (use d(1) in \<open>simp add: demo_create_def\<close>)
  from reactor_life.run [OF reactor_life.spawn [OF this d(3)] th] show thesis using that d by simp
qed

lemma reactor_life_safe_witness:
  "\<exists>s w s1 w1 th st'. demo_create = Some (Some s, w) \<and>
     cfiber_reactor_spawn demo_env s 4660 22136 None w = Some (True, None, s1, w1) \<and>
     reactor_move demo_env th Loop (L_top, s1, w1) = Some st'"
proof -
  obtain s w s1 w1 th where d: "demo_create = Some (Some s, w)"
    "cfiber_reactor_spawn demo_env s 4660 22136 None w = Some (True, None, s1, w1)"
    "reactor_life demo_env demo_place demo_reactor_config demo_world (Some (th, L_top)) (s1, w1)" "re_current s1 = 0"
    by (rule demo_life_fiber)
  have "due Loop (L_top, s1, w1)" using d(4) by (simp add: due_def)
  then show ?thesis using reactor_life_safe [OF demo_world_is(2) demo_fresh demo_sizes d(3)] d(1,2) by blast
qed

text \<open>With no live fiber nothing is pending.\<close>

lemma drained:
  assumes ok: "world_ok G Q [] n q (s, w)" and idle: "re_current s = 0" "re_zombie s = 0"
  shows "re_active s = 0" "re_blocked s = 0" "re_ready_head s = 0" "re_heap s = []" "ms_live (re_fibers s) = {}"
    "ga_active_count (re_stacks s) = 0" "i < length (re_fd_owner s) \<Longrightarrow> re_fd_owner s ! i = 0"
    "(fd, p, one) \<in> c_regs G (w_sys w) \<Longrightarrow> \<not> one"
proof -
  note W = world_okD [OF ok]
  note K = reactor_okD [OF W(1)] and P = pools_okD [OF W(2)]
  have free: "ef_state c = FB_FREE" if "re_blocks s f = Some c" for f c using live_in_L [OF K(3), of f] that by auto
  have none: "in_st x (re_blocks s) = {}" if "x \<noteq> FB_FREE" for x
  proof (rule ccontr)
    assume "in_st x (re_blocks s) \<noteq> {}"
    then obtain f where "f \<in> in_st x (re_blocks s)" by blast
    then have "\<exists>c. re_blocks s f = Some c \<and> ef_state c = x" by (simp only: in_st_iff)
    then show False using free that by blast
  qed
  have parked: "in_st FB_PARKED (re_blocks s) = {}" by (rule none) simp
  show "re_active s = 0" "re_blocked s = 0" using K(3) idle parked by (simp_all add: states_ok_def)
  have "set Q = in_st FB_READY (re_blocks s)" using K(3) by (simp add: states_ok_def)
  then have "Q = []" using none [of FB_READY] by simp
  then show "re_ready_head s = 0" using fifo_head_null [OF K(1)] by simp
  show "re_heap s = []" using K(4) parked by (simp add: t_ok_def)
  show "ms_live (re_fibers s) = {}" using P(3) by simp
  show "ga_active_count (re_stacks s) = 0" using P(5) by (simp add: ga_inv_def)
  show "re_fd_owner s ! i = 0" if i: "i < length (re_fd_owner s)"
  proof (rule ccontr)
    assume "re_fd_owner s ! i \<noteq> 0"
    from d_ok_entry [OF K(5) i this] obtain st pk wt where "v_fd (re_blocks s) (re_fd_owner s ! i) = Some (st, pk, int i, wt)" "st \<noteq> FB_FREE"
      by blast
    then show False using free vw_SomeD by fastforce
  qed
  show "\<not> one" if r: "(fd, p, one) \<in> c_regs G (w_sys w)"
  proof
    assume one
    with r have "(fd, p, True) \<in> c_regs G (w_sys w)" by simp
    from d_ok_armed [OF K(5) this] have "v_fd (re_blocks s) p = Some (FB_PARKED, PARK_FD, fd, fd)" .
    then show False using free vw_SomeD by fastforce
  qed
qed

text \<open>Property C3. When \<open>cfiber_reactor_run\<close> returns 0, every fiber has finished: none is ready, parked or
  on a timer, the pool has no block out and the allocator no stack, no descriptor has an owner, and no
  one-shot registration is armed.\<close>

theorem reactor_run_drains:
  assumes "reactor_libc e G place" "fresh_for G config w0"
    and "0 < unat (rc_stack_size config)" "unat (rc_stack_size config) + 2 * c_page G \<le> 2 ^ 64"
    and "reactor_life e place config w0 (Some (th, L_done 0)) (s, w)"
  shows "re_active s = 0 \<and> re_blocked s = 0 \<and> re_ready_head s = 0 \<and> re_heap s = [] \<and> ms_live (re_fibers s) = {} \<and>
    ga_active_count (re_stacks s) = 0 \<and> set (re_fd_owner s) \<subseteq> {0} \<and> c_regs G (w_sys w) \<inter> {(fd, p, one). one} = {}"
proof -
  have "system_ok G th (L_done 0, s, w)" using reactor_libc.life_invariant [OF assms] by (simp add: life_ok_def)
  then obtain N n q where ok: "world_ok G N [] n q (s, w)" and idle: "re_current s = 0" "re_zombie s = 0"
    by (auto simp: system_ok_def system_at_def pc_ok_def)
  note D = drained [OF ok idle]
  have "set (re_fd_owner s) \<subseteq> {0}" using D(7) by (auto simp: in_set_conv_nth)
  moreover have "c_regs G (w_sys w) \<inter> {(fd, p, one). one} = {}" using D(8) by blast
  ultimately show ?thesis using D(1-6) by simp
qed

lemma reactor_run_drains_witness:
  "\<exists>s w th. demo_create = Some (Some s, w) \<and> reactor_move demo_env th Loop (L_top, s, w) = Some (L_done 0, s, w) \<and>
     re_active s = 0 \<and> ms_live (re_fibers s) = {}"
proof -
  obtain s w th where d: "demo_create = Some (Some s, w)"
    "reactor_life demo_env demo_place demo_reactor_config demo_world (Some (th, L_top)) (s, w)"
    "re_current s = 0" "re_active s = 0" by (rule demo_life)
  have m: "reactor_move demo_env th Loop (L_top, s, w) = Some (L_done 0, s, w)" using d(3,4) by (simp add: reactor_move_def loop_step_def)
  have "due Loop (L_top, s, w)" using d(3) by (simp add: due_def)
  from reactor_run_drains [OF demo_world_is(2) demo_fresh demo_sizes reactor_life.move [OF d(2) this m]] show ?thesis
    using d(1) m by blast
qed






end
