(* ===== verification/Reactor_Call_Properties.thy ===== *)
theory Reactor_Call_Properties
  imports Reactor_Demo
begin

text \<open>
  What the calls of a running fiber, the commands and the timers of \<^verbatim>\<open>reactor.c\<close> do, one at a time, over
  any environment that meets the contracts of \<open>reactor_world\<close>. The example is a reactor with two fibers:
  one runs, the other is parked on descriptor 7 with a deadline.
\<close>

section \<open>The example\<close>

definition demo_runner :: ev_fiber where
  "demo_runner = ev_fiber_zero\<lparr>ef_live_next := 8192, ef_state := FB_RUNNING, ef_generation := 5, ef_reg_fd := - 1,
     ef_wait_fd := - 1, ef_timer_i := NO_TIMER\<rparr>"

definition demo_sleeper :: ev_fiber where
  "demo_sleeper = ev_fiber_zero\<lparr>ef_live_prev := 4096, ef_state := FB_PARKED, ef_park := PARK_FD, ef_generation := 2,
     ef_reg_fd := 7, ef_wait_fd := 7, ef_timer_i := 0, ef_deadline_ns := 5000000\<rparr>"

definition demo_busy :: "(libc_heap, vm_world) cfiber_reactor" where
  "demo_busy = (reactor_zero 65536)\<lparr>re_current := 4096, re_live_head := 4096,
     re_blocks := [4096 \<mapsto> demo_runner, 8192 \<mapsto> demo_sleeper], re_heap := [8192], re_heap_cap := 16,
     re_fd_owner := [0, 0, 0, 0, 0, 0, 0, 8192], re_epfd := 3, re_evfd := 4, re_active := 2, re_blocked := 1\<rparr>"

definition demo_busy_world :: "(libc_heap, vm_world, demo_state) world" where
  "demo_busy_world = demo_world\<lparr>w_sys := demo_kernel_state\<lparr>dk_time := 2500000,
     dk_regs := [(7, EPOLLIN OR EPOLLONESHOT, 8192, True), (4, EPOLLIN, 65536, True)]\<rparr>\<rparr>"

definition demo_loop_thread :: rthread where
  "demo_loop_thread = demo_thread\<lparr>g_reactor := 65536\<rparr>"


lemma demo_busy_in_st: "in_st FB_READY (re_blocks demo_busy) = {}" "in_st FB_FREE (re_blocks demo_busy) = {}"
  "in_st FB_ZOMBIE (re_blocks demo_busy) = {}" "in_st FB_RUNNING (re_blocks demo_busy) = {4096}"
  "in_st FB_PARKED (re_blocks demo_busy) = {8192}"
  by (auto simp: in_st_iff demo_busy_def demo_runner_def demo_sleeper_def split: if_splits)

lemma demo_busy_ok: "reactor_ok (c_regs demo_contract (w_sys demo_busy_world)) [] [4096, 8192] demo_busy"
proof -
  have s: "states_ok demo_busy [] [4096, 8192]"
    unfolding states_ok_def demo_busy_in_st by (auto simp: demo_busy_def ptr_set_def reactor_zero_def)
  have t: "t_ok demo_busy"
    unfolding t_ok_def demo_busy_in_st
    by (auto simp: demo_busy_def reactor_zero_def timers_ok_def back_ok_def is_heap_def heap_at_def demo_sleeper_def demo_runner_def
      split: if_splits)
  have d: "d_ok (c_regs demo_contract (w_sys demo_busy_world)) (re_self demo_busy) (re_fd_owner demo_busy) (v_fd (re_blocks demo_busy))"
    by (auto simp: d_ok_def fd_fiber_ok_def armed_by_def demo_contract_def demo_regs_def demo_busy_world_def demo_busy_def
      demo_sleeper_def demo_runner_def reactor_zero_def oneshot_def EPOLLIN_def EPOLLONESHOT_def less_Suc_eq vw_def
      nth_Cons' split: if_splits)
  show ?thesis using s t d
    by (simp add: reactor_ok_def demo_busy_def reactor_zero_def dll_def demo_runner_def demo_sleeper_def ev_fiber_zero_def)
qed
section \<open>Timers\<close>

lemma heap_min:
  assumes "timers_ok s" "re_heap s = f # rest" "g \<in> set (re_heap s)"
  shows "dl (re_blocks s) f \<le> dl (re_blocks s) g"
proof -
  obtain j where j: "j < length (re_heap s)" "re_heap s ! j = g" using assms(3) by (auto simp: in_set_conv_nth)
  from heap_root [of "dl (re_blocks s)" "re_heap s" j] show ?thesis using assms(1,2) j by (simp add: timers_ok_def)
qed

text \<open>Property C10. The timer heap is a well-formed priority queue and stays one: in the array each fiber
  appears once, knows its own index, and no deadline precedes its parent's, so the root is the earliest.
  \<open>timer_add\<close> adds one fiber with its deadline or, when \<open>realloc\<close> refuses, changes nothing;
  \<open>timer_remove\<close>, wherever in the heap the fiber is, takes out exactly that fiber.\<close>

theorem timer_heap_well_formed:
  assumes "timers_ok s" "realloc_bounded (e_sys e)" "re_blocks s f = Some c" "f \<notin> set (re_heap s)"
  shows "\<exists>ok s1 w1. timer_add e s f d w = Some (ok, s1, w1) \<and> timers_ok s1 \<and>
    (if ok then
       mset (re_heap s1) = add_mset f (mset (re_heap s)) \<and> dl (re_blocks s1) f = d \<and>
       (\<forall>g. g \<noteq> f \<longrightarrow> dl (re_blocks s1) g = dl (re_blocks s) g) \<and>
       (\<forall>g. g \<in> set (re_heap s1) \<longrightarrow> dl (re_blocks s1) (hd (re_heap s1)) \<le> dl (re_blocks s1) g) \<and>
       (\<forall>g. g \<in> set (re_heap s1) \<longrightarrow> (\<exists>s2. timer_remove s1 g = Some s2 \<and> timers_ok s2 \<and>
          mset (re_heap s2) = mset (re_heap s1) - {#g#}))
     else s1 = s)"
  using assms
proof (cases rule: timer_add_spec [where d = d and w = w])
  case (none k)
  then show ?thesis using assms(1) by (intro exI [of _ False] exI [of _ s]) auto
next
  case (added m cap k h F)
  let ?s1 = "s\<lparr>re_heap_mem := m, re_heap_cap := cap, re_heap := h, re_blocks := F\<rparr>"
  have D: "dl F g = (if g = f then d else dl (re_blocks s) g)" for g
    using retimed_dl [OF added(4), of g] by (simp add: dl_def)
  have root: "dl F (hd h) \<le> dl F g" if "g \<in> set h" for g
    using heap_min [OF added(2), of "hd h" "tl h" g] that by (cases h) simp_all
  have rem: "\<exists>s2. timer_remove ?s1 g = Some s2 \<and> timers_ok s2 \<and> mset (re_heap s2) = mset h - {#g#}" if g: "g \<in> set h" for g
  proof -
    have "back_ok F h" using added(2) by (simp add: timers_ok_def)
    then obtain b where "F g = Some b" using g unfolding back_ok_def in_set_conv_nth by blast
    then have b: "re_blocks ?s1 g = Some b" "g \<in> set (re_heap ?s1)" using g by simp_all
    show ?thesis by (rule timer_remove_spec [OF added(2) b]) fastforce
  qed
  show ?thesis
    using added(1-3) D root rem by (intro exI [of _ True] exI [of _ ?s1] exI [of _ "w\<lparr>w_sys := k\<rparr>"]) simp
qed

lemma timer_heap_well_formed_witness:
  "\<exists>s1 w1. timer_add demo_env demo_busy 4096 2000000 demo_busy_world = Some (True, s1, w1) \<and>
     dl (re_blocks s1) (hd (re_heap s1)) \<le> 2000000"
proof -
  have t: "timers_ok demo_busy" using demo_busy_ok by (simp add: reactor_ok_def t_ok_def)
  have r: "realloc_bounded (e_sys demo_env)" by (simp add: demo_env_def demo_os_def realloc_bounded_def demo_alloc_def)
  have f: "re_blocks demo_busy 4096 = Some demo_runner" "4096 \<notin> set (re_heap demo_busy)" by (simp_all add: demo_busy_def)
  obtain ok s1 w1 where a: "timer_add demo_env demo_busy 4096 2000000 demo_busy_world = Some (ok, s1, w1)"
    "ok \<Longrightarrow> mset (re_heap s1) = add_mset 4096 (mset (re_heap demo_busy)) \<and> dl (re_blocks s1) 4096 = 2000000 \<and>
       (\<forall>g. g \<in> set (re_heap s1) \<longrightarrow> dl (re_blocks s1) (hd (re_heap s1)) \<le> dl (re_blocks s1) g)"
    using timer_heap_well_formed [OF t r f, of 2000000 demo_busy_world] by (auto split: if_splits)
  have "ok" using a(1) by (auto simp: timer_add_def heap_reserve_def demo_busy_def split: Option.bind_splits)
  moreover have "4096 \<in> set (re_heap s1)" using a(2) [OF \<open>ok\<close>] by (metis set_mset_add_mset_insert insertI1 set_mset_mset)
  ultimately show ?thesis using a by auto
qed
text \<open>Property C11. Once a loop turn the reactor resumes, with the status timed out, exactly the fibers whose
  deadline has come, earliest first, at the end of the ready queue, and takes exactly those off the heap.\<close>

theorem timers_fire_exactly:
  assumes "reactor_world e G" "reactor_ok (c_regs G (w_sys w)) Q L s" "re_epfd s = c_epfd G" "now_ns e w = (now, w0)"
  shows "\<exists>Q' s' w'. fire_expired_timers e s w = Some (s', w') \<and> reactor_ok (c_regs G (w_sys w')) (Q @ Q') L s' \<and>
    distinct Q' \<and> set Q' = {f \<in> set (re_heap s). dl (re_blocks s) f \<le> now} \<and> sorted (map (dl (re_blocks s)) Q') \<and>
    set (re_heap s') = {f \<in> set (re_heap s). now < dl (re_blocks s) f} \<and>
    (\<forall>f. f \<in> set Q' \<longrightarrow> vw ef_wait_status (re_blocks s') f = Some EV_TIMEOUT)"
proof -
  have "c_regs G (w_sys w0) \<subseteq> c_regs G (w_sys w)"
    using reactor_world.now_calm [OF assms(1,4)] by (simp add: calm_def)
  then have "reactor_ok (c_regs G (w_sys w0)) Q L s" by (rule reactor_ok_mono [OF assms(2)])
  from reactor_env.fire_loop_spec [OF reactor_world.axioms(1) [OF assms(1)] this assms(3), of now] obtain Q' s' w' where
    f: "fire_loop e now s w0 = Some (s', w')" "reactor_ok (c_regs G (w_sys w')) (Q @ Q') L s'"
    "set Q' = {f \<in> set (re_heap s). dl (re_blocks s) f \<le> now}" "sorted (map (dl (re_blocks s)) Q')"
    "set (re_heap s') = {f \<in> set (re_heap s). now < dl (re_blocks s) f}"
    "\<forall>f. vw ef_wait_status (re_blocks s') f = (if f \<in> set Q' then Some EV_TIMEOUT else vw ef_wait_status (re_blocks s) f)" by blast
  have "distinct Q'" using fifo_distinct [OF reactor_okD(1) [OF f(2)]] by simp
  then show ?thesis using f assms(4) by (intro exI [of _ Q'] exI [of _ s'] exI [of _ w']) (simp add: fire_expired_timers_def)
qed

lemma demo_busy_epfd: "re_epfd demo_busy = c_epfd demo_contract" "re_self demo_busy = 65536" "re_current demo_busy = 4096"
  by (simp_all add: demo_busy_def demo_contract_def reactor_zero_def)

lemma timers_fire_exactly_witness:
  "\<exists>s w. fire_expired_timers demo_env demo_busy (demo_busy_world\<lparr>w_sys := (w_sys demo_busy_world)\<lparr>dk_time := 6000000\<rparr>\<rparr>) = Some (s, w) \<and>
     re_heap s = [] \<and> vw ef_wait_status (re_blocks s) 8192 = Some EV_TIMEOUT"
proof -
  let ?w = "demo_busy_world\<lparr>w_sys := (w_sys demo_busy_world)\<lparr>dk_time := 6000000\<rparr>\<rparr>"
  have r: "c_regs demo_contract (w_sys ?w) = c_regs demo_contract (w_sys demo_busy_world)"
    by (simp add: demo_contract_def demo_regs_def)
  have n: "now_ns demo_env ?w = (6000000, ?w)" by (simp add: now_ns_def demo_env_def demo_os_def)
  have b: "set (re_heap demo_busy) = {8192}" "dl (re_blocks demo_busy) 8192 = 5000000"
    by (simp_all add: demo_busy_def dl_def demo_sleeper_def)
  have e: "{f \<in> {8192 :: u64}. dl (re_blocks demo_busy) f \<le> 6000000} = {8192}"
    "{f \<in> {8192 :: u64}. 6000000 < dl (re_blocks demo_busy) f} = {}" using b(2) by auto
  from timers_fire_exactly [OF demo_world_is(1) demo_busy_ok [folded r] demo_busy_epfd(1) n] show ?thesis
    unfolding b(1) e by auto
qed



text \<open>Deadlines saturate instead of wrapping, so a huge timeout means never, and what remains
  of a deadline is never negative: zero when it has passed, \<open>INT64_MAX\<close> when it is further away.\<close>

theorem deadlines_saturate:
  assumes "now_ns e w = (now, w0)"
  shows "unat (fst (deadline_after e ns w)) = min (unat now + unat ns) (2 ^ 64 - 1) \<and>
    sint (fst (remaining_ns e d w)) = (if d = NO_DEADLINE then - 1 else int (min (unat d - unat now) (2 ^ 63 - 1)))"
proof
  have top: "unat NO_DEADLINE = 2 ^ 64 - 1"
  proof -
    have n: "NO_DEADLINE = (18446744073709551615 :: u64)" by (simp add: NO_DEADLINE_def)
    show ?thesis unfolding n by (simp only: unat_numeral) simp
  qed
  have le: "now \<le> NO_DEADLINE" unfolding word_le_nat_alt top using unat_lt64 [of now] by simp
  have room: "unat (NO_DEADLINE - now) = 2 ^ 64 - 1 - unat now" using unat_sub [OF le] top by simp
  show "unat (fst (deadline_after e ns w)) = min (unat now + unat ns) (2 ^ 64 - 1)"
  proof (cases "ns > NO_DEADLINE - now")
    case True
    then have "2 ^ 64 - 1 - unat now < unat ns" unfolding word_less_nat_alt room .
    then show ?thesis using assms True top by (simp add: deadline_after_def)
  next
    case False
    then have "\<not> 2 ^ 64 - 1 - unat now < unat ns" unfolding word_less_nat_alt room .
    then have s: "unat now + unat ns \<le> 2 ^ 64 - 1" using unat_lt64 [of now] by linarith
    then have "unat (now + ns) = unat now + unat ns" by (intro unat_add_no_wrap) simp
    then show ?thesis using assms False s by (simp add: deadline_after_def)
  qed
  have big: "unat INT64_MAX = 2 ^ 63 - 1" by (simp add: INT64_MAX_def)
  have sint: "sint x = int (unat x)" if "unat x \<le> 2 ^ 63 - 1" for x :: u64
  proof -
    have "unat x < 2 ^ 63" using that by (rule le_less_trans) simp
    from sint_of_nat64 [OF this] show ?thesis by simp
  qed
  show "sint (fst (remaining_ns e d w)) = (if d = NO_DEADLINE then - 1 else int (min (unat d - unat now) (2 ^ 63 - 1)))"
  proof (cases "d = NO_DEADLINE \<or> d \<le> now")
    case True
    then show ?thesis using assms by (auto simp: remaining_ns_def word_le_nat_alt)
  next
    case False
    then have "now \<le> d" by (auto simp: not_le)
    then have u: "unat (d - now) = unat d - unat now" by (rule unat_sub)
    show ?thesis
    proof (cases "d - now > INT64_MAX")
      case True
      then have "2 ^ 63 - 1 < unat d - unat now" unfolding word_less_nat_alt big u .
      then have m: "min (unat d - unat now) (2 ^ 63 - 1) = 2 ^ 63 - 1" by simp
      have "fst (remaining_ns e d w) = INT64_MAX" using assms False True by (simp add: remaining_ns_def Let_def)
      then show ?thesis using False m sint [of INT64_MAX] big by simp
    next
      case small: False
      then have "\<not> 2 ^ 63 - 1 < unat d - unat now" unfolding word_less_nat_alt big u .
      then have b: "unat d - unat now \<le> 2 ^ 63 - 1" by simp
      have "fst (remaining_ns e d w) = d - now" using assms False small by (simp add: remaining_ns_def Let_def)
      then show ?thesis using False b sint [of "d - now"] u by simp
    qed
  qed
qed

lemma deadlines_saturate_witness:
  "unat (fst (deadline_after demo_env (- 1) demo_busy_world)) = 2 ^ 64 - 1 \<and>
   sint (fst (remaining_ns demo_env 5000000 demo_busy_world)) = 2500000"
proof -
  have n: "now_ns demo_env demo_busy_world = (2500000, demo_busy_world)"
    by (simp add: now_ns_def demo_env_def demo_os_def demo_busy_world_def)
  have m1: "(- 1 :: u64) = 18446744073709551615" by simp
  have u: "unat (- 1 :: u64) = 2 ^ 64 - 1" unfolding m1 by (simp only: unat_numeral) simp
  have nd: "(5000000 :: u64) \<noteq> NO_DEADLINE" by (simp add: NO_DEADLINE_def)
  show ?thesis using deadlines_saturate [OF n, of "- 1" 5000000] u nd by simp
qed
section \<open>Waking and cancelling\<close>

text \<open>Property C12. A command that names a finished fiber, or one whose block was reused, changes nothing. A
  cancel resumes a parked fiber with the status cancelled, and passes by one that is not parked. A wake
  resumes a fiber parked in \<open>cfiber_ev_wait_async\<close>; on any other it leaves a permit. The resumed fiber is
  the only one that changes state, is off the timer heap and last in the ready queue.\<close>

theorem command_effect:
  assumes "reactor_world e G" "reactor_ok (c_regs G (w_sys w)) Q L s" "re_epfd s = c_epfd G" "re_blocks s (cmd_target c) = Some b"
  shows "\<exists>s' w'. apply_cmd e s c w = Some (s', w') \<and>
    (if ef_generation b \<noteq> cmd_gen c \<or> ef_state b = FB_FREE \<or> ef_state b = FB_ZOMBIE then s' = s \<and> w' = w
     else if ef_state b = FB_PARKED \<and> (cmd_kind_of c = CMD_CANCEL \<or> ef_park b = PARK_ASYNC) then
       reactor_ok (c_regs G (w_sys w')) (Q @ [cmd_target c]) L s' \<and> cmd_target c \<notin> set (re_heap s') \<and>
       v_state (re_blocks s') = (v_state (re_blocks s))(cmd_target c \<mapsto> FB_READY) \<and>
       vw ef_wait_status (re_blocks s') (cmd_target c) = Some (if cmd_kind_of c = CMD_CANCEL then EV_CANCELLED else EV_READY)
     else if cmd_kind_of c = CMD_CANCEL then s' = s \<and> w' = w
     else s' = s\<lparr>re_blocks := (re_blocks s)(cmd_target c \<mapsto> b\<lparr>ef_wake_pending := True\<rparr>)\<rparr> \<and> w' = w \<and> reactor_ok (c_regs G (w_sys w)) Q L s')"
proof -
  have f0: "cmd_target c \<noteq> 0" using assms(4) reactor_okD(3) [OF assms(2)] by (auto simp: states_ok_def)
  have t: "cmd_target c \<noteq> 0 \<Longrightarrow> re_blocks s (cmd_target c) \<noteq> None" using assms(4) by simp
  show ?thesis
  proof (rule reactor_env.apply_cmd_spec [OF reactor_world.axioms(1) [OF assms(1)] assms(2,3) t])
    assume "apply_cmd e s c w = Some (s, w)" "cmd_target c = 0 \<or> (\<exists>b. re_blocks s (cmd_target c) = Some b \<and>
        (ef_generation b \<noteq> cmd_gen c \<or> ef_state b = FB_FREE \<or> ef_state b = FB_ZOMBIE))"
    then show ?thesis using f0 assms(4) by auto
  next
    fix x assume x: "apply_cmd e s c w = Some (s, w)" "re_blocks s (cmd_target c) = Some x"
      "cmd_kind_of c = CMD_CANCEL" "ef_state x = FB_READY \<or> ef_state x = FB_RUNNING"
    then show ?thesis using assms(4) by (intro exI [of _ s] exI [of _ w]) auto
  next
    fix x s' w' assume x: "apply_cmd e s c w = Some (s', w')" "re_blocks s (cmd_target c) = Some x"
      "ef_generation x = cmd_gen c" "ef_state x = FB_PARKED" "cmd_kind_of c = CMD_CANCEL \<or> ef_park x = PARK_ASYNC"
      "reactor_ok (c_regs G (w_sys w')) (Q @ [cmd_target c]) L s'"
      "woken (cmd_target c) (if cmd_kind_of c = CMD_CANCEL then EV_CANCELLED else EV_READY) s s'"
    then show ?thesis using assms(4) by (intro exI [of _ s'] exI [of _ w']) (auto simp: woken_def)
  next
    fix x assume x: "apply_cmd e s c w = Some (permit (cmd_target c) s, w)" "re_blocks s (cmd_target c) = Some x"
      "ef_generation x = cmd_gen c" "cmd_kind_of c = CMD_WAKE" "ef_state x \<noteq> FB_FREE" "ef_state x \<noteq> FB_ZOMBIE"
      "ef_state x = FB_PARKED \<Longrightarrow> ef_park x \<noteq> PARK_ASYNC"
    have p: "permit (cmd_target c) s = s\<lparr>re_blocks := (re_blocks s)(cmd_target c \<mapsto> b\<lparr>ef_wake_pending := True\<rparr>)\<rparr>"
      using assms(4) by (simp add: permit_def)
    show ?thesis using x assms(4) permit_ok [OF assms(2,4)] by (intro exI [of _ "permit (cmd_target c) s"] exI [of _ w]) (auto simp: p)
  qed
qed

lemma command_effect_witness:
  "\<exists>s w. apply_cmd demo_env demo_busy \<lparr>cmd_kind_of = CMD_CANCEL, cmd_target = 8192, cmd_gen = 2\<rparr> demo_busy_world = Some (s, w) \<and>
     vw ef_wait_status (re_blocks s) 8192 = Some EV_CANCELLED \<and> re_heap s = []"
proof -
  let ?c = "\<lparr>cmd_kind_of = CMD_CANCEL, cmd_target = 8192, cmd_gen = 2\<rparr>"
  have b: "re_blocks demo_busy (cmd_target ?c) = Some demo_sleeper" by (simp add: demo_busy_def)
  have d: "ef_generation demo_sleeper = 2" "ef_state demo_sleeper = FB_PARKED" by (simp_all add: demo_sleeper_def)
  obtain s w where r: "apply_cmd demo_env demo_busy ?c demo_busy_world = Some (s, w)"
    "reactor_ok (c_regs demo_contract (w_sys w)) [8192] [4096, 8192] s" "8192 \<notin> set (re_heap s)"
    "v_state (re_blocks s) = (v_state (re_blocks demo_busy))(8192 \<mapsto> FB_READY)"
    "vw ef_wait_status (re_blocks s) 8192 = Some EV_CANCELLED"
    using command_effect [OF demo_world_is(1) demo_busy_ok demo_busy_epfd(1) b] d by auto
  have "set (re_heap s) \<subseteq> in_st FB_PARKED (re_blocks s)" using reactor_okD(4) [OF r(2)] by (simp add: t_ok_def)
  also have "\<dots> = {}" using demo_busy_in_st(5) r(4) by (auto simp: in_st_def)
  finally show ?thesis using r(1,5) by auto
qed


section \<open>Descriptors\<close>


text \<open>Property C14. Closing a descriptor on which a fiber is parked resumes that fiber, with the status
  cancelled, before the descriptor goes away: it is last in the ready queue, off the timer heap, and no
  armed registration names it any more.\<close>

theorem close_cancels_waiter:
  assumes "reactor_world e G" "reactor_ok (c_regs G (w_sys w)) Q L s" "re_epfd s = c_epfd G" "g_reactor th \<noteq> 0"
    and "fd_owner_get s fd = h" "h \<noteq> 0" "re_blocks s h = Some b" "ef_state b = FB_PARKED" "ef_wait_fd b = fd"
  shows "\<exists>r s' w'. cfiber_ev_close e th s fd w = Some (r, s', w') \<and> reactor_ok (c_regs G (w_sys w')) (Q @ [h]) L s' \<and>
    vw ef_wait_status (re_blocks s') h = Some EV_CANCELLED \<and> h \<notin> set (re_heap s') \<and> (\<forall>x. (x, h, True) \<notin> c_regs G (w_sys w'))"
proof -
  obtain s1 w1 where u: "unpark e s h EV_CANCELLED w = Some (s1, w1)" "reactor_ok (c_regs G (w_sys w1)) (Q @ [h]) L s1"
    "woken h EV_CANCELLED s s1"
    by (rule reactor_env.unpark_spec [OF reactor_world.axioms(1) [OF assms(1)] assms(2,3,7,8)]) blast
  obtain r k where c: "sys_close (e_sys e) fd (w_sys w1) = (r, k)" by fastforce
  obtain r' w2 where l: "libc_ret r (w1\<lparr>w_sys := k\<rparr>) = (r', w2)" by fastforce
  have "w_sys w2 = k" using calm_libc_ret [OF l, of "c_regs G"] by simp
  moreover have "c_regs G k \<subseteq> c_regs G (w_sys w1)"
    by (rule kernel_contract.close_regs [OF reactor_env.axioms(1) [OF reactor_world.axioms(1) [OF assms(1)]] c])
  ultimately have ok: "reactor_ok (c_regs G (w_sys w2)) (Q @ [h]) L s1" using reactor_ok_mono [OF u(2)] by simp
  have run: "cfiber_ev_close e th s fd w = Some (r', s1, w2)"
    using assms(4-9) u(1) c l by (simp add: cfiber_ev_close_def c_close_def)
  have st: "v_state (re_blocks s1) h = Some FB_READY" using u(3) by (simp add: woken_def)
  have "(x, h, True) \<notin> c_regs G (w_sys w2)" for x
  proof
    assume "(x, h, True) \<in> c_regs G (w_sys w2)"
    from d_ok_armed [OF reactor_okD(5) [OF ok] this] have "\<exists>b. re_blocks s1 h = Some b \<and> ef_state b = FB_PARKED"
      using vw_SomeD by fastforce
    then show False using st by (auto simp: vw_def)
  qed
  then show ?thesis using run ok u(3) by (intro exI [of _ r'] exI [of _ s1] exI [of _ w2]) (simp add: woken_def)
qed

lemma demo_owner: "fd_owner_get demo_busy 7 = 8192" "re_blocks demo_busy 8192 = Some demo_sleeper"
  "ef_state demo_sleeper = FB_PARKED" "ef_wait_fd demo_sleeper = 7" "g_reactor demo_loop_thread \<noteq> 0"
  by (simp_all add: fd_owner_get_def demo_busy_def demo_sleeper_def demo_loop_thread_def)

lemma close_cancels_waiter_witness:
  "\<exists>r s w. cfiber_ev_close demo_env demo_loop_thread demo_busy 7 demo_busy_world = Some (r, s, w) \<and>
     vw ef_wait_status (re_blocks s) 8192 = Some EV_CANCELLED"
  using close_cancels_waiter [OF demo_world_is(1) demo_busy_ok demo_busy_epfd(1) demo_owner(5,1) _ demo_owner(2-4)] by auto




section \<open>Entering and leaving the loop\<close>

text \<open>\<open>cfiber_reactor_run\<close> on a thread that already runs the reactor fails with \<open>EBUSY\<close> and
  touches nothing; otherwise it installs the reactor and its return hook on the thread, and leaving the
  loop restores exactly what was there, so runs of different reactors nest.\<close>

theorem run_restores_thread:
  shows "(g_reactor th = re_self r \<longrightarrow> run_begin hook th r w = (None, w\<lparr>w_errno := EBUSY\<rparr>)) \<and>
    (g_reactor th \<noteq> re_self r \<longrightarrow>
      (\<exists>prev th'. run_begin hook th r w = (Some (prev, th'), w) \<and> g_reactor th' = re_self r \<and>
         hook_fn (r_hook th') = hook \<and> hook_ctx (r_hook th') = re_self r \<and> run_end prev th' = th))"
  by (cases th) (auto simp: run_begin_def run_end_def cfiber_set_return_hook_def Let_def)

lemma run_restores_thread_witness:
  "\<exists>prev th. run_begin 8192 demo_thread demo_busy demo_busy_world = (Some (prev, th), demo_busy_world) \<and> run_end prev th = demo_thread"
  using run_restores_thread [of demo_thread demo_busy 8192 demo_busy_world] by (auto simp: demo_thread_def demo_busy_epfd)

end
