(* ===== verification/Reactor_Handles.thy ===== *)
theory Reactor_Handles
  imports Reactor_Demo
begin

text \<open>
  The two ends of a fiber of \<^verbatim>\<open>reactor.c\<close>: what a spawn gives, and what becomes of its handle when the
  fiber has finished and its block is used again.
\<close>

section \<open>Spawning\<close>

text \<open>Property C19. A spawn either gives a fiber that was not live, last in the ready queue, with a handle that
  names it, whose first dispatch enters the given function with the given argument on the stack it was
  given, aligned as the ABI asks and with the creator's floating-point control state; or it says false,
  with every fiber as it was, and no block or stack lost.\<close>

theorem spawn_starts_fiber:
  assumes "reactor_world e G" "world_ok G Q L n q (s, w)" "a \<noteq> b"
  shows "\<exists>ok out s' w'. cfiber_reactor_spawn e s fn arg (Some h) w = Some (ok, out, s', w') \<and>
    (if ok then \<exists>f c. out = Some \<lparr>h_f = f, h_gen = ef_generation c\<rparr> \<and> re_blocks s' f = Some c \<and> f \<notin> set L \<and>
       world_ok G (Q @ [f]) (f # L) n q (s', w') \<and>
       (\<exists>C1 c1 c2 m2. cfiber_switch_context a b (C(b \<mapsto> fb_ctx (ef_fiber c))) (w_bytes w') c0 = Some (C1, c1) \<and>
          cfiber_prologue ret c1 (w_bytes w') = (c2, m2) \<and> rip c1 = e_prologue e \<and> rip c2 = fn \<and> rdi c2 = arg \<and>
          mxcsr c2 = mxcsr (e_creator e) \<and> x87_cw c2 = x87_cw (e_creator e) \<and> (unat (rsp c2) + 8) mod 16 = 0 \<and>
          unat (usable_base (ef_stack c)) \<le> unat (rsp c2) \<and>
          unat (rsp c2) + 8 \<le> unat (usable_base (ef_stack c)) + unat (cfiber_stack_usable_size (ef_stack c)))
     else out = Some h \<and> world_ok G Q L n q (s', w') \<and> (\<forall>f \<in> set L. re_blocks s' f = re_blocks s f))"
proof (cases rule: reactor_world.spawn_spec [OF assms(1,2), of fn arg "Some h"])
  case (1 s' w')
  then show ?thesis by (auto simp: cfiber_reactor_spawn_def)
next
  case (2 f c s' w')
  from 2(12) obtain fb where fb: "fiber_stack_ok fb" "fb_stack fb = usable_base (ef_stack c)"
    "fb_stack_size fb = cfiber_stack_usable_size (ef_stack c)"
    "cfiber_init (e_nd e) (e_prologue e) (e_creator e) fb fn arg (w_bytes w) = Some (ef_fiber c, w_bytes w')" by blast
  from init_switch [OF fb(4,1) assms(3), of "C(b \<mapsto> fb_ctx (ef_fiber c))" c0 ret] fb(2,3) show ?thesis
    using 2(1-4) by (auto simp: cfiber_reactor_spawn_def)
qed

lemma spawn_starts_fiber_witness:
  "\<exists>(s :: (libc_heap, vm_world) cfiber_reactor) w f s' w' c C1 c1 c2 m2. cfiber_reactor_spawn demo_env s 4660 22136 (Some \<lparr>h_f = 0, h_gen = 0\<rparr>) w =
       Some (True, Some \<lparr>h_f = f, h_gen = ef_generation c\<rparr>, s', w') \<and> re_blocks s' f = Some c \<and>
     cfiber_switch_context 1 2 [2 \<mapsto> fb_ctx (ef_fiber c)] (w_bytes w') cpu_zero = Some (C1, c1) \<and>
     cfiber_prologue 5 c1 (w_bytes w') = (c2, m2) \<and> rip c1 = 4194304 \<and> rip c2 = 4660 \<and> rdi c2 = 22136"
proof -
  obtain s w f gen s' w' where d: "demo_create = Some (Some s, w)" "world_ok demo_contract [] [] 0 [] (s, w)"
    "cfiber_reactor_spawn demo_env s 4660 22136 (Some \<lparr>h_f = 0, h_gen = 0\<rparr>) w =
       Some (True, map_option (\<lambda>_. \<lparr>h_f = f, h_gen = gen\<rparr>) (Some \<lparr>h_f = 0, h_gen = 0\<rparr>), s', w')"
    by (rule demo_spawned_out)
  have "(1 :: u64) \<noteq> 2" by simp
  note S = spawn_starts_fiber [OF demo_world_is(1) d(2) this, of 4660 22136 "\<lparr>h_f = 0, h_gen = 0\<rparr>" Map.empty cpu_zero 5]
  have e: "e_prologue demo_env = 4194304" by (simp add: demo_env_def)
  obtain out s1 w1 f c C1 c1 c2 m2 where "cfiber_reactor_spawn demo_env s 4660 22136 (Some \<lparr>h_f = 0, h_gen = 0\<rparr>) w = Some (True, out, s1, w1)"
    "out = Some \<lparr>h_f = f, h_gen = ef_generation c\<rparr>" "re_blocks s1 f = Some c"
    "cfiber_switch_context 1 2 [2 \<mapsto> fb_ctx (ef_fiber c)] (w_bytes w1) cpu_zero = Some (C1, c1)"
    "cfiber_prologue 5 c1 (w_bytes w1) = (c2, m2)" "rip c1 = 4194304" "rip c2 = 4660" "rdi c2 = 22136"
    using S d(3) unfolding e by (elim exE conjE) (simp only: option.inject prod.inject if_True, elim exE conjE, rule that, assumption+)
  then show ?thesis by blast
qed

section \<open>Finishing\<close>

text \<open>Property C20. When the loop recycles a finished fiber, its block goes back to the pool with the next
  generation, so every handle to it is stale: a wake or a cancel through one changes nothing, neither while
  the block is free nor after a spawn has given the block to a new fiber, which never gets an old handle.\<close>

theorem finished_handle_stale:
  assumes "reactor_world e G" "world_ok G Q L n q (s, w)" "re_zombie s = f" "f \<noteq> 0" "re_blocks s f = Some b"
  shows "\<exists>s1 w1. fiber_recycle e s f w = Some (s1, w1) \<and>
    world_ok G Q (remove1 f L) n q (s1\<lparr>re_zombie := 0\<rparr>, w1) \<and>
    apply_cmd e s1 \<lparr>cmd_kind_of = kind, cmd_target = f, cmd_gen = ef_generation b\<rparr> w1 = Some (s1, w1) \<and>
    (\<forall>fn arg h h' s2 w2. spawn_locked e (s1\<lparr>re_zombie := 0\<rparr>) fn arg (Some h) w1 = Some (True, Some h', s2, w2) \<longrightarrow>
       h' \<noteq> \<lparr>h_f = f, h_gen = ef_generation b\<rparr> \<and>
       (h_f h' = f \<longrightarrow> apply_cmd e s2 \<lparr>cmd_kind_of = kind, cmd_target = f, cmd_gen = ef_generation b\<rparr> w2 = Some (s2, w2)))"
proof -
  note rw = assms(1)
  obtain s1 w1 where r: "fiber_recycle e s f w = Some (s1, w1)" "world_ok G Q (remove1 f L) n q (s1\<lparr>re_zombie := 0\<rparr>, w1)"
    "v_gen (re_blocks s1) = (v_gen (re_blocks s))(f \<mapsto> (ef_generation b + 1, ef_wake_pending b))"
    by (rule reactor_world.recycle_spec [OF rw assms(2)]) (use assms(3-5) in simp_all)
  obtain b1 where b1: "re_blocks s1 f = Some b1" "ef_generation b1 = ef_generation b + 1"
    using fun_cong [OF r(3), of f] by (cases "re_blocks s1 f") (auto simp: vw_def)
  have stale: "apply_cmd e t \<lparr>cmd_kind_of = kind, cmd_target = f, cmd_gen = ef_generation b\<rparr> v = Some (t, v)"
    if "re_blocks t f = Some c" "ef_generation c = ef_generation b + 1" for t v and c :: ev_fiber
    using that assms(4) by (simp add: apply_cmd_def)
  have new: "h' \<noteq> \<lparr>h_f = f, h_gen = ef_generation b\<rparr> \<and>
      (h_f h' = f \<longrightarrow> apply_cmd e s2 \<lparr>cmd_kind_of = kind, cmd_target = f, cmd_gen = ef_generation b\<rparr> w2 = Some (s2, w2))"
    if sp: "spawn_locked e (s1\<lparr>re_zombie := 0\<rparr>) fn arg (Some h) w1 = Some (True, Some h', s2, w2)" for fn arg h h' s2 w2
  proof (cases rule: reactor_world.spawn_spec [OF rw r(2), of fn arg "Some h"])
    case (1 s' w')
    then show ?thesis using sp by simp
  next
    case (2 g c s' w')
    then have e: "h' = \<lparr>h_f = g, h_gen = ef_generation c\<rparr>" "s' = s2" using sp by simp_all
    have "ef_generation c = ef_generation b + 1" if "g = f" using 2(10) b1 that by simp
    then show ?thesis using stale [of s2 c w2] 2(4) e by auto
  qed
  show ?thesis using r(1,2) stale [OF b1] new by blast
qed


text \<open>The fiber of the example has run and returned.\<close>

lemma demo_finished:
  obtains s w f b where "world_ok demo_contract [] [f] 0 [] (s, w)" "re_zombie s = f" "f \<noteq> 0" "re_blocks s f = Some b"
proof -
  obtain s0 w0 f gen s w where d: "demo_create = Some (Some s0, w0)" "world_ok demo_contract [] [] 0 [] (s0, w0)"
    "cfiber_reactor_spawn demo_env s0 4660 22136 None w0 = Some (True, map_option (\<lambda>_. \<lparr>h_f = f, h_gen = gen\<rparr>) (None :: handle option), s, w)"
    "world_ok demo_contract [f] [f] 0 [] (s, w)" "re_current s = 0" "re_zombie s = 0" "f \<noteq> 0"
    "vw ef_wait_fd (re_blocks s) f = Some (- 1)" by (rule demo_spawned_out [of 4660 22136 None])
  obtain s1 s2 where r: "reactor_ok (c_regs demo_contract (w_sys w)) [] [f] s2" "frame s s2" "re_current s2 = f"
    "vw ef_wait_fd (re_blocks s2) = vw ef_wait_fd (re_blocks s)"
    by (rule dispatch_fiber [OF world_okD(1) [OF d(4)] d(5,6)])
  have ok: "world_ok demo_contract [] [f] 0 [] (s2, w)" by (rule world_ok_step [OF d(4) r(2) quiet_refl r(1)])
  obtain c where "runs s2 c" by (rule running_runs [OF r(1)]) (use r d(7,8) in simp_all)
  then obtain s3 where h: "reactor_ok (c_regs demo_contract (w_sys w)) [] [f] s3" "re_zombie s3 = re_current s2"
    "frame s2 (s3\<lparr>re_zombie := re_zombie s2\<rparr>)" by (rule demo_reactor.hook_spec [OF r(1)])
  have ok3: "world_ok demo_contract [] [f] 0 [] (s3, w)" by (rule world_ok_zombie [OF ok h(1,3)])
  have "states_ok s3 [] [f]" by (rule reactor_okD(3) [OF h(1)])
  then have "in_st FB_ZOMBIE (re_blocks s3) = ptr_set (re_zombie s3)" unfolding states_ok_def by (elim conjE)
  then have "f \<in> in_st FB_ZOMBIE (re_blocks s3)" using h(2) r(3) d(7) by (simp add: ptr_set_def)
  then obtain b where "re_blocks s3 f = Some b" by (auto simp: in_st_iff)
  then show thesis using that [OF ok3] h(2) r(3) d(7) by simp
qed

lemma finished_handle_stale_witness:
  "\<exists>s w f b s1 w1. world_ok demo_contract [] [f] 0 [] (s, w) \<and> re_blocks s f = Some b \<and>
     fiber_recycle demo_env s f w = Some (s1, w1) \<and>
     world_ok demo_contract [] [] 0 [] (s1\<lparr>re_zombie := 0\<rparr>, w1) \<and>
     apply_cmd demo_env s1 \<lparr>cmd_kind_of = CMD_WAKE, cmd_target = f, cmd_gen = ef_generation b\<rparr> w1 = Some (s1, w1)"
proof -
  obtain s w f b where d: "world_ok demo_contract [] [f] 0 [] (s, w)" "re_zombie s = f" "f \<noteq> 0" "re_blocks s f = Some b"
    by (rule demo_finished)
  from finished_handle_stale [OF demo_world_is(1) d, of CMD_WAKE] obtain s1 w1 where
    "fiber_recycle demo_env s f w = Some (s1, w1)" "world_ok demo_contract [] (remove1 f [f]) 0 [] (s1\<lparr>re_zombie := 0\<rparr>, w1)"
    "apply_cmd demo_env s1 \<lparr>cmd_kind_of = CMD_WAKE, cmd_target = f, cmd_gen = ef_generation b\<rparr> w1 = Some (s1, w1)"
    by (elim exE conjE) (rule that)
  moreover have "remove1 f [f] = []" by simp
  ultimately show ?thesis using d(1,4)
    by (intro exI [of _ s] exI [of _ w] exI [of _ f] exI [of _ b] exI [of _ s1] exI [of _ w1]) simp
qed

end
