(* ===== verification/Reactor_Posting.thy ===== *)
theory Reactor_Posting
  imports Reactor_Demo
begin

text \<open>
  A wake or a cancel takes one of two paths: on the loop's thread it is applied at once, on another it goes
  through the command ring and \<open>drain_cmds\<close>. Applying a command neither reads nor writes the ring, so
  draining a batch is the same as having applied its commands directly, one after the other.
\<close>

section \<open>The ring is not touched\<close>

abbreviation with_cmds :: "cmd_ring \<Rightarrow> ('h, 'v) cfiber_reactor \<Rightarrow> ('h, 'v) cfiber_reactor" where
  "with_cmds r s \<equiv> s\<lparr>re_cmds := r\<rparr>"

text \<open>An update of the ring moves outward past the others.\<close>

lemma upd_cmds:
  "(with_cmds r s)\<lparr>re_blocks := F\<rparr> = with_cmds r (s\<lparr>re_blocks := F\<rparr>)"
  "(with_cmds r s)\<lparr>re_heap := h\<rparr> = with_cmds r (s\<lparr>re_heap := h\<rparr>)"
  "(with_cmds r s)\<lparr>re_fd_owner := t\<rparr> = with_cmds r (s\<lparr>re_fd_owner := t\<rparr>)"
  "(with_cmds r s)\<lparr>re_ready_head := p\<rparr> = with_cmds r (s\<lparr>re_ready_head := p\<rparr>)"
  "(with_cmds r s)\<lparr>re_ready_tail := p\<rparr> = with_cmds r (s\<lparr>re_ready_tail := p\<rparr>)"
  "(with_cmds r s)\<lparr>re_blocked := i\<rparr> = with_cmds r (s\<lparr>re_blocked := i\<rparr>)"
  by (cases s; simp)+

lemma fset_cmds: "fset f g (with_cmds r s) = map_option (with_cmds r) (fset f g s)"
  by (cases "re_blocks s f") (simp_all add: fset_def fput_def upd_cmds)

lemma heap_deadline_cmds: "heap_deadline (with_cmds r s) i = heap_deadline s i"
  by (simp add: heap_deadline_def)

lemma heap_smallest_cmds: "heap_smallest (with_cmds r s) i = heap_smallest s i"
  unfolding heap_smallest_def heap_deadline_cmds by simp

lemma heap_swap_cmds: "heap_swap (with_cmds r s) a b = map_option (with_cmds r) (heap_swap s a b)"
  by (auto simp: heap_swap_def Let_def upd_cmds split: Option.bind_split)

lemma heap_sift_up_cmds: "heap_sift_up (with_cmds r s) i = map_option (with_cmds r) (heap_sift_up s i)"
proof (induction s i rule: heap_sift_up.induct)
  case (1 s i)
  then show ?case
    unfolding heap_sift_up.simps [of "with_cmds r s"] heap_sift_up.simps [of s]
    by (auto simp: heap_deadline_cmds heap_swap_cmds Let_def split: Option.bind_split)
qed

lemma heap_sift_down_cmds: "heap_sift_down (with_cmds r s) i = map_option (with_cmds r) (heap_sift_down s i)"
proof (induction s i rule: heap_sift_down.induct)
  case (1 s i)
  then show ?case
    unfolding heap_sift_down.simps [of "with_cmds r s"] heap_sift_down.simps [of s]
    by (auto simp: heap_smallest_cmds heap_swap_cmds split: Option.bind_split)
qed

lemma timer_remove_cmds: "timer_remove (with_cmds r s) f = map_option (with_cmds r) (timer_remove s f)"
  by (auto simp: timer_remove_def Let_def upd_cmds heap_sift_down_cmds heap_sift_up_cmds split: Option.bind_split)

lemma enqueue_cmds: "enqueue (with_cmds r s) f = map_option (with_cmds r) (enqueue s f)"
  by (auto simp: enqueue_def fset_cmds upd_cmds split: Option.bind_split)
lemma detach_fd_cmds: "detach_fd e (with_cmds r s) f w = map_option (apfst (with_cmds r)) (detach_fd e s f w)"
  by (auto simp: detach_fd_def fd_owner_get_def fset_cmds upd_cmds Let_def split: Option.bind_split prod.split)

lemma resume_cmds: "resume (with_cmds r s) f x = map_option (with_cmds r) (resume s f x)"
  by (auto simp: resume_def fset_cmds upd_cmds enqueue_cmds split: Option.bind_split)

lemma unpark_cmds: "unpark e (with_cmds r s) f x w = map_option (apfst (with_cmds r)) (unpark e s f x w)"
  by (auto simp: unpark_def detach_fd_cmds timer_remove_cmds resume_cmds split: Option.bind_split)

lemma apply_cmd_cmds: "apply_cmd e (with_cmds r s) c w = map_option (apfst (with_cmds r)) (apply_cmd e s c w)"
  by (auto simp: apply_cmd_def fset_cmds unpark_cmds Let_def split: Option.bind_split)

section \<open>Batches\<close>

text \<open>The commands applied directly, in order.\<close>

fun apply_all :: "('v, 'k) renv \<Rightarrow> cmd list \<Rightarrow> ('h, 'v, 'k) rstate \<Rightarrow> ('h, 'v, 'k) rstate option" where
  "apply_all e [] (s, w) = Some (s, w)"
| "apply_all e (c # cs) (s, w) = Option.bind (apply_cmd e s c w) (apply_all e cs)"

lemma apply_all_cmds: "apply_all e cs (with_cmds r s, w) = map_option (apfst (with_cmds r)) (apply_all e cs (s, w))"
  by (induction cs arbitrary: s w) (auto simp: apply_cmd_cmds split: Option.bind_split)

lemma drain_ring_all:
  assumes "ring_queue (re_cmds s) n q" "apply_all e q (s, w) = Some (s1, w1)"
  shows "\<exists>r. drain_ring e s w = Some (with_cmds r s1, w1) \<and> ring_queue r n []"
  using assms
proof (induction q arbitrary: s w s1)
  case Nil
  have "drain_ring e s w = Some (s, w)" using queue_deq_none [OF Nil(1)] by (subst drain_ring.simps) simp
  then show ?case using Nil by (intro exI [of _ "re_cmds s"]) simp
next
  case (Cons c q)
  from queue_deq [OF Cons.prems(1)] obtain r where r: "ring_dequeue (re_cmds s) = Some (Some c, r)" "ring_queue r n q" by blast
  from Cons.prems(2) obtain s2 w2 where a: "apply_cmd e s c w = Some (s2, w2)" "apply_all e q (s2, w2) = Some (s1, w1)"
    by (auto split: Option.bind_splits)
  have "apply_all e q (with_cmds r s2, w2) = Some (with_cmds r s1, w1)" using a(2) by (simp add: apply_all_cmds)
  then obtain r' where i: "drain_ring e (with_cmds r s2) w2 = Some (with_cmds r' (with_cmds r s1), w1)" "ring_queue r' n []"
    using Cons.IH [of "with_cmds r s2" w2 "with_cmds r s1"] r(2) by auto
  have "drain_ring e s w = drain_ring e (with_cmds r s2) w2"
    using r(1) a(1) by (subst drain_ring.simps) (simp add: apply_cmd_cmds)
  then show ?case using i by auto
qed

context reactor_world
begin

lemma apply_all_ok:
  assumes "reactor_ok (c_regs G (w_sys w)) Q L s" "re_epfd s = c_epfd G" "\<And>c. c \<in> set cs \<Longrightarrow> cmd_ok s c"
  shows "\<exists>Q' s' w'. apply_all e cs (s, w) = Some (s', w') \<and> reactor_ok (c_regs G (w_sys w')) (Q @ Q') L s'"
  using assms
proof (induction cs arbitrary: s w Q)
  case Nil
  then show ?case by (intro exI [of _ "[]"]) simp
next
  case (Cons c cs)
  have "cmd_ok s c" using Cons.prems(3) by simp
  from apply_cmd_woke [OF Cons.prems(1,2) this] obtain Q1 s1 w1 where a: "apply_cmd e s c w = Some (s1, w1)"
    "reactor_ok (c_regs G (w_sys w1)) (Q @ Q1) L s1" "woke s s1" by blast
  have "re_epfd s1 = c_epfd G" using a(3) Cons.prems(2) by (simp add: woke_def kept_def)
  moreover have "cmd_ok s1 x" if "x \<in> set cs" for x using cmd_ok_dom [of s s1 x] woke_dom [OF a(3)] Cons.prems(3) that by simp
  ultimately obtain Q' s' w' where "apply_all e cs (s1, w1) = Some (s', w')" "reactor_ok (c_regs G (w_sys w')) ((Q @ Q1) @ Q') L s'"
    using Cons.IH [OF a(2)] by blast
  then show ?case using a(1) by (intro exI [of _ "Q1 @ Q'"] exI [of _ s'] exI [of _ w']) simp
qed

end

text \<open>A post, over the whole state.\<close>

lemma post_cases:
  assumes "reactor_world e G" "world_ok G Q L n q (s, w)" "cmd_ok s c" "n < 2 ^ 62"
  obtains
    (posted) s' w' where "post_cmd e s c w = Some (True, s', w')" "length q < 1024" "world_ok G Q L (n + 1) (q @ [c]) (s', w')"
      "s' = s\<lparr>re_cmds := re_cmds s'\<rparr>"
  | (full) w' where "post_cmd e s c w = Some (False, s, w')" "length q = 1024" "w_errno w' = EAGAIN"
proof -
  note W = world_okD [OF assms(2)]
  have keep: "world_ok G Q L (n + 1) (q @ [c]) (s\<lparr>re_cmds := r\<rparr>, v)"
    if c: "calm (c_regs G) w v" "cmds_ok (s\<lparr>re_cmds := r\<rparr>) (n + 1) (q @ [c])" for r v
  proof -
    have "pools_ok G L (s\<lparr>re_cmds := r\<rparr>) v"
      using pools_ok_frame [OF frame_refl calm_quiet [OF c(1)], of G L s] W(2) by (simp add: pools_ok_def)
    moreover have "reactor_ok (c_regs G (w_sys v)) Q L s" using reactor_ok_mono [OF W(1)] c(1) by (simp add: calm_def)
    ultimately show ?thesis using c(2) W by (simp add: world_ok_def)
  qed
  show thesis
  proof (cases rule: reactor_world.post_spec [OF assms(1) W(3) assms(3,4), of w])
    case (1 s' w')
    have "cmds_ok (s\<lparr>re_cmds := re_cmds s'\<rparr>) (n + 1) (q @ [c])" using 1(3,4) by metis
    from keep [OF 1(5) this] 1(4) have "world_ok G Q L (n + 1) (q @ [c]) (s', w')" by simp
    then show thesis by (rule posted [OF 1(1,2) _ 1(4)])
  next
    case (2 w')
    then show thesis using full [of "w'\<lparr>w_errno := EAGAIN\<rparr>"] by simp
  qed
qed

text \<open>A wake posted to the spawned fiber of the example.\<close>

lemma demo_posted:
  obtains f s' w' where "world_ok demo_contract [f] [f] 1 [\<lparr>cmd_kind_of = CMD_WAKE, cmd_target = f, cmd_gen = g\<rparr>] (s', w')"
    "f \<noteq> 0"
proof -
  obtain s w f s1 w1 where d: "demo_create = Some (Some s, w)" "world_ok demo_contract [] [] 0 [] (s, w)"
    "cfiber_reactor_spawn demo_env s 4660 22136 None w = Some (True, None, s1, w1)"
    "world_ok demo_contract [f] [f] 0 [] (s1, w1)" "re_current s1 = 0" "re_zombie s1 = 0" "f \<noteq> 0" by (rule demo_spawned)
  let ?c = "\<lparr>cmd_kind_of = CMD_WAKE, cmd_target = f, cmd_gen = g\<rparr>"
  have "states_ok s1 [f] [f]" by (rule reactor_okD(3) [OF world_okD(1) [OF d(4)]])
  then have "set [f] = in_st FB_READY (re_blocks s1)" unfolding states_ok_def by (elim conjE)
  then have "f \<in> in_st FB_READY (re_blocks s1)" by (rule subst) simp
  then have c: "cmd_ok s1 ?c" by (auto simp: cmd_ok_def in_st_iff)
  show thesis by (rule post_cases [OF demo_world_is(1) d(4) c]) (use that d(7) in auto)
qed

text \<open>Property C6. Draining the command ring ends, and does exactly what applying its commands directly, in
  the order in which they were posted, would have done: the reactor, its queues and the world are the same,
  and only the ring differs, which is empty. The eventfd is read until it is.\<close>

theorem posted_as_direct:
  assumes "reactor_world e G" "world_ok G Q L n q (s, w)"
  shows "\<exists>w0 s1 w1 r. drain_counter e (re_evfd s) w = Some w0 \<and> apply_all e q (s, w0) = Some (s1, w1) \<and>
    drain_cmds e s w = Some (s1\<lparr>re_cmds := r\<rparr>, w1) \<and> ring_queue r n []"
proof -
  note W = world_okD [OF assms(2)]
  obtain w0 where d: "drain_counter e (c_evfd G) w = Some w0" "calm (c_regs G) w w0"
    by (rule reactor_env.drain_counter_spec [OF reactor_world.axioms(1) [OF assms(1)]])
  have ok: "reactor_ok (c_regs G (w_sys w0)) Q L s" using reactor_ok_mono [OF W(1)] d(2) by (simp add: calm_def)
  have c: "ring_queue (re_cmds s) n q" "\<And>x. x \<in> set q \<Longrightarrow> cmd_ok s x" using W(3) by (simp_all add: cmds_ok_def)
  from reactor_world.apply_all_ok [OF assms(1) ok W(4) c(2)] obtain s1 w1 where a: "apply_all e q (s, w0) = Some (s1, w1)" by blast
  from drain_ring_all [OF c(1) a] show ?thesis using a d(1) W(5) by (auto simp: drain_cmds_def)
qed

lemma posted_as_direct_witness:
  "\<exists>f (s :: (libc_heap, vm_world) cfiber_reactor) w w0 s1 w1 r. f \<noteq> 0 \<and> drain_counter demo_env (re_evfd s) w = Some w0 \<and>
     apply_all demo_env [\<lparr>cmd_kind_of = CMD_WAKE, cmd_target = f, cmd_gen = 1\<rparr>] (s, w0) = Some (s1, w1) \<and>
     drain_cmds demo_env s w = Some (s1\<lparr>re_cmds := r\<rparr>, w1) \<and> ring_queue r 1 []"
proof -
  obtain f s w where p: "world_ok demo_contract [f] [f] 1 [\<lparr>cmd_kind_of = CMD_WAKE, cmd_target = f, cmd_gen = 1\<rparr>] (s, w)"
    "f \<noteq> 0" by (rule demo_posted)
  from posted_as_direct [OF demo_world_is(1) p(1)] show ?thesis using p(2) by blast
qed

text \<open>\<open>post_cmd\<close> fails, with \<open>EAGAIN\<close> and the reactor as it was, exactly when the ring is full of
  its 1024 commands and stays so; otherwise the command is last in the ring, and nothing else changed.\<close>

theorem post_fails_only_full:
  assumes "reactor_world e G" "world_ok G Q L n q (s, w)" "cmd_ok s c" "n < 2 ^ 62"
  shows "\<exists>ok s' w'. post_cmd e s c w = Some (ok, s', w') \<and> (ok \<longleftrightarrow> length q < 1024) \<and>
    (if ok then world_ok G Q L (n + 1) (q @ [c]) (s', w') \<and> s' = s\<lparr>re_cmds := re_cmds s'\<rparr>
     else s' = s \<and> w_errno w' = EAGAIN \<and> length q = 1024)"
  using assms by (cases rule: post_cases) auto

lemma post_fails_only_full_witness:
  "\<exists>f s w s' w'. f \<noteq> 0 \<and> post_cmd demo_env s \<lparr>cmd_kind_of = CMD_CANCEL, cmd_target = f, cmd_gen = 1\<rparr> w = Some (True, s', w') \<and>
     world_ok demo_contract [f] [f] 2 [\<lparr>cmd_kind_of = CMD_WAKE, cmd_target = f, cmd_gen = 1\<rparr>,
       \<lparr>cmd_kind_of = CMD_CANCEL, cmd_target = f, cmd_gen = 1\<rparr>] (s', w')"
proof -
  obtain f s w where p: "world_ok demo_contract [f] [f] 1 [\<lparr>cmd_kind_of = CMD_WAKE, cmd_target = f, cmd_gen = 1\<rparr>] (s, w)"
    "f \<noteq> 0" by (rule demo_posted)
  have "cmd_ok s \<lparr>cmd_kind_of = CMD_CANCEL, cmd_target = f, cmd_gen = 1\<rparr>"
    using world_okD(3) [OF p(1)] by (simp add: cmds_ok_def cmd_ok_def)
  from post_fails_only_full [OF demo_world_is(1) p(1) this] obtain s' w' where
    "post_cmd demo_env s \<lparr>cmd_kind_of = CMD_CANCEL, cmd_target = f, cmd_gen = 1\<rparr> w = Some (True, s', w')"
    "world_ok demo_contract [f] [f] (1 + 1) ([\<lparr>cmd_kind_of = CMD_WAKE, cmd_target = f, cmd_gen = 1\<rparr>] @
       [\<lparr>cmd_kind_of = CMD_CANCEL, cmd_target = f, cmd_gen = 1\<rparr>]) (s', w')" by auto
  then have "f \<noteq> 0 \<and> post_cmd demo_env s \<lparr>cmd_kind_of = CMD_CANCEL, cmd_target = f, cmd_gen = 1\<rparr> w = Some (True, s', w') \<and>
     world_ok demo_contract [f] [f] 2 [\<lparr>cmd_kind_of = CMD_WAKE, cmd_target = f, cmd_gen = 1\<rparr>,
       \<lparr>cmd_kind_of = CMD_CANCEL, cmd_target = f, cmd_gen = 1\<rparr>] (s', w')" using p(2) by (simp only: append.simps one_add_one) simp
  then show ?thesis by blast
qed

end
