(* ===== verification/Ring_Threads.thy ===== *)
theory Ring_Threads
  imports Ring_Correct
begin

text \<open>
  Any number of threads in \<open>ring_enqueue\<close> and one consumer in \<open>ring_dequeue\<close>, interleaved at every
  atomic access. A history is kept beside the ring: \<open>rs_claimed\<close>, the commands in the order in which
  producers won their position, and \<open>rs_got\<close>, the commands the consumer returned. Accesses are
  sequentially consistent here; the C11 orders of the source are not modelled.
\<close>

record ring_sys =
  rs_ring :: cmd_ring
  rs_prod :: "nat \<Rightarrow> (cmd \<times> enq_pc) option"
  rs_cons :: deq_pc
  rs_claimed :: "cmd list"
  rs_got :: "cmd list"

definition claims :: "enq_pc \<Rightarrow> enq_pc \<Rightarrow> bool" where
  "claims pc pc' = (case pc of Enq_cas _ \<Rightarrow> (case pc' of Enq_write _ \<Rightarrow> True | _ \<Rightarrow> False) | _ \<Rightarrow> False)"

lemma claims_simps [simp]:
  "\<not> claims Enq_load pc" "\<not> claims (Enq_seq p) pc" "\<not> claims (Enq_write p) pc" "\<not> claims (Enq_publish p) pc"
  "\<not> claims (Enq_done b) pc" "claims (Enq_cas p) (Enq_write q)" "\<not> claims (Enq_cas p) (Enq_seq q)"
  by (simp_all add: claims_def)

definition got_of :: "deq_pc \<Rightarrow> cmd list" where
  "got_of pc = (case pc of Deq_done (Some c) \<Rightarrow> [c] | _ \<Rightarrow> [])"

inductive ring_next :: "ring_sys \<Rightarrow> ring_sys \<Rightarrow> bool" where
  call: "rs_prod s t = None \<Longrightarrow> ring_next s (s\<lparr>rs_prod := (rs_prod s)(t \<mapsto> (c, Enq_load))\<rparr>)"
| enq: "rs_prod s t = Some (c, pc) \<Longrightarrow> enq_step c pc (rs_ring s) = Some (pc', r') \<Longrightarrow>
    ring_next s (s\<lparr>rs_ring := r', rs_prod := (rs_prod s)(t \<mapsto> (c, pc')),
                   rs_claimed := rs_claimed s @ (if claims pc pc' then [c] else [])\<rparr>)"
| enq_return: "rs_prod s t = Some (c, Enq_done b) \<Longrightarrow> ring_next s (s\<lparr>rs_prod := (rs_prod s)(t := None)\<rparr>)"
| deq: "deq_step (rs_cons s) (rs_ring s) = Some (pc', r') \<Longrightarrow>
    ring_next s (s\<lparr>rs_ring := r', rs_cons := pc', rs_got := rs_got s @ got_of pc'\<rparr>)"
| deq_call: "rs_cons s = Deq_done c \<Longrightarrow> ring_next s (s\<lparr>rs_cons := Deq_load\<rparr>)"

inductive_cases ring_nextE: "ring_next s s'"

text \<open>Reachable from a ring as \<open>ring_init\<close> leaves it, with nobody in a call.\<close>

inductive ring_reach :: "cmd_ring \<Rightarrow> ring_sys \<Rightarrow> bool" for r0 where
  init: "ring_reach r0 \<lparr>rs_ring = r0, rs_prod = Map.empty, rs_cons = Deq_load, rs_claimed = [], rs_got = []\<rparr>"
| move: "ring_reach r0 s \<Longrightarrow> ring_next s s' \<Longrightarrow> ring_reach r0 s'"

section \<open>The invariant\<close>

text \<open>The position a producer has claimed and not yet published.\<close>

definition own :: "enq_pc \<Rightarrow> u64 option" where
  "own pc = (case pc of Enq_write p \<Rightarrow> Some p | Enq_publish p \<Rightarrow> Some p | _ \<Rightarrow> None)"

lemma own_simps [simp]: "own Enq_load = None" "own (Enq_seq p) = None" "own (Enq_cas p) = None"
  "own (Enq_write p) = Some p" "own (Enq_publish p) = Some p" "own (Enq_done b) = None"
  by (simp_all add: own_def)

definition prod_ok :: "nat \<Rightarrow> cmd list \<Rightarrow> nat set \<Rightarrow> cmd_ring \<Rightarrow> cmd \<Rightarrow> enq_pc \<Rightarrow> bool" where
  "prod_ok R cl P r c pc =
     (case pc of
        Enq_load \<Rightarrow> True
      | Enq_seq pos \<Rightarrow> (\<exists>p \<le> length cl. pos = of_nat p)
      | Enq_cas pos \<Rightarrow> (\<exists>p \<le> length cl. pos = of_nat p \<and> (p = length cl \<longrightarrow> p < R + length (cells r)))
      | Enq_write pos \<Rightarrow> (\<exists>p \<in> P. pos = of_nat p \<and> cl ! p = c)
      | Enq_publish pos \<Rightarrow> (\<exists>p \<in> P. pos = of_nat p \<and> cl ! p = c \<and> cell_cmd (slot r p) = c)
      | Enq_done b \<Rightarrow> b \<longrightarrow> c \<in> set cl)"

definition cons_ok :: "nat \<Rightarrow> nat \<Rightarrow> cmd list \<Rightarrow> nat set \<Rightarrow> deq_pc \<Rightarrow> bool" where
  "cons_ok R D cl P pc =
     (case pc of
        Deq_load \<Rightarrow> R = D
      | Deq_seq pos \<Rightarrow> R = D \<and> pos = of_nat D
      | Deq_cas pos \<Rightarrow> R = D \<and> pos = of_nat D \<and> D < length cl \<and> D \<notin> P
      | Deq_copy pos \<Rightarrow> D = R + 1 \<and> pos = of_nat R
      | Deq_release pos c \<Rightarrow> D = R + 1 \<and> pos = of_nat R \<and> c = cl ! R
      | Deq_done c \<Rightarrow> R = D)"

definition prods_ok :: "nat \<Rightarrow> cmd list \<Rightarrow> nat set \<Rightarrow> cmd_ring \<Rightarrow> (nat \<Rightarrow> (cmd \<times> enq_pc) option) \<Rightarrow> bool" where
  "prods_ok R cl P r T \<longleftrightarrow>
     (\<forall>t c pc. T t = Some (c, pc) \<longrightarrow> prod_ok R cl P r c pc) \<and>
     (\<forall>p \<in> P. \<exists>t c pc. T t = Some (c, pc) \<and> own pc = Some (of_nat p)) \<and>
     (\<forall>t t' c c' pc pc' p. T t = Some (c, pc) \<longrightarrow> T t' = Some (c', pc') \<longrightarrow>
        own pc = Some p \<longrightarrow> own pc' = Some p \<longrightarrow> t = t')"

definition ring_inv :: "ring_sys \<Rightarrow> bool" where
  "ring_inv s \<longleftrightarrow> (\<exists>R D P.
     ring_rep R D (length (rs_claimed s)) P (\<lambda>p. rs_claimed s ! p) (rs_ring s) \<and>
     rs_got s = take R (rs_claimed s) \<and>
     prods_ok R (rs_claimed s) P (rs_ring s) (rs_prod s) \<and>
     cons_ok R D (rs_claimed s) P (rs_cons s))"

lemma ring_rep_cong:
  "(\<And>p. p < E \<Longrightarrow> cs p = cs' p) \<Longrightarrow> ring_rep R D E P cs r = ring_rep R D E P cs' r"
  by (simp add: ring_rep_def)

text \<open>What a producer relies on survives the moves of the others.\<close>

lemma prod_ok_mono:
  assumes "prod_ok R cl P r c pc" "R \<le> R'" "cl' = cl @ xs" "length (cells r') = length (cells r)"
    and "\<And>p. own pc = Some (of_nat p) \<Longrightarrow> p \<in> P \<Longrightarrow> p < length cl \<and> p \<in> P' \<and> cell_cmd (slot r' p) = cell_cmd (slot r p)"
  shows "prod_ok R' cl' P' r' c pc"
proof (cases pc)
  case (Enq_seq pos)
  then obtain p where "p \<le> length cl" "pos = of_nat p" using assms(1) by (auto simp: prod_ok_def)
  then show ?thesis using Enq_seq assms(3) by (auto simp: prod_ok_def intro!: exI [of _ p])
next
  case (Enq_cas pos)
  then obtain p where "p \<le> length cl" "pos = of_nat p" "p = length cl \<longrightarrow> p < R + length (cells r)"
    using assms(1) by (auto simp: prod_ok_def)
  then show ?thesis using Enq_cas assms(2-4) by (auto simp: prod_ok_def intro!: exI [of _ p])
next
  case (Enq_write pos)
  then obtain p where p: "p \<in> P" "pos = of_nat p" "cl ! p = c" using assms(1) by (auto simp: prod_ok_def)
  then show ?thesis using Enq_write assms(3) assms(5) [of p] by (auto simp: prod_ok_def nth_append intro!: bexI [of _ p])
next
  case (Enq_publish pos)
  then obtain p where p: "p \<in> P" "pos = of_nat p" "cl ! p = c" "cell_cmd (slot r p) = c"
    using assms(1) by (auto simp: prod_ok_def)
  then show ?thesis using Enq_publish assms(3) assms(5) [of p] by (auto simp: prod_ok_def nth_append intro!: bexI [of _ p])
qed (use assms in \<open>auto simp: prod_ok_def\<close>)

text \<open>One producer moves: its own part, and the set of claimed positions.\<close>

lemma prods_ok_move:
  assumes T: "prods_ok R cl P r T" and t: "T t = None \<or> T t = Some (c0, pc0)"
    and P: "P \<subseteq> {p. p < length cl}" "length cl < 2 ^ 63"
    and new: "prod_ok R (cl @ xs) P' r' c pc" and len: "length (cells r') = length (cells r)"
    and P': "\<And>p. p \<in> P \<Longrightarrow> T t = None \<or> own pc0 \<noteq> Some (of_nat p) \<Longrightarrow> p \<in> P' \<and> cell_cmd (slot r' p) = cell_cmd (slot r p)"
    and P'': "\<And>p. p \<in> P' \<Longrightarrow> own pc = Some (of_nat p) \<or> (p \<in> P \<and> (T t = None \<or> own pc0 \<noteq> Some (of_nat p)))"
    and uniq: "\<And>p. own pc = Some p \<Longrightarrow> (T t \<noteq> None \<and> own pc0 = Some p) \<or> (\<forall>q \<in> P. p \<noteq> of_nat q)"
  shows "prods_ok R (cl @ xs) P' r' (T(t \<mapsto> (c, pc)))"
proof -
  have ok: "prod_ok R cl P r c1 pc1" if "T u = Some (c1, pc1)" for u c1 pc1 using T that by (simp add: prods_ok_def)
  have un: "u = v" if "T u = Some (c1, pc1)" "T v = Some (c2, pc2)" "own pc1 = Some p" "own pc2 = Some p" for u v c1 c2 pc1 pc2 p
    using T that unfolding prods_ok_def by blast
  have inP: "\<exists>q \<in> P. p = of_nat q" if "T u = Some (c1, pc1)" "own pc1 = Some p" for u c1 pc1 p
    using ok [OF that(1)] that(2) by (cases pc1) (auto simp: prod_ok_def)
  show ?thesis
    unfolding prods_ok_def
  proof (intro conjI allI impI ballI)
    fix u c1 pc1 assume u: "(T(t \<mapsto> (c, pc))) u = Some (c1, pc1)"
    show "prod_ok R (cl @ xs) P' r' c1 pc1"
    proof (cases "u = t")
      case True
      then show ?thesis using u new by simp
    next
      case False
      then have u: "T u = Some (c1, pc1)" using u by simp
      show ?thesis
      proof (rule prod_ok_mono [OF ok [OF u] order_refl refl len])
        fix p assume p: "own pc1 = Some (of_nat p)" "p \<in> P"
        then have "T t = None \<or> own pc0 \<noteq> Some (of_nat p)" using un [OF u] False t by blast
        then show "p < length cl \<and> p \<in> P' \<and> cell_cmd (slot r' p) = cell_cmd (slot r p)" using P'(1) p P by blast
      qed
    qed
  next
    fix p assume "p \<in> P'"
    then consider "own pc = Some (of_nat p)" | "p \<in> P" "T t = None \<or> own pc0 \<noteq> Some (of_nat p)" using P'' by blast
    then show "\<exists>u c1 pc1. (T(t \<mapsto> (c, pc))) u = Some (c1, pc1) \<and> own pc1 = Some (of_nat p)"
    proof cases
      case 2
      then obtain u c1 pc1 where u: "T u = Some (c1, pc1)" "own pc1 = Some (of_nat p)" using T by (auto simp: prods_ok_def)
      then have "u \<noteq> t" using 2 t by auto
      then show ?thesis using u by (intro exI [of _ u]) auto
    qed auto
  next
    fix u v c1 c2 pc1 pc2 p
    assume uv: "(T(t \<mapsto> (c, pc))) u = Some (c1, pc1)" "(T(t \<mapsto> (c, pc))) v = Some (c2, pc2)"
      and p: "own pc1 = Some p" "own pc2 = Some p"
    have contra: False if "T x = Some (c3, pc3)" "x \<noteq> t" "own pc3 = Some p" "own pc = Some p" for x c3 pc3
      using uniq [OF that(4)] inP [OF that(1,3)] un [OF that(1) _ that(3), of t c0 pc0] t that(2) by auto
    show "u = v"
      using contra [of u c1 pc1] contra [of v c2 pc2] uv p un by (auto split: if_splits)
  qed
qed

text \<open>Every access of a producer.\<close>

lemma enq_step_keeps:
  assumes r: "ring_rep R D (length cl) P ((!) cl) r" and T: "prods_ok R cl P r T" and t: "T t = Some (c, pc)"
    and st: "enq_step c pc r = Some (pc', r')" and bd: "claims pc pc' \<Longrightarrow> length cl + 1 + length (cells r) < 2 ^ 63"
  obtains P' where "ring_rep R D (length (cl @ (if claims pc pc' then [c] else []))) P' ((!) (cl @ (if claims pc pc' then [c] else []))) r'"
    "prods_ok R (cl @ (if claims pc pc' then [c] else [])) P' r' (T(t \<mapsto> (c, pc')))"
    "D < length cl \<Longrightarrow> D \<notin> P \<Longrightarrow> D \<notin> P'" "length (cells r') = length (cells r)"
proof -
  note B = ring_repD [OF r]
  let ?E = "length cl"
  have ok: "prod_ok R cl P r c pc" using T t by (simp add: prods_ok_def)
  have E63: "?E < 2 ^ 63" using B(6) by linarith
  have P: "P \<subseteq> {p. p < ?E}" using B(7) by auto
  have inj: "p = q" if "(of_nat p :: u64) = of_nat q" "p < 2 ^ 63" "q < 2 ^ 63" for p q
  proof -
    have "unat (of_nat p :: u64) = p" "unat (of_nat q :: u64) = q"
      using that(2,3) by (auto intro!: unat_of_nat_small)
    then show ?thesis using that(1) by metis
  qed
  note mv = prods_ok_move [OF T disjI2 [OF t] P E63]
  show thesis
  proof (cases pc)
    case Enq_load
    then have e: "pc' = Enq_seq (of_nat ?E)" "r' = r" using st B(1) by (auto simp: enq_step_def)
    show thesis
    proof (rule that [of P])
      show "prods_ok R (cl @ (if claims pc pc' then [c] else [])) P r' (T(t \<mapsto> (c, pc')))"
        by (rule mv) (use e Enq_load in \<open>auto simp: prod_ok_def\<close>)
    qed (use e Enq_load r in \<open>simp_all add: claims_def\<close>)
  next
    case (Enq_seq pos)
    then obtain p where p: "p \<le> ?E" "pos = of_nat p" using ok by (auto simp: prod_ok_def)
    show thesis
    proof (rule seq_window [OF r p(1)])
    fix q assume q: "cell_seq (slot r p) = of_nat q" "q < 2 ^ 63"
      "p \<le> q \<or> (p = ?E \<and> ?E = R + length (cells r))" "q = p \<Longrightarrow> p \<in> P \<or> (p = ?E \<and> ?E < R + length (cells r))"
    have p63: "p < 2 ^ 63" using p(1) E63 by linarith
    obtain i where i: "cell_at r (of_nat p) = Some i" "seq_dif (cell_seq (cells r ! i)) (of_nat p) = Some (int q - int p)"
      by (rule seq_at [OF r p63 q(2,1) p63])
    have e: "r' = r" "pc' = (if q = p then Enq_cas pos else if q < p then Enq_done False else Enq_load)"
      using st i p(2) Enq_seq by (auto simp: enq_step_def split: if_splits)
    have "prod_ok R cl P r c pc'" using e(2) p P q(4) by (auto simp: prod_ok_def intro!: exI [of _ p])
    moreover have "\<not> claims pc pc'" "own pc' = None" using e(2) Enq_seq by (auto simp: claims_def)
    ultimately show thesis
      using mv [of "[]" P r c pc'] r that [of P] e(1) Enq_seq by auto
    qed
  next
    case (Enq_cas pos)
    then obtain p where p: "p \<le> ?E" "pos = of_nat p" "p = ?E \<longrightarrow> p < R + length (cells r)"
      using ok by (auto simp: prod_ok_def)
    show thesis
    proof (cases "p = ?E")
      case True
      have bd': "?E + 1 + length (cells r) < 2 ^ 63" and e: "pc' = Enq_write (of_nat ?E)" "r' = r\<lparr>enqueue_pos := of_nat ?E + 1\<rparr>"
        using st Enq_cas p True B(1) bd by (auto simp: enq_step_def claims_def)
      have cl: "claims pc pc'" using e Enq_cas by (simp add: claims_def)
      let ?P = "insert ?E P"
      have "ring_rep R D (?E + 1) ?P (((!) cl)(?E := c)) r'"
        using rep_claim [OF r _ bd', of c] p True e(2) by simp
      then have "ring_rep R D (length (cl @ [c])) ?P ((!) (cl @ [c])) r'"
        by (subst (asm) ring_rep_cong [of _ _ "(!) (cl @ [c])"]) (auto simp: nth_append less_Suc_eq)
      moreover have "prods_ok R (cl @ [c]) ?P r' (T(t \<mapsto> (c, pc')))"
      proof (rule mv)
        show "prod_ok R (cl @ [c]) ?P r' c pc'" using e by (auto simp: prod_ok_def)
        show "own pc' = Some p \<Longrightarrow> (T t \<noteq> None \<and> own pc = Some p) \<or> (\<forall>q\<in>P. p \<noteq> of_nat q)" for p
          using e inj [of ?E] P E63 by fastforce
      qed (use e P Enq_cas in \<open>auto simp: slot_def\<close>)
      ultimately show thesis using that [of ?P] cl B(4) e(2) by auto
    next
      case False
      have "(of_nat p :: u64) \<noteq> of_nat ?E" using inj [of p ?E] False p(1) E63 by auto
      then have e: "pc' = Enq_seq (of_nat ?E)" "r' = r" using st Enq_cas p B(1) by (auto simp: enq_step_def)
      show thesis
      proof (rule that [of P])
        show "prods_ok R (cl @ (if claims pc pc' then [c] else [])) P r' (T(t \<mapsto> (c, pc')))"
          by (rule mv) (use e Enq_cas in \<open>auto simp: prod_ok_def\<close>)
      qed (use e Enq_cas r in \<open>simp_all add: claims_def\<close>)
    qed
  next
    case (Enq_write pos)
    then obtain p where p: "p \<in> P" "pos = of_nat p" "cl ! p = c" using ok by (auto simp: prod_ok_def)
    have p63: "p < 2 ^ 63" using P p(1) E63 by auto
    have i: "cell_at r pos = Some (p mod length (cells r))" using ring_cell_at [OF r p63] p(2) by simp
    have e: "pc' = Enq_publish pos" "r' = r\<lparr>cells := (cells r)[p mod length (cells r) := (slot r p)\<lparr>cell_cmd := c\<rparr>]\<rparr>"
      using st Enq_write i by (auto simp: enq_step_def slot_def)
    have w: "R \<le> p" "p < R + length (cells r)" using B(3,5,7) p(1) by auto
    note S = rep_slot [OF r w e(2)]
    have r': "ring_rep R D ?E P ((!) cl) r'" using rep_write [OF r p(1)] e(2) by simp
    have other: "cell_cmd (slot r' q) = cell_cmd (slot r q)" if "q \<in> P" "q \<noteq> p" for q
      using S(3) [of q] that B(3,5,7) by fastforce
    have pp: "prods_ok R (cl @ []) P r' (T(t \<mapsto> (c, pc')))"
    proof (rule mv)
      show "prod_ok R (cl @ []) P r' c pc'" using e(1) p S(2) by (auto simp: prod_ok_def intro!: bexI [of _ p])
      show "q \<in> P \<and> cell_cmd (slot r' q) = cell_cmd (slot r q)"
        if "q \<in> P" "T t = None \<or> own pc \<noteq> Some (of_nat q)" for q
        using that t Enq_write p(2) other by auto
    qed (use e(1) Enq_write S(1) t in auto)
    have "\<not> claims pc pc'" using Enq_write by (simp add: claims_def)
    then show thesis using that [of P] r' pp S(1) by simp
  next
    case (Enq_publish pos)
    then obtain p where p: "p \<in> P" "pos = of_nat p" "cl ! p = c" "cell_cmd (slot r p) = c"
      using ok by (auto simp: prod_ok_def)
    have pE: "p < ?E" using P p(1) by auto
    then have p63: "p < 2 ^ 63" using E63 by linarith
    have i: "cell_at r pos = Some (p mod length (cells r))" using ring_cell_at [OF r p63] p(2) by simp
    have e: "pc' = Enq_done True" "r' = r\<lparr>cells := (cells r)[p mod length (cells r) := (slot r p)\<lparr>cell_seq := of_nat p + 1\<rparr>]\<rparr>"
      using st Enq_publish i p(2) by (auto simp: enq_step_def slot_def)
    have w: "R \<le> p" "p < R + length (cells r)" using B(3,5,7) p(1) by auto
    note S = rep_slot [OF r w e(2)]
    have r': "ring_rep R D ?E (P - {p}) ((!) cl) r'" using rep_publish [OF r p(1)] p(3,4) e(2) by simp
    have other: "cell_cmd (slot r' q) = cell_cmd (slot r q)" if "q \<in> P" "q \<noteq> p" for q
      using S(3) [of q] that B(3,5,7) by fastforce
    have pp: "prods_ok R (cl @ []) (P - {p}) r' (T(t \<mapsto> (c, pc')))"
    proof (rule mv)
      show "prod_ok R (cl @ []) (P - {p}) r' c pc'" using e(1) p pE nth_mem [OF pE] by (auto simp: prod_ok_def)
      show "q \<in> P - {p} \<and> cell_cmd (slot r' q) = cell_cmd (slot r q)"
        if "q \<in> P" "T t = None \<or> own pc \<noteq> Some (of_nat q)" for q
        using that t Enq_publish p(2) other by auto
      show "own pc' = Some (of_nat q) \<or> (q \<in> P \<and> (T t = None \<or> own pc \<noteq> Some (of_nat q)))" if "q \<in> P - {p}" for q
        using that Enq_publish p(2) inj [of p q] p63 P E63 by fastforce
    qed (use e(1) S(1) in auto)
    have "\<not> claims pc pc'" using Enq_publish by (simp add: claims_def)
    then show thesis using that [of "P - {p}"] r' pp S(1) by simp
  next
    case (Enq_done b)
    then show thesis using st by (simp add: enq_step_def)
  qed
qed

lemma prods_ok_return:
  assumes T: "prods_ok R cl P r T" and t: "T t = Some (c, Enq_done b)"
  shows "prods_ok R cl P r (T(t := None))"
  unfolding prods_ok_def
proof (intro conjI allI impI ballI)
  fix p assume "p \<in> P"
  then obtain u c1 pc1 where u: "T u = Some (c1, pc1)" "own pc1 = Some (of_nat p)" using T by (auto simp: prods_ok_def)
  then have "u \<noteq> t" using t by auto
  then show "\<exists>u c pc. (T(t := None)) u = Some (c, pc) \<and> own pc = Some (of_nat p)" using u by (intro exI [of _ u]) auto
next
  fix u v c1 c2 pc1 pc2 p
  assume "(T(t := None)) u = Some (c1, pc1)" "(T(t := None)) v = Some (c2, pc2)" "own pc1 = Some p" "own pc2 = Some p"
  then show "u = v" using T unfolding prods_ok_def fun_upd_apply by (metis option.distinct(1))
qed (use T in \<open>auto simp: prods_ok_def split: if_splits\<close>)

text \<open>Every access of the consumer.\<close>

lemma deq_step_keeps:
  assumes r: "ring_rep R D (length cl) P ((!) cl) r" and T: "prods_ok R cl P r T"
    and c: "cons_ok R D cl P pc" and st: "deq_step pc r = Some (pc', r')"
  obtains R' D' where "ring_rep R' D' (length cl) P ((!) cl) r'" "prods_ok R' cl P r' T" "cons_ok R' D' cl P pc'"
    "take R' cl = take R cl @ got_of pc'" "length (cells r') = length (cells r)"
proof -
  note B = ring_repD [OF r]
  let ?E = "length cl"
  have frame: "prods_ok R' cl P r' T" if "R \<le> R'" "length (cells r') = length (cells r)"
    "\<And>p. p \<in> P \<Longrightarrow> cell_cmd (slot r' p) = cell_cmd (slot r p)" for R' r'
    unfolding prods_ok_def
  proof (intro conjI allI impI)
    fix t c pc assume "T t = Some (c, pc)"
    then have "prod_ok R cl P r c pc" using T by (simp add: prods_ok_def)
    then show "prod_ok R' cl P r' c pc"
      by (rule prod_ok_mono [where xs = "[]"]) (use that B(7) in auto)
  qed (use T in \<open>auto simp: prods_ok_def\<close>)
  show thesis
  proof (cases pc)
    case Deq_load
    then have "pc' = Deq_seq (of_nat D)" "r' = r" using st B(2) by (auto simp: deq_step_def)
    then show thesis using that [of R D] r T c Deq_load by (simp add: cons_ok_def got_of_def)
  next
    case (Deq_seq pos)
    then have p: "R = D" "pos = of_nat D" using c by (auto simp: cons_ok_def)
    have D63: "D < 2 ^ 63" "D + 1 < 2 ^ 63" using B(4,6,11) by linarith+
    have seen: "cell_seq (slot r D) = of_nat (if D < ?E \<and> D \<notin> P then D + 1 else D)"
    proof (cases "D < ?E \<and> D \<notin> P")
      case True
      then show ?thesis using B(8) [of D] p(1) by simp
    next
      case False
      have "D < R + length (cells r)" using B(11) p(1) by linarith
      then show ?thesis using False B(4) B(9) [of D] B(10) [of D] by auto
    qed
    have i: "cell_at r pos = Some (D mod length (cells r))" using ring_cell_at [OF r D63(1)] p(2) by simp
    have "seq_dif (of_nat (if D < ?E \<and> D \<notin> P then D + 1 else D)) (of_nat (D + 1)) = Some (if D < ?E \<and> D \<notin> P then 0 else - 1)"
      using seq_dif_of_nat [OF D63(2) D63(2)] seq_dif_of_nat [OF D63] by simp
    moreover have "pos + 1 = of_nat (D + 1)" using p(2) by simp
    ultimately have e: "r' = r" "pc' = (if D < ?E \<and> D \<notin> P then Deq_cas pos else Deq_done None)"
      using st i seen Deq_seq by (auto simp: deq_step_def slot_def add.commute split: if_splits)
    then show thesis using that [of R D] r T p by (auto simp: cons_ok_def got_of_def)
  next
    case (Deq_cas pos)
    then have p: "R = D" "pos = of_nat D" "D < ?E" "D \<notin> P" using c by (auto simp: cons_ok_def)
    have e: "r' = r\<lparr>dequeue_pos := of_nat D + 1\<rparr>" "pc' = Deq_copy pos"
      using st Deq_cas p(2) B(2) by (auto simp: deq_step_def)
    have "ring_rep D (D + 1) ?E P ((!) cl) r'" using rep_deq_claim [of D ?E P] r p e by simp
    moreover have "prods_ok D cl P r' T" using frame [of D r'] e p(1) by (simp add: slot_def)
    ultimately show thesis using that [of D "D + 1"] e p by (simp add: cons_ok_def got_of_def)
  next
    case (Deq_copy pos)
    then have p: "D = R + 1" "pos = of_nat R" using c by (auto simp: cons_ok_def)
    have R63: "R < 2 ^ 63" using B(4,6) p(1) by linarith
    have i: "cell_at r pos = Some (R mod length (cells r))" using ring_cell_at [OF r R63] p(2) by simp
    have "R \<notin> P" using B(7) p(1) by auto
    then have "cell_cmd (slot r R) = cl ! R" using B(8) [of R] B(4) p(1) by simp
    then have e: "r' = r" "pc' = Deq_release pos (cl ! R)"
      using st i Deq_copy by (auto simp: deq_step_def slot_def)
    then show thesis using that [of R D] r T p by (simp add: cons_ok_def got_of_def)
  next
    case (Deq_release pos x)
    then have p: "D = R + 1" "pos = of_nat R" "x = cl ! R" using c by (auto simp: cons_ok_def)
    have R63: "R < 2 ^ 63" "R < ?E" using B(4,6) p(1) by linarith+
    have i: "cell_at r pos = Some (R mod length (cells r))" using ring_cell_at [OF r R63(1)] p(2) by simp
    have e: "r' = r\<lparr>cells := (cells r)[R mod length (cells r) := (slot r R)\<lparr>cell_seq := of_nat R + ring_mask r + 1\<rparr>]\<rparr>"
      "pc' = Deq_done (Some (cl ! R))"
      using st i Deq_release p by (auto simp: deq_step_def slot_def)
    have w: "R \<le> R" "R < R + length (cells r)" using B(11) by linarith+
    note S = rep_slot [OF r w e(1)]
    have "cell_cmd (slot r' q) = cell_cmd (slot r q)" if "q \<in> P" for q
    proof -
      have "D \<le> q" "q < ?E" using that B(7) by auto
      then show ?thesis using S(3) [of q] B(5) p(1) by simp
    qed
    then have pp: "prods_ok (R + 1) cl P r' T" using frame [of "R + 1" r'] S(1) by simp
    have "take (R + 1) cl = take R cl @ got_of pc'" using R63(2) e(2) by (simp add: got_of_def take_Suc_conv_app_nth)
    moreover have "ring_rep (R + 1) D ?E P ((!) cl) r'" using rep_release [OF r p(1)] e(1) by simp
    ultimately show thesis using that [of "R + 1" D] pp S(1) e p by (simp add: cons_ok_def)
  next
    case (Deq_done x)
    then show thesis using st by (simp add: deq_step_def)
  qed
qed

lemma claims_cells: "enq_step c pc r = Some (pc', r') \<Longrightarrow> claims pc pc' \<Longrightarrow> cells r' = cells r"
  by (cases pc) (auto simp: enq_step_def claims_def split: if_splits)

lemma ring_inv_step:
  assumes inv: "ring_inv s" and st: "ring_next s s'"
    and bd: "length (rs_claimed s') + length (cells (rs_ring s')) < 2 ^ 63"
  shows "ring_inv s' \<and> length (cells (rs_ring s')) = length (cells (rs_ring s))"
proof -
  from inv obtain R D P where i: "ring_rep R D (length (rs_claimed s)) P ((!) (rs_claimed s)) (rs_ring s)"
    "rs_got s = take R (rs_claimed s)" "prods_ok R (rs_claimed s) P (rs_ring s) (rs_prod s)"
    "cons_ok R D (rs_claimed s) P (rs_cons s)" unfolding ring_inv_def by blast
  note B = ring_repD [OF i(1)]
  have P: "P \<subseteq> {p. p < length (rs_claimed s)}" "length (rs_claimed s) < 2 ^ 63" using B(6,7) by auto
  from st show ?thesis
  proof (cases rule: ring_next.cases)
    case (call t c)
    have "prods_ok R (rs_claimed s @ []) P (rs_ring s) ((rs_prod s)(t \<mapsto> (c, Enq_load)))"
      by (rule prods_ok_move [OF i(3) disjI1 [OF call(2)] P]) (use call(2) in \<open>auto simp: prod_ok_def\<close>)
    then show ?thesis using i call by (auto simp: ring_inv_def)
  next
    case (enq t c pc pc' r')
    have "claims pc pc' \<Longrightarrow> length (rs_claimed s) + 1 + length (cells (rs_ring s)) < 2 ^ 63"
      using bd enq(1) claims_cells [OF enq(3)] by simp
    from enq_step_keeps [OF i(1,3) enq(2,3) this] obtain P' where k:
      "ring_rep R D (length (rs_claimed s')) P' ((!) (rs_claimed s')) r'"
      "prods_ok R (rs_claimed s') P' r' (rs_prod s')" "D < length (rs_claimed s) \<Longrightarrow> D \<notin> P \<Longrightarrow> D \<notin> P'"
      "length (cells r') = length (cells (rs_ring s))" unfolding enq(1) by (simp split del: if_split) blast
    have "R \<le> length (rs_claimed s)" using B(3,4) by simp
    moreover have "D = R + 1 \<Longrightarrow> R < length (rs_claimed s)" using B(4) by simp
    ultimately have "cons_ok R D (rs_claimed s') P' (rs_cons s')" "rs_got s' = take R (rs_claimed s')"
      using i(2,4) k(3) enq(1) by (auto simp: cons_ok_def nth_append split: deq_pc.splits)
    moreover have "rs_ring s' = r'" "rs_cons s' = rs_cons s" using enq(1) by simp_all
    moreover have "prods_ok R (rs_claimed s') P' (rs_ring s') (rs_prod s')" using k(2) enq(1) by simp
    ultimately have "ring_inv s'"
      unfolding ring_inv_def using k(1) by (intro exI [of _ R] exI [of _ D] exI [of _ P'] conjI) simp_all
    then show ?thesis using k(4) \<open>rs_ring s' = r'\<close> by simp
  next
    case (enq_return t c b)
    have "prods_ok R (rs_claimed s) P (rs_ring s) ((rs_prod s)(t := None))"
      by (rule prods_ok_return [OF i(3) enq_return(2)])
    then show ?thesis using i enq_return by (auto simp: ring_inv_def)
  next
    case (deq pc' r')
    from deq_step_keeps [OF i(1,3,4) deq(2)] obtain R' D' where
      "ring_rep R' D' (length (rs_claimed s)) P ((!) (rs_claimed s)) r'" "prods_ok R' (rs_claimed s) P r' (rs_prod s)"
      "cons_ok R' D' (rs_claimed s) P pc'" "take R' (rs_claimed s) = take R (rs_claimed s) @ got_of pc'"
      "length (cells r') = length (cells (rs_ring s))" by metis
    then show ?thesis using i(2) unfolding ring_inv_def deq(1) by fastforce
  next
    case (deq_call c)
    then show ?thesis using i by (auto simp: ring_inv_def cons_ok_def)
  qed
qed

lemma ring_reach_inv:
  assumes r: "ring_reach r0 s" and r0: "ring_rep 0 0 0 {} cs r0"
  shows "length (rs_claimed s) + length (cells r0) < 2 ^ 63 \<Longrightarrow> ring_inv s \<and> length (cells (rs_ring s)) = length (cells r0)"
  using r
proof induction
  case init
  have "ring_rep 0 0 0 {} ((!) []) r0" using r0 ring_rep_cong [of 0 cs "(!) []"] by simp
  then show ?case by (fastforce simp: ring_inv_def prods_ok_def cons_ok_def)
next
  case (move s s')
  have "length (rs_claimed s) \<le> length (rs_claimed s')" using move.hyps(2) by cases simp_all
  then have i: "ring_inv s" "length (cells (rs_ring s)) = length (cells r0)" using move by auto
  have "length (cells (rs_ring s')) = length (cells (rs_ring s))"
    using move.hyps(2)
    by cases (auto simp: enq_step_def deq_step_def split: enq_pc.splits deq_pc.splits Option.bind_splits if_splits)
  then show ?case using ring_inv_step [OF i(1) move.hyps(2)] i(2) move.prems by simp
qed

text \<open>No access is out of bounds, and a comparison says \<open>full\<close> only of a full ring.\<close>

lemma enq_never_stuck:
  assumes "ring_inv s" "rs_prod s t = Some (c, pc)" "\<And>b. pc \<noteq> Enq_done b"
  obtains pc' r' where "enq_step c pc (rs_ring s) = Some (pc', r')"
    "pc' = Enq_done False \<Longrightarrow> length (rs_claimed s) = length (rs_got s) + length (cells (rs_ring s))"
proof -
  from assms(1) obtain R D P where i: "ring_rep R D (length (rs_claimed s)) P ((!) (rs_claimed s)) (rs_ring s)"
    "rs_got s = take R (rs_claimed s)" "prods_ok R (rs_claimed s) P (rs_ring s) (rs_prod s)" unfolding ring_inv_def by blast
  note B = ring_repD [OF i(1)]
  have ok: "prod_ok R (rs_claimed s) P (rs_ring s) c pc" using i(3) assms(2) by (simp add: prods_ok_def)
  have lt: "p < 2 ^ 63" if "p \<le> length (rs_claimed s)" for p using that B(6) by linarith
  have at: "cell_at (rs_ring s) (of_nat p) = Some (p mod length (cells (rs_ring s)))" if "p \<le> length (rs_claimed s)" for p
    using ring_cell_at [OF i(1) lt [OF that]] .
  have Pl: "p \<in> P \<Longrightarrow> p \<le> length (rs_claimed s)" for p using B(7) by auto
  have R: "length (rs_got s) = R" using i(2) B(3,4) by simp
  show thesis
  proof (cases pc)
    case (Enq_seq pos)
    then obtain p where p: "p \<le> length (rs_claimed s)" "pos = of_nat p" using ok by (auto simp: prod_ok_def)
    show thesis
    proof (rule seq_window [OF i(1) p(1)])
      fix q assume q: "cell_seq (slot (rs_ring s) p) = of_nat q" "q < 2 ^ 63"
        "p \<le> q \<or> (p = length (rs_claimed s) \<and> length (rs_claimed s) = R + length (cells (rs_ring s)))"
      obtain j where "cell_at (rs_ring s) (of_nat p) = Some j"
        "seq_dif (cell_seq (cells (rs_ring s) ! j)) (of_nat p) = Some (int q - int p)"
        by (rule seq_at [OF i(1) lt [OF p(1)] q(2,1) lt [OF p(1)]])
      then show thesis using that q(3) R Enq_seq p(2) by (fastforce simp: enq_step_def split: if_splits)
    qed
  qed (use that ok at Pl assms(3) in \<open>fastforce simp: enq_step_def prod_ok_def split: if_splits\<close>)+
qed

end
