(* ===== verification/Ring_Properties.thy ===== *)
theory Ring_Properties
  imports Ring_Threads Reactor_Demo
begin

text \<open>
  What the command ring promises: called by one thread at a time it is a bounded first-in first-out queue,
  and with any number of producers interleaved with the consumer at every atomic access, nothing is lost,
  duplicated or reordered.
\<close>

section \<open>One thread at a time: a bounded queue\<close>

datatype ring_op = Put cmd | Take

datatype ring_answer = Accepted bool | Taken "cmd option"

text \<open>The specification: a list of at most \<open>cap\<close> commands.\<close>

fun queue_do :: "nat \<Rightarrow> ring_op \<Rightarrow> cmd list \<Rightarrow> ring_answer \<times> cmd list" where
  "queue_do cap (Put c) q = (if length q < cap then (Accepted True, q @ [c]) else (Accepted False, q))"
| "queue_do cap Take [] = (Taken None, [])"
| "queue_do cap Take (c # q) = (Taken (Some c), q)"

fun queue_run :: "nat \<Rightarrow> ring_op list \<Rightarrow> cmd list \<Rightarrow> ring_answer list" where
  "queue_run cap [] q = []"
| "queue_run cap (x # xs) q = (let (a, q) = queue_do cap x q in a # queue_run cap xs q)"

text \<open>The routines.\<close>

fun ring_do :: "ring_op \<Rightarrow> cmd_ring \<Rightarrow> (ring_answer \<times> cmd_ring) option" where
  "ring_do (Put c) r = map_option (apfst Accepted) (ring_enqueue r c)"
| "ring_do Take r = map_option (apfst Taken) (ring_dequeue r)"

fun ring_run :: "ring_op list \<Rightarrow> cmd_ring \<Rightarrow> ring_answer list option" where
  "ring_run [] r = Some []"
| "ring_run (x # xs) r = Option.bind (ring_do x r) (\<lambda>(a, r). map_option ((#) a) (ring_run xs r))"

lemma ring_do_queue:
  assumes "ring_queue r n q" "n + 1 + length (cells r) < 2 ^ 63" "queue_do (length (cells r)) x q = (a, q')"
  obtains r' n' where "ring_do x r = Some (a, r')" "ring_queue r' n' q'" "n' \<le> n + 1" "length (cells r') = length (cells r)"
proof (cases x)
  case (Put c)
  show thesis
  proof (cases "length q < length (cells r)")
    case True
    from queue_enq [OF assms(1) this assms(2), of c] show thesis
      using that assms(3) Put True by (auto split: if_splits)
  next
    case False
    then have "length q = length (cells r)" using queue_bounds [OF assms(1)] by simp
    then show thesis using queue_full [OF assms(1), of c] that [of r n] assms Put by auto
  qed
next
  case Take
  show thesis
  proof (cases q)
    case Nil
    then show thesis using queue_deq_none [of r n] that [of r n] assms Take by auto
  next
    case (Cons c q1)
    obtain r1 where "ring_dequeue r = Some (Some c, r1)" "ring_queue r1 n q1" "length (cells r1) = length (cells r)"
      using queue_deq assms(1) unfolding Cons by blast
    then show thesis using that [of r1 n] assms(3) Take Cons by auto
  qed
qed

lemma ring_run_queue:
  assumes "ring_queue r n q" "n + length xs + length (cells r) < 2 ^ 63"
  shows "ring_run xs r = Some (queue_run (length (cells r)) xs q)"
  using assms
proof (induction xs arbitrary: r n q)
  case (Cons x xs)
  obtain a q' where a: "queue_do (length (cells r)) x q = (a, q')" by fastforce
  have "n + 1 + length (cells r) < 2 ^ 63" using Cons.prems(2) by (rule le_less_trans [rotated]) simp
  from ring_do_queue [OF Cons.prems(1) this a] obtain r' n' where r: "ring_do x r = Some (a, r')" "ring_queue r' n' q'"
    "n' \<le> n + 1" "length (cells r') = length (cells r)" .
  have "n' + length xs + length (cells r') < 2 ^ 63" using Cons.prems(2) by (rule le_less_trans [rotated]) (use r in simp)
  from Cons.IH [OF r(2) this] show ?case using r(1,4) a by simp
qed simp

text \<open>Property C9. A ring that \<open>ring_init\<close> made answers every sequence of \<open>ring_enqueue\<close> and
  \<open>ring_dequeue\<close> calls as a queue of its capacity does: commands come out in the order in which they went
  in, an enqueue is refused exactly when the queue is full, a dequeue returns nothing exactly when it is
  empty, and no access is out of bounds, while the positions stay clear of \<open>2^63\<close>.\<close>

theorem ring_is_bounded_queue:
  assumes "ring_init e r0 cap w = (0, r, w')" "cap = 2 ^ k" "0 < k" "k < 62" "length xs + 2 ^ k < 2 ^ 63"
  shows "ring_run xs r = Some (queue_run (2 ^ k) xs [])"
proof -
  note I = ring_init_spec [OF assms(1-4)]
  have "ring_queue r 0 []" using I(1) by (simp add: ring_queue_def)
  then show ?thesis using ring_run_queue [of r 0 "[]" xs] I(2) assms(5) by simp
qed

lemma ring_is_bounded_queue_witness:
  "\<exists>r w. ring_init demo_env ring_zero CMD_RING_CAP (demo_world\<lparr>w_sys := demo_kernel_state\<lparr>dk_allocs := Suc 0\<rparr>\<rparr>) = (0, r, w) \<and>
     ring_run [Take, Put cmd_zero, Take, Take] r = Some [Taken None, Accepted True, Taken (Some cmd_zero), Taken None]"
proof -
  obtain r w where r: "ring_init demo_env ring_zero CMD_RING_CAP (demo_world\<lparr>w_sys := demo_kernel_state\<lparr>dk_allocs := Suc 0\<rparr>\<rparr>) = (0, r, w)"
    using demo_ring_init [of "demo_world\<lparr>w_sys := demo_kernel_state\<lparr>dk_allocs := Suc 0\<rparr>\<rparr>"] by auto
  have "ring_run [Take, Put cmd_zero, Take, Take] r = Some (queue_run (2 ^ 10) [Take, Put cmd_zero, Take, Take] [])"
    by (rule ring_is_bounded_queue [OF r]) (simp_all add: CMD_RING_CAP_def)
  then show ?thesis using r by simp
qed

section \<open>Producers and the consumer interleaved\<close>

lemma deq_never_stuck:
  assumes "ring_inv s" "\<And>c. rs_cons s \<noteq> Deq_done c"
  shows "deq_step (rs_cons s) (rs_ring s) \<noteq> None"
proof -
  from assms(1) obtain R D P where i: "ring_rep R D (length (rs_claimed s)) P ((!) (rs_claimed s)) (rs_ring s)"
    "cons_ok R D (rs_claimed s) P (rs_cons s)" unfolding ring_inv_def by blast
  note B = ring_repD [OF i(1)]
  have D: "D < 2 ^ 63" "R < 2 ^ 63" "D + 1 < 2 ^ 63" "D \<le> length (rs_claimed s)" using B(3,4,6,11) by linarith+
  have at: "cell_at (rs_ring s) (of_nat p) = Some (p mod length (cells (rs_ring s)))" if "p < 2 ^ 63" for p
    by (rule ring_cell_at [OF i(1) that])
  show ?thesis
  proof (cases "rs_cons s")
    case (Deq_seq pos)
    then have p: "pos = of_nat D" "pos + 1 = of_nat (D + 1)" using i(2) by (simp_all add: cons_ok_def)
    show ?thesis
    proof (rule seq_window [OF i(1) D(4)])
      fix q assume q: "cell_seq (slot (rs_ring s) D) = of_nat q" "q < 2 ^ 63"
      show ?thesis
        by (rule seq_at [OF i(1) D(1) q(2,1) D(3)]) (use p Deq_seq in \<open>simp add: deq_step_def add.commute\<close>)
    qed
  qed (use i(2) at D(1,2) assms(2) in \<open>auto simp: deq_step_def cons_ok_def\<close>)
qed

lemma inv_prefix:
  assumes "ring_inv s"
  shows "\<exists>q. rs_claimed s = rs_got s @ q \<and> length q \<le> length (cells (rs_ring s))"
proof -
  from assms obtain R D P where i: "ring_rep R D (length (rs_claimed s)) P ((!) (rs_claimed s)) (rs_ring s)"
    "rs_got s = take R (rs_claimed s)" unfolding ring_inv_def by blast
  then show ?thesis using ring_repD(5) [OF i(1)] by (intro exI [of _ "drop R (rs_claimed s)"]) simp
qed

text \<open>A schedule, for examples: a call begins, a producer or the consumer makes its next access.\<close>

datatype ring_tick = Call nat cmd | Producer nat | Consumer

fun tick :: "ring_tick \<Rightarrow> ring_sys \<Rightarrow> ring_sys option" where
  "tick (Call t c) s = (if rs_prod s t = None then Some (s\<lparr>rs_prod := (rs_prod s)(t \<mapsto> (c, Enq_load))\<rparr>) else None)"
| "tick (Producer t) s = Option.bind (rs_prod s t) (\<lambda>(c, pc). map_option (\<lambda>(pc', r).
     s\<lparr>rs_ring := r, rs_prod := (rs_prod s)(t \<mapsto> (c, pc')), rs_claimed := rs_claimed s @ (if claims pc pc' then [c] else [])\<rparr>)
     (enq_step c pc (rs_ring s)))"
| "tick Consumer s = (case rs_cons s of Deq_done _ \<Rightarrow> Some (s\<lparr>rs_cons := Deq_load\<rparr>)
     | pc \<Rightarrow> map_option (\<lambda>(pc', r). s\<lparr>rs_ring := r, rs_cons := pc', rs_got := rs_got s @ got_of pc'\<rparr>) (deq_step pc (rs_ring s)))"

fun ticks :: "ring_tick list \<Rightarrow> ring_sys \<Rightarrow> ring_sys option" where
  "ticks [] s = Some s"
| "ticks (x # xs) s = Option.bind (tick x s) (ticks xs)"

lemma tick_next: "tick x s = Some s' \<Longrightarrow> ring_next s s'"
  by (cases x) (auto intro: ring_next.intros split: if_splits Option.bind_splits deq_pc.splits)

lemma ticks_reach: "ring_reach r0 s \<Longrightarrow> ticks xs s = Some s' \<Longrightarrow> ring_reach r0 s'"
  by (induction xs arbitrary: s) (auto dest: tick_next intro: ring_reach.move split: Option.bind_splits)

definition ring_start :: "cmd_ring \<Rightarrow> ring_sys" where
  "ring_start r = \<lparr>rs_ring = r, rs_prod = Map.empty, rs_cons = Deq_load, rs_claimed = [], rs_got = []\<rparr>"

definition demo_pair :: cmd_ring where
  "demo_pair = fst (snd (ring_init demo_env ring_zero 2 demo_world))"

lemma demo_pair_init: "\<exists>w. ring_init demo_env ring_zero 2 demo_world = (0, demo_pair, w)"
  by (simp add: demo_pair_def ring_init_def demo_env_def demo_os_def demo_alloc_def SIZEOF_CELL_def demo_world_def demo_kernel_state_def)

lemma demo_pair_is: "demo_pair = \<lparr>enqueue_pos = 0, cells_mem = 4096, cells = [\<lparr>cell_seq = 0, cell_cmd = cmd_zero\<rparr>,
   \<lparr>cell_seq = 1, cell_cmd = cmd_zero\<rparr>], ring_mask = 1, dequeue_pos = 0\<rparr>"
  by (simp add: demo_pair_def ring_init_def demo_env_def demo_os_def demo_alloc_def SIZEOF_CELL_def demo_world_def demo_kernel_state_def
    ring_zero_def upt_rec)

text \<open>The first producer claims a cell and stops; the second publishes behind it, and the consumer sees nothing;
  a third finds the ring full; the first publishes, and its command is the one that comes out.\<close>

definition demo_schedule :: "ring_tick list" where
  "demo_schedule = [Call 0 cmd_zero, Producer 0, Producer 0, Producer 0,
     Call 1 (cmd_zero\<lparr>cmd_target := 7\<rparr>), Producer 1, Producer 1, Producer 1, Producer 1, Producer 1,
     Consumer, Consumer, Call 2 cmd_zero, Producer 2]"

definition demo_schedule_rest :: "ring_tick list" where
  "demo_schedule_rest = [Producer 2, Producer 0, Producer 0, Consumer, Consumer, Consumer, Consumer, Consumer, Consumer]"

lemma demo_schedule_full: "map_option (\<lambda>s. (rs_claimed s, rs_got s, rs_cons s, rs_prod s 2)) (ticks demo_schedule (ring_start demo_pair)) =
   Some ([cmd_zero, cmd_zero\<lparr>cmd_target := 7\<rparr>], [], Deq_done None, Some (cmd_zero, Enq_seq 2))"
  unfolding demo_pair_is by code_simp

lemma demo_schedule_got: "map_option (\<lambda>s. (rs_claimed s, rs_got s, rs_prod s 0, rs_prod s 2))
    (ticks (demo_schedule @ demo_schedule_rest) (ring_start demo_pair)) =
   Some ([cmd_zero, cmd_zero\<lparr>cmd_target := 7\<rparr>], [cmd_zero], Some (cmd_zero, Enq_done True), Some (cmd_zero, Enq_done False))"
  unfolding demo_pair_is by code_simp

lemma demo_scheduled:
  assumes "map_option g (ticks xs (ring_start demo_pair)) = Some a"
  obtains s where "ring_reach demo_pair s" "g s = a"
proof -
  from assms obtain s where s: "ticks xs (ring_start demo_pair) = Some s" "g s = a" by auto
  have "ring_reach demo_pair (ring_start demo_pair)" unfolding ring_start_def by (rule ring_reach.init)
  from that [OF ticks_reach [OF this s(1)] s(2)] show thesis .
qed

text \<open>Property C7. Whatever the interleaving of the producers' and the consumer's atomic accesses: what the
  consumer has got is a prefix of the commands in the order in which producers claimed their cells, so
  nothing is duplicated, reordered or torn; at most the ring's capacity is between the two; and a command
  whose \<open>ring_enqueue\<close> returned true has been claimed, so it will come out.\<close>

theorem ring_threads_fifo:
  assumes "ring_init e r0 cap w = (0, r, w')" "cap = 2 ^ k" "0 < k" "k < 62"
    and "ring_reach r s" "length (rs_claimed s) + 2 ^ k < 2 ^ 63"
  shows "(\<exists>q. rs_claimed s = rs_got s @ q \<and> length q \<le> 2 ^ k) \<and>
    (\<forall>t c. rs_prod s t = Some (c, Enq_done True) \<longrightarrow> c \<in> set (rs_claimed s))"
proof -
  note I = ring_init_spec [OF assms(1-4)]
  have i: "ring_inv s" "length (cells (rs_ring s)) = 2 ^ k"
    using ring_reach_inv [OF assms(5) I(1)] assms(6) I(2) by simp_all
  then obtain R P where "prods_ok R (rs_claimed s) P (rs_ring s) (rs_prod s)" unfolding ring_inv_def by blast
  then have "prod_ok R (rs_claimed s) P (rs_ring s) c (Enq_done True)" if "rs_prod s t = Some (c, Enq_done True)" for t c
    using that by (simp add: prods_ok_def)
  then show ?thesis using inv_prefix [OF i(1)] i(2) by (auto simp: prod_ok_def)
qed

lemma ring_threads_fifo_witness:
  "\<exists>s. ring_reach demo_pair s \<and> rs_got s = [cmd_zero] \<and> rs_prod s 0 = Some (cmd_zero, Enq_done True) \<and>
     (\<exists>q. rs_claimed s = rs_got s @ q \<and> length q \<le> 2) \<and> cmd_zero \<in> set (rs_claimed s)"
proof -
  obtain w where i: "ring_init demo_env ring_zero 2 demo_world = (0, demo_pair, w)" using demo_pair_init by blast
  obtain s where s: "ring_reach demo_pair s" "(rs_claimed s, rs_got s, rs_prod s 0, rs_prod s 2) =
      ([cmd_zero, cmd_zero\<lparr>cmd_target := 7\<rparr>], [cmd_zero], Some (cmd_zero, Enq_done True), Some (cmd_zero, Enq_done False))"
    by (rule demo_scheduled [OF demo_schedule_got])
  from ring_threads_fifo [OF i, of 1 s] have "(\<exists>q. rs_claimed s = rs_got s @ q \<and> length q \<le> 2) \<and>
      (\<forall>t c. rs_prod s t = Some (c, Enq_done True) \<longrightarrow> c \<in> set (rs_claimed s))" using s by simp
  then show ?thesis using s by blast
qed

text \<open>Property C8. No thread is ever stuck in the ring: every access a producer or the consumer is about to
  make stays inside the array and its comparison of sequence numbers does not overflow; and a producer is
  told that the ring is full only while it is.\<close>

theorem ring_threads_never_stuck:
  assumes "ring_init e r0 cap w = (0, r, w')" "cap = 2 ^ k" "0 < k" "k < 62"
    and "ring_reach r s" "length (rs_claimed s) + 2 ^ k < 2 ^ 63"
  shows "(\<forall>t c pc. rs_prod s t = Some (c, pc) \<longrightarrow> (\<forall>b. pc \<noteq> Enq_done b) \<longrightarrow>
      (\<exists>pc' r'. enq_step c pc (rs_ring s) = Some (pc', r') \<and>
        (pc' = Enq_done False \<longrightarrow> length (rs_claimed s) = length (rs_got s) + 2 ^ k))) \<and>
    ((\<forall>c. rs_cons s \<noteq> Deq_done c) \<longrightarrow> deq_step (rs_cons s) (rs_ring s) \<noteq> None)"
proof -
  note I = ring_init_spec [OF assms(1-4)]
  have i: "ring_inv s" "length (cells (rs_ring s)) = 2 ^ k"
    using ring_reach_inv [OF assms(5) I(1)] assms(6) I(2) by simp_all
  have "\<exists>pc' r'. enq_step c pc (rs_ring s) = Some (pc', r') \<and>
      (pc' = Enq_done False \<longrightarrow> length (rs_claimed s) = length (rs_got s) + 2 ^ k)"
    if "rs_prod s t = Some (c, pc)" "\<forall>b. pc \<noteq> Enq_done b" for t c pc
    using enq_never_stuck [OF i(1) that(1)] that(2) i(2) by metis
  moreover have "deq_step (rs_cons s) (rs_ring s) \<noteq> None" if "\<forall>c. rs_cons s \<noteq> Deq_done c"
    using deq_never_stuck [OF i(1)] that by blast
  ultimately show ?thesis by blast
qed

lemma ring_threads_never_stuck_witness:
  "\<exists>s pc r. ring_reach demo_pair s \<and> rs_prod s 2 = Some (cmd_zero, Enq_seq 2) \<and>
     enq_step cmd_zero (Enq_seq 2) (rs_ring s) = Some (pc, r) \<and>
     (pc = Enq_done False \<longrightarrow> length (rs_claimed s) = length (rs_got s) + 2)"
proof -
  obtain w where i: "ring_init demo_env ring_zero 2 demo_world = (0, demo_pair, w)" using demo_pair_init by blast
  obtain s where s: "ring_reach demo_pair s" "(rs_claimed s, rs_got s, rs_cons s, rs_prod s 2) =
      ([cmd_zero, cmd_zero\<lparr>cmd_target := 7\<rparr>], [], Deq_done None, Some (cmd_zero, Enq_seq 2))"
    by (rule demo_scheduled [OF demo_schedule_full])
  have "length (rs_claimed s) + 2 ^ 1 < 2 ^ 63" using s(2) by simp
  from ring_threads_never_stuck [OF i _ _ _ s(1) this] have
    "\<exists>pc r. enq_step cmd_zero (Enq_seq 2) (rs_ring s) = Some (pc, r) \<and>
      (pc = Enq_done False \<longrightarrow> length (rs_claimed s) = length (rs_got s) + 2)" using s(2) by auto
  then show ?thesis using s by blast
qed

end
