(* ===== verification/Ws_Crypto.thy ===== *)
theory Ws_Crypto
  imports Prelude
begin

text \<open>
  The handshake arithmetic of \<^verbatim>\<open>examples/ws_echo/ws_echo.c\<close>: SHA-1 with its 64-byte buffer, and base64. A
  buffer of fixed size is a list, and a store outside it is \<open>None\<close>. The references are SHA-1 as FIPS 180-4
  defines it, over the padded message, and a base64 decoder.
\<close>

section \<open>SHA-1\<close>

record sha1 =
  sh_h :: "u32 list"
  sh_len :: u64
  sh_buf :: "u8 list"
  sh_n :: nat

definition rol :: "u32 \<Rightarrow> nat \<Rightarrow> u32" where
  "rol v c = push_bit c v OR drop_bit (32 - c) v"

definition load_be32 :: "u8 list \<Rightarrow> u32" where
  "load_be32 p = push_bit 24 (ucast (p ! 0)) OR push_bit 16 (ucast (p ! 1)) OR push_bit 8 (ucast (p ! 2)) OR ucast (p ! 3)"

definition store_be32 :: "u32 \<Rightarrow> u8 list" where
  "store_be32 v = [ucast (drop_bit 24 v), ucast (drop_bit 16 v), ucast (drop_bit 8 v), ucast v]"

text \<open>The array \<open>w\<close>, filled from the block and then from itself.\<close>

definition sha1_w :: "u8 list \<Rightarrow> u32 list" where
  "sha1_w p = foldl (\<lambda>w i. w @ [rol (w ! (i - 3) XOR w ! (i - 8) XOR w ! (i - 14) XOR w ! (i - 16)) 1])
     (map (\<lambda>i. load_be32 (drop (i * 4) p)) [0..<16]) [16..<80]"

definition sha1_round :: "u32 list \<Rightarrow> u32 \<times> u32 \<times> u32 \<times> u32 \<times> u32 \<Rightarrow> nat \<Rightarrow> u32 \<times> u32 \<times> u32 \<times> u32 \<times> u32" where
  "sha1_round w s i =
     (case s of (a, b, c, d, e) \<Rightarrow>
      let (f, k) =
        (if i < 20 then ((b AND c) OR (NOT b AND d), 0x5A827999)
         else if i < 40 then (b XOR c XOR d, 0x6ED9EBA1)
         else if i < 60 then ((b AND c) OR (b AND d) OR (c AND d), 0x8F1BBCDC)
         else (b XOR c XOR d, 0xCA62C1D6));
        t = rol a 5 + f + e + k + w ! i
      in (t, a, rol b 30, c, d))"

definition sha1_block :: "u32 list \<Rightarrow> u8 list \<Rightarrow> u32 list" where
  "sha1_block h p =
     (case foldl (sha1_round (sha1_w p)) (h ! 0, h ! 1, h ! 2, h ! 3, h ! 4) [0..<80] of
        (a, b, c, d, e) \<Rightarrow> [h ! 0 + a, h ! 1 + b, h ! 2 + c, h ! 3 + d, h ! 4 + e])"

definition SHA1_INIT :: "u32 list" where
  "SHA1_INIT = [0x67452301, 0xEFCDAB89, 0x98BADCFE, 0x10325476, 0xC3D2E1F0]"

text \<open>\<open>memcpy(buf + at, bs, length bs)\<close> into a buffer.\<close>

definition buf_put :: "nat \<Rightarrow> 'a list \<Rightarrow> 'a list \<Rightarrow> 'a list option" where
  "buf_put at bs buf =
     (if at + length bs \<le> length buf then Some (take at buf @ bs @ drop (at + length bs) buf) else None)"

text \<open>The loop over the input, and \<open>s.buf[s.n++] = b\<close>.\<close>

partial_function (option) sha1_absorb :: "sha1 \<Rightarrow> u8 list \<Rightarrow> sha1 option" where
  "sha1_absorb s data =
     (if data = [] then Some s
      else
        let tk = min (64 - sh_n s) (length data) in
        Option.bind (buf_put (sh_n s) (take tk data) (sh_buf s)) (\<lambda>buf.
          let s = s\<lparr>sh_buf := buf, sh_n := sh_n s + tk\<rparr>;
              s = (if sh_n s = 64 then s\<lparr>sh_h := sha1_block (sh_h s) (sh_buf s), sh_n := 0\<rparr> else s)
          in sha1_absorb s (drop tk data)))"

definition sha1_put :: "u8 \<Rightarrow> sha1 \<Rightarrow> sha1 option" where
  "sha1_put b s = map_option (\<lambda>buf. s\<lparr>sh_buf := buf, sh_n := sh_n s + 1\<rparr>) (buf_put (sh_n s) [b] (sh_buf s))"

partial_function (option) sha1_zeros :: "nat \<Rightarrow> sha1 \<Rightarrow> sha1 option" where
  "sha1_zeros lim s = (if sh_n s < lim then Option.bind (sha1_put 0 s) (sha1_zeros lim) else Some s)"

primrec sha1_puts :: "u8 list \<Rightarrow> sha1 \<Rightarrow> sha1 option" where
  "sha1_puts [] s = Some s"
| "sha1_puts (b # bs) s = Option.bind (sha1_put b s) (sha1_puts bs)"

text \<open>The eight bytes of a 64-bit number, most significant first.\<close>

definition be64 :: "u64 \<Rightarrow> u8 list" where
  "be64 v = map (\<lambda>i. ucast (drop_bit (i * 8) v)) [7, 6, 5, 4, 3, 2, 1, 0]"

definition ws_sha1 :: "u8 list \<Rightarrow> u8 list option" where
  "ws_sha1 data = do {
     let s = \<lparr>sh_h = SHA1_INIT, sh_len = of_nat (length data) * 8, sh_buf = replicate 64 0, sh_n = 0\<rparr>;
     s \<leftarrow> sha1_absorb s data;
     s \<leftarrow> sha1_put 0x80 s;
     s \<leftarrow> (if sh_n s > 56 then do {
             s \<leftarrow> sha1_zeros 64 s;
             Some (s\<lparr>sh_h := sha1_block (sh_h s) (sh_buf s), sh_n := 0\<rparr>)
           }
           else Some s);
     s \<leftarrow> sha1_zeros 56 s;
     s \<leftarrow> sha1_puts (be64 (sh_len s)) s;
     Some (concat (map (\<lambda>i. store_be32 (sha1_block (sh_h s) (sh_buf s) ! i)) [0..<5]))
   }"

section \<open>SHA-1 as FIPS 180-4 defines it\<close>

definition fips_K :: "nat \<Rightarrow> u32" where
  "fips_K t = (if t < 20 then 0x5A827999 else if t < 40 then 0x6ED9EBA1 else if t < 60 then 0x8F1BBCDC else 0xCA62C1D6)"

definition fips_f :: "nat \<Rightarrow> u32 \<Rightarrow> u32 \<Rightarrow> u32 \<Rightarrow> u32" where
  "fips_f t x y z =
     (if t < 20 then (x AND y) XOR (NOT x AND z)
      else if t < 40 then x XOR y XOR z
      else if t < 60 then (x AND y) XOR (x AND z) XOR (y AND z)
      else x XOR y XOR z)"

text \<open>A message block \<open>M\<close> is its sixteen words.\<close>

function fips_W :: "(nat \<Rightarrow> u32) \<Rightarrow> nat \<Rightarrow> u32" where
  "fips_W M t =
     (if t < 16 then M t
      else word_rotl 1 (fips_W M (t - 3) XOR fips_W M (t - 8) XOR fips_W M (t - 14) XOR fips_W M (t - 16)))"
  by pat_completeness auto
termination by (relation "measure snd") auto

declare fips_W.simps [simp del]

fun fips_step :: "(nat \<Rightarrow> u32) \<Rightarrow> nat \<Rightarrow> u32 \<times> u32 \<times> u32 \<times> u32 \<times> u32 \<Rightarrow> u32 \<times> u32 \<times> u32 \<times> u32 \<times> u32" where
  "fips_step M t (a, b, c, d, e) =
     (word_rotl 5 a + fips_f t b c d + e + fips_K t + fips_W M t, a, word_rotl 30 b, c, d)"

fun fips_compress :: "u32 \<times> u32 \<times> u32 \<times> u32 \<times> u32 \<Rightarrow> (nat \<Rightarrow> u32) \<Rightarrow> u32 \<times> u32 \<times> u32 \<times> u32 \<times> u32" where
  "fips_compress (h0, h1, h2, h3, h4) M =
     (case fold (fips_step M) [0..<80] (h0, h1, h2, h3, h4) of
        (a, b, c, d, e) \<Rightarrow> (h0 + a, h1 + b, h2 + c, h3 + d, h4 + e))"

definition be_word :: "u8 list \<Rightarrow> nat \<Rightarrow> u32" where
  "be_word bs i = of_nat (unat (bs ! (4 * i)) * 2 ^ 24 + unat (bs ! (4 * i + 1)) * 2 ^ 16 +
     unat (bs ! (4 * i + 2)) * 2 ^ 8 + unat (bs ! (4 * i + 3)))"

text \<open>The padded message: a one bit, zeros, the bit length in 64 bits; a whole number of blocks.\<close>

definition fips_pad :: "u8 list \<Rightarrow> u8 list" where
  "fips_pad m = m @ [0x80] @ replicate ((119 - length m mod 64) mod 64) 0 @ be64 (of_nat (8 * length m))"

fun blocks64 :: "u8 list \<Rightarrow> u8 list list" where
  "blocks64 bs = (if length bs < 64 then [] else take 64 bs # blocks64 (drop 64 bs))"

declare blocks64.simps [simp del]

definition fips_sha1 :: "u8 list \<Rightarrow> u8 list" where
  "fips_sha1 m =
     (case fold (\<lambda>b h. fips_compress h (be_word b)) (blocks64 (fips_pad m)) (0x67452301, 0xEFCDAB89, 0x98BADCFE, 0x10325476, 0xC3D2E1F0) of
        (a, b, c, d, e) \<Rightarrow> concat (map store_be32 [a, b, c, d, e]))"

section \<open>The compression function\<close>

lemma rol_rotl: "0 < c \<Longrightarrow> c < 32 \<Longrightarrow> rol v c = word_rotl c v"
proof (rule bit_word_eqI)
  fix n assume c: "0 < c" "c < 32" and n: "n < LENGTH(32)"
  then have n32: "n < 32" by simp
  show "bit (rol v c) n = bit (word_rotl c v) n"
  proof (cases "c \<le> n")
    case True
    have "\<not> bit v (32 + n - c)" using bit_imp_le_length [of v "32 + n - c"] True by auto
    moreover have "(n + (32 - c) mod 32) mod 32 = n - c"
      using True c n32 by (simp add: mod_if)
    ultimately show ?thesis using True c n32 by (simp add: rol_def bit_simps bit_word_rotl_iff)
  next
    case False
    have "n + (32 - c) < 32" "c mod 32 = c" using False c by simp_all
    then have "(n + (32 - c mod 32)) mod 32 = 32 - c + n" by simp
    then show ?thesis using False c n32 by (simp add: rol_def bit_simps bit_word_rotl_iff)
  qed
qed

lemma rol_steps: "rol v (Suc 0) = word_rotl (Suc 0) v" "rol v 5 = word_rotl 5 v" "rol v 30 = word_rotl 30 v"
  by (rule rol_rotl; simp)+

lemma be_bytes:
  fixes a b c d :: u8
  shows "push_bit 24 (ucast a) OR push_bit 16 (ucast b) OR push_bit 8 (ucast c) OR ucast d =
    (of_nat (unat a * 2 ^ 24 + unat b * 2 ^ 16 + unat c * 2 ^ 8 + unat d) :: u32)"
proof -
  have *: "(push_bit k (ucast x) :: u32) = of_nat (unat x * 2 ^ k)" for x :: u8 and k
    by (simp add: push_bit_eq_mult)
  have d0: "x OR y = x + y" if "x AND y = 0" for x y :: u32
    using that by (simp add: disjunctive_add_eq_or)
  have "push_bit 24 (ucast a) AND (push_bit 16 (ucast b) OR push_bit 8 (ucast c) OR (ucast d :: u32)) = 0"
    "push_bit 16 (ucast b) AND (push_bit 8 (ucast c) OR (ucast d :: u32)) = 0"
    "push_bit 8 (ucast c) AND (ucast d :: u32) = 0"
    by (rule bit_word_eqI; auto simp: bit_simps dest: bit_imp_le_length)+
  then have "push_bit 24 (ucast a) OR push_bit 16 (ucast b) OR push_bit 8 (ucast c) OR (ucast d :: u32) =
      push_bit 24 (ucast a) + (push_bit 16 (ucast b) + (push_bit 8 (ucast c) + ucast d))"
    by (simp only: d0 or.assoc)
  also have "\<dots> = of_nat (unat a * 2 ^ 24 + unat b * 2 ^ 16 + unat c * 2 ^ 8 + unat d)"
    unfolding * by simp
  finally show ?thesis .
qed

lemma load_be32_word: "i * 4 + 3 < length p \<Longrightarrow> load_be32 (drop (i * 4) p) = be_word p i"
  unfolding load_be32_def be_word_def be_bytes by (simp add: mult.commute)

lemma sha1_w_at: "length p = 64 \<Longrightarrow> t < 80 \<Longrightarrow> sha1_w p ! t = fips_W (be_word p) t"
proof -
  assume p: "length p = 64" and t: "t < 80"
  let ?g = "\<lambda>w i. w @ [rol (w ! (i - 3) XOR w ! (i - 8) XOR w ! (i - 14) XOR w ! (i - 16)) 1]"
  let ?w0 = "map (\<lambda>i. load_be32 (drop (i * 4) p)) [0..<16]"
  have W: "length (foldl ?g ?w0 [16..<n]) = n \<and> (\<forall>t < n. foldl ?g ?w0 [16..<n] ! t = fips_W (be_word p) t)" if "16 \<le> n" for n
    using that
  proof (induction n rule: dec_induct)
    case base
    show ?case using p by (auto simp: load_be32_word fips_W.simps)
  next
    case (step n)
    let ?w = "foldl ?g ?w0 [16..<n]"
    have up: "[16..<Suc n] = [16..<n] @ [n]" using step.hyps by simp
    have "rol (?w ! (n - 3) XOR ?w ! (n - 8) XOR ?w ! (n - 14) XOR ?w ! (n - 16)) 1 = fips_W (be_word p) n"
      using step by (subst fips_W.simps) (simp add: rol_steps)
    then show ?case using step unfolding up by (auto simp: nth_append less_Suc_eq)
  qed
  have "(16 :: nat) \<le> 80" by simp
  from W [OF this] show ?thesis using t unfolding sha1_w_def by blast
qed

lemma sha1_choice:
  fixes b c d :: u32
  shows "(b AND c) OR (NOT b AND d) = (b AND c) XOR (NOT b AND d)"
    "(b AND c) OR (b AND d) OR (c AND d) = (b AND c) XOR (b AND d) XOR (c AND d)"
  by (rule bit_word_eqI; auto simp: bit_simps)+

lemma sha1_round_step:
  assumes "length p = 64" "t < 80"
  shows "sha1_round (sha1_w p) s t = fips_step (be_word p) t s"
proof -
  obtain a b c d e where s: "s = (a, b, c, d, e)" by (cases s)
  show ?thesis
    using sha1_w_at [OF assms] by (simp add: s sha1_round_def fips_f_def fips_K_def sha1_choice rol_steps)
qed

abbreviation words5 :: "u32 \<times> u32 \<times> u32 \<times> u32 \<times> u32 \<Rightarrow> u32 list" where
  "words5 h \<equiv> (case h of (a, b, c, d, e) \<Rightarrow> [a, b, c, d, e])"

lemma sha1_block_compress:
  assumes "length p = 64"
  shows "sha1_block (words5 h) p = words5 (fips_compress h (be_word p))"
proof -
  obtain a b c d e where h: "h = (a, b, c, d, e)" by (cases h)
  have "foldl (sha1_round (sha1_w p)) z [0..<n] = fold (fips_step (be_word p)) [0..<n] z" if "n \<le> 80" for n z
    using that by (induction n) (simp_all add: sha1_round_step [OF assms])
  from this [OF order_refl] show ?thesis
    unfolding h sha1_block_def prod.case list.size nth_Cons_0 by (simp del: upt_rec_numeral split: prod.split)
qed

section \<open>The buffer and the padding\<close>

definition rest64 :: "u8 list \<Rightarrow> u8 list" where
  "rest64 bs = drop (64 * (length bs div 64)) bs"

lemma blocks64_short: "length bs < 64 \<Longrightarrow> blocks64 bs = [] \<and> rest64 bs = bs"
  by (simp add: blocks64.simps [of bs] rest64_def)

lemma blocks64_block: "length b = 64 \<Longrightarrow> blocks64 (b @ bs) = b # blocks64 bs \<and> rest64 (b @ bs) = rest64 bs"
proof -
  assume b: "length b = 64"
  have "(64 + length bs) div 64 = Suc (length bs div 64)" by (simp add: div_add_self1)
  then show ?thesis using b by (simp add: blocks64.simps [of "b @ bs"] rest64_def)
qed

lemma blocks64_append: "blocks64 (m @ t) = blocks64 m @ blocks64 (rest64 m @ t)"
proof (induction "length m" arbitrary: m rule: less_induct)
  case less
  show ?case
  proof (cases "length m < 64")
    case True
    then show ?thesis by (simp add: blocks64_short)
  next
    case False
    then obtain b m' where m: "m = b @ m'" "length b = 64" using append_take_drop_id [of 64 m] length_take [of 64 m] by (metis min_absorb2 not_less)
    have "blocks64 (b @ (m' @ t)) = b # blocks64 (m' @ t)" using blocks64_block [OF m(2)] by blast
    then show ?thesis using less [of m'] m blocks64_block [OF m(2), of m'] by simp
  qed
qed

lemma length_rest64: "length (rest64 bs) = length bs mod 64"
  by (simp add: rest64_def minus_mult_div_eq_mod)

definition sha1_holds :: "sha1 \<Rightarrow> u32 \<times> u32 \<times> u32 \<times> u32 \<times> u32 \<Rightarrow> u8 list \<Rightarrow> bool" where
  "sha1_holds s h pend \<longleftrightarrow>
     sh_h s = words5 h \<and> sh_n s = length pend \<and> length (sh_buf s) = 64 \<and> length pend \<le> 64 \<and> take (length pend) (sh_buf s) = pend"

definition compress_all :: "u32 \<times> u32 \<times> u32 \<times> u32 \<times> u32 \<Rightarrow> u8 list list \<Rightarrow> u32 \<times> u32 \<times> u32 \<times> u32 \<times> u32" where
  "compress_all h bs = fold (\<lambda>b h. fips_compress h (be_word b)) bs h"

lemma compress_all_simps [simp]: "compress_all h [] = h" "compress_all h (b # bs) = compress_all (fips_compress h (be_word b)) bs"
  "compress_all h (bs @ cs) = compress_all (compress_all h bs) cs"
  by (simp_all add: compress_all_def)

lemma buf_put_prefix:
  assumes "length buf = 64" "take (length pend) buf = pend" "length pend + length bs \<le> 64"
  obtains buf' where "buf_put (length pend) bs buf = Some buf'" "length buf' = 64" "take (length pend + length bs) buf' = pend @ bs"
  using assms that by (simp add: buf_put_def)

lemma holds_put:
  assumes "sha1_holds s h pend" "length pend < 64"
  obtains s' where "sha1_put b s = Some s'" "sha1_holds s' h (pend @ [b])" "sh_len s' = sh_len s"
proof -
  note a = assms(1) [unfolded sha1_holds_def]
  have "length pend + length [b] \<le> 64" using assms(2) by simp
  from buf_put_prefix [of "sh_buf s" pend "[b]"] a this obtain buf where "buf_put (length pend) [b] (sh_buf s) = Some buf"
    "length buf = 64" "take (length pend + length [b]) buf = pend @ [b]" by blast
  then show thesis using that a assms(2) by (simp add: sha1_put_def sha1_holds_def)
qed

lemma holds_zeros:
  assumes "sha1_holds s h pend" "lim \<le> 64"
  obtains s' where "sha1_zeros lim s = Some s'" "sha1_holds s' h (pend @ replicate (lim - length pend) 0)" "sh_len s' = sh_len s"
proof -
  have "\<exists>s'. sha1_zeros lim s = Some s' \<and> sha1_holds s' h (pend @ replicate (lim - length pend) 0) \<and> sh_len s' = sh_len s"
    using assms(1)
  proof (induction "lim - length pend" arbitrary: s pend)
    case 0
    then have "sh_n s \<ge> lim" by (simp add: sha1_holds_def)
    then show ?case using 0 by (subst sha1_zeros.simps) simp
  next
    case (Suc k)
    then have l: "length pend < lim" "sh_n s = length pend" by (simp_all add: sha1_holds_def)
    then obtain s1 where s1: "sha1_put 0 s = Some s1" "sha1_holds s1 h (pend @ [0])" "sh_len s1 = sh_len s"
      using holds_put [OF Suc.prems, of 0] assms(2) by auto
    have "k = lim - length (pend @ [0])" using Suc.hyps(2) by simp
    from Suc.hyps(1) [OF this s1(2)] obtain s2 where s2: "sha1_zeros lim s1 = Some s2"
      "sha1_holds s2 h ((pend @ [0]) @ replicate (lim - length (pend @ [0])) 0)" "sh_len s2 = sh_len s1" by blast
    have "replicate (lim - length pend) 0 = (0 :: u8) # replicate (lim - length (pend @ [0])) 0"
      using Suc.hyps(2) by (simp flip: replicate_Suc)
    then show ?case using s1 s2 l by (subst sha1_zeros.simps) simp
  qed
  then show thesis using that by blast
qed

lemma holds_puts:
  assumes "sha1_holds s h pend" "length pend + length bs \<le> 64"
  obtains s' where "sha1_puts bs s = Some s'" "sha1_holds s' h (pend @ bs)" "sh_len s' = sh_len s"
proof -
  have "\<exists>s'. sha1_puts bs s = Some s' \<and> sha1_holds s' h (pend @ bs) \<and> sh_len s' = sh_len s"
    using assms
  proof (induction bs arbitrary: s pend)
    case (Cons b bs)
    then have "length pend < 64" by simp
    then obtain s1 where s1: "sha1_put b s = Some s1" "sha1_holds s1 h (pend @ [b])" "sh_len s1 = sh_len s"
      using holds_put [OF Cons.prems(1), of b] by blast
    show ?case using Cons.IH [OF s1(2)] Cons.prems(2) s1 by auto
  qed simp
  then show thesis using that by blast
qed

lemma holds_full:
  assumes "sha1_holds s h pend" "length pend = 64"
  shows "sha1_block (sh_h s) (sh_buf s) = words5 (fips_compress h (be_word pend))"
    "sha1_holds (s\<lparr>sh_h := sha1_block (sh_h s) (sh_buf s), sh_n := 0\<rparr>) (fips_compress h (be_word pend)) []"
proof -
  have b: "sh_buf s = pend" "sh_h s = words5 h" using assms by (auto simp: sha1_holds_def)
  show "sha1_block (sh_h s) (sh_buf s) = words5 (fips_compress h (be_word pend))"
    unfolding b by (rule sha1_block_compress [OF assms(2)])
  then show "sha1_holds (s\<lparr>sh_h := sha1_block (sh_h s) (sh_buf s), sh_n := 0\<rparr>) (fips_compress h (be_word pend)) []"
    using b assms(2) by (simp add: sha1_holds_def)
qed

lemma holds_absorb:
  assumes "sha1_holds s h pend" "length pend < 64"
  shows "\<exists>s'. sha1_absorb s data = Some s' \<and> sha1_holds s' (compress_all h (blocks64 (pend @ data))) (rest64 (pend @ data)) \<and>
    sh_len s' = sh_len s"
  using assms
proof (induction "length data" arbitrary: s h pend data rule: less_induct)
  case less
  note a = less.prems(1) [unfolded sha1_holds_def]
  show ?case
  proof (cases "data = []")
    case True
    then show ?thesis using less.prems by (subst sha1_absorb.simps) (simp add: blocks64_short)
  next
    case False
    define tk where "tk = min (64 - sh_n s) (length data)"
    have tk: "0 < tk" "tk \<le> length data" "length pend + tk \<le> 64" using False a less.prems(2) by (auto simp: tk_def)
    have "length pend + length (take tk data) \<le> 64" using tk by simp
    from buf_put_prefix [of "sh_buf s" pend "take tk data"] a this obtain buf where buf:
      "buf_put (length pend) (take tk data) (sh_buf s) = Some buf" "length buf = 64"
      "take (length pend + tk) buf = pend @ take tk data" using tk(2) by (metis length_take min_absorb2)
    let ?s1 = "s\<lparr>sh_buf := buf, sh_n := sh_n s + tk\<rparr>"
    have h1: "sha1_holds ?s1 h (pend @ take tk data)" using a buf tk by (simp add: sha1_holds_def)
    let ?s2 = "if sh_n ?s1 = 64 then ?s1\<lparr>sh_h := sha1_block (sh_h ?s1) (sh_buf ?s1), sh_n := 0\<rparr> else ?s1"
    have step: "sha1_absorb s data = sha1_absorb ?s2 (drop tk data)"
      using False a buf(1) by (subst sha1_absorb.simps) (simp add: tk_def Let_def)
    have shorter: "length (drop tk data) < length data" using tk by simp
    have all: "pend @ data = (pend @ take tk data) @ drop tk data" by simp
    show ?thesis
    proof (cases "length pend + tk = 64")
      case True
      then have b: "length (pend @ take tk data) = 64" using tk(2) by simp
      have n: "sh_n ?s1 = 64" using a True by simp
      have "sha1_holds ?s2 (fips_compress h (be_word (pend @ take tk data))) []"
        unfolding if_P [OF n] by (rule holds_full(2) [OF h1 b])
      from less.hyps [OF shorter this] have "\<exists>s'. sha1_absorb ?s2 (drop tk data) = Some s' \<and>
          sha1_holds s' (compress_all (fips_compress h (be_word (pend @ take tk data))) (blocks64 (drop tk data))) (rest64 (drop tk data)) \<and>
          sh_len s' = sh_len ?s2" by simp
      moreover have "sh_len ?s2 = sh_len s" by simp
      ultimately show ?thesis unfolding step all using blocks64_block [OF b, of "drop tk data"] by simp
    next
      case False
      have n: "sh_n ?s1 \<noteq> 64" using a False by simp
      have tl: "tk = length data" using False tk a less.prems(2) by (auto simp: tk_def min_def split: if_splits)
      then have d: "drop tk data = []" "take tk data = data" by simp_all
      have "length (pend @ data) < 64" using False tk d(2) tl by simp
      moreover have "sha1_absorb ?s1 [] = Some ?s1" by (subst sha1_absorb.simps) simp
      ultimately show ?thesis using h1 unfolding step if_not_P [OF n] d by (simp add: blocks64_short)
    qed
  qed
qed

lemma pad_short:
  assumes "n < 56"
  shows "(119 - n) mod 64 = 55 - (n :: nat)"
proof -
  have "119 - n = (55 - n) + 64" using assms by simp
  then have "(119 - n) mod 64 = (55 - n) mod 64" by (simp only: mod_add_self2)
  also have "\<dots> = 55 - n" by (rule mod_less) simp
  finally show ?thesis .
qed

lemma length_be64: "length (be64 v) = 8"
  by (simp add: be64_def)

lemma store_words5: "concat (map (\<lambda>i. store_be32 (words5 h ! i)) [0..<5]) = concat (map store_be32 (words5 h))"
proof -
  have "[0..<5] = [0, 1, 2, 3, 4 :: nat]" by code_simp
  then show ?thesis by (cases h) (simp only: list.map prod.case nth_Cons_0 nth_Cons_numeral, simp)
qed

text \<open>What is left when the input is absorbed: the padding, in one block or two.\<close>

lemma sha1_pad_first:
  assumes h: "sha1_holds s h p" and p: "length p < 64"
  obtains s2 s3 h' q where "sha1_put 0x80 s = Some s2"
    "(if sh_n s2 > 56 then do { s \<leftarrow> sha1_zeros 64 s2; Some (s\<lparr>sh_h := sha1_block (sh_h s) (sh_buf s), sh_n := 0\<rparr>) }
      else Some s2) = Some s3" "sh_len s3 = sh_len s" "length q \<le> 56" "sha1_holds s3 h' q"
    "\<And>t. compress_all h (blocks64 (p @ [0x80] @ replicate ((119 - length p) mod 64) 0 @ t)) =
       compress_all h' (blocks64 (q @ replicate (56 - length q) 0 @ t))"
proof -
  obtain s2 where s2: "sha1_put 0x80 s = Some s2" "sha1_holds s2 h (p @ [0x80])" "sh_len s2 = sh_len s"
    by (rule holds_put [OF h p])
  have n2: "sh_n s2 = length p + 1" using s2(2) by (simp add: sha1_holds_def)
  show thesis
  proof (cases "length p < 56")
    case True
    then have "\<not> sh_n s2 > 56" using n2 by simp
    then show thesis using that [of s2 s2 "p @ [0x80]" h] s2 True pad_short [OF True] by simp
  next
    case False
    let ?b = "(p @ [0x80]) @ replicate (64 - length (p @ [0x80 :: u8])) 0"
    obtain s3 where s3: "sha1_zeros 64 s2 = Some s3" "sha1_holds s3 h ?b" "sh_len s3 = sh_len s2"
      by (rule holds_zeros [OF s2(2) order_refl])
    have b: "length ?b = 64" using p by simp
    have "119 - length p = (64 - length (p @ [0x80 :: u8])) + 56" "119 - length p < 64" using False p by simp_all
    then have z: "replicate ((119 - length p) mod 64) (0 :: u8) = replicate (64 - length (p @ [0x80 :: u8])) 0 @ replicate 56 0"
      by (simp only: mod_less replicate_add)
    have "blocks64 (p @ [0x80] @ replicate ((119 - length p) mod 64) 0 @ t) = ?b # blocks64 (replicate 56 0 @ t)" for t
      using blocks64_block [OF b, of "replicate 56 0 @ t"] unfolding z by simp
    then show thesis
      using that [OF s2(1), of "s3\<lparr>sh_h := sha1_block (sh_h s3) (sh_buf s3), sh_n := 0\<rparr>" "[]" "fips_compress h (be_word ?b)"]
        holds_full(2) [OF s3(2) b] n2 False s2(3) s3(1,3) by simp
  qed
qed

lemma ws_sha1_fips: "ws_sha1 data = Some (fips_sha1 data)"
proof -
  define len where "len = (of_nat (length data) * 8 :: u64)"
  define iv where "iv = ((0x67452301, 0xEFCDAB89, 0x98BADCFE, 0x10325476, 0xC3D2E1F0) :: u32 \<times> u32 \<times> u32 \<times> u32 \<times> u32)"
  define h p where "h = compress_all iv (blocks64 data)" and "p = rest64 data"
  let ?s0 = "\<lparr>sh_h = SHA1_INIT, sh_len = len, sh_buf = replicate 64 0, sh_n = 0\<rparr>"
  have p: "length p < 64" "length data mod 64 = length p" by (simp_all add: p_def length_rest64)
  have len: "of_nat (8 * length data) = len" by (simp add: len_def)
  have ref: "fips_sha1 data = concat (map store_be32 (words5 (compress_all h (blocks64 (p @ [0x80] @ replicate ((119 - length p) mod 64) 0 @ be64 len)))))"
    unfolding fips_sha1_def fips_pad_def p(2) len compress_all_def [symmetric] iv_def [symmetric] blocks64_append [of data] compress_all_simps(3)
      h_def [symmetric] p_def [symmetric] by (simp split: prod.split)
  have "sha1_holds ?s0 iv []" by (simp add: sha1_holds_def SHA1_INIT_def iv_def)
  from holds_absorb [OF this, of data] obtain s1 where s1: "sha1_absorb ?s0 data = Some s1" "sha1_holds s1 h p" "sh_len s1 = len"
    by (auto simp: h_def p_def)
  obtain s2 s3 h' q where s3: "sha1_put 0x80 s1 = Some s2"
    "(if sh_n s2 > 56 then do { s \<leftarrow> sha1_zeros 64 s2; Some (s\<lparr>sh_h := sha1_block (sh_h s) (sh_buf s), sh_n := 0\<rparr>) }
      else Some s2) = Some s3" "sh_len s3 = sh_len s1" "length q \<le> 56" "sha1_holds s3 h' q"
    "\<And>t. compress_all h (blocks64 (p @ [0x80] @ replicate ((119 - length p) mod 64) 0 @ t)) =
       compress_all h' (blocks64 (q @ replicate (56 - length q) 0 @ t))"
    by (rule sha1_pad_first [OF s1(2) p(1)]) blast
  let ?f = "q @ replicate (56 - length q) 0"
  obtain s4 where s4: "sha1_zeros 56 s3 = Some s4" "sha1_holds s4 h' ?f" "sh_len s4 = sh_len s3"
    by (rule holds_zeros [OF s3(5), of 56]) simp_all
  have f: "length ?f + length (be64 len) \<le> 64" "length (?f @ be64 len) = 64" using s3(4) by (simp_all add: length_be64)
  obtain s5 where s5: "sha1_puts (be64 len) s4 = Some s5" "sha1_holds s5 h' (?f @ be64 len)"
    by (rule holds_puts [OF s4(2) f(1)])
  have e: "sh_len s4 = len" using s4(3) s3(3) s1(3) by simp
  have "blocks64 (?f @ be64 len) = [?f @ be64 len]"
    using blocks64_block [OF f(2), of "[]"] blocks64_short [of "[]"] by simp
  then have "fips_sha1 data = concat (map store_be32 (words5 (fips_compress h' (be_word (?f @ be64 len)))))"
    unfolding ref s3(6) by simp
  moreover have "ws_sha1 data = Some (concat (map (\<lambda>i. store_be32 (sha1_block (sh_h s5) (sh_buf s5) ! i)) [0..<5]))"
    unfolding ws_sha1_def Let_def len_def [symmetric] s1(1) Option.bind.simps s3(1,2) s4(1) e s5(1) by (rule refl)
  ultimately show ?thesis unfolding holds_full(1) [OF s5(2) f(2)] store_words5 by simp
qed
section \<open>Base64\<close>

definition ascii :: "string \<Rightarrow> u8 list" where
  "ascii = map of_char"

definition B64 :: "u8 list" where
  "B64 = ascii ''ABCDEFGHIJKLMNOPQRSTUVWXYZabcdefghijklmnopqrstuvwxyz0123456789+/''"

text \<open>The loop from \<open>in + i\<close> on.\<close>

function b64_loop :: "u8 list \<Rightarrow> u8 list" where
  "b64_loop inp =
     (if inp = [] then []
      else
        let n = push_bit 16 (ucast (inp ! 0) :: u32);
            n = (if 1 < length inp then n OR push_bit 8 (ucast (inp ! 1)) else n);
            n = (if 2 < length inp then n OR ucast (inp ! 2) else n)
        in [B64 ! unat (drop_bit 18 n AND 63), B64 ! unat (drop_bit 12 n AND 63),
            if 1 < length inp then B64 ! unat (drop_bit 6 n AND 63) else of_char CHR ''='',
            if 2 < length inp then B64 ! unat (n AND 63) else of_char CHR ''=''] @ b64_loop (drop 3 inp))"
  by pat_completeness auto
termination by (relation "measure length") simp_all

declare b64_loop.simps [simp del]

text \<open>The result, and what is in \<open>out\<close> with its terminating zero.\<close>

definition ws_base64 :: "u8 list \<Rightarrow> nat \<Rightarrow> int \<times> u8 list" where
  "ws_base64 inp out_cap =
     (let need = (length inp + 2) div 3 * 4 in
      if out_cap < need + 1 then (- 1, [])
      else let out = b64_loop inp in (sint (of_nat (length out) :: u32), out @ [0]))"

text \<open>The reference decoder.\<close>

definition b64_index :: "u8 \<Rightarrow> nat" where
  "b64_index c = (if 65 \<le> c \<and> c \<le> 90 then unat c - 65 else if 97 \<le> c \<and> c \<le> 122 then unat c - 71
     else if 48 \<le> c \<and> c \<le> 57 then unat c + 4 else if c = 43 then 62 else if c = 47 then 63 else 64)"

fun b64_decode :: "u8 list \<Rightarrow> u8 list option" where
  "b64_decode [] = Some []"
| "b64_decode (a # b # c # d # rest) =
     (let v = b64_index a * 2 ^ 18 + b64_index b * 2 ^ 12;
          vc = v + b64_index c * 2 ^ 6;
          vd = vc + b64_index d
      in if 64 \<le> b64_index a \<or> 64 \<le> b64_index b then None
         else if c = of_char CHR ''='' \<and> d = of_char CHR ''='' \<and> rest = [] then Some [of_nat (v div 2 ^ 16)]
         else if 64 \<le> b64_index c then None
         else if d = of_char CHR ''='' \<and> rest = [] then Some [of_nat (vc div 2 ^ 16), of_nat (vc div 2 ^ 8)]
         else if 64 \<le> b64_index d then None
         else map_option ((@) [of_nat (vd div 2 ^ 16), of_nat (vd div 2 ^ 8), of_nat vd]) (b64_decode rest))"
| "b64_decode _ = None"

lemma b64_table: "k < 64 \<Longrightarrow> b64_index (B64 ! k) = k"
proof -
  have "list_all (\<lambda>k. b64_index (B64 ! k) = k) [0..<64]" by code_simp
  then show "k < 64 \<Longrightarrow> b64_index (B64 ! k) = k" by (simp add: list_all_iff)
qed

lemma b64_pad: "b64_index (of_char CHR ''='') = 64"
  by code_simp

lemma b64_sextet:
  assumes "N < 2 ^ 32"
  shows "unat (drop_bit k (of_nat N :: u32) AND 63) = N div 2 ^ k mod 64"
proof -
  have u: "unat (of_nat N :: u32) = N" using assms by (intro unat_of_nat_small) simp
  have "(63 :: u32) = mask 6" by (simp add: mask_eq_exp_minus_1)
  then have "unat (drop_bit k (of_nat N :: u32) AND 63) = take_bit 6 (drop_bit k (unat (of_nat N :: u32)))"
    by (simp only: take_bit_eq_mask [symmetric] unsigned_take_bit_eq unat_drop_bit_eq)
  then show ?thesis unfolding u by (simp add: take_bit_eq_mod drop_bit_eq_div)
qed

lemma b64_group:
  fixes x y z :: u8
  shows "push_bit 16 (ucast x) OR push_bit 8 (ucast y) OR ucast z = (of_nat (unat x * 2 ^ 16 + unat y * 2 ^ 8 + unat z) :: u32)"
  using be_bytes [of 0 x y z] by simp

lemma sextets:
  assumes "N < 2 ^ 24"
  obtains k1 k2 k3 k4 where "N div 2 ^ 18 mod 64 = k1" "N div 2 ^ 12 mod 64 = k2" "N div 2 ^ 6 mod 64 = k3" "N mod 64 = k4"
    "k1 < 64" "k2 < 64" "k3 < 64" "k4 < 64" "k1 * 2 ^ 18 + k2 * 2 ^ 12 + k3 * 2 ^ 6 + k4 = (N :: nat)"
proof -
  define a where "a = N div 64"
  define b where "b = a div 64"
  define c where "c = b div 64"
  have e: "N div 2 ^ 6 = a" "N div 2 ^ 12 = b" "N div 2 ^ 18 = c"
    by (simp_all add: a_def b_def c_def div_mult2_eq [symmetric])
  have c: "c < 64" using assms by (simp add: e(3) [symmetric] div_less_iff_less_mult)
  define r1 r2 r3 where "r1 = N mod 64" and "r2 = a mod 64" and "r3 = b mod 64"
  have "N = a * 64 + r1" "a = b * 64 + r2" "b = c * 64 + r3" by (simp_all add: a_def b_def c_def r1_def r2_def r3_def)
  then have "c * 2 ^ 18 + r3 * 2 ^ 12 + r2 * 2 ^ 6 + r1 = N" by simp
  then have "c * 2 ^ 18 + b mod 64 * 2 ^ 12 + a mod 64 * 2 ^ 6 + N mod 64 = N" by (simp only: r1_def r2_def r3_def)
  moreover have "c mod 64 = c" using c by simp
  ultimately show thesis using c
    by (intro that [of c "b mod 64" "a mod 64" "N mod 64"]) (simp_all only: e)
qed

text \<open>The values of a whole group of three bytes.\<close>

lemma three_bytes:
  fixes x y z :: u8
  defines "N \<equiv> unat x * 2 ^ 16 + unat y * 2 ^ 8 + unat z"
  shows "N < 2 ^ 24" "of_nat (N div 2 ^ 16) = x" "of_nat (N div 2 ^ 8) = y" "of_nat N = z"
proof -
  have b: "unat x < 2 ^ 8" "unat y < 2 ^ 8" "unat z < 2 ^ 8" using unsigned_less [of x] unsigned_less [of y] unsigned_less [of z] by simp_all
  then show "N < 2 ^ 24" by (simp add: N_def)
  have m: "unat (of_nat k :: u8) = k mod 2 ^ 8" for k by (simp add: unat_of_nat)
  have "N div 2 ^ 16 = unat x" using b by (simp add: N_def)
  then show "of_nat (N div 2 ^ 16) = x" by simp
  have "N div 2 ^ 8 = unat x * 2 ^ 8 + unat y" using b by (simp add: N_def)
  then have "N div 2 ^ 8 mod 2 ^ 8 = unat y" using b(2) by simp
  then have "unat (of_nat (N div 2 ^ 8) :: u8) = unat y" by (simp only: m)
  then show "of_nat (N div 2 ^ 8) = y" by (simp only: word_unat_eq_iff)
  have "N = (unat x * 2 ^ 8 + unat y) * 2 ^ 8 + unat z" by (simp add: N_def)
  then have "N mod 2 ^ 8 = unat z" using b(3) by (simp only: mod_mult_self3) simp
  then have "unat (of_nat N :: u8) = unat z" by (simp only: m)
  then show "of_nat N = z" by (simp only: word_unat_eq_iff)
qed

lemma b64_letters:
  fixes x y z :: u8
  defines "n \<equiv> (push_bit 16 (ucast x) OR push_bit 8 (ucast y) OR ucast z :: u32)"
    and "N \<equiv> unat x * 2 ^ 16 + unat y * 2 ^ 8 + unat z"
  obtains k1 k2 k3 k4 where "b64_index (B64 ! unat (drop_bit 18 n AND 63)) = k1"
    "b64_index (B64 ! unat (drop_bit 12 n AND 63)) = k2" "b64_index (B64 ! unat (drop_bit 6 n AND 63)) = k3"
    "b64_index (B64 ! unat (n AND 63)) = k4" "k1 < 64" "k2 < 64" "k3 < 64" "k4 < 64"
    "k1 * 2 ^ 18 + k2 * 2 ^ 12 + k3 * 2 ^ 6 + k4 = N" "z = 0 \<Longrightarrow> k4 = 0" "y = 0 \<and> z = 0 \<Longrightarrow> k3 = 0"
proof -
  have N: "N < 2 ^ 24" using three_bytes(1) [of x y z] by (simp add: N_def)
  then have "N < 2 ^ 32" by simp
  note s = b64_sextet [OF this]
  have n: "n = of_nat N" unfolding n_def N_def by (rule b64_group)
  obtain k1 k2 k3 k4 where k: "N div 2 ^ 18 mod 64 = k1" "N div 2 ^ 12 mod 64 = k2" "N div 2 ^ 6 mod 64 = k3" "N mod 64 = k4"
    "k1 < 64" "k2 < 64" "k3 < 64" "k4 < 64" "k1 * 2 ^ 18 + k2 * 2 ^ 12 + k3 * 2 ^ 6 + k4 = N" by (rule sextets [OF N])
  have "unat (n AND 63) = N mod 64" using s [of 0] by (simp add: n)
  moreover have "N mod 64 = 0" if "z = 0"
  proof -
    have "N = (unat x * 2 ^ 10 + unat y * 4) * 64" using that by (simp add: N_def)
    then show ?thesis by (simp only: mod_mult_self2_is_0)
  qed
  moreover have "N div 2 ^ 6 mod 64 = 0" if "y = 0 \<and> z = 0"
  proof -
    have "N = (unat x * 16 * 64) * 2 ^ 6" using that by (simp add: N_def)
    then have "N div 2 ^ 6 = unat x * 16 * 64" by (metis nonzero_mult_div_cancel_right power_not_zero zero_neq_numeral)
    then show ?thesis by (simp only: mod_mult_self2_is_0)
  qed
  ultimately show thesis using k(5-9)
    by (intro that [of k1 k2 k3 k4]) (simp_all only: n s k(1-4) b64_table)
qed

lemma not_pad: "b64_index c < 64 \<Longrightarrow> c \<noteq> of_char CHR ''=''"
  using b64_pad by auto

text \<open>The three kinds of group, with the letters as given.\<close>

lemma b64_decode_1:
  assumes "b64_index a = k1" "b64_index b = k2" "k1 < 64" "k2 < 64" "k1 * 2 ^ 18 + k2 * 2 ^ 12 = v" "of_nat (v div 2 ^ 16) = x"
  shows "b64_decode [a, b, of_char CHR ''='', of_char CHR ''=''] = Some [x]"
  using assms by (simp add: Let_def)

lemma b64_decode_2:
  assumes "b64_index a = k1" "b64_index b = k2" "b64_index c = k3" "k1 < 64" "k2 < 64" "k3 < 64"
    "k1 * 2 ^ 18 + k2 * 2 ^ 12 + k3 * 2 ^ 6 = v" "of_nat (v div 2 ^ 16) = x" "of_nat (v div 2 ^ 8) = y"
  shows "b64_decode [a, b, c, of_char CHR ''=''] = Some [x, y]"
  using assms not_pad [of c] by (simp add: Let_def)

lemma b64_decode_3:
  assumes "b64_index a = k1" "b64_index b = k2" "b64_index c = k3" "b64_index d = k4" "k1 < 64" "k2 < 64" "k3 < 64" "k4 < 64"
    "k1 * 2 ^ 18 + k2 * 2 ^ 12 + k3 * 2 ^ 6 + k4 = v" "of_nat (v div 2 ^ 16) = x" "of_nat (v div 2 ^ 8) = y" "of_nat v = z"
  shows "b64_decode (a # b # c # d # rest) = map_option ((@) [x, y, z]) (b64_decode rest)"
  using assms(5-8) not_pad [of c] not_pad [of d]
  by (simp only: b64_decode.simps Let_def assms(1-4) assms(9-) not_le [symmetric] simp_thms if_False)

lemma b64_decode_loop: "b64_decode (b64_loop inp) = Some inp"
proof (induction inp rule: b64_loop.induct)
  case (1 inp)
  have E: "b64_loop [] = []" by (simp add: b64_loop.simps)
  consider "inp = []" | x where "inp = [x]" | x y where "inp = [x, y]" | x y z rest where "inp = x # y # z # rest"
    by (metis list.exhaust)
  then show ?case
  proof cases
    case 1
    then show ?thesis by (simp add: E)
  next
    case (2 x)
    show ?thesis
    proof (rule b64_letters [of x 0 0])
      fix k1 k2 k3 k4
      assume k: "b64_index (B64 ! unat (drop_bit 18 (push_bit 16 (ucast x) OR push_bit 8 (ucast 0) OR ucast 0 :: u32) AND 63)) = k1"
        "b64_index (B64 ! unat (drop_bit 12 (push_bit 16 (ucast x) OR push_bit 8 (ucast 0) OR ucast 0 :: u32) AND 63)) = k2"
        "k1 < 64" "k2 < 64" "k1 * 2 ^ 18 + k2 * 2 ^ 12 + k3 * 2 ^ 6 + k4 = unat x * 2 ^ 16 + unat (0 :: u8) * 2 ^ 8 + unat (0 :: u8)"
        "(0 :: u8) = 0 \<Longrightarrow> k4 = 0" "(0 :: u8) = 0 \<and> (0 :: u8) = 0 \<Longrightarrow> k3 = 0"
      have v: "k1 * 2 ^ 18 + k2 * 2 ^ 12 = unat x * 2 ^ 16 + unat (0 :: u8) * 2 ^ 8 + unat (0 :: u8)" using k(5-7) by simp
      have n: "push_bit 16 (ucast x) OR push_bit 8 (ucast (0 :: u8)) OR ucast (0 :: u8) = (push_bit 16 (ucast x) :: u32)" by simp
      have "b64_loop [x] = [B64 ! unat (drop_bit 18 (push_bit 16 (ucast x) :: u32) AND 63),
          B64 ! unat (drop_bit 12 (push_bit 16 (ucast x) :: u32) AND 63), of_char CHR ''='', of_char CHR ''='']"
        by (subst b64_loop.simps) (simp add: E Let_def)
      then show ?thesis unfolding 2 using b64_decode_1 [OF k(1,2)[unfolded n] k(3,4) v three_bytes(2) [of x 0 0]] by simp
    qed
  next
    case (3 x y)
    show ?thesis
    proof (rule b64_letters [of x y 0])
      fix k1 k2 k3 k4
      assume k: "b64_index (B64 ! unat (drop_bit 18 (push_bit 16 (ucast x) OR push_bit 8 (ucast y) OR ucast 0 :: u32) AND 63)) = k1"
        "b64_index (B64 ! unat (drop_bit 12 (push_bit 16 (ucast x) OR push_bit 8 (ucast y) OR ucast 0 :: u32) AND 63)) = k2"
        "b64_index (B64 ! unat (drop_bit 6 (push_bit 16 (ucast x) OR push_bit 8 (ucast y) OR ucast 0 :: u32) AND 63)) = k3"
        "k1 < 64" "k2 < 64" "k3 < 64" "k1 * 2 ^ 18 + k2 * 2 ^ 12 + k3 * 2 ^ 6 + k4 = unat x * 2 ^ 16 + unat y * 2 ^ 8 + unat (0 :: u8)"
        "(0 :: u8) = 0 \<Longrightarrow> k4 = 0"
      have v: "k1 * 2 ^ 18 + k2 * 2 ^ 12 + k3 * 2 ^ 6 = unat x * 2 ^ 16 + unat y * 2 ^ 8 + unat (0 :: u8)" using k(7,8) by simp
      have n: "push_bit 16 (ucast x) OR push_bit 8 (ucast y) OR ucast (0 :: u8) = (push_bit 16 (ucast x) OR push_bit 8 (ucast y) :: u32)" by simp
      have "b64_loop [x, y] = [B64 ! unat (drop_bit 18 (push_bit 16 (ucast x) OR push_bit 8 (ucast y) :: u32) AND 63),
          B64 ! unat (drop_bit 12 (push_bit 16 (ucast x) OR push_bit 8 (ucast y) :: u32) AND 63),
          B64 ! unat (drop_bit 6 (push_bit 16 (ucast x) OR push_bit 8 (ucast y) :: u32) AND 63), of_char CHR ''='']"
        by (subst b64_loop.simps) (simp add: E Let_def)
      then show ?thesis unfolding 3
        using b64_decode_2 [OF k(1-3)[unfolded n] k(4-6) v three_bytes(2,3) [of x y 0]] by simp
    qed
  next
    case (4 x y z rest)
    let ?n = "push_bit 16 (ucast x) OR push_bit 8 (ucast y) OR ucast z :: u32"
    have IH: "b64_decode (b64_loop rest) = Some rest" using 1 [OF _ refl refl refl] 4 by simp
    have "b64_loop inp = B64 ! unat (drop_bit 18 ?n AND 63) # B64 ! unat (drop_bit 12 ?n AND 63) #
        B64 ! unat (drop_bit 6 ?n AND 63) # B64 ! unat (?n AND 63) # b64_loop rest"
      unfolding 4 by (subst b64_loop.simps) (simp add: or.assoc Let_def)
    moreover have "b64_decode (B64 ! unat (drop_bit 18 ?n AND 63) # B64 ! unat (drop_bit 12 ?n AND 63) #
        B64 ! unat (drop_bit 6 ?n AND 63) # B64 ! unat (?n AND 63) # b64_loop rest) = map_option ((@) [x, y, z]) (b64_decode (b64_loop rest))"
      by (rule b64_letters [of x y z]) (rule b64_decode_3 [OF _ _ _ _ _ _ _ _ _ three_bytes(2-4)]; assumption)
    ultimately show ?thesis using IH 4 by simp
  qed
qed

lemma b64_loop_length: "length (b64_loop inp) = (length inp + 2) div 3 * 4"
proof (induction inp rule: b64_loop.induct)
  case (1 inp)
  show ?case
  proof (cases "inp = []")
    case False
    then have "length (b64_loop inp) = 4 + (length (drop 3 inp) + 2) div 3 * 4"
      using 1 [OF False refl refl refl] by (subst b64_loop.simps) (simp add: Let_def)
    also have "\<dots> = (length inp + 2) div 3 * 4" using False by (cases "length inp < 3") (auto simp: less_Suc_eq numeral_3_eq_3 div_if)
    finally show ?thesis .
  qed (simp add: b64_loop.simps)
qed

end
