(* ===== verification/Ws_Stream.thy ===== *)
theory Ws_Stream
  imports Ws_Crypto
begin

text \<open>
  The connection of \<^verbatim>\<open>examples/ws_echo/ws_echo.c\<close>: \<^verbatim>\<open>conn_t\<close> and the buffered reader. What the server calls of
  the reactor and the C library is the record \<open>net\<close>, over a state \<open>'s\<close>; a read returns its result and the bytes
  it stored, \<open>malloc\<close> what the block holds, and \<open>None\<close> is a call that does not return. The locale \<open>bounded_stream\<close> says of it only what any
  descriptor promises, errors included; \<open>byte_stream\<close> is a descriptor that works, with what is left to read and
  what has been written.
\<close>

section \<open>Calls\<close>

record 's net =
  nt_read :: "int \<Rightarrow> nat \<Rightarrow> 's \<Rightarrow> ((int \<times> u8 list) \<times> 's) option"
  nt_write :: "int \<Rightarrow> u8 list \<Rightarrow> 's \<Rightarrow> (int \<times> 's) option"
  nt_close :: "int \<Rightarrow> 's \<Rightarrow> 's"
  nt_calloc :: "nat \<Rightarrow> 's \<Rightarrow> u64 \<times> 's"
  nt_malloc :: "nat \<Rightarrow> 's \<Rightarrow> (u64 \<times> u8 list) \<times> 's"
  nt_free :: "u64 \<Rightarrow> 's \<Rightarrow> 's"

locale bounded_stream =
  fixes N :: "'s net" and fd :: int and good :: "'s \<Rightarrow> bool"
  assumes read_bounded: "good s \<Longrightarrow> 0 < n \<Longrightarrow> n \<le> 65536 \<Longrightarrow>
      \<exists>r bs s'. nt_read N fd n s = Some ((r, bs), s') \<and> length bs = nat r \<and> nat r \<le> n \<and> good s'"
    and write_returns: "good s \<Longrightarrow> bs \<noteq> [] \<Longrightarrow> length bs \<le> 65536 \<Longrightarrow>
      \<exists>r s'. nt_write N fd bs s = Some (r, s') \<and> good s'"

locale byte_stream = bounded_stream N fd good
  for N :: "'s net" and fd :: int and good :: "'s \<Rightarrow> bool" +
  fixes inp out :: "'s \<Rightarrow> u8 list"
  assumes read_end: "good s \<Longrightarrow> 0 < n \<Longrightarrow> n \<le> 65536 \<Longrightarrow> inp s = [] \<Longrightarrow> nt_read N fd n s = Some ((r, bs), s') \<Longrightarrow>
      r = 0 \<and> inp s' = [] \<and> out s' = out s"
    and read_some: "good s \<Longrightarrow> 0 < n \<Longrightarrow> n \<le> 65536 \<Longrightarrow> inp s \<noteq> [] \<Longrightarrow> nt_read N fd n s = Some ((r, bs), s') \<Longrightarrow>
      0 < r \<and> inp s = bs @ inp s' \<and> out s' = out s"
    and write_all: "good s \<Longrightarrow> bs \<noteq> [] \<Longrightarrow> length bs \<le> 65536 \<Longrightarrow> nt_write N fd bs s = Some (r, s') \<Longrightarrow>
      0 \<le> r \<and> inp s' = inp s \<and> out s' = out s @ bs"

section \<open>The connection\<close>

definition MAX_PAYLOAD :: nat where "MAX_PAYLOAD = 64 * 1024"
definition MAX_REQUEST :: nat where "MAX_REQUEST = 4096"

record conn =
  cn_fd :: int
  cn_carry :: "u8 list"
  cn_off :: nat
  cn_len :: nat
  cn_msg :: "u8 list"
  cn_msg_len :: nat
  cn_msg_op :: int

text \<open>The \<open>n\<close> bytes at an offset of a buffer.\<close>

definition buf_get :: "nat \<Rightarrow> nat \<Rightarrow> 'a list \<Rightarrow> 'a list option" where
  "buf_get at n buf = (if at + n \<le> length buf then Some (take n (drop at buf)) else None)"

text \<open>The loop of \<open>conn_read_exact\<close>.\<close>

function read_more :: "'s net \<Rightarrow> int \<Rightarrow> nat \<Rightarrow> nat \<Rightarrow> u8 list \<Rightarrow> 's \<Rightarrow> (int \<times> u8 list \<times> 's) option" where
  "read_more N fd n off buf s =
     (if off < n then
        case nt_read N fd (n - off) s of
          None \<Rightarrow> None
        | Some ((r, bs), s) \<Rightarrow>
            (case buf_put off bs buf of
               None \<Rightarrow> None
             | Some buf \<Rightarrow>
                 if r = 0 then Some (0, buf, s)
                 else if r < 0 then Some (- 1, buf, s)
                 else read_more N fd n (off + nat r) buf s)
      else Some (1, buf, s))"
  by pat_completeness auto
termination by (relation "measure (\<lambda>(N, fd, n, off, buf, s). n - off)") auto

declare read_more.simps [simp del]

definition conn_read_exact ::
  "'s net \<Rightarrow> conn \<Rightarrow> u8 list \<Rightarrow> nat \<Rightarrow> 's \<Rightarrow> (int \<times> u8 list \<times> conn \<times> 's) option" where
  "conn_read_exact N c buf n s = do {
     (c, off, buf) \<leftarrow> (if cn_off c < cn_len c then
         let tk = min (cn_len c - cn_off c) n in do {
           bs \<leftarrow> buf_get (cn_off c) tk (cn_carry c);
           buf \<leftarrow> buf_put 0 bs buf;
           Some (c\<lparr>cn_off := cn_off c + tk\<rparr>, tk, buf)
         }
       else Some (c, 0, buf));
     (rc, buf, s) \<leftarrow> read_more N (cn_fd c) n off buf s;
     Some (rc, buf, c, s)
   }"

section \<open>Reading exactly\<close>

definition carried :: "conn \<Rightarrow> u8 list" where
  "carried c = take (cn_len c - cn_off c) (drop (cn_off c) (cn_carry c))"

definition carry_ok :: "conn \<Rightarrow> bool" where
  "carry_ok c \<longleftrightarrow> length (cn_carry c) = MAX_REQUEST \<and> cn_len c \<le> MAX_REQUEST"

lemma buf_put_ok: "at + length bs \<le> length buf \<Longrightarrow> buf_put at bs buf = Some (take at buf @ bs @ drop (at + length bs) buf)"
  by (simp add: buf_put_def)

lemma length_carried: "carry_ok c \<Longrightarrow> length (carried c) = cn_len c - cn_off c"
  by (auto simp: carried_def carry_ok_def)

text \<open>The reader starts from the carried bytes.\<close>

lemma conn_read_exact_carried:
  assumes "carry_ok c" "n \<le> length buf"
  shows "conn_read_exact N c buf n s = (let tk = min (length (carried c)) n in
    map_option (\<lambda>(rc, buf, s). (rc, buf, c\<lparr>cn_off := cn_off c + tk\<rparr>, s))
      (read_more N (cn_fd c) n tk (take tk (carried c) @ drop tk buf) s))"
proof (cases "cn_off c < cn_len c")
  case True
  let ?tk = "min (cn_len c - cn_off c) n"
  have "buf_get (cn_off c) ?tk (cn_carry c) = Some (take ?tk (carried c))"
    using assms(1) True by (auto simp: buf_get_def carried_def carry_ok_def min_def)
  moreover have "buf_put 0 (take ?tk (carried c)) buf = Some (take ?tk (carried c) @ drop ?tk buf)"
    using assms by (subst buf_put_ok) (auto simp: length_carried min_def)
  ultimately show ?thesis using True assms(1)
    by (simp add: conn_read_exact_def length_carried Let_def map_conv_bind_option split_def comp_def)
next
  case False
  moreover have "carried c = []" using False by (simp add: carried_def)
  moreover have "c\<lparr>cn_off := cn_off c\<rparr> = c" by simp
  ultimately show ?thesis by (simp add: conn_read_exact_def Let_def map_conv_bind_option split_def comp_def)
qed

lemma carried_skip: "carried (c\<lparr>cn_off := cn_off c + k\<rparr>) = drop k (carried c)"
  by (simp add: carried_def drop_take drop_drop add.commute)

lemma carry_ok_skip [simp]: "carry_ok (c\<lparr>cn_off := k\<rparr>) = carry_ok c"
  by (simp add: carry_ok_def)

text \<open>Whatever the descriptor does, the reader returns, and stays inside its buffers.\<close>

context bounded_stream begin

lemma read_more_safe:
  assumes "good s" "n \<le> length buf" "n \<le> 65536"
  shows "\<exists>rc buf' s'. read_more N fd n off buf s = Some (rc, buf', s') \<and> good s' \<and> length buf' = length buf \<and> rc \<in> {- 1, 0, 1}"
  using assms
proof (induction N\<equiv>N fd\<equiv>fd n off buf s rule: read_more.induct)
  case (1 n off buf s)
  show ?case
  proof (cases "off < n")
    case True
    have n: "0 < n - off" "n - off \<le> 65536" using True 1(4) by simp_all
    from read_bounded [OF 1(2) n] obtain r bs s' where
      r: "nt_read N fd (n - off) s = Some ((r, bs), s')" "length bs = nat r" "nat r \<le> n - off" "good s'" by auto
    with True 1(3) have p: "buf_put off bs buf = Some (take off buf @ bs @ drop (off + length bs) buf)" by (intro buf_put_ok) simp
    let ?buf = "take off buf @ bs @ drop (off + length bs) buf"
    have l: "length ?buf = length buf" using True r(2,3) 1(3) by simp
    show ?thesis
    proof (cases "0 < r")
      case pos: True
      then have "\<exists>rc buf' s''. read_more N fd n (off + nat r) ?buf s' = Some (rc, buf', s'') \<and> good s'' \<and>
          length buf' = length ?buf \<and> rc \<in> {- 1, 0, 1}"
        using True r(4) l 1(3,4) by (intro 1(1) [OF True r(1) refl refl p]) simp_all
      then show ?thesis using True pos r(1) p l by (subst read_more.simps) simp
    qed (use True r p l in \<open>subst read_more.simps, simp\<close>)
  qed (use 1(2) in \<open>subst read_more.simps, simp\<close>)
qed

lemma conn_read_exact_safe:
  assumes "good s" "carry_ok c" "cn_fd c = fd" "n \<le> length buf" "n \<le> 65536"
  shows "\<exists>rc buf' k s'. conn_read_exact N c buf n s = Some (rc, buf', c\<lparr>cn_off := k\<rparr>, s') \<and> good s' \<and>
    length buf' = length buf \<and> rc \<in> {- 1, 0, 1}"
proof -
  let ?tk = "min (length (carried c)) n"
  let ?buf = "take ?tk (carried c) @ drop ?tk buf"
  have l: "length ?buf = length buf" using assms(4) by auto
  then have "\<exists>rc buf' s'. read_more N fd n ?tk ?buf s = Some (rc, buf', s') \<and> good s' \<and> length buf' = length ?buf \<and> rc \<in> {- 1, 0, 1}"
    using assms by (intro read_more_safe) simp_all
  then obtain rc buf' s' where "read_more N fd n ?tk ?buf s = Some (rc, buf', s')" "good s'" "length buf' = length buf" "rc \<in> {- 1, 0, 1}"
    unfolding l by blast
  then show ?thesis unfolding conn_read_exact_carried [OF assms(2,4)] assms(3) Let_def by auto
qed

end

text \<open>On a stream that works it reads the next \<open>n\<close> bytes, carried bytes first, or meets the end.\<close>

context byte_stream begin

definition avail :: "conn \<Rightarrow> 's \<Rightarrow> u8 list" where
  "avail c s = carried c @ inp s"

lemma read_more_reads:
  assumes "good s" "n \<le> length buf" "n \<le> 65536" "off \<le> n"
  shows "\<exists>buf' s'. read_more N fd n off buf s = Some (if n - off \<le> length (inp s) then 1 else 0, buf', s') \<and> good s' \<and>
    length buf' = length buf \<and> out s' = out s \<and> inp s' = drop (n - off) (inp s) \<and>
    (n - off \<le> length (inp s) \<longrightarrow> buf' = take off buf @ take (n - off) (inp s) @ drop n buf)"
  using assms
proof (induction N\<equiv>N fd\<equiv>fd n off buf s rule: read_more.induct)
  case (1 n off buf s)
  show ?case
  proof (cases "off < n")
    case True
    have n: "0 < n - off" "n - off \<le> 65536" using True 1(4) by simp_all
    from read_bounded [OF 1(2) n] obtain r bs s' where
      r: "nt_read N fd (n - off) s = Some ((r, bs), s')" "length bs = nat r" "nat r \<le> n - off" "good s'" by auto
    with True 1(3) have p: "buf_put off bs buf = Some (take off buf @ bs @ drop (off + length bs) buf)" by (intro buf_put_ok) simp
    let ?buf = "take off buf @ bs @ drop (off + length bs) buf"
    have l: "length ?buf = length buf" using True r(2,3) 1(3) by simp
    show ?thesis
    proof (cases "inp s = []")
      case end_: True
      from read_end [OF 1(2) n this r(1)] have "r = 0" "inp s' = []" "out s' = out s" by auto
      then show ?thesis using True end_ r p l by (subst read_more.simps) simp
    next
      case False
      from read_some [OF 1(2) n this r(1)] have e: "0 < r" "inp s = bs @ inp s'" "out s' = out s" by auto
      have o: "off + nat r \<le> n" "n - off = nat r + (n - (off + nat r))" using True r(3) by simp_all
      have c: "(n - off \<le> length (inp s)) = (n - (off + nat r) \<le> length (inp s'))" using o(2) r(2) e(2) by simp
      obtain buf' s'' where IH: "read_more N fd n (off + nat r) ?buf s' =
          Some (if n - (off + nat r) \<le> length (inp s') then 1 else 0, buf', s'')" "good s''" "length buf' = length ?buf"
        "out s'' = out s'" "inp s'' = drop (n - (off + nat r)) (inp s')"
        "n - (off + nat r) \<le> length (inp s') \<Longrightarrow>
           buf' = take (off + nat r) ?buf @ take (n - (off + nat r)) (inp s') @ drop n ?buf"
        using 1(1) [OF True r(1) refl refl p] e(1) r(4) l 1(3,4) o(1) by auto
      have "read_more N fd n off buf s = read_more N fd n (off + nat r) ?buf s'"
        using True r(1) p e(1) by (subst read_more.simps) simp
      moreover have "take (off + nat r) ?buf = take off buf @ bs" "drop n ?buf = drop n buf"
        using True r(2,3) 1(3) by simp_all
      moreover have "take (n - off) (inp s) = bs @ take (n - (off + nat r)) (inp s')"
        using o(2) r(2) e(2) by simp
      moreover have "drop (n - off) (inp s) = drop (n - (off + nat r)) (inp s')"
        using o(2) r(2) e(2) by simp
      ultimately show ?thesis unfolding c using IH e(3) l by simp
    qed
  qed (use 1(2,5) in \<open>subst read_more.simps, simp\<close>)
qed

lemma conn_read_exact_reads:
  assumes "good s" "carry_ok c" "cn_fd c = fd" "n \<le> length buf" "n \<le> 65536"
  obtains buf' k s' where
    "conn_read_exact N c buf n s = Some (if n \<le> length (avail c s) then 1 else 0, buf', c\<lparr>cn_off := k\<rparr>, s')"
    "good s'" "length buf' = length buf" "out s' = out s" "avail (c\<lparr>cn_off := k\<rparr>) s' = drop n (avail c s)"
    "n \<le> length (avail c s) \<Longrightarrow> buf' = take n (avail c s) @ drop n buf"
proof -
  let ?tk = "min (length (carried c)) n"
  let ?buf = "take ?tk (carried c) @ drop ?tk buf"
  have l: "length ?buf = length buf" using assms(4) by auto
  have c: "(n - ?tk \<le> length (inp s)) = (n \<le> length (avail c s))" by (auto simp: avail_def)
  obtain buf' s' where r: "read_more N fd n ?tk ?buf s = Some (if n \<le> length (avail c s) then 1 else 0, buf', s')" "good s'"
    "length buf' = length buf" "out s' = out s" "inp s' = drop (n - ?tk) (inp s)"
    "n \<le> length (avail c s) \<Longrightarrow> buf' = take ?tk ?buf @ take (n - ?tk) (inp s) @ drop n ?buf"
    using read_more_reads [OF assms(1), of n ?buf ?tk] l assms(4,5) unfolding c by auto
  show thesis
  proof (rule that [of buf' "cn_off c + ?tk" s'])
    show "conn_read_exact N c buf n s =
        Some (if n \<le> length (avail c s) then 1 else 0, buf', c\<lparr>cn_off := cn_off c + ?tk\<rparr>, s')"
      unfolding conn_read_exact_carried [OF assms(2,4)] assms(3) Let_def using r(1) by simp
    show "avail (c\<lparr>cn_off := cn_off c + ?tk\<rparr>) s' = drop n (avail c s)"
      unfolding avail_def carried_skip r(5) by (auto simp: min_def)
    show "buf' = take n (avail c s) @ drop n buf" if "n \<le> length (avail c s)"
      using r(6) [OF that] assms(4) by (auto simp: avail_def min_def)
  qed (use r in auto)
qed

end

end
