(* ===== verification/Ws_Frame.thy ===== *)
theory Ws_Frame
  imports Ws_Stream
begin

text \<open>
  Frames of \<^verbatim>\<open>examples/ws_echo/ws_echo.c\<close>: \<^verbatim>\<open>send_frame\<close>, \<^verbatim>\<open>send_close\<close> and \<^verbatim>\<open>recv_frame\<close>, over the calls
  and buffers of \<open>Ws_Stream\<close>. The reference is a parser of RFC 6455 client frames on the bytes still to come, and
  an encoder for each direction; \<open>recv_frame\<close> is the parser on a stream that works, and safe on any other.
\<close>

definition OP_CONT :: int where "OP_CONT = 0"
definition OP_TEXT :: int where "OP_TEXT = 1"
definition OP_BIN :: int where "OP_BIN = 2"
definition OP_CLOSE :: int where "OP_CLOSE = 8"
definition OP_PING :: int where "OP_PING = 9"
definition OP_PONG :: int where "OP_PONG = 10"

definition CLOSE_NORMAL :: int where "CLOSE_NORMAL = 1000"
definition CLOSE_PROTOCOL :: int where "CLOSE_PROTOCOL = 1002"
definition CLOSE_TOO_BIG :: int where "CLOSE_TOO_BIG = 1009"

lemmas ws_codes = OP_CONT_def OP_TEXT_def OP_BIN_def OP_CLOSE_def OP_PING_def OP_PONG_def
  CLOSE_PROTOCOL_def CLOSE_TOO_BIG_def

record frame_hdr =
  fh_fin :: int
  fh_opcode :: int
  fh_len :: nat

section \<open>Sending\<close>

definition send_frame :: "'s net \<Rightarrow> int \<Rightarrow> int \<Rightarrow> u8 list \<Rightarrow> nat \<Rightarrow> 's \<Rightarrow> (int \<times> 's) option" where
  "send_frame N fd opcode payload len s =
     (let hdr = [word_of_int (0x80 OR opcode)] @
        (if len < 126 then [of_nat len]
         else if len \<le> 0xFFFF then [126, of_nat (drop_bit 8 len), of_nat len]
         else 127 # be64 (of_nat len))
      in do {
        (r, s) \<leftarrow> nt_write N fd hdr s;
        if r < 0 then Some (- 1, s)
        else if len \<noteq> 0 then do {
          bs \<leftarrow> buf_get 0 len payload;
          (r, s) \<leftarrow> nt_write N fd bs s;
          if r < 0 then Some (- 1, s) else Some (0, s)
        }
        else Some (0, s)
      })"

definition send_close :: "'s net \<Rightarrow> int \<Rightarrow> int \<Rightarrow> 's \<Rightarrow> (int \<times> 's) option" where
  "send_close N fd code s =
     (let body = [word_of_int (drop_bit 8 code), word_of_int code] in send_frame N fd OP_CLOSE body (length body) s)"

section \<open>Receiving\<close>

text \<open>The extended length: 1 to go on, or the value \<open>recv_frame\<close> returns.\<close>

definition recv_length :: "'s net \<Rightarrow> conn \<Rightarrow> u64 \<Rightarrow> 's \<Rightarrow> (int \<times> u64 \<times> conn \<times> 's) option" where
  "recv_length N c n s =
     (if n = 126 then do {
        (rc, e, c, s) \<leftarrow> conn_read_exact N c (replicate 2 0) 2 s;
        if rc \<le> 0 then Some (- 1, n, c, s)
        else
          let n = push_bit 8 (ucast (e ! 0)) OR ucast (e ! 1) in
          if n < 126 then Some (CLOSE_PROTOCOL, n, c, s) else Some (1, n, c, s)
      }
      else if n = 127 then do {
        (rc, e, c, s) \<leftarrow> conn_read_exact N c (replicate 8 0) 8 s;
        if rc \<le> 0 then Some (- 1, n, c, s)
        else
          let n = foldl (\<lambda>n i. push_bit 8 n OR ucast (e ! i)) 0 [0..<8] in
          if n \<le> 0xFFFF \<or> drop_bit 63 n \<noteq> 0 then Some (CLOSE_PROTOCOL, n, c, s) else Some (1, n, c, s)
      }
      else Some (1, n, c, s))"

text \<open>\<open>payload[i] ^= mask[i & 3]\<close> for each \<open>i < n\<close>.\<close>

definition unmask :: "u8 list \<Rightarrow> nat \<Rightarrow> u8 list \<Rightarrow> u8 list" where
  "unmask key n payload = foldl (\<lambda>p i. p[i := p ! i XOR key ! (i AND 3)]) payload [0..<n]"

definition recv_payload ::
  "'s net \<Rightarrow> conn \<Rightarrow> frame_hdr \<Rightarrow> u64 \<Rightarrow> u8 list \<Rightarrow> 's \<Rightarrow> (int \<times> frame_hdr \<times> u8 list \<times> conn \<times> 's) option" where
  "recv_payload N c hdr n payload s = do {
     (rc, key, c, s) \<leftarrow> conn_read_exact N c (replicate 4 0) 4 s;
     if rc \<le> 0 then Some (- 1, hdr, payload, c, s)
     else do {
       (rc, payload, c, s) \<leftarrow> (if n \<noteq> 0 then conn_read_exact N c payload (unat n) s else Some (1, payload, c, s));
       if rc \<le> 0 then Some (- 1, hdr, payload, c, s)
       else Some (1, hdr\<lparr>fh_len := unat n\<rparr>, unmask key (unat n) payload, c, s)
     }
   }"

definition recv_frame ::
  "'s net \<Rightarrow> conn \<Rightarrow> frame_hdr \<Rightarrow> u8 list \<Rightarrow> 's \<Rightarrow> (int \<times> frame_hdr \<times> u8 list \<times> conn \<times> 's) option" where
  "recv_frame N c hdr payload s = do {
     (rc, b, c, s) \<leftarrow> conn_read_exact N c (replicate 2 0) 2 s;
     if rc \<le> 0 then Some (rc, hdr, payload, c, s)
     else
       let hdr = hdr\<lparr>fh_fin := uint (b ! 0 AND 0x80), fh_opcode := uint (b ! 0 AND 0x0F)\<rparr>;
           rsv = uint (b ! 0 AND 0x70);
           masked = uint (b ! 1 AND 0x80);
           n = ucast (b ! 1 AND 0x7F);
           known = (fh_opcode hdr \<le> OP_BIN \<or> OP_CLOSE \<le> fh_opcode hdr \<and> fh_opcode hdr \<le> OP_PONG)
       in if rsv \<noteq> 0 \<or> \<not> known \<or> masked = 0 then Some (CLOSE_PROTOCOL, hdr, payload, c, s)
          else do {
            (rc, n, c, s) \<leftarrow> recv_length N c n s;
            if rc \<noteq> 1 then Some (rc, hdr, payload, c, s)
            else if OP_CLOSE \<le> fh_opcode hdr \<and> (fh_fin hdr = 0 \<or> n > 125) then Some (CLOSE_PROTOCOL, hdr, payload, c, s)
            else if n > of_nat MAX_PAYLOAD then Some (CLOSE_TOO_BIG, hdr, payload, c, s)
            else recv_payload N c hdr n payload s
          }
   }"

section \<open>RFC 6455 frames\<close>

definition be_val :: "u8 list \<Rightarrow> nat" where
  "be_val = foldl (\<lambda>v b. v * 256 + unat b) 0"

definition masked_with :: "u8 list \<Rightarrow> u8 list \<Rightarrow> u8 list" where
  "masked_with key p = map (\<lambda>i. p ! i XOR key ! (i mod 4)) [0..<length p]"

datatype frame_read = Eof | Cut | Bad int | Frame bool int "u8 list" "u8 list"

text \<open>What the bytes to come hold: nothing more, a frame cut short, a violation and the close code it calls for,
  or a frame and what follows it.\<close>

definition ext_len :: "nat \<Rightarrow> nat" where
  "ext_len l7 = (if l7 = 126 then 2 else if l7 = 127 then 8 else 0)"

definition parse_frame :: "u8 list \<Rightarrow> frame_read" where
  "parse_frame bs =
     (if length bs < 2 then Eof
      else
        let b0 = unat (bs ! 0); b1 = unat (bs ! 1); op = b0 mod 16; ext = ext_len (b1 mod 128);
            n = (if ext = 0 then b1 mod 128 else be_val (take ext (drop 2 bs)));
            rest = drop (2 + ext) bs
        in if b0 div 16 mod 8 \<noteq> 0 \<or> op \<notin> {0, 1, 2, 8, 9, 10} \<or> b1 < 128 then Bad 1002
           else if length bs < 2 + ext then Cut
           else if ext = 2 \<and> n < 126 \<or> ext = 8 \<and> (n < 2 ^ 16 \<or> 2 ^ 63 \<le> n) then Bad 1002
           else if 8 \<le> op \<and> (b0 < 128 \<or> 125 < n) then Bad 1002
           else if 65536 < n then Bad 1009
           else if length rest < 4 + n then Cut
           else Frame (128 \<le> b0) (int op) (masked_with (take 4 rest) (take n (drop 4 rest))) (drop (4 + n) rest))"

text \<open>The shortest encoding of a length, and the frames of either side.\<close>

definition len_bytes :: "nat \<Rightarrow> u8 list" where
  "len_bytes n = (if n < 126 then [of_nat n]
     else if n < 2 ^ 16 then [126, of_nat (n div 256), of_nat n]
     else 127 # map (\<lambda>k. of_nat (n div 256 ^ k)) [7, 6, 5, 4, 3, 2, 1, 0])"

definition server_frame :: "int \<Rightarrow> u8 list \<Rightarrow> u8 list" where
  "server_frame op p = word_of_int (128 + op) # len_bytes (length p) @ p"

definition client_frame :: "bool \<Rightarrow> int \<Rightarrow> u8 list \<Rightarrow> u8 list \<Rightarrow> u8 list" where
  "client_frame fin op key p =
     (let l = len_bytes (length p) in
      word_of_int ((if fin then 128 else 0) + op) # (hd l + 128) # tl l @ key @ masked_with key p)"

section \<open>Bits and bytes\<close>

lemma byte_flag: "b AND 0x80 = (0 :: u8) \<longleftrightarrow> unat b < 128"
proof -
  have "unat b < 256" using unsigned_less [of b] by simp
  then have "unat b div 128 < 2" by (simp add: div_less_iff_less_mult)
  then have "odd (unat b div 128) \<longleftrightarrow> unat b div 128 = 1" by (auto simp: less_2_cases_iff)
  also have "\<dots> \<longleftrightarrow> \<not> unat b < 128" using \<open>unat b div 128 < 2\<close> by (auto simp: div_eq_0_iff less_2_cases_iff)
  finally have "bit (unat b) 7 \<longleftrightarrow> \<not> unat b < 128" by (simp add: bit_iff_odd)
  moreover have "bit (unat b) 7 = bit b 7" by (simp add: bit_unsigned_iff)
  moreover have "(0x80 :: u8) = 2 ^ 7" by simp
  ultimately show ?thesis by (simp only: and_exp_eq_0_iff_not_bit) simp
qed

lemma byte_low:
  fixes b :: u8
  shows "uint (b AND 0x0F) = int (unat b mod 16)" "unat (b AND 0x7F) = unat b mod 128"
proof -
  have "(0x0F :: u8) = mask 4" "(0x7F :: u8) = mask 7" by (simp_all add: mask_eq_exp_minus_1)
  then have "b AND 0x0F = take_bit 4 b" "b AND 0x7F = take_bit 7 b" by (simp_all only: take_bit_eq_mask)
  then have "unat (b AND 0x0F) = take_bit 4 (unat b)" "unat (b AND 0x7F) = take_bit 7 (unat b)"
    by (simp_all only: unsigned_take_bit_eq)
  then have u: "unat (b AND 0x0F) = unat b mod 16" "unat (b AND 0x7F) = unat b mod 128" by (simp_all add: take_bit_eq_mod)
  show "uint (b AND 0x0F) = int (unat b mod 16)" using u(1) by (metis of_nat_unat)
  show "unat (b AND 0x7F) = unat b mod 128" by (rule u(2))
qed

lemma byte_rsv: "b AND 0x70 = (0 :: u8) \<longleftrightarrow> unat b div 16 mod 8 = 0"
proof -
  have "(0x70 :: u8) = push_bit 4 (mask 3)" by (simp add: mask_eq_exp_minus_1)
  moreover have "b AND push_bit 4 (mask 3) = push_bit 4 (take_bit 3 (drop_bit 4 b))"
    by (rule bit_eqI) (auto simp: bit_simps simp del: push_bit_mask_eq)
  ultimately have "b AND 0x70 = push_bit 4 (take_bit 3 (drop_bit 4 b))" by (simp only:)
  moreover have "push_bit 4 (take_bit 3 (drop_bit 4 b)) = 0 \<longleftrightarrow> take_bit 3 (drop_bit 4 b) = 0"
    by (auto simp: bit_eq_iff bit_simps) (metis le_add_diff_inverse less_imp_diff_less)
  moreover have "unat (take_bit 3 (drop_bit 4 b)) = take_bit 3 (drop_bit 4 (unat b))"
    by (simp only: unsigned_take_bit_eq unat_drop_bit_eq)
  then have "unat (take_bit 3 (drop_bit 4 b)) = unat b div 16 mod 8" by (simp add: take_bit_eq_mod drop_bit_eq_div)
  ultimately show ?thesis by (metis unat_eq_zero)
qed

lemma unat_ucast8 [simp]: "unat (ucast (b :: u8) :: u64) = unat b"
proof -
  have "unat b < 2 ^ 8" using unsigned_less [of b] by simp
  then have "unat b < 2 ^ 64" by simp
  then show ?thesis by (simp add: unsigned_ucast_eq unsigned_take_bit_eq take_bit_eq_mod)
qed

lemma be_val_append: "be_val (bs @ [b]) = be_val bs * 256 + unat b"
  by (simp add: be_val_def)

lemma be_val_less: "be_val bs < 256 ^ length bs"
proof (induction bs rule: rev_induct)
  case (snoc b bs)
  have "unat b < 256" using unsigned_less [of b] by simp
  then show ?case using snoc by (simp add: be_val_append)
qed (simp add: be_val_def)

lemma shift_in:
  fixes n :: u64
  assumes "unat n < 2 ^ 56"
  shows "unat (push_bit 8 n OR ucast (b :: u8)) = unat n * 256 + unat b"
proof -
  have b: "unat b < 2 ^ 8" using unsigned_less [of b] by simp
  have "push_bit 8 n AND ucast b = 0"
  proof (rule bit_eqI)
    fix k
    have "\<not> bit b k" if "8 \<le> k" using that bit_imp_le_length [of b k] by auto
    then show "bit (push_bit 8 n AND ucast b) k = bit 0 k" by (auto simp: bit_simps)
  qed
  then have "push_bit 8 n OR ucast b = push_bit 8 n + ucast b" by (simp add: disjunctive_add_eq_or)
  also have "\<dots> = of_nat (unat n * 256 + unat b)"
    by (simp add: push_bit_eq_mult)
  finally show ?thesis using assms b by (simp add: unat_of_nat_small del: of_nat_add of_nat_mult)
qed

lemma be_fold:
  assumes "length bs \<le> 8"
  shows "unat (foldl (\<lambda>n b. push_bit 8 n OR ucast b) (0 :: u64) bs) = be_val bs"
  using assms
proof (induction bs rule: rev_induct)
  case (snoc b bs)
  have "be_val bs < 256 ^ length bs" by (rule be_val_less)
  also have "(256 :: nat) ^ length bs \<le> 256 ^ 7" using snoc.prems by (intro power_increasing) simp_all
  finally have "be_val bs < 2 ^ 56" by simp
  then show ?case using snoc by (simp add: be_val_append shift_in)
qed (simp add: be_val_def)

lemma unmask_masked: "n \<le> length p \<Longrightarrow> unmask key n p = masked_with key (take n p) @ drop n p"
proof (induction n)
  case (Suc n)
  have a: "n AND 3 = n mod 4" using take_bit_eq_mask [of 2 n] by (simp add: take_bit_eq_mod mask_eq_exp_minus_1)
  have "unmask key (Suc n) p = (unmask key n p)[n := unmask key n p ! n XOR key ! (n AND 3)]" by (simp add: unmask_def)
  also have "\<dots> = masked_with key (take (Suc n) p) @ drop (Suc n) p"
    using Suc by (intro nth_equalityI) (auto simp: masked_with_def nth_append nth_list_update a less_Suc_eq min_def)
  finally show ?case .
qed (simp add: unmask_def masked_with_def)

lemma length_masked [simp]: "length (masked_with key p) = length p"
  by (simp add: masked_with_def)

lemma masked_twice: "masked_with key (masked_with key p) = p"
  by (intro nth_equalityI) (simp_all add: masked_with_def xor.assoc)

section \<open>Sending is the encoding\<close>

lemma byte_at:
  assumes "k \<le> 7"
  shows "ucast (drop_bit (k * 8) (of_nat n :: u64)) = (of_nat (n div 256 ^ k) :: u8)"
proof -
  have "(256 :: nat) ^ k = 2 ^ (k * 8)" by (simp add: power_mult mult.commute [of k])
  then have "n div 256 ^ k = drop_bit (k * 8) n" by (simp only: drop_bit_eq_div)
  then show ?thesis using assms by (simp only:) (rule bit_eqI, auto simp: bit_simps)
qed

lemma len_bytes_be64: "be64 (of_nat n) = map (\<lambda>k. of_nat (n div 256 ^ k)) [7, 6, 5, 4, 3, 2, 1, 0]"
  unfolding be64_def by (rule map_cong [OF refl], rule byte_at) auto

lemma send_header: "(if n < 126 then [of_nat n] else if n \<le> 0xFFFF then [126, of_nat (drop_bit 8 n), of_nat n]
    else 127 # be64 (of_nat n)) = len_bytes n"
  unfolding len_bytes_def len_bytes_be64 by (simp add: drop_bit_eq_div)

lemma len_bytes_short: "len_bytes n \<noteq> []" "length (len_bytes n) \<le> 9"
  by (simp_all add: len_bytes_def)

definition opcodes :: "int set" where
  "opcodes = {0, 1, 2, 8, 9, 10}"

lemma opcode_byte: "op \<in> opcodes \<Longrightarrow> 0x80 OR op = 128 + op"
  by (auto simp: opcodes_def)

lemma send_frame_alt:
  assumes "op \<in> opcodes" "len \<le> length payload"
  shows "send_frame N fd op payload len s = do {
    (r, s) \<leftarrow> nt_write N fd (word_of_int (128 + op) # len_bytes len) s;
    if r < 0 then Some (- 1, s)
    else if len = 0 then Some (0, s)
    else do { (r, s) \<leftarrow> nt_write N fd (take len payload) s; Some (if r < 0 then - 1 else 0, s) }
  }"
  unfolding send_frame_def send_header opcode_byte [OF assms(1)] Let_def using assms(2)
  by (intro bind_option_cong refl) (auto simp: buf_get_def split_def intro!: bind_option_cong)

context bounded_stream begin

lemma send_frame_safe:
  assumes "good s" "op \<in> opcodes" "len \<le> length payload" "len \<le> 65536"
  shows "\<exists>r s'. send_frame N fd op payload len s = Some (r, s') \<and> good s' \<and> r \<in> {- 1, 0}"
proof -
  from write_returns [OF assms(1), of "word_of_int (128 + op) # len_bytes len"] len_bytes_short [of len] obtain r1 s1 where
    w: "nt_write N fd (word_of_int (128 + op) # len_bytes len) s = Some (r1, s1)" "good s1" by auto
  show ?thesis
  proof (cases "r1 < 0 \<or> len = 0")
    case False
    then have p: "take len payload \<noteq> []" "length (take len payload) \<le> 65536" using assms(3,4) by auto
    from write_returns [OF w(2) p] obtain r2 s2 where "nt_write N fd (take len payload) s1 = Some (r2, s2)" "good s2" by auto
    then show ?thesis using False w by (simp add: send_frame_alt [OF assms(2,3)])
  qed (use w in \<open>auto simp: send_frame_alt [OF assms(2,3)]\<close>)
qed

lemma send_close_safe:
  assumes "good s"
  shows "\<exists>r s'. send_close N fd code s = Some (r, s') \<and> good s'"
  using send_frame_safe [OF assms, of OP_CLOSE 2 "[word_of_int (drop_bit 8 code), word_of_int code]"]
  by (auto simp: send_close_def OP_CLOSE_def opcodes_def Let_def numeral_2_eq_2)

end

context byte_stream begin

lemma send_frame_writes:
  assumes "good s" "op \<in> opcodes" "len \<le> length payload" "len \<le> 65536"
  obtains s' where "send_frame N fd op payload len s = Some (0, s')" "good s'" "inp s' = inp s"
    "out s' = out s @ server_frame op (take len payload)"
proof -
  let ?h = "word_of_int (128 + op) # len_bytes len"
  have l: "?h \<noteq> []" "length ?h \<le> 65536" using len_bytes_short [of len] by simp_all
  from write_returns [OF assms(1) l] obtain r1 s1 where w: "nt_write N fd ?h s = Some (r1, s1)" "good s1" by auto
  note a = write_all [OF assms(1) l w(1)]
  show thesis
  proof (cases "len = 0")
    case True
    then show thesis using that [OF _ w(2)] w(1) a by (simp add: send_frame_alt [OF assms(2) le0] server_frame_def)
  next
    case False
    have p: "take len payload \<noteq> []" "length (take len payload) \<le> 65536" using False assms(3,4) by auto
    from write_returns [OF w(2) p] obtain r2 s2 where w2: "nt_write N fd (take len payload) s1 = Some (r2, s2)" "good s2" by auto
    note b = write_all [OF w(2) p w2(1)]
    have "send_frame N fd op payload len s = Some (0, s2)" using w(1) w2(1) a b False by (simp add: send_frame_alt [OF assms(2,3)])
    moreover have "length (take len payload) = len" using assms(3) by simp
    ultimately show thesis using that [OF _ w2(2)] a b unfolding server_frame_def by (simp del: length_take)
  qed
qed

lemma send_close_writes:
  assumes "good s" "0 \<le> code"
  obtains s' where "send_close N fd code s = Some (0, s')" "good s'" "inp s' = inp s"
    "out s' = out s @ server_frame 8 [of_nat (nat code div 256), of_nat (nat code)]"
proof -
  let ?b = "[word_of_int (drop_bit 8 code), word_of_int code] :: u8 list"
  obtain m where "code = int m" using assms(2) nonneg_int_cases by blast
  then have "?b = [of_nat (nat code div 256), of_nat (nat code)]"
    by (simp add: drop_bit_eq_div zdiv_int [of _ 256, simplified, symmetric])
  moreover obtain s' where "send_frame N fd OP_CLOSE ?b (length ?b) s = Some (0, s')" "good s'" "inp s' = inp s"
    "out s' = out s @ server_frame OP_CLOSE (take (length ?b) ?b)"
    by (rule send_frame_writes [OF assms(1), of OP_CLOSE "length ?b" ?b]) (auto simp: OP_CLOSE_def opcodes_def)
  ultimately show thesis using that by (simp add: send_close_def OP_CLOSE_def)
qed

end

section \<open>Receiving is the parser\<close>

lemma ext_len_cases:
  obtains (short) "l7 \<noteq> 126" "l7 \<noteq> 127" "ext_len l7 = 0" | (two) "l7 = 126" "ext_len l7 = 2" | (eight) "l7 = 127" "ext_len l7 = 8"
  by (auto simp: ext_len_def)

text \<open>The loop over the eight bytes folds them.\<close>

lemma fold_bytes:
  assumes "length e = 8"
  shows "unat (foldl (\<lambda>n i. push_bit 8 n OR ucast (e ! i)) (0 :: u64) [0..<8]) = be_val e"
proof -
  have "foldl (\<lambda>n i. push_bit 8 n OR ucast (e ! i)) (0 :: u64) [0..<length e] = foldl (\<lambda>n b. push_bit 8 n OR ucast b) 0 e"
    using foldl_map [of "\<lambda>n b. push_bit 8 n OR ucast b" "0 :: u64" "(!) e" "[0..<length e]"] by (simp only: map_nth)
  with be_fold [of e] show ?thesis by (simp only: assms order_refl)
qed

lemma fold_two:
  assumes "length e = 2"
  shows "unat (push_bit 8 (ucast (e ! 0)) OR ucast (e ! 1) :: u64) = be_val e"
proof -
  obtain a b where e: "e = [a, b]" using assms by (auto simp: numeral_2_eq_2 length_Suc_conv)
  have "unat a < 2 ^ 8" using unsigned_less [of a] by simp
  then have "unat (ucast a :: u64) < 2 ^ 56" by simp
  then have "unat (push_bit 8 (ucast a) OR ucast b :: u64) = unat a * 256 + unat b" by (simp add: shift_in)
  also have "\<dots> = be_val [a, b]" by (simp add: be_val_def)
  finally show ?thesis by (simp add: e)
qed

lemma word_bounds:
  fixes n :: u64
  shows "n < 126 \<longleftrightarrow> unat n < 126" "n \<le> 0xFFFF \<longleftrightarrow> unat n < 2 ^ 16" "n > 125 \<longleftrightarrow> 125 < unat n"
    "n > of_nat MAX_PAYLOAD \<longleftrightarrow> 65536 < unat n" "drop_bit 63 n \<noteq> 0 \<longleftrightarrow> 2 ^ 63 \<le> unat n"
proof -
  have "drop_bit 63 n = 0 \<longleftrightarrow> unat (drop_bit 63 n) = 0" by (simp only: unat_eq_zero)
  also have "unat (drop_bit 63 n) = drop_bit 63 (unat n)" by (simp only: unat_drop_bit_eq)
  also have "drop_bit 63 (unat n) = 0 \<longleftrightarrow> unat n div 2 ^ 63 = 0" by (simp only: drop_bit_eq_div)
  also have "\<dots> \<longleftrightarrow> \<not> 2 ^ 63 \<le> unat n" by (simp add: div_eq_0_iff not_le)
  finally show "drop_bit 63 n \<noteq> 0 \<longleftrightarrow> 2 ^ 63 \<le> unat n" by blast
qed (simp_all add: word_less_nat_alt word_le_nat_alt MAX_PAYLOAD_def less_Suc_eq_le [symmetric])

definition bad_length :: "nat \<Rightarrow> nat \<Rightarrow> bool" where
  "bad_length ext n \<longleftrightarrow> ext = 2 \<and> n < 126 \<or> ext = 8 \<and> (n < 2 ^ 16 \<or> 2 ^ 63 \<le> n)"

lemma off_off: "c\<lparr>cn_off := a, cn_off := b\<rparr> = c\<lparr>cn_off := b\<rparr>"
  by simp

lemma some_off: "\<exists>k. c = c\<lparr>cn_off := k\<rparr>" "\<exists>k. c\<lparr>cn_off := k'\<rparr> = c\<lparr>cn_off := k\<rparr>"
  by (rule exI [of _ "cn_off c"]) (auto intro: exI [of _ k'])

context bounded_stream begin

lemma recv_length_safe:
  assumes "good s" "carry_ok c" "cn_fd c = fd"
  shows "\<exists>rc n' k s'. recv_length N c n s = Some (rc, n', c\<lparr>cn_off := k\<rparr>, s') \<and> good s' \<and> rc \<in> {- 1, 1, 1002}"
proof -
  obtain rc2 e2 k2 s2 where r2: "conn_read_exact N c (replicate 2 0) 2 s = Some (rc2, e2, c\<lparr>cn_off := k2\<rparr>, s2)" "good s2"
    using conn_read_exact_safe [OF assms, of 2 "replicate 2 0"] by auto
  obtain rc8 e8 k8 s8 where r8: "conn_read_exact N c (replicate 8 0) 8 s = Some (rc8, e8, c\<lparr>cn_off := k8\<rparr>, s8)" "good s8"
    using conn_read_exact_safe [OF assms, of 8 "replicate 8 0"] by auto
  show ?thesis using r2 r8 assms(1) unfolding recv_length_def Let_def CLOSE_PROTOCOL_def
    by (simp add: some_off del: replicate.simps)
qed

lemma recv_payload_safe:
  assumes "good s" "carry_ok c" "cn_fd c = fd" "length payload = MAX_PAYLOAD" "unat n \<le> 65536"
  shows "\<exists>rc h p k s'. recv_payload N c hdr n payload s = Some (rc, h, p, c\<lparr>cn_off := k\<rparr>, s') \<and> good s' \<and>
    length p = MAX_PAYLOAD \<and> rc \<in> {- 1, 1} \<and> fh_fin h = fh_fin hdr \<and> fh_opcode h = fh_opcode hdr \<and> (rc = 1 \<longrightarrow> fh_len h = unat n)"
proof -
  obtain rc1 key k1 s1 where r1: "conn_read_exact N c (replicate 4 0) 4 s = Some (rc1, key, c\<lparr>cn_off := k1\<rparr>, s1)" "good s1"
    "length key = length (replicate 4 (0 :: u8))"
    using conn_read_exact_safe [OF assms(1-3), of 4 "replicate 4 0"] by auto
  obtain rc2 p k2 s2 where r2: "conn_read_exact N (c\<lparr>cn_off := k1\<rparr>) payload (unat n) s1 = Some (rc2, p, c\<lparr>cn_off := k2\<rparr>, s2)"
    "good s2" "length p = MAX_PAYLOAD"
    using conn_read_exact_safe [OF r1(2), of "c\<lparr>cn_off := k1\<rparr>" "unat n" payload] assms(2-5) by (auto simp: MAX_PAYLOAD_def)
  have u: "length (unmask key (unat n) p') = MAX_PAYLOAD" if "length p' = MAX_PAYLOAD" for p'
    using that assms(5) by (subst unmask_masked) (simp_all add: MAX_PAYLOAD_def)
  show ?thesis using r1 r2 u assms(4) unfolding recv_payload_def by (auto simp del: replicate.simps)
qed

end

context byte_stream begin

lemma recv_length_reads:
  fixes n :: u64
  assumes "good s" "carry_ok c" "cn_fd c = fd"
  defines "ext \<equiv> ext_len (unat n)" and "v \<equiv> (if ext_len (unat n) = 0 then unat n else be_val (take (ext_len (unat n)) (avail c s)))"
  obtains rc n' k s' where "recv_length N c n s = Some (rc, n', c\<lparr>cn_off := k\<rparr>, s')" "good s'" "out s' = out s"
    "rc = (if length (avail c s) < ext then - 1 else if bad_length ext v then 1002 else 1)"
    "rc = 1 \<longrightarrow> unat n' = v \<and> avail (c\<lparr>cn_off := k\<rparr>) s' = drop ext (avail c s)"
proof (cases "unat n" rule: ext_len_cases)
  case short
  then have "n \<noteq> 126" "n \<noteq> 127" by auto
  then have "recv_length N c n s = Some (1, n, c\<lparr>cn_off := cn_off c\<rparr>, s)" by (simp add: recv_length_def)
  then show thesis using short assms(1) by (intro that [of _ _ "cn_off c"]) (auto simp: ext_def v_def bad_length_def)
next
  case two
  then have n: "n = 126" by (simp add: word_unat_eq_iff)
  obtain e k s' where r: "conn_read_exact N c (replicate 2 0) 2 s =
      Some (if 2 \<le> length (avail c s) then 1 else 0, e, c\<lparr>cn_off := k\<rparr>, s')" "good s'" "length e = 2" "out s' = out s"
    "avail (c\<lparr>cn_off := k\<rparr>) s' = drop 2 (avail c s)" "2 \<le> length (avail c s) \<Longrightarrow> e = take 2 (avail c s)"
    using conn_read_exact_reads [OF assms(1-3), of 2 "replicate 2 0"] by auto
  define m :: u64 where "m = push_bit 8 (ucast (e ! 0)) OR ucast (e ! 1)"
  have "unat m = v" if "2 \<le> length (avail c s)"
    using fold_two [OF r(3)] two unfolding m_def v_def r(6) [OF that] by simp
  moreover have "recv_length N c n s = (if 2 \<le> length (avail c s)
      then if m < 126 then Some (CLOSE_PROTOCOL, m, c\<lparr>cn_off := k\<rparr>, s') else Some (1, m, c\<lparr>cn_off := k\<rparr>, s')
      else Some (- 1, n, c\<lparr>cn_off := k\<rparr>, s'))"
    unfolding recv_length_def Let_def r(1) m_def n by simp
  ultimately show thesis using r(2-5) two
    by (intro that [of "if 2 \<le> length (avail c s) then if m < 126 then CLOSE_PROTOCOL else 1 else - 1" "if 2 \<le> length (avail c s) then m else n" k s'])
      (auto simp: ext_def bad_length_def word_bounds CLOSE_PROTOCOL_def)
next
  case eight
  then have n: "n = 127" by (simp add: word_unat_eq_iff)
  obtain e k s' where r: "conn_read_exact N c (replicate 8 0) 8 s =
      Some (if 8 \<le> length (avail c s) then 1 else 0, e, c\<lparr>cn_off := k\<rparr>, s')" "good s'" "length e = 8" "out s' = out s"
    "avail (c\<lparr>cn_off := k\<rparr>) s' = drop 8 (avail c s)" "8 \<le> length (avail c s) \<Longrightarrow> e = take 8 (avail c s)"
    using conn_read_exact_reads [OF assms(1-3), of 8 "replicate 8 0"] by auto
  define m :: u64 where "m = foldl (\<lambda>n i. push_bit 8 n OR ucast (e ! i)) 0 [0..<8]"
  have "unat m = v" if "8 \<le> length (avail c s)"
    using fold_bytes [OF r(3)] r(6) [OF that] eight by (simp add: v_def m_def del: upt_rec_numeral)
  moreover have "recv_length N c n s = (if 8 \<le> length (avail c s)
      then if m \<le> 0xFFFF \<or> drop_bit 63 m \<noteq> 0 then Some (CLOSE_PROTOCOL, m, c\<lparr>cn_off := k\<rparr>, s') else Some (1, m, c\<lparr>cn_off := k\<rparr>, s')
      else Some (- 1, n, c\<lparr>cn_off := k\<rparr>, s'))"
    unfolding recv_length_def Let_def r(1) m_def n by simp
  ultimately show thesis using r(2-5) eight
    by (intro that [of "if 8 \<le> length (avail c s) then if m \<le> 0xFFFF \<or> drop_bit 63 m \<noteq> 0 then CLOSE_PROTOCOL else 1 else - 1"
        "if 8 \<le> length (avail c s) then m else n" k s'])
      (auto simp: ext_def bad_length_def word_bounds CLOSE_PROTOCOL_def)
qed

end

text \<open>What a call of \<open>recv_frame\<close> returned, against what the parser says; \<open>av\<close> is what is left to read.\<close>

definition frame_as :: "frame_read \<Rightarrow> int \<Rightarrow> frame_hdr \<Rightarrow> u8 list \<Rightarrow> u8 list \<Rightarrow> bool" where
  "frame_as fr rc h p av =
     (case fr of
        Eof \<Rightarrow> rc = 0
      | Cut \<Rightarrow> rc = - 1
      | Bad code \<Rightarrow> rc = code
      | Frame fin op pl rest \<Rightarrow> rc = 1 \<and> (fh_fin h \<noteq> 0) = fin \<and> fh_opcode h = op \<and> fh_len h = length pl \<and>
          take (length pl) p = pl \<and> av = rest)"

context byte_stream begin

lemma recv_payload_reads:
  assumes "good s" "carry_ok c" "cn_fd c = fd" "length payload = MAX_PAYLOAD" "unat n \<le> 65536"
  obtains rc h p k s' where "recv_payload N c hdr n payload s = Some (rc, h, p, c\<lparr>cn_off := k\<rparr>, s')" "good s'" "out s' = out s"
    "length p = MAX_PAYLOAD"
    "frame_as (if length (avail c s) < 4 + unat n then Cut
       else Frame (fh_fin hdr \<noteq> 0) (fh_opcode hdr) (masked_with (take 4 (avail c s)) (take (unat n) (drop 4 (avail c s))))
         (drop (4 + unat n) (avail c s))) rc h p (avail (c\<lparr>cn_off := k\<rparr>) s')"
proof -
  obtain key k1 s1 where r1: "conn_read_exact N c (replicate 4 0) 4 s =
      Some (if 4 \<le> length (avail c s) then 1 else 0, key, c\<lparr>cn_off := k1\<rparr>, s1)" "good s1" "length key = 4" "out s1 = out s"
    "avail (c\<lparr>cn_off := k1\<rparr>) s1 = drop 4 (avail c s)" "4 \<le> length (avail c s) \<Longrightarrow> key = take 4 (avail c s)"
    using conn_read_exact_reads [OF assms(1-3), of 4 "replicate 4 0"] by auto
  show thesis
  proof (cases "4 \<le> length (avail c s)")
    case False
    then have "recv_payload N c hdr n payload s = Some (- 1, hdr, payload, c\<lparr>cn_off := k1\<rparr>, s1)"
      unfolding recv_payload_def r1(1) by simp
    then show thesis using False by (intro that [of "- 1" hdr payload k1 s1]) (auto simp: r1(2,4) assms(4) frame_as_def)
  next
    case True
    have c1: "carry_ok (c\<lparr>cn_off := k1\<rparr>)" "cn_fd (c\<lparr>cn_off := k1\<rparr>) = fd" "unat n \<le> length payload"
      using assms by (simp_all add: MAX_PAYLOAD_def)
    from conn_read_exact_reads [OF r1(2) c1 assms(5)] obtain p k2 s2 where r2:
      "conn_read_exact N (c\<lparr>cn_off := k1\<rparr>) payload (unat n) s1 =
        Some (if 4 + unat n \<le> length (avail c s) then 1 else 0, p, c\<lparr>cn_off := k2\<rparr>, s2)" "good s2" "length p = MAX_PAYLOAD" "out s2 = out s"
      "avail (c\<lparr>cn_off := k2\<rparr>) s2 = drop (4 + unat n) (avail c s)"
      "4 + unat n \<le> length (avail c s) \<Longrightarrow> p = take (unat n) (drop 4 (avail c s)) @ drop (unat n) payload"
      using True unfolding r1(4,5) assms(4) by (auto simp: le_diff_conv2 add.commute)
    define b where "b = (4 + unat n \<le> length (avail c s))"
    show thesis
    proof (cases "n = 0")
      case z: True
      have "recv_payload N c hdr n payload s = Some (1, hdr\<lparr>fh_len := 0\<rparr>, payload, c\<lparr>cn_off := k1\<rparr>, s1)"
        unfolding recv_payload_def r1(1) using True by (simp add: z unmask_def)
      then show thesis using True z by (intro that [of 1 "hdr\<lparr>fh_len := 0\<rparr>" payload k1 s1]) (auto simp: r1(2,4,5) assms(4) frame_as_def masked_with_def)
    next
      case False
      have u: "unmask key (unat n) p = masked_with (take 4 (avail c s)) (take (unat n) (drop 4 (avail c s))) @ drop (unat n) p" if b
        using r2(6) that r1(6) True r2(3) assms(5) by (subst unmask_masked) (simp_all add: b_def MAX_PAYLOAD_def)
      have e: "recv_payload N c hdr n payload s = (if b then
          Some (1, hdr\<lparr>fh_len := unat n\<rparr>, unmask key (unat n) p, c\<lparr>cn_off := k2\<rparr>, s2)
          else Some (- 1, hdr, p, c\<lparr>cn_off := k2\<rparr>, s2))"
        unfolding recv_payload_def r1(1) using True False r2(1) by (simp add: b_def)
      show thesis
      proof (cases b)
        case b: True
        note u = u [OF b]
        have "length (unmask key (unat n) p) = MAX_PAYLOAD" using r2(3) assms(5) b unfolding u by (simp add: b_def MAX_PAYLOAD_def)
        then show thesis using e b unfolding u
          by (intro that [of 1 "hdr\<lparr>fh_len := unat n\<rparr>" _ k2 s2]) (auto simp: r2(2,4,5) frame_as_def b_def)
      next
        case b: False
        then show thesis using e by (intro that [of "- 1" hdr p k2 s2]) (auto simp: r2(2-4) frame_as_def b_def)
      qed
    qed
  qed
qed

end

lemma known_opcodes: "int op \<le> OP_BIN \<or> OP_CLOSE \<le> int op \<and> int op \<le> OP_PONG \<longleftrightarrow> op \<in> {0, 1, 2, 8, 9, 10}"
  by (auto simp: ws_codes)

text \<open>The header bytes as the code reads them, and what \<open>recv_frame\<close> does with them.\<close>

definition bad_start :: "u8 list \<Rightarrow> bool" where
  "bad_start b \<longleftrightarrow> unat (b ! 0) div 16 mod 8 \<noteq> 0 \<or> unat (b ! 0) mod 16 \<notin> {0, 1, 2, 8, 9, 10} \<or> unat (b ! 1) < 128"

lemma recv_frame_alt:
  assumes "conn_read_exact N c (replicate 2 0) 2 s = Some (1, b, c', s')"
  shows "recv_frame N c hdr payload s =
     (let hdr = hdr\<lparr>fh_fin := uint (b ! 0 AND 0x80), fh_opcode := int (unat (b ! 0) mod 16)\<rparr> in
      if bad_start b then Some (1002, hdr, payload, c', s')
      else do {
        (rc, n, c, s) \<leftarrow> recv_length N c' (ucast (b ! 1 AND 0x7F)) s';
        if rc \<noteq> 1 then Some (rc, hdr, payload, c, s)
        else if 8 \<le> unat (b ! 0) mod 16 \<and> (unat (b ! 0) < 128 \<or> 125 < unat n) then Some (1002, hdr, payload, c, s)
        else if 65536 < unat n then Some (1009, hdr, payload, c, s)
        else recv_payload N c hdr n payload s
      })"
proof -
  have z: "uint w = 0 \<longleftrightarrow> w = 0" for w :: u8 by (simp add: uint_0_iff)
  have c: "OP_CLOSE \<le> int op \<longleftrightarrow> 8 \<le> op" for op by (auto simp: OP_CLOSE_def)
  have k: "int op \<le> OP_BIN \<or> 8 \<le> op \<and> int op \<le> OP_PONG \<longleftrightarrow> op \<in> {0, 1, 2, 8, 9, 10}" for op
    using known_opcodes [of op] unfolding c .
  have f: "fh_fin (hdr\<lparr>fh_fin := x, fh_opcode := y\<rparr>) = x" "fh_opcode (hdr\<lparr>fh_fin := x, fh_opcode := y\<rparr>) = y" for x y
    by simp_all
  have r: "(1 :: int) \<le> 0 \<longleftrightarrow> False" by simp
  show ?thesis
    by (simp only: recv_frame_def assms Option.bind.simps prod.case Let_def byte_low(1) f z byte_flag byte_rsv c k r
        word_bounds bad_start_def CLOSE_PROTOCOL_def CLOSE_TOO_BIG_def if_False simp_thms)
qed

lemma parse_frame_alt:
  assumes "2 \<le> length bs"
  shows "parse_frame bs =
     (let ext = ext_len (unat (bs ! 1) mod 128);
          n = (if ext = 0 then unat (bs ! 1) mod 128 else be_val (take ext (drop 2 bs)));
          rest = drop (2 + ext) bs
      in if bad_start bs then Bad 1002
         else if length (drop 2 bs) < ext then Cut
         else if bad_length ext n then Bad 1002
         else if 8 \<le> unat (bs ! 0) mod 16 \<and> (unat (bs ! 0) < 128 \<or> 125 < n) then Bad 1002
         else if 65536 < n then Bad 1009
         else if length rest < 4 + n then Cut
         else Frame (128 \<le> unat (bs ! 0)) (int (unat (bs ! 0) mod 16)) (masked_with (take 4 rest) (take n (drop 4 rest)))
           (drop (4 + n) rest))"
proof -
  have "(length bs < 2) = False" "(length (drop 2 bs) < k) = (length bs < 2 + k)" for k using assms by auto
  then show ?thesis unfolding parse_frame_def bad_start_def bad_length_def Let_def by (simp only: if_False)
qed

context byte_stream begin

lemma recv_frame_reads:
  assumes "good s" "carry_ok c" "cn_fd c = fd" "length payload = MAX_PAYLOAD"
  obtains rc h p k s' where "recv_frame N c hdr payload s = Some (rc, h, p, c\<lparr>cn_off := k\<rparr>, s')" "good s'" "out s' = out s"
    "length p = MAX_PAYLOAD" "frame_as (parse_frame (avail c s)) rc h p (avail (c\<lparr>cn_off := k\<rparr>) s')"
proof -
  obtain b k1 s1 where r1: "conn_read_exact N c (replicate 2 0) 2 s =
      Some (if 2 \<le> length (avail c s) then 1 else 0, b, c\<lparr>cn_off := k1\<rparr>, s1)" "good s1" "length b = 2" "out s1 = out s"
    "avail (c\<lparr>cn_off := k1\<rparr>) s1 = drop 2 (avail c s)" "2 \<le> length (avail c s) \<Longrightarrow> b = take 2 (avail c s)"
    using conn_read_exact_reads [OF assms(1-3), of 2 "replicate 2 0"] by auto
  show thesis
  proof (cases "2 \<le> length (avail c s)")
    case False
    then have "recv_frame N c hdr payload s = Some (0, hdr, payload, c\<lparr>cn_off := k1\<rparr>, s1)"
      unfolding recv_frame_def r1(1) by simp
    then show thesis using False
      by (intro that [of 0 hdr payload k1 s1]) (auto simp: r1(2,4) assms(4) frame_as_def parse_frame_def)
  next
    case True
    let ?bs = "avail c s" and ?c1 = "c\<lparr>cn_off := k1\<rparr>"
    have "conn_read_exact N c (replicate 2 0) 2 s = Some (1, b, ?c1, s1)" using r1(1) True by simp
    note R = recv_frame_alt [OF this, of hdr payload]
    have b: "b ! 0 = ?bs ! 0" "b ! 1 = ?bs ! 1" using r1(6) [OF True] by simp_all
    define h where "h = hdr\<lparr>fh_fin := uint (?bs ! 0 AND 0x80), fh_opcode := int (unat (?bs ! 0) mod 16)\<rparr>"
    have h: "(fh_fin h \<noteq> 0) = (128 \<le> unat (?bs ! 0))" "fh_opcode h = int (unat (?bs ! 0) mod 16)"
      using byte_flag [of "?bs ! 0"] by (auto simp: h_def uint_0_iff)
    define n0 :: u64 where "n0 = ucast (?bs ! 1 AND 0x7F)"
    have n0: "unat n0 = unat (?bs ! 1) mod 128" unfolding n0_def unat_ucast8 byte_low(2) ..
    define v where "v = (if ext_len (unat n0) = 0 then unat n0 else be_val (take (ext_len (unat n0)) (drop 2 ?bs)))"
    have c1: "carry_ok ?c1" "cn_fd ?c1 = fd" using assms by simp_all
    let ?v = "if ext_len (unat n0) = 0 then unat n0 else be_val (take (ext_len (unat n0)) (avail ?c1 s1))"
    obtain rc n k2 s2 where
      "recv_length N ?c1 n0 s1 = Some (rc, n, ?c1\<lparr>cn_off := k2\<rparr>, s2)" "good s2" "out s2 = out s1"
      "rc = (if length (avail ?c1 s1) < ext_len (unat n0) then - 1 else if bad_length (ext_len (unat n0)) ?v then 1002 else 1)"
      "rc = 1 \<longrightarrow> unat n = ?v \<and> avail (?c1\<lparr>cn_off := k2\<rparr>) s2 = drop (ext_len (unat n0)) (avail ?c1 s1)"
      by (rule recv_length_reads [OF r1(2) c1, of n0])
    note L = this [unfolded r1(4,5) v_def [symmetric] drop_drop off_off]
    have P: "parse_frame ?bs = (if bad_start ?bs then Bad 1002
         else if length (drop 2 ?bs) < ext_len (unat n0) then Cut
         else if bad_length (ext_len (unat n0)) v then Bad 1002
         else if 8 \<le> unat (?bs ! 0) mod 16 \<and> (unat (?bs ! 0) < 128 \<or> 125 < v) then Bad 1002
         else if 65536 < v then Bad 1009
         else if length (drop (ext_len (unat n0) + 2) ?bs) < 4 + v then Cut
         else Frame (fh_fin h \<noteq> 0) (fh_opcode h)
           (masked_with (take 4 (drop (ext_len (unat n0) + 2) ?bs)) (take v (drop 4 (drop (ext_len (unat n0) + 2) ?bs))))
           (drop (4 + v) (drop (ext_len (unat n0) + 2) ?bs)))"
      unfolding parse_frame_alt [OF True] h v_def n0 Let_def add.commute [of 2] by (rule refl)
    have B: "bad_start b = bad_start ?bs" unfolding bad_start_def b ..
    show thesis
    proof (cases "bad_start ?bs \<or> rc \<noteq> 1")
      case bad: True
      define rc' k' s' where "rc' = (if bad_start ?bs then 1002 else rc)" and "k' = (if bad_start ?bs then k1 else k2)"
        and "s' = (if bad_start ?bs then s1 else s2)"
      have "recv_frame N c hdr payload s = Some (rc', h, payload, c\<lparr>cn_off := k'\<rparr>, s')" "good s'" "out s' = out s"
        unfolding R B b Let_def h_def [symmetric] n0_def [symmetric] L(1) using bad r1(2,4) L(2,3)
        by (auto simp: rc'_def k'_def s'_def)
      then show thesis using bad L(4) assms(4)
        by (intro that [of rc' h payload k' s']) (auto simp: P frame_as_def rc'_def split: if_splits)
    next
      case False
      then have rc: "rc = 1" and s: "\<not> bad_start ?bs" "\<not> length (drop 2 ?bs) < ext_len (unat n0)" "\<not> bad_length (ext_len (unat n0)) v"
        using L(4) by (auto split: if_splits)
      note V = L(5) [rule_format, OF rc]
      have E: "recv_frame N c hdr payload s =
         (if 8 \<le> unat (?bs ! 0) mod 16 \<and> (unat (?bs ! 0) < 128 \<or> 125 < v) then Some (1002, h, payload, c\<lparr>cn_off := k2\<rparr>, s2)
          else if 65536 < v then Some (1009, h, payload, c\<lparr>cn_off := k2\<rparr>, s2)
          else recv_payload N (c\<lparr>cn_off := k2\<rparr>) h n payload s2)"
        unfolding R B b Let_def h_def [symmetric] n0_def [symmetric] L(1) using s(1) rc V by auto
      consider (ctl) "8 \<le> unat (?bs ! 0) mod 16 \<and> (unat (?bs ! 0) < 128 \<or> 125 < v)"
        | (big) "\<not> (8 \<le> unat (?bs ! 0) mod 16 \<and> (unat (?bs ! 0) < 128 \<or> 125 < v))" "65536 < v"
        | (ok) "\<not> (8 \<le> unat (?bs ! 0) mod 16 \<and> (unat (?bs ! 0) < 128 \<or> 125 < v))" "v \<le> 65536" by force
      then show thesis
      proof cases
        case ctl
        have "parse_frame ?bs = Bad 1002" unfolding P using s ctl by auto
        moreover have "recv_frame N c hdr payload s = Some (1002, h, payload, c\<lparr>cn_off := k2\<rparr>, s2)" unfolding E using ctl by auto
        ultimately show thesis by (intro that [of 1002 h payload k2 s2]) (simp_all add: L assms(4) frame_as_def)
      next
        case big
        have "parse_frame ?bs = Bad 1009" unfolding P using s big by auto
        moreover have "recv_frame N c hdr payload s = Some (1009, h, payload, c\<lparr>cn_off := k2\<rparr>, s2)" unfolding E using big by auto
        ultimately show thesis by (intro that [of 1009 h payload k2 s2]) (simp_all add: L assms(4) frame_as_def)
      next
        case ok
        have c2: "carry_ok (c\<lparr>cn_off := k2\<rparr>)" "cn_fd (c\<lparr>cn_off := k2\<rparr>) = fd" "unat n \<le> 65536" using assms V ok by simp_all
        let ?c2 = "c\<lparr>cn_off := k2\<rparr>"
        obtain rc' h' p k3 s3 where
          "recv_payload N ?c2 h n payload s2 = Some (rc', h', p, ?c2\<lparr>cn_off := k3\<rparr>, s3)" "good s3" "out s3 = out s2"
          "length p = MAX_PAYLOAD" "frame_as (if length (avail ?c2 s2) < 4 + unat n then Cut
             else Frame (fh_fin h \<noteq> 0) (fh_opcode h) (masked_with (take 4 (avail ?c2 s2)) (take (unat n) (drop 4 (avail ?c2 s2))))
               (drop (4 + unat n) (avail ?c2 s2))) rc' h' p (avail (?c2\<lparr>cn_off := k3\<rparr>) s3)"
          by (rule recv_payload_reads [OF L(2) c2(1,2) assms(4) c2(3), of h])
        note Q = this [unfolded V [THEN conjunct1] V [THEN conjunct2] off_off]
        show thesis
        proof (rule that)
          show "recv_frame N c hdr payload s = Some (rc', h', p, c\<lparr>cn_off := k3\<rparr>, s3)" unfolding E Q(1) using ok by auto
          show "frame_as (parse_frame ?bs) rc' h' p (avail (c\<lparr>cn_off := k3\<rparr>) s3)"
            unfolding P if_not_P [OF s(1)] if_not_P [OF s(2)] if_not_P [OF s(3)] if_not_P [OF ok(1)] using Q(5) ok(2) by (simp only: not_less if_False if_not_P)
        qed (use Q L in simp_all)
      qed
    qed
  qed
qed

end

end
