(* ===== verification/Ws_Codec.thy ===== *)
theory Ws_Codec
  imports Ws_Frame
begin

text \<open>
  The frame parser of \<open>Ws_Frame\<close> and the client's encoder are inverse to each other: every client frame is read
  back, and nothing else is accepted, since a length has one encoding. And \<open>recv_frame\<close> is safe whatever the
  descriptor does.
\<close>

section \<open>Lengths\<close>

lemma be_val_Cons: "be_val (b # bs) = unat b * 256 ^ length bs + be_val bs"
proof -
  have "foldl (\<lambda>v b. v * 256 + unat b) k bs = k * 256 ^ length bs + foldl (\<lambda>v b. v * 256 + unat b) 0 bs" for k
    by (induction bs rule: rev_induct) (simp_all add: algebra_simps)
  from this [of "unat b"] show ?thesis by (simp add: be_val_def)
qed

lemma be_val_digits: "be_val (map (\<lambda>k. of_nat (n div 256 ^ k)) (rev [0..<m])) = n mod 256 ^ m"
proof (induction m)
  case (Suc m)
  have "n mod (256 ^ m * 256) = 256 ^ m * (n div 256 ^ m mod 256) + n mod 256 ^ m" by (rule mod_mult2_eq)
  then show ?case using Suc by (simp add: be_val_Cons unat_of_nat mult.commute)
qed (simp add: be_val_def)

lemma be_val_inj: "length xs = length ys \<Longrightarrow> be_val xs = be_val ys \<Longrightarrow> xs = ys"
proof (induction xs ys rule: rev_induct2)
  case (4 x xs y ys)
  have u: "unat x < 256" "unat y < 256" using unsigned_less [of x] unsigned_less [of y] by simp_all
  have e: "be_val xs * 256 + unat x = be_val ys * 256 + unat y" using 4(3) by (simp add: be_val_append)
  have "unat x = (be_val xs * 256 + unat x) mod 256" "unat y = (be_val ys * 256 + unat y) mod 256" using u by simp_all
  then have "unat x = unat y" using e by metis
  then show ?case using e 4(1,2) by (simp add: word_unat_eq_iff)
qed simp_all

lemma digits_2: "[of_nat (n div 256), of_nat n] = map (\<lambda>k. of_nat (n div 256 ^ k) :: u8) (rev [0..<2])"
  by (simp add: numeral_2_eq_2)

lemma digits_8: "map (\<lambda>k. of_nat (n div 256 ^ k)) [7, 6, 5, 4, 3, 2, 1, 0] = map (\<lambda>k. of_nat (n div 256 ^ k) :: u8) (rev [0..<8])"
proof -
  have "rev [0..<8] = [7, 6, 5, 4, 3, 2, 1, 0::nat]" by code_simp
  then show ?thesis by (simp only:)
qed

lemma len_bytes_val:
  assumes "n < 2 ^ 64"
  shows "len_bytes n = of_nat (if n < 126 then n else if n < 2 ^ 16 then 126 else 127) # tl (len_bytes n)"
    "n \<ge> 126 \<Longrightarrow> be_val (tl (len_bytes n)) = n"
    "length (tl (len_bytes n)) = (if n < 126 then 0 else if n < 2 ^ 16 then 2 else 8)"
proof -
  have p: "(2 :: nat) ^ 64 = 256 ^ 8" "(2 :: nat) ^ 16 = 256 ^ 2" by simp_all
  show "len_bytes n = of_nat (if n < 126 then n else if n < 2 ^ 16 then 126 else 127) # tl (len_bytes n)"
    by (simp add: len_bytes_def)
  show "length (tl (len_bytes n)) = (if n < 126 then 0 else if n < 2 ^ 16 then 2 else 8)"
    by (simp add: len_bytes_def)
  have "be_val (map (\<lambda>k. of_nat (n div 256 ^ k) :: u8) (rev [0..<8])) = n"
    using assms unfolding be_val_digits p(1) by (rule mod_less)
  moreover have "be_val (map (\<lambda>k. of_nat (n div 256 ^ k) :: u8) (rev [0..<2])) = n" if "n < 2 ^ 16"
    using that unfolding be_val_digits p(2) by (rule mod_less)
  ultimately show "n \<ge> 126 \<Longrightarrow> be_val (tl (len_bytes n)) = n"
    unfolding len_bytes_def digits_2 digits_8 by (simp del: upt_rec_numeral)
qed

section \<open>Frames\<close>

lemma start_byte:
  assumes "op \<in> opcodes"
  shows "unat (word_of_int ((if fin then 128 else 0) + op) :: u8) = (if fin then 128 else 0) + nat op"
  using assms by (auto simp: opcodes_def)

lemma start_op:
  fixes fin :: bool
  assumes "op \<in> opcodes"
  defines "b \<equiv> (if fin then 128 else 0) + nat op"
  shows "b div 16 mod 8 = 0" "b mod 16 = nat op" "nat op \<in> {0, 1, 2, 8, 9, 10}" "(128 \<le> b) = fin" "(b < 128) = (\<not> fin)"
    "int (nat op) = op" "8 \<le> nat op \<longleftrightarrow> 8 \<le> op"
  using assms(1) by (auto simp: b_def opcodes_def)

theorem parse_client_frame:
  assumes "op \<in> opcodes" "length key = 4" "length p \<le> 65536" "8 \<le> op \<Longrightarrow> fin \<and> length p \<le> 125"
  shows "parse_frame (client_frame fin op key p @ rest) = Frame fin op p rest"
proof -
  let ?n = "length p"
  let ?b0 = "(if fin then 128 else 0) + nat op"
  define l7 :: nat where "l7 = (if ?n < 126 then ?n else if ?n < 2 ^ 16 then 126 else 127)"
  define t where "t = tl (len_bytes ?n)"
  have n: "?n < 2 ^ 64" using assms(3) by simp
  have l: "len_bytes ?n = of_nat l7 # t" using len_bytes_val(1) [OF n] by (simp only: l7_def t_def)
  have l7: "l7 < 128" "unat (of_nat l7 + 128 :: u8) = l7 + 128" by (auto simp: l7_def unat_word_ariths unat_of_nat)
  have t: "length t = ext_len l7" "ext_len l7 \<noteq> 0 \<Longrightarrow> be_val t = ?n" "ext_len l7 = 0 \<Longrightarrow> l7 = ?n"
    using len_bytes_val(2,3) [OF n] by (auto simp: l7_def t_def ext_len_def split: if_splits)
  have e: "\<not> bad_length (ext_len l7) ?n" using assms(3) by (auto simp: bad_length_def l7_def ext_len_def)
  define bs where "bs = client_frame fin op key p @ rest"
  have bs: "bs = word_of_int ((if fin then 128 else 0) + op) # (of_nat l7 + 128) # t @ key @ masked_with key p @ rest"
    by (simp add: bs_def client_frame_def l Let_def)
  have b: "unat (bs ! 0) = ?b0" "unat (bs ! 1) = l7 + 128" "drop 2 bs = t @ key @ masked_with key p @ rest" "2 \<le> length bs"
    using start_byte [OF assms(1), of fin] l7(2) by (simp_all add: bs)
  have m: "(l7 + 128) mod 128 = l7" using l7(1) by simp
  have d: "drop (2 + ext_len l7) bs = key @ masked_with key p @ rest"
    using b(3) t(1) by (metis add.commute drop_drop append_eq_conv_conj)
  have v: "(if ext_len l7 = 0 then l7 else be_val (take (ext_len l7) (drop 2 bs))) = ?n"
    unfolding b(3) using t by auto
  have c: "(length (drop 2 bs) < ext_len l7) = False" "bad_start bs = False"
      "(8 \<le> nat op \<and> (?b0 < 128 \<or> 125 < ?n)) = False" "(65536 < ?n) = False" "bad_length (ext_len l7) ?n = False"
    using t(1) b(1,2) start_op(1,2) [OF assms(1), of fin] start_op(3) [OF assms(1)] assms(3,4) e
      start_op(5) [OF assms(1), of fin] start_op(7) [OF assms(1)] by (auto simp: b(3) bad_start_def)
  have "parse_frame bs = Frame fin op (masked_with key (masked_with key p)) rest"
    unfolding parse_frame_alt [OF b(4)] b(1,2) Let_def m v d c
      start_op(2) [OF assms(1)] start_op(4) [OF assms(1)] start_op(6) [OF assms(1)]
    using assms(2) by simp
  then show ?thesis by (simp add: bs_def masked_twice)
qed

text \<open>Nothing but a client frame parses.\<close>

lemma accepted_length:
  assumes "l7 < 128" "\<not> bad_length (ext_len l7) v" "length t = ext_len l7" "v = (if ext_len l7 = 0 then l7 else be_val t)" "v \<le> 65536"
  shows "len_bytes v = of_nat l7 # t"
proof -
  have v: "v < 2 ^ 64" using assms(5) by simp
  have b: "be_val t < 256 ^ ext_len l7" using be_val_less [of t] assms(3) by simp
  have h: "(if v < 126 then v else if v < 2 ^ 16 then 126 else 127) = l7" "(if v < 126 then 0 else if v < 2 ^ 16 then 2 else 8) = ext_len l7"
    using assms(1,2,4) b by (cases l7 rule: ext_len_cases; simp add: bad_length_def; fail)+
  have l: "length (tl (len_bytes v)) = length t" unfolding len_bytes_val(3) [OF v] h(2) assms(3) ..
  have "tl (len_bytes v) = t"
  proof (cases "ext_len l7 = 0")
    case False
    then have "v = be_val t" "126 \<le> v" using assms(1,2,4) by (cases l7 rule: ext_len_cases; simp add: bad_length_def)+
    then show ?thesis using len_bytes_val(2) [OF v] by (intro be_val_inj [OF l]) simp
  qed (use l assms(3) in \<open>simp del: length_tl\<close>)
  with len_bytes_val(1) [OF v, unfolded h(1)] show ?thesis by (simp only:)
qed

lemma byte_split: "b < 256 \<Longrightarrow> b div 16 mod 8 = 0 \<Longrightarrow> b = (if 128 \<le> b then 128 else 0) + b mod (16 :: nat)"
proof -
  assume b: "b < 256" "b div 16 mod 8 = 0"
  define d where "d = b div 16"
  have "d < 16" using b(1) by (simp add: d_def div_less_iff_less_mult)
  moreover have "d = 8 * (d div 8)" using b(2) by (simp add: d_def [symmetric] mod_eq_0_iff_dvd)
  moreover from \<open>d < 16\<close> have "d div 8 < 2" by (simp add: div_less_iff_less_mult)
  then have "d div 8 = 0 \<or> d div 8 = 1" by (simp add: less_2_cases_iff)
  ultimately have "d = 0 \<or> d = 8" by auto
  moreover have "b = 16 * d + b mod 16" by (simp add: d_def)
  moreover have "b mod 16 < 16" by simp
  ultimately show ?thesis by auto
qed

lemma high_byte: "b < 256 \<Longrightarrow> 128 \<le> b \<Longrightarrow> b = b mod 128 + (128 :: nat)"
  by (simp add: le_mod_geq)

lemma first_two: "2 \<le> length bs \<Longrightarrow> bs = bs ! 0 # bs ! 1 # drop 2 bs"
  by (cases bs rule: list.exhaust [case_product list.exhaust [of "tl bs"]]) (auto simp: Suc_le_eq)

theorem parse_frame_client:
  assumes "parse_frame bs = Frame fin op p rest"
  obtains key where "length key = 4" "op \<in> opcodes" "length p \<le> 65536" "8 \<le> op \<Longrightarrow> fin \<and> length p \<le> 125"
    "bs = client_frame fin op key p @ rest"
proof -
  have two: "2 \<le> length bs" using assms by (auto simp: parse_frame_def split: if_splits)
  define l7 where "l7 = unat (bs ! 1) mod 128"
  define v where "v = (if ext_len l7 = 0 then l7 else be_val (take (ext_len l7) (drop 2 bs)))"
  define r where "r = drop (2 + ext_len l7) bs"
  define k where "k = unat (bs ! 0) mod 16"
  have P: "\<not> bad_start bs" "\<not> length (drop 2 bs) < ext_len l7" "\<not> bad_length (ext_len l7) v"
    "\<not> (8 \<le> k \<and> (unat (bs ! 0) < 128 \<or> 125 < v))" "\<not> 65536 < v" "\<not> length r < 4 + v"
    "fin = (128 \<le> unat (bs ! 0))" "op = int k"
    "p = masked_with (take 4 r) (take v (drop 4 r))" "rest = drop (4 + v) r"
    using assms unfolding parse_frame_alt [OF two] Let_def l7_def [symmetric] v_def [symmetric] r_def [symmetric] k_def [symmetric]
    by (simp_all split: if_splits)
  have lp: "length p = v" "length (take 4 r) = 4" using P(6,9) by simp_all
  have m: "masked_with (take 4 r) p = take v (drop 4 r)" unfolding P(9) masked_twice ..
  have k: "k \<in> {0, 1, 2, 8, 9, 10}" "unat (bs ! 0) div 16 mod 8 = 0" "128 \<le> unat (bs ! 1)"
    using P(1) by (auto simp: bad_start_def k_def)
  have op: "op \<in> opcodes" using k(1) P(8) by (auto simp: opcodes_def)
  have u: "unat (bs ! 0) < 256" "unat (bs ! 1) < 256" using unsigned_less [of "bs ! 0"] unsigned_less [of "bs ! 1"] by simp_all
  have "unat (bs ! 0) = (if fin then 128 else 0) + nat op" using u(1) k(2) unfolding P(7,8) k_def nat_int by (rule byte_split)
  then have b0: "bs ! 0 = word_of_int ((if fin then 128 else 0) + op)"
    using start_byte [OF op, of fin] by (simp only: word_unat_eq_iff)
  have "unat (bs ! 1) = l7 + 128" "l7 < 128" using high_byte [OF u(2) k(3)] unfolding l7_def by simp_all
  then have b1: "bs ! 1 = of_nat l7 + 128" by (simp add: word_unat_eq_iff unat_word_ariths unat_of_nat)
  have L: "len_bytes v = of_nat l7 # take (ext_len l7) (drop 2 bs)"
    using P(2,3,5) \<open>l7 < 128\<close> by (intro accepted_length) (simp_all add: v_def)
  have d1: "drop 2 bs = take (ext_len l7) (drop 2 bs) @ r"
    unfolding r_def by (metis append_take_drop_id drop_drop add.commute)
  have d2: "r = take 4 r @ take v (drop 4 r) @ drop (4 + v) r" by (metis append_take_drop_id drop_drop add.commute)
  have d: "drop 2 bs = take (ext_len l7) (drop 2 bs) @ take 4 r @ take v (drop 4 r) @ drop (4 + v) r"
    using d1 unfolding d2 [symmetric] .
  have "bs = client_frame fin op (take 4 r) p @ rest"
    using first_two [OF two] unfolding client_frame_def lp(1) L Let_def m P(10) b0 b1 list.sel append_Cons append_assoc d [symmetric] .
  moreover have "8 \<le> op \<Longrightarrow> fin \<and> length p \<le> 125" using P(4) unfolding P(7,8) lp(1) by auto
  moreover have "length p \<le> 65536" using P(5) lp(1) by simp
  ultimately show thesis by (intro that [OF lp(2) op])
qed

section \<open>Any descriptor\<close>

context bounded_stream begin

lemma recv_frame_safe:
  assumes "good s" "carry_ok c" "cn_fd c = fd" "length payload = MAX_PAYLOAD"
  shows "\<exists>rc h p k s'. recv_frame N c hdr payload s = Some (rc, h, p, c\<lparr>cn_off := k\<rparr>, s') \<and> good s' \<and>
    length p = MAX_PAYLOAD \<and> rc \<in> {- 1, 0, 1, 1002, 1009} \<and> (rc = 1 \<longrightarrow> fh_opcode h \<in> opcodes \<and> fh_len h \<le> MAX_PAYLOAD)"
proof -
  obtain rc b k1 s1 where r1: "conn_read_exact N c (replicate 2 0) 2 s = Some (rc, b, c\<lparr>cn_off := k1\<rparr>, s1)" "good s1" "rc \<in> {- 1, 0, 1}"
    using conn_read_exact_safe [OF assms(1-3), of 2 "replicate 2 0"] by auto
  show ?thesis
  proof (cases "rc = 1")
    case False
    then have "recv_frame N c hdr payload s = Some (rc, hdr, payload, c\<lparr>cn_off := k1\<rparr>, s1)"
      using r1(3) unfolding recv_frame_def r1(1) by auto
    then show ?thesis using False r1 assms(4) by auto
  next
    case True
    let ?c1 = "c\<lparr>cn_off := k1\<rparr>"
    define h where "h = hdr\<lparr>fh_fin := uint (b ! 0 AND 0x80), fh_opcode := int (unat (b ! 0) mod 16)\<rparr>"
    note R = recv_frame_alt [OF r1(1) [unfolded True], of hdr payload, unfolded Let_def h_def [symmetric]]
    obtain rc2 n k2 s2 where L: "recv_length N ?c1 (ucast (b ! 1 AND 0x7F)) s1 = Some (rc2, n, c\<lparr>cn_off := k2\<rparr>, s2)" "good s2"
      "rc2 \<in> {- 1, 1, 1002}" using recv_length_safe [OF r1(2), of ?c1 "ucast (b ! 1 AND 0x7F)"] assms(2,3) by auto
    show ?thesis
    proof (cases "\<not> bad_start b \<and> rc2 = 1 \<and> \<not> (8 \<le> unat (b ! 0) mod 16 \<and> (unat (b ! 0) < 128 \<or> 125 < unat n)) \<and> unat n \<le> 65536")
      case ok: True
      have op: "fh_opcode h \<in> opcodes" using ok by (auto simp: h_def bad_start_def opcodes_def)
      obtain rc3 h3 p k3 s3 where Q: "recv_payload N (c\<lparr>cn_off := k2\<rparr>) h n payload s2 = Some (rc3, h3, p, c\<lparr>cn_off := k3\<rparr>, s3)" "good s3"
        "length p = MAX_PAYLOAD" "rc3 \<in> {- 1, 1}" "fh_opcode h3 = fh_opcode h" "rc3 = 1 \<Longrightarrow> fh_len h3 = unat n"
        using recv_payload_safe [OF L(2), of "c\<lparr>cn_off := k2\<rparr>" payload n h] assms(2-4) ok by auto
      have "recv_frame N c hdr payload s = Some (rc3, h3, p, c\<lparr>cn_off := k3\<rparr>, s3)" unfolding R L(1) using ok Q(1) by auto
      then show ?thesis using Q op ok by (auto simp: MAX_PAYLOAD_def)
    next
      case False
      then obtain rc' k' s' where "recv_frame N c hdr payload s = Some (rc', h, payload, c\<lparr>cn_off := k'\<rparr>, s')" "good s'"
        "rc' \<in> {- 1, 1002, 1009}"
      proof (cases "bad_start b")
        case f: False
        have "recv_frame N c hdr payload s = Some (if rc2 \<noteq> 1 then rc2
           else if 8 \<le> unat (b ! 0) mod 16 \<and> (unat (b ! 0) < 128 \<or> 125 < unat n) then 1002 else 1009, h, payload, c\<lparr>cn_off := k2\<rparr>, s2)"
          using f False unfolding R L(1) by auto
        then show thesis using L(2,3) that by (auto split: if_splits)
      qed (use R r1(2) in \<open>auto intro: that\<close>)
      then show ?thesis using assms(4) by (intro exI [of _ rc'] exI [of _ h] exI [of _ payload] exI [of _ k'] exI [of _ s']) auto
    qed
  qed
qed

end

end
