(* ===== verification/Ws_Echo.thy ===== *)
theory Ws_Echo
  imports Ws_Codec
begin

text \<open>
  The loop of a connection in \<^verbatim>\<open>examples/ws_echo/ws_echo.c\<close>: \<^verbatim>\<open>on_data_frame\<close> and the \<^verbatim>\<open>for\<close> loop of
  \<^verbatim>\<open>conn_fiber\<close>, one round as \<open>conn_step\<close>. The reference is \<open>echo\<close>, a function from the bytes a client sends to the
  bytes it is answered; on a stream that works the loop ends and has written exactly those.
\<close>

section \<open>The code\<close>

definition on_data_frame :: "'s net \<Rightarrow> conn \<Rightarrow> frame_hdr \<Rightarrow> u8 list \<Rightarrow> 's \<Rightarrow> (int \<times> conn \<times> 's) option" where
  "on_data_frame N c h payload s =
     (if fh_opcode h = OP_CONT \<and> cn_msg_op c < 0 then Some (CLOSE_PROTOCOL, c, s)
      else if fh_opcode h \<noteq> OP_CONT \<and> cn_msg_op c \<ge> 0 then Some (CLOSE_PROTOCOL, c, s)
      else if fh_opcode h \<noteq> OP_CONT \<and> fh_fin h \<noteq> 0 then do {
        (r, s) \<leftarrow> send_frame N (cn_fd c) (fh_opcode h) payload (fh_len h) s;
        Some (if r < 0 then - 1 else 0, c, s)
      }
      else
        let c = (if fh_opcode h \<noteq> OP_CONT then c\<lparr>cn_msg_op := fh_opcode h, cn_msg_len := 0\<rparr> else c) in
        if (of_nat (fh_len h) :: u64) > of_nat MAX_PAYLOAD - of_nat (cn_msg_len c) then Some (CLOSE_TOO_BIG, c, s)
        else do {
          bs \<leftarrow> buf_get 0 (fh_len h) payload;
          m \<leftarrow> buf_put (cn_msg_len c) bs (cn_msg c);
          let c = c\<lparr>cn_msg := m, cn_msg_len := cn_msg_len c + fh_len h\<rparr>;
          if fh_fin h = 0 then Some (0, c, s)
          else
            let op = cn_msg_op c; c = c\<lparr>cn_msg_op := - 1\<rparr> in do {
              (r, s) \<leftarrow> send_frame N (cn_fd c) op (cn_msg c) (cn_msg_len c) s;
              Some (if r < 0 then - 1 else 0, c, s)
            }
        })"

text \<open>One round of the loop, what it does with a frame, and whether there is another.\<close>

definition conn_act ::
  "'s net \<Rightarrow> int \<Rightarrow> frame_hdr \<Rightarrow> u8 list \<Rightarrow> conn \<Rightarrow> 's \<Rightarrow> (bool \<times> u8 list \<times> conn \<times> 's) option" where
  "conn_act N rc h payload c s =
     (if rc \<le> 0 then Some (False, payload, c, s)
     else if rc > 1 then do { (r, s) \<leftarrow> send_close N (cn_fd c) rc s; Some (False, payload, c, s) }
     else if fh_opcode h = OP_CLOSE then do {
       (r, s) \<leftarrow> send_frame N (cn_fd c) OP_CLOSE payload (fh_len h) s;
       Some (False, payload, c, s)
     }
     else if fh_opcode h = OP_PING then do {
       (r, s) \<leftarrow> send_frame N (cn_fd c) OP_PONG payload (fh_len h) s;
       Some (\<not> r < 0, payload, c, s)
     }
     else if fh_opcode h = OP_PONG then Some (True, payload, c, s)
     else do {
       (rc, c, s) \<leftarrow> on_data_frame N c h payload s;
       if rc < 0 then Some (False, payload, c, s)
       else if rc > 0 then do { (r, s) \<leftarrow> send_close N (cn_fd c) rc s; Some (False, payload, c, s) }
       else Some (True, payload, c, s)
     })"

definition conn_step :: "'s net \<Rightarrow> conn \<Rightarrow> u8 list \<Rightarrow> 's \<Rightarrow> (bool \<times> u8 list \<times> conn \<times> 's) option" where
  "conn_step N c payload s = do {
     (rc, h, payload, c, s) \<leftarrow> recv_frame N c \<lparr>fh_fin = 0, fh_opcode = 0, fh_len = 0\<rparr> payload s;
     conn_act N rc h payload c s
   }"

partial_function (option) conn_loop :: "'s net \<Rightarrow> conn \<Rightarrow> u8 list \<Rightarrow> 's \<Rightarrow> (u8 list \<times> conn \<times> 's) option" where
  "conn_loop N c payload s =
     Option.bind (conn_step N c payload s) (\<lambda>(go, payload, c, s).
       if go then conn_loop N c payload s else Some (payload, c, s))"

section \<open>The reference\<close>

type_synonym message = "(int \<times> u8 list) option"

definition close_body :: "int \<Rightarrow> u8 list" where
  "close_body code = [of_nat (nat code div 256), of_nat (nat code)]"

text \<open>A data frame on the message being assembled: the code it is refused with, or the message after it and the
  answer.\<close>

definition on_data :: "message \<Rightarrow> bool \<Rightarrow> int \<Rightarrow> u8 list \<Rightarrow> int + message \<times> u8 list" where
  "on_data m fin op p =
     (case m of
        None \<Rightarrow>
          if op = 0 then Inl 1002
          else if fin then Inr (None, server_frame op p)
          else Inr (Some (op, p), [])
      | Some (mop, acc) \<Rightarrow>
          if op \<noteq> 0 then Inl 1002
          else if 65536 < length acc + length p then Inl 1009
          else if fin then Inr (None, server_frame mop (acc @ p))
          else Inr (Some (mop, acc @ p), []))"

lemma parse_shrinks: "parse_frame bs = Frame fin op p rest \<Longrightarrow> length rest < length bs"
  by (erule parse_frame_client) (simp add: client_frame_def Let_def)

function echo :: "message \<Rightarrow> u8 list \<Rightarrow> u8 list" where
  "echo m bs =
     (case parse_frame bs of
        Eof \<Rightarrow> []
      | Cut \<Rightarrow> []
      | Bad code \<Rightarrow> server_frame 8 (close_body code)
      | Frame fin op p rest \<Rightarrow>
          if op = 8 then server_frame 8 p
          else if op = 9 then server_frame 10 p @ echo m rest
          else if op = 10 then echo m rest
          else
            (case on_data m fin op p of
               Inl code \<Rightarrow> server_frame 8 (close_body code)
             | Inr (m', reply) \<Rightarrow> reply @ echo m' rest))"
  by pat_completeness auto
termination by (relation "measure (\<lambda>(m, bs). length bs)") (simp_all only: wf_measure in_measure prod.case parse_shrinks)

declare echo.simps [simp del]

section \<open>Safe on any descriptor\<close>

definition conn_safe :: "int \<Rightarrow> conn \<Rightarrow> bool" where
  "conn_safe fd c \<longleftrightarrow> carry_ok c \<and> cn_fd c = fd \<and> length (cn_msg c) = MAX_PAYLOAD \<and> cn_msg_len c \<le> MAX_PAYLOAD \<and>
     cn_msg_op c \<in> {- 1, 1, 2}"

lemma conn_safe_off [simp]: "conn_safe fd (c\<lparr>cn_off := k\<rparr>) = conn_safe fd c"
  by (simp add: conn_safe_def carry_ok_def)

lemma room:
  assumes "len \<le> MAX_PAYLOAD" "used \<le> MAX_PAYLOAD"
  shows "(of_nat MAX_PAYLOAD - of_nat used :: u64) < of_nat len \<longleftrightarrow> MAX_PAYLOAD < used + len"
proof -
  have u: "unat (of_nat k :: u64) = k" if "k \<le> MAX_PAYLOAD" for k
    using that by (intro unat_of_nat_small) (simp add: MAX_PAYLOAD_def)
  have "(of_nat used :: u64) \<le> of_nat MAX_PAYLOAD" using assms(2) u by (simp add: word_le_nat_alt)
  then show ?thesis using assms u by (simp add: word_less_nat_alt unat_sub) arith
qed

text \<open>A data frame where it is allowed.\<close>

lemma on_data_frame_fragment:
  assumes "length payload = MAX_PAYLOAD" "fh_len h \<le> MAX_PAYLOAD" "conn_safe fd c"
    "fh_opcode h = OP_CONT \<and> 0 \<le> cn_msg_op c \<or> fh_opcode h \<noteq> OP_CONT \<and> cn_msg_op c < 0 \<and> fh_fin h = 0"
    "c' = (if fh_opcode h \<noteq> OP_CONT then c\<lparr>cn_msg_op := fh_opcode h, cn_msg_len := 0\<rparr> else c)"
    "m = take (cn_msg_len c') (cn_msg c) @ take (fh_len h) payload @ drop (cn_msg_len c' + fh_len h) (cn_msg c)"
    "c'' = c'\<lparr>cn_msg := m, cn_msg_len := cn_msg_len c' + fh_len h\<rparr>"
  shows "on_data_frame N c h payload s =
     (if MAX_PAYLOAD < cn_msg_len c' + fh_len h then Some (CLOSE_TOO_BIG, c', s)
      else if fh_fin h = 0 then Some (0, c'', s)
      else map_option (\<lambda>(r, s). (if r < 0 then - 1 else 0, c''\<lparr>cn_msg_op := - 1\<rparr>, s))
        (send_frame N fd (cn_msg_op c') m (cn_msg_len c'') s))"
proof -
  have c': "cn_msg_len c' \<le> MAX_PAYLOAD" "cn_msg c' = cn_msg c" "length (cn_msg c) = MAX_PAYLOAD" "cn_fd c' = fd"
    using assms(3,5) by (simp_all add: conn_safe_def)
  have g: "buf_get 0 (fh_len h) payload = Some (take (fh_len h) payload)" using assms(1,2) by (simp add: buf_get_def)
  have p: "buf_put (cn_msg_len c') (take (fh_len h) payload) (cn_msg c) = Some m" if "\<not> MAX_PAYLOAD < cn_msg_len c' + fh_len h"
    using that c'(3) assms(1,2,6) by (subst buf_put_ok) simp_all
  have d: "\<not> (fh_opcode h = OP_CONT \<and> cn_msg_op c < 0)" "\<not> (fh_opcode h \<noteq> OP_CONT \<and> cn_msg_op c \<ge> 0)"
    "\<not> (fh_opcode h \<noteq> OP_CONT \<and> fh_fin h \<noteq> 0)" using assms(4) by auto
  show ?thesis
    unfolding on_data_frame_def if_not_P [OF d(1)] if_not_P [OF d(2)] if_not_P [OF d(3)] assms(5) [symmetric] Let_def room [OF assms(2) c'(1)] g
    using p c' assms(7) by (auto simp: map_conv_bind_option split_def comp_def)
qed

lemma opcode_kinds: "op \<in> opcodes \<Longrightarrow> op \<in> {0, 1, 2} \<or> op = 8 \<or> op = 9 \<or> op = 10"
  by (auto simp: opcodes_def)

lemma data_opcodes: "op \<in> {1, 2} \<Longrightarrow> op \<in> opcodes" "op \<in> {0, 1, 2} \<Longrightarrow> op \<in> opcodes" "OP_CLOSE \<in> opcodes" "OP_PONG \<in> opcodes"
  by (auto simp: opcodes_def ws_codes)

context bounded_stream begin

lemma on_data_frame_safe:
  assumes "good s" "conn_safe fd c" "length payload = MAX_PAYLOAD" "fh_len h \<le> MAX_PAYLOAD" "fh_opcode h \<in> {0, 1, 2}"
  shows "\<exists>rc c' s'. on_data_frame N c h payload s = Some (rc, c', s') \<and> good s' \<and> conn_safe fd c' \<and> rc \<in> {- 1, 0, 1002, 1009}"
proof -
  have len: "fh_len h \<le> length payload" "fh_len h \<le> 65536" and f: "cn_fd c = fd" using assms(2-4) by (simp_all add: MAX_PAYLOAD_def conn_safe_def)
  consider (refused) "fh_opcode h = OP_CONT \<and> cn_msg_op c < 0 \<or> fh_opcode h \<noteq> OP_CONT \<and> cn_msg_op c \<ge> 0"
    | (whole) "fh_opcode h \<noteq> OP_CONT" "cn_msg_op c < 0" "fh_fin h \<noteq> 0"
    | (part) "fh_opcode h = OP_CONT \<and> 0 \<le> cn_msg_op c \<or> fh_opcode h \<noteq> OP_CONT \<and> cn_msg_op c < 0 \<and> fh_fin h = 0" by linarith
  then show ?thesis
  proof cases
    case refused
    then show ?thesis using assms(1,2) by (auto simp: on_data_frame_def CLOSE_PROTOCOL_def)
  next
    case whole
    obtain r s' where "send_frame N fd (fh_opcode h) payload (fh_len h) s = Some (r, s')" "good s'"
      using send_frame_safe [OF assms(1) data_opcodes(2) [OF assms(5)] len] by auto
    then show ?thesis using whole assms(2) f by (auto simp: on_data_frame_def)
  next
    case part
    define c' where "c' = (if fh_opcode h \<noteq> OP_CONT then c\<lparr>cn_msg_op := fh_opcode h, cn_msg_len := 0\<rparr> else c)"
    define m where "m = take (cn_msg_len c') (cn_msg c) @ take (fh_len h) payload @ drop (cn_msg_len c' + fh_len h) (cn_msg c)"
    define c'' where "c'' = c'\<lparr>cn_msg := m, cn_msg_len := cn_msg_len c' + fh_len h\<rparr>"
    note E = on_data_frame_fragment [OF assms(3,4,2) part c'_def m_def c''_def, of N s]
    have c': "conn_safe fd c'" "cn_msg_op c' \<in> {1, 2}"
      using assms(2,5) part by (auto simp: c'_def conn_safe_def OP_CONT_def carry_ok_def)
    show ?thesis
    proof (cases "MAX_PAYLOAD < cn_msg_len c' + fh_len h")
      case True
      then show ?thesis using E c'(1) assms(1) by (auto simp: CLOSE_TOO_BIG_def)
    next
      case False
      have m: "length m = MAX_PAYLOAD" using False assms(2,3) by (simp add: m_def conn_safe_def)
      have c'': "conn_safe fd c''" "conn_safe fd (c''\<lparr>cn_msg_op := - 1\<rparr>)"
        using c'(1) False m by (simp_all add: c''_def conn_safe_def carry_ok_def)
      have l: "cn_msg_len c'' \<le> length m" "cn_msg_len c'' \<le> 65536" using False m by (simp_all add: c''_def MAX_PAYLOAD_def)
      obtain r s' where "send_frame N fd (cn_msg_op c') m (cn_msg_len c'') s = Some (r, s')" "good s'"
        using send_frame_safe [OF assms(1) data_opcodes(1) [OF c'(2)] l] by auto
      then show ?thesis using E False c'' assms(1) by auto
    qed
  qed
qed

lemma conn_act_safe:
  assumes "good s" "conn_safe fd c" "length payload = MAX_PAYLOAD" "rc \<in> {- 1, 0, 1, 1002, 1009}"
    "rc = 1 \<Longrightarrow> fh_opcode h \<in> opcodes \<and> fh_len h \<le> MAX_PAYLOAD"
  shows "\<exists>go c' s'. conn_act N rc h payload c s = Some (go, payload, c', s') \<and> good s' \<and> conn_safe fd c'"
proof (cases "rc = 1")
  case False
  have "cn_fd c = fd" using assms(2) by (simp add: conn_safe_def)
  then show ?thesis using False assms(1,2,4) send_close_safe [OF assms(1), of rc] by (auto simp: conn_act_def)
next
  case True
  then have h: "fh_opcode h \<in> opcodes" "fh_len h \<le> length payload" "fh_len h \<le> 65536" using assms(3,5) by (simp_all add: MAX_PAYLOAD_def)
  have f: "cn_fd c = fd" using assms(2) by (simp add: conn_safe_def)
  from opcode_kinds [OF h(1)] consider (data) "fh_opcode h \<in> {0, 1, 2}" | (ctl) "fh_opcode h = 8 \<or> fh_opcode h = 9 \<or> fh_opcode h = 10" by auto
  then show ?thesis
  proof cases
    case data
    obtain rc' c' s' where D: "on_data_frame N c h payload s = Some (rc', c', s')" "good s'" "conn_safe fd c'"
      using on_data_frame_safe [OF assms(1-3) _ data] h(3) by (auto simp: MAX_PAYLOAD_def)
    moreover have "cn_fd c' = fd" using D(3) by (simp add: conn_safe_def)
    ultimately show ?thesis using data True send_close_safe [OF D(2), of rc'] by (auto simp: conn_act_def ws_codes)
  next
    case ctl
    then show ?thesis using True assms(1,2) f send_frame_safe [OF assms(1) data_opcodes(3) h(2,3)]
        send_frame_safe [OF assms(1) data_opcodes(4) h(2,3)] by (auto simp: conn_act_def ws_codes)
  qed
qed

lemma conn_step_safe:
  assumes "good s" "conn_safe fd c" "length payload = MAX_PAYLOAD"
  shows "\<exists>go p c' s'. conn_step N c payload s = Some (go, p, c', s') \<and> good s' \<and> conn_safe fd c' \<and> length p = MAX_PAYLOAD"
proof -
  obtain rc h p k s' where R: "recv_frame N c \<lparr>fh_fin = 0, fh_opcode = 0, fh_len = 0\<rparr> payload s = Some (rc, h, p, c\<lparr>cn_off := k\<rparr>, s')"
    "good s'" "length p = MAX_PAYLOAD" "rc \<in> {- 1, 0, 1, 1002, 1009}" "rc = 1 \<Longrightarrow> fh_opcode h \<in> opcodes \<and> fh_len h \<le> MAX_PAYLOAD"
    using recv_frame_safe [OF assms(1) _ _ assms(3)] assms(2) unfolding conn_safe_def by metis
  then show ?thesis using conn_act_safe [OF R(2), of "c\<lparr>cn_off := k\<rparr>" p rc h] assms(2) by (auto simp: conn_step_def)
qed

end

section \<open>On a stream that works\<close>

text \<open>The message a connection is assembling.\<close>

definition msg_as :: "message \<Rightarrow> conn \<Rightarrow> bool" where
  "msg_as m c \<longleftrightarrow>
     (case m of
        None \<Rightarrow> cn_msg_op c = - 1
      | Some (op, acc) \<Rightarrow> op \<in> {1, 2} \<and> cn_msg_op c = op \<and> cn_msg_len c = length acc \<and> take (length acc) (cn_msg c) = acc)"

lemma msg_as_off [simp]: "msg_as m (c\<lparr>cn_off := k\<rparr>) = msg_as m c"
  by (simp add: msg_as_def split: option.splits)

lemma msg_room:
  assumes "msg_as m c" "conn_safe fd c"
  shows "case m of None \<Rightarrow> True | Some (op, acc) \<Rightarrow> length acc \<le> 65536"
  using assms by (auto simp: msg_as_def conn_safe_def MAX_PAYLOAD_def split: option.splits)

text \<open>The message after a fragment \<open>p\<close>, on which \<open>on_data\<close> and the code agree.\<close>

definition grown :: "message \<Rightarrow> int \<Rightarrow> u8 list \<Rightarrow> int \<times> u8 list" where
  "grown m op p = (case m of None \<Rightarrow> (op, p) | Some (mop, acc) \<Rightarrow> (mop, acc @ p))"

lemma on_data_cases:
  assumes "length p \<le> 65536"
  obtains (refused) "(op = 0) = (m = None)" "on_data m fin op p = Inl 1002"
    | (whole) "op \<noteq> 0" "m = None" "fin" "on_data m fin op p = Inr (None, server_frame op p)"
    | (big) "(op = 0) = (m \<noteq> None)" "op \<noteq> 0 \<longrightarrow> \<not> fin" "65536 < length (snd (grown m op p))" "on_data m fin op p = Inl 1009"
    | (part) "(op = 0) = (m \<noteq> None)" "\<not> fin" "length (snd (grown m op p)) \<le> 65536" "on_data m fin op p = Inr (Some (grown m op p), [])"
    | (last) "op = 0" "m \<noteq> None" "fin" "length (snd (grown m op p)) \<le> 65536"
        "on_data m fin op p = Inr (None, server_frame (fst (grown m op p)) (snd (grown m op p)))"
proof -
  have E: "on_data m fin op p = (if (op = 0) = (m = None) then Inl 1002
      else if op \<noteq> 0 \<and> fin then Inr (None, server_frame op p)
      else if 65536 < length (snd (grown m op p)) then Inl 1009
      else if fin then Inr (None, server_frame (fst (grown m op p)) (snd (grown m op p)))
      else Inr (Some (grown m op p), []))"
    using assms by (cases m; cases "op = 0"; cases fin) (simp_all add: on_data_def grown_def split_beta)
  consider "(op = 0) = (m = None)" | "op \<noteq> 0" "m = None" fin | "(op = 0) = (m \<noteq> None)" "op \<noteq> 0 \<longrightarrow> \<not> fin" by blast
  then show thesis
  proof cases
    case 1
    show thesis by (rule refused [OF 1], unfold E) (simp add: 1)
  next
    case 2
    show thesis by (rule whole [OF 2], unfold E) (simp add: 2)
  next
    case 3
    then have n: "((op = 0) = (m = None)) = False" "(op \<noteq> 0 \<and> fin) = False" by blast+
    note E = E [unfolded n if_False]
    show thesis
    proof (cases "65536 < length (snd (grown m op p))")
      case True
      show thesis by (rule big [OF 3 True], unfold E) (simp add: True)
    next
      case False
      then have l: "length (snd (grown m op p)) \<le> 65536" by simp
      show thesis
      proof (cases fin)
        case True
        then have z: "op = 0" "m \<noteq> None" using 3 by auto
        show thesis by (rule last [OF z True l], unfold E) (simp add: False True)
      next
        case f: False
        show thesis by (rule part [OF 3(1) f l], unfold E) (simp add: False f)
      qed
    qed
  qed
qed

text \<open>A fragment that fits is appended.\<close>

lemma on_data_frame_grows:
  assumes "conn_safe fd c" "msg_as m c"
    "fh_opcode h = OP_CONT \<and> 0 \<le> cn_msg_op c \<or> fh_opcode h \<noteq> OP_CONT \<and> cn_msg_op c < 0 \<and> fh_fin h = 0"
    "length payload = MAX_PAYLOAD" "take (fh_len h) payload = p" "fh_len h \<le> MAX_PAYLOAD" "fh_opcode h \<in> {0, 1, 2}"
  shows "length (snd (grown m (fh_opcode h) p)) \<le> 65536 \<Longrightarrow>
     \<exists>c''. on_data_frame N c h payload s =
       (if fh_fin h = 0 then Some (0, c'', s)
        else map_option (\<lambda>(r, s). (if r < 0 then - 1 else 0, c''\<lparr>cn_msg_op := - 1\<rparr>, s))
          (send_frame N fd (fst (grown m (fh_opcode h) p)) (cn_msg c'') (cn_msg_len c'') s)) \<and>
      conn_safe fd c'' \<and> msg_as (Some (grown m (fh_opcode h) p)) c'' \<and> carried c'' = carried c"
proof -
  assume small: "length (snd (grown m (fh_opcode h) p)) \<le> 65536"
  define c' where "c' = (if fh_opcode h \<noteq> OP_CONT then c\<lparr>cn_msg_op := fh_opcode h, cn_msg_len := 0\<rparr> else c)"
  define g where "g = take (cn_msg_len c') (cn_msg c) @ take (fh_len h) payload @ drop (cn_msg_len c' + fh_len h) (cn_msg c)"
  define c'' where "c'' = c'\<lparr>cn_msg := g, cn_msg_len := cn_msg_len c' + fh_len h\<rparr>"
  note E = on_data_frame_fragment [OF assms(4,6,1,3) c'_def g_def c''_def, of N s]
  have p: "length p = fh_len h" using assms(4-6) by auto
  have m: "cn_msg_op c' = fst (grown m (fh_opcode h) p)" "cn_msg_len c' + fh_len h = length (snd (grown m (fh_opcode h) p))"
    "fst (grown m (fh_opcode h) p) \<in> {1, 2}" "take (cn_msg_len c') (cn_msg c) @ p = snd (grown m (fh_opcode h) p)"
    using assms(2,3,7) p by (auto simp: c'_def grown_def msg_as_def OP_CONT_def split: option.splits)
  have c': "conn_safe fd c'" "cn_msg c' = cn_msg c" "carried c' = carried c"
    using assms(1,3,7) by (auto simp: c'_def conn_safe_def OP_CONT_def carry_ok_def carried_def)
  have l: "length g = MAX_PAYLOAD" "take (cn_msg_len c' + fh_len h) g = snd (grown m (fh_opcode h) p)"
    using c' small p assms(5) m(4) unfolding m(2) [symmetric] by (auto simp: g_def conn_safe_def MAX_PAYLOAD_def)
  have "conn_safe fd c''" "carried c'' = carried c" using c' l(1) small unfolding c''_def m(2)
    by (simp_all add: conn_safe_def carry_ok_def carried_def MAX_PAYLOAD_def)
  moreover have "msg_as (Some (grown m (fh_opcode h) p)) c''"
    using m(1,3) l(2) unfolding c''_def msg_as_def m(2) by (simp add: split_beta)
  moreover have "cn_msg c'' = g" by (simp add: c''_def)
  ultimately show ?thesis using E small unfolding m(1,2) by (intro exI [of _ c'']) (simp add: MAX_PAYLOAD_def)
qed

context byte_stream begin

text \<open>The two kinds of result: a code to close with, or an answer.\<close>

definition data_done :: "int + message \<times> u8 list \<Rightarrow> int \<Rightarrow> conn \<Rightarrow> 's \<Rightarrow> conn \<Rightarrow> 's \<Rightarrow> bool" where
  "data_done r rc c s c' s' \<longleftrightarrow>
     (case r of
        Inl code \<Rightarrow> rc = code \<and> out s' = out s
      | Inr (m', reply) \<Rightarrow> rc = 0 \<and> msg_as m' c' \<and> out s' = out s @ reply \<and> avail c' s' = avail c s)"

lemma on_data_frame_done:
  assumes "good s" "conn_safe fd c" "msg_as m c" "length payload = MAX_PAYLOAD" "take (fh_len h) payload = p" "fh_len h \<le> MAX_PAYLOAD"
    "fh_opcode h \<in> {0, 1, 2}"
  obtains rc c' s' where "on_data_frame N c h payload s = Some (rc, c', s')" "good s'" "conn_safe fd c'"
    "data_done (on_data m (fh_fin h \<noteq> 0) (fh_opcode h) p) rc c s c' s'"
proof -
  let ?op = "fh_opcode h"
  have p: "length p = fh_len h" "length p \<le> 65536" "fh_len h \<le> length payload" "fh_len h \<le> 65536"
    using assms(4-6) by (auto simp: MAX_PAYLOAD_def)
  have f: "cn_fd c = fd" using assms(2) by (simp add: conn_safe_def)
  have o: "(cn_msg_op c < 0) = (m = None)" using assms(3) by (auto simp: msg_as_def split: option.splits)
  show thesis
  proof (rule on_data_cases [OF p(2), of ?op m "fh_fin h \<noteq> 0"], goal_cases refused whole big part last)
    case refused
    then have "on_data_frame N c h payload s = Some (CLOSE_PROTOCOL, c, s)"
      using o by (auto simp: on_data_frame_def OP_CONT_def)
    then show thesis using refused assms(1,2) by (intro that [of CLOSE_PROTOCOL c s]) (auto simp: data_done_def CLOSE_PROTOCOL_def)
  next
    case whole
    obtain s' where S: "send_frame N fd ?op payload (fh_len h) s = Some (0, s')" "good s'" "inp s' = inp s"
      "out s' = out s @ server_frame ?op (take (fh_len h) payload)"
      by (rule send_frame_writes [OF assms(1) data_opcodes(2) [OF assms(7)] p(3,4)])
    have "on_data_frame N c h payload s = Some (0, c, s')" using whole o S(1) f by (auto simp: on_data_frame_def OP_CONT_def)
    then show thesis using whole S assms(2,3,5) by (intro that [of 0 c s']) (auto simp: data_done_def avail_def)
  next
    case big
    note rest = that
    have part: "fh_opcode h = OP_CONT \<and> 0 \<le> cn_msg_op c \<or> fh_opcode h \<noteq> OP_CONT \<and> cn_msg_op c < 0 \<and> fh_fin h = 0"
      using big o by (auto simp: OP_CONT_def)
    define c' where "c' = (if fh_opcode h \<noteq> OP_CONT then c\<lparr>cn_msg_op := fh_opcode h, cn_msg_len := 0\<rparr> else c)"
    have l: "cn_msg_len c' + fh_len h = length (snd (grown m ?op p))"
      using assms(3) big(1) p(1) by (auto simp: c'_def grown_def msg_as_def OP_CONT_def split: option.splits)
    have "on_data_frame N c h payload s = Some (CLOSE_TOO_BIG, c', s)"
      using on_data_frame_fragment [OF assms(4,6,2) part c'_def refl refl, of N s] big(3) unfolding l by (simp add: MAX_PAYLOAD_def)
    moreover have "conn_safe fd c'" using assms(2,7) big(1) by (auto simp: c'_def conn_safe_def OP_CONT_def carry_ok_def)
    ultimately show thesis using big assms(1) by (intro rest [of CLOSE_TOO_BIG c' s]) (auto simp: data_done_def CLOSE_TOO_BIG_def)
  next
    case part
    note rest = that
    have frag: "fh_opcode h = OP_CONT \<and> 0 \<le> cn_msg_op c \<or> fh_opcode h \<noteq> OP_CONT \<and> cn_msg_op c < 0 \<and> fh_fin h = 0"
      using part o by (auto simp: OP_CONT_def)
    obtain c'' where F: "on_data_frame N c h payload s = Some (0, c'', s)" "conn_safe fd c''" "msg_as (Some (grown m ?op p)) c''"
      "carried c'' = carried c"
      using on_data_frame_grows [OF assms(2,3) frag assms(4-7), of N s] part(2,3) by auto
    then show thesis using part assms(1) by (intro rest [of 0 c'' s]) (auto simp: data_done_def avail_def)
  next
    case last
    note rest = that
    have frag: "fh_opcode h = OP_CONT \<and> 0 \<le> cn_msg_op c \<or> fh_opcode h \<noteq> OP_CONT \<and> cn_msg_op c < 0 \<and> fh_fin h = 0"
      using last o by (auto simp: OP_CONT_def)
    obtain c'' where F: "on_data_frame N c h payload s = map_option (\<lambda>(r, s). (if r < 0 then - 1 else 0, c''\<lparr>cn_msg_op := - 1\<rparr>, s))
        (send_frame N fd (fst (grown m ?op p)) (cn_msg c'') (cn_msg_len c'') s)"
      "conn_safe fd c''" "msg_as (Some (grown m ?op p)) c''" "carried c'' = carried c"
      using on_data_frame_grows [OF assms(2,3) frag assms(4-7), of N s] last(3,4) by auto
    have g: "fst (grown m ?op p) \<in> {1, 2}" "cn_msg_len c'' \<le> length (cn_msg c'')" "cn_msg_len c'' \<le> 65536"
      "take (cn_msg_len c'') (cn_msg c'') = snd (grown m ?op p)"
      using F(2,3) by (auto simp: msg_as_def conn_safe_def MAX_PAYLOAD_def split: prod.splits)
    obtain s' where S: "send_frame N fd (fst (grown m ?op p)) (cn_msg c'') (cn_msg_len c'') s = Some (0, s')" "good s'" "inp s' = inp s"
      "out s' = out s @ server_frame (fst (grown m ?op p)) (snd (grown m ?op p))"
      using send_frame_writes [OF assms(1) data_opcodes(1) [OF g(1)] g(2,3)] unfolding g(4) by auto
    have "conn_safe fd (c''\<lparr>cn_msg_op := - 1\<rparr>)" "msg_as None (c''\<lparr>cn_msg_op := - 1\<rparr>)" "carried (c''\<lparr>cn_msg_op := - 1\<rparr>) = carried c"
      using F(2,4) by (simp_all add: conn_safe_def carry_ok_def msg_as_def carried_def)
    then show thesis using last S F(1) by (intro rest [of 0 "c''\<lparr>cn_msg_op := - 1\<rparr>" s']) (auto simp: data_done_def avail_def)
  qed
qed

end

lemma bad_codes: "parse_frame bs = Bad code \<Longrightarrow> code \<in> {1002, 1009}"
proof -
  assume b: "parse_frame bs = Bad code"
  then have two: "2 \<le> length bs" by (auto simp: parse_frame_def split: if_splits)
  show ?thesis using b unfolding parse_frame_alt [OF two] Let_def by (simp split: if_splits)
qed

lemma echo_Frame:
  assumes "parse_frame bs = Frame fin op p rest"
  shows "echo m bs = (if op = 8 then server_frame 8 p
     else if op = 9 then server_frame 10 p @ echo m rest
     else if op = 10 then echo m rest
     else case on_data m fin op p of Inl code \<Rightarrow> server_frame 8 (close_body code) | Inr (m', reply) \<Rightarrow> reply @ echo m' rest)"
  by (subst echo.simps) (simp add: assms)

lemma echo_stops:
  "parse_frame bs = Eof \<Longrightarrow> echo m bs = []" "parse_frame bs = Cut \<Longrightarrow> echo m bs = []"
  "parse_frame bs = Bad code \<Longrightarrow> echo m bs = server_frame 8 (close_body code)"
  by (subst echo.simps, simp)+

lemma on_data_code: "on_data m fin op p = Inl code \<Longrightarrow> code \<in> {1002, 1009}"
  by (auto simp: on_data_def split: option.splits if_splits)

context byte_stream begin

text \<open>A round that goes on has answered what it read, and one that does not has answered everything.\<close>

definition echoes :: "u8 list \<Rightarrow> u8 list \<Rightarrow> bool \<Rightarrow> conn \<Rightarrow> 's \<Rightarrow> bool" where
  "echoes want bs go c' s' \<longleftrightarrow>
     (if go then \<exists>m'. msg_as m' c' \<and> out s' @ echo m' (avail c' s') = want \<and> length (avail c' s') < length bs else out s' = want)"

lemma some_bool [simp]: "\<exists>go. \<not> go" "\<exists>go. go"
  by auto

lemma conn_act_echoes:
  assumes "good s" "conn_safe fd c" "msg_as m c" "length p = MAX_PAYLOAD" "frame_as (parse_frame bs) rc h p (avail c s)"
  shows "\<exists>go c' s'. conn_act N rc h p c s = Some (go, p, c', s') \<and> good s' \<and> conn_safe fd c' \<and> echoes (out s @ echo m bs) bs go c' s'"
proof -
  have f: "cn_fd c = fd" using assms(2) by (simp add: conn_safe_def)
  show ?thesis
  proof (cases "parse_frame bs")
    case Eof
    then have "rc = 0" using assms(5) by (simp add: frame_as_def)
    then show ?thesis using assms(1,2) echo_stops(1) [OF Eof, of m] by (simp add: conn_act_def echoes_def)
  next
    case Cut
    then have "rc = - 1" using assms(5) by (simp add: frame_as_def)
    then show ?thesis using assms(1,2) echo_stops(2) [OF Cut, of m] by (simp add: conn_act_def echoes_def)
  next
    case (Bad code)
    then have rc: "rc = code" "1 < rc" "0 \<le> rc" using assms(5) bad_codes [OF Bad] by (auto simp: frame_as_def)
    obtain s' where S: "send_close N fd rc s = Some (0, s')" "good s'" "out s' = out s @ server_frame 8 (close_body rc)"
      using send_close_writes [OF assms(1) rc(3)] unfolding close_body_def by metis
    then have "conn_act N rc h p c s = Some (False, p, c, s')" using rc f by (simp add: conn_act_def)
    then show ?thesis using S assms(2) echo_stops(3) [OF Bad, of m] rc(1) by (simp add: echoes_def)
  next
    case (Frame fin op pl rest)
    have h: "rc = 1" "(fh_fin h \<noteq> 0) = fin" "fh_opcode h = op" "fh_len h = length pl" "take (fh_len h) p = pl" "avail c s = rest"
      using assms(5) unfolding Frame by (simp_all add: frame_as_def)
    have pl: "op \<in> opcodes" "length pl \<le> 65536" using parse_frame_client [OF Frame] by metis+
    have len: "fh_len h \<le> length p" "fh_len h \<le> 65536" "fh_len h \<le> MAX_PAYLOAD" using pl(2) assms(4) h(4) by (simp_all add: MAX_PAYLOAD_def)
    have short: "length rest < length bs" by (rule parse_shrinks [OF Frame])
    note E = echo_Frame [OF Frame, of m]
    from opcode_kinds [OF pl(1)] consider (data) "op \<in> {0, 1, 2}" | (close) "op = 8" | (ping) "op = 9" | (pong) "op = 10" by auto
    then show ?thesis
    proof cases
      case close
      obtain s' where S: "send_frame N fd OP_CLOSE p (fh_len h) s = Some (0, s')" "good s'" "inp s' = inp s"
        "out s' = out s @ server_frame OP_CLOSE (take (fh_len h) p)"
        by (rule send_frame_writes [OF assms(1) data_opcodes(3) len(1,2)])
      then have "conn_act N rc h p c s = Some (False, p, c, s')" using h close f by (simp add: conn_act_def OP_CLOSE_def)
      then show ?thesis using S assms(2) E close h(5) by (simp add: echoes_def OP_CLOSE_def)
    next
      case ping
      obtain s' where S: "send_frame N fd OP_PONG p (fh_len h) s = Some (0, s')" "good s'" "inp s' = inp s"
        "out s' = out s @ server_frame OP_PONG (take (fh_len h) p)"
        by (rule send_frame_writes [OF assms(1) data_opcodes(4) len(1,2)])
      then have "conn_act N rc h p c s = Some (True, p, c, s')" using h ping f by (simp add: conn_act_def ws_codes)
      moreover have "avail c s' = rest" using S(3) h(6) by (simp add: avail_def)
      ultimately show ?thesis using S assms(2,3) E ping h(5) short by (auto simp: echoes_def OP_PONG_def intro!: exI [of _ m])
    next
      case pong
      then have "conn_act N rc h p c s = Some (True, p, c, s)" using h by (simp add: conn_act_def ws_codes)
      then show ?thesis using assms(1-3) E pong h(6) short by (auto simp: echoes_def intro!: exI [of _ m])
    next
      case data
      have "fh_opcode h \<in> {0, 1, 2}" using data h(3) by simp
      from on_data_frame_done [OF assms(1-4) h(5) len(3) this] obtain rc' c' s' where D:
        "on_data_frame N c h p s = Some (rc', c', s')" "good s'" "conn_safe fd c'" "data_done (on_data m fin op pl) rc' c s c' s'"
        unfolding h(2,3) by blast
      have A: "conn_act N rc h p c s = (if rc' < 0 then Some (False, p, c', s')
          else if rc' > 0 then do { (r, s) \<leftarrow> send_close N fd rc' s'; Some (False, p, c', s) } else Some (True, p, c', s'))"
        using data h D(1,3) by (auto simp: conn_act_def ws_codes conn_safe_def)
      have E: "echo m bs = (case on_data m fin op pl of Inl code \<Rightarrow> server_frame 8 (close_body code) | Inr (m', reply) \<Rightarrow> reply @ echo m' rest)"
        using E data by auto
      show ?thesis
      proof (cases "on_data m fin op pl")
        case (Inl code)
        then have rc': "rc' = code" "0 < rc'" "0 \<le> rc'" "out s' = out s" using D(4) on_data_code [OF Inl] by (auto simp: data_done_def)
        obtain s'' where S: "send_close N fd rc' s' = Some (0, s'')" "good s''" "out s'' = out s' @ server_frame 8 (close_body rc')"
          using send_close_writes [OF D(2) rc'(3)] unfolding close_body_def by metis
        then show ?thesis using A E Inl rc' D(3) by (simp add: echoes_def)
      next
        case (Inr r)
        obtain m' reply where r: "r = (m', reply)" by fastforce
        have "rc' = 0" "msg_as m' c'" "out s' = out s @ reply" "avail c' s' = rest"
          using D(4) h(6) unfolding Inr r by (simp_all add: data_done_def)
        then show ?thesis using A E D(2,3) Inr r short by (auto simp: echoes_def intro!: exI [of _ m'])
      qed
    qed
  qed
qed

lemma conn_step_echoes:
  assumes "good s" "conn_safe fd c" "msg_as m c" "length payload = MAX_PAYLOAD"
  obtains go p c' s' where "conn_step N c payload s = Some (go, p, c', s')" "good s'" "conn_safe fd c'" "length p = MAX_PAYLOAD"
    "echoes (out s @ echo m (avail c s)) (avail c s) go c' s'"
proof -
  have c: "carry_ok c" "cn_fd c = fd" using assms(2) by (simp_all add: conn_safe_def)
  obtain rc h p k s1 where R: "recv_frame N c \<lparr>fh_fin = 0, fh_opcode = 0, fh_len = 0\<rparr> payload s = Some (rc, h, p, c\<lparr>cn_off := k\<rparr>, s1)"
    "good s1" "out s1 = out s" "length p = MAX_PAYLOAD" "frame_as (parse_frame (avail c s)) rc h p (avail (c\<lparr>cn_off := k\<rparr>) s1)"
    by (rule recv_frame_reads [OF assms(1) c assms(4)])
  have c1: "conn_safe fd (c\<lparr>cn_off := k\<rparr>)" "msg_as m (c\<lparr>cn_off := k\<rparr>)" using assms(2,3) by simp_all
  from conn_act_echoes [OF R(2) c1 R(4,5)] R(1,3,4) show thesis by (auto simp: conn_step_def intro: that)
qed

theorem conn_loop_echoes:
  assumes "good s" "conn_safe fd c" "msg_as m c" "length payload = MAX_PAYLOAD"
  shows "\<exists>p c' s'. conn_loop N c payload s = Some (p, c', s') \<and> good s' \<and> conn_safe fd c' \<and> out s' = out s @ echo m (avail c s)"
  using assms
proof (induction "length (avail c s)" arbitrary: c m payload s rule: less_induct)
  case less
  obtain go p c' s' where S: "conn_step N c payload s = Some (go, p, c', s')" "good s'" "conn_safe fd c'" "length p = MAX_PAYLOAD"
    "echoes (out s @ echo m (avail c s)) (avail c s) go c' s'" by (rule conn_step_echoes [OF less(2-5)])
  show ?case
  proof (cases go)
    case True
    then obtain m' where m: "msg_as m' c'" "out s' @ echo m' (avail c' s') = out s @ echo m (avail c s)"
      "length (avail c' s') < length (avail c s)" using S(5) by (auto simp: echoes_def)
    have "conn_loop N c payload s = conn_loop N c' p s'" using S(1) True by (subst conn_loop.simps) simp
    then show ?thesis using less(1) [OF m(3) S(2,3) m(1) S(4)] m(2) by simp
  next
    case False
    then have "conn_loop N c payload s = Some (p, c', s')" using S(1) by (subst conn_loop.simps) simp
    then show ?thesis using S False by (simp add: echoes_def)
  qed
qed

end

end
