(* ===== verification/Ws_Handshake.thy ===== *)
theory Ws_Handshake
  imports Ws_Echo
begin

text \<open>
  The upgrade of \<^verbatim>\<open>examples/ws_echo/ws_echo.c\<close>: reading the request, scanning its headers, answering. A C
  string is the list of its bytes before the zero. The reference says from the bytes a client sends what it is
  answered, and which bytes are left for the frame reader.
\<close>

section \<open>Scanning\<close>

definition crlf :: "u8 list" where
  "crlf = [13, 10]"

function header_end_from :: "u8 list \<Rightarrow> nat \<Rightarrow> nat \<Rightarrow> nat" where
  "header_end_from buf len i =
     (if i < len then
        if buf ! (i - 3) = 13 \<and> buf ! (i - 2) = 10 \<and> buf ! (i - 1) = 13 \<and> buf ! i = 10 then i + 1
        else header_end_from buf len (i + 1)
      else 0)"
  by pat_completeness auto
termination by (relation "measure (\<lambda>(buf, len, i). len - i)") auto

declare header_end_from.simps [simp del]

definition find_header_end :: "u8 list \<Rightarrow> nat \<Rightarrow> nat" where
  "find_header_end buf len = header_end_from buf len 3"

text \<open>The C library's string functions: \<open>strstr\<close>, \<open>tolower\<close> in the C locale, \<open>strncasecmp(a, b, n) == 0\<close>, and
  \<open>s[i]\<close>, which is the terminating zero at the end.\<close>

fun strstr :: "u8 list \<Rightarrow> u8 list \<Rightarrow> u8 list option" where
  "strstr [] needle = (if needle = [] then Some [] else None)"
| "strstr (b # s) needle = (if take (length needle) (b # s) = needle then Some (b # s) else strstr s needle)"

definition tolower :: "u8 \<Rightarrow> u8" where
  "tolower b = (if 65 \<le> b \<and> b \<le> 90 then b + 32 else b)"

definition strncaseeq :: "u8 list \<Rightarrow> u8 list \<Rightarrow> nat \<Rightarrow> bool" where
  "strncaseeq a b n \<longleftrightarrow> map tolower (take n a) = map tolower (take n b)"

definition c_at :: "u8 list \<Rightarrow> nat \<Rightarrow> u8" where
  "c_at s i = (if i < length s then s ! i else 0)"

definition c_string :: "u8 list \<Rightarrow> u8 list" where
  "c_string = takeWhile (\<lambda>b. b \<noteq> 0)"

lemma strstr_suffix: "strstr s needle = Some t \<Longrightarrow> \<exists>pre. s = pre @ t \<and> take (length needle) t = needle"
proof (induction s)
  case (Cons b s)
  show ?case
  proof (cases "take (length needle) (b # s) = needle")
    case True
    then have "t = b # s" using Cons.prems by simp
    then show ?thesis using True by (intro exI [of _ "[]"]) simp
  next
    case False
    then have "strstr s needle = Some t" using Cons.prems by (simp split: if_splits)
    then obtain pre where "s = pre @ t" "take (length needle) t = needle" using Cons.IH by auto
    then show ?thesis by (intro exI [of _ "b # pre"]) simp
  qed
qed (simp split: if_splits)

text \<open>The loop of \<open>find_header\<close>, from the line on which \<open>strstr\<close> is called next.\<close>

function find_header :: "u8 list \<Rightarrow> u8 list \<Rightarrow> (u8 list \<times> nat) option" where
  "find_header req name =
     (case strstr req crlf of
        None \<Rightarrow> None
      | Some line \<Rightarrow>
          let line = drop 2 line; nlen = length name in
          if strncaseeq line name nlen \<and> c_at line nlen = of_char CHR '':'' then
            let v = dropWhile (\<lambda>b. b = of_char CHR '' '' \<or> b = 9) (drop (nlen + 1) line) in
            (case strstr v crlf of
               None \<Rightarrow> None
             | Some e \<Rightarrow> Some (v, length v - length e))
          else find_header line name)"
  by pat_completeness auto
termination
proof (relation "measure (length \<circ> fst)")
  fix req name :: "u8 list" and line l :: "u8 list" and nlen :: nat
  assume "strstr req crlf = Some l" "line = drop 2 l"
  then show "((line, name), (req, name)) \<in> measure (length \<circ> fst)"
    using strstr_suffix [of req crlf l] by (auto simp: crlf_def) (cases l; auto simp: Suc_le_eq)+
qed simp

declare find_header.simps [simp del]

definition header_is :: "u8 list \<Rightarrow> u8 list \<Rightarrow> u8 list \<Rightarrow> bool" where
  "header_is req name want =
     (case find_header req name of
        None \<Rightarrow> False
      | Some (v, vlen) \<Rightarrow> vlen = length want \<and> strncaseeq v want vlen)"

section \<open>Answering\<close>

text \<open>What \<open>snprintf\<close> leaves in a buffer of \<open>cap\<close> bytes; it returns the length of the whole string.\<close>

definition snprintf_buf :: "nat \<Rightarrow> u8 list \<Rightarrow> u8 list" where
  "snprintf_buf cap s = take (cap - 1) s @ [0]"

definition reject :: "'s net \<Rightarrow> int \<Rightarrow> u8 list \<Rightarrow> 's \<Rightarrow> 's option" where
  "reject N fd status s =
     (let text = ascii ''HTTP/1.1 '' @ status @ crlf @ ascii ''Connection: close'' @ crlf @ crlf; n = length text in
      if n > 0 then do {
        bs \<leftarrow> buf_get 0 n (snprintf_buf 128 text);
        (r, s) \<leftarrow> nt_write N fd bs s;
        Some s
      }
      else Some s)"

text \<open>The reading loop of \<open>do_handshake\<close>: the end of the request, or 0 where the function returns -1.\<close>

function read_request :: "'s net \<Rightarrow> int \<Rightarrow> u8 list \<Rightarrow> nat \<Rightarrow> 's \<Rightarrow> (nat \<times> nat \<times> u8 list \<times> 's) option" where
  "read_request N fd req got s =
     (if got \<ge> MAX_REQUEST - 1 then
        map_option (\<lambda>s. (0, got, req, s)) (reject N fd (ascii ''431 Request Header Fields Too Large'') s)
      else
        case nt_read N fd (MAX_REQUEST - 1 - got) s of
          None \<Rightarrow> None
        | Some ((r, bs), s) \<Rightarrow>
            (case buf_put got bs req of
               None \<Rightarrow> None
             | Some req \<Rightarrow>
                 if r \<le> 0 then Some (0, got, req, s)
                 else
                   let got = got + nat r; e = find_header_end req got in
                   if e \<noteq> 0 then Some (e, got, req, s) else read_request N fd req got s))"
  by pat_completeness auto
termination by (relation "measure (\<lambda>(N, fd, req, got, s). MAX_REQUEST - got)") auto

declare read_request.simps [simp del]

definition WS_MAGIC :: "u8 list" where
  "WS_MAGIC = ascii ''258EAFA5-E914-47DA-95CA-C5AB0DC85B11''"

definition switching :: "u8 list \<Rightarrow> u8 list" where
  "switching accept =
     ascii ''HTTP/1.1 101 Switching Protocols'' @ crlf @ ascii ''Upgrade: websocket'' @ crlf @
     ascii ''Connection: Upgrade'' @ crlf @ ascii ''Sec-WebSocket-Accept: '' @ accept @ crlf @ crlf"

definition do_handshake :: "'s net \<Rightarrow> conn \<Rightarrow> 's \<Rightarrow> (int \<times> conn \<times> 's) option" where
  "do_handshake N c s = do {
     (hdr_end, got, req, s) \<leftarrow> read_request N (cn_fd c) (cn_carry c) 0 s;
     if hdr_end = 0 then Some (- 1, c\<lparr>cn_carry := req\<rparr>, s)
     else
       let saved = req ! (hdr_end - 1);
           req = req[hdr_end - 1 := 0];
           text = c_string req;
           key = find_header text (ascii ''Sec-WebSocket-Key'');
           ok = (take 4 text = ascii ''GET '' \<and> header_is text (ascii ''Upgrade'') (ascii ''websocket'') \<and>
             header_is text (ascii ''Sec-WebSocket-Version'') (ascii ''13''));
           c = c\<lparr>cn_carry := req[hdr_end - 1 := saved], cn_off := hdr_end, cn_len := got\<rparr>
       in case key of
            Some (v, klen) \<Rightarrow>
              if ok \<and> klen > 0 \<and> klen \<le> 256 then do {
                k \<leftarrow> buf_get 0 klen v;
                concat \<leftarrow> buf_put 0 k (replicate (256 + 36) 0);
                concat \<leftarrow> buf_put klen WS_MAGIC concat;
                data \<leftarrow> buf_get 0 (klen + 36) concat;
                digest \<leftarrow> ws_sha1 data;
                let (n, accept) = ws_base64 digest 64;
                if n < 0 then Some (- 1, c, s)
                else
                  let resp = switching (c_string accept); rn = length resp in
                  if rn \<ge> 256 then Some (- 1, c, s)
                  else do {
                    bs \<leftarrow> buf_get 0 rn (snprintf_buf 256 resp);
                    (r, s) \<leftarrow> nt_write N (cn_fd c) bs s;
                    Some (if r < 0 then - 1 else 0, c, s)
                  }
              }
              else do { s \<leftarrow> reject N (cn_fd c) (ascii ''400 Bad Request'') s; Some (- 1, c, s) }
          | None \<Rightarrow> do { s \<leftarrow> reject N (cn_fd c) (ascii ''400 Bad Request'') s; Some (- 1, c, s) }
   }"

section \<open>The end of the request\<close>

text \<open>\<open>e\<close> is just past a CRLFCRLF.\<close>

definition ends_at :: "u8 list \<Rightarrow> nat \<Rightarrow> bool" where
  "ends_at bs e \<longleftrightarrow> 4 \<le> e \<and> bs ! (e - 4) = 13 \<and> bs ! (e - 3) = 10 \<and> bs ! (e - 2) = 13 \<and> bs ! (e - 1) = 10"

lemma header_end_step: "3 \<le> i \<Longrightarrow>
    header_end_from buf len i = (if i < len then if ends_at buf (i + 1) then i + 1 else header_end_from buf len (i + 1) else 0)"
  by (subst header_end_from.simps) (simp add: ends_at_def)

lemma header_end_first:
  assumes "3 \<le> i"
  shows "(if header_end_from buf len i = 0 then \<forall>e. i < e \<and> e \<le> len \<longrightarrow> \<not> ends_at buf e
     else i < header_end_from buf len i \<and> header_end_from buf len i \<le> len \<and> ends_at buf (header_end_from buf len i) \<and>
       (\<forall>e. i < e \<and> e < header_end_from buf len i \<longrightarrow> \<not> ends_at buf e))"
  using assms
proof (induction buf len i rule: header_end_from.induct)
  case (1 buf len i)
  show ?case
  proof (cases "i < len")
    case True
    show ?thesis
    proof (cases "ends_at buf (i + 1)")
      case e: True
      then show ?thesis using True by (auto simp: header_end_step [OF 1(2)])
    next
      case e: False
      then have "\<not> (buf ! (i - 3) = 13 \<and> buf ! (i - 2) = 10 \<and> buf ! (i - 1) = 13 \<and> buf ! i = 10)"
        using 1(2) by (simp add: ends_at_def)
      note IH = 1(1) [OF True this]
      have s: "header_end_from buf len i = header_end_from buf len (i + 1)" using True e by (simp add: header_end_step [OF 1(2)])
      have n: "i < k \<Longrightarrow> \<not> ends_at buf k" if "\<not> i + 1 < k" for k using that e by (metis Suc_eq_plus1 Suc_lessI)
      show ?thesis unfolding s using IH 1(2) n by (auto split: if_splits)
    qed
  qed (auto simp: header_end_step [OF 1(2)])
qed

lemma header_end_cong:
  assumes "3 \<le> i" "take len a = take len b"
  shows "header_end_from a len i = header_end_from b len i"
  using assms
proof (induction a len i rule: header_end_from.induct)
  case (1 a len i)
  have n: "a ! k = b ! k" if "k < len" for k using 1(3) that by (metis nth_take)
  then have e: "i < len \<Longrightarrow> ends_at a (i + 1) = ends_at b (i + 1)" using 1(2) by (simp add: ends_at_def)
  show ?case
  proof (cases "i < len \<and> \<not> ends_at a (i + 1)")
    case True
    then have "\<not> (a ! (i - 3) = 13 \<and> a ! (i - 2) = 10 \<and> a ! (i - 1) = 13 \<and> a ! i = 10)" using 1(2) by (simp add: ends_at_def)
    with 1(1) [OF _ this] True 1(2,3) e show ?thesis by (simp add: header_end_step [OF 1(2)])
  qed (use e in \<open>auto simp: header_end_step [OF 1(2)]\<close>)
qed

lemma header_end_longer:
  assumes "header_end_from b len i \<noteq> 0" "len \<le> len'" "3 \<le> i"
  shows "header_end_from b len' i = header_end_from b len i"
  using assms
proof (induction b len i rule: header_end_from.induct)
  case (1 b len i)
  have l: "i < len" "i < len'" using 1(2,3) by (auto simp: header_end_step [OF 1(4)] split: if_splits)
  show ?case
  proof (cases "ends_at b (i + 1)")
    case False
    then have "\<not> (b ! (i - 3) = 13 \<and> b ! (i - 2) = 10 \<and> b ! (i - 1) = 13 \<and> b ! i = 10)" using 1(4) by (simp add: ends_at_def)
    with 1(1) [OF l(1) this] False 1(2-4) l show ?thesis by (simp add: header_end_step [OF 1(4)])
  qed (use l in \<open>simp add: header_end_step [OF 1(4)]\<close>)
qed

lemma find_header_end_cong: "take len a = take len b \<Longrightarrow> find_header_end a len = find_header_end b len"
  unfolding find_header_end_def by (rule header_end_cong) simp_all

lemma find_header_end_longer: "find_header_end b len \<noteq> 0 \<Longrightarrow> len \<le> len' \<Longrightarrow> find_header_end b len' = find_header_end b len"
  unfolding find_header_end_def by (rule header_end_longer) simp_all

lemma find_header_end_bounds: "find_header_end b len \<noteq> 0 \<Longrightarrow> 3 < find_header_end b len \<and> find_header_end b len \<le> len"
  using header_end_first [of 3 b len] by (auto simp: find_header_end_def)

theorem find_header_end_first:
  assumes "len \<le> length buf"
  shows "find_header_end buf len = (if \<exists>e\<le>len. ends_at buf e then LEAST e. ends_at buf e else 0)"
proof (cases "find_header_end buf len = 0")
  case True
  then have "\<not> (\<exists>e\<le>len. ends_at buf e)" using header_end_first [of 3 buf len] by (auto simp: find_header_end_def ends_at_def)
  then show ?thesis using True by auto
next
  case False
  then have f: "find_header_end buf len \<le> len" "ends_at buf (find_header_end buf len)"
    "\<And>e. 3 < e \<Longrightarrow> e < find_header_end buf len \<Longrightarrow> \<not> ends_at buf e"
    using header_end_first [of 3 buf len] by (auto simp: find_header_end_def)
  then have "(LEAST e. ends_at buf e) = find_header_end buf len"
    by (intro Least_equality) (auto simp: ends_at_def not_less [symmetric])
  then show ?thesis using f by auto
qed

section \<open>Reading the request\<close>

text \<open>Where the request of a client ends, or 0; a request of \<open>MAX_REQUEST - 1\<close> bytes without an end is too large.\<close>

definition request_end :: "u8 list \<Rightarrow> nat" where
  "request_end bs = find_header_end bs (min (length bs) (MAX_REQUEST - 1))"

definition refused :: "u8 list \<Rightarrow> u8 list" where
  "refused status = ascii ''HTTP/1.1 '' @ status @ crlf @ ascii ''Connection: close'' @ crlf @ crlf"

lemma length_ascii [simp]: "length (ascii s) = length s"
  by (simp add: ascii_def)

lemma snprintf_get: "n = length s \<Longrightarrow> length s < cap \<Longrightarrow> buf_get 0 n (snprintf_buf cap s) = Some s"
  by (simp add: buf_get_def snprintf_buf_def)

lemma reject_alt:
  assumes "length status \<le> 80"
  shows "reject N fd status s = map_option snd (nt_write N fd (refused status) s)"
proof -
  have l: "length (refused status) < 128" "length (refused status) > 0" using assms by (simp_all add: refused_def crlf_def)
  show ?thesis unfolding reject_def Let_def refused_def [symmetric] snprintf_get [OF refl l(1)]
    using l(2) by (simp add: map_conv_bind_option split_def comp_def)
qed

context bounded_stream begin

lemma reject_safe: "good s \<Longrightarrow> length status \<le> 80 \<Longrightarrow> \<exists>s'. reject N fd status s = Some s' \<and> good s'"
  using write_returns [of s "refused status"] by (auto simp: reject_alt refused_def crlf_def)

lemma read_request_safe:
  assumes "good s" "length req = MAX_REQUEST" "got \<le> MAX_REQUEST - 1"
  shows "\<exists>e got' req' s'. read_request N fd req got s = Some (e, got', req', s') \<and> good s' \<and> length req' = MAX_REQUEST \<and>
    got' \<le> MAX_REQUEST - 1 \<and> e \<le> got'"
  using assms
proof (induction N\<equiv>N fd\<equiv>fd req got s rule: read_request.induct)
  case (1 req got s)
  show ?case
  proof (cases "got \<ge> MAX_REQUEST - 1")
    case True
    then show ?thesis using reject_safe [OF 1(2), of "ascii ''431 Request Header Fields Too Large''"] 1(3,4)
      by (subst read_request.simps) auto
  next
    case False
    have n: "0 < MAX_REQUEST - 1 - got" "MAX_REQUEST - 1 - got \<le> 65536" using False by (simp_all add: MAX_REQUEST_def)
    from read_bounded [OF 1(2) n] obtain r bs s' where
      r: "nt_read N fd (MAX_REQUEST - 1 - got) s = Some ((r, bs), s')" "length bs = nat r" "nat r \<le> MAX_REQUEST - 1 - got" "good s'" by auto
    let ?req = "take got req @ bs @ drop (got + length bs) req"
    have p: "buf_put got bs req = Some ?req" using r(2,3) 1(3,4) by (intro buf_put_ok) (simp add: MAX_REQUEST_def)
    have l: "length ?req = MAX_REQUEST" "got + nat r \<le> MAX_REQUEST - 1" using r(2,3) 1(3) False by (simp_all add: MAX_REQUEST_def)
    show ?thesis
    proof (cases "r \<le> 0 \<or> find_header_end ?req (got + nat r) \<noteq> 0")
      case stop: True
      then show ?thesis using False r p l 1(4) find_header_end_bounds [of ?req "got + nat r"]
        by (subst read_request.simps) (auto simp: Let_def)
    next
      case go: False
      then have "\<exists>e got' req' s''. read_request N fd ?req (got + nat r) s' = Some (e, got', req', s'') \<and> good s'' \<and>
          length req' = MAX_REQUEST \<and> got' \<le> MAX_REQUEST - 1 \<and> e \<le> got'"
        using 1(1) [OF False r(1) refl refl p _ refl refl] r(4) l by auto
      then show ?thesis using False go r(1) p by (subst read_request.simps) (simp add: Let_def)
    qed
  qed
qed

end

context byte_stream begin

lemma read_request_reads:
  assumes "good s" "length req = MAX_REQUEST" "got \<le> MAX_REQUEST - 1" "take got req @ inp s = bs" "find_header_end req got = 0"
  shows "\<exists>got' req' s'. read_request N fd req got s = Some (request_end bs, got', req', s') \<and> good s' \<and> length req' = MAX_REQUEST \<and>
    got' \<le> MAX_REQUEST - 1 \<and>
    (if request_end bs = 0 then out s' = out s @ (if MAX_REQUEST - 1 \<le> length bs then refused (ascii ''431 Request Header Fields Too Large'') else [])
     else request_end bs \<le> got' \<and> take got' req' @ inp s' = bs \<and> out s' = out s)"
  using assms
proof (induction N\<equiv>N fd\<equiv>fd req got s rule: read_request.induct)
  case (1 req got s)
  have lb: "length bs = got + length (inp s)" using 1(3-5) by (auto simp: MAX_REQUEST_def)
  have eq: "find_header_end req got = find_header_end bs got"
    using 1(3-5) by (intro find_header_end_cong) (auto simp: MAX_REQUEST_def)
  show ?case
  proof (cases "got \<ge> MAX_REQUEST - 1")
    case True
    let ?st = "ascii ''431 Request Header Fields Too Large''"
    have w: "refused ?st \<noteq> []" "length (refused ?st) \<le> 65536" "length ?st \<le> 80" by (simp_all add: refused_def crlf_def)
    from write_returns [OF 1(2) w(1,2)] obtain r s' where s': "nt_write N fd (refused ?st) s = Some (r, s')" "good s'" by auto
    have g: "got = MAX_REQUEST - 1" "min (length bs) (MAX_REQUEST - 1) = got" using True 1(4) lb by auto
    then have "request_end bs = 0" using eq 1(6) by (simp add: request_end_def)
    then show ?thesis using True g lb s' write_all [OF 1(2) w(1,2) s'(1)] 1(3)
      by (subst read_request.simps) (simp add: reject_alt [OF w(3)])
  next
    case False
    have n: "0 < MAX_REQUEST - 1 - got" "MAX_REQUEST - 1 - got \<le> 65536" using False by (simp_all add: MAX_REQUEST_def)
    from read_bounded [OF 1(2) n] obtain r bs' s' where
      r: "nt_read N fd (MAX_REQUEST - 1 - got) s = Some ((r, bs'), s')" "length bs' = nat r" "nat r \<le> MAX_REQUEST - 1 - got" "good s'" by auto
    let ?req = "take got req @ bs' @ drop (got + length bs') req"
    have p: "buf_put got bs' req = Some ?req" using r(2,3) 1(3,4) by (intro buf_put_ok) (simp add: MAX_REQUEST_def)
    have l: "length ?req = MAX_REQUEST" "got + nat r \<le> MAX_REQUEST - 1" using r(2,3) 1(3) False by (simp_all add: MAX_REQUEST_def)
    show ?thesis
    proof (cases "inp s = []")
      case end_: True
      from read_end [OF 1(2) n end_ r(1)] have e: "r = 0" "out s' = out s" by auto
      have "min (length bs) (MAX_REQUEST - 1) = got" using end_ lb 1(4) by simp
      then have "request_end bs = 0" using eq 1(6) by (simp add: request_end_def)
      then show ?thesis using False r p l e end_ lb 1(4) by (subst read_request.simps) simp
    next
      case some: False
      from read_some [OF 1(2) n some r(1)] have e: "0 < r" "inp s = bs' @ inp s'" "out s' = out s" by auto
      have t: "take (got + nat r) ?req = take got req @ bs'" using r(2) 1(3,4) by (simp add: MAX_REQUEST_def)
      have b: "take (got + nat r) ?req @ inp s' = bs" using 1(5) e(2) unfolding t by simp
      have k: "find_header_end ?req (got + nat r) = find_header_end bs (got + nat r)"
        using b l r(2) 1(3,4) by (intro find_header_end_cong) (auto simp: MAX_REQUEST_def)
      show ?thesis
      proof (cases "find_header_end ?req (got + nat r) = 0")
        case True
        have IH: "\<exists>got' req' s''. read_request N fd ?req (got + nat r) s' = Some (request_end bs, got', req', s'') \<and> good s'' \<and>
          length req' = MAX_REQUEST \<and> got' \<le> MAX_REQUEST - 1 \<and>
          (if request_end bs = 0 then out s'' = out s' @ (if MAX_REQUEST - 1 \<le> length bs then refused (ascii ''431 Request Header Fields Too Large'') else [])
           else request_end bs \<le> got' \<and> take got' req' @ inp s'' = bs \<and> out s'' = out s')"
          using 1(1) [OF False r(1) refl refl p _ refl refl] True e(1) r(4) l b by simp
        have "read_request N fd req got s = read_request N fd ?req (got + nat r) s'"
          using False True r(1) p e(1) by (subst read_request.simps) (simp add: Let_def)
        then show ?thesis using IH unfolding e(3) by (simp only:)
      next
        case found: False
        have "got + nat r \<le> min (length bs) (MAX_REQUEST - 1)" using l(2) e(2) r(2) lb by simp
        then have q: "request_end bs = find_header_end ?req (got + nat r)"
          using found unfolding request_end_def k by (rule find_header_end_longer [rotated])
        then show ?thesis using False found r p e l b find_header_end_bounds [OF found]
          by (subst read_request.simps) (simp add: Let_def)
      qed
    qed
  qed
qed

end

section \<open>The answer\<close>

text \<open>The key of a request that asks for the upgrade; \<open>head\<close> is the request up to its last byte.\<close>

definition upgrade_key :: "u8 list \<Rightarrow> u8 list option" where
  "upgrade_key head =
     (let text = c_string head in
      case find_header text (ascii ''Sec-WebSocket-Key'') of
        None \<Rightarrow> None
      | Some (v, n) \<Rightarrow>
          if take 4 text = ascii ''GET '' \<and> header_is text (ascii ''Upgrade'') (ascii ''websocket'') \<and>
             header_is text (ascii ''Sec-WebSocket-Version'') (ascii ''13'') \<and> 0 < n \<and> n \<le> 256
          then Some (take n v) else None)"

definition accept_key :: "u8 list \<Rightarrow> u8 list" where
  "accept_key key = b64_loop (fips_sha1 (key @ WS_MAGIC))"

lemma find_header_value: "find_header req name = Some (v, n) \<Longrightarrow> n \<le> length v"
proof (induction req name rule: find_header.induct)
  case (1 req name)
  then obtain l where l: "strstr req crlf = Some l" by (subst (asm) (2) find_header.simps) (auto split: option.splits)
  show ?case
  proof (cases "strncaseeq (drop 2 l) name (length name) \<and> c_at (drop 2 l) (length name) = of_char CHR '':''")
    case True
    then show ?thesis using 1(2) l by (subst (asm) find_header.simps) (auto simp: Let_def split: option.splits)
  next
    case False
    have "find_header req name = find_header (drop 2 l) name"
      by (subst find_header.simps) (simp only: l option.case Let_def if_not_P [OF False])
    then have "find_header (drop 2 l) name = Some (v, n)" using 1(2) by simp
    then show ?thesis using 1(1) [OF l refl refl] False by blast
  qed
qed

lemma b64_letter: "B64 ! unat (w AND 63 :: u32) \<noteq> 0"
proof -
  have "w AND 63 \<le> 63" by (rule word_and_le1)
  then have "unat (w AND 63) < length B64" by (simp add: word_le_nat_alt B64_def ascii_def)
  then have "B64 ! unat (w AND 63) \<in> set B64" by (rule nth_mem)
  moreover have "0 \<notin> set B64" by code_simp
  ultimately show ?thesis by metis
qed

lemma b64_no_zero: "0 \<notin> set (b64_loop inp)"
proof (induction inp rule: b64_loop.induct)
  case (1 inp)
  have "(of_char CHR ''='' :: u8) \<noteq> 0" by code_simp
  then show ?case using 1 by (subst b64_loop.simps) (auto simp: Let_def b64_letter b64_letter [symmetric])
qed

lemma length_fips: "length (fips_sha1 data) = 20"
  by (simp add: fips_sha1_def store_be32_def split: prod.split)

lemma c_string_zero: "0 \<notin> set s \<Longrightarrow> c_string (s @ 0 # t) = s"
  unfolding c_string_def by (subst takeWhile_append2) auto

lemma length_accept [simp]: "length (accept_key key) = 28"
  by (simp add: accept_key_def b64_loop_length length_fips)

lemma base64_accept: "ws_base64 (fips_sha1 (key @ WS_MAGIC)) 64 = (28, accept_key key @ [0])"
  by (simp add: ws_base64_def Let_def accept_key_def b64_loop_length length_fips)

lemma length_switching: "length (switching (accept_key key)) < 256"
  by (simp add: switching_def crlf_def)

lemma c_string_cut: "c_string (s @ 0 # t) = c_string s"
  unfolding c_string_def by (induction s) simp_all

lemma cut_string:
  assumes "0 < e" "e \<le> length req"
  shows "c_string (req[e - 1 := 0]) = c_string (take (e - 1) req)"
proof -
  have "req[e - 1 := 0] = take (e - 1) req @ 0 # drop e req" using assms by (simp add: upd_conv_take_nth_drop)
  then show ?thesis by (simp only: c_string_cut)
qed

text \<open>What the rest of \<open>do_handshake\<close> does with a request that has come.\<close>

lemma do_handshake_alt:
  assumes "read_request N (cn_fd c) (cn_carry c) 0 s = Some (e, got, req, s1)" "e \<noteq> 0" "e \<le> length req"
  shows "do_handshake N c s = (let c' = c\<lparr>cn_carry := req, cn_off := e, cn_len := got\<rparr> in
    case upgrade_key (take (e - 1) req) of
      None \<Rightarrow> map_option (\<lambda>s. (- 1, c', s)) (reject N (cn_fd c) (ascii ''400 Bad Request'') s1)
    | Some k \<Rightarrow> map_option (\<lambda>(r, s). (if r < 0 then - 1 else 0, c', s)) (nt_write N (cn_fd c) (switching (accept_key k)) s1))"
proof -
  have r: "req[e - 1 := 0, e - 1 := req ! (e - 1)] = req" by simp
  have t: "c_string (req[e - 1 := 0]) = c_string (take (e - 1) req)" using assms(2,3) by (intro cut_string) simp_all
  let ?f = "find_header (c_string (take (e - 1) req)) (ascii ''Sec-WebSocket-Key'')"
  show ?thesis
  proof (cases ?f)
    case None
    then show ?thesis using assms(2) unfolding do_handshake_def assms(1) Option.bind.simps prod.case if_not_P [OF assms(2)] Let_def t r upgrade_key_def
      by (simp add: map_conv_bind_option comp_def)
  next
    case (Some x)
    obtain v n where f: "?f = Some (v, n)" using Some by (cases x) simp
    have n: "n \<le> length v" by (rule find_header_value [OF f])
    have k: "buf_get 0 n v = Some (take n v)" using n by (simp add: buf_get_def)
    define b where "b = (take 4 (c_string (take (e - 1) req)) = ascii ''GET '' \<and>
      header_is (c_string (take (e - 1) req)) (ascii ''Upgrade'') (ascii ''websocket'') \<and>
      header_is (c_string (take (e - 1) req)) (ascii ''Sec-WebSocket-Version'') (ascii ''13''))"
    show ?thesis
    proof (cases "b \<and> 0 < n \<and> n \<le> 256")
      case False
      then have u: "upgrade_key (take (e - 1) req) = None" using f unfolding upgrade_key_def Let_def by (simp add: b_def)
      show ?thesis using False f
        unfolding do_handshake_def assms(1) u Option.bind.simps prod.case if_not_P [OF assms(2)] Let_def t r b_def [symmetric]
        by (auto simp: map_conv_bind_option comp_def)
    next
      case True
      let ?k = "take n v"
      have l: "length ?k = n" "length WS_MAGIC = 36" using n by (simp_all add: WS_MAGIC_def)
      have c1: "buf_put 0 ?k (replicate (256 + 36) 0) = Some (?k @ drop n (replicate (256 + 36) 0))"
        using True l by (subst buf_put_ok) simp_all
      have c2: "buf_put n WS_MAGIC (?k @ drop n (replicate (256 + 36) 0)) = Some (?k @ WS_MAGIC @ drop (n + 36) (replicate (256 + 36) 0))"
        using True l by (subst buf_put_ok) simp_all
      have c3: "buf_get 0 (n + 36) (?k @ WS_MAGIC @ drop (n + 36) (replicate (256 + 36) 0)) = Some (?k @ WS_MAGIC)"
        using l by (simp add: buf_get_def)
      have a: "c_string (accept_key ?k @ [0]) = accept_key ?k" unfolding accept_key_def by (intro c_string_zero b64_no_zero)
      note s = snprintf_get [OF refl length_switching [of ?k]]
      have u: "upgrade_key (take (e - 1) req) = Some ?k" using True f unfolding upgrade_key_def Let_def by (simp add: b_def)
      show ?thesis
        using True f assms(2) s length_switching [of ?k]
        unfolding do_handshake_def assms(1) u Option.bind.simps prod.case if_not_P [OF assms(2)] Let_def t r b_def [symmetric]
        by (simp add: k c1 [simplified] c2 [simplified] c3 [simplified] ws_sha1_fips base64_accept a map_conv_bind_option split_def comp_def)
    qed
  qed
qed

context bounded_stream begin

lemma do_handshake_safe:
  assumes "good s" "conn_safe fd c"
  shows "\<exists>r c' s'. do_handshake N c s = Some (r, c', s') \<and> good s' \<and> conn_safe fd c' \<and> r \<in> {- 1, 0}"
proof -
  have c: "cn_fd c = fd" "length (cn_carry c) = MAX_REQUEST" using assms(2) by (simp_all add: conn_safe_def carry_ok_def)
  obtain e got req s1 where R: "read_request N fd (cn_carry c) 0 s = Some (e, got, req, s1)" "good s1" "length req = MAX_REQUEST"
    "got \<le> MAX_REQUEST - 1" "e \<le> got" using read_request_safe [OF assms(1) c(2), of 0] by auto
  show ?thesis
  proof (cases "e = 0")
    case True
    then have "do_handshake N c s = Some (- 1, c\<lparr>cn_carry := req\<rparr>, s1)" using R(1) unfolding do_handshake_def c(1) by simp
    then show ?thesis using R assms(2) by (simp add: conn_safe_def carry_ok_def)
  next
    case False
    have el: "e \<le> length req" using R(3-5) by simp
    note A = do_handshake_alt [OF R(1) [folded c(1)] False el]
    have s: "conn_safe fd (c\<lparr>cn_carry := req, cn_off := e, cn_len := got\<rparr>)"
      using assms(2) R(3,4) by (simp add: conn_safe_def carry_ok_def)
    show ?thesis
    proof (cases "upgrade_key (take (e - 1) req)")
      case None
      then show ?thesis using reject_safe [OF R(2), of "ascii ''400 Bad Request''"] s by (auto simp: A Let_def c(1))
    next
      case (Some k)
      have "switching (accept_key k) \<noteq> []" "length (switching (accept_key k)) \<le> 65536"
        using length_switching [of k] by (simp_all add: switching_def crlf_def)
      from write_returns [OF R(2) this] obtain r s' where "nt_write N fd (switching (accept_key k)) s1 = Some (r, s')" "good s'" by auto
      then have "do_handshake N c s = Some (if r < 0 then - 1 else 0, c\<lparr>cn_carry := req, cn_off := e, cn_len := got\<rparr>, s')" "good s'"
        using Some by (simp_all add: A Let_def c(1))
      then show ?thesis using s by simp
    qed
  qed
qed

end

text \<open>What the client is told, and the bytes that are frames: none when it is refused.\<close>

definition upgrade :: "u8 list \<Rightarrow> u8 list \<times> u8 list option" where
  "upgrade bs =
     (let e = request_end bs in
      if e = 0 then (if MAX_REQUEST - 1 \<le> length bs then refused (ascii ''431 Request Header Fields Too Large'') else [], None)
      else
        case upgrade_key (take (e - 1) bs) of
          None \<Rightarrow> (refused (ascii ''400 Bad Request''), None)
        | Some k \<Rightarrow> (switching (accept_key k), Some (drop e bs)))"

context byte_stream begin

lemma do_handshake_answers:
  assumes "good s" "conn_safe fd c"
  shows "\<exists>c' s'. do_handshake N c s = Some (if snd (upgrade (inp s)) = None then - 1 else 0, c', s') \<and> good s' \<and> conn_safe fd c' \<and>
    cn_msg_op c' = cn_msg_op c \<and> out s' = out s @ fst (upgrade (inp s)) \<and>
    (case snd (upgrade (inp s)) of None \<Rightarrow> True | Some rest \<Rightarrow> avail c' s' = rest)"
proof -
  have c: "cn_fd c = fd" "length (cn_carry c) = MAX_REQUEST" using assms(2) by (simp_all add: conn_safe_def carry_ok_def)
  have z: "find_header_end (cn_carry c) 0 = 0" by (simp add: find_header_end_def header_end_step)
  obtain got req s1 where R: "read_request N fd (cn_carry c) 0 s = Some (request_end (inp s), got, req, s1)" "good s1" "length req = MAX_REQUEST"
    "got \<le> MAX_REQUEST - 1" "if request_end (inp s) = 0
       then out s1 = out s @ (if MAX_REQUEST - 1 \<le> length (inp s) then refused (ascii ''431 Request Header Fields Too Large'') else [])
       else request_end (inp s) \<le> got \<and> take got req @ inp s1 = inp s \<and> out s1 = out s"
    using read_request_reads [OF assms(1) c(2) _ _ z, of "inp s"] by auto
  let ?e = "request_end (inp s)"
  show ?thesis
  proof (cases "?e = 0")
    case True
    then have "do_handshake N c s = Some (- 1, c\<lparr>cn_carry := req\<rparr>, s1)" using R(1) unfolding do_handshake_def c(1) by simp
    then show ?thesis using R True assms(2) by (simp add: conn_safe_def carry_ok_def upgrade_def)
  next
    case False
    have el: "?e \<le> got" "take got req @ inp s1 = inp s" "out s1 = out s" using R(5) False by simp_all
    then have el: "?e \<le> length req" "?e \<le> got" "take got req @ inp s1 = inp s" "out s1 = out s"
      using R(3,4) by simp_all
    note A = do_handshake_alt [OF R(1) [folded c(1)] False el(1)]
    let ?c = "c\<lparr>cn_carry := req, cn_off := ?e, cn_len := got\<rparr>"
    have s: "conn_safe fd ?c" using assms(2) R(3,4) by (simp add: conn_safe_def carry_ok_def)
    have g: "got \<le> length req" using R(3,4) by simp
    have t: "take (?e - 1) req = take (?e - 1) (inp s)"
    proof -
      have "take (?e - 1) (inp s) = take (?e - 1) (take got req)"
        using el(2) g unfolding el(3) [symmetric] by (subst take_append) simp
      then show ?thesis using el(2) by (simp add: min_absorb1)
    qed
    have d: "carried ?c @ inp s1 = drop ?e (inp s)"
      using el(2) g unfolding el(3) [symmetric] by (simp add: carried_def drop_take)
    show ?thesis
    proof (cases "upgrade_key (take (?e - 1) req)")
      case None
      let ?st = "ascii ''400 Bad Request''"
      have w: "refused ?st \<noteq> []" "length (refused ?st) \<le> 65536" "length ?st \<le> 80" by (simp_all add: refused_def crlf_def)
      from write_returns [OF R(2) w(1,2)] obtain r s2 where s2: "nt_write N fd (refused ?st) s1 = Some (r, s2)" "good s2" by auto
      note o = write_all [OF R(2) w(1,2) s2(1)]
      show ?thesis using None None [unfolded t] False s s2 o el(4) by (simp add: A Let_def c(1) reject_alt [OF w(3)] upgrade_def)
    next
      case (Some k)
      have w: "switching (accept_key k) \<noteq> []" "length (switching (accept_key k)) \<le> 65536"
        using length_switching [of k] by (simp_all add: switching_def crlf_def)
      from write_returns [OF R(2) w] obtain r s2 where s2: "nt_write N fd (switching (accept_key k)) s1 = Some (r, s2)" "good s2" by auto
      note o = write_all [OF R(2) w s2(1)]
      show ?thesis using Some Some [unfolded t] False s s2 o el(4) d by (simp add: A Let_def c(1) upgrade_def avail_def)
    qed
  qed
qed

end

end
