(* ===== verification/Ws_Serve.thy ===== *)
theory Ws_Serve
  imports Ws_Handshake
begin

text \<open>
  A whole connection of \<^verbatim>\<open>examples/ws_echo/ws_echo.c\<close>, \<^verbatim>\<open>conn_fiber\<close>: its memory, the handshake, the echo loop
  and the cleanup. The locale \<open>conn_host\<close> adds to a byte stream which blocks are allocated and which descriptors have
  been closed. The reference is \<open>session\<close>; on it, that the messages of a client come back whole, however they were
  fragmented and masked.
\<close>

section \<open>conn_fiber\<close>

definition SIZEOF_CONN :: nat where
  "SIZEOF_CONN = 4144"

definition conn_fiber :: "'s net \<Rightarrow> int \<Rightarrow> 's \<Rightarrow> 's option" where
  "conn_fiber N arg s =
     (let (p, s) = nt_calloc N SIZEOF_CONN s in
      if p = 0 then Some (nt_close N arg s)
      else
        let ((q, payload), s) = nt_malloc N MAX_PAYLOAD s;
            ((r, msg), s) = nt_malloc N MAX_PAYLOAD s;
            c = \<lparr>cn_fd = arg, cn_carry = replicate MAX_REQUEST 0, cn_off = 0, cn_len = 0, cn_msg = msg, cn_msg_len = 0, cn_msg_op = - 1\<rparr>
        in do {
          (c, s) \<leftarrow> (if q = 0 \<or> r = 0 then Some (c, s)
            else do {
              (rc, c, s) \<leftarrow> do_handshake N c s;
              if rc < 0 then Some (c, s)
              else do { (payload, c, s) \<leftarrow> conn_loop N c payload s; Some (c, s) }
            });
          Some (nt_free N p (nt_close N (cn_fd c) (nt_free N r (nt_free N q s))))
        })"

section \<open>What it relies on\<close>

locale conn_host = byte_stream N fd good inp out
  for N :: "'s net" and fd :: int and good :: "'s \<Rightarrow> bool" and inp out :: "'s \<Rightarrow> u8 list" +
  fixes blocks :: "'s \<Rightarrow> u64 multiset" and closed :: "'s \<Rightarrow> int list"
  assumes read_keeps: "good s \<Longrightarrow> 0 < n \<Longrightarrow> n \<le> 65536 \<Longrightarrow> nt_read N fd n s = Some (rb, s') \<Longrightarrow> blocks s' = blocks s \<and> closed s' = closed s"
    and write_keeps: "good s \<Longrightarrow> bs \<noteq> [] \<Longrightarrow> length bs \<le> 65536 \<Longrightarrow> nt_write N fd bs s = Some (r, s') \<Longrightarrow> blocks s' = blocks s \<and> closed s' = closed s"
    and calloc_gives: "good s \<Longrightarrow> nt_calloc N n s = (p, s') \<Longrightarrow> good s' \<and> inp s' = inp s \<and> out s' = out s \<and> closed s' = closed s \<and>
      blocks s' = (if p = 0 then blocks s else add_mset p (blocks s))"
    and malloc_gives: "good s \<Longrightarrow> n < 2 ^ 64 \<Longrightarrow> nt_malloc N n s = ((p, bs), s') \<Longrightarrow> good s' \<and> inp s' = inp s \<and> out s' = out s \<and> closed s' = closed s \<and>
      blocks s' = (if p = 0 then blocks s else add_mset p (blocks s)) \<and> (p \<noteq> 0 \<longrightarrow> length bs = n)"
    and free_takes: "p = 0 \<or> p \<in># blocks s \<Longrightarrow> closed (nt_free N p s) = closed s \<and> out (nt_free N p s) = out s \<and>
      blocks (nt_free N p s) = (if p = 0 then blocks s else blocks s - {#p#})"
    and close_closes: "closed (nt_close N fd s) = closed s @ [fd] \<and> blocks (nt_close N fd s) = blocks s \<and> out (nt_close N fd s) = out s"

section \<open>The reference\<close>

text \<open>Everything a client is sent for the bytes it sends, when the server has the memory for it.\<close>

definition session :: "u8 list \<Rightarrow> u8 list" where
  "session bs = (case upgrade bs of (reply, None) \<Rightarrow> reply | (reply, Some rest) \<Rightarrow> reply @ echo None rest)"

definition granted :: "'s net \<Rightarrow> 's \<Rightarrow> bool" where
  "granted N s =
     (let (p, s) = nt_calloc N SIZEOF_CONN s; ((q, b), s) = nt_malloc N MAX_PAYLOAD s; ((r, b), s) = nt_malloc N MAX_PAYLOAD s
      in p \<noteq> 0 \<and> q \<noteq> 0 \<and> r \<noteq> 0)"

context conn_host begin

lemma host_stream: "byte_stream N fd (\<lambda>s. good s \<and> blocks s = B \<and> closed s = C) inp out"
proof
  fix s and n :: nat assume a: "good s \<and> blocks s = B \<and> closed s = C" "0 < n" "n \<le> 65536"
  then obtain r bs s' where r: "nt_read N fd n s = Some ((r, bs), s')" "length bs = nat r" "nat r \<le> n" "good s'"
    using read_bounded [of s n] by auto
  with a(1) show "\<exists>r bs s'. nt_read N fd n s = Some ((r, bs), s') \<and> length bs = nat r \<and> nat r \<le> n \<and>
      good s' \<and> blocks s' = B \<and> closed s' = C" using read_keeps [OF _ a(2,3) r(1)] by auto
next
  fix s and bs :: "u8 list" assume a: "good s \<and> blocks s = B \<and> closed s = C" "bs \<noteq> []" "length bs \<le> 65536"
  then obtain r s' where r: "nt_write N fd bs s = Some (r, s')" "good s'" using write_returns [of s bs] by auto
  with a(1) show "\<exists>r s'. nt_write N fd bs s = Some (r, s') \<and> good s' \<and> blocks s' = B \<and> closed s' = C"
    using write_keeps [OF _ a(2,3) r(1)] by auto
next
  fix s s' r bs and n :: nat
  assume "good s \<and> blocks s = B \<and> closed s = C" "0 < n" "n \<le> 65536" "inp s = []" "nt_read N fd n s = Some ((r, bs), s')"
  then show "r = 0 \<and> inp s' = [] \<and> out s' = out s" by (intro read_end) simp_all
next
  fix s s' r bs and n :: nat
  assume "good s \<and> blocks s = B \<and> closed s = C" "0 < n" "n \<le> 65536" "inp s \<noteq> []" "nt_read N fd n s = Some ((r, bs), s')"
  then show "0 < r \<and> inp s = bs @ inp s' \<and> out s' = out s" by (intro read_some) simp_all
next
  fix s s' r and bs :: "u8 list"
  assume "good s \<and> blocks s = B \<and> closed s = C" "bs \<noteq> []" "length bs \<le> 65536" "nt_write N fd bs s = Some (r, s')"
  then show "0 \<le> r \<and> inp s' = inp s \<and> out s' = out s @ bs" by (intro write_all) simp_all
qed

theorem conn_fiber_serves:
  assumes "good s"
  shows "\<exists>s'. conn_fiber N fd s = Some s' \<and> out s' = out s @ (if granted N s then session (inp s) else []) \<and>
    blocks s' = blocks s \<and> closed s' = closed s @ [fd]"
proof -
  obtain p s1 where p: "nt_calloc N SIZEOF_CONN s = (p, s1)" by fastforce
  obtain q payload s2 where q: "nt_malloc N MAX_PAYLOAD s1 = ((q, payload), s2)" by (metis surj_pair)
  obtain r msg s3 where r: "nt_malloc N MAX_PAYLOAD s2 = ((r, msg), s3)" by (metis surj_pair)
  have m: "MAX_PAYLOAD < 2 ^ 64" by (simp add: MAX_PAYLOAD_def)
  note P = calloc_gives [OF assms p]
  note Q = malloc_gives [OF P [THEN conjunct1] m q]
  note R = malloc_gives [OF Q [THEN conjunct1] m r]
  have g: "granted N s = (p \<noteq> 0 \<and> q \<noteq> 0 \<and> r \<noteq> 0)" by (simp add: granted_def p q r)
  define tidy where "tidy s = nt_free N p (nt_close N fd (nt_free N r (nt_free N q s)))" for s
  have D: "out (tidy s4) = out s4 \<and> blocks (tidy s4) = blocks s \<and> closed (tidy s4) = closed s4 @ [fd]"
    if "blocks s4 = blocks s3" "p \<noteq> 0" for s4
  proof -
    have b: "blocks s4 = (if r = 0 then {#} else {#r#}) + (if q = 0 then {#} else {#q#}) + {#p#} + blocks s" using that P Q R by simp
    let ?a = "nt_free N q s4" let ?b = "nt_free N r ?a" let ?c = "nt_close N fd ?b"
    have A: "closed ?a = closed s4 \<and> out ?a = out s4 \<and> blocks ?a = (if q = 0 then blocks s4 else blocks s4 - {#q#})"
      by (rule free_takes) (auto simp: b)
    have a: "blocks ?a = (if r = 0 then {#} else {#r#}) + {#p#} + blocks s" using A by (simp add: b)
    have B: "closed ?b = closed ?a \<and> out ?b = out ?a \<and> blocks ?b = (if r = 0 then blocks ?a else blocks ?a - {#r#})"
      by (rule free_takes) (auto simp: a)
    have c: "blocks ?c = {#p#} + blocks s" using B close_closes [of ?b] by (simp add: a)
    have C: "closed (nt_free N p ?c) = closed ?c \<and> out (nt_free N p ?c) = out ?c \<and>
        blocks (nt_free N p ?c) = (if p = 0 then blocks ?c else blocks ?c - {#p#})" by (rule free_takes) (simp add: c)
    show ?thesis using that(2) A B C c close_closes [of ?b] by (simp add: tidy_def)
  qed
  show ?thesis
  proof (cases "p = 0")
    case True
    then show ?thesis using P close_closes [of s1] g by (simp add: conn_fiber_def p)
  next
    case p0: False
    define c where "c = \<lparr>cn_fd = fd, cn_carry = replicate MAX_REQUEST 0, cn_off = 0, cn_len = 0, cn_msg = msg, cn_msg_len = 0, cn_msg_op = - 1\<rparr>"
    have F: "conn_fiber N fd s = do {
        (c, s) \<leftarrow> (if q = 0 \<or> r = 0 then Some (c, s3)
          else do {
            (rc, c, s) \<leftarrow> do_handshake N c s3;
            if rc < 0 then Some (c, s)
            else do { (payload, c, s) \<leftarrow> conn_loop N c payload s; Some (c, s) }
          });
        Some (nt_free N p (nt_close N (cn_fd c) (nt_free N r (nt_free N q s))))
      }" by (simp add: conn_fiber_def p q r p0 c_def)
    have o: "out s3 = out s" "inp s3 = inp s" "closed s3 = closed s" "good s3" using P Q R by simp_all
    show ?thesis
    proof (cases "q = 0 \<or> r = 0")
      case True
      then have "conn_fiber N fd s = Some (tidy s3)" by (auto simp: F tidy_def c_def)
      then show ?thesis using D [OF refl p0] o g True by auto
    next
      case False
      have len: "length msg = MAX_PAYLOAD" "length payload = MAX_PAYLOAD" using False Q R by auto
      have c: "conn_safe fd c" "cn_msg_op c = - 1" using len by (simp_all add: c_def conn_safe_def carry_ok_def MAX_REQUEST_def)
      let ?good = "\<lambda>s. good s \<and> blocks s = blocks s3 \<and> closed s = closed s3"
      have good3: "?good s3" using o(4) by simp
      obtain c4 s4 where H: "do_handshake N c s3 = Some (if snd (upgrade (inp s)) = None then - 1 else 0, c4, s4)" "?good s4"
        "conn_safe fd c4" "cn_msg_op c4 = - 1" "out s4 = out s @ fst (upgrade (inp s))"
        "case snd (upgrade (inp s)) of None \<Rightarrow> True | Some rest \<Rightarrow> avail c4 s4 = rest"
        using byte_stream.do_handshake_answers [OF host_stream good3 c(1)] c(2) o(1,2) by metis
      show ?thesis
      proof (cases "snd (upgrade (inp s))")
        case None
        then have "conn_fiber N fd s = Some (tidy s4)" using False H(1,3) by (simp add: F tidy_def conn_safe_def)
        moreover have "session (inp s) = fst (upgrade (inp s))" using None by (cases "upgrade (inp s)") (simp add: session_def)
        ultimately show ?thesis using D [of s4] H(2,5) p0 False g o(3) by auto
      next
        case (Some rest)
        have "msg_as None c4" using H(4) by (simp add: msg_as_def)
        from byte_stream.conn_loop_echoes [OF host_stream H(2,3) this len(2)] obtain pl c5 s5 where
          L: "conn_loop N c4 payload s4 = Some (pl, c5, s5)" "?good s5" "conn_safe fd c5" "out s5 = out s4 @ echo None (avail c4 s4)"
          by auto
        have a: "avail c4 s4 = rest" using H(6) Some by simp
        have "conn_fiber N fd s = Some (tidy s5)" using False H(1) L(1,3) Some by (simp add: F tidy_def conn_safe_def)
        moreover have "session (inp s) = fst (upgrade (inp s)) @ echo None rest"
          using Some by (cases "upgrade (inp s)") (simp add: session_def)
        ultimately show ?thesis using D [of s5] L(2,4) H(5) p0 False g o(3) a by auto
      qed
    qed
  qed
qed

end

section \<open>Messages come back\<close>

text \<open>A message is an opcode and its fragments, each with the key it is masked with.\<close>

fun fragments :: "int \<Rightarrow> (u8 list \<times> u8 list) list \<Rightarrow> u8 list" where
  "fragments op [] = []"
| "fragments op [(key, p)] = client_frame True op key p"
| "fragments op ((key, p) # f # fs) = client_frame False op key p @ fragments 0 (f # fs)"

definition payload_of :: "(u8 list \<times> u8 list) list \<Rightarrow> u8 list" where
  "payload_of fs = concat (map snd fs)"

definition legal :: "int \<times> (u8 list \<times> u8 list) list \<Rightarrow> bool" where
  "legal m \<longleftrightarrow> fst m \<in> {1, 2} \<and> snd m \<noteq> [] \<and> (\<forall>f\<in>set (snd m). length (fst f) = 4) \<and> length (payload_of (snd m)) \<le> 65536"

lemma echo_data_frame:
  assumes "op \<in> {0, 1, 2}" "length key = 4" "length p \<le> 65536" "on_data m fin op p = Inr (m', reply)"
  shows "echo m (client_frame fin op key p @ rest) = reply @ echo m' rest"
proof -
  have "parse_frame (client_frame fin op key p @ rest) = Frame fin op p rest"
    using assms(1-3) by (intro parse_client_frame) (auto simp: opcodes_def)
  from echo_Frame [OF this, of m] assms(1,4) show ?thesis by auto
qed

lemma echo_control_frame:
  assumes "length key = 4" "length p \<le> 125"
  shows "echo m (client_frame True 8 key p @ rest) = server_frame 8 p"
    "echo m (client_frame True 9 key p @ rest) = server_frame 10 p @ echo m rest"
    "echo m (client_frame True 10 key p @ rest) = echo m rest"
proof -
  have "parse_frame (client_frame True op key p @ rest) = Frame True op p rest" if "op \<in> {8, 9, 10}" for op
    using assms that by (intro parse_client_frame) (auto simp: opcodes_def)
  then show "echo m (client_frame True 8 key p @ rest) = server_frame 8 p"
    "echo m (client_frame True 9 key p @ rest) = server_frame 10 p @ echo m rest"
    "echo m (client_frame True 10 key p @ rest) = echo m rest"
    by (simp_all add: echo_Frame)
qed

lemma echo_continued:
  assumes "fs \<noteq> []" "\<forall>f\<in>set fs. length (fst f) = 4" "length acc + length (payload_of fs) \<le> 65536"
  shows "echo (Some (mop, acc)) (fragments 0 fs @ rest) = server_frame mop (acc @ payload_of fs) @ echo None rest"
  using assms
proof (induction "0 :: int" fs arbitrary: acc rule: fragments.induct)
  case (2 key p)
  then show ?case by (simp add: payload_of_def echo_data_frame on_data_def)
next
  case (3 key p f fs)
  have "echo (Some (mop, acc)) (client_frame False 0 key p @ fragments 0 (f # fs) @ rest) =
      [] @ echo (Some (mop, acc @ p)) (fragments 0 (f # fs) @ rest)"
    using 3(3,4) by (intro echo_data_frame) (auto simp: payload_of_def on_data_def)
  then show ?case using 3(1) [of "acc @ p"] 3(3,4) by (simp add: payload_of_def)
qed simp

lemma echo_message:
  assumes "legal (op, fs)"
  shows "echo None (fragments op fs @ rest) = server_frame op (payload_of fs) @ echo None rest"
proof -
  have a: "op \<in> {1, 2}" "\<forall>f\<in>set fs. length (fst f) = 4" "length (payload_of fs) \<le> 65536" using assms by (simp_all add: legal_def)
  consider key p where "fs = [(key, p)]" | key p f gs where "fs = (key, p) # f # gs"
    using assms by (cases fs; cases "tl fs") (auto simp: legal_def)
  then show ?thesis
  proof cases
    case 1
    then show ?thesis using a by (auto simp: payload_of_def on_data_def intro!: echo_data_frame)
  next
    case 2
    have "echo None (client_frame False op key p @ fragments 0 (f # gs) @ rest) = [] @ echo (Some (op, p)) (fragments 0 (f # gs) @ rest)"
      using a 2 by (intro echo_data_frame) (auto simp: payload_of_def on_data_def)
    then show ?thesis using a 2 echo_continued [of "f # gs" p op rest] by (simp add: payload_of_def)
  qed
qed

theorem echo_messages:
  assumes "list_all legal ms"
  shows "echo None (concat (map (\<lambda>(op, fs). fragments op fs) ms) @ rest) =
    concat (map (\<lambda>(op, fs). server_frame op (payload_of fs)) ms) @ echo None rest"
  using assms
proof (induction ms)
  case (Cons m ms)
  obtain op fs where m: "m = (op, fs)" by fastforce
  then show ?case using Cons echo_message [of op fs] by simp
qed simp

end
