(* ===== verification/Ws_Reactor.thy ===== *)
theory Ws_Reactor
  imports Ws_Serve Reactor_Calls Ring_Correct
begin

text \<open>
  The server on the reactor: the calls of \<open>Ws_Stream\<close> are \<^verbatim>\<open>cfiber_ev_read\<close> and \<^verbatim>\<open>cfiber_ev_write\<close> of
  \<open>Reactor_Calls\<close> and the system calls below them. What is relied on of the kernel is \<open>ready_socket\<close>, a connected
  socket that is always ready but reads and writes as few bytes as it likes and may be interrupted, and \<open>host_kernel\<close>, with
  allocation and \<open>close\<close>; both contracts give the ones of the server. \<open>sock_os\<close> is such a kernel.
\<close>

section \<open>The reactor's calls\<close>

text \<open>\<open>buf\<close> is the address of the C buffer; \<open>malloc(n)\<close> is \<open>realloc(NULL, n)\<close>.\<close>

definition ev_net :: "('v, 'k) renv \<Rightarrow> ('h, 'v, 'k) leave \<Rightarrow> rthread \<Rightarrow> u64 \<Rightarrow> ('h, 'v, 'k) rstate net" where
  "ev_net e leave th buf = \<lparr>
     nt_read = (\<lambda>fd n (s, w). do {
       (r, s, w) \<leftarrow> cfiber_ev_read e leave th s fd buf (of_nat n) w;
       Some ((r, load_bytes buf (word_of_int (max r 0)) (w_bytes w)), s, w)
     }),
     nt_write = (\<lambda>fd bs (s, w).
       cfiber_ev_write e leave th s fd buf (of_nat (length bs)) (w\<lparr>w_bytes := store_bytes buf bs (w_bytes w)\<rparr>)),
     nt_close = (\<lambda>fd (s, w). (s, snd (c_close e fd w))),
     nt_calloc = (\<lambda>n (s, w). let (p, k) = sys_calloc (e_sys e) 1 (of_nat n) (w_sys w) in (p, s, w\<lparr>w_sys := k\<rparr>)),
     nt_malloc = (\<lambda>n (s, w). let (p, k) = sys_realloc (e_sys e) 0 (of_nat n) (w_sys w)
       in ((p, load_bytes p (of_nat n) (w_bytes w)), s, w\<lparr>w_sys := k\<rparr>)),
     nt_free = (\<lambda>p (s, w). (s, w\<lparr>w_sys := sys_free (e_sys e) p (w_sys w)\<rparr>))\<rparr>"

lemma load_store:
  assumes "length bs < 2 ^ 64" "off \<le> length bs"
  shows "load_bytes (p + of_nat off) (of_nat (length bs) - of_nat off) (store_bytes p bs m) = drop off bs"
proof -
  have n: "unat (of_nat (length bs) - of_nat off :: u64) = length bs - off"
    using assms by (simp add: of_nat_diff [symmetric] unat_of_nat_small del: of_nat_diff)
  have u: "unat (of_nat (off + i) :: u64) = off + i" if "off + i < length bs" for i
    using that assms(1) by (intro unat_of_nat_small) simp
  have a: "p + of_nat off + of_nat i - p = of_nat (off + i)" for i by simp
  show ?thesis
  proof (rule nth_equalityI)
    fix i assume "i < length (load_bytes (p + of_nat off) (of_nat (length bs) - of_nat off) (store_bytes p bs m))"
    then have i: "i < length bs - off" by (simp add: load_bytes_def n)
    then have j: "off + i < length bs" by simp
    then have "unat (p + of_nat off + of_nat i - p :: u64) = off + i" unfolding a by (rule u)
    then show "load_bytes (p + of_nat off) (of_nat (length bs) - of_nat off) (store_bytes p bs m) ! i = drop off bs ! i"
      using i j by (simp add: load_bytes_def n store_bytes_def)
  qed (simp add: load_bytes_def n)
qed

section \<open>A socket that is ready\<close>

locale ready_socket =
  fixes e :: "('v, 'k) renv" and fd :: int and sin sout :: "'k \<Rightarrow> u8 list" and pending :: "'k \<Rightarrow> nat" and kept :: "'k \<Rightarrow> 'x"
  assumes socket_read: "0 < n \<Longrightarrow> n \<le> 65536 \<Longrightarrow> sys_read (e_sys e) fd n k = ((r, bs), k') \<Longrightarrow>
      kept k' = kept k \<and> (r = - EINTR \<and> bs = [] \<and> sin k' = sin k \<and> sout k' = sout k \<and> pending k' < pending k \<or>
      0 \<le> r \<and> length bs = nat r \<and> nat r \<le> n \<and> (r = 0 \<longleftrightarrow> sin k = []) \<and> sin k = bs @ sin k' \<and> sout k' = sout k)"
    and socket_write: "bs \<noteq> [] \<Longrightarrow> length bs \<le> 65536 \<Longrightarrow> sys_write (e_sys e) fd bs k = (r, k') \<Longrightarrow>
      kept k' = kept k \<and> (r = - EINTR \<and> sin k' = sin k \<and> sout k' = sout k \<and> pending k' < pending k \<or>
      0 < r \<and> nat r \<le> length bs \<and> sin k' = sin k \<and> sout k' = sout k @ take (nat r) bs \<and> pending k' \<le> pending k)"

lemma no_deadline: "deadline_after_opt e (- 1) w = (NO_DEADLINE, w)"
  by (simp add: deadline_after_opt_def)

context ready_socket begin

lemma read_loop_reads:
  assumes "0 < n" "n \<le> 65536"
  shows "\<exists>r bs w'. read_loop e leave th fd buf (of_nat n) d s w = Some (r, s, w') \<and>
    0 \<le> r \<and> length bs = nat r \<and> nat r \<le> n \<and> (r = 0 \<longleftrightarrow> sin (w_sys w) = []) \<and>
    sin (w_sys w) = bs @ sin (w_sys w') \<and> sout (w_sys w') = sout (w_sys w) \<and>
    kept (w_sys w') = kept (w_sys w) \<and> (\<exists>m. w_bytes w' = store_bytes buf bs m)"
proof (induction "pending (w_sys w)" arbitrary: w rule: less_induct)
  case less
  have u: "unat (of_nat n :: u64) = n" using assms by (intro unat_of_nat_small) simp
  obtain r bs k where r: "sys_read (e_sys e) fd n (w_sys w) = ((r, bs), k)" by (metis surj_pair)
  note K = socket_read [OF assms r]
  from K [THEN conjunct2] show ?case
  proof
    assume i: "r = - EINTR \<and> bs = [] \<and> sin k = sin (w_sys w) \<and> sout k = sout (w_sys w) \<and> pending k < pending (w_sys w)"
    let ?w = "w\<lparr>w_sys := k, w_bytes := store_bytes buf bs (w_bytes w), w_errno := EINTR\<rparr>"
    have "read_loop e leave th fd buf (of_nat n) d s w = read_loop e leave th fd buf (of_nat n) d s ?w"
      using i by (subst read_loop.simps) (simp add: c_read_def u r libc_ret_def errno_defs)
    then show ?thesis using less [of ?w] i K by simp
  next
    assume d: "0 \<le> r \<and> length bs = nat r \<and> nat r \<le> n \<and> (r = 0 \<longleftrightarrow> sin (w_sys w) = []) \<and> sin (w_sys w) = bs @ sin k \<and>
        sout k = sout (w_sys w)"
    let ?w = "w\<lparr>w_sys := k, w_bytes := store_bytes buf bs (w_bytes w)\<rparr>"
    have "read_loop e leave th fd buf (of_nat n) d s w = Some (r, s, ?w)"
      using d by (subst read_loop.simps) (simp add: c_read_def u r libc_ret_def)
    then show ?thesis using d K by (intro exI [of _ r] exI [of _ bs] exI [of _ ?w]) auto
  qed
qed

lemma write_loop_writes:
  assumes "length bs \<le> 65536" "off \<le> length bs" "w_bytes w = store_bytes buf bs m"
  shows "\<exists>w'. write_loop e leave th fd buf (of_nat (length bs)) d (of_nat off) s w = Some (int (length bs), s, w') \<and>
    sin (w_sys w') = sin (w_sys w) \<and> sout (w_sys w') = sout (w_sys w) @ drop off bs \<and> kept (w_sys w') = kept (w_sys w)"
  using assms
proof (induction "(length bs - off) + pending (w_sys w)" arbitrary: w off rule: less_induct)
  case less
  have u: "unat (of_nat j :: u64) = j" if "j \<le> 65536" for j using that by (intro unat_of_nat_small) simp
  have lt: "((of_nat off :: u64) < of_nat (length bs)) = (off < length bs)" using less(2,3) u by (simp add: word_less_nat_alt)
  show ?case
  proof (cases "off < length bs")
    case False
    then have "off = length bs" using less(3) by simp
    moreover have "sint (of_nat (length bs) :: u64) = int (length bs)"
      using less(2) by (intro sint_of_nat64) simp
    ultimately show ?thesis using lt by (subst write_loop.simps) simp
  next
    case True
    have "length bs < 2 ^ 64" using less(2) by simp
    note l = load_store [OF this less(3), of buf m]
    have d: "drop off bs \<noteq> []" "length (drop off bs) \<le> 65536" using True less(2) by simp_all
    obtain r k where r: "sys_write (e_sys e) fd (drop off bs) (w_sys w) = (r, k)" by (metis surj_pair)
    note K = socket_write [OF d r]
    from K [THEN conjunct2] show ?thesis
    proof
      assume i: "r = - EINTR \<and> sin k = sin (w_sys w) \<and> sout k = sout (w_sys w) \<and> pending k < pending (w_sys w)"
      let ?w = "w\<lparr>w_sys := k, w_errno := EINTR\<rparr>"
      have "write_loop e leave th fd buf (of_nat (length bs)) d (of_nat off) s w =
          write_loop e leave th fd buf (of_nat (length bs)) d (of_nat off) s ?w"
        using i True lt by (subst write_loop.simps) (simp add: c_write_def less(4) l r libc_ret_def errno_defs)
      moreover have "length bs - off + pending (w_sys ?w) < length bs - off + pending (w_sys w)" using i by simp
      note less(1) [OF this less(2,3)]
      ultimately show ?thesis using i K less(4) by simp
    next
      assume p: "0 < r \<and> nat r \<le> length (drop off bs) \<and> sin k = sin (w_sys w) \<and> sout k = sout (w_sys w) @ take (nat r) (drop off bs) \<and>
          pending k \<le> pending (w_sys w)"
      let ?w = "w\<lparr>w_sys := k\<rparr>"
      have o: "(of_nat off + word_of_int r :: u64) = of_nat (off + nat r)" using p by (simp add: of_nat_nat)
      have "write_loop e leave th fd buf (of_nat (length bs)) d (of_nat off) s w =
          write_loop e leave th fd buf (of_nat (length bs)) d (of_nat (off + nat r)) s ?w"
        using p True lt unfolding o [symmetric] by (subst write_loop.simps) (simp add: c_write_def less(4) l r libc_ret_def)
      moreover have "take (nat r) (drop off bs) @ drop (off + nat r) bs = drop off bs"
        by (metis add.commute append_take_drop_id drop_drop)
      moreover have "0 < nat r" "nat r \<le> length bs - off" "pending k \<le> pending (w_sys w)" using p by simp_all
      then have "length bs - (off + nat r) + pending (w_sys ?w) < length bs - off + pending (w_sys w)" using True by simp
      note less(1) [OF this less(2)]
      ultimately show ?thesis using p K less(4) True by auto
    qed
  qed
qed

end

lemma max_word: "0 \<le> r \<Longrightarrow> nat r < 2 ^ 64 \<Longrightarrow> (word_of_int (max r 0) :: u64) = of_nat (nat r)"
  by (simp add: of_nat_nat)

context ready_socket begin

lemma ev_read_reads:
  assumes n: "0 < n" "n \<le> 65536"
  shows "\<exists>r bs w'. nt_read (ev_net e leave th buf) fd n (s, w) = Some ((r, bs), s, w') \<and>
    0 \<le> r \<and> length bs = nat r \<and> nat r \<le> n \<and> (r = 0 \<longleftrightarrow> sin (w_sys w) = []) \<and>
    sin (w_sys w) = bs @ sin (w_sys w') \<and> sout (w_sys w') = sout (w_sys w) \<and> kept (w_sys w') = kept (w_sys w)"
proof -
  obtain r bs w' m where r: "read_loop e leave th fd buf (of_nat n) NO_DEADLINE s w = Some (r, s, w')"
    "0 \<le> r" "length bs = nat r" "nat r \<le> n" "r = 0 \<longleftrightarrow> sin (w_sys w) = []"
    "sin (w_sys w) = bs @ sin (w_sys w')" "sout (w_sys w') = sout (w_sys w)" "w_bytes w' = store_bytes buf bs m"
    "kept (w_sys w') = kept (w_sys w)"
    using read_loop_reads [OF n] by metis
  have l: "length bs < 2 ^ 64" using r(3,4) n(2) by simp
  then have "load_bytes buf (of_nat (length bs)) (w_bytes w') = bs" using load_store [OF l, of 0 buf m] r(8) by simp
  moreover have "(word_of_int (max r 0) :: u64) = of_nat (length bs)" using max_word [OF r(2)] l r(3) by simp
  ultimately have "nt_read (ev_net e leave th buf) fd n (s, w) = Some ((r, bs), s, w')"
    by (simp add: ev_net_def cfiber_ev_read_def read_impl_def no_deadline r(1))
  then show ?thesis using r by blast
qed

lemma ev_write_writes:
  assumes "length bs \<le> 65536"
  shows "\<exists>w'. nt_write (ev_net e leave th buf) fd bs (s, w) = Some (int (length bs), s, w') \<and>
    sin (w_sys w') = sin (w_sys w) \<and> sout (w_sys w') = sout (w_sys w) @ bs \<and> kept (w_sys w') = kept (w_sys w)"
  using write_loop_writes [OF assms, of 0 "w\<lparr>w_bytes := store_bytes buf bs (w_bytes w)\<rparr>" buf "w_bytes w"]
  by (simp add: ev_net_def cfiber_ev_write_def write_impl_def no_deadline)

end

text \<open>The reactor's calls on such a socket are a byte stream.\<close>

sublocale ready_socket \<subseteq> ev: byte_stream "ev_net e leave th buf" fd "\<lambda>_. True" "\<lambda>st. sin (w_sys (snd st))" "\<lambda>st. sout (w_sys (snd st))"
proof
  fix s :: "('a, 'v, 'k) rstate" and n :: nat
  assume n: "0 < n" "n \<le> 65536"
  note R = ev_read_reads [OF n, of leave th buf "fst s" "snd s"]
  from R show "\<exists>r bs s'. nt_read (ev_net e leave th buf) fd n s = Some ((r, bs), s') \<and> length bs = nat r \<and> nat r \<le> n \<and> True" by auto
  fix r bs s'
  assume e: "nt_read (ev_net e leave th buf) fd n s = Some ((r, bs), s')"
  {
    assume "sin (w_sys (snd s)) = []"
    with R e show "r = 0 \<and> sin (w_sys (snd s')) = [] \<and> sout (w_sys (snd s')) = sout (w_sys (snd s))" by auto
  next
    assume "sin (w_sys (snd s)) \<noteq> []"
    with R e show "0 < r \<and> sin (w_sys (snd s)) = bs @ sin (w_sys (snd s')) \<and> sout (w_sys (snd s')) = sout (w_sys (snd s))" by auto
  }
next
  fix s :: "('a, 'v, 'k) rstate" and bs :: "u8 list"
  assume l: "length bs \<le> 65536"
  note W = ev_write_writes [OF l, of leave th buf "fst s" "snd s"]
  from W show "\<exists>r s'. nt_write (ev_net e leave th buf) fd bs s = Some (r, s') \<and> True" by auto
  fix r s'
  assume "nt_write (ev_net e leave th buf) fd bs s = Some (r, s')"
  with W show "0 \<le> r \<and> sin (w_sys (snd s')) = sin (w_sys (snd s)) \<and> sout (w_sys (snd s')) = sout (w_sys (snd s)) @ bs" by auto
qed

section \<open>A kernel with memory\<close>

locale host_kernel = ready_socket e fd sin sout pending "\<lambda>k. (held k, shut k)"
  for e :: "('v, 'k) renv" and fd :: int and sin sout :: "'k \<Rightarrow> u8 list" and pending :: "'k \<Rightarrow> nat"
    and held :: "'k \<Rightarrow> u64 multiset" and shut :: "'k \<Rightarrow> int list" +
  assumes kernel_calloc: "sys_calloc (e_sys e) 1 m k = (p, k') \<Longrightarrow> sin k' = sin k \<and> sout k' = sout k \<and> shut k' = shut k \<and>
      held k' = (if p = 0 then held k else add_mset p (held k))"
    and kernel_malloc: "sys_realloc (e_sys e) 0 m k = (p, k') \<Longrightarrow> sin k' = sin k \<and> sout k' = sout k \<and> shut k' = shut k \<and>
      held k' = (if p = 0 then held k else add_mset p (held k))"
    and kernel_free: "p = 0 \<or> p \<in># held k \<Longrightarrow> shut (sys_free (e_sys e) p k) = shut k \<and> sout (sys_free (e_sys e) p k) = sout k \<and>
      held (sys_free (e_sys e) p k) = (if p = 0 then held k else held k - {#p#})"
    and kernel_close: "sys_close (e_sys e) fd k = (r, k') \<Longrightarrow> shut k' = shut k @ [fd] \<and> held k' = held k \<and> sout k' = sout k"

lemma load_bytes_length: "n < 2 ^ 64 \<Longrightarrow> length (load_bytes p (of_nat n) m) = n"
  by (simp add: load_bytes_def unat_of_nat_small)

lemma libc_ret_sys [simp]: "w_sys (snd (libc_ret r w)) = w_sys w"
  by (simp add: libc_ret_def)

text \<open>\<open>malloc\<close> is only asked for sizes that are C objects'.\<close>

sublocale host_kernel \<subseteq> host: conn_host "ev_net e leave th buf" fd "\<lambda>_. True" "\<lambda>st. sin (w_sys (snd st))" "\<lambda>st. sout (w_sys (snd st))"
  "\<lambda>st. held (w_sys (snd st))" "\<lambda>st. shut (w_sys (snd st))"
proof
  fix s s' :: "('a, 'v, 'k) rstate" and n :: nat and rb
  assume "0 < n" "n \<le> 65536" "nt_read (ev_net e leave th buf) fd n s = Some (rb, s')"
  then show "held (w_sys (snd s')) = held (w_sys (snd s)) \<and> shut (w_sys (snd s')) = shut (w_sys (snd s))"
    using ev_read_reads [of n leave th buf "fst s" "snd s"] by auto
next
  fix s s' :: "('a, 'v, 'k) rstate" and bs :: "u8 list" and r
  assume "length bs \<le> 65536" "nt_write (ev_net e leave th buf) fd bs s = Some (r, s')"
  then show "held (w_sys (snd s')) = held (w_sys (snd s)) \<and> shut (w_sys (snd s')) = shut (w_sys (snd s))"
    using ev_write_writes [of bs leave th buf "fst s" "snd s"] by auto
next
  fix s s' :: "('a, 'v, 'k) rstate" and n :: nat and p
  assume "nt_calloc (ev_net e leave th buf) n s = (p, s')"
  then show "True \<and> sin (w_sys (snd s')) = sin (w_sys (snd s)) \<and> sout (w_sys (snd s')) = sout (w_sys (snd s)) \<and>
      shut (w_sys (snd s')) = shut (w_sys (snd s)) \<and>
      held (w_sys (snd s')) = (if p = 0 then held (w_sys (snd s)) else add_mset p (held (w_sys (snd s))))"
    using kernel_calloc [of "of_nat n" "w_sys (snd s)"] by (auto simp: ev_net_def Let_def split: prod.splits)
next
  fix s s' :: "('a, 'v, 'k) rstate" and n :: nat and p bs
  assume "n < 2 ^ 64" "nt_malloc (ev_net e leave th buf) n s = ((p, bs), s')"
  then show "True \<and> sin (w_sys (snd s')) = sin (w_sys (snd s)) \<and> sout (w_sys (snd s')) = sout (w_sys (snd s)) \<and>
      shut (w_sys (snd s')) = shut (w_sys (snd s)) \<and>
      held (w_sys (snd s')) = (if p = 0 then held (w_sys (snd s)) else add_mset p (held (w_sys (snd s)))) \<and> (p \<noteq> 0 \<longrightarrow> length bs = n)"
    using kernel_malloc [of "of_nat n" "w_sys (snd s)"] by (auto simp: ev_net_def Let_def load_bytes_length split: prod.splits)
next
  fix s :: "('a, 'v, 'k) rstate" and p
  assume "p = 0 \<or> p \<in># held (w_sys (snd s))"
  then show "shut (w_sys (snd (nt_free (ev_net e leave th buf) p s))) = shut (w_sys (snd s)) \<and>
      sout (w_sys (snd (nt_free (ev_net e leave th buf) p s))) = sout (w_sys (snd s)) \<and>
      held (w_sys (snd (nt_free (ev_net e leave th buf) p s))) = (if p = 0 then held (w_sys (snd s)) else held (w_sys (snd s)) - {#p#})"
    using kernel_free [of p "w_sys (snd s)"] by (auto simp: ev_net_def split: prod.splits)
next
  fix s :: "('a, 'v, 'k) rstate"
  show "shut (w_sys (snd (nt_close (ev_net e leave th buf) fd s))) = shut (w_sys (snd s)) @ [fd] \<and>
      held (w_sys (snd (nt_close (ev_net e leave th buf) fd s))) = held (w_sys (snd s)) \<and>
      sout (w_sys (snd (nt_close (ev_net e leave th buf) fd s))) = sout (w_sys (snd s))"
    using kernel_close [of "w_sys (snd s)"] by (auto simp: ev_net_def c_close_def split: prod.splits)
qed

context ready_socket begin

lemma ev_stream: "byte_stream (ev_net e leave th buf) fd (\<lambda>_. True) (\<lambda>st. sin (w_sys (snd st))) (\<lambda>st. sout (w_sys (snd st)))"
  by (rule ev.byte_stream_axioms)

end

context host_kernel begin

lemma ev_host: "conn_host (ev_net e leave th buf) fd (\<lambda>_. True) (\<lambda>st. sin (w_sys (snd st))) (\<lambda>st. sout (w_sys (snd st)))
    (\<lambda>st. held (w_sys (snd st))) (\<lambda>st. shut (w_sys (snd st)))"
  by (rule host.conn_host_axioms)

end

section \<open>Such a kernel\<close>

text \<open>\<open>sk_plan\<close> says how many bytes each read or write may move, 0 being an interruption; when it is used up they
  move as many as asked.\<close>

record sock_state =
  sk_in :: "u8 list"
  sk_out :: "u8 list"
  sk_plan :: "nat list"
  sk_allocs :: nat
  sk_held :: "u64 multiset"
  sk_shut :: "int list"

definition sk_moves :: "nat \<Rightarrow> sock_state \<Rightarrow> nat option" where
  "sk_moves n k = (case sk_plan k of [] \<Rightarrow> Some n | m # ms \<Rightarrow> if m = 0 then None else Some (min m n))"

definition sk_alloc :: "sock_state \<Rightarrow> u64 \<times> sock_state" where
  "sk_alloc k = (let p = 4096 * (1 + of_nat (sk_allocs k)) in
     (p, k\<lparr>sk_allocs := sk_allocs k + 1, sk_held := (if p = 0 then sk_held k else add_mset p (sk_held k))\<rparr>))"

definition sock_os :: "sock_state sys" where
  "sock_os = \<lparr>
     sys_clock = (\<lambda>k. ((0, 0), k)),
     sys_realloc = (\<lambda>p n k. sk_alloc k),
     sys_calloc = (\<lambda>c n k. sk_alloc k),
     sys_aligned_alloc = (\<lambda>a n k. sk_alloc k),
     sys_free = (\<lambda>p k. if p = 0 then k else k\<lparr>sk_held := sk_held k - {#p#}\<rparr>),
     sys_epoll_ctl = (\<lambda>epfd op fd ev k. (0, k)),
     sys_epoll_wait = (\<lambda>epfd n t k. ((0, []), k)),
     sys_epoll_create = (\<lambda>k. (3, k)),
     sys_eventfd = (\<lambda>k. (4, k)),
     sys_read = (\<lambda>fd n k. case sk_moves n k of
         None \<Rightarrow> ((- EINTR, []), k\<lparr>sk_plan := tl (sk_plan k)\<rparr>)
       | Some m \<Rightarrow> ((int (length (take m (sk_in k))), take m (sk_in k)),
           k\<lparr>sk_plan := tl (sk_plan k), sk_in := drop m (sk_in k)\<rparr>)),
     sys_write = (\<lambda>fd bs k. case sk_moves (length bs) k of
         None \<Rightarrow> (- EINTR, k\<lparr>sk_plan := tl (sk_plan k)\<rparr>)
       | Some m \<Rightarrow> (int m, k\<lparr>sk_plan := tl (sk_plan k), sk_out := sk_out k @ take m bs\<rparr>)),
     sys_accept4 = (\<lambda>fd a l f m k. (- EAGAIN, m, k)),
     sys_connect = (\<lambda>fd a l m k. (0, k)),
     sys_so_error = (\<lambda>fd k. ((0, 0), k)),
     sys_fcntl = (\<lambda>fd op arg k. (0, k)),
     sys_close = (\<lambda>fd k. (0, k\<lparr>sk_shut := sk_shut k @ [fd]\<rparr>)),
     sys_sched_yield = (\<lambda>k. k)\<rparr>"

lemma sk_moves_cases:
  obtains "sk_moves n k = None" "length (tl (sk_plan k)) < length (sk_plan k)" | m where "sk_moves n k = Some m" "m \<le> n" "0 < n \<longrightarrow> 0 < m"
proof (cases "sk_plan k")
  case Nil
  then show ?thesis by (intro that(2) [of n]) (simp_all add: sk_moves_def)
next
  case (Cons m ms)
  then show ?thesis
  proof (cases "m = 0")
    case True
    then show ?thesis using Cons by (intro that(1)) (simp_all add: sk_moves_def)
  next
    case False
    then show ?thesis using Cons by (intro that(2) [of "min m n"]) (simp_all add: sk_moves_def)
  qed
qed

lemma min_0: "min a b = 0 \<longleftrightarrow> a = 0 \<or> b = (0 :: nat)"
  by (auto simp: min_def)

interpretation sock: host_kernel "e\<lparr>e_sys := sock_os\<rparr>" fd sk_in sk_out "\<lambda>k. length (sk_plan k)" sk_held sk_shut
  for e :: "('v, sock_state) renv" and fd :: int
proof
  fix k k' :: sock_state and n :: nat and r and bs :: "u8 list"
  assume a: "0 < n" "sys_read (e_sys (e\<lparr>e_sys := sock_os\<rparr>)) fd n k = ((r, bs), k')"
  show "(sk_held k', sk_shut k') = (sk_held k, sk_shut k) \<and>
      (r = - EINTR \<and> bs = [] \<and> sk_in k' = sk_in k \<and> sk_out k' = sk_out k \<and> length (sk_plan k') < length (sk_plan k) \<or>
       0 \<le> r \<and> length bs = nat r \<and> nat r \<le> n \<and> (r = 0 \<longleftrightarrow> sk_in k = []) \<and> sk_in k = bs @ sk_in k' \<and> sk_out k' = sk_out k)"
    using a by (cases rule: sk_moves_cases [of n k]) (auto simp: sock_os_def min_0)
next
  fix k k' :: sock_state and r and bs :: "u8 list"
  assume a: "bs \<noteq> []" "sys_write (e_sys (e\<lparr>e_sys := sock_os\<rparr>)) fd bs k = (r, k')"
  show "(sk_held k', sk_shut k') = (sk_held k, sk_shut k) \<and>
      (r = - EINTR \<and> sk_in k' = sk_in k \<and> sk_out k' = sk_out k \<and> length (sk_plan k') < length (sk_plan k) \<or>
       0 < r \<and> nat r \<le> length bs \<and> sk_in k' = sk_in k \<and> sk_out k' = sk_out k @ take (nat r) bs \<and> length (sk_plan k') \<le> length (sk_plan k))"
    using a by (cases rule: sk_moves_cases [of "length bs" k]) (auto simp: sock_os_def)
qed (auto simp: sock_os_def sk_alloc_def Let_def split: if_splits)

end
