(* ===== verification/Spec2Isabelle.thy ===== *)
theory Spec2Isabelle
  imports Scheduler_Properties Allocator_Properties Growable_Properties Reactor_Properties
    Reactor_Call_Properties Reactor_Handles Reactor_Posting Ring_Properties
    Ws_Properties
begin

text \<open>
  A verification library for cfiber, a C library of stackful fibers for hosted Linux and small embedded
  targets.

  \<^bold>\<open>The program.\<close> A fiber is a saved register context and a stack (\<^verbatim>\<open>src/cfiber/fiber\<close>). Stacks are
  fixed-size blocks, or reservations of virtual memory with a guard page kept in a cache
  (\<^verbatim>\<open>src/cfiber/stack\<close>). Blocks of fixed size come from slabs, bitmaps over a region, and multislabs, growing
  lists of slabs (\<^verbatim>\<open>src/cfiber/memory\<close>). Two loops run fibers: a cooperative scheduler
  (\<^verbatim>\<open>src/cfiber/scheduler\<close>), which takes its tasks from a multislab and its stacks from fixed-size blocks,
  and a reactor over epoll (\<^verbatim>\<open>src/cfiber/reactor\<close>), which takes its fibers from a multislab, its stacks from
  the growable ones, its timers from a binary heap, and commands of other threads from a lock-free ring.

  \<^bold>\<open>The layers.\<close> The theories and the code they model, from the bottom:

  \<^item> \<open>Prelude\<close>: the C integer types as words, \<^verbatim>\<open>macros.h\<close> and \<^verbatim>\<open>internal.h\<close> (\<open>ASSERT\<close> takes the build:
    in a debug build a failing assertion is \<open>None\<close>, with \<open>NDEBUG\<close> it is nothing), lemmas on words, alignment
    and options. \<open>Memory\<close>: bytes, little-endian words, the AddressSanitizer shadow.
  \<^item> \<open>Fifo\<close>, \<open>DList\<close>, \<open>Heap_List\<close>, \<open>Pool\<close>, \<open>Backing\<close>: the interfaces. \<open>fifo_ops\<close> is the contract of an
    intrusive queue, interpreted by the ready queues of scheduler and reactor; \<open>dlist_ops\<close> that of an intrusive
    doubly linked list, interpreted by the slab lists and by the reactor's live list; \<open>block_pool\<close> that of a
    pool of blocks, interpreted by the slab and, over every backing allocator, by the multislab;
    \<open>backing_allocator\<close> that of the callbacks a multislab grows with, interpreted by \<^verbatim>\<open>default_alloc\<close> and by
    the reactor's \<^verbatim>\<open>zeroing_alloc\<close>. \<open>Heap_List\<close> is the reference for the timer heap: a heap in a list.
  \<^item> \<open>Fiber\<close>: \<^verbatim>\<open>cfiber_init\<close>, the x86-64 context switch and prologue as transformations of a CPU state, the
    return hook.
  \<^item> \<open>Slab\<close>, \<open>Multislab\<close>, \<open>Multislab_Correct\<close>, \<open>Allocator_Properties\<close>: \<^verbatim>\<open>slab_alloc.c\<close> and
    \<^verbatim>\<open>multislab_alloc.c\<close>, the invariant of their bitmaps, lists and counters, and the operations against it.
  \<^item> \<open>Stack\<close>: stack descriptors, canary and watermark, fixed-size stacks. \<open>Growable\<close>,
    \<open>Growable_Properties\<close>: \<^verbatim>\<open>growable_stack.c\<close> and its allocator over \<open>vm_contract\<close>, what they rely on of
    mmap, mprotect and madvise, interpreted by the kernel model \<open>vm_kernel\<close>.
  \<^item> \<open>Scheduler\<close>, \<open>Scheduler_Correct\<close>, \<open>Scheduler_Properties\<close>: \<^verbatim>\<open>scheduler.c\<close>, its invariant, the round
    robin it refines, the end of a run, the memory of a whole life.
  \<^item> \<open>Reactor_Types\<close>, \<open>Timer_Heap\<close>, \<open>Cmd_Ring\<close>, \<open>Reactor\<close>, \<open>Reactor_Calls\<close>, \<open>Reactor_Run\<close>: every function
    of \<^verbatim>\<open>reactor.c\<close>, in its order: time, timer heap, ready queue, descriptor table and epoll set, parking, the
    fiber pool, commands, spawning; the \<^verbatim>\<open>cfiber_ev_*\<close> calls; the run loop, creation and destruction.
  \<^item> \<open>Kernel\<close>: \<open>kernel_contract\<close>, what the reactor relies on of epoll, eventfd, close and the C library's
    allocation, over the set of registrations; interpreted by \<open>demo_os\<close>.
  \<^item> \<open>Reactor_Inv\<close>, \<open>Reactor_Loop\<close>, \<open>Reactor_Fd\<close>, \<open>Reactor_Park\<close>, \<open>Reactor_World\<close>, \<open>Reactor_System\<close>,
    \<open>Reactor_Create\<close>: the invariant of the reactor and of the world it runs in, and each function against
    it, the locales \<open>reactor_env\<close>, \<open>reactor_world\<close> and \<open>reactor_libc\<close> adding the contracts one by one;
    \<open>Reactor_Demo\<close> interprets them all at once and makes the example.
  \<^item> \<open>Ring_Correct\<close>, \<open>Ring_Threads\<close>: the command ring called by one thread, and by any number of producers
    and a consumer interleaved at each atomic access.
  \<^item> \<open>Reactor_Properties\<close>, \<open>Reactor_Call_Properties\<close>, \<open>Reactor_Handles\<close>, \<open>Reactor_Posting\<close>,
    \<open>Ring_Properties\<close>: what the reactor promises.
  \<^item> \<open>Ws_Crypto\<close>, \<open>Ws_Stream\<close>, \<open>Ws_Frame\<close>, \<open>Ws_Codec\<close>, \<open>Ws_Echo\<close>, \<open>Ws_Handshake\<close>, \<open>Ws_Serve\<close>: a
    client of the reactor, the WebSocket echo server \<^verbatim>\<open>examples/ws_echo/ws_echo.c\<close>: SHA-1 and base64, the buffered
    reader, frames, the loop of \<^verbatim>\<open>conn_fiber\<close> with its reassembly of fragments, the upgrade request, and a whole
    connection with its memory. What a connection calls is the record \<open>net\<close>; the locales \<open>bounded_stream\<close> (a descriptor
    that may do anything but write outside the buffer), \<open>byte_stream\<close> (one that delivers what it is asked to) and
    \<open>conn_host\<close> (which also accounts for blocks and closed descriptors) are the contracts. The references are \<open>fips_sha1\<close>,
    \<open>parse_frame\<close>, \<open>upgrade\<close>, \<open>echo\<close> and \<open>session\<close>.
  \<^item> \<open>Ws_Reactor\<close>: these contracts from the reactor's own \<open>cfiber_ev_read\<close> and \<open>cfiber_ev_write\<close>, over a kernel that may
    interrupt a call and move as few bytes as it likes (\<open>ready_socket\<close>, \<open>host_kernel\<close>), interpreted by \<open>sock_os\<close>.
    \<open>Ws_Properties\<close>: what the server promises.

  \<^bold>\<open>State.\<close> Each C struct is a record with the C fields; a pointer is a 64-bit word, and the objects a
  component owns are a finite map from addresses (\<open>sc_tasks\<close>, \<open>re_blocks\<close>), so that aliasing, dangling
  and null pointers are what they are in C: a dereference outside the map is \<open>None\<close>. Operations return an
  \<open>option\<close> whose \<open>None\<close> is a failed assertion or such a dereference, never an error the code returns: those are
  values, with \<open>errno\<close> in the world. The kernel, the C heap and the mappings are parameters with a state of
  their own; what is assumed of them is in the locales named above.

  \<^bold>\<open>Interleaving.\<close> A fiber runs between two moves of its loop, so the scheduler and the reactor are step
  functions: \<open>sched_dispatch\<close> and the calls of the running task, and \<open>reactor_move\<close> of the loop (\<open>loop_step\<close>,
  with a program counter for the places where control leaves the loop's function), of the running fiber
  (\<open>fiber_call\<close>) or of another thread (\<open>post_cmd\<close>). A call that parks is cut at its switch (\<open>wait_begin\<close>,
  \<open>wait_end\<close>); the uncut call takes what happens in between as a parameter. \<open>due\<close> says which moves can come next,
  \<open>reactor_life\<close> which states are reached from \<^verbatim>\<open>cfiber_reactor_create\<close>.

  \<^bold>\<open>What is shown.\<close> For every component an invariant, that every operation keeps it and returns, and what
  the operation does on each branch. For the scheduler and the reactor that each move is one of an abstract round
  robin, that no due move is ever stuck, that a finished run leaves nothing behind and that the whole life gives all
  memory back. For the ring, that it is a bounded queue, sequentially by refinement and concurrently by an
  invariant over all interleavings, and that a posted command does what a direct one does. For timers, deadlines
  and the descriptor table their exact bounds. For the echo server, that no peer makes it leave its buffers, and that
  on a socket that works it answers exactly as the protocol reference does and ends with its memory given back.

  \<^bold>\<open>Bounds.\<close> Loops are structural, have a measure, or are partial functions whose result is proved to exist;
  the only fuel is the source's own retry count in \<open>post_loop\<close>. The command ring is covered up to \<open>2^62\<close> commands
  posted by the reactor's threads (\<open>2^63\<close> positions in the ring's own theorems), where the signed comparison of its
  sequence numbers would overflow. The page is a power of two from 256 bytes up and below \<open>2^32\<close>; a stack size must
  stay two pages clear of \<open>2^64\<close>, and what happens to the others is a property. A descriptor is a nonnegative C int.

  \<^bold>\<open>Not modelled.\<close> The ThreadSanitizer and AddressSanitizer switch hooks have no effect on the state above (the
  shadow of stacks is modelled). The assembly of the ARM and AArch64 ports, which this build does not use; of
  AArch64 the start context is. The C11 memory orders: atomic accesses are sequentially consistent here. The
  counters \<open>active\<close> and \<open>blocked\<close> are unbounded integers. A thread posting to the ring is one move of the
  system; its interleaving with the loop at single accesses is in \<open>Ring_Threads\<close>, for the ring alone. The
  system calls a fiber makes through the byte-stream and socket wrappers are modelled with the
  wrappers; the reactor's properties speak of the waits they are made of, those of the echo server of the wrappers on a
  socket that is ready (short and interrupted calls included), so that a read which parks is covered on the reactor's
  side only. Of the echo server the accept loop \<^verbatim>\<open>listen_fiber\<close> and the socket set-up \<^verbatim>\<open>ws_serve\<close>; the other
  examples, fuzzers, tests and board utilities are clients.
\<close>

end
